(* ===== verification/Prelude.thy ===== *)
theory Prelude
  imports Main "HOL-Library.Word"
begin

text \<open>
  Shared vocabulary of the development: the machine types of
  \<^verbatim>\<open>src/src/include/common/config.h\<close>, the loops over association lists that
  several containers of the code use (linear search, overwrite the first match,
  erase the first match) with their lemmas in terms of \<^const>\<open>map_of\<close>, and generic facts
  on lists, powers of two and low bits of words.
\<close>

unbundle bit_operations_syntax

named_theorems eht_simps \<open>unfolding rules of the extendible hash table\<close>
named_theorems lruk_simps \<open>unfolding rules of the LRU-K replacer\<close>
named_theorems bpm_simps \<open>unfolding rules of the buffer pool manager\<close>

text \<open>\<^verbatim>\<open>page_id_t\<close> and \<^verbatim>\<open>lsn_t\<close> are \<^verbatim>\<open>int32_t\<close>, \<^verbatim>\<open>frame_id_t\<close> is
  \<^verbatim>\<open>int32_t\<close>; page ids are counted up by an atomic, so they are kept at their width. Frame ids are only
  copied and compared; they are integers, and where the code makes one from a \<^verbatim>\<open>size_t\<close> the conversion is written
  out.\<close>

type_synonym page_id = "32 word"
type_synonym frame_id = int
type_synonym hash_val = "64 word"
type_synonym byte = "8 word"

text \<open>\<^verbatim>\<open>static_cast<frame_id_t>\<close> of a \<^verbatim>\<open>size_t\<close>: the low 32 bits, read as a signed number. It gives the
  number back only below \<open>2\<^sup>3\<^sup>1\<close>.\<close>

definition frame_cast :: "nat \<Rightarrow> frame_id" where
  "frame_cast m = sint (word_of_nat m :: 32 word)"

lemma frame_cast_id [simp]: "m < 2147483648 \<Longrightarrow> frame_cast m = int m"
  by (simp add: frame_cast_def signed_of_nat signed_take_bit_int_eq_self)

lemma frame_cast_upt [simp]: "n < 2147483648 \<Longrightarrow> map frame_cast [0..<n] = map int [0..<n]"
  by simp

definition INVALID_PAGE_ID :: page_id where
  "INVALID_PAGE_ID = - 1"

lemma unat_INVALID: "unat INVALID_PAGE_ID = 4294967295"
  by (simp add: INVALID_PAGE_ID_def unsigned_minus_1_eq_mask mask_eq_exp_minus_1)

definition BUSTUB_PAGE_SIZE :: nat where
  "BUSTUB_PAGE_SIZE = 4096"

lemma page_size_pos [simp]: "0 < BUSTUB_PAGE_SIZE"
  by (simp add: BUSTUB_PAGE_SIZE_def)

definition zero_page :: "byte list" where
  "zero_page = replicate BUSTUB_PAGE_SIZE 0"

lemma length_zero_page [simp]: "length zero_page = BUSTUB_PAGE_SIZE"
  by (simp add: zero_page_def)

section \<open>Errors\<close>

text \<open>Sequencing of steps that may throw: an error ends the computation.\<close>

definition ebind :: "'e + 'a \<Rightarrow> ('a \<Rightarrow> 'e + 'b) \<Rightarrow> 'e + 'b" where
  "ebind m f = (case m of Inl e \<Rightarrow> Inl e | Inr a \<Rightarrow> f a)"

lemma ebind_simps [simp]: "ebind (Inl e) f = Inl e" "ebind (Inr a) f = f a"
  by (simp_all add: ebind_def)

section \<open>Loops over association lists\<close>

fun alist_find :: "('k \<times> 'v) list \<Rightarrow> 'k \<Rightarrow> 'v option" where
  "alist_find [] key = None"
| "alist_find ((k, v) # kvs) key = (if k = key then Some v else alist_find kvs key)"

fun alist_erase :: "('k \<times> 'v) list \<Rightarrow> 'k \<Rightarrow> ('k \<times> 'v) list" where
  "alist_erase [] key = []"
| "alist_erase ((k, v) # kvs) key = (if k = key then kvs else (k, v) # alist_erase kvs key)"

fun alist_assign :: "('k \<times> 'v) list \<Rightarrow> 'k \<Rightarrow> 'v \<Rightarrow> ('k \<times> 'v) list" where
  "alist_assign [] key val = []"
| "alist_assign ((k, v) # kvs) key val =
     (if k = key then (k, val) # kvs else (k, v) # alist_assign kvs key val)"

lemma alist_find_eq [simp]: "alist_find kvs = map_of kvs"
proof
  fix key
  show "alist_find kvs key = map_of kvs key"
    by (induction kvs) auto
qed

lemma keys_alist_assign [simp]: "map fst (alist_assign kvs key val) = map fst kvs"
  by (induction kvs) auto

lemma length_alist_assign [simp]: "length (alist_assign kvs key val) = length kvs"
  by (induction kvs) auto

lemma map_of_alist_assign:
  "map_of (alist_assign kvs key val) =
     (if key \<in> fst ` set kvs then (map_of kvs)(key \<mapsto> val) else map_of kvs)"
proof (induction kvs)
  case (Cons kv kvs)
  obtain k v where kv: "kv = (k, v)" by (cases kv)
  show ?case
  proof (cases "k = key")
    case True
    with kv show ?thesis by simp
  next
    case False
    then have "key \<in> fst ` set (kv # kvs) \<longleftrightarrow> key \<in> fst ` set kvs" using kv by auto
    with Cons.IH kv False show ?thesis by (auto simp: fun_eq_iff)
  qed
qed simp

lemma alist_erase_notin [simp]: "key \<notin> fst ` set kvs \<Longrightarrow> alist_erase kvs key = kvs"
  by (induction kvs) auto

lemma set_alist_erase_subset: "set (alist_erase kvs key) \<subseteq> set kvs"
  by (induction kvs) (auto split: if_splits)

lemma alist_erase_eq_filter:
  "distinct (map fst kvs) \<Longrightarrow> alist_erase kvs key = filter (\<lambda>(k, v). k \<noteq> key) kvs"
proof (induction kvs)
  case (Cons kv kvs)
  obtain k v where kv: "kv = (k, v)" by (cases kv)
  have "filter (\<lambda>(k, v). k \<noteq> key) kvs = kvs" if "k = key"
    using Cons.prems kv that by (auto simp: filter_id_conv rev_image_eqI)
  with Cons kv show ?case by auto
qed simp

lemma distinct_alist_erase:
  "distinct (map fst kvs) \<Longrightarrow> distinct (map fst (alist_erase kvs key))"
  by (simp add: alist_erase_eq_filter distinct_map_filter)

lemma length_alist_erase: "length (alist_erase kvs key) \<le> length kvs"
  by (induction kvs) auto

lemma length_alist_erase_in:
  "key \<in> fst ` set kvs \<Longrightarrow> length (alist_erase kvs key) = length kvs - 1"
proof (induction kvs)
  case (Cons kv kvs)
  obtain k v where kv: "kv = (k, v)" by (cases kv)
  have "kvs \<noteq> []" if "key \<in> fst ` set kvs" using that by auto
  with Cons kv show ?case by (cases "k = key") auto
qed simp

lemma map_of_filter_key:
  "map_of (filter (\<lambda>(k, v). P k) kvs) key = (if P key then map_of kvs key else None)"
  by (induction kvs) auto

lemma map_of_alist_erase:
  "distinct (map fst kvs) \<Longrightarrow> map_of (alist_erase kvs key) = (map_of kvs)(key := None)"
  by (simp add: alist_erase_eq_filter fun_eq_iff map_of_filter_key)

lemma map_of_snoc:
  "key \<notin> fst ` set kvs \<Longrightarrow> map_of (kvs @ [(key, val)]) = (map_of kvs)(key \<mapsto> val)"
  by (induction kvs) (auto simp: fun_eq_iff)

lemma keys_alist_erase:
  "distinct (map fst kvs) \<Longrightarrow> fst ` set (alist_erase kvs key) = fst ` set kvs - {key}"
  by (auto simp: alist_erase_eq_filter image_iff)

lemma list_update_pair_twice:
  "i \<noteq> j \<Longrightarrow> xs[i := a, j := b, i := c, j := d] = xs[i := c, j := d]"
  by (metis list_update_overwrite list_update_swap)

section \<open>Counting in distinct lists\<close>

lemma length_filter_insert:
  assumes "distinct xs" "x \<in> set xs" "\<not> P x" "Q x" "\<And>y. y \<in> set xs \<Longrightarrow> y \<noteq> x \<Longrightarrow> Q y = P y"
  shows "length (filter Q xs) = Suc (length (filter P xs))"
proof -
  have "{y. Q y} \<inter> set xs = insert x ({y. P y} \<inter> set xs)" using assms by auto
  moreover have "x \<notin> {y. P y} \<inter> set xs" using assms(3) by simp
  ultimately show ?thesis by (simp add: distinct_length_filter [OF assms(1)])
qed

lemma length_filter_removeAll:
  assumes "distinct xs" "x \<in> set xs" "P x"
  shows "length (filter P xs) = Suc (length (filter P (removeAll x xs)))"
proof -
  have "length (filter P xs) = Suc (length (filter (\<lambda>y. y \<noteq> x \<and> P y) xs))"
    using assms by (intro length_filter_insert) auto
  moreover have "filter (\<lambda>y. y \<noteq> x \<and> P y) xs = filter P (removeAll x xs)"
    by (simp add: removeAll_filter_not_eq conj_commute eq_commute)
  ultimately show ?thesis by simp
qed

lemma find_SomeD: "find P xs = Some x \<Longrightarrow> x \<in> set xs \<and> P x"
  by (induction xs) (auto split: if_splits)

lemma find_append: "find P (xs @ ys) = (case find P xs of None \<Rightarrow> find P ys | Some x \<Rightarrow> Some x)"
  by (induction xs) auto

lemma find_rev_snoc: "find P (rev (xs @ [x])) = (if P x then Some x else find P (rev xs))"
  by simp

section \<open>Low bits\<close>

lemma unat_and_mask64:
  "d < 64 \<Longrightarrow> unat ((x :: hash_val) AND (push_bit d 1 - 1)) = unat x mod 2 ^ d"
proof -
  assume "d < 64"
  have "push_bit d 1 - 1 = (mask d :: hash_val)"
    by (simp add: mask_eq_exp_minus_1 push_bit_eq_mult)
  then have "x AND (push_bit d 1 - 1) = take_bit d x"
    by (simp add: take_bit_eq_mask)
  moreover have "unat (take_bit d x) = unat x mod 2 ^ d"
    unfolding unsigned_take_bit_eq by (rule take_bit_eq_mod)
  ultimately show ?thesis by simp
qed

lemma mod_pow2_Suc:
  "(i :: nat) mod 2 ^ Suc d = i mod 2 ^ d + (if bit i d then 2 ^ d else 0)"
  using take_bit_Suc_from_most [of d i] by (simp add: take_bit_eq_mod)

lemma mod_pow2_Suc_eq_iff:
  "(i :: nat) mod 2 ^ Suc d = j mod 2 ^ Suc d \<longleftrightarrow> i mod 2 ^ d = j mod 2 ^ d \<and> bit i d = bit j d"
proof -
  have i: "i mod 2 ^ d < 2 ^ d" and j: "j mod 2 ^ d < 2 ^ d" by simp_all
  show ?thesis
  proof (cases "bit i d = bit j d")
    case True
    then show ?thesis unfolding mod_pow2_Suc by simp
  next
    case False
    with i j show ?thesis
      by (cases "bit i d"; cases "bit j d") (auto simp only: mod_pow2_Suc if_True if_False)
  qed
qed

lemma mod_pow2_le_eq:
  assumes "d \<le> e" and "(i :: nat) mod 2 ^ e = j mod 2 ^ e"
  shows "i mod 2 ^ d = j mod 2 ^ d"
proof -
  have "i mod 2 ^ d = i mod 2 ^ e mod 2 ^ d" for i :: nat
    using assms(1) by (simp add: mod_mod_cancel le_imp_power_dvd)
  with assms(2) show ?thesis by metis
qed

lemma bit_mod_pow2:
  "d < e \<Longrightarrow> bit ((i :: nat) mod 2 ^ e) d = bit i d"
  by (simp add: bit_take_bit_iff flip: take_bit_eq_mod)

end
