(* ===== verification/Interfaces.thy ===== *)
theory Interfaces
  imports Prelude
begin

text \<open>
  The contracts between the components, as locales: what the buffer pool manager relies on
  in its page table, its replacer and its disk, each with the facts a client derives from the laws alone.
  The theory of the providing component interprets the locale on its definitions.
\<close>

section \<open>The page table\<close>

text \<open>A finite map with a partial \<open>insert\<close> (the loop of the hash table may fail or diverge
  in general); the law is that on well-formed tables it returns the updated map.\<close>

locale page_table =
  fixes find :: "'t \<Rightarrow> 'k \<Rightarrow> 'v option"
    and insert :: "'k \<Rightarrow> 'v \<Rightarrow> 't \<Rightarrow> ('e + 't) option"
    and remove :: "'t \<Rightarrow> 'k \<Rightarrow> bool \<times> 't"
    and inv :: "'t \<Rightarrow> bool"
  assumes remove_found: "inv t \<Longrightarrow> fst (remove t k) = (find t k \<noteq> None)"
    and remove_inv: "inv t \<Longrightarrow> inv (snd (remove t k))"
    and remove_find: "inv t \<Longrightarrow> find (snd (remove t k)) = (find t)(k := None)"
    and insert_total: "inv t \<Longrightarrow>
          \<exists>t'. insert k v t = Some (Inr t') \<and> inv t' \<and> find t' = (find t)(k \<mapsto> v)"
begin

lemma remap:
  assumes "inv t"
  shows "\<exists>t'. insert k v (snd (remove t old)) = Some (Inr t') \<and> inv t' \<and>
              find t' = (find t)(old := None, k \<mapsto> v)"
  using insert_total [OF remove_inv [OF assms, of old], of k v] remove_find [OF assms, of old] by simp

lemma remove_absent:
  assumes "inv t" "find t k = None"
  shows "find (snd (remove t k)) = find t"
  using remove_find [OF assms(1), of k] assms(2) by (simp add: fun_upd_idem)

end

section \<open>The replacer\<close>

text \<open>A replacer for \<open>n\<close> frames is seen as a partial map from the frames it tracks to their
  evictable flag. Eviction returns some evictable frame whenever there is one and forgets it.\<close>

locale evictor =
  fixes set_evictable :: "frame_id \<Rightarrow> bool \<Rightarrow> 's \<Rightarrow> 's"
    and evict :: "'s \<Rightarrow> ('e + frame_id option \<times> 's) option"
    and remove :: "frame_id \<Rightarrow> 's \<Rightarrow> 'e + 's"
    and view :: "'s \<Rightarrow> frame_id \<Rightarrow> bool option"
    and inv :: "nat \<Rightarrow> 's \<Rightarrow> bool"
  assumes set_inv: "inv n s \<Longrightarrow> inv n (set_evictable f b s)"
    and set_view: "inv n s \<Longrightarrow>
        view (set_evictable f b s) = (if view s f = None then view s else (view s)(f \<mapsto> b))"
    and evict_law: "inv n s \<Longrightarrow> \<exists>r s'. evict s = Some (Inr (r, s')) \<and> inv n s' \<and>
        (case r of None \<Rightarrow> (\<forall>f. view s f \<noteq> Some True) \<and> s' = s
         | Some f \<Rightarrow> view s f = Some True \<and> view s' = (view s)(f := None))"
    and remove_law: "inv n s \<Longrightarrow> view s f \<noteq> Some False \<Longrightarrow>
        \<exists>s'. remove f s = Inr s' \<and> inv n s' \<and> view s' = (view s)(f := None)"
begin

lemma evict_result:
  assumes "inv n s"
  obtains (none) "evict s = Some (Inr (None, s))" and "\<And>f. view s f \<noteq> Some True"
  | (some) f s' where "evict s = Some (Inr (Some f, s'))" and "inv n s'" and "view s f = Some True"
      and "view s' = (view s)(f := None)"
proof -
  obtain r s' where "evict s = Some (Inr (r, s'))" "inv n s'"
      "case r of None \<Rightarrow> (\<forall>f. view s f \<noteq> Some True) \<and> s' = s
       | Some f \<Rightarrow> view s f = Some True \<and> view s' = (view s)(f := None)"
    using evict_law [OF assms] by blast
  then show ?thesis using that by (cases r) auto
qed

end

text \<open>A replacer that in addition takes an access to every frame of the pool; an access to a new
  frame makes it evictable.\<close>

locale replacer = evictor +
  fixes record_access :: "frame_id \<Rightarrow> 'a \<Rightarrow> 'b + 'a"
  assumes record_law: "inv n s \<Longrightarrow> 0 \<le> f \<Longrightarrow> f < int n \<Longrightarrow>
        \<exists>s'. record_access f s = Inr s' \<and> inv n s' \<and>
          view s' = (view s)(f \<mapsto> (case view s f of None \<Rightarrow> True | Some b \<Rightarrow> b))"
begin

text \<open>How a client takes a frame into use: an access followed by a pin.\<close>

lemma pin_frame:
  assumes "inv n s" "0 \<le> f" "f < int n"
  obtains s' where "record_access f s = Inr s'" and "inv n (set_evictable f False s')"
    and "view (set_evictable f False s') = (view s)(f \<mapsto> False)"
proof -
  obtain s' where s': "record_access f s = Inr s'" "inv n s'"
      "view s' = (view s)(f \<mapsto> (case view s f of None \<Rightarrow> True | Some b \<Rightarrow> b))"
    using record_law [OF assms] by blast
  show ?thesis
    by (rule that [OF s'(1) set_inv [OF s'(2)]]) (simp add: set_view [OF s'(2)] s'(3))
qed

end

section \<open>The disk\<close>

text \<open>A disk is seen as a map from the valid page ids to pages. Reading copies into a buffer (the
  client passes a zeroed one), writing changes the page written and no other.\<close>

locale disk =
  fixes read_page :: "page_id \<Rightarrow> byte list \<Rightarrow> 'd \<Rightarrow> (byte list \<times> 'd) option"
    and write_page :: "page_id \<Rightarrow> byte list \<Rightarrow> 'd \<Rightarrow> 'd option"
    and page :: "'d \<Rightarrow> page_id \<Rightarrow> byte list"
    and valid :: "page_id \<Rightarrow> bool"
    and inv :: "'d \<Rightarrow> bool"
  assumes read_law: "inv d \<Longrightarrow> valid p \<Longrightarrow> read_page p zero_page d = Some (page d p, d)"
    and write_law: "inv d \<Longrightarrow> valid p \<Longrightarrow> length x = BUSTUB_PAGE_SIZE \<Longrightarrow>
        \<exists>d'. write_page p x d = Some d' \<and> inv d' \<and> page d' p = x \<and>
          (\<forall>q. valid q \<and> q \<noteq> p \<longrightarrow> page d' q = page d q)"
begin

text \<open>After any sequence of writes each page reads as its last write, or as before.\<close>

lemma writes_page:
  assumes "inv d" and "\<forall>w \<in> set ws. valid (fst w) \<and> length (snd w) = BUSTUB_PAGE_SIZE"
  shows "\<exists>d'. foldl (\<lambda>r w. Option.bind r (write_page (fst w) (snd w))) (Some d) ws = Some d' \<and> inv d' \<and>
    (\<forall>q. valid q \<longrightarrow> page d' q = (case map_of (rev ws) q of None \<Rightarrow> page d q | Some x \<Rightarrow> x))"
  using assms
proof (induction ws arbitrary: d)
  case (Cons w ws)
  obtain p x where w: "w = (p, x)" by (cases w)
  obtain d1 where d1: "write_page p x d = Some d1" "inv d1" "page d1 p = x"
      "\<forall>q. valid q \<and> q \<noteq> p \<longrightarrow> page d1 q = page d q"
    using write_law [of d p x] Cons.prems w by auto
  obtain d' where d': "foldl (\<lambda>r w. Option.bind r (write_page (fst w) (snd w))) (Some d1) ws = Some d'" "inv d'"
      "\<forall>q. valid q \<longrightarrow> page d' q = (case map_of (rev ws) q of None \<Rightarrow> page d1 q | Some x \<Rightarrow> x)"
    using Cons.IH [OF d1(2)] Cons.prems(2) by auto
  have "page d' q = (case map_of (rev (w # ws)) q of None \<Rightarrow> page d q | Some x \<Rightarrow> x)" if "valid q" for q
    using d'(3) that d1(3,4) by (cases "q = p") (auto simp: w map_add_def split: option.splits)
  then show ?case using d1(1) d'(1,2) w by auto
qed simp

end

end
