(* ===== verification/Extendible_Hash.thy ===== *)
theory Extendible_Hash
  imports Interfaces
begin

text \<open>
  The in-memory extendible hash table of
  \<^verbatim>\<open>src/src/container/hash/extendible_hash_table.cpp\<close>, which the buffer pool uses as its page
  table. The directory is a vector of shared pointers to buckets and several entries may
  point to the same bucket, so the buckets live in an explicit store (a list indexed by
  address) and the directory is a list of addresses. \<^verbatim>\<open>std::hash<K>\<close> is the parameter
  \<open>h\<close>. The \<^verbatim>\<open>while (true)\<close> loop of \<^verbatim>\<open>Insert\<close> is a partial function: \<^const>\<open>None\<close> is
  "does not return"; it is proved to return in every well-formed table.
  Every public operation of the class runs under \<^verbatim>\<open>latch_\<close>, so an operation is one step.
\<close>

section \<open>Buckets\<close>

record ('k, 'v) bucket =
  bk_size :: nat
  bk_depth :: nat
  bk_list :: "('k \<times> 'v) list"

definition new_bucket :: "nat \<Rightarrow> nat \<Rightarrow> ('k, 'v) bucket" where
  "new_bucket array_size depth = \<lparr>bk_size = array_size, bk_depth = depth, bk_list = []\<rparr>"

definition Bucket_IsFull :: "('k, 'v) bucket \<Rightarrow> bool" where
  "Bucket_IsFull b \<longleftrightarrow> length (bk_list b) = bk_size b"

definition Bucket_IncrementDepth :: "('k, 'v) bucket \<Rightarrow> ('k, 'v) bucket" where
  "Bucket_IncrementDepth b = b\<lparr>bk_depth := Suc (bk_depth b)\<rparr>"

definition Bucket_Find :: "('k, 'v) bucket \<Rightarrow> 'k \<Rightarrow> 'v option" where
  "Bucket_Find b key = alist_find (bk_list b) key"

definition Bucket_Remove :: "('k, 'v) bucket \<Rightarrow> 'k \<Rightarrow> bool \<times> ('k, 'v) bucket" where
  "Bucket_Remove b key =
     (if alist_find (bk_list b) key \<noteq> None
      then (True, b\<lparr>bk_list := alist_erase (bk_list b) key\<rparr>)
      else (False, b))"

definition Bucket_Insert :: "('k, 'v) bucket \<Rightarrow> 'k \<Rightarrow> 'v \<Rightarrow> bool \<times> ('k, 'v) bucket" where
  "Bucket_Insert b key value =
     (if alist_find (bk_list b) key \<noteq> None
      then (True, b\<lparr>bk_list := alist_assign (bk_list b) key value\<rparr>)
      else if Bucket_IsFull b then (False, b)
      else (True, b\<lparr>bk_list := bk_list b @ [(key, value)]\<rparr>))"

section \<open>The table\<close>

record ('k, 'v) eht =
  global_depth :: nat
  bucket_size :: nat
  num_buckets :: nat
  dir :: "nat list"
  heap :: "('k, 'v) bucket list"

text \<open>The masks \<^verbatim>\<open>1 << global_depth_\<close> are computed in \<^verbatim>\<open>int\<close>: at depth 31 the
  shift leaves the type, so growing the directory beyond depth 30 is an error of the model.\<close>

datatype eht_error = Depth_Overflow

definition new_eht :: "nat \<Rightarrow> ('k, 'v) eht" where
  "new_eht bsize =
     \<lparr>global_depth = 0, bucket_size = bsize, num_buckets = 1, dir = [0], heap = [new_bucket bsize 0]\<rparr>"

definition IndexOf :: "('k \<Rightarrow> hash_val) \<Rightarrow> ('k, 'v) eht \<Rightarrow> 'k \<Rightarrow> nat" where
  "IndexOf h t key = unat (h key AND (push_bit (global_depth t) 1 - 1))"

definition GetGlobalDepth :: "('k, 'v) eht \<Rightarrow> nat" where
  "GetGlobalDepth t = global_depth t"

definition GetLocalDepth :: "('k, 'v) eht \<Rightarrow> nat \<Rightarrow> nat option" where
  "GetLocalDepth t dir_index =
     (if dir_index < length (dir t) then Some (bk_depth (heap t ! (dir t ! dir_index))) else None)"

definition GetNumBuckets :: "('k, 'v) eht \<Rightarrow> nat" where
  "GetNumBuckets t = num_buckets t"

definition Find :: "('k \<Rightarrow> hash_val) \<Rightarrow> ('k, 'v) eht \<Rightarrow> 'k \<Rightarrow> 'v option" where
  "Find h t key = Bucket_Find (heap t ! (dir t ! IndexOf h t key)) key"

definition Remove :: "('k \<Rightarrow> hash_val) \<Rightarrow> ('k, 'v) eht \<Rightarrow> 'k \<Rightarrow> bool \<times> ('k, 'v) eht" where
  "Remove h t key =
     (let a = dir t ! IndexOf h t key; (res, b) = Bucket_Remove (heap t ! a) key
      in (res, t\<lparr>heap := (heap t)[a := b]\<rparr>))"

definition redirect_dir :: "nat \<Rightarrow> nat \<Rightarrow> nat \<Rightarrow> nat \<Rightarrow> nat list \<Rightarrow> nat list" where
  "redirect_dir gd checkpos bucket fresh d =
     fold (\<lambda>i d. if d ! i = bucket
                 then (if drop_bit checkpos i AND 1 = 1 then d[i := fresh] else d)
                 else d)
       [0..<2 ^ gd] d"

fun rehash_items ::
  "('k \<Rightarrow> hash_val) \<Rightarrow> nat \<Rightarrow> ('k \<times> 'v) list \<Rightarrow> ('k, 'v) eht \<Rightarrow> ('k, 'v) eht" where
  "rehash_items h bucket [] t = t"
| "rehash_items h bucket ((k, v) # kvs) t =
     (let tobucket = dir t ! IndexOf h t k
      in if tobucket \<noteq> bucket then
           let hp = (heap t)[bucket := snd (Bucket_Remove (heap t ! bucket) k)];
               hp' = hp[tobucket := snd (Bucket_Insert (hp ! tobucket) k v)]
           in rehash_items h bucket kvs (t\<lparr>heap := hp'\<rparr>)
         else rehash_items h bucket kvs t)"

definition RedistributeBucket ::
  "('k \<Rightarrow> hash_val) \<Rightarrow> nat \<Rightarrow> ('k, 'v) eht \<Rightarrow> ('k, 'v) eht" where
  "RedistributeBucket h bucket t =
     (let b = Bucket_IncrementDepth (heap t ! bucket);
          checkpos = bk_depth b - 1;
          fresh = length (heap t);
          hp = (heap t)[bucket := b] @ [new_bucket (bucket_size t) (bk_depth b)];
          items = bk_list b;
          d = redirect_dir (global_depth t) checkpos bucket fresh (dir t)
      in rehash_items h bucket items
           (t\<lparr>num_buckets := num_buckets t + 1, heap := hp, dir := d\<rparr>))"

definition double_dir :: "('k, 'v) eht \<Rightarrow> ('k, 'v) eht" where
  "double_dir t = t\<lparr>global_depth := global_depth t + 1, dir := dir t @ dir t\<rparr>"

partial_function (option) Insert ::
  "('k \<Rightarrow> hash_val) \<Rightarrow> 'k \<Rightarrow> 'v \<Rightarrow> ('k, 'v) eht \<Rightarrow> (eht_error + ('k, 'v) eht) option" where
  "Insert h key value t =
     (let i_bucket = dir t ! IndexOf h t key;
          (ok, b) = Bucket_Insert (heap t ! i_bucket) key value
      in if ok then Some (Inr (t\<lparr>heap := (heap t)[i_bucket := b]\<rparr>))
         else if bk_depth b = global_depth t then
           if global_depth t \<ge> 30 then Some (Inl Depth_Overflow)
           else Insert h key value (RedistributeBucket h i_bucket (double_dir t))
         else Insert h key value (RedistributeBucket h i_bucket t))"

section \<open>Well-formed tables\<close>

text \<open>The directory is well formed for the local depths \<open>dep\<close> of the \<open>nb\<close> buckets:
  two entries share a bucket exactly when they agree on the low local-depth bits.\<close>

definition dir_inv :: "nat \<Rightarrow> nat list \<Rightarrow> (nat \<Rightarrow> nat) \<Rightarrow> nat \<Rightarrow> bool" where
  "dir_inv gd d dep nb \<longleftrightarrow>
     length d = 2 ^ gd \<and> set d = {..<nb} \<and> (\<forall>i < 2 ^ gd. dep (d ! i) \<le> gd) \<and>
     (\<forall>i < 2 ^ gd. \<forall>j < 2 ^ gd.
        d ! i = d ! j \<longleftrightarrow> i mod 2 ^ dep (d ! i) = j mod 2 ^ dep (d ! i))"

definition bucket_ok :: "('k \<Rightarrow> hash_val) \<Rightarrow> ('k, 'v) eht \<Rightarrow> nat \<Rightarrow> bool" where
  "bucket_ok h t a \<longleftrightarrow>
     bk_size (heap t ! a) = bucket_size t \<and>
     length (bk_list (heap t ! a)) \<le> bucket_size t \<and>
     distinct (map fst (bk_list (heap t ! a))) \<and>
     (\<forall>k \<in> fst ` set (bk_list (heap t ! a)). dir t ! IndexOf h t k = a)"

definition eht_inv :: "('k \<Rightarrow> hash_val) \<Rightarrow> ('k, 'v) eht \<Rightarrow> bool" where
  "eht_inv h t \<longleftrightarrow>
     global_depth t \<le> 30 \<and> num_buckets t = length (heap t) \<and>
     dir_inv (global_depth t) (dir t) (\<lambda>a. bk_depth (heap t ! a)) (length (heap t)) \<and>
     (\<forall>a < length (heap t). bucket_ok h t a)"

lemmas [eht_simps] = Bucket_IsFull_def Bucket_IncrementDepth_def Bucket_Find_def Bucket_Remove_def
  Bucket_Insert_def new_bucket_def

section \<open>The directory\<close>

lemma IndexOf_eq: "global_depth t \<le> 30 \<Longrightarrow> IndexOf h t k = unat (h k) mod 2 ^ global_depth t"
  by (simp only: IndexOf_def unat_and_mask64)

lemma drop_bit_and_one_nat: "(drop_bit n (i :: nat) AND 1 = 1) = bit i n"
  by (simp add: and_one_eq bit_iff_odd_drop_bit odd_iff_mod_2_eq_one)

lemma redirect_dir_bit:
  "redirect_dir gd c b f d =
     fold (\<lambda>i d. if d ! i = b then (if bit i c then d[i := f] else d) else d) [0..<2 ^ gd] d"
  unfolding redirect_dir_def drop_bit_and_one_nat ..

lemma redirect_dir_upto:
  assumes "n \<le> length d"
  shows "let d' = fold (\<lambda>i d. if d ! i = b then (if bit i c then d[i := f] else d) else d) [0..<n] d
         in length d' = length d \<and>
            (\<forall>i < length d. d' ! i = (if i < n \<and> d ! i = b \<and> bit i c then f else d ! i))"
  using assms
proof (induction n)
  case (Suc n)
  then show ?case
    by (auto simp: Let_def nth_list_update less_Suc_eq)
qed (simp add: Let_def)

lemma length_redirect_dir:
  "length d = 2 ^ gd \<Longrightarrow> length (redirect_dir gd c b f d) = 2 ^ gd"
  using redirect_dir_upto [of "2 ^ gd" d b c f] by (simp add: redirect_dir_bit Let_def)

lemma nth_redirect_dir:
  "length d = 2 ^ gd \<Longrightarrow> i < 2 ^ gd \<Longrightarrow>
     redirect_dir gd c b f d ! i = (if d ! i = b \<and> bit i c then f else d ! i)"
  using redirect_dir_upto [of "2 ^ gd" d b c f] by (auto simp: redirect_dir_bit Let_def)

lemma dir_invD:
  assumes "dir_inv gd d dep nb"
  shows dir_inv_length: "length d = 2 ^ gd"
    and dir_inv_set: "set d = {..<nb}"
    and dir_inv_less: "i < 2 ^ gd \<Longrightarrow> d ! i < nb"
    and dir_inv_depth: "i < 2 ^ gd \<Longrightarrow> dep (d ! i) \<le> gd"
    and dir_inv_alias: "i < 2 ^ gd \<Longrightarrow> j < 2 ^ gd \<Longrightarrow>
          d ! i = d ! j \<longleftrightarrow> i mod 2 ^ dep (d ! i) = j mod 2 ^ dep (d ! i)"
  using assms nth_mem [of i d] by (auto simp: dir_inv_def)

lemma dir_inv_surj:
  assumes "dir_inv gd d dep nb" and "b < nb"
  obtains i where "i < 2 ^ gd" "d ! i = b"
  using assms by (metis dir_inv_length dir_inv_set in_set_conv_nth lessThan_iff)

lemma dir_inv_cong:
  assumes "dir_inv gd d dep nb" and "\<And>a. a < nb \<Longrightarrow> dep' a = dep a"
  shows "dir_inv gd d dep' nb"
proof -
  have "dep' (d ! i) = dep (d ! i)" if "i < 2 ^ gd" for i
    using assms(2) dir_inv_less [OF assms(1) that] by simp
  with assms(1) show ?thesis by (simp add: dir_inv_def)
qed

lemma nth_double: "length d = n \<Longrightarrow> i < 2 * n \<Longrightarrow> (d @ d) ! i = d ! (i mod n)"
  by (auto simp: nth_append mod_if not_less)

lemma dir_inv_double:
  assumes "dir_inv gd d dep nb"
  shows "dir_inv (Suc gd) (d @ d) dep nb"
proof -
  note len = dir_inv_length [OF assms]
  have nth: "(d @ d) ! i = d ! (i mod 2 ^ gd)" if "i < 2 ^ Suc gd" for i
    using that len by (simp add: nth_double)
  have mm: "i mod 2 ^ gd mod 2 ^ dep (d ! (i' mod 2 ^ gd)) = i mod 2 ^ dep (d ! (i' mod 2 ^ gd))"
    for i i' :: nat
    using dir_inv_depth [OF assms, of "i' mod 2 ^ gd"] by (simp add: mod_mod_cancel le_imp_power_dvd)
  show ?thesis
    unfolding dir_inv_def
  proof (intro conjI allI impI)
    show "length (d @ d) = 2 ^ Suc gd" using len by simp
    show "set (d @ d) = {..<nb}" using dir_inv_set [OF assms] by simp
    fix i :: nat assume i: "i < 2 ^ Suc gd"
    show "dep ((d @ d) ! i) \<le> Suc gd"
      using dir_inv_depth [OF assms, of "i mod 2 ^ gd"] by (simp add: nth [OF i])
    fix j :: nat assume j: "j < 2 ^ Suc gd"
    show "(d @ d) ! i = (d @ d) ! j \<longleftrightarrow>
            i mod 2 ^ dep ((d @ d) ! i) = j mod 2 ^ dep ((d @ d) ! i)"
      using dir_inv_alias [OF assms, of "i mod 2 ^ gd" "j mod 2 ^ gd"]
      by (simp add: nth [OF i] nth [OF j] mm)
  qed
qed

lemma exists_bit_set:
  assumes "(i :: nat) < 2 ^ gd" and "c < gd"
  shows "\<exists>j < 2 ^ gd. j mod 2 ^ c = i mod 2 ^ c \<and> bit j c = v"
proof -
  let ?j = "i mod 2 ^ c + (if v then 2 ^ c else 0)"
  have "?j < 2 ^ Suc c"
    using mod_less_divisor [of "2 ^ c" i] by (simp del: mod_less_divisor)
  then have "?j < 2 ^ gd"
    using \<open>c < gd\<close> by (meson Suc_leI less_le_trans one_le_numeral power_increasing)
  moreover have "?j mod 2 ^ c = i mod 2 ^ c" by simp
  moreover from \<open>?j < 2 ^ Suc c\<close> have "bit ?j c = v"
    using mod_pow2_Suc [of ?j c] by (cases v; cases "bit ?j c") auto
  ultimately show ?thesis by blast
qed

lemma dir_inv_split:
  assumes inv: "dir_inv gd d dep nb" and b: "b < nb" and dep: "dep b < gd"
  shows "dir_inv gd (redirect_dir gd (dep b) b nb d)
           (dep(b := Suc (dep b), nb := Suc (dep b))) (Suc nb)"
    (is "dir_inv gd ?d ?dep (Suc nb)")
proof -
  note len = dir_inv_length [OF inv]
  note nth = nth_redirect_dir [OF len]
  have lt: "d ! i < nb" if "i < 2 ^ gd" for i using dir_inv_less [OF inv that] .
  have al: "d ! i = d ! j \<longleftrightarrow> i mod 2 ^ dep (d ! i) = j mod 2 ^ dep (d ! i)"
    if "i < 2 ^ gd" "j < 2 ^ gd" for i j using dir_inv_alias [OF inv that] .
  obtain i0 where i0: "i0 < 2 ^ gd" "d ! i0 = b" using dir_inv_surj [OF inv b] .
  show ?thesis
    unfolding dir_inv_def
  proof (intro conjI allI impI)
    show len': "length ?d = 2 ^ gd" by (rule length_redirect_dir [OF len])
    have "\<exists>i < 2 ^ gd. ?d ! i = x" if x: "x < Suc nb" for x
    proof -
      consider "x = nb" | "x = b" | "x < nb" "x \<noteq> b" using x by linarith
      then show ?thesis
      proof cases
        case 1
        obtain j where "j < 2 ^ gd" "j mod 2 ^ dep b = i0 mod 2 ^ dep b" "bit j (dep b)"
          using exists_bit_set [OF i0(1) dep, of True] by auto
        with i0 al [of i0 j] show ?thesis by (auto simp: nth 1 intro!: exI [of _ j])
      next
        case 2
        obtain j where "j < 2 ^ gd" "j mod 2 ^ dep b = i0 mod 2 ^ dep b" "\<not> bit j (dep b)"
          using exists_bit_set [OF i0(1) dep, of False] by auto
        with i0 al [of i0 j] show ?thesis by (auto simp: nth 2 intro!: exI [of _ j])
      next
        case 3
        then obtain j where "j < 2 ^ gd" "d ! j = x" using dir_inv_surj [OF inv] by metis
        with 3 show ?thesis by (auto simp: nth intro!: exI [of _ j])
      qed
    qed
    moreover have "?d ! i < Suc nb" if "i < 2 ^ gd" for i
      using lt [OF that] that by (simp add: nth)
    ultimately show "set ?d = {..<Suc nb}"
      using len' by (fastforce simp: in_set_conv_nth)
    fix i :: nat assume i: "i < 2 ^ gd"
    show "?dep (?d ! i) \<le> gd"
      using lt [OF i] dep dir_inv_depth [OF inv i] by (auto simp: nth i)
    fix j :: nat assume j: "j < 2 ^ gd"
    show "?d ! i = ?d ! j \<longleftrightarrow> i mod 2 ^ ?dep (?d ! i) = j mod 2 ^ ?dep (?d ! i)"
    proof (cases "d ! i = b")
      case True
      have "i mod 2 ^ Suc (dep b) = j mod 2 ^ Suc (dep b) \<longleftrightarrow>
              d ! j = b \<and> bit i (dep b) = bit j (dep b)"
        unfolding mod_pow2_Suc_eq_iff using al [OF i j] True by auto
      moreover have "?dep (?d ! i) = Suc (dep b)"
        using True lt [OF i] by (simp add: nth i)
      moreover have "?d ! i = ?d ! j \<longleftrightarrow> d ! j = b \<and> bit i (dep b) = bit j (dep b)"
        using True lt [OF i] lt [OF j] by (auto simp: nth i j)
      ultimately show ?thesis by simp
    next
      case False
      then have "?dep (?d ! i) = dep (d ! i)" "?d ! i = d ! i" "?d ! j = d ! i \<longleftrightarrow> d ! j = d ! i"
        using lt [OF i] by (auto simp: nth i j)
      then show ?thesis using al [OF i j] by metis
    qed
  qed
qed

section \<open>Operations on a bucket keep the table well formed\<close>

lemma IndexOf_heap [simp]: "IndexOf h (t\<lparr>heap := hp\<rparr>) = IndexOf h t"
  by (simp add: IndexOf_def fun_eq_iff)

lemma IndexOf_num_buckets [simp]: "IndexOf h (t\<lparr>num_buckets := n\<rparr>) = IndexOf h t"
  by (simp add: IndexOf_def fun_eq_iff)

lemma IndexOf_dir [simp]: "IndexOf h (t\<lparr>dir := d\<rparr>) = IndexOf h t"
  by (simp add: IndexOf_def fun_eq_iff)

lemma eht_invD:
  assumes "eht_inv h t"
  shows eht_inv_depth: "global_depth t \<le> 30"
    and eht_inv_num: "num_buckets t = length (heap t)"
    and eht_inv_dir: "dir_inv (global_depth t) (dir t) (\<lambda>a. bk_depth (heap t ! a)) (length (heap t))"
    and eht_inv_bucket: "a < length (heap t) \<Longrightarrow> bucket_ok h t a"
  using assms by (auto simp: eht_inv_def)

lemma IndexOf_less:
  assumes "eht_inv h t"
  shows "IndexOf h t k < 2 ^ global_depth t"
  by (simp add: IndexOf_eq [OF eht_inv_depth [OF assms]])

lemma IndexOf_safe:
  assumes "eht_inv h t"
  shows "IndexOf h t k < length (dir t)" and "dir t ! IndexOf h t k < length (heap t)"
  using IndexOf_less [OF assms, of k] dir_invD [OF eht_inv_dir [OF assms]] by auto

lemma target_bucket_ok:
  assumes "eht_inv h t"
  shows "bucket_ok h t (dir t ! IndexOf h t k)"
  using assms IndexOf_safe [OF assms, of k] by (intro eht_inv_bucket) auto

lemma Find_eq: "Find h t k = map_of (bk_list (heap t ! (dir t ! IndexOf h t k))) k"
  by (simp add: Find_def Bucket_Find_def)

text \<open>Replacing the contents of one bucket by items that belong there.\<close>

lemma eht_inv_replace_items:
  assumes inv: "eht_inv h t" and a: "a < length (heap t)"
    and len: "length kvs \<le> bucket_size t" and dist: "distinct (map fst kvs)"
    and keys: "\<And>k. k \<in> fst ` set kvs \<Longrightarrow> dir t ! IndexOf h t k = a"
  shows "eht_inv h (t\<lparr>heap := (heap t)[a := (heap t ! a)\<lparr>bk_list := kvs\<rparr>]\<rparr>)" (is "eht_inv h ?t")
proof -
  have "dir_inv (global_depth t) (dir t) (\<lambda>x. bk_depth (heap ?t ! x)) (length (heap t))"
  proof (rule dir_inv_cong [OF eht_inv_dir [OF inv]])
    show "bk_depth (heap ?t ! x) = bk_depth (heap t ! x)" if "x < length (heap t)" for x
      using that by (cases "x = a") auto
  qed
  moreover have "bucket_ok h ?t x" if "x < length (heap t)" for x
    using eht_inv_bucket [OF inv that] eht_inv_bucket [OF inv a] a that len dist keys
    by (auto simp: bucket_ok_def nth_list_update)
  ultimately show ?thesis
    using inv by (simp add: eht_inv_def)
qed

lemma Find_replace_items:
  assumes a: "a < length (heap t)"
  shows "Find h (t\<lparr>heap := (heap t)[a := (heap t ! a)\<lparr>bk_list := kvs\<rparr>]\<rparr>) =
           (\<lambda>k. if dir t ! IndexOf h t k = a then map_of kvs k else Find h t k)"
  using a by (auto simp: Find_eq fun_eq_iff nth_list_update)

lemma Find_key_in_bucket:
  assumes "eht_inv h t" "a < length (heap t)" "k \<in> fst ` set (bk_list (heap t ! a))"
  shows "dir t ! IndexOf h t k = a"
  using assms eht_inv_bucket [of h t a] by (auto simp: bucket_ok_def)

lemma eht_inv_new: "eht_inv h (new_eht n)"
  by (auto simp: eht_inv_def new_eht_def dir_inv_def bucket_ok_def new_bucket_def)

lemma Find_new: "Find h (new_eht n) = Map.empty"
  by (auto simp: Find_eq new_eht_def new_bucket_def IndexOf_def fun_eq_iff)

lemma Remove_correct:
  assumes inv: "eht_inv h t"
  shows "fst (Remove h t k) = (Find h t k \<noteq> None)"
    and "eht_inv h (snd (Remove h t k))"
    and "Find h (snd (Remove h t k)) = (Find h t)(k := None)"
    and "bucket_size (snd (Remove h t k)) = bucket_size t"
proof -
  define a where "a = dir t ! IndexOf h t k"
  define kvs where "kvs = bk_list (heap t ! a)"
  have a: "a < length (heap t)" using IndexOf_safe [OF inv] by (simp add: a_def)
  have ok: "bucket_ok h t a" using target_bucket_ok [OF inv] by (simp add: a_def)
  have find: "Find h t k = map_of kvs k" by (simp add: Find_eq a_def kvs_def)
  have dist: "distinct (map fst kvs)" using ok by (simp add: bucket_ok_def kvs_def)
  show "fst (Remove h t k) = (Find h t k \<noteq> None)"
    by (simp add: Remove_def Bucket_Remove_def Let_def find a_def kvs_def split: prod.split)
  have upd: "snd (Remove h t k) =
      t\<lparr>heap := (heap t)[a := (heap t ! a)\<lparr>bk_list := alist_erase kvs k\<rparr>]\<rparr>"
  proof (cases "map_of kvs k = None")
    case True
    then have "alist_erase kvs k = kvs" by (simp add: map_of_eq_None_iff)
    with True show ?thesis
      by (simp add: Remove_def Bucket_Remove_def a_def [symmetric] kvs_def)
  next
    case False
    then show ?thesis
      by (simp add: Remove_def Bucket_Remove_def a_def [symmetric] kvs_def)
  qed
  have keys: "dir t ! IndexOf h t x = a" if "x \<in> fst ` set (alist_erase kvs k)" for x
    using that set_alist_erase_subset [of kvs k] ok by (auto simp: bucket_ok_def kvs_def)
  show "eht_inv h (snd (Remove h t k))"
    unfolding upd using ok length_alist_erase [of kvs k]
    by (intro eht_inv_replace_items [OF inv a] distinct_alist_erase dist keys)
      (auto simp: bucket_ok_def kvs_def)
  show "Find h (snd (Remove h t k)) = (Find h t)(k := None)"
    using find by (auto simp: upd Find_replace_items [OF a] fun_eq_iff map_of_alist_erase [OF dist]
        a_def [symmetric] kvs_def [symmetric] Find_eq)
  show "bucket_size (snd (Remove h t k)) = bucket_size t" by (simp add: upd)
qed

lemma Bucket_Insert_ok_correct:
  assumes inv: "eht_inv h t" and "a = dir t ! IndexOf h t k"
    and ok: "Bucket_Insert (heap t ! a) k v = (True, b)"
  shows "eht_inv h (t\<lparr>heap := (heap t)[a := b]\<rparr>)"
    and "Find h (t\<lparr>heap := (heap t)[a := b]\<rparr>) = (Find h t)(k \<mapsto> v)"
proof -
  define kvs where "kvs = bk_list (heap t ! a)"
  define kvs' where "kvs' = (if k \<in> fst ` set kvs then alist_assign kvs k v else kvs @ [(k, v)])"
  have a: "a < length (heap t)" using IndexOf_safe [OF inv] by (simp add: assms(2))
  have bok: "bucket_ok h t a" using target_bucket_ok [OF inv] by (simp add: assms(2))
  have b: "b = (heap t ! a)\<lparr>bk_list := kvs'\<rparr>"
    using ok by (auto simp: Bucket_Insert_def kvs_def kvs'_def map_of_eq_None_iff split: if_splits)
  have len: "length kvs' \<le> bucket_size t"
    using ok bok by (auto simp: Bucket_Insert_def Bucket_IsFull_def bucket_ok_def kvs'_def kvs_def
        map_of_eq_None_iff split: if_splits)
  have dist: "distinct (map fst kvs')"
    using bok by (auto simp: bucket_ok_def kvs'_def kvs_def)
  have mp: "map_of kvs' = (map_of kvs)(k \<mapsto> v)"
    by (simp add: kvs'_def map_of_alist_assign map_of_snoc del: map_of_append)
  have "fst ` set kvs' = insert k (fst ` set kvs)"
    using arg_cong [OF mp, of dom] by (simp add: dom_map_of_conv_image_fst)
  then have keys: "dir t ! IndexOf h t x = a" if "x \<in> fst ` set kvs'" for x
    using that bok assms(2) by (auto simp: bucket_ok_def kvs_def)
  show "eht_inv h (t\<lparr>heap := (heap t)[a := b]\<rparr>)"
    unfolding b by (rule eht_inv_replace_items [OF inv a len dist keys])
  show "Find h (t\<lparr>heap := (heap t)[a := b]\<rparr>) = (Find h t)(k \<mapsto> v)"
    by (auto simp: b Find_replace_items [OF a] fun_eq_iff mp assms(2) [symmetric]
        kvs_def [symmetric] Find_eq)
qed

section \<open>Splitting a bucket\<close>

lemma double_dir_correct:
  assumes inv: "eht_inv h t" and gd: "global_depth t < 30"
  shows "eht_inv h (double_dir t)"
    and "dir (double_dir t) ! IndexOf h (double_dir t) k = dir t ! IndexOf h t k"
    and "Find h (double_dir t) = Find h t"
proof -
  let ?t = "double_dir t"
  have len: "length (dir t) = 2 ^ global_depth t" using dir_inv_length [OF eht_inv_dir [OF inv]] .
  have gd': "global_depth ?t \<le> 30" using gd by (simp add: double_dir_def)
  have same: "dir ?t ! IndexOf h ?t k = dir t ! IndexOf h t k" for k
  proof -
    have "dir ?t ! IndexOf h ?t k = dir t ! (unat (h k) mod 2 ^ Suc (global_depth t) mod 2 ^ global_depth t)"
      unfolding IndexOf_eq [OF gd'] by (simp add: double_dir_def nth_double [OF len])
    also have "\<dots> = dir t ! (unat (h k) mod 2 ^ global_depth t)"
      by (simp add: mod_mod_cancel)
    finally show ?thesis by (simp add: IndexOf_eq [OF eht_inv_depth [OF inv]])
  qed
  show "dir ?t ! IndexOf h ?t k = dir t ! IndexOf h t k" by (rule same)
  have "heap ?t = heap t" by (simp add: double_dir_def)
  then show "Find h ?t = Find h t" by (simp add: Find_eq fun_eq_iff same)
  have "bucket_ok h ?t a" if "a < length (heap t)" for a
    using eht_inv_bucket [OF inv that] unfolding bucket_ok_def same by (simp add: double_dir_def)
  then show "eht_inv h ?t"
    using inv gd dir_inv_double [OF eht_inv_dir [OF inv]]
    by (simp add: eht_inv_def double_dir_def)
qed

lemma snd_Bucket_Remove: "snd (Bucket_Remove b k) = b\<lparr>bk_list := alist_erase (bk_list b) k\<rparr>"
  by (simp add: Bucket_Remove_def map_of_eq_None_iff)

lemma snd_Bucket_Insert_new:
  "k \<notin> fst ` set (bk_list b) \<Longrightarrow> length (bk_list b) < bk_size b \<Longrightarrow>
     snd (Bucket_Insert b k v) = b\<lparr>bk_list := bk_list b @ [(k, v)]\<rparr>"
  by (simp add: Bucket_Insert_def Bucket_IsFull_def map_of_eq_None_iff)

lemma rehash_items_eq:
  assumes "b < length (heap t)" and "n < length (heap t)" and "b \<noteq> n"
    and "distinct (map fst kvs)" and "distinct (map fst (bk_list (heap t ! b)))"
    and "\<forall>k \<in> fst ` set kvs. dir t ! IndexOf h t k \<in> {b, n}"
    and "fst ` set (bk_list (heap t ! n)) \<inter> fst ` set kvs = {}"
    and "length (bk_list (heap t ! n)) + length kvs \<le> bk_size (heap t ! n)"
  shows "rehash_items h b kvs t = t\<lparr>heap := (heap t)
     [b := (heap t ! b)\<lparr>bk_list := filter (\<lambda>(k, v). \<not> (k \<in> fst ` set kvs \<and> dir t ! IndexOf h t k \<noteq> b))
                                   (bk_list (heap t ! b))\<rparr>,
      n := (heap t ! n)\<lparr>bk_list := bk_list (heap t ! n)
                                   @ filter (\<lambda>(k, v). dir t ! IndexOf h t k \<noteq> b) kvs\<rparr>]\<rparr>"
  using assms
proof (induction kvs arbitrary: t)
  case Nil
  have "filter (\<lambda>(k, v). True) (bk_list (heap t ! b)) = bk_list (heap t ! b)"
    by (simp add: case_prod_unfold)
  then show ?case by simp
next
  case (Cons kv kvs)
  obtain k v where kv: "kv = (k, v)" by (cases kv)
  let ?B = "heap t ! b" and ?N = "heap t ! n" and ?to = "\<lambda>k. dir t ! IndexOf h t k"
  show ?case
  proof (cases "?to k = b")
    case True
    have "filter (\<lambda>(k', v). \<not> (k' \<in> fst ` set ((k, v) # kvs) \<and> ?to k' \<noteq> b)) (bk_list ?B) =
          filter (\<lambda>(k', v). \<not> (k' \<in> fst ` set kvs \<and> ?to k' \<noteq> b)) (bk_list ?B)"
      using True by (intro filter_cong) auto
    with Cons.IH [of t] Cons.prems True kv show ?thesis by simp
  next
    case False
    with Cons.prems(6) kv have to: "?to k = n" by simp
    let ?B' = "?B\<lparr>bk_list := alist_erase (bk_list ?B) k\<rparr>"
    let ?N' = "?N\<lparr>bk_list := bk_list ?N @ [(k, v)]\<rparr>"
    let ?t = "t\<lparr>heap := (heap t)[b := ?B', n := ?N']\<rparr>"
    have step: "rehash_items h b (kv # kvs) t = rehash_items h b kvs ?t"
      using Cons.prems(1,2,3,7,8) False to kv
      by (simp add: Let_def snd_Bucket_Remove snd_Bucket_Insert_new)
    have heapb: "heap ?t ! b = ?B'" and heapn: "heap ?t ! n = ?N'"
      using Cons.prems(1,2,3) by simp_all
    have "rehash_items h b kvs ?t = ?t\<lparr>heap := (heap ?t)
       [b := ?B'\<lparr>bk_list := filter (\<lambda>(k, v). \<not> (k \<in> fst ` set kvs \<and> ?to k \<noteq> b)) (alist_erase (bk_list ?B) k)\<rparr>,
        n := ?N'\<lparr>bk_list := (bk_list ?N @ [(k, v)]) @ filter (\<lambda>(k, v). ?to k \<noteq> b) kvs\<rparr>]\<rparr>"
      using Cons.IH [of ?t] Cons.prems kv heapb heapn by (auto simp: distinct_alist_erase)
    moreover have "filter (\<lambda>(k, v). \<not> (k \<in> fst ` set kvs \<and> ?to k \<noteq> b)) (alist_erase (bk_list ?B) k) =
        filter (\<lambda>(k', v). \<not> (k' \<in> fst ` set (kv # kvs) \<and> ?to k' \<noteq> b)) (bk_list ?B)"
      using False kv by (auto simp: alist_erase_eq_filter [OF Cons.prems(5)] intro!: filter_cong)
    ultimately show ?thesis
      using step False kv Cons.prems(3) by (simp add: list_update_pair_twice)
  qed
qed

text \<open>The effect of \<^const>\<open>RedistributeBucket\<close> in closed form: the directory entries whose next
  bit is set move to the fresh bucket, and so do exactly the items they now serve.\<close>

lemma RedistributeBucket_eq:
  assumes inv: "eht_inv h t" and b: "b < length (heap t)"
  defines "d \<equiv> bk_depth (heap t ! b)" and "kvs \<equiv> bk_list (heap t ! b)"
  defines "D \<equiv> redirect_dir (global_depth t) d b (length (heap t)) (dir t)"
  shows "RedistributeBucket h b t = t\<lparr>num_buckets := num_buckets t + 1,
     heap := (heap t)
       [b := (heap t ! b)\<lparr>bk_depth := Suc d, bk_list := filter (\<lambda>(k, v). D ! IndexOf h t k = b) kvs\<rparr>]
       @ [\<lparr>bk_size = bucket_size t, bk_depth = Suc d,
           bk_list = filter (\<lambda>(k, v). D ! IndexOf h t k \<noteq> b) kvs\<rparr>],
     dir := D\<rparr>"
proof -
  let ?n = "length (heap t)"
  let ?hp = "(heap t)[b := (heap t ! b)\<lparr>bk_depth := Suc d\<rparr>] @ [new_bucket (bucket_size t) (Suc d)]"
  let ?t = "t\<lparr>num_buckets := num_buckets t + 1, heap := ?hp, dir := D\<rparr>"
  have ok: "bucket_ok h t b" using eht_inv_bucket [OF inv b] .
  note len = dir_inv_length [OF eht_inv_dir [OF inv]]
  have heapb: "heap ?t ! b = (heap t ! b)\<lparr>bk_depth := Suc d\<rparr>"
    and heapn: "heap ?t ! ?n = new_bucket (bucket_size t) (Suc d)"
    using b by (simp_all add: nth_append)
  have inD: "D ! IndexOf h t k \<in> {b, ?n}" if "k \<in> fst ` set kvs" for k
    using that ok nth_redirect_dir [OF len IndexOf_less [OF inv]]
    by (auto simp: D_def bucket_ok_def kvs_def)
  have "rehash_items h b kvs ?t = ?t\<lparr>heap := (heap ?t)
     [b := (heap ?t ! b)\<lparr>bk_list := filter (\<lambda>(k, v). \<not> (k \<in> fst ` set kvs \<and> dir ?t ! IndexOf h ?t k \<noteq> b))
                                   (bk_list (heap ?t ! b))\<rparr>,
      ?n := (heap ?t ! ?n)\<lparr>bk_list := bk_list (heap ?t ! ?n)
                                   @ filter (\<lambda>(k, v). dir ?t ! IndexOf h ?t k \<noteq> b) kvs\<rparr>]\<rparr>"
    using b inD ok
    by (intro rehash_items_eq) (auto simp: heapb nth_append new_bucket_def bucket_ok_def kvs_def)
  moreover have "filter (\<lambda>(k, v). \<not> (k \<in> fst ` set kvs \<and> D ! IndexOf h t k \<noteq> b)) kvs =
      filter (\<lambda>(k, v). D ! IndexOf h t k = b) kvs"
    by (intro filter_cong) (auto simp: rev_image_eqI)
  moreover have "RedistributeBucket h b t = rehash_items h b kvs ?t"
    by (simp add: RedistributeBucket_def Let_def Bucket_IncrementDepth_def d_def kvs_def D_def)
  ultimately show ?thesis
    using b by (simp add: heapb nth_append list_update_append new_bucket_def kvs_def)
qed

lemma RedistributeBucket_correct:
  assumes inv: "eht_inv h t" and b: "b < length (heap t)"
    and dep: "bk_depth (heap t ! b) < global_depth t"
  defines "t' \<equiv> RedistributeBucket h b t"
  shows "eht_inv h t'" and "Find h t' = Find h t"
    and "dir t ! IndexOf h t k = b \<Longrightarrow>
           bk_depth (heap t' ! (dir t' ! IndexOf h t' k)) = Suc (bk_depth (heap t ! b))"
    and "bucket_size t' = bucket_size t" and "global_depth t' = global_depth t"
proof -
  define d where "d = bk_depth (heap t ! b)"
  define kvs where "kvs = bk_list (heap t ! b)"
  define D where "D = redirect_dir (global_depth t) d b (length (heap t)) (dir t)"
  let ?n = "length (heap t)"
  note ti = eht_inv_dir [OF inv]
  note eq = RedistributeBucket_eq [OF inv b, folded d_def kvs_def, folded D_def, folded t'_def]
  have ok: "bucket_ok h t a" if "a < ?n" for a using eht_inv_bucket [OF inv that] .
  show sz: "bucket_size t' = bucket_size t" and gd: "global_depth t' = global_depth t"
    by (simp_all add: eq)
  have idx: "IndexOf h t' = IndexOf h t" by (simp add: eq)
  have dir': "dir t' = D" and len': "length (heap t') = Suc ?n" by (simp_all add: eq)
  have Dnth: "D ! i = (if dir t ! i = b \<and> bit i d then ?n else dir t ! i)"
    if "i < 2 ^ global_depth t" for i
    using nth_redirect_dir [OF dir_inv_length [OF ti] that] by (simp add: D_def)
  have old_less: "dir t ! IndexOf h t k < ?n" for k using IndexOf_safe [OF inv] by simp
  have new: "D ! IndexOf h t k = (if dir t ! IndexOf h t k = b \<and> bit (IndexOf h t k) d then ?n
      else dir t ! IndexOf h t k)" for k
    using Dnth [OF IndexOf_less [OF inv]] .
  have hb: "heap t' ! b = (heap t ! b)\<lparr>bk_depth := Suc d, bk_list := filter (\<lambda>(k, v). D ! IndexOf h t k = b) kvs\<rparr>"
    and hn: "heap t' ! ?n = \<lparr>bk_size = bucket_size t, bk_depth = Suc d,
           bk_list = filter (\<lambda>(k, v). D ! IndexOf h t k \<noteq> b) kvs\<rparr>"
    and ho: "a < ?n \<Longrightarrow> a \<noteq> b \<Longrightarrow> heap t' ! a = heap t ! a" for a
    using b by (simp_all add: eq nth_append)
  have key_b: "dir t ! IndexOf h t k = b" if "(k, v) \<in> set kvs" for k v
    using ok [OF b] that by (force simp: bucket_ok_def kvs_def)
  have lenf: "length (filter P kvs) \<le> bucket_size t" and distf: "distinct (map fst (filter P kvs))" for P
    using ok [OF b] le_trans [OF length_filter_le, of kvs "bucket_size t" P]
    by (simp_all add: bucket_ok_def kvs_def distinct_map_filter)
  have depths: "((\<lambda>a. bk_depth (heap t ! a))(b := Suc d, ?n := Suc d)) a = bk_depth (heap t' ! a)"
    if "a < Suc ?n" for a
    using that b by (auto simp: hb hn ho less_Suc_eq)
  have split: "dir_inv (global_depth t) D ((\<lambda>a. bk_depth (heap t ! a))(b := Suc d, ?n := Suc d)) (Suc ?n)"
    using dir_inv_split [OF ti b] dep by (simp add: D_def d_def)
  have "dir_inv (global_depth t) D (\<lambda>a. bk_depth (heap t' ! a)) (Suc ?n)"
    by (rule dir_inv_cong [OF split]) (simp only: depths)
  moreover have "bucket_ok h t' a" if "a < Suc ?n" for a
  proof -
    consider "a = b" | "a = ?n" | "a < ?n" "a \<noteq> b" using \<open>a < Suc ?n\<close> by linarith
    then show ?thesis
    proof cases
      case 1
      then show ?thesis
        using ok [OF b] lenf distf by (auto simp: bucket_ok_def hb sz idx dir')
    next
      case 2
      have "D ! IndexOf h t k = ?n" if "(k, v) \<in> set kvs" "D ! IndexOf h t k \<noteq> b" for k v
        using key_b [OF that(1)] that(2) new [of k] by (simp split: if_splits)
      with 2 show ?thesis
        using lenf distf by (auto simp: bucket_ok_def hn sz idx dir')
    next
      case 3
      then show ?thesis
        using ok [OF 3(1)] new by (auto simp: bucket_ok_def ho sz idx dir')
    qed
  qed
  ultimately show "eht_inv h t'"
    using inv by (simp add: eht_inv_def gd dir' len' eq)
  have "Find h t' k = Find h t k" for k
  proof (cases "dir t ! IndexOf h t k = b")
    case True
    with b show ?thesis
      by (auto simp: Find_eq idx dir' new hb hn kvs_def map_of_filter_key)
  next
    case False
    with old_less show ?thesis by (simp add: Find_eq idx dir' new ho)
  qed
  then show "Find h t' = Find h t" ..
  show "bk_depth (heap t' ! (dir t' ! IndexOf h t' k)) = Suc (bk_depth (heap t ! b))"
    if "dir t ! IndexOf h t k = b"
    using that b by (simp add: idx dir' new hb hn d_def)
qed

section \<open>Insert returns\<close>

definition colliding :: "('k \<Rightarrow> hash_val) \<Rightarrow> ('k, 'v) eht \<Rightarrow> 'k \<Rightarrow> 'k set" where
  "colliding h t k = {k' \<in> dom (Find h t). unat (h k') mod 2 ^ 30 = unat (h k) mod 2 ^ 30}"

lemma bucket_keys_in_Find:
  assumes inv: "eht_inv h t" and a: "a < length (heap t)" and k: "k \<in> fst ` set (bk_list (heap t ! a))"
  shows "k \<in> dom (Find h t)"
  using Find_key_in_bucket [OF inv a k] k by (auto simp: Find_eq dom_def map_of_eq_None_iff)

lemma finite_dom_Find:
  assumes "eht_inv h t"
  shows "finite (dom (Find h t))"
proof (rule finite_subset)
  show "dom (Find h t) \<subseteq> (\<Union>b \<in> set (heap t). fst ` set (bk_list b))"
  proof
    fix k assume "k \<in> dom (Find h t)"
    then have "k \<in> fst ` set (bk_list (heap t ! (dir t ! IndexOf h t k)))"
      by (simp add: Find_eq domIff map_of_eq_None_iff)
    then show "k \<in> (\<Union>b \<in> set (heap t). fst ` set (bk_list b))"
      using nth_mem [OF IndexOf_safe(2) [OF assms, of k]] by blast
  qed
qed simp

lemma full_deepest_bucket_collides:
  assumes inv: "eht_inv h t" and a: "a = dir t ! IndexOf h t k"
    and dep: "bk_depth (heap t ! a) = 30" and full: "length (bk_list (heap t ! a)) = bucket_size t"
  shows "bucket_size t \<le> card (colliding h t k)"
proof -
  let ?K = "fst ` set (bk_list (heap t ! a))"
  have al: "a < length (heap t)" using IndexOf_safe [OF inv] a by simp
  have gd: "global_depth t = 30"
    using dir_inv_depth [OF eht_inv_dir [OF inv] IndexOf_less [OF inv]] eht_inv_depth [OF inv] a dep
    by (metis le_antisym)
  have "k' \<in> colliding h t k" if k': "k' \<in> ?K" for k'
  proof -
    have "dir t ! IndexOf h t k' = dir t ! IndexOf h t k"
      using Find_key_in_bucket [OF inv al k'] a by simp
    then have "IndexOf h t k' mod 2 ^ 30 = IndexOf h t k mod 2 ^ 30"
      using dir_inv_alias [OF eht_inv_dir [OF inv] IndexOf_less [OF inv] IndexOf_less [OF inv]] a dep
      by metis
    then show ?thesis
      using bucket_keys_in_Find [OF inv al k'] by (simp add: colliding_def IndexOf_eq gd)
  qed
  then have "?K \<subseteq> colliding h t k" by blast
  moreover have "card ?K = bucket_size t"
    using eht_inv_bucket [OF inv al] full distinct_card [of "map fst (bk_list (heap t ! a))"]
    by (simp add: bucket_ok_def)
  moreover have "finite (colliding h t k)"
    using finite_dom_Find [OF inv] by (simp add: colliding_def)
  ultimately show ?thesis by (metis card_mono)
qed

definition insert_post ::
  "('k \<Rightarrow> hash_val) \<Rightarrow> 'k \<Rightarrow> 'v \<Rightarrow> ('k, 'v) eht \<Rightarrow> eht_error + ('k, 'v) eht \<Rightarrow> bool" where
  "insert_post h k v t r = (case r of
       Inr t' \<Rightarrow> eht_inv h t' \<and> Find h t' = (Find h t)(k \<mapsto> v) \<and> bucket_size t' = bucket_size t
     | Inl Depth_Overflow \<Rightarrow> Find h t k = None \<and> bucket_size t \<le> card (colliding h t k))"

lemma insert_post_cong:
  "Find h t' = Find h t \<Longrightarrow> bucket_size t' = bucket_size t \<Longrightarrow>
     insert_post h k v t' r = insert_post h k v t r"
  by (simp add: insert_post_def colliding_def split: sum.split eht_error.split)

lemma Bucket_Insert_fails:
  assumes "Bucket_Insert b k v = (False, b')"
  shows "b' = b" and "Bucket_IsFull b" and "map_of (bk_list b) k = None"
  using assms by (auto simp: Bucket_Insert_def split: if_splits)

lemma Insert_returns:
  assumes "eht_inv h t"
  shows "\<exists>r. Insert h k v t = Some r \<and> insert_post h k v t r"
  using assms
proof (induction "30 - bk_depth (heap t ! (dir t ! IndexOf h t k))" arbitrary: t rule: less_induct)
  case less
  note inv = less.prems
  define a where "a = dir t ! IndexOf h t k"
  have a: "a < length (heap t)" using IndexOf_safe [OF inv] by (simp add: a_def)
  have dep: "bk_depth (heap t ! a) \<le> global_depth t"
    using dir_inv_depth [OF eht_inv_dir [OF inv] IndexOf_less [OF inv]] by (simp add: a_def)
  obtain ok b where ins: "Bucket_Insert (heap t ! a) k v = (ok, b)" by force
  have split_step: "\<exists>r. Insert h k v (RedistributeBucket h a t') = Some r \<and> insert_post h k v t r"
    if t': "eht_inv h t'" "dir t' ! IndexOf h t' k = a" "Find h t' = Find h t"
      "heap t' = heap t" "bucket_size t' = bucket_size t" "bk_depth (heap t ! a) < global_depth t'" for t'
  proof -
    let ?r = "RedistributeBucket h a t'"
    have pre: "a < length (heap t')" "bk_depth (heap t' ! a) < global_depth t'"
      using a t'(4,6) by simp_all
    note red = RedistributeBucket_correct [OF t'(1) pre]
    have "bk_depth (heap ?r ! (dir ?r ! IndexOf h ?r k)) = Suc (bk_depth (heap t ! a))"
      using red(3) [OF t'(2)] t'(4) by simp
    moreover have "bk_depth (heap t ! a) < 30" using t'(6) eht_inv_depth [OF t'(1)] by simp
    ultimately have "30 - bk_depth (heap ?r ! (dir ?r ! IndexOf h ?r k)) <
        30 - bk_depth (heap t ! (dir t ! IndexOf h t k))"
      by (simp add: a_def [symmetric])
    from less.hyps [OF this red(1)] obtain r
      where "Insert h k v ?r = Some r" "insert_post h k v ?r r" by blast
    moreover have "insert_post h k v ?r r = insert_post h k v t r"
      using red(2,4) t'(3,5) by (intro insert_post_cong) simp_all
    ultimately show ?thesis by blast
  qed
  show ?case
  proof (cases ok)
    case True
    with Bucket_Insert_ok_correct [OF inv a_def] ins show ?thesis
      by (subst Insert.simps) (simp add: a_def [symmetric] insert_post_def)
  next
    case False
    with ins have ins': "Bucket_Insert (heap t ! a) k v = (False, b)" by simp
    note fails = Bucket_Insert_fails [OF ins']
    show ?thesis
    proof (cases "bk_depth (heap t ! a) = global_depth t")
      case deep: True
      show ?thesis
      proof (cases "global_depth t \<ge> 30")
        case True
        then have "bk_depth (heap t ! a) = 30" using deep eht_inv_depth [OF inv] by simp
        moreover have "length (bk_list (heap t ! a)) = bucket_size t"
          using fails(2) eht_inv_bucket [OF inv a] by (simp add: Bucket_IsFull_def bucket_ok_def)
        ultimately show ?thesis
          using True deep fails ins' full_deepest_bucket_collides [OF inv a_def]
          by (subst Insert.simps) (simp add: a_def [symmetric] insert_post_def Find_eq)
      next
        case shallow: False
        then have gd: "global_depth t < 30" by simp
        have "Insert h k v t = Insert h k v (RedistributeBucket h a (double_dir t))"
          using shallow deep fails(1) ins' by (subst Insert.simps) (simp add: a_def [symmetric])
        moreover have "dir (double_dir t) ! IndexOf h (double_dir t) k = a"
          using double_dir_correct(2) [OF inv gd] by (simp add: a_def)
        ultimately show ?thesis
          using split_step [OF double_dir_correct(1) [OF inv gd] _ double_dir_correct(3) [OF inv gd]] deep
          by (simp add: double_dir_def)
      qed
    next
      case False
      have "Insert h k v t = Insert h k v (RedistributeBucket h a t)"
        using False fails(1) ins' by (subst Insert.simps) (simp add: a_def [symmetric])
      with split_step [OF inv] False dep show ?thesis by (simp add: a_def)
    qed
  qed
qed

section \<open>Tables reached through the public interface\<close>

inductive eht_reachable :: "('k \<Rightarrow> hash_val) \<Rightarrow> nat \<Rightarrow> ('k, 'v) eht \<Rightarrow> bool"
  for h :: "'k \<Rightarrow> hash_val" and n :: nat where
  eht_init: "eht_reachable h n (new_eht n)"
| eht_insert: "eht_reachable h n t \<Longrightarrow> Insert h k v t = Some (Inr t') \<Longrightarrow> eht_reachable h n t'"
| eht_remove: "eht_reachable h n t \<Longrightarrow> eht_reachable h n (snd (Remove h t k))"

lemma Insert_success:
  assumes "eht_inv h t" and "Insert h k v t = Some (Inr t')"
  shows "eht_inv h t'" and "Find h t' = (Find h t)(k \<mapsto> v)" and "bucket_size t' = bucket_size t"
  using Insert_returns [OF assms(1), of k v] assms(2) by (simp_all add: insert_post_def)

lemma reachable_inv:
  assumes "eht_reachable h n t"
  shows "eht_inv h t \<and> bucket_size t = n"
  using assms
proof (induction rule: eht_reachable.induct)
  case eht_init
  show ?case by (simp add: eht_inv_new) (simp add: new_eht_def)
next
  case (eht_insert t k v t')
  then show ?case using Insert_success by metis
next
  case (eht_remove t k)
  then show ?case using Remove_correct by metis
qed

section \<open>The page table\<close>

text \<open>\<^verbatim>\<open>ExtendibleHashTable<page_id_t, frame_id_t>\<close> hashes with \<^verbatim>\<open>std::hash<int>\<close>, which
  converts the key to \<^verbatim>\<open>size_t\<close>.\<close>

definition hash_page_id :: "page_id \<Rightarrow> hash_val" where
  "hash_page_id p = scast p"

lemma unat_hash_page_id: "unat (hash_page_id p) mod 2 ^ 30 = unat p mod 2 ^ 30"
proof -
  have "take_bit 30 (hash_page_id p) = scast (take_bit 30 p)"
    by (rule bit_word_eqI) (auto simp: hash_page_id_def bit_take_bit_iff bit_signed_iff)
  moreover have "unat (scast (take_bit 30 p) :: hash_val) = unat (take_bit 30 p)"
    by (intro bit_eqI) (auto simp: bit_unsigned_iff bit_signed_iff bit_take_bit_iff bit_imp_le_length)
  ultimately have "unat (take_bit 30 (hash_page_id p)) = unat (take_bit 30 p)" by simp
  then show ?thesis unfolding unsigned_take_bit_eq by (simp only: take_bit_eq_mod)
qed

lemma card_same_low_bits:
  fixes c :: nat
  shows "finite {p :: page_id. unat p mod 2 ^ 30 = c} \<and> card {p :: page_id. unat p mod 2 ^ 30 = c} \<le> 4"
proof -
  let ?S = "{p :: page_id. unat p mod 2 ^ 30 = c}" and ?f = "\<lambda>p :: page_id. unat p div 2 ^ 30"
  have inj: "inj_on ?f ?S"
  proof (rule inj_onI)
    fix p q :: page_id
    assume "p \<in> ?S" "q \<in> ?S" "?f p = ?f q"
    then have "unat p = unat q" by (metis (mono_tags, lifting) div_mod_decomp mem_Collect_eq)
    then show "p = q" by (simp only: word_unat_eq_iff)
  qed
  have img: "?f ` ?S \<subseteq> {..<4}"
  proof -
    have "unat p div 2 ^ 30 < 4" for p :: page_id
      using unsigned_less [of p, where ?'a = nat] by (simp add: less_mult_imp_div_less)
    then show ?thesis by blast
  qed
  have "finite ?S" using inj_on_finite [OF inj img] by simp
  moreover have "card ?S \<le> 4" using card_inj_on_le [OF inj img] by simp
  ultimately show ?thesis by simp
qed

lemma colliding_page_ids:
  assumes "Find hash_page_id t k = None"
  shows "card (colliding hash_page_id t k) < 4"
proof -
  let ?S = "{p :: page_id. unat p mod 2 ^ 30 = unat k mod 2 ^ 30}"
  have "colliding hash_page_id t k \<subseteq> ?S - {k}"
    unfolding colliding_def unat_hash_page_id using assms by auto
  moreover have "finite ?S" "card ?S \<le> 4" using card_same_low_bits by auto
  ultimately have "card (colliding hash_page_id t k) \<le> card (?S - {k})"
    by (intro card_mono finite_Diff)
  also have "\<dots> < card ?S" using \<open>finite ?S\<close> by (intro card_Diff1_less) simp_all
  finally show ?thesis using \<open>card ?S \<le> 4\<close> by simp
qed

definition page_table_inv :: "(page_id, 'v) eht \<Rightarrow> bool" where
  "page_table_inv t \<longleftrightarrow> eht_inv hash_page_id t \<and> bucket_size t = 4"

lemma page_table_insert:
  assumes "page_table_inv t"
  shows "\<exists>t'. Insert hash_page_id k v t = Some (Inr t') \<and> page_table_inv t' \<and>
              Find hash_page_id t' = (Find hash_page_id t)(k \<mapsto> v)"
proof -
  obtain r where r: "Insert hash_page_id k v t = Some r" "insert_post hash_page_id k v t r"
    using Insert_returns assms by (metis page_table_inv_def)
  then show ?thesis
    using assms colliding_page_ids [of t k]
    by (auto simp: insert_post_def page_table_inv_def split: sum.splits eht_error.splits)
qed

interpretation pt: page_table "Find hash_page_id" "Insert hash_page_id" "Remove hash_page_id"
  page_table_inv
proof (unfold_locales, goal_cases)
  case (4 t k v)
  then show ?case by (rule page_table_insert)
qed (simp_all add: page_table_inv_def Remove_correct)

section \<open>Properties\<close>

text \<open>A table with one bucket of capacity one that holds the key 0: inserting 2 doubles the
  directory twice and splits twice.\<close>

definition demo_table :: "(nat, nat) eht" where
  "demo_table = \<lparr>global_depth = 0, bucket_size = 1, num_buckets = 1, dir = [0],
     heap = [\<lparr>bk_size = 1, bk_depth = 0, bk_list = [(0, 10)]\<rparr>]\<rparr>"

lemma demo_table_inv: "eht_inv h demo_table"
  by (auto simp: eht_inv_def dir_inv_def bucket_ok_def demo_table_def IndexOf_def)

lemmas eht_eval = demo_table_def IndexOf_def RedistributeBucket_def double_dir_def
  redirect_dir_def eht_simps upt_rec drop_bit_eq_div

lemma demo_table_insert:
  "Insert of_nat 2 20 demo_table = Some (Inr \<lparr>global_depth = 2, bucket_size = 1, num_buckets = 3,
     dir = [0, 1, 2, 1],
     heap = [\<lparr>bk_size = 1, bk_depth = 2, bk_list = [(0, 10)]\<rparr>, \<lparr>bk_size = 1, bk_depth = 1, bk_list = []\<rparr>,
             \<lparr>bk_size = 1, bk_depth = 2, bk_list = [(2, 20)]\<rparr>]\<rparr>)"
  by (subst Insert.simps, simp add: eht_eval, subst Insert.simps, simp add: eht_eval,
      subst Insert.simps, simp add: eht_eval)

text \<open>C4. In every well-formed table, \<^verbatim>\<open>Insert\<close> returns, although its loop has no exit
  condition of its own: either it gives a well-formed table that is the old map with the key
  mapped to the value, or the directory would have to grow past depth 30, which only happens
  when the key is new and at least a bucketful of stored keys agree with it on the low 30 bits
  of the hash.\<close>

theorem Insert_outcome:
  assumes "eht_inv h t"
  shows "\<exists>r. Insert h k v t = Some r \<and>
    (case r of
       Inr t' \<Rightarrow> eht_inv h t' \<and> Find h t' = (Find h t)(k \<mapsto> v) \<and> bucket_size t' = bucket_size t
     | Inl Depth_Overflow \<Rightarrow> Find h t k = None \<and>
         bucket_size t \<le> card {k' \<in> dom (Find h t). unat (h k') mod 2 ^ 30 = unat (h k) mod 2 ^ 30})"
  using Insert_returns [OF assms, of k v] by (simp only: insert_post_def colliding_def)

theorem Insert_outcome_witness:
  "eht_inv of_nat demo_table \<and>
   (\<exists>t'. Insert of_nat 2 20 demo_table = Some (Inr t') \<and> Find of_nat t' = (Find of_nat demo_table)(2 \<mapsto> 20))"
  using Insert_outcome [OF demo_table_inv, of of_nat 2 20] demo_table_inv [of of_nat]
  unfolding demo_table_insert by fastforce

text \<open>C12. The page table of the buffer pool (32-bit page ids, buckets of four) never reaches the
  depth limit: at most four ids share their low 30 bits, so \<^verbatim>\<open>Insert\<close> always succeeds and acts
  as a map update.\<close>

theorem page_table_insert_succeeds:
  assumes "eht_inv hash_page_id t" and "bucket_size t = 4"
  shows "\<exists>t'. Insert hash_page_id p f t = Some (Inr t') \<and> eht_inv hash_page_id t' \<and> bucket_size t' = 4 \<and>
    Find hash_page_id t' = (Find hash_page_id t)(p \<mapsto> f)"
  using pt.insert_total [of t p f] assms by (simp add: page_table_inv_def)

theorem page_table_insert_succeeds_witness:
  "eht_inv hash_page_id (new_eht 4 :: (page_id, int) eht) \<and>
   (\<exists>t'. Insert hash_page_id 7 (3 :: int) (new_eht 4) = Some (Inr t') \<and> eht_inv hash_page_id t' \<and>
      Find hash_page_id t' = [7 \<mapsto> 3])"
proof -
  have "bucket_size (new_eht 4) = 4" by (simp add: new_eht_def)
  from page_table_insert_succeeds [OF eht_inv_new this, of 7 "3 :: int"] show ?thesis
    using eht_inv_new [of hash_page_id 4] by (auto simp: Find_new)
qed

text \<open>C11. \<^verbatim>\<open>Remove\<close> reports whether the key was stored, keeps the table well formed and acts as
  deletion on the map: no other key is affected.\<close>

theorem Remove_refines_delete:
  assumes "eht_inv h t"
  shows "fst (Remove h t k) = (Find h t k \<noteq> None) \<and> eht_inv h (snd (Remove h t k)) \<and>
    Find h (snd (Remove h t k)) = (Find h t)(k := None)"
  using Remove_correct [OF assms] by simp

theorem Remove_refines_delete_witness:
  "eht_inv of_nat demo_table \<and> fst (Remove of_nat demo_table 0) \<and>
   Find of_nat (snd (Remove of_nat demo_table 0)) = Map.empty"
proof -
  have "Find of_nat demo_table = [0 \<mapsto> 10]"
    by (auto simp: Find_eq demo_table_def IndexOf_def fun_eq_iff)
  then show ?thesis
    using Remove_refines_delete [OF demo_table_inv, of of_nat 0] demo_table_inv [of of_nat] by auto
qed

text \<open>C13. In every table built through the constructor, \<^verbatim>\<open>Insert\<close> and \<^verbatim>\<open>Remove\<close>, the
  directory has \<^verbatim>\<open>2^global_depth\<close> entries, every local depth is at most the global depth, two
  entries share a bucket exactly when they agree on the local-depth low bits, the bucket count
  is the number of distinct buckets of the directory, and no bucket holds more than its
  capacity or a key that hashes elsewhere.\<close>

theorem reachable_directory:
  assumes "eht_reachable h n t"
  shows "length (dir t) = 2 ^ GetGlobalDepth t \<and> GetNumBuckets t = card (set (dir t)) \<and>
    (\<forall>i < length (dir t). \<exists>d. GetLocalDepth t i = Some d \<and> d \<le> GetGlobalDepth t \<and>
       (\<forall>j < length (dir t). dir t ! i = dir t ! j \<longleftrightarrow> i mod 2 ^ d = j mod 2 ^ d) \<and>
       length (bk_list (heap t ! (dir t ! i))) \<le> n \<and>
       (\<forall>k \<in> fst ` set (bk_list (heap t ! (dir t ! i))). dir t ! IndexOf h t k = dir t ! i))"
proof -
  have inv: "eht_inv h t" and n: "bucket_size t = n" using reachable_inv [OF assms] by auto
  note di = eht_inv_dir [OF inv]
  have "GetNumBuckets t = card (set (dir t))"
    by (simp add: GetNumBuckets_def eht_inv_num [OF inv] dir_inv_set [OF di])
  moreover have "bucket_ok h t (dir t ! i)" if "i < length (dir t)" for i
    using that dir_invD [OF di] by (intro eht_inv_bucket [OF inv]) auto
  ultimately show ?thesis
    using dir_invD [OF di] n by (auto simp: GetGlobalDepth_def GetLocalDepth_def bucket_ok_def)
qed

theorem reachable_directory_witness:
  "\<exists>t :: (nat, nat) eht. eht_reachable of_nat 3 t \<and> length (dir t) = 1 \<and> GetNumBuckets t = card (set (dir t))"
proof -
  have r: "eht_reachable of_nat 3 (new_eht 3 :: (nat, nat) eht)" by (rule eht_init)
  show ?thesis
    using reachable_directory [OF r] r by (intro exI [of _ "new_eht 3"]) (simp add: new_eht_def)
qed

end
