(* ===== verification/Lru_K.thy ===== *)
theory Lru_K
  imports Interfaces
begin

text \<open>
  The replacement policy of \<^verbatim>\<open>src/src/buffer/lru_k_replacer.cpp\<close>. The code keeps two hand-made
  doubly linked lists with sentinel nodes (frames with fewer than \<^verbatim>\<open>k_\<close> accesses, and the
  others) whose links are weak pointers; the only owner of a frame node is the map \<^verbatim>\<open>mp_\<close>. The
  model keeps the pointers: a node store maps the four sentinels and the frames of \<^verbatim>\<open>mp_\<close> to
  nodes with their \<^verbatim>\<open>pre_\<close> and \<^verbatim>\<open>nex_\<close> links, and a weak pointer whose target is not in the
  store has expired. The counters, \<^verbatim>\<open>size_t\<close> in the code, are natural numbers; the cast of the number of frames to
  \<^verbatim>\<open>frame_id_t\<close> in the bounds check is the conversion of the language. A simulation relates it to an abstract replacer over two lists of frame
  ids, on which the eviction order is proved.
\<close>

section \<open>Frame nodes and the replacer\<close>

datatype fptr = LruHead | LruTail | HistHead | HistTail | FrameP frame_id

record fnode =
  nd_frame_id :: frame_id
  nd_pre :: "fptr option"
  nd_nex :: "fptr option"
  nd_timestamps :: "nat list"
  nd_record_cnt :: nat
  nd_evictable :: bool

record lruk =
  current_timestamp :: nat
  curr_size :: nat
  replacer_size :: nat
  k_param :: nat
  tot_size :: nat
  nodes :: "fptr \<Rightarrow> fnode option"

text \<open>What a call can end with beside a normal return: a thrown string, a \<^verbatim>\<open>bad_weak_ptr\<close> or a
  null dereference through an expired link, \<^verbatim>\<open>pop_front\<close> on an empty list, and locking
  \<^verbatim>\<open>latch_\<close> twice in the same thread.\<close>

datatype lruk_error = Invalid_Frame | Not_Evictable | Expired_Link | Empty_Pop_Front | Self_Deadlock

definition new_fnode :: "frame_id \<Rightarrow> fnode" where
  "new_fnode f = \<lparr>nd_frame_id = f, nd_pre = None, nd_nex = None, nd_timestamps = [],
     nd_record_cnt = 0, nd_evictable = True\<rparr>"

definition new_lruk :: "nat \<Rightarrow> nat \<Rightarrow> lruk" where
  "new_lruk num_frames k =
     \<lparr>current_timestamp = 0, curr_size = 0, replacer_size = num_frames, k_param = k, tot_size = 0,
      nodes = [LruHead \<mapsto> (new_fnode 0)\<lparr>nd_nex := Some LruTail\<rparr>,
               LruTail \<mapsto> (new_fnode 0)\<lparr>nd_pre := Some LruHead\<rparr>,
               HistHead \<mapsto> (new_fnode 0)\<lparr>nd_nex := Some HistTail\<rparr>,
               HistTail \<mapsto> (new_fnode 0)\<lparr>nd_pre := Some HistHead\<rparr>]\<rparr>"

definition nexts :: "lruk \<Rightarrow> fptr \<Rightarrow> fptr option" where
  "nexts s p = Option.bind (nodes s p) nd_nex"

definition prevs :: "lruk \<Rightarrow> fptr \<Rightarrow> fptr option" where
  "prevs s p = Option.bind (nodes s p) nd_pre"

definition modify_node :: "fptr \<Rightarrow> (fnode \<Rightarrow> fnode) \<Rightarrow> lruk \<Rightarrow> lruk" where
  "modify_node p f s = s\<lparr>nodes := (nodes s)(p := map_option f (nodes s p))\<rparr>"

text \<open>Constructing a \<^verbatim>\<open>shared_ptr\<close> from a weak pointer throws when the target is gone.\<close>

definition lock_link :: "lruk \<Rightarrow> fptr option \<Rightarrow> lruk_error + fptr" where
  "lock_link s l = (case l of None \<Rightarrow> Inl Expired_Link
     | Some p \<Rightarrow> if nodes s p = None then Inl Expired_Link else Inr p)"

definition RemoveFromList :: "fptr \<Rightarrow> lruk \<Rightarrow> lruk_error + lruk" where
  "RemoveFromList frame s =
     ebind (lock_link s (prevs s frame)) (\<lambda>prev.
     ebind (lock_link s (nexts s frame)) (\<lambda>ne.
     Inr (modify_node ne (\<lambda>n. n\<lparr>nd_pre := Some prev\<rparr>)
            (modify_node prev (\<lambda>n. n\<lparr>nd_nex := Some ne\<rparr>) s))))"

definition InsertToListHead :: "fptr \<Rightarrow> fptr \<Rightarrow> lruk \<Rightarrow> lruk_error + lruk" where
  "InsertToListHead frame head s =
     ebind (lock_link s (nexts s head)) (\<lambda>temp.
     Inr (modify_node frame (\<lambda>n. n\<lparr>nd_pre := Some head\<rparr>)
            (modify_node temp (\<lambda>n. n\<lparr>nd_pre := Some frame\<rparr>)
              (modify_node frame (\<lambda>n. n\<lparr>nd_nex := Some temp\<rparr>)
                (modify_node head (\<lambda>n. n\<lparr>nd_nex := Some frame\<rparr>) s)))))"

definition LRUK_Size :: "lruk \<Rightarrow> nat" where
  "LRUK_Size s = curr_size s"

text \<open>The two scanning loops of \<^verbatim>\<open>Evict\<close>, from \<open>p\<close> towards the head: \<^const>\<open>None\<close> when the
  loop does not end, otherwise the evictable node found, if any.\<close>

partial_function (option) scan_evictable ::
  "lruk \<Rightarrow> fptr \<Rightarrow> fptr option \<Rightarrow> (lruk_error + fptr option) option" where
  "scan_evictable s head p = (case p of
       None \<Rightarrow> Some (Inl Expired_Link)
     | Some q \<Rightarrow> if q = head then Some (Inr None)
         else (case nodes s q of
             None \<Rightarrow> Some (Inl Expired_Link)
           | Some n \<Rightarrow> if nd_evictable n then Some (Inr (Some q))
               else scan_evictable s head (nd_pre n)))"

definition erase_frame :: "frame_id \<Rightarrow> lruk \<Rightarrow> lruk" where
  "erase_frame f s = s\<lparr>nodes := (nodes s)(FrameP f := None), tot_size := tot_size s - 1,
     curr_size := curr_size s - 1\<rparr>"

definition evict_node :: "fptr \<Rightarrow> lruk \<Rightarrow> lruk_error + frame_id option \<times> lruk" where
  "evict_node p s = (case nodes s p of
       None \<Rightarrow> Inl Expired_Link
     | Some n \<Rightarrow> ebind (RemoveFromList p s) (\<lambda>s'.
         Inr (Some (nd_frame_id n), erase_frame (nd_frame_id n) s')))"

definition LRUK_Evict :: "lruk \<Rightarrow> (lruk_error + frame_id option \<times> lruk) option" where
  "LRUK_Evict s =
     (if LRUK_Size s = 0 then Some (Inr (None, s))
      else case scan_evictable s HistHead (prevs s HistTail) of
          None \<Rightarrow> None
        | Some (Inl e) \<Rightarrow> Some (Inl e)
        | Some (Inr (Some p)) \<Rightarrow> Some (evict_node p s)
        | Some (Inr None) \<Rightarrow>
            (case scan_evictable s LruHead (prevs s LruTail) of
               None \<Rightarrow> None
             | Some (Inl e) \<Rightarrow> Some (Inl e)
             | Some (Inr (Some p)) \<Rightarrow> Some (evict_node p s)
             | Some (Inr None) \<Rightarrow> Some (Inr (None, s))))"

text \<open>\<^verbatim>\<open>RecordAccess\<close>: the timestamp window and the access count of the node, then the queues.
  A new frame in a full replacer calls \<^verbatim>\<open>Evict\<close>, which locks the mutex already held.\<close>

definition stamp_access :: "nat \<Rightarrow> nat \<Rightarrow> fnode \<Rightarrow> lruk_error + fnode" where
  "stamp_access k now n =
     (let n' = n\<lparr>nd_record_cnt := nd_record_cnt n + 1\<rparr>
      in if length (nd_timestamps n) = k
         then (case nd_timestamps n of [] \<Rightarrow> Inl Empty_Pop_Front
               | t # ts \<Rightarrow> Inr (n'\<lparr>nd_timestamps := ts @ [now]\<rparr>))
         else Inr (n'\<lparr>nd_timestamps := nd_timestamps n @ [now]\<rparr>))"

definition LRUK_RecordAccess :: "frame_id \<Rightarrow> lruk \<Rightarrow> lruk_error + lruk" where
  "LRUK_RecordAccess f s =
     (if f > frame_cast (replacer_size s) then Inl Invalid_Frame
      else
        let p = FrameP f;
            s1 = s\<lparr>current_timestamp := current_timestamp s + 1\<rparr>;
            node = (case nodes s1 p of None \<Rightarrow> new_fnode f | Some n \<Rightarrow> n)
        in ebind (stamp_access (k_param s1) (current_timestamp s1) node) (\<lambda>n.
             let s2 = s1\<lparr>nodes := (nodes s1)(p \<mapsto> n)\<rparr>
             in ebind
                 (if nd_record_cnt n = 1 then
                    if tot_size s2 = replacer_size s2 then Inl Self_Deadlock
                    else ebind (InsertToListHead p HistHead s2) (\<lambda>s3.
                      Inr (s3\<lparr>curr_size := curr_size s3 + 1, tot_size := tot_size s3 + 1\<rparr>))
                  else Inr s2)
                 (\<lambda>s4. if nd_record_cnt n \<ge> k_param s4
                       then ebind (RemoveFromList p s4) (InsertToListHead p LruHead)
                       else Inr s4)))"

definition LRUK_SetEvictable :: "frame_id \<Rightarrow> bool \<Rightarrow> lruk \<Rightarrow> lruk" where
  "LRUK_SetEvictable f set_evictable s =
     (case nodes s (FrameP f) of
        None \<Rightarrow> s
      | Some n \<Rightarrow>
          if nd_evictable n = set_evictable then s
          else modify_node (FrameP f) (\<lambda>n. n\<lparr>nd_evictable := set_evictable\<rparr>)
                 (s\<lparr>curr_size := (if set_evictable then curr_size s + 1 else curr_size s - 1)\<rparr>))"

definition LRUK_Remove :: "frame_id \<Rightarrow> lruk \<Rightarrow> lruk_error + lruk" where
  "LRUK_Remove f s =
     (case nodes s (FrameP f) of
        None \<Rightarrow> Inr s
      | Some n \<Rightarrow>
          if \<not> nd_evictable n then Inl Not_Evictable
          else ebind (RemoveFromList (FrameP f) s) (\<lambda>s'. Inr (erase_frame f s')))"

section \<open>The abstract replacer\<close>

record finfo =
  fi_times :: "nat list"
  fi_cnt :: nat
  fi_ev :: bool

record alruk =
  a_now :: nat
  a_cap :: nat
  a_k :: nat
  a_hist :: "frame_id list"
  a_lru :: "frame_id list"
  a_info :: "frame_id \<Rightarrow> finfo"

definition a_frames :: "alruk \<Rightarrow> frame_id list" where
  "a_frames a = a_hist a @ a_lru a"

definition a_size :: "alruk \<Rightarrow> nat" where
  "a_size a = length (filter (\<lambda>f. fi_ev (a_info a f)) (a_frames a))"

definition a_drop :: "frame_id \<Rightarrow> alruk \<Rightarrow> alruk" where
  "a_drop f a = a\<lparr>a_hist := remove1 f (a_hist a), a_lru := remove1 f (a_lru a)\<rparr>"

definition a_access :: "frame_id \<Rightarrow> alruk \<Rightarrow> finfo" where
  "a_access f a =
     (let i = (if f \<in> set (a_frames a) then a_info a f else \<lparr>fi_times = [], fi_cnt = 0, fi_ev = True\<rparr>)
      in i\<lparr>fi_times := (if length (fi_times i) = a_k a then tl (fi_times i) else fi_times i) @ [a_now a + 1],
           fi_cnt := fi_cnt i + 1\<rparr>)"

definition a_record :: "frame_id \<Rightarrow> alruk \<Rightarrow> alruk" where
  "a_record f a =
     (let i = a_access f a;
          hist = (if f \<in> set (a_frames a) then a_hist a else f # a_hist a)
      in a\<lparr>a_now := a_now a + 1, a_info := (a_info a)(f := i),
           a_hist := (if fi_cnt i \<ge> a_k a then remove1 f hist else hist),
           a_lru := (if fi_cnt i \<ge> a_k a then f # remove1 f (a_lru a) else a_lru a)\<rparr>)"

definition a_victim :: "alruk \<Rightarrow> frame_id option" where
  "a_victim a = find (\<lambda>f. fi_ev (a_info a f)) (rev (a_hist a) @ rev (a_lru a))"

definition a_set_evictable :: "frame_id \<Rightarrow> bool \<Rightarrow> alruk \<Rightarrow> alruk" where
  "a_set_evictable f b a =
     (if f \<in> set (a_frames a) then a\<lparr>a_info := (a_info a)(f := (a_info a f)\<lparr>fi_ev := b\<rparr>)\<rparr> else a)"

section \<open>The simulation\<close>

fun dll :: "(fptr \<Rightarrow> fptr option) \<Rightarrow> (fptr \<Rightarrow> fptr option) \<Rightarrow> fptr list \<Rightarrow> bool" where
  "dll nx pv (p # q # ps) \<longleftrightarrow> nx p = Some q \<and> pv q = Some p \<and> dll nx pv (q # ps)"
| "dll nx pv _ \<longleftrightarrow> True"

definition info_of :: "fnode \<Rightarrow> finfo" where
  "info_of n = \<lparr>fi_times = nd_timestamps n, fi_cnt = nd_record_cnt n, fi_ev = nd_evictable n\<rparr>"

definition chain :: "fptr \<Rightarrow> frame_id list \<Rightarrow> fptr \<Rightarrow> fptr list" where
  "chain h fs t = h # map FrameP fs @ [t]"

definition lruk_links :: "lruk \<Rightarrow> frame_id list \<Rightarrow> frame_id list \<Rightarrow> bool" where
  "lruk_links s hist lru \<longleftrightarrow>
     dll (nexts s) (prevs s) (chain HistHead hist HistTail) \<and>
     dll (nexts s) (prevs s) (chain LruHead lru LruTail) \<and>
     distinct (hist @ lru) \<and>
     {LruHead, LruTail, HistHead, HistTail} \<union> FrameP ` set (hist @ lru) \<subseteq> dom (nodes s)"

definition lruk_rel :: "lruk \<Rightarrow> alruk \<Rightarrow> bool" where
  "lruk_rel s a \<longleftrightarrow>
     lruk_links s (a_hist a) (a_lru a) \<and>
     (\<forall>f. case nodes s (FrameP f) of
        None \<Rightarrow> f \<notin> set (a_frames a)
      | Some n \<Rightarrow> f \<in> set (a_frames a) \<and> nd_frame_id n = f \<and> a_info a f = info_of n) \<and>
     current_timestamp s = a_now a \<and> replacer_size s = a_cap a \<and> k_param s = a_k a \<and>
     tot_size s = length (a_frames a) \<and> curr_size s = a_size a"

text \<open>What the counts and timestamps of the two lists satisfy.\<close>

definition alruk_inv :: "alruk \<Rightarrow> bool" where
  "alruk_inv a \<longleftrightarrow> 1 \<le> a_k a \<and>
     (\<forall>f \<in> set (a_frames a). let i = a_info a f in
        sorted_wrt (<) (fi_times i) \<and> (\<forall>t \<in> set (fi_times i). t \<le> a_now a) \<and>
        0 < fi_cnt i \<and> length (fi_times i) = min (fi_cnt i) (a_k a)) \<and>
     (\<forall>f \<in> set (a_hist a). fi_cnt (a_info a f) < a_k a) \<and>
     (\<forall>f \<in> set (a_lru a). a_k a \<le> fi_cnt (a_info a f)) \<and>
     sorted_wrt (\<lambda>f g. hd (fi_times (a_info a f)) > hd (fi_times (a_info a g))) (a_hist a) \<and>
     sorted_wrt (\<lambda>f g. last (fi_times (a_info a f)) > last (fi_times (a_info a g))) (a_lru a)"

section \<open>Doubly linked lists\<close>

lemma dll_append: "dll nx pv (xs @ p # ys) \<longleftrightarrow> dll nx pv (xs @ [p]) \<and> dll nx pv (p # ys)"
proof (induction xs)
  case (Cons x xs)
  show ?case
  proof (cases xs)
    case (Cons y zs)
    then show ?thesis using Cons.IH by simp
  qed simp
qed simp

lemma dll_cong:
  assumes "\<And>q. q \<in> set (butlast ps) \<Longrightarrow> nx' q = nx q" and "\<And>q. q \<in> set (tl ps) \<Longrightarrow> pv' q = pv q"
  shows "dll nx' pv' ps = dll nx pv ps"
  using assms
proof (induction nx pv ps rule: dll.induct)
  case (1 nx pv p q ps)
  then show ?case by (cases ps) auto
qed auto

lemma dll_remove:
  assumes d: "dll nx pv (xs @ a # p # b # ys)" and dist: "distinct (xs @ a # p # b # ys)"
  shows "dll (nx(a := Some b)) (pv(b := Some a)) (xs @ a # b # ys)"
proof -
  let ?nx = "nx(a := Some b)" and ?pv = "pv(b := Some a)"
  have parts: "dll nx pv (xs @ [a])" "dll nx pv (b # ys)"
    using d dll_append [of nx pv xs a "p # b # ys"] by simp_all
  have "dll ?nx ?pv (xs @ [a]) = dll nx pv (xs @ [a])"
  proof (rule dll_cong)
    show "?nx q = nx q" if "q \<in> set (butlast (xs @ [a]))" for q using that dist by auto
    show "?pv q = pv q" if "q \<in> set (tl (xs @ [a]))" for q using that dist by (cases xs) auto
  qed
  moreover have "dll ?nx ?pv (b # ys) = dll nx pv (b # ys)"
  proof (rule dll_cong)
    show "?nx q = nx q" if "q \<in> set (butlast (b # ys))" for q
      using in_set_butlastD [OF that] dist by auto
    show "?pv q = pv q" if "q \<in> set (tl (b # ys))" for q using that dist by auto
  qed
  ultimately show ?thesis
    using parts dist dll_append [of ?nx ?pv xs a "b # ys"] by simp
qed

lemma dll_insert:
  assumes d: "dll nx pv (h # t # ys)" and dist: "distinct (p # h # t # ys)"
  shows "dll (nx(h := Some p, p := Some t)) (pv(t := Some p, p := Some h)) (h # p # t # ys)"
proof -
  let ?nx = "nx(h := Some p, p := Some t)" and ?pv = "pv(t := Some p, p := Some h)"
  have "dll ?nx ?pv (t # ys) = dll nx pv (t # ys)"
  proof (rule dll_cong)
    show "?nx q = nx q" if "q \<in> set (butlast (t # ys))" for q
      using in_set_butlastD [OF that] dist by auto
    show "?pv q = pv q" if "q \<in> set (tl (t # ys))" for q using that dist by auto
  qed
  then show ?thesis using d dist by auto
qed

lemma chain_split:
  assumes "f \<in> set fs" and "distinct fs"
  obtains xs a b ys where "chain h fs t = xs @ a # FrameP f # b # ys"
    and "chain h (remove1 f fs) t = xs @ a # b # ys"
proof -
  obtain us vs where fs: "fs = us @ f # vs" by (meson assms(1) split_list)
  have "f \<notin> set us" using fs assms(2) by auto
  then have rm: "remove1 f fs = us @ vs" using fs by (simp add: remove1_append)
  obtain xs a where xs: "h # map FrameP us = xs @ [a]" by (metis rev_exhaust list.distinct(1))
  obtain b ys where ys: "map FrameP vs @ [t] = b # ys" by (cases "map FrameP vs @ [t]") auto
  have "chain h fs t = (h # map FrameP us) @ FrameP f # (map FrameP vs @ [t])"
    and "chain h (remove1 f fs) t = (h # map FrameP us) @ (map FrameP vs @ [t])"
    unfolding rm by (simp_all add: chain_def fs)
  then have "chain h fs t = xs @ a # FrameP f # b # ys" and "chain h (remove1 f fs) t = xs @ a # b # ys"
    unfolding xs ys by simp_all
  then show ?thesis by (rule that)
qed

lemma distinct_chain:
  "distinct fs \<Longrightarrow> h \<noteq> t \<Longrightarrow> h \<notin> range FrameP \<Longrightarrow> t \<notin> range FrameP \<Longrightarrow> distinct (chain h fs t)"
  by (auto simp: chain_def distinct_map inj_on_def)

lemma set_chain: "set (chain h fs t) = insert h (insert t (FrameP ` set fs))"
  by (auto simp: chain_def)

section \<open>Pointer operations\<close>

text \<open>Two states that differ in links only.\<close>

definition strip :: "fnode \<Rightarrow> fnode" where
  "strip n = n\<lparr>nd_pre := None, nd_nex := None\<rparr>"

lemma strip_upd [simp]: "strip (n\<lparr>nd_pre := l\<rparr>) = strip n" "strip (n\<lparr>nd_nex := l\<rparr>) = strip n"
  by (simp_all add: strip_def)

definition same_payload :: "lruk \<Rightarrow> lruk \<Rightarrow> bool" where
  "same_payload s s' \<longleftrightarrow> (\<forall>q. map_option strip (nodes s' q) = map_option strip (nodes s q)) \<and>
     s'\<lparr>nodes := Map.empty\<rparr> = s\<lparr>nodes := Map.empty\<rparr>"

lemma same_payload_refl [simp]: "same_payload s s"
  by (simp add: same_payload_def)

lemma same_payload_trans: "same_payload s t \<Longrightarrow> same_payload t u \<Longrightarrow> same_payload s u"
  by (simp add: same_payload_def)

lemma same_payload_dom:
  assumes "same_payload s s'"
  shows "dom (nodes s') = dom (nodes s)"
proof -
  have "(nodes s' q = None) = (nodes s q = None)" for q
    using assms unfolding same_payload_def by (metis map_option_is_None)
  then show ?thesis by (simp add: dom_def)
qed

lemma same_payload_fields:
  assumes "same_payload s s'"
  shows "current_timestamp s' = current_timestamp s" "curr_size s' = curr_size s"
    "replacer_size s' = replacer_size s" "k_param s' = k_param s" "tot_size s' = tot_size s"
  using assms unfolding same_payload_def by (cases s; cases s'; simp)+

lemma same_payload_node:
  assumes "same_payload s s'" and "nodes s' q = Some n'"
  obtains n where "nodes s q = Some n" and "nd_frame_id n' = nd_frame_id n" and "info_of n' = info_of n"
proof -
  have "map_option strip (nodes s q) = map_option strip (nodes s' q)"
    using assms(1) by (simp add: same_payload_def)
  then have "map_option strip (nodes s q) = Some (strip n')" using assms(2) by simp
  then obtain n where n: "nodes s q = Some n" "strip n = strip n'" by auto
  then have "nd_frame_id n' = nd_frame_id n" "info_of n' = info_of n"
    by (cases n; cases n'; simp add: strip_def info_of_def)+
  with n(1) show ?thesis by (rule that)
qed

lemma RemoveFromList_view:
  assumes "prevs s p = Some a" "nexts s p = Some b" "a \<in> dom (nodes s)" "b \<in> dom (nodes s)"
  obtains s' where "RemoveFromList p s = Inr s'" and "nexts s' = (nexts s)(a := Some b)"
    and "prevs s' = (prevs s)(b := Some a)" and "same_payload s s'"
proof -
  let ?s = "modify_node b (\<lambda>n. n\<lparr>nd_pre := Some a\<rparr>) (modify_node a (\<lambda>n. n\<lparr>nd_nex := Some b\<rparr>) s)"
  have "RemoveFromList p s = Inr ?s"
    using assms by (auto simp: RemoveFromList_def lock_link_def)
  moreover have "nexts ?s = (nexts s)(a := Some b)" "prevs ?s = (prevs s)(b := Some a)"
    using assms(3,4) by (auto simp: fun_eq_iff nexts_def prevs_def modify_node_def option.map_comp o_def
        split: option.splits)
  moreover have "same_payload s ?s"
    by (auto simp: same_payload_def modify_node_def option.map_comp o_def)
  ultimately show ?thesis by (rule that)
qed

lemma InsertToListHead_view:
  assumes "nexts s h = Some t" "{h, t, p} \<subseteq> dom (nodes s)" "distinct [h, t, p]"
  obtains s' where "InsertToListHead p h s = Inr s'" and "nexts s' = (nexts s)(h := Some p, p := Some t)"
    and "prevs s' = (prevs s)(t := Some p, p := Some h)" and "same_payload s s'"
proof -
  let ?s = "modify_node p (\<lambda>n. n\<lparr>nd_pre := Some h\<rparr>) (modify_node t (\<lambda>n. n\<lparr>nd_pre := Some p\<rparr>)
      (modify_node p (\<lambda>n. n\<lparr>nd_nex := Some t\<rparr>) (modify_node h (\<lambda>n. n\<lparr>nd_nex := Some p\<rparr>) s)))"
  have "InsertToListHead p h s = Inr ?s"
    using assms by (auto simp: InsertToListHead_def lock_link_def)
  moreover have "nexts ?s = (nexts s)(h := Some p, p := Some t)" "prevs ?s = (prevs s)(t := Some p, p := Some h)"
    using assms(2,3) by (auto simp: fun_eq_iff nexts_def prevs_def modify_node_def option.map_comp o_def
        split: option.splits)
  moreover have "same_payload s ?s"
    by (auto simp: same_payload_def modify_node_def option.map_comp o_def)
  ultimately show ?thesis by (rule that)
qed

text \<open>Two disjoint chains; unlinking from or linking into the first leaves the second alone.\<close>

lemma disjoint_chains:
  assumes "distinct (fs @ gs)" and "distinct [h, t, h', t']" and "{h, t, h', t'} \<inter> range FrameP = {}"
  shows "distinct (chain h fs t)" and "set (chain h fs t) \<inter> set (chain h' gs t') = {}"
  using assms by (auto simp: set_chain intro!: distinct_chain)

lemma chain_remove:
  assumes d: "dll nx pv (chain h fs t)" and d': "dll nx pv (chain h' gs t')"
    and dist: "distinct (fs @ gs)" "distinct [h, t, h', t']" "{h, t, h', t'} \<inter> range FrameP = {}"
    and f: "f \<in> set fs"
  obtains a b where "pv (FrameP f) = Some a" and "nx (FrameP f) = Some b" and "{a, b} \<subseteq> set (chain h fs t)"
    and "dll (nx(a := Some b)) (pv(b := Some a)) (chain h (remove1 f fs) t)"
    and "dll (nx(a := Some b)) (pv(b := Some a)) (chain h' gs t')"
proof -
  note disj = disjoint_chains [OF dist]
  have "distinct fs" using dist(1) by simp
  then obtain xs a b ys where c: "chain h fs t = xs @ a # FrameP f # b # ys"
    and c': "chain h (remove1 f fs) t = xs @ a # b # ys"
    using chain_split [OF f] by metis
  have ab: "{a, b} \<subseteq> set (chain h fs t)" by (simp add: c)
  have "dll nx pv (a # FrameP f # b # ys)"
    using d dll_append [of nx pv xs a "FrameP f # b # ys"] by (simp add: c)
  then have l: "pv (FrameP f) = Some a" "nx (FrameP f) = Some b" by simp_all
  have r: "dll (nx(a := Some b)) (pv(b := Some a)) (chain h (remove1 f fs) t)"
    using d disj(1) unfolding c c' by (rule dll_remove)
  have "dll (nx(a := Some b)) (pv(b := Some a)) (chain h' gs t') = dll nx pv (chain h' gs t')"
  proof (rule dll_cong)
    show "(nx(a := Some b)) q = nx q" if "q \<in> set (butlast (chain h' gs t'))" for q
      using in_set_butlastD [OF that] ab disj(2) by auto
    show "(pv(b := Some a)) q = pv q" if "q \<in> set (tl (chain h' gs t'))" for q
      using that list.set_sel(2) [of "chain h' gs t'" q] ab disj(2) by (auto simp: chain_def)
  qed
  with d' have "dll (nx(a := Some b)) (pv(b := Some a)) (chain h' gs t')" by simp
  from that [OF l ab r this] show ?thesis .
qed

lemma chain_insert:
  assumes d: "dll nx pv (chain h fs t)" and d': "dll nx pv (chain h' gs t')"
    and dist: "distinct ((f # fs) @ gs)" "distinct [h, t, h', t']" "{h, t, h', t'} \<inter> range FrameP = {}"
  obtains u where "nx h = Some u" and "u \<in> set (chain h fs t)" and "distinct [h, u, FrameP f]"
    and "dll (nx(h := Some (FrameP f), FrameP f := Some u)) (pv(u := Some (FrameP f), FrameP f := Some h))
          (chain h (f # fs) t)"
    and "dll (nx(h := Some (FrameP f), FrameP f := Some u)) (pv(u := Some (FrameP f), FrameP f := Some h))
          (chain h' gs t')"
proof -
  obtain u us where us: "map FrameP fs @ [t] = u # us" by (cases "map FrameP fs @ [t]") auto
  let ?u = u and ?us = us
  let ?nx = "nx(h := Some (FrameP f), FrameP f := Some ?u)"
    and ?pv = "pv(?u := Some (FrameP f), FrameP f := Some h)"
  note disj = disjoint_chains [OF dist]
  have c: "chain h fs t = h # ?u # ?us" by (simp add: chain_def us)
  have c': "chain h (f # fs) t = h # FrameP f # ?u # ?us"
    by (simp add: chain_def us)
  have dd: "distinct (FrameP f # h # ?u # ?us)"
    using disj(1) unfolding c' by auto
  have n: "nx h = Some ?u" using d unfolding c by simp
  have r: "dll ?nx ?pv (chain h (f # fs) t)"
    using dll_insert [OF d [unfolded c] dd] unfolding c' .
  have mem: "{h, ?u, FrameP f} \<subseteq> set (chain h (f # fs) t)" unfolding c' by simp
  have "dll ?nx ?pv (chain h' gs t') = dll nx pv (chain h' gs t')"
  proof (rule dll_cong)
    show "?nx q = nx q" if "q \<in> set (butlast (chain h' gs t'))" for q
      using in_set_butlastD [OF that] mem disj(2) by auto
    show "?pv q = pv q" if "q \<in> set (tl (chain h' gs t'))" for q
      using that list.set_sel(2) [of "chain h' gs t'" q] mem disj(2) by (auto simp: chain_def)
  qed
  with d' have r': "dll ?nx ?pv (chain h' gs t')" by simp
  have "?u \<in> set (chain h fs t)" unfolding c by simp
  moreover have "distinct [h, ?u, FrameP f]" using dd by auto
  ultimately show ?thesis using that [OF n _ _ r r'] by blast
qed

lemma sentinels:
  "distinct [HistHead, HistTail, LruHead, LruTail]" "{HistHead, HistTail, LruHead, LruTail} \<inter> range FrameP = {}"
  "distinct [LruHead, LruTail, HistHead, HistTail]" "{LruHead, LruTail, HistHead, HistTail} \<inter> range FrameP = {}"
  by auto

lemma links_remove:
  assumes l: "lruk_links s hist lru" and f: "f \<in> set (hist @ lru)"
  obtains s' where "RemoveFromList (FrameP f) s = Inr s'"
    and "lruk_links s' (remove1 f hist) (remove1 f lru)" and "same_payload s s'"
proof -
  have dh: "dll (nexts s) (prevs s) (chain HistHead hist HistTail)"
    and dl: "dll (nexts s) (prevs s) (chain LruHead lru LruTail)"
    and dist: "distinct (hist @ lru)"
    and dom: "{LruHead, LruTail, HistHead, HistTail} \<union> FrameP ` set (hist @ lru) \<subseteq> dom (nodes s)"
    using l by (auto simp: lruk_links_def)
  have "\<exists>a b. prevs s (FrameP f) = Some a \<and> nexts s (FrameP f) = Some b \<and> {a, b} \<subseteq> dom (nodes s) \<and>
    dll ((nexts s)(a := Some b)) ((prevs s)(b := Some a)) (chain HistHead (remove1 f hist) HistTail) \<and>
    dll ((nexts s)(a := Some b)) ((prevs s)(b := Some a)) (chain LruHead (remove1 f lru) LruTail)"
  proof (cases "f \<in> set hist")
    case True
    then have "remove1 f lru = lru" using dist by (intro remove1_idem) auto
    moreover have "set (chain HistHead hist HistTail) \<subseteq> dom (nodes s)"
      using dom by (auto simp: set_chain)
    ultimately show ?thesis
      by (rule_tac chain_remove [OF dh dl dist sentinels(1,2) True]) (metis subset_trans)
  next
    case False
    then have f': "f \<in> set lru" "remove1 f hist = hist" using f by (auto simp: remove1_idem)
    have "set (chain LruHead lru LruTail) \<subseteq> dom (nodes s)" using dom by (auto simp: set_chain)
    moreover have "distinct (lru @ hist)" using dist by auto
    ultimately show ?thesis
      using f'(2) by (rule_tac chain_remove [OF dl dh _ sentinels(3,4) f'(1)]) (auto dest: subsetD)
  qed
  then obtain a b where ab: "prevs s (FrameP f) = Some a" "nexts s (FrameP f) = Some b"
      "a \<in> dom (nodes s)" "b \<in> dom (nodes s)"
    and dl': "dll ((nexts s)(a := Some b)) ((prevs s)(b := Some a)) (chain HistHead (remove1 f hist) HistTail)"
      "dll ((nexts s)(a := Some b)) ((prevs s)(b := Some a)) (chain LruHead (remove1 f lru) LruTail)"
    by auto
  obtain s' where s': "RemoveFromList (FrameP f) s = Inr s'" "nexts s' = (nexts s)(a := Some b)"
    "prevs s' = (prevs s)(b := Some a)" "same_payload s s'"
    using RemoveFromList_view [OF ab] .
  have sub: "set (remove1 f hist @ remove1 f lru) \<subseteq> set (hist @ lru)"
    using set_remove1_subset [of f hist] set_remove1_subset [of f lru] by auto
  then have "distinct (remove1 f hist @ remove1 f lru)" using dist by auto
  with dl' dom sub have "lruk_links s' (remove1 f hist) (remove1 f lru)"
    unfolding lruk_links_def s'(2,3) same_payload_dom [OF s'(4)] by blast
  with s' show ?thesis using that by blast
qed

lemma links_insert_hist:
  assumes l: "lruk_links s hist lru" and f: "f \<notin> set (hist @ lru)" "FrameP f \<in> dom (nodes s)"
  obtains s' where "InsertToListHead (FrameP f) HistHead s = Inr s'"
    and "lruk_links s' (f # hist) lru" and "same_payload s s'"
proof -
  have d: "dll (nexts s) (prevs s) (chain HistHead hist HistTail)"
    "dll (nexts s) (prevs s) (chain LruHead lru LruTail)" "distinct ((f # hist) @ lru)"
    and dom: "{LruHead, LruTail, HistHead, HistTail} \<union> FrameP ` set (hist @ lru) \<subseteq> dom (nodes s)"
    using l f by (auto simp: lruk_links_def)
  obtain u where u: "nexts s HistHead = Some u" "u \<in> set (chain HistHead hist HistTail)"
      "distinct [HistHead, u, FrameP f]"
    and dl: "dll ((nexts s)(HistHead := Some (FrameP f), FrameP f := Some u))
          ((prevs s)(u := Some (FrameP f), FrameP f := Some HistHead)) (chain HistHead (f # hist) HistTail)"
      "dll ((nexts s)(HistHead := Some (FrameP f), FrameP f := Some u))
          ((prevs s)(u := Some (FrameP f), FrameP f := Some HistHead)) (chain LruHead lru LruTail)"
    by (rule chain_insert [OF d sentinels(1,2)])
  have "{HistHead, u, FrameP f} \<subseteq> dom (nodes s)" using u(2) dom f(2) by (auto simp: set_chain)
  from InsertToListHead_view [OF u(1) this u(3)] obtain s' where
    s': "InsertToListHead (FrameP f) HistHead s = Inr s'" "nexts s' = (nexts s)(HistHead := Some (FrameP f), FrameP f := Some u)"
    "prevs s' = (prevs s)(u := Some (FrameP f), FrameP f := Some HistHead)" "same_payload s s'" .
  have "{LruHead, LruTail, HistHead, HistTail} \<union> FrameP ` set ((f # hist) @ lru) \<subseteq> dom (nodes s')"
    unfolding same_payload_dom [OF s'(4)] using dom f(2) by simp
  with dl d(3) have "lruk_links s' (f # hist) lru" unfolding lruk_links_def s'(2,3) by blast
  with s' show ?thesis using that by blast
qed

lemma links_insert_lru:
  assumes l: "lruk_links s hist lru" and f: "f \<notin> set (hist @ lru)" "FrameP f \<in> dom (nodes s)"
  obtains s' where "InsertToListHead (FrameP f) LruHead s = Inr s'"
    and "lruk_links s' hist (f # lru)" and "same_payload s s'"
proof -
  have d: "dll (nexts s) (prevs s) (chain LruHead lru LruTail)"
    "dll (nexts s) (prevs s) (chain HistHead hist HistTail)" "distinct ((f # lru) @ hist)"
    and dom: "{LruHead, LruTail, HistHead, HistTail} \<union> FrameP ` set (hist @ lru) \<subseteq> dom (nodes s)"
    using l f by (auto simp: lruk_links_def)
  obtain u where u: "nexts s LruHead = Some u" "u \<in> set (chain LruHead lru LruTail)"
      "distinct [LruHead, u, FrameP f]"
    and dl: "dll ((nexts s)(LruHead := Some (FrameP f), FrameP f := Some u))
          ((prevs s)(u := Some (FrameP f), FrameP f := Some LruHead)) (chain LruHead (f # lru) LruTail)"
      "dll ((nexts s)(LruHead := Some (FrameP f), FrameP f := Some u))
          ((prevs s)(u := Some (FrameP f), FrameP f := Some LruHead)) (chain HistHead hist HistTail)"
    by (rule chain_insert [OF d sentinels(3,4)])
  have "{LruHead, u, FrameP f} \<subseteq> dom (nodes s)" using u(2) dom f(2) by (auto simp: set_chain)
  from InsertToListHead_view [OF u(1) this u(3)] obtain s' where
    s': "InsertToListHead (FrameP f) LruHead s = Inr s'" "nexts s' = (nexts s)(LruHead := Some (FrameP f), FrameP f := Some u)"
    "prevs s' = (prevs s)(u := Some (FrameP f), FrameP f := Some LruHead)" "same_payload s s'" .
  have "{LruHead, LruTail, HistHead, HistTail} \<union> FrameP ` set (hist @ (f # lru)) \<subseteq> dom (nodes s')"
    unfolding same_payload_dom [OF s'(4)] using dom f(2) by simp
  moreover have "distinct (hist @ (f # lru))" using d(3) by auto
  ultimately have "lruk_links s' hist (f # lru)" using dl unfolding lruk_links_def s'(2,3) by blast
  with s' show ?thesis using that by blast
qed

lemma remove1_distinct_notin: "distinct xs \<Longrightarrow> x \<notin> set (remove1 x xs)"
  by simp

lemma links_move:
  assumes l: "lruk_links s hist lru" and f: "f \<in> set (hist @ lru)"
  obtains s' where "ebind (RemoveFromList (FrameP f) s) (InsertToListHead (FrameP f) LruHead) = Inr s'"
    and "lruk_links s' (remove1 f hist) (f # remove1 f lru)" and "same_payload s s'"
proof -
  obtain s1 where s1: "RemoveFromList (FrameP f) s = Inr s1"
    "lruk_links s1 (remove1 f hist) (remove1 f lru)" "same_payload s s1"
    using links_remove [OF l f] .
  have "distinct (hist @ lru)" using l by (simp add: lruk_links_def)
  then have n: "f \<notin> set (remove1 f hist @ remove1 f lru)" by simp
  have dom: "FrameP f \<in> dom (nodes s1)"
    using l f unfolding same_payload_dom [OF s1(3)] lruk_links_def by blast
  obtain s2 where s2: "InsertToListHead (FrameP f) LruHead s1 = Inr s2"
    "lruk_links s2 (remove1 f hist) (f # remove1 f lru)" "same_payload s1 s2"
    using links_insert_lru [OF s1(2) n dom] .
  show ?thesis
    using that [of s2] s1 s2 same_payload_trans by auto
qed

section \<open>The operations simulate the abstract replacer\<close>

lemma lruk_relD:
  assumes "lruk_rel s a"
  shows rel_links: "lruk_links s (a_hist a) (a_lru a)"
    and rel_distinct: "distinct (a_frames a)"
    and rel_none: "nodes s (FrameP f) = None \<longleftrightarrow> f \<notin> set (a_frames a)"
    and rel_some: "nodes s (FrameP f) = Some n \<Longrightarrow> nd_frame_id n = f \<and> a_info a f = info_of n"
    and rel_fields: "current_timestamp s = a_now a" "replacer_size s = a_cap a" "k_param s = a_k a"
      "tot_size s = length (a_frames a)" "curr_size s = a_size a"
proof -
  have all: "case nodes s (FrameP f) of None \<Rightarrow> f \<notin> set (a_frames a)
      | Some n \<Rightarrow> f \<in> set (a_frames a) \<and> nd_frame_id n = f \<and> a_info a f = info_of n" for f
    using assms by (simp add: lruk_rel_def)
  show "nodes s (FrameP f) = None \<longleftrightarrow> f \<notin> set (a_frames a)"
    using all [of f] by (auto split: option.splits)
  show "nodes s (FrameP f) = Some n \<Longrightarrow> nd_frame_id n = f \<and> a_info a f = info_of n"
    using all [of f] by simp
qed (use assms in \<open>auto simp: lruk_rel_def lruk_links_def a_frames_def\<close>)

lemma lruk_relI:
  assumes "lruk_links s (a_hist a) (a_lru a)"
    and "\<And>f. nodes s (FrameP f) = None \<Longrightarrow> f \<notin> set (a_frames a)"
    and "\<And>f n. nodes s (FrameP f) = Some n \<Longrightarrow>
           f \<in> set (a_frames a) \<and> nd_frame_id n = f \<and> a_info a f = info_of n"
    and "current_timestamp s = a_now a" "replacer_size s = a_cap a" "k_param s = a_k a"
      "tot_size s = length (a_frames a)" "curr_size s = a_size a"
  shows "lruk_rel s a"
  using assms by (auto simp: lruk_rel_def split: option.splits)

lemma new_lruk_rel:
  "lruk_rel (new_lruk n k) \<lparr>a_now = 0, a_cap = n, a_k = k, a_hist = [], a_lru = [], a_info = i\<rparr>"
  by (simp add: lruk_rel_def lruk_links_def new_lruk_def chain_def nexts_def prevs_def new_fnode_def
      a_frames_def a_size_def)

lemma links_cong:
  assumes l: "lruk_links s hist lru"
    and same: "\<And>q. q \<in> {LruHead, LruTail, HistHead, HistTail} \<union> FrameP ` set (hist @ lru) \<Longrightarrow>
      nexts s' q = nexts s q \<and> prevs s' q = prevs s q \<and> q \<in> dom (nodes s')"
  shows "lruk_links s' hist lru"
proof -
  have eq: "dll (nexts s') (prevs s') ps = dll (nexts s) (prevs s) ps"
    if "set ps \<subseteq> {LruHead, LruTail, HistHead, HistTail} \<union> FrameP ` set (hist @ lru)" for ps
  proof (rule dll_cong)
    show "nexts s' q = nexts s q" if "q \<in> set (butlast ps)" for q
      using in_set_butlastD [OF that] \<open>set ps \<subseteq> _\<close> same by blast
    show "prevs s' q = prevs s q" if "q \<in> set (tl ps)" for q
      using list.set_sel(2) [of ps q] that \<open>set ps \<subseteq> _\<close> same by (cases ps) auto
  qed
  have "dll (nexts s') (prevs s') (chain HistHead hist HistTail)"
    "dll (nexts s') (prevs s') (chain LruHead lru LruTail)"
    using l eq [of "chain HistHead hist HistTail"] eq [of "chain LruHead lru LruTail"]
    by (auto simp: lruk_links_def set_chain)
  moreover have "{LruHead, LruTail, HistHead, HistTail} \<union> FrameP ` set (hist @ lru) \<subseteq> dom (nodes s')"
    using same by blast
  ultimately show ?thesis using l unfolding lruk_links_def by blast
qed

lemma a_frames_drop:
  "distinct (a_frames a) \<Longrightarrow> a_frames (a_drop f a) = removeAll f (a_frames a)"
  by (simp add: a_frames_def a_drop_def distinct_remove1_removeAll)

lemma a_size_drop:
  "distinct (a_frames a) \<Longrightarrow> f \<in> set (a_frames a) \<Longrightarrow> fi_ev (a_info a f) \<Longrightarrow>
     a_size (a_drop f a) = a_size a - 1"
  using length_filter_removeAll [of "a_frames a" f "\<lambda>f. fi_ev (a_info a f)"]
  by (simp add: a_size_def a_frames_drop) (simp add: a_drop_def)

lemma erase_sim:
  assumes rel: "lruk_rel s a" and f: "f \<in> set (a_frames a)" "fi_ev (a_info a f)"
  obtains s' where "RemoveFromList (FrameP f) s = Inr s'" and "lruk_rel (erase_frame f s') (a_drop f a)"
proof -
  have f': "f \<in> set (a_hist a @ a_lru a)" using f by (simp add: a_frames_def)
  note dist = rel_distinct [OF rel]
  obtain s' where s': "RemoveFromList (FrameP f) s = Inr s'"
    "lruk_links s' (remove1 f (a_hist a)) (remove1 f (a_lru a))" "same_payload s s'"
    using links_remove [OF rel_links [OF rel] f'] .
  have notin: "f \<notin> set (remove1 f (a_hist a) @ remove1 f (a_lru a))"
    using dist by (simp add: a_frames_def)
  have "lruk_rel (erase_frame f s') (a_drop f a)"
  proof (rule lruk_relI)
    have "lruk_links (erase_frame f s') (remove1 f (a_hist a)) (remove1 f (a_lru a))"
    proof (rule links_cong [OF s'(2)])
      fix q assume q: "q \<in> {LruHead, LruTail, HistHead, HistTail}
        \<union> FrameP ` set (remove1 f (a_hist a) @ remove1 f (a_lru a))"
      then have "q \<noteq> FrameP f" using notin by auto
      moreover have "q \<in> dom (nodes s')" using q s'(2) unfolding lruk_links_def by blast
      ultimately show "nexts (erase_frame f s') q = nexts s' q \<and> prevs (erase_frame f s') q = prevs s' q \<and>
          q \<in> dom (nodes (erase_frame f s'))"
        by (simp add: nexts_def prevs_def erase_frame_def dom_def)
    qed
    then show "lruk_links (erase_frame f s') (a_hist (a_drop f a)) (a_lru (a_drop f a))"
      by (simp add: a_drop_def)
    have frames: "set (a_frames (a_drop f a)) = set (a_frames a) - {f}"
      using dist by (simp add: a_frames_drop)
    show "g \<notin> set (a_frames (a_drop f a))" if "nodes (erase_frame f s') (FrameP g) = None" for g
    proof (cases "g = f")
      case False
      with that have "FrameP g \<notin> dom (nodes s')" by (auto simp: erase_frame_def)
      then have "nodes s (FrameP g) = None" unfolding same_payload_dom [OF s'(3)] by auto
      then show ?thesis using rel_none [OF rel] by (simp add: frames)
    qed (simp add: frames)
    show "g \<in> set (a_frames (a_drop f a)) \<and> nd_frame_id n = g \<and> a_info (a_drop f a) g = info_of n"
      if n: "nodes (erase_frame f s') (FrameP g) = Some n" for g n
    proof -
      have g: "g \<noteq> f" "nodes s' (FrameP g) = Some n" using n by (auto simp: erase_frame_def split: if_splits)
      obtain n0 where n0: "nodes s (FrameP g) = Some n0" "nd_frame_id n = nd_frame_id n0" "info_of n = info_of n0"
        using same_payload_node [OF s'(3) g(2)] .
      then show ?thesis
        using rel_some [OF rel n0(1)] rel_none [OF rel, of g] g(1) by (simp add: frames) (simp add: a_drop_def)
    qed
    show "tot_size (erase_frame f s') = length (a_frames (a_drop f a))"
      using f dist rel_fields(4) [OF rel] same_payload_fields [OF s'(3)]
      by (simp add: erase_frame_def a_frames_drop distinct_remove1_removeAll [symmetric] length_remove1)
    show "curr_size (erase_frame f s') = a_size (a_drop f a)"
      using a_size_drop [OF dist f] rel_fields(5) [OF rel] same_payload_fields [OF s'(3)]
      by (simp add: erase_frame_def)
  qed (use rel_fields [OF rel] same_payload_fields [OF s'(3)] in \<open>simp_all add: erase_frame_def a_drop_def\<close>)
  with s'(1) show ?thesis by (rule that)
qed

lemma Remove_sim:
  assumes rel: "lruk_rel s a"
  shows "f \<notin> set (a_frames a) \<Longrightarrow> LRUK_Remove f s = Inr s"
    and "f \<in> set (a_frames a) \<Longrightarrow> \<not> fi_ev (a_info a f) \<Longrightarrow> LRUK_Remove f s = Inl Not_Evictable"
    and "f \<in> set (a_frames a) \<Longrightarrow> fi_ev (a_info a f) \<Longrightarrow>
           \<exists>s'. LRUK_Remove f s = Inr s' \<and> lruk_rel s' (a_drop f a)"
proof -
  have node: "\<exists>n. nodes s (FrameP f) = Some n \<and> a_info a f = info_of n" if "f \<in> set (a_frames a)"
    using rel_none [OF rel, of f] rel_some [OF rel, of f] that by (cases "nodes s (FrameP f)") auto
  show "f \<notin> set (a_frames a) \<Longrightarrow> LRUK_Remove f s = Inr s"
    using rel_none [OF rel, of f] by (simp add: LRUK_Remove_def)
  show "f \<in> set (a_frames a) \<Longrightarrow> \<not> fi_ev (a_info a f) \<Longrightarrow> LRUK_Remove f s = Inl Not_Evictable"
    using node by (auto simp: LRUK_Remove_def info_of_def)
  show "\<exists>s'. LRUK_Remove f s = Inr s' \<and> lruk_rel s' (a_drop f a)"
    if f: "f \<in> set (a_frames a)" "fi_ev (a_info a f)"
  proof -
    obtain s' where "RemoveFromList (FrameP f) s = Inr s'" "lruk_rel (erase_frame f s') (a_drop f a)"
      using erase_sim [OF rel f] .
    moreover obtain n where "nodes s (FrameP f) = Some n" "nd_evictable n"
      using node [OF f(1)] f(2) by (auto simp: info_of_def)
    ultimately show ?thesis by (simp add: LRUK_Remove_def)
  qed
qed

lemma modify_payload_links:
  assumes l: "lruk_links s hist lru" and g: "\<And>n. nd_pre (g n) = nd_pre n \<and> nd_nex (g n) = nd_nex n"
  shows "lruk_links (modify_node p g s) hist lru"
proof (rule links_cong [OF l])
  fix q assume "q \<in> {LruHead, LruTail, HistHead, HistTail} \<union> FrameP ` set (hist @ lru)"
  then have "q \<in> dom (nodes s)" using l unfolding lruk_links_def by blast
  then show "nexts (modify_node p g s) q = nexts s q \<and> prevs (modify_node p g s) q = prevs s q \<and>
      q \<in> dom (nodes (modify_node p g s))"
    using g by (auto simp: nexts_def prevs_def modify_node_def split: option.splits)
qed

lemma links_fields:
  assumes "lruk_links s hist lru" and "nodes s' = nodes s"
  shows "lruk_links s' hist lru"
proof -
  have "nexts s' = nexts s" "prevs s' = prevs s"
    using assms(2) by (simp_all add: nexts_def prevs_def fun_eq_iff)
  with assms show ?thesis by (simp add: lruk_links_def)
qed

lemma a_size_set_evictable:
  assumes "distinct (a_frames a)" "f \<in> set (a_frames a)" "fi_ev (a_info a f) \<noteq> b"
  shows "a_size (a_set_evictable f b a) = (if b then a_size a + 1 else a_size a - 1)"
proof -
  have fr: "a_frames (a_set_evictable f b a) = a_frames a" by (simp add: a_set_evictable_def a_frames_def)
  let ?P = "\<lambda>g. fi_ev (a_info a g)" and ?Q = "\<lambda>g. fi_ev (a_info (a_set_evictable f b a) g)"
  have Q: "?Q f = b" "\<And>g. g \<noteq> f \<Longrightarrow> ?Q g = ?P g" using assms(2) by (simp_all add: a_set_evictable_def)
  show ?thesis
  proof (cases b)
    case True
    then have "length (filter ?Q (a_frames a)) = Suc (length (filter ?P (a_frames a)))"
      using Q assms(3) by (intro length_filter_insert [OF assms(1,2)]) auto
    with True show ?thesis unfolding a_size_def fr by simp
  next
    case False
    then have "length (filter ?P (a_frames a)) = Suc (length (filter ?Q (a_frames a)))"
      using Q assms(3) by (intro length_filter_insert [OF assms(1,2)]) auto
    with False show ?thesis unfolding a_size_def fr by simp
  qed
qed

lemma SetEvictable_sim:
  assumes rel: "lruk_rel s a"
  shows "lruk_rel (LRUK_SetEvictable f b s) (a_set_evictable f b a)"
proof (cases "nodes s (FrameP f)")
  case None
  then show ?thesis
    using rel rel_none [OF rel, of f] by (simp add: LRUK_SetEvictable_def a_set_evictable_def)
next
  case (Some n)
  have f: "f \<in> set (a_frames a)" using rel_none [OF rel, of f] Some by auto
  have i: "a_info a f = info_of n" using rel_some [OF rel Some] by simp
  have fr: "a_frames (a_set_evictable f b a) = a_frames a" by (simp add: a_set_evictable_def a_frames_def)
  show ?thesis
  proof (cases "nd_evictable n = b")
    case True
    then have "(a_info a)(f := (a_info a f)\<lparr>fi_ev := b\<rparr>) = a_info a"
      using i by (simp add: fun_eq_iff info_of_def)
    then have "a_set_evictable f b a = a" by (simp add: a_set_evictable_def)
    then show ?thesis using rel Some True by (simp add: LRUK_SetEvictable_def)
  next
    case False
    let ?s0 = "s\<lparr>curr_size := (if b then curr_size s + 1 else curr_size s - 1)\<rparr>"
    let ?s = "modify_node (FrameP f) (\<lambda>n. n\<lparr>nd_evictable := b\<rparr>) ?s0"
    have ev: "fi_ev (a_info a f) \<noteq> b" using i False by (simp add: info_of_def)
    have "lruk_rel ?s (a_set_evictable f b a)"
    proof (rule lruk_relI)
      have "lruk_links (modify_node (FrameP f) (\<lambda>n. n\<lparr>nd_evictable := b\<rparr>) s) (a_hist a) (a_lru a)"
        by (rule modify_payload_links [OF rel_links [OF rel]]) simp
      then have "lruk_links ?s (a_hist a) (a_lru a)"
        by (rule links_fields) (simp add: modify_node_def)
      then show "lruk_links ?s (a_hist (a_set_evictable f b a)) (a_lru (a_set_evictable f b a))"
        by (simp add: a_set_evictable_def)
      show "g \<notin> set (a_frames (a_set_evictable f b a))" if "nodes ?s (FrameP g) = None" for g
        using that rel_none [OF rel, of g] unfolding fr by (auto simp: modify_node_def Some split: if_splits)
      show "g \<in> set (a_frames (a_set_evictable f b a)) \<and> nd_frame_id m = g \<and>
          a_info (a_set_evictable f b a) g = info_of m" if "nodes ?s (FrameP g) = Some m" for g m
        using that f i rel_some [OF rel, of g] rel_none [OF rel, of g] Some unfolding fr
        by (auto simp: modify_node_def a_set_evictable_def info_of_def split: if_splits)
      show "curr_size ?s = a_size (a_set_evictable f b a)"
        using a_size_set_evictable [OF rel_distinct [OF rel] f ev] rel_fields(5) [OF rel]
        by (simp add: modify_node_def)
      show "tot_size ?s = length (a_frames (a_set_evictable f b a))"
        using rel_fields(4) [OF rel] unfolding fr by (simp add: modify_node_def)
    qed (use rel_fields [OF rel] in \<open>simp_all add: modify_node_def a_set_evictable_def\<close>)
    then show ?thesis using Some False by (simp add: LRUK_SetEvictable_def)
  qed
qed

section \<open>Eviction\<close>

lemma dll_pred: "dll nx pv (xs @ a # b # ys) \<Longrightarrow> pv b = Some a"
  using dll_append [of nx pv xs a "b # ys"] by simp

lemma scan_chain:
  assumes "dll (nexts s) (prevs s) (chain h (us @ vs) t)" and "h \<notin> range FrameP"
    and "\<And>f. f \<in> set us \<Longrightarrow> \<exists>n. nodes s (FrameP f) = Some n \<and> nd_evictable n = ev f"
  shows "scan_evictable s h (Some (last (h # map FrameP us))) = Some (Inr (map_option FrameP (find ev (rev us))))"
  using assms
proof (induction us arbitrary: vs rule: rev_induct)
  case Nil
  then show ?case by (subst scan_evictable.simps) simp
next
  case (snoc f us)
  obtain n where n: "nodes s (FrameP f) = Some n" "nd_evictable n = ev f" using snoc.prems(3) by auto
  obtain zs b where zs: "h # map FrameP us = zs @ [b]" by (metis rev_exhaust list.distinct(1))
  have "chain h ((us @ [f]) @ vs) t = (h # map FrameP us) @ FrameP f # map FrameP vs @ [t]"
    by (simp add: chain_def)
  with snoc.prems(1) have "prevs s (FrameP f) = Some b"
    unfolding zs by (auto dest: dll_pred)
  then have pre: "nd_pre n = Some (last (h # map FrameP us))" using n(1) zs by (simp add: prevs_def)
  have neq: "FrameP f \<noteq> h" using snoc.prems(2) by auto
  have "scan_evictable s h (Some (last (h # map FrameP us))) = Some (Inr (map_option FrameP (find ev (rev us))))"
    using snoc.IH [of "f # vs"] snoc.prems by simp
  moreover have "last (h # map FrameP (us @ [f])) = FrameP f" by simp
  ultimately show ?case
    using n neq pre by (simp only:) (subst scan_evictable.simps, simp)
qed

lemma prevs_tail:
  assumes "dll nx pv (chain h fs t)"
  shows "pv t = Some (last (h # map FrameP fs))"
proof -
  obtain zs b where zs: "h # map FrameP fs = zs @ [b]" by (metis rev_exhaust list.distinct(1))
  then have "chain h fs t = zs @ b # t # []" by (simp add: chain_def)
  with assms dll_pred have "pv t = Some b" by metis
  with zs show ?thesis by (metis last_snoc)
qed

lemma a_victim_None: "a_victim a = None \<longleftrightarrow> a_size a = 0"
  by (auto simp: a_victim_def a_size_def a_frames_def find_None_iff filter_empty_conv)

lemma a_victim_Some: "a_victim a = Some f \<Longrightarrow> f \<in> set (a_frames a) \<and> fi_ev (a_info a f)"
  unfolding a_victim_def a_frames_def by (drule find_SomeD) simp

lemma evict_node_sim:
  assumes rel: "lruk_rel s a" and v: "a_victim a = Some f"
  obtains s' where "evict_node (FrameP f) s = Inr (Some f, s')" and "lruk_rel s' (a_drop f a)"
proof -
  have f: "f \<in> set (a_frames a)" "fi_ev (a_info a f)" using a_victim_Some [OF v] by auto
  obtain s' where s': "RemoveFromList (FrameP f) s = Inr s'" "lruk_rel (erase_frame f s') (a_drop f a)"
    using erase_sim [OF rel f] .
  obtain n where n: "nodes s (FrameP f) = Some n" using rel_none [OF rel, of f] f(1) by auto
  have "nd_frame_id n = f" using rel_some [OF rel n] by simp
  with s' n have "evict_node (FrameP f) s = Inr (Some f, erase_frame f s')" by (simp add: evict_node_def)
  then show ?thesis using s'(2) by (rule that)
qed

lemma Evict_sim:
  assumes rel: "lruk_rel s a"
  shows "case a_victim a of
           None \<Rightarrow> LRUK_Evict s = Some (Inr (None, s))
         | Some f \<Rightarrow> \<exists>s'. LRUK_Evict s = Some (Inr (Some f, s')) \<and> lruk_rel s' (a_drop f a)"
proof -
  let ?ev = "\<lambda>f. fi_ev (a_info a f)"
  have dh: "dll (nexts s) (prevs s) (chain HistHead (a_hist a) HistTail)"
    and dl: "dll (nexts s) (prevs s) (chain LruHead (a_lru a) LruTail)"
    using rel_links [OF rel] by (auto simp: lruk_links_def)
  have node: "\<exists>n. nodes s (FrameP f) = Some n \<and> nd_evictable n = ?ev f" if "f \<in> set (a_frames a)" for f
    using rel_none [OF rel, of f] rel_some [OF rel, of f] that by (cases "nodes s (FrameP f)") (auto simp: info_of_def)
  have sh: "scan_evictable s HistHead (prevs s HistTail) = Some (Inr (map_option FrameP (find ?ev (rev (a_hist a)))))"
    unfolding prevs_tail [OF dh] using dh node
    by (intro scan_chain [where vs = "[]" and t = HistTail]) (auto simp: a_frames_def)
  have sl: "scan_evictable s LruHead (prevs s LruTail) = Some (Inr (map_option FrameP (find ?ev (rev (a_lru a)))))"
    unfolding prevs_tail [OF dl] using dl node
    by (intro scan_chain [where vs = "[]" and t = LruTail]) (auto simp: a_frames_def)
  have vic: "a_victim a = (case find ?ev (rev (a_hist a)) of None \<Rightarrow> find ?ev (rev (a_lru a)) | Some f \<Rightarrow> Some f)"
    by (simp add: a_victim_def find_append)
  show ?thesis
  proof (cases "a_victim a")
    case None
    then have "LRUK_Evict s = Some (Inr (None, s))"
      using rel_fields(5) [OF rel] a_victim_None [of a] by (simp add: LRUK_Evict_def LRUK_Size_def)
    with None show ?thesis by simp
  next
    case (Some f)
    then have "LRUK_Size s \<noteq> 0"
      using a_victim_None [of a] rel_fields(5) [OF rel] by (simp add: LRUK_Size_def)
    then have "LRUK_Evict s = Some (evict_node (FrameP f) s)"
      using Some sh sl vic by (auto simp: LRUK_Evict_def split: option.splits)
    moreover obtain s' where "evict_node (FrameP f) s = Inr (Some f, s')" "lruk_rel s' (a_drop f a)"
      using evict_node_sim [OF rel Some] .
    ultimately show ?thesis using Some by simp
  qed
qed

section \<open>Recording an access\<close>

lemma a_size_card:
  "distinct (a_frames a) \<Longrightarrow> a_size a = card {g \<in> set (a_frames a). fi_ev (a_info a g)}"
  by (simp add: a_size_def distinct_length_filter Int_def conj_commute)

lemma a_frames_record:
  assumes "distinct (a_frames a)"
  shows "set (a_frames (a_record f a)) = insert f (set (a_frames a))"
    and "distinct (a_frames (a_record f a))"
  using assms by (auto simp: a_frames_def a_record_def Let_def)

lemma a_info_record: "a_info (a_record f a) = (a_info a)(f := a_access f a)"
  by (simp add: a_record_def Let_def)

lemma fi_ev_access: "fi_ev (a_access f a) = (if f \<in> set (a_frames a) then fi_ev (a_info a f) else True)"
  by (simp add: a_access_def Let_def)

lemma a_size_record:
  assumes "distinct (a_frames a)"
  shows "a_size (a_record f a) = (if f \<in> set (a_frames a) then a_size a else Suc (a_size a))"
proof -
  let ?E = "\<lambda>a. {g \<in> set (a_frames a). fi_ev (a_info a g)}"
  have "?E (a_record f a) = (if f \<in> set (a_frames a) then ?E a else insert f (?E a))"
    by (auto simp: a_frames_record(1) [OF assms] a_info_record fi_ev_access)
  moreover have "finite (?E a)" by simp
  ultimately show ?thesis
    by (auto simp: a_size_card assms a_frames_record(2) [OF assms])
qed

lemma length_frames_record:
  assumes "distinct (a_frames a)"
  shows "length (a_frames (a_record f a)) =
    (if f \<in> set (a_frames a) then length (a_frames a) else Suc (length (a_frames a)))"
proof -
  have "length (a_frames (a_record f a)) = card (insert f (set (a_frames a)))"
    using distinct_card [OF a_frames_record(2) [OF assms]] a_frames_record(1) [OF assms] by metis
  also have "\<dots> = (if f \<in> set (a_frames a) then length (a_frames a) else Suc (length (a_frames a)))"
    using distinct_card [OF assms] by (simp add: insert_absorb)
  finally show ?thesis .
qed

lemma record_final:
  assumes rel: "lruk_rel s a"
    and links: "lruk_links s' (a_hist (a_record f a)) (a_lru (a_record f a))"
    and pay: "same_payload s2 s'"
    and s2: "nodes s2 = (nodes s)(FrameP f \<mapsto> n)" "current_timestamp s2 = current_timestamp s + 1"
      "replacer_size s2 = replacer_size s" "k_param s2 = k_param s"
      "tot_size s2 = (if f \<in> set (a_frames a) then tot_size s else tot_size s + 1)"
      "curr_size s2 = (if f \<in> set (a_frames a) then curr_size s else curr_size s + 1)"
    and n: "nd_frame_id n = f" "info_of n = a_access f a"
  shows "lruk_rel s' (a_record f a)"
proof (rule lruk_relI)
  note dist = rel_distinct [OF rel]
  note fr = a_frames_record(1) [OF dist]
  show "g \<notin> set (a_frames (a_record f a))" if "nodes s' (FrameP g) = None" for g
  proof -
    have "FrameP g \<notin> dom (nodes s2)" using that unfolding same_payload_dom [OF pay, symmetric] by auto
    then have "g \<noteq> f" "nodes s (FrameP g) = None" by (auto simp: s2(1) split: if_splits)
    then show ?thesis using rel_none [OF rel] by (simp add: fr)
  qed
  show "g \<in> set (a_frames (a_record f a)) \<and> nd_frame_id m = g \<and> a_info (a_record f a) g = info_of m"
    if m: "nodes s' (FrameP g) = Some m" for g m
  proof -
    obtain m0 where m0: "nodes s2 (FrameP g) = Some m0" "nd_frame_id m = nd_frame_id m0" "info_of m = info_of m0"
      using same_payload_node [OF pay m] .
    show ?thesis
    proof (cases "g = f")
      case True
      with m0 n show ?thesis by (simp add: s2(1) fr a_info_record)
    next
      case False
      then have "nodes s (FrameP g) = Some m0" using m0(1) by (simp add: s2(1))
      with False m0 show ?thesis
        using rel_some [OF rel, of g] rel_none [OF rel, of g] by (simp add: fr a_info_record)
    qed
  qed
  show "tot_size s' = length (a_frames (a_record f a))"
    using same_payload_fields(5) [OF pay] s2(5) rel_fields(4) [OF rel]
    by (simp add: length_frames_record [OF dist])
  show "curr_size s' = a_size (a_record f a)"
    using same_payload_fields(2) [OF pay] s2(6) rel_fields(5) [OF rel] by (simp add: a_size_record [OF dist])
  show "lruk_links s' (a_hist (a_record f a)) (a_lru (a_record f a))" by (rule links)
qed (use same_payload_fields [OF pay] s2 rel_fields [OF rel] in \<open>simp_all add: a_record_def Let_def\<close>)

lemma stamp_access_sim:
  assumes "1 \<le> k"
  obtains n' where "stamp_access k now n = Inr n'" and "nd_frame_id n' = nd_frame_id n"
    and "nd_pre n' = nd_pre n" and "nd_nex n' = nd_nex n" and "nd_record_cnt n' = nd_record_cnt n + 1"
    and "info_of n' = (info_of n)\<lparr>fi_times := (if length (nd_timestamps n) = k then tl (nd_timestamps n)
          else nd_timestamps n) @ [now], fi_cnt := nd_record_cnt n + 1\<rparr>"
proof -
  let ?n = "n\<lparr>nd_record_cnt := nd_record_cnt n + 1, nd_timestamps :=
    (if length (nd_timestamps n) = k then tl (nd_timestamps n) else nd_timestamps n) @ [now]\<rparr>"
  have "stamp_access k now n = Inr ?n"
    using assms by (cases "nd_timestamps n") (simp_all add: stamp_access_def Let_def)
  from that [OF this] show ?thesis by (simp add: info_of_def)
qed

lemma RecordAccess_sim:
  assumes rel: "lruk_rel s a" and f: "f \<le> frame_cast (a_cap a)" and k: "1 \<le> a_k a"
    and room: "f \<notin> set (a_frames a) \<Longrightarrow> length (a_frames a) \<noteq> a_cap a"
    and cnt: "f \<in> set (a_frames a) \<Longrightarrow> 0 < fi_cnt (a_info a f)"
  shows "\<exists>s'. LRUK_RecordAccess f s = Inr s' \<and> lruk_rel s' (a_record f a)"
proof -
  let ?p = "FrameP f" and ?s1 = "s\<lparr>current_timestamp := current_timestamp s + 1\<rparr>"
  define n0 where "n0 = (case nodes s ?p of None \<Rightarrow> new_fnode f | Some n \<Rightarrow> n)"
  note flds = rel_fields [OF rel]
  have n0: "nd_frame_id n0 = f" "info_of n0 = (if f \<in> set (a_frames a) then a_info a f
      else \<lparr>fi_times = [], fi_cnt = 0, fi_ev = True\<rparr>)"
    using rel_none [OF rel, of f] rel_some [OF rel, of f]
    by (auto simp: n0_def new_fnode_def info_of_def split: option.splits)
  have "nd_record_cnt n0 = fi_cnt (info_of n0)" by (simp add: info_of_def)
  then have cnt0: "nd_record_cnt n0 = 0 \<longleftrightarrow> f \<notin> set (a_frames a)"
    using cnt unfolding n0(2) by auto
  obtain n where n: "stamp_access (a_k a) (a_now a + 1) n0 = Inr n" "nd_frame_id n = nd_frame_id n0"
      "nd_pre n = nd_pre n0" "nd_nex n = nd_nex n0" "nd_record_cnt n = nd_record_cnt n0 + 1"
    and info: "info_of n = (info_of n0)\<lparr>fi_times := (if length (nd_timestamps n0) = a_k a then tl (nd_timestamps n0)
          else nd_timestamps n0) @ [a_now a + 1], fi_cnt := nd_record_cnt n0 + 1\<rparr>"
    using stamp_access_sim [OF k] .
  have "fi_times (info_of n0) = nd_timestamps n0" "fi_cnt (info_of n0) = nd_record_cnt n0"
    by (simp_all add: info_of_def)
  then have acc: "info_of n = a_access f a" using info n0(2) by (simp add: a_access_def Let_def)
  then have cnt_n: "fi_cnt (a_access f a) = nd_record_cnt n" by (simp add: info_of_def [of n] flip: acc)
  let ?s2 = "?s1\<lparr>nodes := (nodes s)(?p \<mapsto> n)\<rparr>"
  have links2: "lruk_links ?s2 (a_hist a) (a_lru a)"
  proof (rule links_cong [OF rel_links [OF rel]])
    fix q assume q: "q \<in> {LruHead, LruTail, HistHead, HistTail} \<union> FrameP ` set (a_hist a @ a_lru a)"
    then have "q \<in> dom (nodes s)" using rel_links [OF rel] unfolding lruk_links_def by blast
    then show "nexts ?s2 q = nexts s q \<and> prevs ?s2 q = prevs s q \<and> q \<in> dom (nodes ?s2)"
      using n(3,4) by (auto simp: nexts_def prevs_def n0_def)
  qed
  have start: "LRUK_RecordAccess f s = ebind
      (if nd_record_cnt n = 1 then if tot_size s = replacer_size s then Inl Self_Deadlock
         else ebind (InsertToListHead ?p HistHead ?s2)
           (\<lambda>s3. Inr (s3\<lparr>curr_size := curr_size s3 + 1, tot_size := tot_size s3 + 1\<rparr>))
       else Inr ?s2)
      (\<lambda>s4. if nd_record_cnt n \<ge> k_param s4 then ebind (RemoveFromList ?p s4) (InsertToListHead ?p LruHead)
            else Inr s4)"
    using f n(1) flds by (simp add: LRUK_RecordAccess_def Let_def n0_def)
  have step: "\<exists>s'. (if nd_record_cnt n \<ge> k_param t then ebind (RemoveFromList ?p t) (InsertToListHead ?p LruHead)
            else Inr t) = Inr s' \<and> lruk_links s' (a_hist (a_record f a)) (a_lru (a_record f a)) \<and> same_payload t s'"
    if t: "lruk_links t (if f \<in> set (a_frames a) then a_hist a else f # a_hist a) (a_lru a)"
      "k_param t = a_k a" for t
  proof (cases "nd_record_cnt n \<ge> a_k a")
    case True
    have mem: "f \<in> set ((if f \<in> set (a_frames a) then a_hist a else f # a_hist a) @ a_lru a)"
      by (simp add: a_frames_def)
    have "a_hist (a_record f a) = remove1 f (if f \<in> set (a_frames a) then a_hist a else f # a_hist a)"
      "a_lru (a_record f a) = f # remove1 f (a_lru a)"
      using True cnt_n by (simp_all add: a_record_def Let_def)
    with True t(2) links_move [OF t(1) mem] show ?thesis by metis
  next
    case False
    then show ?thesis using t cnt_n by (simp add: a_record_def Let_def)
  qed
  show ?thesis
  proof (cases "f \<in> set (a_frames a)")
    case True
    then have more: "nd_record_cnt n \<noteq> 1" using cnt0 n(5) by simp
    have l: "lruk_links ?s2 (if f \<in> set (a_frames a) then a_hist a else f # a_hist a) (a_lru a)"
      using links2 True by simp
    have kp: "k_param ?s2 = a_k a" using flds by simp
    from step [OF l kp] obtain s' where
      s': "(if nd_record_cnt n \<ge> k_param ?s2 then ebind (RemoveFromList ?p ?s2) (InsertToListHead ?p LruHead)
            else Inr ?s2) = Inr s'" "lruk_links s' (a_hist (a_record f a)) (a_lru (a_record f a))"
        "same_payload ?s2 s'" by blast
    have "LRUK_RecordAccess f s = Inr s'"
      by (simp only: start more if_False ebind_simps s'(1))
    moreover have "lruk_rel s' (a_record f a)"
      using record_final [OF rel s'(2,3), of n] n(2) n0(1) acc True by simp
    ultimately show ?thesis by blast
  next
    case False
    then have one: "nd_record_cnt n = 1" using cnt0 n(5) by simp
    have notin: "f \<notin> set (a_hist a @ a_lru a)" using False by (simp add: a_frames_def)
    obtain s3 where s3: "InsertToListHead ?p HistHead ?s2 = Inr s3" "lruk_links s3 (f # a_hist a) (a_lru a)"
      "same_payload ?s2 s3"
      using links_insert_hist [OF links2 notin] by auto
    let ?up = "\<lambda>s3. s3\<lparr>curr_size := curr_size s3 + 1, tot_size := tot_size s3 + 1\<rparr>"
    have "lruk_links (?up s3) (f # a_hist a) (a_lru a)" by (rule links_fields [OF s3(2)]) simp
    with False have l: "lruk_links (?up s3) (if f \<in> set (a_frames a) then a_hist a else f # a_hist a) (a_lru a)"
      by simp
    have kp: "k_param (?up s3) = a_k a" using same_payload_fields [OF s3(3)] flds by simp
    from step [OF l kp] obtain s' where
      s': "(if nd_record_cnt n \<ge> k_param (?up s3) then ebind (RemoveFromList ?p (?up s3)) (InsertToListHead ?p LruHead)
            else Inr (?up s3)) = Inr s'" "lruk_links s' (a_hist (a_record f a)) (a_lru (a_record f a))"
        "same_payload (?up s3) s'" by blast
    have ne: "tot_size s \<noteq> replacer_size s" using room [OF False] flds by simp
    have res: "LRUK_RecordAccess f s = Inr s'"
      by (simp only: start one [THEN eqTrueI] ne if_True if_False ebind_simps s3(1) s'(1))
    have "same_payload (?up ?s2) (?up s3)"
      using s3(3) by (cases s3; cases s) (simp add: same_payload_def)
    from same_payload_trans [OF this s'(3)] have "lruk_rel s' (a_record f a)"
      by (rule record_final [OF rel s'(2)]) (use n(2) n0(1) acc False in simp_all)
    with res show ?thesis by blast
  qed
qed

end
