(* ===== verification/Lru_K_Policy.thy ===== *)
theory Lru_K_Policy
  imports Lru_K
begin

text \<open>
  What the replacer of \<^verbatim>\<open>src/src/buffer/lru_k_replacer.cpp\<close> guarantees to its clients. On the
  abstract replacer the counts and timestamps determine the order of the two lists; by the
  simulation of \<open>Lru_K\<close> the same holds of the pointer structure in every state that a sequence of
  calls can reach, so \<^verbatim>\<open>Evict\<close> chooses the frame the two lists promise, \<^verbatim>\<open>Size\<close> counts the
  evictable frames, and no call on a frame of the pool fails. The interface the buffer pool
  manager relies on is interpreted here.
\<close>

section \<open>The order of the two lists is kept\<close>

lemma sorted_wrt_remove1: "sorted_wrt P xs \<Longrightarrow> sorted_wrt P (remove1 x xs)"
proof (induction xs)
  case (Cons y ys)
  then show ?case using set_remove1_subset [of x ys] by auto
qed simp

text \<open>The entries of a frame: its stamps increase, lie in the past, and are the last \<open>a_k\<close> of its
  accesses.\<close>

definition finfo_ok :: "nat \<Rightarrow> nat \<Rightarrow> finfo \<Rightarrow> bool" where
  "finfo_ok k now i \<longleftrightarrow> sorted_wrt (<) (fi_times i) \<and> (\<forall>t \<in> set (fi_times i). t \<le> now) \<and>
     0 < fi_cnt i \<and> length (fi_times i) = min (fi_cnt i) k"

lemma alruk_inv_alt:
  "alruk_inv a \<longleftrightarrow> 1 \<le> a_k a \<and> (\<forall>f \<in> set (a_frames a). finfo_ok (a_k a) (a_now a) (a_info a f)) \<and>
     (\<forall>f \<in> set (a_hist a). fi_cnt (a_info a f) < a_k a) \<and>
     (\<forall>f \<in> set (a_lru a). a_k a \<le> fi_cnt (a_info a f)) \<and>
     sorted_wrt (\<lambda>f g. hd (fi_times (a_info a f)) > hd (fi_times (a_info a g))) (a_hist a) \<and>
     sorted_wrt (\<lambda>f g. last (fi_times (a_info a f)) > last (fi_times (a_info a g))) (a_lru a)"
  by (simp add: alruk_inv_def finfo_ok_def Let_def)

lemma finfo_ok_nonempty: "finfo_ok k now i \<Longrightarrow> 1 \<le> k \<Longrightarrow> fi_times i \<noteq> []"
  by (auto simp: finfo_ok_def)

lemma finfo_ok_bounds:
  assumes "finfo_ok k now i" and "1 \<le> k"
  shows "hd (fi_times i) \<le> now" and "last (fi_times i) \<le> now"
  using assms(1) finfo_ok_nonempty [OF assms] by (auto simp: finfo_ok_def)

lemma finfo_ok_later: "finfo_ok k now i \<Longrightarrow> now \<le> now' \<Longrightarrow> finfo_ok k now' i"
  by (auto simp: finfo_ok_def)

lemma finfo_ok_access:
  assumes k: "1 \<le> a_k a" and old: "f \<in> set (a_frames a) \<Longrightarrow> finfo_ok (a_k a) (a_now a) (a_info a f)"
  shows "finfo_ok (a_k a) (a_now a + 1) (a_access f a)"
    and "last (fi_times (a_access f a)) = a_now a + 1"
    and "f \<in> set (a_frames a) \<Longrightarrow> fi_cnt (a_info a f) < a_k a \<Longrightarrow>
           hd (fi_times (a_access f a)) = hd (fi_times (a_info a f))"
    and "f \<notin> set (a_frames a) \<Longrightarrow> hd (fi_times (a_access f a)) = a_now a + 1"
proof -
  have grow: "finfo_ok (a_k a) (a_now a + 1)
      (i\<lparr>fi_times := (if length (fi_times i) = a_k a then tl (fi_times i) else fi_times i) @ [a_now a + 1],
         fi_cnt := fi_cnt i + 1\<rparr>)" if "finfo_ok (a_k a) (a_now a) i" for i
    using that k by (cases "fi_times i") (force simp: finfo_ok_def sorted_wrt_append)+
  show "finfo_ok (a_k a) (a_now a + 1) (a_access f a)"
    using grow [OF old] k by (auto simp: a_access_def Let_def finfo_ok_def)
  show "hd (fi_times (a_access f a)) = hd (fi_times (a_info a f))"
    if "f \<in> set (a_frames a)" "fi_cnt (a_info a f) < a_k a"
    using that finfo_ok_nonempty [OF old k] old by (simp add: a_access_def Let_def finfo_ok_def)
qed (use k in \<open>auto simp: a_access_def Let_def\<close>)

lemma alruk_inv_drop:
  assumes "alruk_inv a"
  shows "alruk_inv (a_drop f a)"
  using assms set_remove1_subset [of f "a_hist a"] set_remove1_subset [of f "a_lru a"]
  unfolding alruk_inv_alt a_frames_def a_drop_def by (auto intro: sorted_wrt_remove1)

lemma alruk_inv_set_evictable:
  assumes "alruk_inv a"
  shows "alruk_inv (a_set_evictable f b a)"
proof -
  let ?a = "a_set_evictable f b a"
  have eq: "fi_times (a_info ?a g) = fi_times (a_info a g)" "fi_cnt (a_info ?a g) = fi_cnt (a_info a g)" for g
    by (auto simp: a_set_evictable_def)
  have "a_hist ?a = a_hist a" "a_lru ?a = a_lru a" "a_k ?a = a_k a" "a_now ?a = a_now a"
    by (auto simp: a_set_evictable_def)
  then show ?thesis using assms by (simp add: alruk_inv_alt eq finfo_ok_def a_frames_def)
qed

lemma sorted_wrt_change:
  assumes "sorted_wrt (\<lambda>f g. v (h f) > v (h g)) xs" and "\<And>g. g \<in> set xs \<Longrightarrow> v (h' g) = v (h g)"
  shows "sorted_wrt (\<lambda>f g. (v (h' f) :: nat) > v (h' g)) xs"
  using assms(1) by (rule sorted_wrt_mono_rel [rotated]) (simp add: assms(2))

lemma record_hist_sorted:
  assumes inv: "alruk_inv a" and dist: "distinct (a_frames a)"
  shows "sorted_wrt (\<lambda>g h. hd (fi_times (a_info (a_record f a) g)) > hd (fi_times (a_info (a_record f a) h)))
      (if f \<in> set (a_frames a) then a_hist a else f # a_hist a)"
proof -
  let ?b = "a_record f a"
  have k: "1 \<le> a_k a" and ok: "\<And>g. g \<in> set (a_frames a) \<Longrightarrow> finfo_ok (a_k a) (a_now a) (a_info a g)"
    and hist: "\<And>g. g \<in> set (a_hist a) \<Longrightarrow> fi_cnt (a_info a g) < a_k a"
    and sh: "sorted_wrt (\<lambda>f g. hd (fi_times (a_info a f)) > hd (fi_times (a_info a g))) (a_hist a)"
    using inv unfolding alruk_inv_alt by auto
  note acc = finfo_ok_access [OF k, of f, OF ok]
  have fr: "set (a_hist a) \<subseteq> set (a_frames a)" "set (a_lru a) \<subseteq> set (a_frames a)" by (auto simp: a_frames_def)
  have other: "a_info ?b g = a_info a g" if "g \<noteq> f" for g using that by (simp add: a_info_record)
  show ?thesis
  proof (cases "f \<in> set (a_frames a)")
    case True
    have "hd (fi_times (a_info ?b g)) = hd (fi_times (a_info a g))" if "g \<in> set (a_hist a)" for g
      using acc(3) [OF _ True hist] that other by (cases "g = f") (auto simp: a_info_record)
    then show ?thesis using sorted_wrt_change [of "\<lambda>i. hd (fi_times i)", OF sh] True by simp
  next
    case False
    then have "hd (fi_times (a_info ?b g)) = hd (fi_times (a_info a g))" if "g \<in> set (a_hist a)" for g
      using that other fr by (cases "g = f") auto
    moreover from this have "hd (fi_times (a_info ?b f)) > hd (fi_times (a_info ?b g))"
      if "g \<in> set (a_hist a)" for g
      using that False acc(4) finfo_ok_bounds(1) [OF ok k, of g] fr by (auto simp: a_info_record)
    ultimately show ?thesis using sorted_wrt_change [of "\<lambda>i. hd (fi_times i)", OF sh] False by simp
  qed
qed

lemma record_lru_sorted:
  assumes inv: "alruk_inv a" and dist: "distinct (a_frames a)"
  shows "sorted_wrt (\<lambda>g h. last (fi_times (a_info (a_record f a) g)) > last (fi_times (a_info (a_record f a) h)))
      (remove1 f (a_lru a))"
proof -
  have "sorted_wrt (\<lambda>f g. last (fi_times (a_info a f)) > last (fi_times (a_info a g))) (remove1 f (a_lru a))"
    using inv by (intro sorted_wrt_remove1) (simp add: alruk_inv_alt)
  then show ?thesis
    by (rule sorted_wrt_change [of "\<lambda>i. last (fi_times i)" "a_info a"])
       (use dist in \<open>auto simp: a_info_record a_frames_def\<close>)
qed

lemma alruk_inv_record:
  assumes inv: "alruk_inv a" and dist: "distinct (a_frames a)"
  shows "alruk_inv (a_record f a)"
proof -
  let ?b = "a_record f a" and ?i = "a_access f a"
  have k: "1 \<le> a_k a" and ok: "\<And>g. g \<in> set (a_frames a) \<Longrightarrow> finfo_ok (a_k a) (a_now a) (a_info a g)"
    and hist: "\<And>g. g \<in> set (a_hist a) \<Longrightarrow> fi_cnt (a_info a g) < a_k a"
    and lru: "\<And>g. g \<in> set (a_lru a) \<Longrightarrow> a_k a \<le> fi_cnt (a_info a g)"
    using inv unfolding alruk_inv_alt by auto
  note acc = finfo_ok_access [OF k, of f, OF ok]
  have fr: "set (a_hist a) \<subseteq> set (a_frames a)" "set (a_lru a) \<subseteq> set (a_frames a)" by (auto simp: a_frames_def)
  have flds: "a_k ?b = a_k a" "a_now ?b = a_now a + 1" by (simp_all add: a_record_def Let_def)
  have other: "a_info ?b g = a_info a g" if "g \<noteq> f" for g using that by (simp add: a_info_record)
  have cnt: "fi_cnt ?i = (if f \<in> set (a_frames a) then fi_cnt (a_info a f) else 0) + 1"
    by (simp add: a_access_def Let_def)
  let ?h = "if f \<in> set (a_frames a) then a_hist a else f # a_hist a" and ?l = "remove1 f (a_lru a)"
  have l: "set ?l = set (a_lru a) - {f}" using dist by (simp add: a_frames_def)
  note shist = record_hist_sorted [OF inv dist, of f] and slru = record_lru_sorted [OF inv dist, of f]
  have all_ok: "finfo_ok (a_k a) (a_now a + 1) (a_info ?b g)" if "g \<in> set (a_frames ?b)" for g
    using that acc(1) finfo_ok_later [OF ok, of g "a_now a + 1"] other
    by (cases "g = f") (auto simp: a_info_record a_frames_record(1) [OF dist])
  show ?thesis
  proof (cases "a_k a \<le> fi_cnt ?i")
    case True
    then have b: "a_hist ?b = remove1 f ?h" "a_lru ?b = f # ?l" by (simp_all add: a_record_def Let_def)
    have h: "set (remove1 f ?h) = set (a_hist a) - {f}" using dist by (auto simp: a_frames_def)
    have "last (fi_times (a_info ?b f)) > last (fi_times (a_info ?b g))" if "g \<in> set ?l" for g
      using that acc(2) finfo_ok_bounds(2) [OF ok k, of g] fr other [of g] by (auto simp: l a_info_record)
    then show ?thesis
      unfolding alruk_inv_alt b flds using k all_ok sorted_wrt_remove1 [OF shist, of f] slru True hist lru
      by (auto simp: h l other a_info_record)
  next
    case False
    then have b: "a_hist ?b = ?h" "a_lru ?b = a_lru a" by (simp_all add: a_record_def Let_def)
    have f: "f \<notin> set (a_lru a)" using lru [of f] False cnt fr by (auto split: if_splits)
    then have rm: "?l = a_lru a" by (simp add: remove1_idem)
    have "a_k a \<le> fi_cnt (a_info ?b g)" if "g \<in> set (a_lru a)" for g
      using that f lru [of g] other [of g] by (cases "g = f") auto
    moreover have "fi_cnt (a_info ?b g) < a_k a" if "g \<in> set ?h" for g
      using that False hist [of g] other [of g] by (cases "g = f") (auto simp: a_info_record split: if_splits)
    ultimately show ?thesis
      unfolding alruk_inv_alt b flds using k all_ok shist slru [unfolded rm] by auto
  qed
qed

section \<open>The interface of the replacer\<close>

definition lruk_view :: "lruk \<Rightarrow> frame_id \<Rightarrow> bool option" where
  "lruk_view s f = map_option nd_evictable (nodes s (FrameP f))"

definition lruk_wf :: "nat \<Rightarrow> lruk \<Rightarrow> bool" where
  "lruk_wf n s \<longleftrightarrow> (\<exists>a. lruk_rel s a \<and> alruk_inv a \<and> a_cap a = n \<and> set (a_frames a) \<subseteq> {0..<int n})"

lemma lruk_wfE:
  assumes "lruk_wf n s"
  obtains a where "lruk_rel s a" "alruk_inv a" "a_cap a = n" "set (a_frames a) \<subseteq> {0..<int n}"
  using assms unfolding lruk_wf_def by blast

lemma lruk_wfI:
  "lruk_rel s a \<Longrightarrow> alruk_inv a \<Longrightarrow> a_cap a = n \<Longrightarrow> set (a_frames a) \<subseteq> {0..<int n} \<Longrightarrow> lruk_wf n s"
  unfolding lruk_wf_def by blast

lemma rel_info:
  "lruk_rel s a \<Longrightarrow> map_option info_of (nodes s (FrameP f)) = (if f \<in> set (a_frames a) then Some (a_info a f) else None)"
  using rel_none [of s a f] rel_some [of s a f] by (cases "nodes s (FrameP f)") auto

lemma rel_view:
  assumes "lruk_rel s a"
  shows "lruk_view s f = (if f \<in> set (a_frames a) then Some (fi_ev (a_info a f)) else None)"
proof -
  have "lruk_view s f = map_option fi_ev (map_option info_of (nodes s (FrameP f)))"
    by (simp add: lruk_view_def info_of_def option.map_comp o_def)
  then show ?thesis by (simp add: rel_info [OF assms])
qed

lemma a_cap_simps [simp]:
  "a_cap (a_drop f a) = a_cap a" "a_cap (a_record f a) = a_cap a" "a_cap (a_set_evictable f b a) = a_cap a"
  by (simp_all add: a_drop_def a_record_def a_set_evictable_def Let_def)

lemma a_info_drop [simp]: "a_info (a_drop f a) = a_info a"
  by (simp add: a_drop_def)

lemma a_set_evictable_frames [simp]: "a_frames (a_set_evictable f b a) = a_frames a"
  by (simp add: a_set_evictable_def a_frames_def)

lemma new_lruk_wf: "1 \<le> k \<Longrightarrow> lruk_wf n (new_lruk n k)"
  by (rule lruk_wfI [OF new_lruk_rel]) (auto simp: alruk_inv_def a_frames_def)

lemma frames_room:
  assumes "distinct xs" "set xs \<subseteq> {0..<int n}" "f \<notin> set xs" "0 \<le> f" "f < int n"
  shows "length xs < n"
proof -
  have "set xs \<subset> {0..<int n}" using assms by auto
  then have "card (set xs) < card {0..<int n}" by (intro psubset_card_mono) auto
  then show ?thesis by (simp add: distinct_card [OF assms(1)])
qed

text \<open>Recording an access to a frame of the pool that the bounds check admits always finds room, so the
  self-deadlocking branch is not taken.\<close>

lemma RecordAccess_ok:
  assumes rel: "lruk_rel s a" and inv: "alruk_inv a" and fr: "set (a_frames a) \<subseteq> {0..<int (a_cap a)}"
    and f: "0 \<le> f" "f < int (a_cap a)" "f \<le> frame_cast (a_cap a)"
  obtains s' where "LRUK_RecordAccess f s = Inr s'" and "lruk_rel s' (a_record f a)"
    and "alruk_inv (a_record f a)" and "set (a_frames (a_record f a)) \<subseteq> {0..<int (a_cap a)}"
proof -
  note dist = rel_distinct [OF rel]
  have "\<exists>s'. LRUK_RecordAccess f s = Inr s' \<and> lruk_rel s' (a_record f a)"
  proof (rule RecordAccess_sim [OF rel])
    show "length (a_frames a) \<noteq> a_cap a" if "f \<notin> set (a_frames a)"
      using frames_room [OF dist fr that f(1,2)] by simp
    show "0 < fi_cnt (a_info a f)" if "f \<in> set (a_frames a)"
      using inv that by (auto simp: alruk_inv_alt finfo_ok_def)
  qed (use f inv in \<open>auto simp: alruk_inv_def\<close>)
  moreover have "set (a_frames (a_record f a)) \<subseteq> {0..<int (a_cap a)}"
    using fr f by (auto simp: a_frames_record(1) [OF dist])
  ultimately show ?thesis using alruk_inv_record [OF inv dist] that by blast
qed

lemma lruk_wf_drop:
  assumes "lruk_rel s a" "alruk_inv a" "set (a_frames a) \<subseteq> {0..<int (a_cap a)}" "lruk_rel s' (a_drop f a)"
  shows "lruk_wf (a_cap a) s'" and "lruk_view s' = (lruk_view s)(f := None)"
proof -
  note fr = a_frames_drop [OF rel_distinct [OF assms(1)], of f]
  show "lruk_wf (a_cap a) s'"
    by (rule lruk_wfI [OF assms(4) alruk_inv_drop [OF assms(2)]]) (use assms(3) in \<open>auto simp: fr\<close>)
  show "lruk_view s' = (lruk_view s)(f := None)"
    by (auto simp: fun_eq_iff rel_view [OF assms(1)] rel_view [OF assms(4)] fr)
qed

lemma RecordAccess_law:
  assumes ok: "lruk_wf n s" and f: "0 \<le> f" "f < int n" "f \<le> frame_cast n"
  shows "\<exists>s'. LRUK_RecordAccess f s = Inr s' \<and> lruk_wf n s' \<and>
    lruk_view s' = (lruk_view s)(f \<mapsto> (case lruk_view s f of None \<Rightarrow> True | Some b \<Rightarrow> b))"
proof -
  obtain a where a: "lruk_rel s a" "alruk_inv a" "a_cap a = n" "set (a_frames a) \<subseteq> {0..<int n}"
    using ok by (rule lruk_wfE)
  obtain s' where s': "LRUK_RecordAccess f s = Inr s'" "lruk_rel s' (a_record f a)"
      "alruk_inv (a_record f a)" "set (a_frames (a_record f a)) \<subseteq> {0..<int (a_cap a)}"
    by (rule RecordAccess_ok [OF a(1,2) a(4) [folded a(3)] f(1) f(2,3) [folded a(3)]])
  have "lruk_view s' = (lruk_view s)(f \<mapsto> (case lruk_view s f of None \<Rightarrow> True | Some b \<Rightarrow> b))"
    by (auto simp: fun_eq_iff rel_view [OF s'(2)] rel_view [OF a(1)] a_info_record fi_ev_access
        a_frames_record(1) [OF rel_distinct [OF a(1)]])
  then show ?thesis using s' a(3) lruk_wfI [OF s'(2,3)] by auto
qed

lemma Evict_law:
  assumes ok: "lruk_wf n s"
  shows "\<exists>r s'. LRUK_Evict s = Some (Inr (r, s')) \<and> lruk_wf n s' \<and>
      (case r of None \<Rightarrow> (\<forall>f. lruk_view s f \<noteq> Some True) \<and> s' = s
       | Some f \<Rightarrow> lruk_view s f = Some True \<and> lruk_view s' = (lruk_view s)(f := None))"
proof -
  obtain a where a: "lruk_rel s a" "alruk_inv a" "a_cap a = n" "set (a_frames a) \<subseteq> {0..<int n}"
    using ok by (rule lruk_wfE)
  show ?thesis
  proof (cases "a_victim a")
    case None
    then have "\<forall>f. lruk_view s f \<noteq> Some True"
      by (auto simp: rel_view [OF a(1)] a_victim_def find_None_iff a_frames_def)
    then show ?thesis using Evict_sim [OF a(1)] None ok by auto
  next
    case (Some g)
    then obtain s' where s': "LRUK_Evict s = Some (Inr (Some g, s'))" "lruk_rel s' (a_drop g a)"
      using Evict_sim [OF a(1)] by auto
    show ?thesis
      using s'(1) lruk_wf_drop [OF a(1,2) a(4) [folded a(3)] s'(2)] a_victim_Some [OF Some] a(3)
      by (auto simp: rel_view [OF a(1)])
  qed
qed

lemma Remove_law:
  assumes ok: "lruk_wf n s" and ev: "lruk_view s f \<noteq> Some False"
  shows "\<exists>s'. LRUK_Remove f s = Inr s' \<and> lruk_wf n s' \<and> lruk_view s' = (lruk_view s)(f := None)"
proof -
  obtain a where a: "lruk_rel s a" "alruk_inv a" "a_cap a = n" "set (a_frames a) \<subseteq> {0..<int n}"
    using ok by (rule lruk_wfE)
  show ?thesis
  proof (cases "f \<in> set (a_frames a)")
    case True
    then have "fi_ev (a_info a f)" using ev by (simp add: rel_view [OF a(1)])
    with True obtain s' where s': "LRUK_Remove f s = Inr s'" "lruk_rel s' (a_drop f a)"
      using Remove_sim(3) [OF a(1)] by blast
    then show ?thesis using lruk_wf_drop [OF a(1,2) a(4) [folded a(3)] s'(2)] a(3) by auto
  next
    case False
    then show ?thesis using Remove_sim(1) [OF a(1)] ok by (auto simp: fun_eq_iff rel_view [OF a(1)])
  qed
qed

lemma SetEvictable_law:
  assumes ok: "lruk_wf n s"
  shows "lruk_wf n (LRUK_SetEvictable f b s)"
    and "lruk_view (LRUK_SetEvictable f b s) =
      (if lruk_view s f = None then lruk_view s else (lruk_view s)(f \<mapsto> b))"
proof -
  obtain a where a: "lruk_rel s a" "alruk_inv a" "a_cap a = n" "set (a_frames a) \<subseteq> {0..<int n}"
    using ok by (rule lruk_wfE)
  note sim = SetEvictable_sim [OF a(1), of f b]
  show "lruk_wf n (LRUK_SetEvictable f b s)"
    using lruk_wfI [OF sim alruk_inv_set_evictable [OF a(2)]] a by simp
  show "lruk_view (LRUK_SetEvictable f b s) =
      (if lruk_view s f = None then lruk_view s else (lruk_view s)(f \<mapsto> b))"
    by (auto simp: fun_eq_iff rel_view [OF a(1)] rel_view [OF sim]) (auto simp: a_set_evictable_def)
qed

text \<open>The invariant the buffer pool relies on also bounds the number of frames: from \<open>2\<^sup>3\<^sup>1\<close> frames on
  the bounds check compares with a number that no longer is the number of frames.\<close>

definition lruk_ok :: "nat \<Rightarrow> lruk \<Rightarrow> bool" where
  "lruk_ok n s \<longleftrightarrow> n < 2147483648 \<and> lruk_wf n s"

lemma lruk_okE:
  assumes "lruk_ok n s"
  obtains a where "lruk_rel s a" "alruk_inv a" "a_cap a = n" "set (a_frames a) \<subseteq> {0..<int n}"
  using assms lruk_wfE unfolding lruk_ok_def by blast

lemma new_lruk_ok: "1 \<le> k \<Longrightarrow> n < 2147483648 \<Longrightarrow> lruk_ok n (new_lruk n k)"
  by (simp add: lruk_ok_def new_lruk_wf)

interpretation ev: evictor LRUK_SetEvictable LRUK_Evict LRUK_Remove lruk_view lruk_wf
  by unfold_locales (rule SetEvictable_law Evict_law Remove_law; assumption)+

interpretation rp: replacer LRUK_SetEvictable LRUK_Evict LRUK_Remove lruk_view lruk_ok LRUK_RecordAccess
proof unfold_locales
  fix n s f b assume ok: "lruk_ok n s"
  show "lruk_view (LRUK_SetEvictable f b s) = (if lruk_view s f = None then lruk_view s else (lruk_view s)(f \<mapsto> b))"
    by (rule ev.set_view [of n]) (use ok in \<open>simp add: lruk_ok_def\<close>)
qed (auto simp: lruk_ok_def ev.evict_law ev.remove_law ev.set_inv RecordAccess_law)

section \<open>Reachable replacers\<close>

text \<open>The states that calls on the frames of a pool of \<open>n\<close> frames can produce.\<close>

inductive lruk_reachable :: "nat \<Rightarrow> nat \<Rightarrow> lruk \<Rightarrow> bool" for n k where
  construct: "1 \<le> k \<Longrightarrow> lruk_reachable n k (new_lruk n k)"
| access: "lruk_reachable n k s \<Longrightarrow> 0 \<le> f \<Longrightarrow> f < int n \<Longrightarrow> LRUK_RecordAccess f s = Inr s' \<Longrightarrow>
    lruk_reachable n k s'"
| set_evictable: "lruk_reachable n k s \<Longrightarrow> lruk_reachable n k (LRUK_SetEvictable f b s)"
| evict: "lruk_reachable n k s \<Longrightarrow> LRUK_Evict s = Some (Inr (r, s')) \<Longrightarrow> lruk_reachable n k s'"
| remove: "lruk_reachable n k s \<Longrightarrow> LRUK_Remove f s = Inr s' \<Longrightarrow> lruk_reachable n k s'"

lemma Remove_not_evictable: "lruk_view s f = Some False \<Longrightarrow> LRUK_Remove f s = Inl Not_Evictable"
  by (auto simp: lruk_view_def LRUK_Remove_def)

lemma RecordAccess_admitted: "lruk_wf n s \<Longrightarrow> LRUK_RecordAccess f s = Inr s' \<Longrightarrow> f \<le> frame_cast n"
  by (elim lruk_wfE) (auto simp: LRUK_RecordAccess_def rel_fields split: if_splits)

lemma reachable_wf: "lruk_reachable n k s \<Longrightarrow> lruk_wf n s"
proof (induction rule: lruk_reachable.induct)
  case (access s f s')
  then show ?case using RecordAccess_law [of n s f] RecordAccess_admitted [of n s f s'] by auto
next
  case (evict s r s')
  then show ?case using ev.evict_law [of n s] by auto
next
  case (remove s f s')
  then show ?case using ev.remove_law [of n s f] Remove_not_evictable [of s f] by auto
qed (auto intro: new_lruk_wf ev.set_inv)

lemma reachable_rel:
  assumes "lruk_reachable n k s"
  obtains a where "lruk_rel s a" "alruk_inv a" "a_cap a = n" "set (a_frames a) \<subseteq> {0..<int n}"
  using lruk_wfE [OF reachable_wf [OF assms]] .

lemma find_rev_sorted:
  assumes "sorted_wrt P xs" "find Q (rev xs) = Some x" "y \<in> set xs" "Q y" "y \<noteq> x"
  shows "P y x"
  using assms
proof (induction xs rule: rev_induct)
  case (snoc z zs)
  then show ?case by (auto simp: find_rev_snoc sorted_wrt_append simp del: rev_append dest: find_SomeD split: if_splits)
qed simp

lemma a_victim_order:
  assumes inv: "alruk_inv a" and v: "a_victim a = Some f" and g: "g \<in> set (a_frames a)" "fi_ev (a_info a g)" "g \<noteq> f"
  shows "if fi_cnt (a_info a f) < a_k a
         then fi_cnt (a_info a g) < a_k a \<longrightarrow> hd (fi_times (a_info a f)) < hd (fi_times (a_info a g))
         else a_k a \<le> fi_cnt (a_info a g) \<and> last (fi_times (a_info a f)) < last (fi_times (a_info a g))"
proof (cases "find (\<lambda>f. fi_ev (a_info a f)) (rev (a_hist a))")
  case None
  then have v': "find (\<lambda>f. fi_ev (a_info a f)) (rev (a_lru a)) = Some f"
    using v by (simp add: a_victim_def find_append)
  have "g \<in> set (a_lru a)" using None g by (auto simp: find_None_iff a_frames_def)
  moreover have "f \<in> set (a_lru a)" using find_SomeD [OF v'] by simp
  ultimately show ?thesis
    using inv find_rev_sorted [OF _ v' _ g(2,3)] by (fastforce simp: alruk_inv_alt)
next
  case (Some h)
  then have v': "find (\<lambda>f. fi_ev (a_info a f)) (rev (a_hist a)) = Some f"
    using v by (simp add: a_victim_def find_append)
  have "f \<in> set (a_hist a)" using find_SomeD [OF v'] by simp
  moreover have "a_k a \<le> fi_cnt (a_info a g)" if "g \<notin> set (a_hist a)"
    using that inv g(1) by (auto simp: alruk_inv_alt a_frames_def)
  moreover have "hd (fi_times (a_info a f)) < hd (fi_times (a_info a g))" if "g \<in> set (a_hist a)"
    using inv find_rev_sorted [OF _ v' that g(2,3)] by (auto simp: alruk_inv_alt)
  ultimately show ?thesis using inv by (cases "g \<in> set (a_hist a)") (auto simp: alruk_inv_alt)
qed

section \<open>What the replacer guarantees\<close>

text \<open>The frames with fewer than \<open>k\<close> accesses go first, the one that was admitted earliest; only
  when no such frame is evictable, the frame whose last access is the oldest.\<close>

definition evict_before :: "nat \<Rightarrow> fnode \<Rightarrow> fnode \<Rightarrow> bool" where
  "evict_before k x y \<longleftrightarrow>
     (if nd_record_cnt x < k then nd_record_cnt y < k \<longrightarrow> hd (nd_timestamps x) < hd (nd_timestamps y)
      else k \<le> nd_record_cnt y \<and> last (nd_timestamps x) < last (nd_timestamps y))"

lemma rel_node:
  assumes "lruk_rel s a" "nodes s (FrameP f) = Some x"
  shows "f \<in> set (a_frames a)" "fi_ev (a_info a f) = nd_evictable x" "fi_cnt (a_info a f) = nd_record_cnt x"
    "fi_times (a_info a f) = nd_timestamps x"
  using rel_some [OF assms] rel_none [OF assms(1), of f] assms(2) by (auto simp: info_of_def)

text \<open>C10. In every reachable replacer \<^verbatim>\<open>Evict\<close> returns: with no victim exactly when no tracked
  frame is evictable, leaving the state alone; otherwise with an evictable frame that comes before
  every other evictable frame in the eviction order, and that frame, with its history, is
  forgotten while the flags of all other frames are kept.\<close>

theorem Evict_order:
  assumes "lruk_reachable n k s"
  shows "(LRUK_Evict s = Some (Inr (None, s)) \<and> (\<forall>f. lruk_view s f \<noteq> Some True)) \<or>
    (\<exists>f s' x. LRUK_Evict s = Some (Inr (Some f, s')) \<and> nodes s (FrameP f) = Some x \<and> nd_evictable x \<and>
       (\<forall>g y. g \<noteq> f \<and> nodes s (FrameP g) = Some y \<and> nd_evictable y \<longrightarrow> evict_before (k_param s) x y) \<and>
       nodes s' (FrameP f) = None \<and> lruk_view s' = (lruk_view s)(f := None))"
proof -
  obtain a where a: "lruk_rel s a" "alruk_inv a" "a_cap a = n" "set (a_frames a) \<subseteq> {0..<int n}"
    using reachable_rel [OF assms] .
  note sim = Evict_sim [OF a(1)]
  show ?thesis
  proof (cases "a_victim a")
    case None
    then have "\<forall>f. lruk_view s f \<noteq> Some True"
      by (auto simp: rel_view [OF a(1)] a_victim_def find_None_iff a_frames_def)
    then show ?thesis using sim None by simp
  next
    case (Some f)
    then obtain s' where s': "LRUK_Evict s = Some (Inr (Some f, s'))" "lruk_rel s' (a_drop f a)"
      using sim by auto
    have f: "f \<in> set (a_frames a)" "fi_ev (a_info a f)" using a_victim_Some [OF Some] by auto
    then obtain x where x: "nodes s (FrameP f) = Some x" using rel_none [OF a(1), of f] by auto
    have "evict_before (k_param s) x y" if "g \<noteq> f" "nodes s (FrameP g) = Some y" "nd_evictable y" for g y
      using a_victim_order [OF a(2) Some, of g] rel_node [OF a(1) x] rel_node [OF a(1) that(2)] that(1,3)
        rel_fields(3) [OF a(1)] by (simp add: evict_before_def split: if_splits)
    moreover have "lruk_view s' = (lruk_view s)(f := None)"
      using lruk_wf_drop(2) [OF a(1,2) a(4) [folded a(3)] s'(2)] .
    moreover have "nodes s' (FrameP f) = None"
      using rel_none [OF s'(2), of f] a_frames_drop [OF rel_distinct [OF a(1)], of f] by simp
    ultimately show ?thesis using s'(1) x f(2) rel_node(2) [OF a(1) x] by blast
  qed
qed

definition lruk_demo :: lruk where
  "lruk_demo = projr (ebind (LRUK_RecordAccess 0 (new_lruk 2 2)) (LRUK_RecordAccess 1))"

lemma lruk_demo:
  shows lruk_demo_reachable: "lruk_reachable 2 2 lruk_demo"
    and lruk_demo_view: "lruk_view lruk_demo = [0 \<mapsto> True, 1 \<mapsto> True]"
    and lruk_demo_total: "tot_size lruk_demo = 2"
proof -
  have r0: "lruk_reachable 2 2 (new_lruk 2 2)" by (rule construct) simp
  have v0: "lruk_view (new_lruk 2 2) = Map.empty" by (simp add: lruk_view_def new_lruk_def fun_eq_iff)
  obtain s where s: "LRUK_RecordAccess 0 (new_lruk 2 2) = Inr s" "lruk_view s = [0 \<mapsto> True]"
    using RecordAccess_law [OF reachable_wf [OF r0], of 0] v0 by auto
  have r1: "lruk_reachable 2 2 s" by (rule access [OF r0 _ _ s(1)]) simp_all
  obtain s' where s': "LRUK_RecordAccess 1 s = Inr s'" "lruk_view s' = [0 \<mapsto> True, 1 \<mapsto> True]"
    using RecordAccess_law [OF reachable_wf [OF r1], of 1] s(2) by auto
  have "lruk_demo = s'" by (simp add: lruk_demo_def s s')
  then show "lruk_reachable 2 2 lruk_demo" "lruk_view lruk_demo = [0 \<mapsto> True, 1 \<mapsto> True]"
    using access [OF r1 _ _ s'(1)] s'(2) by simp_all
  show "tot_size lruk_demo = 2" by code_simp
qed

theorem Evict_order_witness:
  "lruk_reachable 2 2 lruk_demo \<and>
   (\<exists>f s' x. LRUK_Evict lruk_demo = Some (Inr (Some f, s')) \<and> nodes lruk_demo (FrameP f) = Some x \<and>
     lruk_view s' = [0 \<mapsto> True, 1 \<mapsto> True](f := None))"
proof -
  have "lruk_view lruk_demo 0 = Some True" by (simp add: lruk_demo_view)
  then show ?thesis using Evict_order [OF lruk_demo_reachable] lruk_demo_reachable lruk_demo_view by metis
qed

lemma evictable_frames:
  assumes "lruk_rel s a"
  shows "{f. lruk_view s f = Some True} = {g \<in> set (a_frames a). fi_ev (a_info a g)}"
  by (auto simp: rel_view [OF assms] split: if_splits)

lemma Size_card:
  assumes "lruk_reachable n k s"
  shows "LRUK_Size s = card {f. lruk_view s f = Some True}" and "finite {f. lruk_view s f = Some True}"
proof -
  obtain a where a: "lruk_rel s a" "alruk_inv a" "a_cap a = n" "set (a_frames a) \<subseteq> {0..<int n}"
    using reachable_rel [OF assms] .
  show "LRUK_Size s = card {f. lruk_view s f = Some True}" "finite {f. lruk_view s f = Some True}"
    using rel_fields(4,5) [OF a(1)] a_size_card [OF rel_distinct [OF a(1)]] by (simp_all add: LRUK_Size_def evictable_frames [OF a(1)])
qed

text \<open>C16. \<^verbatim>\<open>Size\<close> is the number of evictable frames, and \<^verbatim>\<open>tot_size_\<close> that of the tracked ones,
  never more than the frames of the pool.\<close>

theorem Size_counts_evictable:
  assumes "lruk_reachable n k s"
  shows "LRUK_Size s = card {f. lruk_view s f = Some True} \<and>
    tot_size s = card {f. nodes s (FrameP f) \<noteq> None} \<and> tot_size s \<le> n"
proof -
  obtain a where a: "lruk_rel s a" "alruk_inv a" "a_cap a = n" "set (a_frames a) \<subseteq> {0..<int n}"
    using reachable_rel [OF assms] .
  have tracked: "{f. nodes s (FrameP f) \<noteq> None} = set (a_frames a)"
    using rel_none [OF a(1)] by auto
  moreover have "card (set (a_frames a)) \<le> n"
    using card_mono [OF _ a(4)] by simp
  ultimately show ?thesis
    using Size_card(1) [OF assms] rel_fields(4,5) [OF a(1)] distinct_card [OF rel_distinct [OF a(1)]] by simp
qed

theorem Size_counts_evictable_witness:
  "lruk_reachable 2 2 lruk_demo \<and> LRUK_Size lruk_demo = card {0, 1 :: frame_id}"
proof -
  have "{f. lruk_view lruk_demo f = Some True} = {0, 1}" by (auto simp: lruk_demo_view split: if_splits)
  then show ?thesis using Size_counts_evictable [OF lruk_demo_reachable] lruk_demo_reachable by simp
qed

text \<open>Calls of \<^verbatim>\<open>Evict\<close> in a row, until there is no victim or \<open>j\<close> frames have been taken.\<close>

fun evictions :: "nat \<Rightarrow> lruk \<Rightarrow> (lruk_error + frame_id list \<times> lruk) option" where
  "evictions 0 s = Some (Inr ([], s))"
| "evictions (Suc j) s = (case LRUK_Evict s of
       None \<Rightarrow> None
     | Some (Inl e) \<Rightarrow> Some (Inl e)
     | Some (Inr (None, s)) \<Rightarrow> Some (Inr ([], s))
     | Some (Inr (Some f, s)) \<Rightarrow> map_option (\<lambda>r. ebind r (\<lambda>(fs, s). Inr (f # fs, s))) (evictions j s))"

lemma evictions_drain:
  assumes "lruk_wf n s" and "finite {f. lruk_view s f = Some True}" and "card {f. lruk_view s f = Some True} = j"
  shows "\<exists>fs s'. evictions j s = Some (Inr (fs, s')) \<and> distinct fs \<and> set fs = {f. lruk_view s f = Some True} \<and>
    LRUK_Evict s' = Some (Inr (None, s'))"
  using assms
proof (induction j arbitrary: s)
  case 0
  then have none: "lruk_view s f \<noteq> Some True" for f by auto
  from 0(1) show ?case by (cases rule: ev.evict_result) (use none in auto)
next
  case (Suc j)
  from Suc.prems(1) show ?case
  proof (cases rule: ev.evict_result)
    case none
    then show ?thesis using Suc.prems(3) by simp
  next
    case (some f s1)
    have E: "{g. lruk_view s1 g = Some True} = {g. lruk_view s g = Some True} - {f}" using some(4) by auto
    then have "finite {g. lruk_view s1 g = Some True}" "card {g. lruk_view s1 g = Some True} = j" using Suc.prems(2,3) some(3) by simp_all
    from Suc.IH [OF some(2) this] obtain fs s' where fs: "evictions j s1 = Some (Inr (fs, s'))" "distinct fs"
      "set fs = {g. lruk_view s g = Some True} - {f}" "LRUK_Evict s' = Some (Inr (None, s'))" unfolding E by blast
    then have "evictions (Suc j) s = Some (Inr (f # fs, s'))" "distinct (f # fs)" "set (f # fs) = {g. lruk_view s g = Some True}"
      using some(1,3) by auto
    then show ?thesis using fs(4) by blast
  qed
qed

text \<open>C14. Every evictable frame is evicted. From every reachable replacer, \<^verbatim>\<open>Size\<close> calls of \<^verbatim>\<open>Evict\<close> in a
  row all return, together they give every evictable frame, each once and nothing else, and after them
  \<^verbatim>\<open>Evict\<close> finds no victim: no evictable frame is ever stuck in the replacer.\<close>

theorem evictable_frames_are_evicted:
  assumes "lruk_reachable n k s"
  shows "\<exists>fs s'. evictions (LRUK_Size s) s = Some (Inr (fs, s')) \<and> distinct fs \<and> set fs = {f. lruk_view s f = Some True} \<and>
    length fs = LRUK_Size s \<and> LRUK_Evict s' = Some (Inr (None, s'))"
  using evictions_drain [OF reachable_wf [OF assms] Size_card(2) [OF assms] refl] Size_card(1) [OF assms] distinct_card by metis

theorem evictable_frames_are_evicted_witness:
  "\<exists>fs s'. evictions (LRUK_Size lruk_demo) lruk_demo = Some (Inr (fs, s')) \<and> distinct fs \<and> set fs = {0, 1}"
proof -
  have "{f. lruk_view lruk_demo f = Some True} = {0, 1}" by (auto simp: lruk_demo_view split: if_splits)
  then show ?thesis using evictable_frames_are_evicted [OF lruk_demo_reachable] by auto
qed

text \<open>C15. In a replacer built for fewer than \<open>2\<^sup>3\<^sup>1\<close> frames, so that the \<^verbatim>\<open>size_t\<close> that the bounds check
  casts to \<^verbatim>\<open>frame_id_t\<close> fits, recording an access to a frame of the pool never fails: no expired link is followed, the
  branch that would lock the mutex twice is not taken, and \<^verbatim>\<open>pop_front\<close> is never called on an
  empty list. The frame's count goes up by one, its stamps are its last \<open>k\<close> accesses ending with
  the new time, a new frame is admitted as evictable, and the entries of all other frames are
  kept.\<close>

theorem RecordAccess_updates_one_frame:
  assumes "lruk_reachable n k s" and "n < 2147483648" and "0 \<le> f" and "f < int n"
  shows "\<exists>s' x. LRUK_RecordAccess f s = Inr s' \<and> nodes s' (FrameP f) = Some x \<and>
    current_timestamp s' = current_timestamp s + 1 \<and>
    (case nodes s (FrameP f) of
       None \<Rightarrow> nd_record_cnt x = 1 \<and> nd_timestamps x = [current_timestamp s'] \<and> nd_evictable x
     | Some y \<Rightarrow> nd_record_cnt x = nd_record_cnt y + 1 \<and> nd_evictable x = nd_evictable y \<and>
         nd_timestamps x = drop (length (nd_timestamps y) + 1 - k_param s) (nd_timestamps y @ [current_timestamp s'])) \<and>
    (\<forall>g. g \<noteq> f \<longrightarrow> map_option info_of (nodes s' (FrameP g)) = map_option info_of (nodes s (FrameP g)))"
proof -
  obtain a where a: "lruk_rel s a" "alruk_inv a" "a_cap a = n" "set (a_frames a) \<subseteq> {0..<int n}"
    using reachable_rel [OF assms(1)] .
  obtain s' where s': "LRUK_RecordAccess f s = Inr s'" "lruk_rel s' (a_record f a)"
    by (rule RecordAccess_ok [OF a(1,2) a(4) [folded a(3)] assms(3) assms(4) [folded a(3)]]) (use assms a(3) in simp)
  note fr = a_frames_record(1) [OF rel_distinct [OF a(1)], of f]
  obtain x where x: "nodes s' (FrameP f) = Some x" using rel_none [OF s'(2), of f] fr by auto
  have acc: "a_access f a = info_of x" using rel_some [OF s'(2) x] by (simp add: a_info_record)
  have now: "current_timestamp s' = current_timestamp s + 1"
    using rel_fields(1) [OF s'(2)] rel_fields(1) [OF a(1)] by (simp add: a_record_def Let_def)
  have others: "map_option info_of (nodes s' (FrameP g)) = map_option info_of (nodes s (FrameP g))" if "g \<noteq> f" for g
    using that by (simp add: rel_info [OF s'(2)] rel_info [OF a(1)] fr a_info_record)
  have k: "1 \<le> a_k a" "k_param s = a_k a" "current_timestamp s = a_now a"
    using a(2) rel_fields [OF a(1)] by (simp_all add: alruk_inv_def)
  show ?thesis
  proof (cases "nodes s (FrameP f)")
    case None
    then show ?thesis using s'(1) x now others acc k rel_none [OF a(1), of f]
      by (auto simp: a_access_def info_of_def Let_def)
  next
    case (Some y)
    have y: "f \<in> set (a_frames a)" "a_info a f = info_of y"
      using rel_node(1) [OF a(1) Some] rel_some [OF a(1) Some] by auto
    have "length (nd_timestamps y) \<le> a_k a"
      using a(2) y by (auto simp: alruk_inv_alt finfo_ok_def info_of_def dest!: bspec)
    then have "nd_timestamps x = drop (length (nd_timestamps y) + 1 - k_param s) (nd_timestamps y @ [current_timestamp s'])"
      and "nd_record_cnt x = nd_record_cnt y + 1" "nd_evictable x = nd_evictable y"
      using acc y k now by (cases "nd_timestamps y"; auto simp: a_access_def info_of_def Let_def drop_Cons')+
    then show ?thesis using s'(1) x now others Some by auto
  qed
qed

theorem RecordAccess_updates_one_frame_witness:
  "lruk_reachable 2 2 lruk_demo \<and>
   (\<exists>s' x. LRUK_RecordAccess 1 lruk_demo = Inr s' \<and> nodes s' (FrameP 1) = Some x)"
  using RecordAccess_updates_one_frame [OF lruk_demo_reachable, of 1] lruk_demo_reachable by auto

text \<open>The bounds check of \<^verbatim>\<open>RecordAccess\<close> admits the frame id equal to the number of frames. In
  a replacer that already tracks as many frames as it was built for, an access to that frame
  reaches the call of \<^verbatim>\<open>Evict\<close> with the mutex held: the thread waits for itself.\<close>

theorem RecordAccess_self_deadlock:
  assumes "lruk_reachable n k s" and "n < 2147483648" and "tot_size s = n"
  shows "LRUK_RecordAccess (int n) s = Inl Self_Deadlock"
proof -
  obtain a where a: "lruk_rel s a" "alruk_inv a" "a_cap a = n" "set (a_frames a) \<subseteq> {0..<int n}"
    using reachable_rel [OF assms(1)] .
  have "nodes s (FrameP (int n)) = None" using rel_none [OF a(1), of "int n"] a(4) by auto
  moreover have "1 \<le> k_param s" "replacer_size s = n"
    using a rel_fields [OF a(1)] by (simp_all add: alruk_inv_def)
  ultimately show ?thesis using assms(2,3)
    by (simp add: LRUK_RecordAccess_def stamp_access_def new_fnode_def Let_def)
qed

theorem RecordAccess_self_deadlock_witness:
  "lruk_reachable 2 2 lruk_demo \<and> LRUK_RecordAccess 2 lruk_demo = Inl Self_Deadlock"
  using RecordAccess_self_deadlock [OF lruk_demo_reachable] lruk_demo_reachable lruk_demo_total by simp

lemma accesses_sim:
  assumes "lruk_rel s a" "alruk_inv a" "set (a_frames a) \<subseteq> {0..<int (a_cap a)}" "set fs \<subseteq> {0..<int (a_cap a)}"
    and "a_cap a < 2147483648"
  shows "\<exists>s'. foldl (\<lambda>r f. ebind r (LRUK_RecordAccess f)) (Inr s) fs = Inr s' \<and> lruk_rel s' (fold a_record fs a)"
  using assms
proof (induction fs arbitrary: s a)
  case (Cons f fs)
  then have f: "0 \<le> f" "f < int (a_cap a)" "f \<le> frame_cast (a_cap a)" by auto
  obtain s' where s': "LRUK_RecordAccess f s = Inr s'" "lruk_rel s' (a_record f a)"
      "alruk_inv (a_record f a)" "set (a_frames (a_record f a)) \<subseteq> {0..<int (a_cap a)}"
    by (rule RecordAccess_ok [OF Cons.prems(1-3) f])
  show ?case using Cons.IH [OF s'(2,3)] Cons.prems(4,5) s'(1,4) by simp
qed simp

text \<open>The order of the frames with at least \<open>k\<close> accesses is that of their last access, not of
  their \<open>k\<close>-th most recent one as the class comment says: after the accesses 0, 1, 1, 0 with
  \<open>k = 2\<close>, frame 0 has the larger backward distance (its second last access is the oldest) but
  frame 1 is evicted.\<close>

theorem Evict_not_backward_k_distance:
  "\<exists>s x y s'. foldl (\<lambda>r f. ebind r (LRUK_RecordAccess f)) (Inr (new_lruk 2 2)) [0, 1, 1, 0] = Inr s \<and>
     nodes s (FrameP 0) = Some x \<and> nd_evictable x \<and> nd_timestamps x = [1, 4] \<and>
     nodes s (FrameP 1) = Some y \<and> nd_timestamps y = [2, 3] \<and>
     LRUK_Evict s = Some (Inr (Some 1, s'))"
proof -
  let ?a = "\<lparr>a_now = 0, a_cap = 2, a_k = 2, a_hist = [], a_lru = [], a_info = \<lambda>_. \<lparr>fi_times = [], fi_cnt = 0, fi_ev = True\<rparr>\<rparr>"
  let ?b = "fold a_record [0, 1, 1, 0] ?a"
  obtain s where s: "foldl (\<lambda>r f. ebind r (LRUK_RecordAccess f)) (Inr (new_lruk 2 2)) [0, 1, 1, 0] = Inr s"
      "lruk_rel s ?b"
    using accesses_sim [OF new_lruk_rel, of 2 2 _ "[0, 1, 1, 0]"] by (auto simp: alruk_inv_def a_frames_def)
  have b: "set (a_frames ?b) = {0, 1}" "a_info ?b 0 = \<lparr>fi_times = [1, 4], fi_cnt = 2, fi_ev = True\<rparr>"
    "a_info ?b 1 = \<lparr>fi_times = [2, 3], fi_cnt = 2, fi_ev = True\<rparr>" "a_victim ?b = Some 1"
    by code_simp+
  obtain x where x: "nodes s (FrameP 0) = Some x" "info_of x = \<lparr>fi_times = [1, 4], fi_cnt = 2, fi_ev = True\<rparr>"
    using rel_info [OF s(2), of 0] b by auto
  obtain y where y: "nodes s (FrameP 1) = Some y" "info_of y = \<lparr>fi_times = [2, 3], fi_cnt = 2, fi_ev = True\<rparr>"
    using rel_info [OF s(2), of 1] b by auto
  obtain s' where "LRUK_Evict s = Some (Inr (Some 1, s'))"
    using Evict_sim [OF s(2)] b(4) by auto
  then show ?thesis using s(1) x y by (auto simp: info_of_def)
qed

end
