(* ===== verification/Disk_Manager.thy ===== *)
theory Disk_Manager
  imports Interfaces
begin

text \<open>
  The disk managers of \<^verbatim>\<open>src/src/storage/disk/disk_manager.cpp\<close> and
  \<^verbatim>\<open>src/src/storage/disk/disk_manager_memory.cpp\<close>. A file stream is its bytes and its fail flag,
  which a seek to a negative position sets and which makes every later operation a no-op until
  \<^verbatim>\<open>clear\<close>; a write past the end fills the gap with zeros. Physical I/O errors (the \<^verbatim>\<open>bad\<close> bit) and
  failures to open a file do not occur in the model. Offsets keep the width the code gives them:
  \<^verbatim>\<open>WritePage\<close> computes in \<^verbatim>\<open>size_t\<close>, \<^verbatim>\<open>ReadPage\<close> in \<^verbatim>\<open>int\<close>.
\<close>

section \<open>File streams\<close>

record stream =
  st_bytes :: "byte list"
  st_failed :: bool

definition seekp :: "int \<Rightarrow> stream \<Rightarrow> stream" where
  "seekp pos st = (if pos < 0 then st\<lparr>st_failed := True\<rparr> else st)"

definition put_bytes :: "byte list \<Rightarrow> nat \<Rightarrow> byte list \<Rightarrow> byte list" where
  "put_bytes f pos x = take pos (f @ replicate (pos - length f) 0) @ x @ drop (pos + length x) f"

definition stream_write :: "nat \<Rightarrow> byte list \<Rightarrow> stream \<Rightarrow> stream" where
  "stream_write pos x st = (if st_failed st then st else st\<lparr>st_bytes := put_bytes (st_bytes st) pos x\<rparr>)"

text \<open>\<^verbatim>\<open>read\<close> delivers what there is, and sets the fail flag when that is less than asked for.\<close>

definition stream_read :: "nat \<Rightarrow> nat \<Rightarrow> stream \<Rightarrow> byte list \<times> stream" where
  "stream_read pos n st =
     (if st_failed st then ([], st)
      else let got = take n (drop pos (st_bytes st)) in (got, st\<lparr>st_failed := length got < n\<rparr>))"

definition stream_clear :: "stream \<Rightarrow> stream" where
  "stream_clear st = st\<lparr>st_failed := False\<rparr>"

section \<open>The disk manager\<close>

record disk_manager =
  db_io :: stream
  log_io :: stream
  num_writes :: "32 word"
  num_flushes :: "32 word"
  flush_log :: bool
  flush_log_f :: "bool option"
  buffer_used :: nat

text \<open>\<^verbatim>\<open>buffer_used\<close> is the address of the last log buffer (0 for the null pointer), and
  \<^verbatim>\<open>flush_log_f_\<close> tells whether the future of a test, if there is one, becomes ready in time.\<close>

definition new_disk_manager :: "byte list \<Rightarrow> byte list \<Rightarrow> disk_manager" where
  "new_disk_manager db log =
     \<lparr>db_io = \<lparr>st_bytes = db, st_failed = False\<rparr>, log_io = \<lparr>st_bytes = log, st_failed = False\<rparr>,
      num_writes = 0, num_flushes = 0, flush_log = False, flush_log_f = None, buffer_used = 0\<rparr>"

definition GetFileSize :: "byte list \<Rightarrow> int" where
  "GetFileSize file = sint (of_nat (length file) :: 32 word)"

definition WritePage :: "page_id \<Rightarrow> byte list \<Rightarrow> disk_manager \<Rightarrow> disk_manager" where
  "WritePage page_id page_data d =
     (let offset = scast page_id * of_nat BUSTUB_PAGE_SIZE :: 64 word;
          st = seekp (sint offset) (db_io d)
      in d\<lparr>num_writes := num_writes d + 1, db_io := stream_write (unat offset) page_data st\<rparr>)"

definition ReadPage :: "page_id \<Rightarrow> byte list \<Rightarrow> disk_manager \<Rightarrow> byte list \<times> disk_manager" where
  "ReadPage page_id page_data d =
     (let offset = page_id * of_nat BUSTUB_PAGE_SIZE :: 32 word
      in if sint offset > GetFileSize (st_bytes (db_io d)) then (page_data, d)
         else let (got, st) = stream_read (unat offset) BUSTUB_PAGE_SIZE (seekp (sint offset) (db_io d))
              in if length got < BUSTUB_PAGE_SIZE
                 then (got @ replicate (BUSTUB_PAGE_SIZE - length got) 0, d\<lparr>db_io := stream_clear st\<rparr>)
                 else (got, d\<lparr>db_io := st\<rparr>))"

datatype disk_error = Assert_Failed

definition WriteLog :: "nat \<Rightarrow> byte list \<Rightarrow> disk_manager \<Rightarrow> disk_error + disk_manager" where
  "WriteLog log_addr log_data d =
     (if log_addr = buffer_used d then Inl Assert_Failed
      else let d1 = d\<lparr>buffer_used := log_addr\<rparr>
           in if log_data = [] then Inr d1
              else if flush_log_f d1 = Some False then Inl Assert_Failed
              else Inr (d1\<lparr>num_flushes := num_flushes d1 + 1,
                           log_io := stream_write (length (st_bytes (log_io d1))) log_data (log_io d1),
                           flush_log := False\<rparr>))"

definition ReadLog :: "byte list \<Rightarrow> 32 word \<Rightarrow> disk_manager \<Rightarrow> bool \<times> byte list \<times> disk_manager" where
  "ReadLog log_data offset d =
     (if sint offset \<ge> GetFileSize (st_bytes (log_io d)) then (False, log_data, d)
      else let (got, st) = stream_read (unat offset) (length log_data) (seekp (sint offset) (log_io d))
           in if length got < length log_data
              then (True, got @ replicate (length log_data - length got) 0, d\<lparr>log_io := stream_clear st\<rparr>)
              else (True, got, d\<lparr>log_io := st\<rparr>))"

definition GetNumFlushes :: "disk_manager \<Rightarrow> 32 word" where
  "GetNumFlushes d = num_flushes d"

definition GetNumWrites :: "disk_manager \<Rightarrow> 32 word" where
  "GetNumWrites d = num_writes d"

definition GetFlushState :: "disk_manager \<Rightarrow> bool" where
  "GetFlushState d = flush_log d"

section \<open>The in-memory disk manager\<close>

text \<open>One array; a copy that leaves it has no defined result.\<close>

record disk_manager_memory =
  memory :: "byte list"
  mem_num_writes :: "32 word"

definition MemWritePage :: "page_id \<Rightarrow> byte list \<Rightarrow> disk_manager_memory \<Rightarrow> disk_manager_memory option" where
  "MemWritePage page_id page_data d =
     (let offset = unat (scast page_id * of_nat BUSTUB_PAGE_SIZE :: 64 word)
      in if offset + BUSTUB_PAGE_SIZE > length (memory d) then None
         else Some (d\<lparr>mem_num_writes := mem_num_writes d + 1,
                      memory := put_bytes (memory d) offset page_data\<rparr>))"

definition MemReadPage :: "page_id \<Rightarrow> byte list \<Rightarrow> disk_manager_memory \<Rightarrow> (byte list \<times> disk_manager_memory) option" where
  "MemReadPage page_id page_data d =
     (let offset = sint (scast page_id * of_nat BUSTUB_PAGE_SIZE :: 64 word)
      in if offset < 0 \<or> nat offset + BUSTUB_PAGE_SIZE > length (memory d) then None
         else Some (take BUSTUB_PAGE_SIZE (drop (nat offset) (memory d)), d))"

section \<open>Bytes\<close>

lemma length_put_bytes: "length (put_bytes f pos x) = max (length f) (pos + length x)"
  by (simp add: put_bytes_def)

text \<open>The bytes of a file, read as zero past its end.\<close>

definition byte_at :: "byte list \<Rightarrow> nat \<Rightarrow> byte" where
  "byte_at f i = (if i < length f then f ! i else 0)"

lemma byte_at_put:
  "byte_at (put_bytes f pos x) i = (if pos \<le> i \<and> i < pos + length x then x ! (i - pos) else byte_at f i)"
proof -
  have "min (length f) pos + (pos - length f) = pos" by simp
  then show ?thesis by (auto simp: byte_at_def length_put_bytes put_bytes_def nth_append)
qed

definition byte_slice :: "byte list \<Rightarrow> nat \<Rightarrow> nat \<Rightarrow> byte list" where
  "byte_slice f pos n = map (\<lambda>i. byte_at f (pos + i)) [0..<n]"

lemma byte_slice_padded: "byte_slice f pos n = take n (drop pos f) @ replicate (n - length (take n (drop pos f))) 0"
  by (rule nth_equalityI) (auto simp: byte_slice_def byte_at_def nth_append)

lemma byte_slice_put_same: "byte_slice (put_bytes f pos x) pos (length x) = x"
  by (rule nth_equalityI) (auto simp: byte_slice_def byte_at_put)

lemma byte_slice_put_other:
  "q + n \<le> pos \<or> pos + length x \<le> q \<Longrightarrow> byte_slice (put_bytes f pos x) q n = byte_slice f q n"
  by (rule nth_equalityI) (auto simp: byte_slice_def byte_at_put)

section \<open>Page offsets\<close>

text \<open>The page ids whose bytes lie below the largest file size an \<^verbatim>\<open>int\<close> can hold.\<close>

definition valid_page :: "page_id \<Rightarrow> bool" where
  "valid_page p \<longleftrightarrow> unat p < 524287"

definition page_offset :: "page_id \<Rightarrow> nat" where
  "page_offset p = unat p * BUSTUB_PAGE_SIZE"

lemma page_offset_bound: "valid_page p \<Longrightarrow> page_offset p + BUSTUB_PAGE_SIZE < 2 ^ 31"
  by (simp add: valid_page_def page_offset_def BUSTUB_PAGE_SIZE_def)

lemma sint_eq_unat:
  fixes w :: "'a::len word"
  assumes "unat w < 2 ^ (LENGTH('a) - 1)"
  shows "sint w = int (unat w)"
proof -
  have "int (unat w) < 2 ^ (LENGTH('a) - 1)" using assms by (metis of_nat_less_iff of_nat_numeral of_nat_power)
  moreover have "- (2 ^ (LENGTH('a) - 1)) \<le> uint w" by (rule order_trans [of _ 0]) simp_all
  ultimately show ?thesis by (simp add: sint_uint signed_take_bit_int_eq_self)
qed

text \<open>In the valid range both computations of the offset are exact.\<close>

lemma read_offset:
  assumes "valid_page p"
  shows "unat (p * of_nat BUSTUB_PAGE_SIZE) = page_offset p" "sint (p * of_nat BUSTUB_PAGE_SIZE) = int (page_offset p)"
proof -
  have "p * of_nat BUSTUB_PAGE_SIZE = of_nat (page_offset p)" by (simp add: page_offset_def)
  moreover have "page_offset p < 2 ^ 31" using page_offset_bound [OF assms] by simp
  ultimately show "unat (p * of_nat BUSTUB_PAGE_SIZE) = page_offset p"
    by (simp add: unsigned_of_nat take_bit_nat_eq_self)
  then show "sint (p * of_nat BUSTUB_PAGE_SIZE) = int (page_offset p)"
    using \<open>page_offset p < 2 ^ 31\<close> sint_eq_unat [of "p * of_nat BUSTUB_PAGE_SIZE"] by simp
qed

lemma write_offset:
  assumes "valid_page p"
  shows "unat (scast p * of_nat BUSTUB_PAGE_SIZE :: 64 word) = page_offset p"
    and "sint (scast p * of_nat BUSTUB_PAGE_SIZE :: 64 word) = int (page_offset p)"
proof -
  have "sint p = int (unat p)" using assms by (intro sint_eq_unat) (simp add: valid_page_def)
  then have "(scast p :: 64 word) = of_nat (unat p)" by (simp add: scast_eq)
  then have eq: "scast p * of_nat BUSTUB_PAGE_SIZE = (of_nat (page_offset p) :: 64 word)"
    by (simp add: page_offset_def)
  have b: "page_offset p < 2 ^ 63" using page_offset_bound [OF assms] by simp
  show u: "unat (scast p * of_nat BUSTUB_PAGE_SIZE :: 64 word) = page_offset p"
    using b by (simp add: eq unsigned_of_nat take_bit_nat_eq_self)
  show "sint (scast p * of_nat BUSTUB_PAGE_SIZE :: 64 word) = int (page_offset p)"
    using b u sint_eq_unat [of "scast p * of_nat BUSTUB_PAGE_SIZE :: 64 word"] by simp
qed

lemma GetFileSize_exact: "length f < 2 ^ 31 \<Longrightarrow> GetFileSize f = int (length f)"
  using sint_eq_unat [of "of_nat (length f) :: 32 word"]
  by (simp add: GetFileSize_def unsigned_of_nat take_bit_nat_eq_self)

lemma page_offset_disjoint:
  "p \<noteq> q \<Longrightarrow> page_offset p + BUSTUB_PAGE_SIZE \<le> page_offset q \<or> page_offset q + BUSTUB_PAGE_SIZE \<le> page_offset p"
proof -
  have "a * BUSTUB_PAGE_SIZE + BUSTUB_PAGE_SIZE \<le> b * BUSTUB_PAGE_SIZE" if "a < b" for a b :: nat
    using mult_right_mono [of "a + 1" b BUSTUB_PAGE_SIZE] that by simp
  moreover assume "p \<noteq> q"
  then have "unat p < unat q \<or> unat q < unat p" by (metis nat_neq_iff word_unat_eq_iff)
  ultimately show ?thesis by (auto simp: page_offset_def)
qed

section \<open>Both disk managers provide a map of pages\<close>

definition dm_page :: "disk_manager \<Rightarrow> page_id \<Rightarrow> byte list" where
  "dm_page d p = byte_slice (st_bytes (db_io d)) (page_offset p) BUSTUB_PAGE_SIZE"

lemma length_dm_page [simp]: "length (dm_page d p) = BUSTUB_PAGE_SIZE"
  by (simp add: dm_page_def byte_slice_def)

definition dm_inv :: "disk_manager \<Rightarrow> bool" where
  "dm_inv d \<longleftrightarrow> \<not> st_failed (db_io d) \<and> length (st_bytes (db_io d)) < 2 ^ 31"

lemma ReadPage_law:
  assumes inv: "dm_inv d" and p: "valid_page p"
  shows "ReadPage p zero_page d = (dm_page d p, d)"
proof -
  let ?f = "st_bytes (db_io d)" and ?o = "page_offset p"
  have size: "GetFileSize ?f = int (length ?f)" using inv by (simp add: dm_inv_def GetFileSize_exact)
  have st: "(db_io d)\<lparr>st_failed := False\<rparr> = db_io d" using inv by (cases "db_io d") (simp add: dm_inv_def)
  show ?thesis
  proof (cases "length ?f < ?o")
    case True
    then have "dm_page d p = zero_page" by (simp add: dm_page_def byte_slice_padded zero_page_def)
    then show ?thesis using True by (simp add: ReadPage_def read_offset [OF p] size)
  next
    case False
    then show ?thesis
      using inv st by (auto simp: ReadPage_def read_offset [OF p] size seekp_def stream_read_def Let_def
          stream_clear_def dm_page_def byte_slice_padded dm_inv_def)
  qed
qed

lemma WritePage_law:
  assumes inv: "dm_inv d" and p: "valid_page p" and x: "length x = BUSTUB_PAGE_SIZE"
  shows "dm_inv (WritePage p x d)" and "dm_page (WritePage p x d) p = x"
    and "q \<noteq> p \<Longrightarrow> dm_page (WritePage p x d) q = dm_page d q"
proof -
  have eq: "db_io (WritePage p x d) = (db_io d)\<lparr>st_bytes := put_bytes (st_bytes (db_io d)) (page_offset p) x\<rparr>"
    using inv by (simp add: WritePage_def write_offset [OF p] seekp_def stream_write_def Let_def dm_inv_def)
  show "dm_inv (WritePage p x d)"
    using inv page_offset_bound [OF p] by (simp add: dm_inv_def eq length_put_bytes x)
  show "dm_page (WritePage p x d) p = x"
    using byte_slice_put_same [of _ _ x] by (simp add: dm_page_def eq x)
  show "dm_page (WritePage p x d) q = dm_page d q" if "q \<noteq> p"
    using page_offset_disjoint [OF that] byte_slice_put_other [of _ _ _ x] by (simp add: dm_page_def eq x)
qed

interpretation dm: disk "\<lambda>p x d. Some (ReadPage p x d)" "\<lambda>p x d. Some (WritePage p x d)" dm_page valid_page dm_inv
  by unfold_locales (simp_all add: ReadPage_law WritePage_law)

definition mem_inv :: "nat \<Rightarrow> disk_manager_memory \<Rightarrow> bool" where
  "mem_inv pages d \<longleftrightarrow> length (memory d) = pages * BUSTUB_PAGE_SIZE"

definition mem_page :: "disk_manager_memory \<Rightarrow> page_id \<Rightarrow> byte list" where
  "mem_page d p = byte_slice (memory d) (page_offset p) BUSTUB_PAGE_SIZE"

interpretation mm: disk MemReadPage MemWritePage mem_page "\<lambda>p. valid_page p \<and> unat p < pages" "mem_inv pages"
  for pages
proof
  fix d p and x :: "byte list"
  assume inv: "mem_inv pages d" and p: "valid_page p \<and> unat p < pages"
  have "page_offset p + BUSTUB_PAGE_SIZE \<le> length (memory d)"
    using inv p mult_right_mono [of "unat p + 1" pages BUSTUB_PAGE_SIZE]
    by (simp add: mem_inv_def page_offset_def)
  note in_range = this and off = write_offset [OF conjunct1 [OF p]]
  show "MemReadPage p zero_page d = Some (mem_page d p, d)"
    using in_range by (simp add: MemReadPage_def off mem_page_def byte_slice_padded)
  show "\<exists>d'. MemWritePage p x d = Some d' \<and> mem_inv pages d' \<and> mem_page d' p = x \<and>
      (\<forall>q. (valid_page q \<and> unat q < pages) \<and> q \<noteq> p \<longrightarrow> mem_page d' q = mem_page d q)"
    if x: "length x = BUSTUB_PAGE_SIZE"
    using in_range inv byte_slice_put_same [of _ _ x] byte_slice_put_other [of _ _ _ x] page_offset_disjoint [of _ p] x
    by (simp add: MemWritePage_def off mem_page_def mem_inv_def length_put_bytes Let_def)
qed

section \<open>What the disk managers guarantee\<close>

text \<open>C17. Pages written through \<^verbatim>\<open>WritePage\<close> are read back: starting from a file below two
  gigabytes, after any sequence of page writes with ids below 524287 a read of such a page into a
  zeroed buffer gives the data of the last write to it, or what the file held before if there was
  none, and it changes nothing.\<close>

theorem ReadPage_last_write:
  assumes "dm_inv d" and "\<forall>w \<in> set ws. valid_page (fst w) \<and> length (snd w) = BUSTUB_PAGE_SIZE" and "valid_page q"
  shows "let d' = fold (\<lambda>w. WritePage (fst w) (snd w)) ws d in
    ReadPage q zero_page d' = (case map_of (rev ws) q of None \<Rightarrow> fst (ReadPage q zero_page d) | Some x \<Rightarrow> x, d')"
proof -
  have fold: "foldl (\<lambda>r w. Option.bind r (\<lambda>d. Some (WritePage (fst w) (snd w) d))) (Some d) ws =
      Some (fold (\<lambda>w. WritePage (fst w) (snd w)) ws d)" for d
    by (induction ws arbitrary: d) simp_all
  let ?d = "fold (\<lambda>w. WritePage (fst w) (snd w)) ws d"
  have "dm_inv ?d \<and> dm_page ?d q = (case map_of (rev ws) q of None \<Rightarrow> dm_page d q | Some x \<Rightarrow> x)"
    using dm.writes_page [OF assms(1,2)] assms(3) by (auto simp: fold)
  then show ?thesis using assms by (auto simp: ReadPage_law Let_def split: option.splits)
qed

theorem ReadPage_last_write_witness:
  "dm_inv (new_disk_manager [] []) \<and> valid_page 3 \<and>
   fst (ReadPage 3 zero_page (WritePage 5 zero_page (WritePage 3 (replicate 4096 7) (new_disk_manager [] [])))) = replicate 4096 7"
proof -
  have "dm_inv (new_disk_manager [] [])" by (simp add: dm_inv_def new_disk_manager_def)
  moreover have "valid_page 3" "valid_page 5" by (simp_all add: valid_page_def)
  ultimately show ?thesis
    using ReadPage_last_write [of "new_disk_manager [] []" "[(3, replicate 4096 7), (5, zero_page)]" 3]
    by (simp add: Let_def BUSTUB_PAGE_SIZE_def)
qed

text \<open>\<^verbatim>\<open>ReadPage\<close> computes its offset in 32 bits: two page ids that agree in their low twenty
  bits read the same bytes, whatever was written to them.\<close>

theorem ReadPage_aliases:
  assumes "unat p mod 2 ^ 20 = unat q mod 2 ^ 20"
  shows "ReadPage p x d = ReadPage q x d"
proof -
  have "unat r * BUSTUB_PAGE_SIZE mod 2 ^ 32 = (unat r mod 2 ^ 20) * BUSTUB_PAGE_SIZE" for r :: page_id
    using mult_mod_right [of "2 ^ 12" "unat r" "2 ^ 20"] by (simp add: BUSTUB_PAGE_SIZE_def mult.commute)
  then have "p * of_nat BUSTUB_PAGE_SIZE = q * of_nat BUSTUB_PAGE_SIZE"
    using assms by (simp add: word_unat_eq_iff unat_word_ariths unsigned_of_nat take_bit_nat_eq_self
        BUSTUB_PAGE_SIZE_def)
  then show ?thesis by (simp add: ReadPage_def)
qed

theorem ReadPage_aliases_witness:
  "unat (1048576 :: page_id) mod 2 ^ 20 = unat (0 :: page_id) mod 2 ^ 20 \<and>
   ReadPage 1048576 zero_page (new_disk_manager [1, 2] []) = ReadPage 0 zero_page (new_disk_manager [1, 2] [])"
  using ReadPage_aliases [of 1048576 0 zero_page "new_disk_manager [1, 2] []"] by simp

lemma sint_write_offset: "sint (scast (p :: page_id) * of_nat BUSTUB_PAGE_SIZE :: 64 word) = sint p * 4096"
proof -
  have "- (2 ^ 31) \<le> sint p" "sint p < 2 ^ 31"
    using sint_greater_eq [of p] sint_less [of p] by simp_all
  then have "- (2 ^ 63) \<le> sint p * 4096" "sint p * 4096 < 2 ^ 63" by simp_all
  then have "signed_take_bit 63 (sint p * 4096) = sint p * 4096" by (rule signed_take_bit_int_eq_self)
  moreover have "scast p * of_nat BUSTUB_PAGE_SIZE = (word_of_int (sint p * 4096) :: 64 word)"
    by (simp only: scast_eq BUSTUB_PAGE_SIZE_def of_int_mult of_nat_numeral of_int_numeral)
  ultimately show ?thesis by (simp only: sint_sbintrunc') simp
qed

text \<open>A write with a negative page id, such as the invalid one, stores nothing but leaves the
  stream failed: every further write is lost and the next read of an existing page delivers
  zeros, after which the stream works again.\<close>

theorem WritePage_negative_poisons:
  assumes inv: "dm_inv d" and neg: "sint p < 0" and q: "valid_page q" "page_offset q \<le> length (st_bytes (db_io d))"
  shows "let d' = WritePage p x d in
    db_io (WritePage r y d') = db_io d' \<and> st_bytes (db_io d') = st_bytes (db_io d) \<and>
    fst (ReadPage q buf d') = zero_page \<and>
    ReadPage q zero_page (snd (ReadPage q buf d')) = (dm_page d q, snd (ReadPage q buf d'))"
proof -
  let ?d = "WritePage p x d"
  have io: "db_io ?d = (db_io d)\<lparr>st_failed := True\<rparr>"
    using neg by (simp add: WritePage_def sint_write_offset seekp_def stream_write_def Let_def)
  have size: "GetFileSize (st_bytes (db_io d)) = int (length (st_bytes (db_io d)))"
    using inv by (simp add: dm_inv_def GetFileSize_exact)
  have "ReadPage q buf ?d = (zero_page, ?d\<lparr>db_io := (db_io d)\<lparr>st_failed := False\<rparr>\<rparr>)"
    using q(2) by (simp add: ReadPage_def read_offset [OF q(1)] io size seekp_def stream_read_def Let_def
        stream_clear_def zero_page_def)
  moreover have "dm_inv (?d\<lparr>db_io := (db_io d)\<lparr>st_failed := False\<rparr>\<rparr>)" using inv by (simp add: dm_inv_def)
  moreover have "db_io (WritePage r y ?d) = db_io ?d"
    by (simp add: WritePage_def [of r] io seekp_def stream_write_def Let_def)
  ultimately show ?thesis by (simp add: io ReadPage_law [OF _ q(1)] Let_def dm_page_def)
qed

theorem WritePage_negative_poisons_witness:
  "let d = new_disk_manager [1, 2] [] in
   dm_inv d \<and> sint INVALID_PAGE_ID < 0 \<and> fst (ReadPage 0 [] (WritePage INVALID_PAGE_ID zero_page d)) = zero_page"
proof -
  let ?d = "new_disk_manager [1, 2] []"
  have "dm_inv ?d" "sint INVALID_PAGE_ID < 0" "valid_page 0" "page_offset 0 \<le> length (st_bytes (db_io ?d))"
    by (simp_all add: dm_inv_def new_disk_manager_def INVALID_PAGE_ID_def valid_page_def page_offset_def)
  then show ?thesis using WritePage_negative_poisons [of ?d INVALID_PAGE_ID 0 zero_page 0 "[]" "[]"] by (simp add: Let_def)
qed

text \<open>C28. The log is written and read sequentially: a non-empty buffer, other than the one written
  last, is appended, and a read at any offset below the new size delivers the bytes from there on,
  filled up with zeros past the end.\<close>

theorem WriteLog_ReadLog:
  assumes "\<not> st_failed (log_io d)" and "addr \<noteq> buffer_used d" and "flush_log_f d \<noteq> Some False" and "x \<noteq> []"
    and "length (st_bytes (log_io d)) + length x < 2 ^ 31"
    and "unat off < length (st_bytes (log_io d)) + length x"
  shows "\<exists>d'. WriteLog addr x d = Inr d' \<and> st_bytes (log_io d') = st_bytes (log_io d) @ x \<and>
    num_flushes d' = num_flushes d + 1 \<and> db_io d' = db_io d \<and>
    ReadLog buf off d' = (True, byte_slice (st_bytes (log_io d) @ x) (unat off) (length buf), d')"
proof -
  let ?l = "st_bytes (log_io d) @ x"
  let ?d = "d\<lparr>buffer_used := addr, num_flushes := num_flushes d + 1, log_io := (log_io d)\<lparr>st_bytes := ?l\<rparr>, flush_log := False\<rparr>"
  have w: "WriteLog addr x d = Inr ?d"
    using assms by (simp add: WriteLog_def Let_def stream_write_def put_bytes_def)
  have size: "GetFileSize ?l = int (length ?l)" using assms(5) by (simp add: GetFileSize_exact)
  have off: "sint off = int (unat off)" using assms(5,6) by (intro sint_eq_unat) simp
  have st: "(log_io d)\<lparr>st_bytes := ?l, st_failed := False\<rparr> = (log_io d)\<lparr>st_bytes := ?l\<rparr>"
    using assms(1) by (cases "log_io d") simp
  have "sint off < GetFileSize ?l" unfolding off size of_nat_less_iff using assms(6) by simp
  then have "ReadLog buf off ?d = (True, byte_slice ?l (unat off) (length buf), ?d)"
    using assms(1) off st
    by (auto simp: ReadLog_def seekp_def stream_read_def Let_def stream_clear_def byte_slice_padded not_le)
  then show ?thesis using w by auto
qed

theorem WriteLog_ReadLog_witness:
  "\<exists>d'. WriteLog 8 [1, 2] (new_disk_manager [] [9]) = Inr d' \<and> ReadLog [0, 0, 0] 1 d' = (True, [1, 2, 0], d')"
proof -
  let ?d = "new_disk_manager [] [9]"
  have "\<exists>d'. WriteLog 8 [1, 2] ?d = Inr d' \<and> st_bytes (log_io d') = st_bytes (log_io ?d) @ [1, 2] \<and>
      num_flushes d' = num_flushes ?d + 1 \<and> db_io d' = db_io ?d \<and>
      ReadLog [0, 0, 0] 1 d' = (True, byte_slice (st_bytes (log_io ?d) @ [1, 2]) (unat (1 :: 32 word)) (length [0, 0, 0 :: byte]), d')"
    by (rule WriteLog_ReadLog) (simp_all add: new_disk_manager_def)
  then show ?thesis by (auto simp: new_disk_manager_def byte_slice_padded)
qed

end
