(* ===== verification/Buffer_Pool.thy ===== *)
theory Buffer_Pool
  imports Extendible_Hash Lru_K_Policy Disk_Manager
begin

text \<open>
  The buffer pool manager of \<^verbatim>\<open>src/src/buffer/buffer_pool_manager_instance.cpp\<close> with the page
  frames of \<^verbatim>\<open>src/src/include/storage/page/page.h\<close>. The state holds the page table, the replacer
  and the disk manager of the other theories, and every call of the code is a call of their
  models; a component that throws, blocks or does not return shows as an error value. Each public
  function but \<^verbatim>\<open>FlushAllPgsImp\<close> holds the latch from its first to its last statement, so its model is one
  atomic step. \<^verbatim>\<open>FlushAllPgsImp\<close> takes the latch anew for each page; its model is the sequence of these flushes with no
  other call in between. Pin counts are mathematical integers: the overflow of \<^verbatim>\<open>int pin_count_\<close>, after
  \<open>2\<^sup>3\<^sup>1 - 1\<close> pins of one page, is left out.
\<close>

section \<open>Pages and the pool\<close>

record page =
  pg_data :: "byte list"
  pg_id :: page_id
  pin_count :: int
  is_dirty :: bool

definition new_page :: page where
  "new_page = \<lparr>pg_data = zero_page, pg_id = INVALID_PAGE_ID, pin_count = 0, is_dirty = False\<rparr>"

definition ResetMemory :: "page \<Rightarrow> page" where
  "ResetMemory pg = pg\<lparr>pg_data := zero_page\<rparr>"

record bpm =
  bp_next_page_id :: page_id
  bp_pages :: "page list"
  bp_disk :: disk_manager
  bp_table :: "(page_id, frame_id) eht"
  bp_replacer :: lruk
  bp_free_list :: "frame_id list"

datatype bpm_error = Table_Error eht_error | Table_Diverges | Replacer_Error lruk_error
  | Replacer_Diverges | Bad_Frame

definition new_bpm :: "nat \<Rightarrow> disk_manager \<Rightarrow> nat \<Rightarrow> bpm" where
  "new_bpm pool_size disk_manager replacer_k =
     \<lparr>bp_next_page_id = 0, bp_pages = replicate pool_size new_page, bp_disk = disk_manager,
      bp_table = new_eht 4, bp_replacer = new_lruk pool_size replacer_k,
      bp_free_list = map frame_cast [0..<pool_size]\<rparr>"

text \<open>Calls of the components.\<close>

definition table_insert :: "page_id \<Rightarrow> frame_id \<Rightarrow> bpm \<Rightarrow> bpm_error + bpm" where
  "table_insert p f s = (case Insert hash_page_id p f (bp_table s) of
       None \<Rightarrow> Inl Table_Diverges
     | Some (Inl e) \<Rightarrow> Inl (Table_Error e)
     | Some (Inr t) \<Rightarrow> Inr (s\<lparr>bp_table := t\<rparr>))"

definition table_remove :: "page_id \<Rightarrow> bpm \<Rightarrow> bpm" where
  "table_remove p s = s\<lparr>bp_table := snd (Remove hash_page_id (bp_table s) p)\<rparr>"

definition table_find :: "page_id \<Rightarrow> bpm \<Rightarrow> frame_id option" where
  "table_find p s = Find hash_page_id (bp_table s) p"

definition evict_frame :: "bpm \<Rightarrow> bpm_error + frame_id option \<times> bpm" where
  "evict_frame s = (case LRUK_Evict (bp_replacer s) of
       None \<Rightarrow> Inl Replacer_Diverges
     | Some (Inl e) \<Rightarrow> Inl (Replacer_Error e)
     | Some (Inr (r, rp)) \<Rightarrow> Inr (r, s\<lparr>bp_replacer := rp\<rparr>))"

definition record_frame :: "frame_id \<Rightarrow> bpm \<Rightarrow> bpm_error + bpm" where
  "record_frame f s = (case LRUK_RecordAccess f (bp_replacer s) of
       Inl e \<Rightarrow> Inl (Replacer_Error e)
     | Inr rp \<Rightarrow> Inr (s\<lparr>bp_replacer := rp\<rparr>))"

definition remove_frame :: "frame_id \<Rightarrow> bpm \<Rightarrow> bpm_error + bpm" where
  "remove_frame f s = (case LRUK_Remove f (bp_replacer s) of
       Inl e \<Rightarrow> Inl (Replacer_Error e)
     | Inr rp \<Rightarrow> Inr (s\<lparr>bp_replacer := rp\<rparr>))"

definition set_evictable :: "frame_id \<Rightarrow> bool \<Rightarrow> bpm \<Rightarrow> bpm" where
  "set_evictable f b s = s\<lparr>bp_replacer := LRUK_SetEvictable f b (bp_replacer s)\<rparr>"

text \<open>The frame \<^verbatim>\<open>pages_[frame_id]\<close>; an index outside the array has no defined meaning.\<close>

definition get_frame :: "frame_id \<Rightarrow> bpm \<Rightarrow> bpm_error + page" where
  "get_frame f s = (if 0 \<le> f \<and> f < int (length (bp_pages s)) then Inr (bp_pages s ! nat f) else Inl Bad_Frame)"

definition modify_frame :: "frame_id \<Rightarrow> (page \<Rightarrow> page) \<Rightarrow> bpm \<Rightarrow> bpm" where
  "modify_frame f g s = s\<lparr>bp_pages := (bp_pages s)[nat f := g (bp_pages s ! nat f)]\<rparr>"

section \<open>The operations\<close>

definition AllocatePage :: "bpm \<Rightarrow> page_id \<times> bpm" where
  "AllocatePage s = (bp_next_page_id s, s\<lparr>bp_next_page_id := bp_next_page_id s + 1\<rparr>)"

text \<open>A frame from the free list, or else from the replacer.\<close>

definition take_frame :: "bpm \<Rightarrow> bpm_error + frame_id option \<times> bpm" where
  "take_frame s = (case bp_free_list s of
       f # fs \<Rightarrow> Inr (Some f, s\<lparr>bp_free_list := fs\<rparr>)
     | [] \<Rightarrow> evict_frame s)"

text \<open>Write back the old page of the frame, unmap it and clear the memory.\<close>

definition clean_frame :: "frame_id \<Rightarrow> bpm \<Rightarrow> bpm_error + bpm" where
  "clean_frame f s = ebind (get_frame f s) (\<lambda>pg.
     let s1 = (if is_dirty pg
               then modify_frame f (\<lambda>pg. pg\<lparr>is_dirty := False\<rparr>)
                      (s\<lparr>bp_disk := WritePage (pg_id pg) (pg_data pg) (bp_disk s)\<rparr>)
               else s)
     in Inr (modify_frame f ResetMemory (table_remove (pg_id pg) s1)))"

text \<open>Map the page to the frame and pin it.\<close>

definition install_page :: "frame_id \<Rightarrow> page_id \<Rightarrow> bpm \<Rightarrow> bpm_error + bpm" where
  "install_page f p s =
     ebind (table_insert p f s) (\<lambda>s1.
     ebind (record_frame f (modify_frame f (\<lambda>pg. pg\<lparr>pg_id := p, pin_count := 1\<rparr>) s1)) (\<lambda>s2.
     Inr (set_evictable f False s2)))"

definition NewPgImp :: "bpm \<Rightarrow> bpm_error + (page_id \<times> frame_id) option \<times> bpm" where
  "NewPgImp s = ebind (take_frame s) (\<lambda>(r, s1). case r of
       None \<Rightarrow> Inr (None, s1)
     | Some f \<Rightarrow>
         let (p, s2) = AllocatePage s1
         in ebind (clean_frame f s2) (\<lambda>s3.
            ebind (install_page f p s3) (\<lambda>s4. Inr (Some (p, f), s4))))"

definition FetchPgImp :: "page_id \<Rightarrow> bpm \<Rightarrow> bpm_error + frame_id option \<times> bpm" where
  "FetchPgImp p s = (case table_find p s of
       None \<Rightarrow> ebind (take_frame s) (\<lambda>(r, s1). case r of
           None \<Rightarrow> Inr (None, s1)
         | Some f \<Rightarrow>
             ebind (clean_frame f s1) (\<lambda>s2.
             ebind (get_frame f s2) (\<lambda>pg.
             let (x, d) = ReadPage p (pg_data pg) (bp_disk s2)
             in ebind (install_page f p (modify_frame f (\<lambda>pg. pg\<lparr>pg_data := x\<rparr>) (s2\<lparr>bp_disk := d\<rparr>)))
                  (\<lambda>s3. Inr (Some f, s3)))))
     | Some f \<Rightarrow>
         ebind (get_frame f s) (\<lambda>_.
         ebind (record_frame f s) (\<lambda>s1.
         Inr (Some f, modify_frame f (\<lambda>pg. pg\<lparr>pin_count := pin_count pg + 1\<rparr>) (set_evictable f False s1)))))"

definition UnpinPgImp :: "page_id \<Rightarrow> bool \<Rightarrow> bpm \<Rightarrow> bpm_error + bool \<times> bpm" where
  "UnpinPgImp p dirty s =
     (if p = INVALID_PAGE_ID then Inr (False, s)
      else case table_find p s of
        None \<Rightarrow> Inr (False, s)
      | Some f \<Rightarrow> ebind (get_frame f s) (\<lambda>pg.
          if pin_count pg = 0 then Inr (False, s)
          else
            let s1 = modify_frame f (\<lambda>pg. pg\<lparr>pin_count := pin_count pg - 1\<rparr>) s;
                s2 = (if pin_count pg - 1 = 0 then set_evictable f True s1 else s1)
            in Inr (True, modify_frame f (\<lambda>pg. pg\<lparr>is_dirty := is_dirty pg \<or> dirty\<rparr>) s2)))"

definition FlushPgImp :: "page_id \<Rightarrow> bpm \<Rightarrow> bpm_error + bool \<times> bpm" where
  "FlushPgImp p s =
     (if p = INVALID_PAGE_ID then Inr (False, s)
      else case table_find p s of
        None \<Rightarrow> Inr (False, s)
      | Some f \<Rightarrow> ebind (get_frame f s) (\<lambda>pg.
          Inr (True, modify_frame f (\<lambda>pg. pg\<lparr>is_dirty := False\<rparr>)
                       (s\<lparr>bp_disk := WritePage p (pg_data pg) (bp_disk s)\<rparr>))))"

fun flush_frames :: "nat list \<Rightarrow> bpm \<Rightarrow> bpm_error + bpm" where
  "flush_frames [] s = Inr s"
| "flush_frames (i # is) s = ebind (get_frame (int i) s) (\<lambda>pg.
     ebind (FlushPgImp (pg_id pg) s) (\<lambda>(_, s1). flush_frames is s1))"

definition FlushAllPgsImp :: "bpm \<Rightarrow> bpm_error + bpm" where
  "FlushAllPgsImp s = flush_frames [0..<length (bp_pages s)] s"

definition DeletePgImp :: "page_id \<Rightarrow> bpm \<Rightarrow> bpm_error + bool \<times> bpm" where
  "DeletePgImp p s =
     (if p = INVALID_PAGE_ID then Inr (True, s)
      else case table_find p s of
        None \<Rightarrow> Inr (True, s)
      | Some f \<Rightarrow> ebind (get_frame f s) (\<lambda>pg.
          if pin_count pg > 0 then Inr (False, s)
          else ebind (remove_frame f (modify_frame f ResetMemory s)) (\<lambda>s1.
               Inr (True, (table_remove p s1)\<lparr>bp_free_list := bp_free_list s1 @ [f]\<rparr>))))"

end
