(* ===== verification/Buffer_Pool_Cache.thy ===== *)
theory Buffer_Pool_Cache
  imports Buffer_Pool
begin

text \<open>
  The buffer pool is a transparent cache: whatever is fetched, evicted, written back and
  reloaded, the contents of the pages in use change only by what a client stores into a pinned
  frame. The theory has the invariant that relates frames, page table, free list, replacer and
  disk, the proof that every operation of \<open>Buffer_Pool\<close> returns without an error and keeps it, and
  the simulation of an abstract cache over all sequences of calls.
\<close>

section \<open>The invariant of the pool\<close>

definition fr :: "bpm \<Rightarrow> frame_id \<Rightarrow> page" where
  "fr s f = bp_pages s ! nat f"

definition frames :: "bpm \<Rightarrow> frame_id set" where
  "frames s = {0..<int (length (bp_pages s))}"

definition content :: "bpm \<Rightarrow> page_id \<Rightarrow> byte list" where
  "content s p = (case table_find p s of None \<Rightarrow> dm_page (bp_disk s) p | Some f \<Rightarrow> pg_data (fr s f))"

definition pins :: "bpm \<Rightarrow> page_id \<Rightarrow> int" where
  "pins s p = (case table_find p s of None \<Rightarrow> 0 | Some f \<Rightarrow> pin_count (fr s f))"

text \<open>\<open>L\<close> holds the pages in use (allocated and not deleted), \<open>T\<close> those that a client has stored
  into and not yet reported as dirty. A frame either holds a page in use or is free, and a free
  frame may still carry the id of a deleted page.\<close>

definition resident :: "bpm \<Rightarrow> page_id set \<Rightarrow> page_id set \<Rightarrow> frame_id \<Rightarrow> bool" where
  "resident s L T f \<longleftrightarrow> pg_id (fr s f) \<in> L \<and> table_find (pg_id (fr s f)) s = Some f \<and> 0 \<le> pin_count (fr s f) \<and>
     (\<not> is_dirty (fr s f) \<and> pg_id (fr s f) \<notin> T \<longrightarrow> pg_data (fr s f) = dm_page (bp_disk s) (pg_id (fr s f)))"

definition stale :: "bpm \<Rightarrow> page_id set \<Rightarrow> frame_id \<Rightarrow> bool" where
  "stale s L f \<longleftrightarrow> pg_id (fr s f) \<notin> L \<and>
     (pg_id (fr s f) = INVALID_PAGE_ID \<and> \<not> is_dirty (fr s f) \<or> unat (pg_id (fr s f)) < unat (bp_next_page_id s))"

definition slot_ok :: "bpm \<Rightarrow> page_id set \<Rightarrow> page_id set \<Rightarrow> frame_id \<Rightarrow> bool" where
  "slot_ok s L T f \<longleftrightarrow>
     (if f \<in> set (bp_free_list s) then stale s L f \<and> lruk_view (bp_replacer s) f = None
      else resident s L T f \<and> lruk_view (bp_replacer s) f = Some (pin_count (fr s f) = 0) \<and>
        (pin_count (fr s f) = 0 \<longrightarrow> pg_id (fr s f) \<notin> T))"

definition pool_core :: "bpm \<Rightarrow> page_id set \<Rightarrow> bool" where
  "pool_core s L \<longleftrightarrow> page_table_inv (bp_table s) \<and> lruk_ok (length (bp_pages s)) (bp_replacer s) \<and>
     dm_inv (bp_disk s) \<and> distinct (bp_free_list s) \<and> set (bp_free_list s) \<subseteq> frames s \<and>
     (\<forall>f \<in> frames s. length (pg_data (fr s f)) = BUSTUB_PAGE_SIZE) \<and>
     (\<forall>p f. table_find p s = Some f \<longrightarrow> f \<in> frames s \<and> pg_id (fr s f) = p \<and> p \<in> L) \<and>
     (\<forall>p \<in> L. unat p < unat (bp_next_page_id s)) \<and> unat (bp_next_page_id s) \<le> 524287 \<and>
     (\<forall>p. valid_page p \<and> unat (bp_next_page_id s) \<le> unat p \<longrightarrow> dm_page (bp_disk s) p = zero_page)"

definition pool_inv :: "bpm \<Rightarrow> page_id set \<Rightarrow> page_id set \<Rightarrow> bool" where
  "pool_inv s L T \<longleftrightarrow> pool_core s L \<and> (\<forall>f \<in> frames s. slot_ok s L T f)"

text \<open>A frame \<open>g\<close> in transit: taken from the free list or the replacer, then unmapped.\<close>

definition taken :: "bpm \<Rightarrow> frame_id \<Rightarrow> page_id set \<Rightarrow> page_id set \<Rightarrow> bool" where
  "taken s g L T \<longleftrightarrow> pool_core s L \<and> (\<forall>f \<in> frames s - {g}. slot_ok s L T f) \<and>
     g \<in> frames s \<and> g \<notin> set (bp_free_list s) \<and> lruk_view (bp_replacer s) g = None \<and>
     (stale s L g \<or> resident s L T g \<and> pg_id (fr s g) \<notin> T \<and> pin_count (fr s g) = 0)"

definition cleaned :: "bpm \<Rightarrow> frame_id \<Rightarrow> page_id set \<Rightarrow> page_id set \<Rightarrow> bool" where
  "cleaned s g L T \<longleftrightarrow> pool_core s L \<and> (\<forall>f \<in> frames s - {g}. slot_ok s L T f) \<and>
     g \<in> frames s \<and> g \<notin> set (bp_free_list s) \<and> lruk_view (bp_replacer s) g = None \<and>
     (\<forall>p. table_find p s \<noteq> Some g) \<and> \<not> is_dirty (fr s g)"

section \<open>Field lemmas\<close>

lemma fr_modify [simp]: "f \<in> frames s \<Longrightarrow> g \<in> frames s \<Longrightarrow> fr (modify_frame f h s) g = (if g = f then h (fr s f) else fr s g)"
  by (auto simp: fr_def frames_def modify_frame_def nth_list_update nat_eq_iff)

lemma modify_frame_fields [simp]:
  "bp_next_page_id (modify_frame f h s) = bp_next_page_id s" "bp_disk (modify_frame f h s) = bp_disk s"
  "bp_table (modify_frame f h s) = bp_table s" "bp_replacer (modify_frame f h s) = bp_replacer s"
  "bp_free_list (modify_frame f h s) = bp_free_list s" "length (bp_pages (modify_frame f h s)) = length (bp_pages s)"
  "frames (modify_frame f h s) = frames s"
  by (simp_all add: modify_frame_def frames_def)

lemma frames_update [simp]:
  "frames (s\<lparr>bp_next_page_id := a\<rparr>) = frames s" "frames (s\<lparr>bp_disk := d\<rparr>) = frames s"
  "frames (s\<lparr>bp_table := t\<rparr>) = frames s" "frames (s\<lparr>bp_replacer := r\<rparr>) = frames s"
  "frames (s\<lparr>bp_free_list := l\<rparr>) = frames s"
  by (simp_all add: frames_def)

lemma fr_update [simp]:
  "fr (s\<lparr>bp_next_page_id := a\<rparr>) = fr s" "fr (s\<lparr>bp_disk := d\<rparr>) = fr s"
  "fr (s\<lparr>bp_table := t\<rparr>) = fr s" "fr (s\<lparr>bp_replacer := r\<rparr>) = fr s" "fr (s\<lparr>bp_free_list := l\<rparr>) = fr s"
  by (simp_all add: fr_def fun_eq_iff)

lemma table_find_update [simp]:
  "table_find p (s\<lparr>bp_next_page_id := a\<rparr>) = table_find p s" "table_find p (s\<lparr>bp_disk := d\<rparr>) = table_find p s"
  "table_find p (s\<lparr>bp_replacer := r\<rparr>) = table_find p s" "table_find p (s\<lparr>bp_free_list := l\<rparr>) = table_find p s"
  "table_find p (modify_frame f h s) = table_find p s"
  by (simp_all add: table_find_def)

lemma get_frame_in [simp]: "f \<in> frames s \<Longrightarrow> get_frame f s = Inr (fr s f)"
  by (simp add: get_frame_def frames_def fr_def)

lemma table_find_remove:
  "page_table_inv (bp_table s) \<Longrightarrow> table_find p (table_remove q s) = (if p = q then None else table_find p s)"
  by (simp add: table_find_def table_remove_def pt.remove_find)

lemma table_remove_fields [simp]:
  "bp_next_page_id (table_remove q s) = bp_next_page_id s" "bp_disk (table_remove q s) = bp_disk s"
  "bp_pages (table_remove q s) = bp_pages s" "bp_replacer (table_remove q s) = bp_replacer s"
  "bp_free_list (table_remove q s) = bp_free_list s" "frames (table_remove q s) = frames s" "fr (table_remove q s) = fr s"
  by (simp_all add: table_remove_def)

lemma table_remove_inv: "page_table_inv (bp_table s) \<Longrightarrow> page_table_inv (bp_table (table_remove q s))"
  by (simp add: table_remove_def pt.remove_inv)

lemma valid_next: "unat p < unat (bp_next_page_id s) \<Longrightarrow> unat (bp_next_page_id s) \<le> 524287 \<Longrightarrow> valid_page p"
  by (simp add: valid_page_def)

lemma slot_ok_change:
  assumes "slot_ok s L T f" and "fr s' f = fr s f" and "f \<in> set (bp_free_list s') \<longleftrightarrow> f \<in> set (bp_free_list s)"
    and "lruk_view (bp_replacer s') f = lruk_view (bp_replacer s) f"
    and "unat (bp_next_page_id s) \<le> unat (bp_next_page_id s')" and "pg_id (fr s f) \<in> L' \<longleftrightarrow> pg_id (fr s f) \<in> L"
    and "f \<notin> set (bp_free_list s) \<Longrightarrow> table_find (pg_id (fr s f)) s' = table_find (pg_id (fr s f)) s \<and>
          dm_page (bp_disk s') (pg_id (fr s f)) = dm_page (bp_disk s) (pg_id (fr s f)) \<and>
          (pg_id (fr s f) \<in> T' \<longleftrightarrow> pg_id (fr s f) \<in> T)"
  shows "slot_ok s' L' T' f"
  using assms by (auto simp: slot_ok_def stale_def resident_def)

lemmas slot_ok_cong = slot_ok_change [where L' = L and L = L and T' = T and T = T for L T, simplified]

lemma pool_coreD:
  assumes "pool_core s L"
  shows core_table: "page_table_inv (bp_table s)" and core_lruk: "lruk_ok (length (bp_pages s)) (bp_replacer s)"
    and core_disk: "dm_inv (bp_disk s)" and core_free: "distinct (bp_free_list s)" "set (bp_free_list s) \<subseteq> frames s"
    and core_length: "f \<in> frames s \<Longrightarrow> length (pg_data (fr s f)) = BUSTUB_PAGE_SIZE"
    and core_find: "table_find p s = Some f \<Longrightarrow> f \<in> frames s \<and> pg_id (fr s f) = p \<and> p \<in> L"
    and core_live: "p \<in> L \<Longrightarrow> unat p < unat (bp_next_page_id s)" and core_next: "unat (bp_next_page_id s) \<le> 524287"
    and core_fresh: "valid_page p \<Longrightarrow> unat (bp_next_page_id s) \<le> unat p \<Longrightarrow> dm_page (bp_disk s) p = zero_page"
  using assms unfolding pool_core_def by blast+

lemma core_valid: "pool_core s L \<Longrightarrow> p \<in> L \<Longrightarrow> valid_page p"
  using core_live core_next valid_next by blast

lemma pool_invD:
  assumes "pool_inv s L T"
  shows inv_core: "pool_core s L" and inv_slot: "f \<in> frames s \<Longrightarrow> slot_ok s L T f"
  using assms unfolding pool_inv_def by blast+

lemma frames_iff: "f \<in> frames s \<longleftrightarrow> 0 \<le> f \<and> f < int (length (bp_pages s))"
  by (simp add: frames_def)

lemma lruk_view_bound: "lruk_ok n r \<Longrightarrow> lruk_view r f \<noteq> None \<Longrightarrow> 0 \<le> f \<and> f < int n"
  by (elim lruk_okE) (auto simp: rel_view split: if_splits)

section \<open>Taking a frame\<close>

lemma take_free:
  assumes inv: "pool_inv s L T" and fl: "bp_free_list s = g # fs"
  shows "taken (s\<lparr>bp_free_list := fs\<rparr>) g L T"
proof -
  let ?s = "s\<lparr>bp_free_list := fs\<rparr>"
  note core = inv_core [OF inv]
  have g: "g \<in> frames s" "g \<notin> set fs" using core_free [OF core] fl by auto
  have "pool_core ?s L" using core fl by (auto simp: pool_core_def)
  moreover have "slot_ok ?s L T f" if "f \<in> frames s - {g}" for f
    using inv_slot [OF inv, of f] that fl by (auto intro: slot_ok_cong)
  moreover have "stale ?s L g" "lruk_view (bp_replacer ?s) g = None"
    using inv_slot [OF inv g(1)] fl by (auto simp: slot_ok_def stale_def)
  ultimately show ?thesis using g by (simp add: taken_def)
qed

lemma take_victim:
  assumes inv: "pool_inv s L T" and fl: "bp_free_list s = []"
    and r: "lruk_ok (length (bp_pages s)) r" "lruk_view (bp_replacer s) g = Some True"
      "lruk_view r = (lruk_view (bp_replacer s))(g := None)"
  shows "taken (s\<lparr>bp_replacer := r\<rparr>) g L T"
proof -
  let ?s = "s\<lparr>bp_replacer := r\<rparr>"
  note core = inv_core [OF inv]
  have g: "g \<in> frames s" using lruk_view_bound [OF core_lruk [OF core], of g] r(2) by (simp add: frames_iff)
  have "pool_core ?s L" using core r(1) by (auto simp: pool_core_def)
  moreover have "slot_ok ?s L T f" if "f \<in> frames s - {g}" for f
    using inv_slot [OF inv, of f] that by (auto intro: slot_ok_cong simp: r(3))
  moreover have "resident ?s L T g" "pg_id (fr s g) \<notin> T" "pin_count (fr s g) = 0"
    using inv_slot [OF inv g] fl r(2) by (auto simp: slot_ok_def resident_def)
  ultimately show ?thesis using g fl by (simp add: taken_def r(3))
qed

lemma take_frame_cases:
  assumes inv: "pool_inv s L T"
  obtains (full) "take_frame s = Inr (None, s)" and "bp_free_list s = []" and "\<And>f. f \<in> frames s \<Longrightarrow> 0 < pin_count (fr s f)"
  | (frame) g s1 where "take_frame s = Inr (Some g, s1)" and "taken s1 g L T" and "fr s1 = fr s" and "frames s1 = frames s"
      and "\<And>p. table_find p s1 = table_find p s" and "bp_disk s1 = bp_disk s"
      and "bp_next_page_id s1 = bp_next_page_id s"
proof (cases "bp_free_list s")
  case (Cons g fs)
  then show ?thesis
    using frame [of g "s\<lparr>bp_free_list := fs\<rparr>"] take_free [OF inv Cons] by (simp add: take_frame_def)
next
  case Nil
  note core = inv_core [OF inv]
  show ?thesis
  proof (cases rule: rp.evict_result [OF core_lruk [OF core]])
    case 1
    have "0 < pin_count (fr s f)" if "f \<in> frames s" for f
      using inv_slot [OF inv that] 1(2) [of f] Nil by (auto simp: slot_ok_def resident_def)
    then show ?thesis using full Nil 1(1) by (simp add: take_frame_def evict_frame_def)
  next
    case (2 g r)
    show ?thesis
      using frame [of g "s\<lparr>bp_replacer := r\<rparr>"] take_victim [OF inv Nil 2(2-4)] 2(1) Nil
      by (simp add: take_frame_def evict_frame_def)
  qed
qed

section \<open>Reusing a frame\<close>

lemma allocate_taken:
  assumes t: "taken s g L T" and room: "unat (bp_next_page_id s) < 524287"
  shows "taken (snd (AllocatePage s)) g (insert (bp_next_page_id s) L) T"
    and "table_find (bp_next_page_id s) s = None" and "dm_page (bp_disk s) (bp_next_page_id s) = zero_page"
    and "bp_next_page_id s \<notin> L"
proof -
  let ?p = "bp_next_page_id s" and ?s = "snd (AllocatePage s)"
  have core: "pool_core s L" using t by (simp add: taken_def)
  have next': "unat (?p + 1) = unat ?p + 1" using room by (intro unat_add_lem [THEN iffD1, THEN trans]) simp_all
  show fresh: "?p \<notin> L" using core_live [OF core, of ?p] by auto
  then show "table_find ?p s = None" using core_find [OF core, of ?p] by (cases "table_find ?p s") auto
  have "valid_page ?p" using room by (simp add: valid_page_def)
  then show "dm_page (bp_disk s) ?p = zero_page" using core_fresh [OF core] by simp
  have inv: "?p \<noteq> INVALID_PAGE_ID" using room unat_INVALID by auto
  have st: "stale ?s (insert ?p L) f" if "stale s L f" for f
    using that inv next' by (auto simp: stale_def AllocatePage_def)
  have res: "resident ?s (insert ?p L) T f" if "resident s L T f" for f
    using that by (auto simp: resident_def AllocatePage_def)
  have "pool_core ?s (insert ?p L)"
    using core room next' unfolding pool_core_def by (fastforce simp: AllocatePage_def)
  moreover have "slot_ok ?s (insert ?p L) T f" if "slot_ok s L T f" for f
    using that st [of f] res [of f] by (auto simp: slot_ok_def AllocatePage_def split: if_splits)
  ultimately show "taken ?s g (insert ?p L) T"
    using t st [of g] res [of g] unfolding taken_def by (auto simp: AllocatePage_def)
qed

text \<open>The difference that cleaning frame \<open>g\<close> makes.\<close>

definition clean_effect :: "bpm \<Rightarrow> frame_id \<Rightarrow> bpm \<Rightarrow> bool" where
  "clean_effect s g s' \<longleftrightarrow>
     bp_disk s' = (if is_dirty (fr s g) then WritePage (pg_id (fr s g)) (pg_data (fr s g)) (bp_disk s) else bp_disk s) \<and>
     (\<forall>p. table_find p s' = (if p = pg_id (fr s g) then None else table_find p s)) \<and> page_table_inv (bp_table s') \<and>
     fr s' g = (fr s g)\<lparr>is_dirty := False, pg_data := zero_page\<rparr> \<and>
     (\<forall>f \<in> frames s. f \<noteq> g \<longrightarrow> fr s' f = fr s f) \<and>
     bp_replacer s' = bp_replacer s \<and> bp_free_list s' = bp_free_list s \<and> bp_next_page_id s' = bp_next_page_id s \<and>
     frames s' = frames s \<and> length (bp_pages s') = length (bp_pages s)"

lemma clean_effectD:
  assumes "clean_effect s g s'"
  shows ce_disk: "bp_disk s' = (if is_dirty (fr s g) then WritePage (pg_id (fr s g)) (pg_data (fr s g)) (bp_disk s) else bp_disk s)"
    and ce_find: "table_find p s' = (if p = pg_id (fr s g) then None else table_find p s)"
    and ce_table: "page_table_inv (bp_table s')" and ce_g: "fr s' g = (fr s g)\<lparr>is_dirty := False, pg_data := zero_page\<rparr>"
    and ce_fr: "f \<in> frames s \<Longrightarrow> f \<noteq> g \<Longrightarrow> fr s' f = fr s f"
    and ce_same: "bp_replacer s' = bp_replacer s" "bp_free_list s' = bp_free_list s" "bp_next_page_id s' = bp_next_page_id s"
      "frames s' = frames s" "length (bp_pages s') = length (bp_pages s)"
  using assms unfolding clean_effect_def by blast+

lemma clean_frame_effect:
  assumes tab: "page_table_inv (bp_table s)" and g: "g \<in> frames s"
  shows "\<exists>s'. clean_frame g s = Inr s' \<and> clean_effect s g s'"
proof -
  let ?pg = "fr s g"
  define s1 where "s1 = (if is_dirty ?pg then modify_frame g (\<lambda>pg. pg\<lparr>is_dirty := False\<rparr>)
      (s\<lparr>bp_disk := WritePage (pg_id ?pg) (pg_data ?pg) (bp_disk s)\<rparr>) else s)"
  define s' where "s' = modify_frame g ResetMemory (table_remove (pg_id ?pg) s1)"
  have s1: "bp_table s1 = bp_table s" "bp_replacer s1 = bp_replacer s" "bp_free_list s1 = bp_free_list s"
    "bp_next_page_id s1 = bp_next_page_id s" "frames s1 = frames s" "length (bp_pages s1) = length (bp_pages s)"
    "bp_disk s1 = (if is_dirty ?pg then WritePage (pg_id ?pg) (pg_data ?pg) (bp_disk s) else bp_disk s)"
    by (simp_all add: s1_def)
  have "fr s1 g = ?pg\<lparr>is_dirty := False\<rparr>" using g by (cases ?pg) (simp add: s1_def)
  then have frg: "fr s' g = ?pg\<lparr>is_dirty := False, pg_data := zero_page\<rparr>"
    using g by (simp add: s'_def s1 ResetMemory_def)
  have fro: "fr s1 f = fr s f" if "f \<in> frames s" "f \<noteq> g" for f using that g by (simp add: s1_def)
  have find: "table_find p s' = (if p = pg_id ?pg then None else table_find p s)" for p
    using tab by (simp add: s'_def table_find_remove s1) (simp add: table_find_def s1)
  have "clean_frame g s = Inr s'"
    using g by (simp add: clean_frame_def s'_def s1_def Let_def)
  moreover have "clean_effect s g s'"
    using g tab s1 find frg fro by (simp add: clean_effect_def) (simp add: s'_def s1 table_remove_inv)
  ultimately show ?thesis by blast
qed

text \<open>Cleaning writes a page to its own place on the disk and unmaps it.\<close>

lemma takenD:
  assumes "taken s g L T"
  shows taken_core: "pool_core s L" and taken_g: "g \<in> frames s" "g \<notin> set (bp_free_list s)" "lruk_view (bp_replacer s) g = None"
    and taken_slot: "f \<in> frames s \<Longrightarrow> f \<noteq> g \<Longrightarrow> slot_ok s L T f"
    and taken_cases: "stale s L g \<or> resident s L T g \<and> pg_id (fr s g) \<notin> T \<and> pin_count (fr s g) = 0"
  using assms unfolding taken_def by blast+

lemma taken_mapped:
  assumes "taken s g L T" and "table_find (pg_id (fr s g)) s = Some f"
  shows "f = g"
  using core_find [OF taken_core [OF assms(1)] assms(2)] taken_cases [OF assms(1)] assms(2)
  by (auto simp: stale_def resident_def)

lemma taken_other_id:
  assumes "taken s g L T" and "f \<in> frames s" "f \<noteq> g" "f \<notin> set (bp_free_list s)"
  shows "pg_id (fr s f) \<noteq> pg_id (fr s g)"
  using taken_slot [OF assms(1-3)] assms(3,4) taken_mapped [OF assms(1), of f]
  by (auto simp: slot_ok_def resident_def)

lemma clean_disk:
  assumes t: "taken s g L T" and e: "clean_effect s g s'"
  shows "dm_inv (bp_disk s')" and "p \<noteq> pg_id (fr s g) \<Longrightarrow> dm_page (bp_disk s') p = dm_page (bp_disk s) p"
    and "is_dirty (fr s g) \<Longrightarrow> dm_page (bp_disk s') (pg_id (fr s g)) = pg_data (fr s g)"
    and "valid_page p \<Longrightarrow> unat (bp_next_page_id s) \<le> unat p \<Longrightarrow> dm_page (bp_disk s') p = zero_page"
proof -
  let ?q = "pg_id (fr s g)"
  note core = taken_core [OF t]
  have qv: "valid_page ?q \<and> unat ?q < unat (bp_next_page_id s)" if "is_dirty (fr s g)"
    using taken_cases [OF t] that core_live [OF core, of ?q] core_next [OF core]
    by (auto simp: stale_def resident_def valid_page_def)
  show "dm_inv (bp_disk s')" and other: "p \<noteq> ?q \<Longrightarrow> dm_page (bp_disk s') p = dm_page (bp_disk s) p"
    and "is_dirty (fr s g) \<Longrightarrow> dm_page (bp_disk s') ?q = pg_data (fr s g)"
    using core_disk [OF core] qv core_length [OF core taken_g(1) [OF t]]
    by (auto simp: ce_disk [OF e] WritePage_law)
  show "dm_page (bp_disk s') p = zero_page" if "valid_page p" "unat (bp_next_page_id s) \<le> unat p"
    using core_fresh [OF core that] other qv that(2) ce_disk [OF e] by (cases "p = ?q") auto
qed

lemma clean_cleaned:
  assumes t: "taken s g L T" and e: "clean_effect s g s'"
  shows "cleaned s' g L T"
proof -
  note core = taken_core [OF t] and same = ce_same [OF e]
  have len: "length (pg_data (fr s' f)) = BUSTUB_PAGE_SIZE" if "f \<in> frames s" for f
    using core_length [OF core that] ce_fr [OF e that] by (cases "f = g") (simp_all add: ce_g [OF e])
  have find: "f \<in> frames s \<and> pg_id (fr s' f) = p \<and> p \<in> L" if "table_find p s' = Some f" for p f
    using that core_find [OF core, of p f] ce_fr [OF e, of f]
    by (cases "f = g") (auto simp: ce_find [OF e] split: if_splits)
  have "pool_core s' L"
    unfolding pool_core_def same
    using core_lruk [OF core] core_free [OF core] core_live [OF core] core_next [OF core] len find
      ce_table [OF e] clean_disk(1,4) [OF t e] by blast
  moreover have "slot_ok s' L T f" if "f \<in> frames s - {g}" for f
    by (rule slot_ok_cong [of s]) (use that taken_slot [OF t] ce_fr [OF e] same ce_find [OF e] clean_disk(2) [OF t e]
        taken_other_id [OF t, of f] in auto)
  moreover have "table_find p s' \<noteq> Some g" for p
    using core_find [OF core, of p g] by (auto simp: ce_find [OF e])
  ultimately show ?thesis using taken_g [OF t] same by (simp add: cleaned_def ce_g [OF e])
qed

lemma clean_content:
  assumes t: "taken s g L T" and e: "clean_effect s g s'" and p: "p \<in> L"
  shows "content s' p = content s p"
proof (cases "p = pg_id (fr s g)")
  case True
  then have "resident s L T g" "p \<notin> T" using taken_cases [OF t] p by (auto simp: stale_def)
  then show ?thesis using True clean_disk(3) [OF t e] by (auto simp: content_def ce_find [OF e] ce_disk [OF e] resident_def)
next
  case False
  have "f \<in> frames s" "f \<noteq> g" if "table_find p s = Some f" for f
    using core_find [OF taken_core [OF t] that] False by auto
  then show ?thesis using False clean_disk(2) [OF t e] ce_fr [OF e]
    by (auto simp: content_def ce_find [OF e] split: option.splits)
qed

lemma clean_pins:
  assumes t: "taken s g L T" and e: "clean_effect s g s'" and p: "p \<in> L"
  shows "pins s' p = pins s p"
proof (cases "p = pg_id (fr s g)")
  case True
  then show ?thesis using taken_cases [OF t] p by (auto simp: stale_def pins_def ce_find [OF e] resident_def)
next
  case False
  have "f \<in> frames s" "f \<noteq> g" if "table_find p s = Some f" for f
    using core_find [OF taken_core [OF t] that] False by auto
  then show ?thesis using False ce_fr [OF e] by (auto simp: pins_def ce_find [OF e] split: option.splits)
qed

text \<open>Taking and cleaning a frame together, as \<^verbatim>\<open>NewPgImp\<close> and \<^verbatim>\<open>FetchPgImp\<close> begin.\<close>

lemma clean_frame_ok:
  assumes t: "taken s g L T"
  obtains s' where "clean_frame g s = Inr s'" and "cleaned s' g L T" and "pg_data (fr s' g) = zero_page"
    and "\<And>p. p \<in> L \<Longrightarrow> content s' p = content s p \<and> pins s' p = pins s p" and "bp_next_page_id s' = bp_next_page_id s"
    and "\<And>p. table_find p s = None \<Longrightarrow> table_find p s' = None"
proof -
  obtain s' where s': "clean_frame g s = Inr s'" and e: "clean_effect s g s'"
    using clean_frame_effect [OF core_table [OF taken_core [OF t]] taken_g(1) [OF t]] by blast
  show ?thesis
    by (rule that [OF s' clean_cleaned [OF t e]])
      (use clean_content [OF t e] clean_pins [OF t e] ce_g [OF e] ce_find [OF e] ce_same [OF e] in auto)
qed

section \<open>Installing a page\<close>

lemma record_frame_pin:
  assumes "lruk_ok (length (bp_pages s)) (bp_replacer s)" and "g \<in> frames s"
  obtains r where "record_frame g s = Inr (s\<lparr>bp_replacer := r\<rparr>)"
    and "lruk_ok (length (bp_pages s)) (LRUK_SetEvictable g False r)"
    and "lruk_view (LRUK_SetEvictable g False r) = (lruk_view (bp_replacer s))(g \<mapsto> False)"
proof -
  obtain r where "LRUK_RecordAccess g (bp_replacer s) = Inr r"
      "lruk_ok (length (bp_pages s)) (LRUK_SetEvictable g False r)"
      "lruk_view (LRUK_SetEvictable g False r) = (lruk_view (bp_replacer s))(g \<mapsto> False)"
    using rp.pin_frame [OF assms(1), of g] assms(2) by (auto simp: frames_iff)
  then show ?thesis by (intro that [of r]) (simp_all add: record_frame_def)
qed

lemma install_page_effect:
  assumes "page_table_inv (bp_table s)" "lruk_ok (length (bp_pages s)) (bp_replacer s)" and g: "g \<in> frames s"
  obtains t r where "install_page g p s = Inr (modify_frame g (\<lambda>pg. pg\<lparr>pg_id := p, pin_count := 1\<rparr>)
        (s\<lparr>bp_table := t, bp_replacer := r\<rparr>))"
    and "page_table_inv t" and "Find hash_page_id t = (Find hash_page_id (bp_table s))(p \<mapsto> g)"
    and "lruk_ok (length (bp_pages s)) r" and "lruk_view r = (lruk_view (bp_replacer s))(g \<mapsto> False)"
proof -
  obtain t where t: "Insert hash_page_id p g (bp_table s) = Some (Inr t)" "page_table_inv t"
      "Find hash_page_id t = (Find hash_page_id (bp_table s))(p \<mapsto> g)"
    using pt.insert_total [OF assms(1)] by blast
  let ?s = "modify_frame g (\<lambda>pg. pg\<lparr>pg_id := p, pin_count := 1\<rparr>) (s\<lparr>bp_table := t\<rparr>)"
  obtain r where r: "record_frame g ?s = Inr (?s\<lparr>bp_replacer := r\<rparr>)"
      "lruk_ok (length (bp_pages s)) (LRUK_SetEvictable g False r)"
      "lruk_view (LRUK_SetEvictable g False r) = (lruk_view (bp_replacer s))(g \<mapsto> False)"
    using record_frame_pin [of ?s g] assms(2) g by auto
  have "install_page g p s = Inr (?s\<lparr>bp_replacer := LRUK_SetEvictable g False r\<rparr>)"
    using t(1) r(1) by (simp add: install_page_def table_insert_def set_evictable_def)
  also have "\<dots> = Inr (modify_frame g (\<lambda>pg. pg\<lparr>pg_id := p, pin_count := 1\<rparr>)
      (s\<lparr>bp_table := t, bp_replacer := LRUK_SetEvictable g False r\<rparr>))" by (cases s) (simp add: modify_frame_def)
  finally show ?thesis using that t(2,3) r(2,3) by blast
qed

lemma cleanedD:
  assumes "cleaned s g L T"
  shows cleaned_core: "pool_core s L" and cleaned_slot: "f \<in> frames s \<Longrightarrow> f \<noteq> g \<Longrightarrow> slot_ok s L T f"
    and cleaned_g: "g \<in> frames s" "g \<notin> set (bp_free_list s)" "lruk_view (bp_replacer s) g = None"
      "table_find p s \<noteq> Some g" "\<not> is_dirty (fr s g)"
  using assms unfolding cleaned_def by blast+

lemma cleaned_load:
  assumes c: "cleaned s g L T" and x: "length x = BUSTUB_PAGE_SIZE"
  shows "cleaned (modify_frame g (\<lambda>pg. pg\<lparr>pg_data := x\<rparr>) s) g L T"
    and "content (modify_frame g (\<lambda>pg. pg\<lparr>pg_data := x\<rparr>) s) q = content s q"
    and "pins (modify_frame g (\<lambda>pg. pg\<lparr>pg_data := x\<rparr>) s) q = pins s q"
proof -
  let ?s = "modify_frame g (\<lambda>pg. pg\<lparr>pg_data := x\<rparr>) s"
  note core = cleaned_core [OF c] and g = cleaned_g [OF c]
  have fr: "fr ?s f = (if f = g then (fr s g)\<lparr>pg_data := x\<rparr> else fr s f)" if "f \<in> frames s" for f
    using that g(1) by simp
  have "pool_core ?s L" using core x fr by (auto simp: pool_core_def)
  moreover have "slot_ok ?s L T f" if "f \<in> frames s" "f \<noteq> g" for f
    using cleaned_slot [OF c that] by (rule slot_ok_cong) (use that g(1) in auto)
  ultimately show "cleaned ?s g L T" using g by (simp add: cleaned_def)
  show "content ?s q = content s q" "pins ?s q = pins s q"
    using g(1,4) core_find [OF core, of q] by (auto simp: content_def pins_def split: option.splits)
qed

lemma install_page_ok:
  assumes c: "cleaned s g L T" and p: "p \<in> L" "table_find p s = None" "pg_data (fr s g) = dm_page (bp_disk s) p"
  obtains s' where "install_page g p s = Inr s'" and "pool_inv s' L T" and "\<And>q. q \<in> L \<Longrightarrow> content s' q = content s q"
    and "\<And>q. pins s' q = (if q = p then 1 else pins s q)" and "table_find p s' = Some g"
    and "bp_next_page_id s' = bp_next_page_id s"
proof -
  note core = cleaned_core [OF c] and g = cleaned_g [OF c]
  obtain t r where i: "install_page g p s = Inr (modify_frame g (\<lambda>pg. pg\<lparr>pg_id := p, pin_count := 1\<rparr>)
        (s\<lparr>bp_table := t, bp_replacer := r\<rparr>))" (is "_ = Inr ?s")
    and t: "page_table_inv t" "Find hash_page_id t = (Find hash_page_id (bp_table s))(p \<mapsto> g)"
    and r: "lruk_ok (length (bp_pages s)) r" "lruk_view r = (lruk_view (bp_replacer s))(g \<mapsto> False)"
    by (rule install_page_effect [OF core_table [OF core] core_lruk [OF core] g(1)])
  define s' where "s' = ?s"
  have find: "table_find q s' = (if q = p then Some g else table_find q s)" for q
    by (simp add: s'_def) (simp add: table_find_def t(2))
  have frs: "fr s' f = (if f = g then (fr s g)\<lparr>pg_id := p, pin_count := 1\<rparr> else fr s f)" if "f \<in> frames s" for f
    using that g(1) by (simp add: s'_def)
  have flds: "bp_table s' = t" "bp_replacer s' = r" "bp_disk s' = bp_disk s" "bp_free_list s' = bp_free_list s"
    "bp_next_page_id s' = bp_next_page_id s" "frames s' = frames s" "length (bp_pages s') = length (bp_pages s)"
    by (simp_all add: s'_def)
  have "pool_core s' L"
    unfolding pool_core_def flds using core g(1,4) p(1) t(1) r(1) frs find
    by (auto simp: pool_core_def split: if_splits)
  moreover have "slot_ok s' L T f" if "f \<in> frames s" for f
  proof (cases "f = g")
    case True
    then show ?thesis using g p by (simp add: slot_ok_def resident_def r(2) find frs flds)
  next
    case False
    have "pg_id (fr s f) \<noteq> p" if "f \<notin> set (bp_free_list s)"
      using cleaned_slot [OF c \<open>f \<in> frames s\<close> False] that p(2) by (auto simp: slot_ok_def resident_def)
    then show ?thesis
      using False find frs [OF that] by (intro slot_ok_cong [OF cleaned_slot [OF c that False]]) (auto simp: r(2) flds)
  qed
  ultimately have inv: "pool_inv s' L T" by (simp add: pool_inv_def flds)
  have "content s' q = content s q" "pins s' q = (if q = p then 1 else pins s q)" for q
    using p(2,3) g(1) core_find [OF core, of q] frs g(4) [of q]
    by (auto simp: content_def pins_def find flds split: option.splits)
  then show ?thesis using that [OF i [folded s'_def] inv] find flds by simp
qed

section \<open>The operations keep the invariant\<close>

lemma NewPg_ok:
  assumes inv: "pool_inv s L T" and room: "unat (bp_next_page_id s) < 524287"
  obtains (full) "NewPgImp s = Inr (None, s)" and "bp_free_list s = []" and "\<And>f. f \<in> frames s \<Longrightarrow> 0 < pin_count (fr s f)"
  | (new) p g s' where "NewPgImp s = Inr (Some (p, g), s')" and "p = bp_next_page_id s" and "p \<notin> L"
      and "pool_inv s' (insert p L) T" and "table_find p s' = Some g" and "content s' p = zero_page" and "pins s' p = 1"
      and "\<And>q. q \<in> L \<Longrightarrow> content s' q = content s q \<and> pins s' q = pins s q" and "bp_next_page_id s' = p + 1"
proof (cases rule: take_frame_cases [OF inv])
  case 1
  then show ?thesis using full by (simp add: NewPgImp_def)
next
  case (2 g s1)
  let ?p = "bp_next_page_id s"
  let ?s1 = "s1\<lparr>bp_next_page_id := ?p + 1\<rparr>"
  have room1: "unat (bp_next_page_id s1) < 524287" using room 2(7) by simp
  have alloc: "AllocatePage s1 = (?p, ?s1)" using 2(7) by (simp add: AllocatePage_def)
  note at = allocate_taken [OF 2(2) room1, unfolded 2(7) alloc snd_conv]
  obtain s2 where s2: "clean_frame g ?s1 = Inr s2" "cleaned s2 g (insert ?p L) T" "pg_data (fr s2 g) = zero_page"
      "\<And>q. q \<in> insert ?p L \<Longrightarrow> content s2 q = content ?s1 q \<and> pins s2 q = pins ?s1 q" "bp_next_page_id s2 = ?p + 1"
      "\<And>q. table_find q ?s1 = None \<Longrightarrow> table_find q s2 = None"
    using clean_frame_ok [OF at(1)] by auto
  have same: "content ?s1 q = content s q" "pins ?s1 q = pins s q" for q
    using 2(3,5,6) by (simp_all add: content_def pins_def split: option.splits)
  have p2: "table_find ?p s2 = None" using s2(6) at(2) by simp
  have zero: "content s2 ?p = zero_page" using s2(4) [of ?p] at(2,3) 2(5,6) by (simp add: content_def)
  have "pg_data (fr s2 g) = dm_page (bp_disk s2) ?p" using zero p2 s2(3) by (simp add: content_def)
  then obtain s3 where s3: "install_page g ?p s2 = Inr s3" "pool_inv s3 (insert ?p L) T"
      "\<And>q. q \<in> insert ?p L \<Longrightarrow> content s3 q = content s2 q" "\<And>q. pins s3 q = (if q = ?p then 1 else pins s2 q)"
      "table_find ?p s3 = Some g" "bp_next_page_id s3 = bp_next_page_id s2"
    using install_page_ok [OF s2(2) _ p2] by auto
  have "NewPgImp s = Inr (Some (?p, g), s3)"
    using 2(1) alloc s2(1) s3(1) by (simp add: NewPgImp_def)
  moreover have "content s3 q = content s q \<and> pins s3 q = pins s q" if "q \<in> L" for q
    using s3(3,4) [of q] s2(4) [of q] same that at(4) by auto
  ultimately show ?thesis using new [of ?p g s3] s3 s2(5) zero at(4) by simp
qed

lemma FetchPg_miss:
  assumes inv: "pool_inv s L T" and p: "p \<in> L" "table_find p s = None"
  obtains (full) "FetchPgImp p s = Inr (None, s)" and "bp_free_list s = []" and "\<And>f. f \<in> frames s \<Longrightarrow> 0 < pin_count (fr s f)"
  | (loaded) g s' where "FetchPgImp p s = Inr (Some g, s')" and "pool_inv s' L T" and "table_find p s' = Some g"
      and "\<And>q. q \<in> L \<Longrightarrow> content s' q = content s q \<and> pins s' q = (if q = p then 1 else pins s q)"
      and "bp_next_page_id s' = bp_next_page_id s"
proof (cases rule: take_frame_cases [OF inv])
  case 1
  then show ?thesis using full p(2) by (simp add: FetchPgImp_def)
next
  case (2 g s1)
  obtain s2 where s2: "clean_frame g s1 = Inr s2" "cleaned s2 g L T" "pg_data (fr s2 g) = zero_page"
      "\<And>q. q \<in> L \<Longrightarrow> content s2 q = content s1 q \<and> pins s2 q = pins s1 q" "bp_next_page_id s2 = bp_next_page_id s1"
      "\<And>q. table_find q s1 = None \<Longrightarrow> table_find q s2 = None"
    using clean_frame_ok [OF 2(2)] by auto
  note core = cleaned_core [OF s2(2)] and g = cleaned_g [OF s2(2)]
  have same: "content s1 q = content s q" "pins s1 q = pins s q" for q
    using 2(3,5,6) by (simp_all add: content_def pins_def split: option.splits)
  have p2: "table_find p s2 = None" using s2(6) 2(5) p(2) by simp
  have read: "ReadPage p (pg_data (fr s2 g)) (bp_disk s2) = (dm_page (bp_disk s2) p, bp_disk s2)"
    using ReadPage_law [OF core_disk [OF core] core_valid [OF core p(1)]] s2(3) by simp
  let ?s2 = "modify_frame g (\<lambda>pg. pg\<lparr>pg_data := dm_page (bp_disk s2) p\<rparr>) (s2\<lparr>bp_disk := bp_disk s2\<rparr>)"
  have c: "cleaned ?s2 g L T" and same2: "\<And>q. content ?s2 q = content s2 q" "\<And>q. pins ?s2 q = pins s2 q"
    using cleaned_load [OF s2(2), of "dm_page (bp_disk s2) p"] by simp_all
  obtain s3 where s3: "install_page g p ?s2 = Inr s3" "pool_inv s3 L T"
      "\<And>q. q \<in> L \<Longrightarrow> content s3 q = content ?s2 q" "\<And>q. pins s3 q = (if q = p then 1 else pins ?s2 q)"
      "table_find p s3 = Some g" "bp_next_page_id s3 = bp_next_page_id ?s2"
    using install_page_ok [OF c p(1)] p2 g(1) by auto
  have "FetchPgImp p s = Inr (Some g, s3)"
    using 2(1) p(2) s2(1) s3(1) g(1) by (simp add: FetchPgImp_def read)
  moreover have "content s3 q = content s q \<and> pins s3 q = (if q = p then 1 else pins s q)" if "q \<in> L" for q
    using s3(3,4) [of q] s2(4) [of q] same same2 that by simp
  ultimately show ?thesis using loaded [of g s3] s3 s2(5) 2(7) by simp
qed

text \<open>Changes to a single mapped frame.\<close>

lemma mapped_frame:
  assumes inv: "pool_inv s L T" and p: "table_find p s = Some f"
  shows "f \<in> frames s" "f \<notin> set (bp_free_list s)" "pg_id (fr s f) = p" "p \<in> L" "resident s L T f"
    "lruk_view (bp_replacer s) f = Some (pin_count (fr s f) = 0)" "0 \<le> pin_count (fr s f)"
    "pin_count (fr s f) = 0 \<Longrightarrow> p \<notin> T"
proof -
  show f: "f \<in> frames s" "pg_id (fr s f) = p" "p \<in> L" using core_find [OF inv_core [OF inv] p] by auto
  then show nf: "f \<notin> set (bp_free_list s)" using inv_slot [OF inv f(1)] by (auto simp: slot_ok_def stale_def)
  show "resident s L T f" "lruk_view (bp_replacer s) f = Some (pin_count (fr s f) = 0)" "0 \<le> pin_count (fr s f)"
    "pin_count (fr s f) = 0 \<Longrightarrow> p \<notin> T"
    using inv_slot [OF inv f(1)] f nf by (auto simp: slot_ok_def resident_def)
qed

lemma update_mapped:
  assumes inv: "pool_inv s L T" and p: "table_find p s = Some f"
    and flds: "bp_table s' = bp_table s" "bp_free_list s' = bp_free_list s" "bp_next_page_id s' = bp_next_page_id s"
      "length (bp_pages s') = length (bp_pages s)"
    and frs: "\<And>g. g \<in> frames s \<Longrightarrow> g \<noteq> f \<Longrightarrow> fr s' g = fr s g"
    and pg: "pg_id (fr s' f) = p" "length (pg_data (fr s' f)) = BUSTUB_PAGE_SIZE" "0 \<le> pin_count (fr s' f)"
    and rep: "lruk_ok (length (bp_pages s)) (bp_replacer s')"
      "lruk_view (bp_replacer s') = (lruk_view (bp_replacer s))(f \<mapsto> pin_count (fr s' f) = 0)"
    and disk: "dm_inv (bp_disk s')" "\<And>q. q \<noteq> p \<Longrightarrow> dm_page (bp_disk s') q = dm_page (bp_disk s) q"
    and T: "T' - {p} = T - {p}" "pin_count (fr s' f) = 0 \<Longrightarrow> p \<notin> T'"
      "\<not> is_dirty (fr s' f) \<Longrightarrow> p \<notin> T' \<Longrightarrow> pg_data (fr s' f) = dm_page (bp_disk s') p"
  shows "pool_inv s' L T'" and "content s' q = (if q = p then pg_data (fr s' f) else content s q)"
    and "pins s' q = (if q = p then pin_count (fr s' f) else pins s q)"
proof -
  note core = inv_core [OF inv] and m = mapped_frame [OF inv p]
  have find: "table_find q s' = table_find q s" for q by (simp add: table_find_def flds)
  have fs: "frames s' = frames s" by (simp add: frames_def flds)
  have other: "g \<noteq> f" if "table_find q s = Some g" "q \<noteq> p" for q g using core_find [OF core that(1)] m(3) that(2) by auto
  have find': "g \<in> frames s \<and> pg_id (fr s' g) = q \<and> q \<in> L" if "table_find q s = Some g" for q g
    using core_find [OF core that] frs [of g] pg(1) m(3) by (cases "g = f") auto
  have len: "length (pg_data (fr s' g)) = BUSTUB_PAGE_SIZE" if "g \<in> frames s" for g
    using core_length [OF core that] frs [OF that] pg(2) by (cases "g = f") auto
  have fresh: "dm_page (bp_disk s') q = zero_page" if "valid_page q" "unat (bp_next_page_id s) \<le> unat q" for q
    using core_fresh [OF core that] disk(2) [of q] core_live [OF core m(4)] that(2) by (cases "q = p") auto
  have "pool_core s' L"
    unfolding pool_core_def flds fs find using core_table [OF core] rep(1) disk(1) core_free [OF core] core_live [OF core]
      core_next [OF core] find' len fresh by blast
  moreover have "slot_ok s' L T' g" if g: "g \<in> frames s" for g
  proof (cases "g = f")
    case True
    then show ?thesis using m pg T(2,3) by (auto simp: slot_ok_def resident_def flds find p rep(2))
  next
    case False
    have "pg_id (fr s g) \<noteq> p" if "g \<notin> set (bp_free_list s)"
      using inv_slot [OF inv g] that False p by (auto simp: slot_ok_def resident_def)
    then show ?thesis
      using False T(1) disk(2) by (intro slot_ok_change [OF inv_slot [OF inv g]]) (auto simp: frs g flds find rep(2))
  qed
  ultimately show "pool_inv s' L T'" by (simp add: pool_inv_def fs)
  show "content s' q = (if q = p then pg_data (fr s' f) else content s q)"
    "pins s' q = (if q = p then pin_count (fr s' f) else pins s q)"
    using p other [of q] frs disk(2) core_find [OF core, of q] by (auto simp: content_def pins_def find split: option.splits)
qed

lemma FetchPg_hit:
  assumes inv: "pool_inv s L T" and p: "table_find p s = Some f"
  obtains s' where "FetchPgImp p s = Inr (Some f, s')" and "pool_inv s' L T" and "table_find p s' = Some f"
    and "\<And>q. content s' q = content s q" and "\<And>q. pins s' q = (if q = p then pins s p + 1 else pins s q)"
    and "bp_next_page_id s' = bp_next_page_id s"
proof -
  note core = inv_core [OF inv] and m = mapped_frame [OF inv p]
  obtain r where r: "record_frame f s = Inr (s\<lparr>bp_replacer := r\<rparr>)"
      "lruk_ok (length (bp_pages s)) (LRUK_SetEvictable f False r)"
      "lruk_view (LRUK_SetEvictable f False r) = (lruk_view (bp_replacer s))(f \<mapsto> False)"
    using record_frame_pin [OF core_lruk [OF core] m(1)] .
  define s' where "s' = modify_frame f (\<lambda>pg. pg\<lparr>pin_count := pin_count pg + 1\<rparr>) (set_evictable f False (s\<lparr>bp_replacer := r\<rparr>))"
  have res: "FetchPgImp p s = Inr (Some f, s')" using p m(1) r(1) by (simp add: FetchPgImp_def s'_def)
  have flds: "bp_table s' = bp_table s" "bp_free_list s' = bp_free_list s" "bp_next_page_id s' = bp_next_page_id s"
    "length (bp_pages s') = length (bp_pages s)" "bp_disk s' = bp_disk s" "bp_replacer s' = LRUK_SetEvictable f False r"
    by (simp_all add: s'_def set_evictable_def)
  have frs: "fr s' g = (if g = f then (fr s f)\<lparr>pin_count := pin_count (fr s f) + 1\<rparr> else fr s g)" if "g \<in> frames s" for g
    using that m(1) by (simp add: s'_def set_evictable_def)
  have upd: "pool_inv s' L T \<and> content s' q = (if q = p then pg_data (fr s' f) else content s q) \<and>
      pins s' q = (if q = p then pin_count (fr s' f) else pins s q)" for q
    by (intro conjI update_mapped [OF inv p flds(1-4)])
      (use frs r(2,3) m core_length [OF core m(1)] core_disk [OF core] in \<open>auto simp: flds resident_def\<close>)
  have "table_find p s' = Some f" using p by (simp add: table_find_def flds)
  then show ?thesis using that [OF res] upd frs [OF m(1)] p flds(3) by (auto simp: content_def pins_def)
qed

lemma live_valid_id: "pool_inv s L T \<Longrightarrow> p \<in> L \<Longrightarrow> p \<noteq> INVALID_PAGE_ID"
  using core_valid [OF inv_core] unat_INVALID by (fastforce simp: valid_page_def)

lemma UnpinPg_refused:
  assumes inv: "pool_inv s L T" and "pins s p \<le> 0"
  shows "UnpinPgImp p d s = Inr (False, s)"
proof (cases "table_find p s")
  case (Some f)
  then have "pin_count (fr s f) = 0" using assms(2) mapped_frame(7) [OF inv Some] by (simp add: pins_def)
  then show ?thesis using Some mapped_frame(1) [OF inv Some] by (simp add: UnpinPgImp_def)
qed (simp add: UnpinPgImp_def)

lemma UnpinPg_ok:
  assumes inv: "pool_inv s L T" and pin: "0 < pins s p" and report: "d \<or> p \<notin> T \<or> 1 < pins s p"
  obtains s' where "UnpinPgImp p d s = Inr (True, s')" and "pool_inv s' L (if d then T - {p} else T)"
    and "\<And>q. content s' q = content s q" and "\<And>q. pins s' q = (if q = p then pins s p - 1 else pins s q)"
    and "bp_next_page_id s' = bp_next_page_id s"
proof -
  obtain f where p: "table_find p s = Some f" and pf: "0 < pin_count (fr s f)" "pins s p = pin_count (fr s f)"
    using pin by (auto simp: pins_def split: option.splits)
  note core = inv_core [OF inv] and m = mapped_frame [OF inv p]
  define s1 where "s1 = modify_frame f (\<lambda>pg. pg\<lparr>pin_count := pin_count pg - 1\<rparr>) s"
  define s2 where "s2 = (if pin_count (fr s f) - 1 = 0 then set_evictable f True s1 else s1)"
  define s' where "s' = modify_frame f (\<lambda>pg. pg\<lparr>is_dirty := is_dirty pg \<or> d\<rparr>) s2"
  have res: "UnpinPgImp p d s = Inr (True, s')"
    using p m(1) pf live_valid_id [OF inv m(4)] by (simp add: UnpinPgImp_def s'_def s2_def s1_def Let_def)
  have flds: "bp_table s' = bp_table s" "bp_free_list s' = bp_free_list s" "bp_next_page_id s' = bp_next_page_id s"
    "length (bp_pages s') = length (bp_pages s)" "bp_disk s' = bp_disk s"
    "bp_replacer s' = (if pin_count (fr s f) - 1 = 0 then LRUK_SetEvictable f True (bp_replacer s) else bp_replacer s)"
    by (simp_all add: s'_def s2_def s1_def set_evictable_def)
  have frs: "fr s' g = (if g = f then (fr s f)\<lparr>pin_count := pin_count (fr s f) - 1, is_dirty := is_dirty (fr s f) \<or> d\<rparr>
      else fr s g)" if "g \<in> frames s" for g
    using that m(1) by (simp add: s'_def s2_def s1_def set_evictable_def)
  note lr = rp.set_inv [OF core_lruk [OF core], of f True] rp.set_view [OF core_lruk [OF core], of f True]
  have upd: "pool_inv s' L (if d then T - {p} else T) \<and> content s' q = (if q = p then pg_data (fr s' f) else content s q) \<and>
      pins s' q = (if q = p then pin_count (fr s' f) else pins s q)" for q
    by (intro conjI update_mapped [where T' = "if d then T - {p} else T", OF inv p flds(1-4)])
      (use frs lr m pf report core_lruk [OF core] core_length [OF core m(1)] core_disk [OF core] in
        \<open>auto simp: flds resident_def fun_eq_iff\<close>)
  then show ?thesis using that [OF res] frs [OF m(1)] p flds(3) pf by (auto simp: content_def)
qed

lemma FlushPg_ok:
  assumes inv: "pool_inv s L T" and p: "table_find p s = Some f"
  obtains s' where "FlushPgImp p s = Inr (True, s')" and "pool_inv s' L T" and "dm_page (bp_disk s') p = content s p"
    and "\<And>q. content s' q = content s q" and "\<And>q. pins s' q = pins s q" and "\<And>q. table_find q s' = table_find q s"
    and "\<And>q. q \<noteq> p \<Longrightarrow> dm_page (bp_disk s') q = dm_page (bp_disk s) q" and "bp_next_page_id s' = bp_next_page_id s"
    and "frames s' = frames s"
proof -
  note core = inv_core [OF inv] and m = mapped_frame [OF inv p]
  define s' where "s' = modify_frame f (\<lambda>pg. pg\<lparr>is_dirty := False\<rparr>) (s\<lparr>bp_disk := WritePage p (pg_data (fr s f)) (bp_disk s)\<rparr>)"
  have res: "FlushPgImp p s = Inr (True, s')"
    using p m(1) live_valid_id [OF inv m(4)] by (simp add: FlushPgImp_def s'_def)
  have flds: "bp_table s' = bp_table s" "bp_free_list s' = bp_free_list s" "bp_next_page_id s' = bp_next_page_id s"
    "length (bp_pages s') = length (bp_pages s)" "bp_replacer s' = bp_replacer s" "frames s' = frames s"
    by (simp_all add: s'_def)
  have frs: "fr s' g = (if g = f then (fr s f)\<lparr>is_dirty := False\<rparr> else fr s g)" if "g \<in> frames s" for g
    using that m(1) by (simp add: s'_def)
  have disk: "dm_inv (bp_disk s')" "dm_page (bp_disk s') p = pg_data (fr s f)"
      "\<And>q. q \<noteq> p \<Longrightarrow> dm_page (bp_disk s') q = dm_page (bp_disk s) q"
    using WritePage_law [OF core_disk [OF core] core_valid [OF core m(4)] core_length [OF core m(1)]]
    by (simp_all add: s'_def)
  have upd: "pool_inv s' L T \<and> content s' q = (if q = p then pg_data (fr s' f) else content s q) \<and>
      pins s' q = (if q = p then pin_count (fr s' f) else pins s q)" for q
    by (intro conjI update_mapped [where T' = T, OF inv p flds(1-4)])
      (use frs m disk core_lruk [OF core] core_length [OF core m(1)] in \<open>auto simp: flds resident_def fun_eq_iff\<close>)
  have "table_find q s' = table_find q s" for q by (simp add: table_find_def flds)
  then show ?thesis
    using that [OF res] upd frs m(1) p flds disk by (auto simp: content_def pins_def)
qed

lemma FlushPg_unmapped: "table_find p s = None \<Longrightarrow> FlushPgImp p s = Inr (False, s)"
  by (simp add: FlushPgImp_def)

text \<open>What a client does through \<^verbatim>\<open>GetData\<close> to a page it has pinned.\<close>

definition client_store :: "frame_id \<Rightarrow> byte list \<Rightarrow> bpm \<Rightarrow> bpm" where
  "client_store f x = modify_frame f (\<lambda>pg. pg\<lparr>pg_data := x\<rparr>)"

lemma client_store_ok:
  assumes inv: "pool_inv s L T" and p: "table_find p s = Some f" and pin: "0 < pins s p" and x: "length x = BUSTUB_PAGE_SIZE"
  shows "pool_inv (client_store f x s) L (insert p T)"
    and "content (client_store f x s) q = (if q = p then x else content s q)"
    and "pins (client_store f x s) q = pins s q"
proof -
  let ?s = "client_store f x s"
  note core = inv_core [OF inv] and m = mapped_frame [OF inv p]
  have flds: "bp_table ?s = bp_table s" "bp_free_list ?s = bp_free_list s" "bp_next_page_id ?s = bp_next_page_id s"
    "length (bp_pages ?s) = length (bp_pages s)" "bp_replacer ?s = bp_replacer s" "bp_disk ?s = bp_disk s"
    by (simp_all add: client_store_def)
  have frs: "fr ?s g = (if g = f then (fr s f)\<lparr>pg_data := x\<rparr> else fr s g)" if "g \<in> frames s" for g
    using that m(1) by (simp add: client_store_def)
  have "pool_inv ?s L (insert p T) \<and> content ?s q = (if q = p then pg_data (fr ?s f) else content s q) \<and>
      pins ?s q = (if q = p then pin_count (fr ?s f) else pins s q)" for q
    by (intro conjI update_mapped [where T' = "insert p T", OF inv p flds(1-4)])
      (use frs m p pin x core_lruk [OF core] core_disk [OF core] in \<open>auto simp: flds resident_def fun_eq_iff pins_def\<close>)
  then show "pool_inv ?s L (insert p T)" "content ?s q = (if q = p then x else content s q)" "pins ?s q = pins s q"
    using frs [OF m(1)] p by (auto simp: pins_def)
qed

lemma flush_frames_ok:
  assumes "pool_inv s L T" and "int ` set is \<subseteq> frames s"
  shows "\<exists>s'. flush_frames is s = Inr s' \<and> pool_inv s' L T \<and> (\<forall>q. content s' q = content s q) \<and>
    (\<forall>q. pins s' q = pins s q) \<and> bp_next_page_id s' = bp_next_page_id s \<and>
    (\<forall>q. dm_page (bp_disk s') q = dm_page (bp_disk s) q \<or> dm_page (bp_disk s') q = content s q) \<and>
    (\<forall>i \<in> set is. \<forall>q. table_find q s = Some (int i) \<longrightarrow> dm_page (bp_disk s') q = content s q)"
  using assms
proof (induction "is" arbitrary: s)
  case (Cons i "is")
  let ?p = "pg_id (fr s (int i))"
  have i: "int i \<in> frames s" using Cons.prems(2) by simp
  show ?case
  proof (cases "table_find ?p s")
    case None
    then have "table_find q s \<noteq> Some (int i)" for q using core_find [OF inv_core [OF Cons.prems(1)], of q "int i"] by auto
    then show ?thesis using Cons.IH [OF Cons.prems(1)] Cons.prems(2) i FlushPg_unmapped [OF None] by auto
  next
    case (Some f)
    obtain s1 where s1: "FlushPgImp ?p s = Inr (True, s1)" "pool_inv s1 L T" "dm_page (bp_disk s1) ?p = content s ?p"
      "\<And>q. content s1 q = content s q" "\<And>q. pins s1 q = pins s q" "\<And>q. table_find q s1 = table_find q s"
      "\<And>q. q \<noteq> ?p \<Longrightarrow> dm_page (bp_disk s1) q = dm_page (bp_disk s) q" "bp_next_page_id s1 = bp_next_page_id s"
      "frames s1 = frames s"
      by (rule FlushPg_ok [OF Cons.prems(1) Some]) (rule that)
    obtain s' where s': "flush_frames is s1 = Inr s'" "pool_inv s' L T" "\<forall>q. content s' q = content s1 q"
        "\<forall>q. pins s' q = pins s1 q" "bp_next_page_id s' = bp_next_page_id s1"
        "\<forall>q. dm_page (bp_disk s') q = dm_page (bp_disk s1) q \<or> dm_page (bp_disk s') q = content s1 q"
        "\<forall>i \<in> set is. \<forall>q. table_find q s1 = Some (int i) \<longrightarrow> dm_page (bp_disk s') q = content s1 q"
      using Cons.IH [OF s1(2)] Cons.prems(2) s1(9) by auto
    have "dm_page (bp_disk s') q = content s q" if "table_find q s = Some (int i)" for q
      using that core_find [OF inv_core [OF Cons.prems(1)] that] s1(3,4) s'(6) by metis
    moreover have "dm_page (bp_disk s') q = dm_page (bp_disk s) q \<or> dm_page (bp_disk s') q = content s q" for q
      using s'(6) s1(3,4,7) by metis
    ultimately show ?thesis using i s1 s' by auto
  qed
qed simp

lemma FlushAll_ok:
  assumes inv: "pool_inv s L T"
  obtains s' where "FlushAllPgsImp s = Inr s'" and "pool_inv s' L T" and "\<And>q. content s' q = content s q"
    and "\<And>q. pins s' q = pins s q" and "bp_next_page_id s' = bp_next_page_id s"
    and "\<And>q. q \<in> L \<Longrightarrow> dm_page (bp_disk s') q = content s q"
proof -
  have "int ` set [0..<length (bp_pages s)] \<subseteq> frames s" by (auto simp: frames_def)
  then obtain s' where s': "FlushAllPgsImp s = Inr s'" "pool_inv s' L T" "\<forall>q. content s' q = content s q"
      "\<forall>q. pins s' q = pins s q" "bp_next_page_id s' = bp_next_page_id s"
      "\<forall>q. dm_page (bp_disk s') q = dm_page (bp_disk s) q \<or> dm_page (bp_disk s') q = content s q"
      "\<forall>i \<in> set [0..<length (bp_pages s)]. \<forall>q. table_find q s = Some (int i) \<longrightarrow> dm_page (bp_disk s') q = content s q"
    using flush_frames_ok [OF inv, of "[0..<length (bp_pages s)]"] unfolding FlushAllPgsImp_def by blast
  have "dm_page (bp_disk s') q = content s q" for q
  proof (cases "table_find q s")
    case None
    then show ?thesis using s'(6) by (auto simp: content_def)
  next
    case (Some f)
    then have "f \<in> frames s" using core_find [OF inv_core [OF inv]] by blast
    then obtain i where "f = int i" "i < length (bp_pages s)" by (metis frames_iff nat_0_le of_nat_less_iff)
    then show ?thesis using s'(7) Some by auto
  qed
  with s' show ?thesis using that by blast
qed

section \<open>Deleting\<close>

lemma pool_inv_forget:
  assumes inv: "pool_inv s L T" and p: "table_find p s = None"
  shows "pool_inv s (L - {p}) T"
proof -
  have "slot_ok s (L - {p}) T f" if "f \<in> frames s" for f
    using inv_slot [OF inv that] p by (auto simp: slot_ok_def stale_def resident_def)
  moreover have "pool_core s (L - {p})" using inv_core [OF inv] p unfolding pool_core_def by auto
  ultimately show ?thesis by (simp add: pool_inv_def)
qed

lemma DeletePg_pinned:
  assumes inv: "pool_inv s L T" and pin: "0 < pins s p"
  shows "DeletePgImp p s = Inr (False, s)"
proof -
  obtain f where p: "table_find p s = Some f" and pf: "0 < pin_count (fr s f)"
    using pin by (auto simp: pins_def split: option.splits)
  show ?thesis using p pf mapped_frame [OF inv p] live_valid_id [OF inv, of p] by (simp add: DeletePgImp_def)
qed

lemma DeletePg_effect:
  assumes inv: "pool_inv s L T" and p: "table_find p s = Some f" and pin: "pins s p = 0"
  obtains s' r where "DeletePgImp p s = Inr (True, s')" and "lruk_ok (length (bp_pages s)) r"
    and "lruk_view r = (lruk_view (bp_replacer s))(f := None)"
    and "bp_free_list s' = bp_free_list s @ [f]" "bp_next_page_id s' = bp_next_page_id s"
      "length (bp_pages s') = length (bp_pages s)" "bp_replacer s' = r" "frames s' = frames s" "bp_disk s' = bp_disk s"
      "page_table_inv (bp_table s')"
    and "\<And>g. g \<in> frames s \<Longrightarrow> fr s' g = (if g = f then ResetMemory (fr s f) else fr s g)"
    and "\<And>q. table_find q s' = (if q = p then None else table_find q s)"
proof -
  note core = inv_core [OF inv] and m = mapped_frame [OF inv p]
  have pf: "pin_count (fr s f) = 0" using pin p by (simp add: pins_def)
  then obtain r where r: "LRUK_Remove f (bp_replacer s) = Inr r" "lruk_ok (length (bp_pages s)) r"
      "lruk_view r = (lruk_view (bp_replacer s))(f := None)"
    using rp.remove_law [OF core_lruk [OF core], of f] m(6) by auto
  define s1 where "s1 = (modify_frame f ResetMemory s)\<lparr>bp_replacer := r\<rparr>"
  define s' where "s' = (table_remove p s1)\<lparr>bp_free_list := bp_free_list s1 @ [f]\<rparr>"
  have res: "DeletePgImp p s = Inr (True, s')"
    using p m(1) pf r(1) live_valid_id [OF inv m(4)] by (simp add: DeletePgImp_def remove_frame_def s'_def s1_def)
  show ?thesis
    by (rule that [OF res r(2,3)]) (use core_table [OF core] m(1) in \<open>simp_all add: s'_def s1_def table_remove_inv table_find_remove\<close>)
qed

lemma DeletePg_ok:
  assumes inv: "pool_inv s L T" and p: "p \<in> L" and pin: "pins s p = 0"
  obtains s' where "DeletePgImp p s = Inr (True, s')" and "pool_inv s' (L - {p}) T"
    and "\<And>q. q \<in> L - {p} \<Longrightarrow> content s' q = content s q \<and> pins s' q = pins s q" and "bp_next_page_id s' = bp_next_page_id s"
proof (cases "table_find p s")
  case None
  then show ?thesis using that [of s] pool_inv_forget [OF inv None] by (simp add: DeletePgImp_def)
next
  case (Some f)
  note core = inv_core [OF inv] and m = mapped_frame [OF inv Some]
  obtain s' r where res: "DeletePgImp p s = Inr (True, s')" and r: "lruk_ok (length (bp_pages s)) r"
      "lruk_view r = (lruk_view (bp_replacer s))(f := None)"
    and flds: "bp_free_list s' = bp_free_list s @ [f]" "bp_next_page_id s' = bp_next_page_id s"
      "length (bp_pages s') = length (bp_pages s)" "bp_replacer s' = r" "frames s' = frames s" "bp_disk s' = bp_disk s"
      "page_table_inv (bp_table s')"
    and frs: "\<And>g. g \<in> frames s \<Longrightarrow> fr s' g = (if g = f then ResetMemory (fr s f) else fr s g)"
    and find: "\<And>q. table_find q s' = (if q = p then None else table_find q s)"
    by (rule DeletePg_effect [OF inv Some pin]) (rule that)
  have other: "g \<noteq> f" if "table_find q s = Some g" "q \<noteq> p" for q g using core_find [OF core that(1)] m(3) that(2) by auto
  have find': "g \<in> frames s \<and> pg_id (fr s' g) = q \<and> q \<in> L - {p}" if "table_find q s' = Some g" for q g
    using that other [of q g] core_find [OF core, of q g] frs [of g] by (auto simp: find split: if_splits)
  have len: "length (pg_data (fr s' g)) = BUSTUB_PAGE_SIZE" if "g \<in> frames s" for g
    using core_length [OF core that] frs [OF that] by (simp add: ResetMemory_def)
  have "distinct (bp_free_list s @ [f])" "set (bp_free_list s @ [f]) \<subseteq> frames s" using core_free [OF core] m(1,2) by auto
  then have "pool_core s' (L - {p})"
    unfolding pool_core_def flds(1-6) using find' r(1) core_disk [OF core] core_live [OF core]
      core_next [OF core] core_fresh [OF core] len flds(7) by blast
  moreover have "slot_ok s' (L - {p}) T g" if g: "g \<in> frames s" for g
  proof (cases "g = f")
    case True
    then show ?thesis using m core_live [OF core p] frs [OF m(1)] by (simp add: slot_ok_def stale_def flds r(2) ResetMemory_def)
  next
    case False
    have "pg_id (fr s g) \<noteq> p" if "g \<notin> set (bp_free_list s)"
      using inv_slot [OF inv g] that False Some by (auto simp: slot_ok_def resident_def)
    then show ?thesis
      using False p inv_slot [OF inv g] frs [OF g] by (auto simp: slot_ok_def stale_def resident_def flds r(2) find)
  qed
  ultimately have "pool_inv s' (L - {p}) T" by (simp add: pool_inv_def flds)
  moreover have "content s' q = content s q \<and> pins s' q = pins s q" if "q \<in> L - {p}" for q
    using that other [of q] frs core_find [OF core, of q] by (auto simp: content_def pins_def find flds split: option.splits)
  ultimately show ?thesis using that [OF res] flds by blast
qed

end
