(* ===== verification/Buffer_Pool_Spec.thy ===== *)
theory Buffer_Pool_Spec
  imports Buffer_Pool_Cache
begin

text \<open>
  The buffer pool manager as its clients see it: an abstract cache that maps the pages in use to
  their contents and pin counts. A client follows a protocol (it uses only pages it has created
  and not deleted, stores only into pages it has pinned, and reports a store when it gives up the
  last pin); then every call returns, the answers are those of the abstract cache, and the pool
  refines it over all sequences of calls.
\<close>

section \<open>Calls and the abstract cache\<close>

datatype call = New_Page | Fetch_Page page_id | Unpin_Page page_id bool | Flush_Page page_id | Flush_All
  | Delete_Page page_id | Store_Page page_id "byte list"

datatype response = Page_Of "(page_id \<times> frame_id) option" | Frame_Of "frame_id option" | Done bool

fun exec :: "call \<Rightarrow> bpm \<Rightarrow> bpm_error + response \<times> bpm" where
  "exec New_Page s = ebind (NewPgImp s) (\<lambda>(r, s'). Inr (Page_Of r, s'))"
| "exec (Fetch_Page p) s = ebind (FetchPgImp p s) (\<lambda>(r, s'). Inr (Frame_Of r, s'))"
| "exec (Unpin_Page p d) s = ebind (UnpinPgImp p d s) (\<lambda>(r, s'). Inr (Done r, s'))"
| "exec (Flush_Page p) s = ebind (FlushPgImp p s) (\<lambda>(r, s'). Inr (Done r, s'))"
| "exec Flush_All s = ebind (FlushAllPgsImp s) (\<lambda>s'. Inr (Done True, s'))"
| "exec (Delete_Page p) s = ebind (DeletePgImp p s) (\<lambda>(r, s'). Inr (Done r, s'))"
| "exec (Store_Page p x) s = (case table_find p s of
      None \<Rightarrow> Inr (Done False, s) | Some f \<Rightarrow> Inr (Done True, client_store f x s))"

record cache =
  c_live :: "page_id set"
  c_data :: "page_id \<Rightarrow> byte list"
  c_pins :: "page_id \<Rightarrow> int"
  c_touched :: "page_id set"
  c_next :: page_id

fun permitted :: "call \<Rightarrow> cache \<Rightarrow> bool" where
  "permitted New_Page a \<longleftrightarrow> unat (c_next a) < 524287"
| "permitted (Unpin_Page p d) a \<longleftrightarrow> p \<in> c_live a \<and> (0 < c_pins a p \<longrightarrow> d \<or> p \<notin> c_touched a \<or> 1 < c_pins a p)"
| "permitted Flush_All a \<longleftrightarrow> True"
| "permitted (Store_Page p x) a \<longleftrightarrow> p \<in> c_live a \<and> 0 < c_pins a p \<and> length x = BUSTUB_PAGE_SIZE"
| "permitted (Fetch_Page p) a \<longleftrightarrow> p \<in> c_live a"
| "permitted (Flush_Page p) a \<longleftrightarrow> p \<in> c_live a"
| "permitted (Delete_Page p) a \<longleftrightarrow> p \<in> c_live a"

fun after :: "call \<Rightarrow> response \<Rightarrow> cache \<Rightarrow> cache" where
  "after New_Page r a = (case r of
      Page_Of (Some (p, f)) \<Rightarrow> a\<lparr>c_live := insert p (c_live a), c_data := (c_data a)(p := zero_page),
                                c_pins := (c_pins a)(p := 1), c_next := p + 1\<rparr>
    | _ \<Rightarrow> a)"
| "after (Fetch_Page p) r a = (if r = Frame_Of None then a else a\<lparr>c_pins := (c_pins a)(p := c_pins a p + 1)\<rparr>)"
| "after (Unpin_Page p d) r a = (if r = Done True
      then a\<lparr>c_pins := (c_pins a)(p := c_pins a p - 1), c_touched := (if d then c_touched a - {p} else c_touched a)\<rparr>
      else a)"
| "after (Delete_Page p) r a = (if r = Done True then a\<lparr>c_live := c_live a - {p}\<rparr> else a)"
| "after (Store_Page p x) r a = a\<lparr>c_data := (c_data a)(p := x), c_touched := insert p (c_touched a)\<rparr>"
| "after (Flush_Page p) r a = a"
| "after Flush_All r a = a"

text \<open>What an answer means: a page comes with its contents, and it is refused only when every
  frame is pinned; unpinning succeeds on pinned pages, deletion on the others; after a flush the
  disk holds the contents.\<close>

definition pool_full :: "cache \<Rightarrow> bpm \<Rightarrow> bool" where
  "pool_full a s \<longleftrightarrow> card {p \<in> c_live a. 0 < c_pins a p} = length (bp_pages s)"

fun answer_ok :: "call \<Rightarrow> response \<Rightarrow> cache \<Rightarrow> bpm \<Rightarrow> bool" where
  "answer_ok New_Page r a s' \<longleftrightarrow> (case r of
      Page_Of (Some (p, f)) \<Rightarrow> p = c_next a \<and> p \<notin> c_live a \<and> pg_id (fr s' f) = p \<and> pg_data (fr s' f) = zero_page
    | Page_Of None \<Rightarrow> pool_full a s'
    | _ \<Rightarrow> False)"
| "answer_ok (Fetch_Page p) r a s' \<longleftrightarrow> (case r of
      Frame_Of (Some f) \<Rightarrow> pg_id (fr s' f) = p \<and> pg_data (fr s' f) = c_data a p
    | Frame_Of None \<Rightarrow> pool_full a s'
    | _ \<Rightarrow> False)"
| "answer_ok (Unpin_Page p d) r a s' \<longleftrightarrow> r = Done (0 < c_pins a p)"
| "answer_ok (Flush_Page p) r a s' \<longleftrightarrow> dm_page (bp_disk s') p = c_data a p"
| "answer_ok Flush_All r a s' \<longleftrightarrow> (\<forall>p \<in> c_live a. dm_page (bp_disk s') p = c_data a p)"
| "answer_ok (Delete_Page p) r a s' \<longleftrightarrow> r = Done (c_pins a p = 0)"
| "answer_ok (Store_Page p x) r a s' \<longleftrightarrow> r = Done True"

definition cache_rel :: "bpm \<Rightarrow> cache \<Rightarrow> bool" where
  "cache_rel s a \<longleftrightarrow> pool_inv s (c_live a) (c_touched a) \<and> bp_next_page_id s = c_next a \<and>
     (\<forall>p \<in> c_live a. content s p = c_data a p \<and> pins s p = c_pins a p)"

section \<open>A full pool\<close>

lemma pinned_pages_card:
  assumes inv: "pool_inv s L T" and free: "bp_free_list s = []" and pinned: "\<And>f. f \<in> frames s \<Longrightarrow> 0 < pin_count (fr s f)"
  shows "card {p \<in> L. 0 < pins s p} = length (bp_pages s)"
proof -
  have slot: "table_find (pg_id (fr s f)) s = Some f \<and> pg_id (fr s f) \<in> L" if "f \<in> frames s" for f
    using inv_slot [OF inv that] free by (simp add: slot_ok_def resident_def)
  have "bij_betw (\<lambda>f. pg_id (fr s f)) (frames s) {p \<in> L. 0 < pins s p}"
  proof (rule bij_betwI')
    fix f g assume "f \<in> frames s" "g \<in> frames s"
    then show "(pg_id (fr s f) = pg_id (fr s g)) = (f = g)" using slot [of f] slot [of g] by (metis option.inject)
  next
    fix f assume "f \<in> frames s"
    then show "pg_id (fr s f) \<in> {p \<in> L. 0 < pins s p}" using slot [of f] pinned by (simp add: pins_def)
  next
    fix p assume "p \<in> {p \<in> L. 0 < pins s p}"
    then obtain f where "table_find p s = Some f" by (auto simp: pins_def split: option.splits)
    then show "\<exists>f \<in> frames s. p = pg_id (fr s f)" using core_find [OF inv_core [OF inv]] by blast
  qed
  then have "card (frames s) = card {p \<in> L. 0 < pins s p}" by (rule bij_betw_same_card)
  then show ?thesis by (simp add: frames_def)
qed

lemma cache_relD:
  assumes "cache_rel s a"
  shows "pool_inv s (c_live a) (c_touched a)" and "bp_next_page_id s = c_next a"
    and "p \<in> c_live a \<Longrightarrow> content s p = c_data a p" and "p \<in> c_live a \<Longrightarrow> pins s p = c_pins a p"
  using assms unfolding cache_rel_def by blast+

lemma full_answer:
  assumes "cache_rel s a" and "bp_free_list s = []" and "\<And>f. f \<in> frames s \<Longrightarrow> 0 < pin_count (fr s f)"
  shows "pool_full a s"
proof -
  have "{p \<in> c_live a. 0 < c_pins a p} = {p \<in> c_live a. 0 < pins s p}" using cache_relD(4) [OF assms(1)] by auto
  then show ?thesis using pinned_pages_card [OF cache_relD(1) [OF assms(1)] assms(2,3)] by (simp add: pool_full_def)
qed

section \<open>The simulation\<close>

definition simulated :: "call \<Rightarrow> bpm \<Rightarrow> cache \<Rightarrow> bool" where
  "simulated c s a \<longleftrightarrow> (\<exists>r s'. exec c s = Inr (r, s') \<and> answer_ok c r a s' \<and> cache_rel s' (after c r a))"

lemma simulatedI: "exec c s = Inr (r, s') \<Longrightarrow> answer_ok c r a s' \<Longrightarrow> cache_rel s' (after c r a) \<Longrightarrow> simulated c s a"
  unfolding simulated_def by blast

lemma found_page:
  "pool_inv s L T \<Longrightarrow> table_find p s = Some f \<Longrightarrow> pg_id (fr s f) = p \<and> pg_data (fr s f) = content s p \<and> pin_count (fr s f) = pins s p"
  using mapped_frame(3) by (simp add: content_def pins_def)

lemma sim_New:
  assumes rel: "cache_rel s a" and "permitted New_Page a"
  shows "simulated New_Page s a"
proof (cases rule: NewPg_ok [OF cache_relD(1) [OF rel]])
  case 1
  then show ?case using assms cache_relD(2) [OF rel] by simp
next
  case 2
  then show ?thesis using full_answer [OF rel] rel by (intro simulatedI [where r = "Page_Of None"]) simp_all
next
  case (3 p g s')
  then show ?thesis using cache_relD [OF rel] found_page [OF 3(4,5)]
    by (intro simulatedI [where r = "Page_Of (Some (p, g))"]) (auto simp: cache_rel_def)
qed

lemma sim_Fetch:
  assumes rel: "cache_rel s a" and "permitted (Fetch_Page p) a"
  shows "simulated (Fetch_Page p) s a"
proof (cases "table_find p s")
  case None
  note inv = cache_relD(1) [OF rel]
  have p: "p \<in> c_live a" using assms(2) by simp
  have unpinned: "c_pins a p = 0" using cache_relD(4) [OF rel p] None by (simp add: pins_def)
  show ?thesis
  proof (cases rule: FetchPg_miss [OF inv p None])
    case 1
    then show ?thesis using full_answer [OF rel] rel by (intro simulatedI [where r = "Frame_Of None"]) simp_all
  next
    case (2 g s')
    then show ?thesis using cache_relD [OF rel] found_page [OF 2(2,3)] unpinned p
      by (intro simulatedI [where r = "Frame_Of (Some g)"]) (auto simp: cache_rel_def)
  qed
next
  case (Some f)
  obtain s' where s': "FetchPgImp p s = Inr (Some f, s')" "pool_inv s' (c_live a) (c_touched a)" "table_find p s' = Some f"
      "\<And>q. content s' q = content s q" "\<And>q. pins s' q = (if q = p then pins s p + 1 else pins s q)"
      "bp_next_page_id s' = bp_next_page_id s"
    by (rule FetchPg_hit [OF cache_relD(1) [OF rel] Some]) (rule that)
  then show ?thesis using cache_relD [OF rel] found_page [OF s'(2,3)] assms(2)
    by (intro simulatedI [where r = "Frame_Of (Some f)"]) (auto simp: cache_rel_def)
qed

lemma sim_Unpin:
  assumes rel: "cache_rel s a" and "permitted (Unpin_Page p d) a"
  shows "simulated (Unpin_Page p d) s a"
proof (cases "0 < c_pins a p")
  case True
  have p: "p \<in> c_live a" "d \<or> p \<notin> c_touched a \<or> 1 < c_pins a p" using assms(2) True by auto
  have pin: "0 < pins s p" "d \<or> p \<notin> c_touched a \<or> 1 < pins s p" using True p cache_relD(4) [OF rel p(1)] by simp_all
  obtain s' where s': "UnpinPgImp p d s = Inr (True, s')" "pool_inv s' (c_live a) (if d then c_touched a - {p} else c_touched a)"
      "\<And>q. content s' q = content s q" "\<And>q. pins s' q = (if q = p then pins s p - 1 else pins s q)"
      "bp_next_page_id s' = bp_next_page_id s"
    by (rule UnpinPg_ok [OF cache_relD(1) [OF rel] pin]) (rule that)
  show ?thesis using s' True cache_relD [OF rel] p(1)
    by (intro simulatedI [where r = "Done True" and s' = s']) (auto simp: cache_rel_def)
next
  case False
  then have "pins s p \<le> 0" using cache_relD(4) [OF rel, of p] assms(2) by simp
  then show ?thesis using UnpinPg_refused [OF cache_relD(1) [OF rel], of p d] False rel
    by (intro simulatedI [where r = "Done False" and s' = s]) simp_all
qed

lemma sim_Flush:
  assumes rel: "cache_rel s a" and "permitted (Flush_Page p) a"
  shows "simulated (Flush_Page p) s a"
proof (cases "table_find p s")
  case None
  then have "dm_page (bp_disk s) p = c_data a p" using cache_relD(3) [OF rel, of p] assms(2) by (simp add: content_def)
  then show ?thesis using FlushPg_unmapped [OF None] rel by (intro simulatedI [where r = "Done False" and s' = s]) simp_all
next
  case (Some f)
  obtain s' where s': "FlushPgImp p s = Inr (True, s')" "pool_inv s' (c_live a) (c_touched a)"
      "dm_page (bp_disk s') p = content s p" "\<And>q. content s' q = content s q" "\<And>q. pins s' q = pins s q"
      "bp_next_page_id s' = bp_next_page_id s"
    by (rule FlushPg_ok [OF cache_relD(1) [OF rel] Some]) (rule that)
  then show ?thesis using cache_relD [OF rel] assms(2)
    by (intro simulatedI [where r = "Done True" and s' = s']) (auto simp: cache_rel_def)
qed

lemma sim_Flush_All:
  assumes rel: "cache_rel s a"
  shows "simulated Flush_All s a"
proof -
  obtain s' where "FlushAllPgsImp s = Inr s'" "pool_inv s' (c_live a) (c_touched a)" "\<And>q. content s' q = content s q"
      "\<And>q. pins s' q = pins s q" "bp_next_page_id s' = bp_next_page_id s"
      "\<And>q. q \<in> c_live a \<Longrightarrow> dm_page (bp_disk s') q = content s q"
    by (rule FlushAll_ok [OF cache_relD(1) [OF rel]]) (rule that)
  then show ?thesis using cache_relD [OF rel]
    by (intro simulatedI [where r = "Done True" and s' = s']) (auto simp: cache_rel_def)
qed

lemma sim_Delete:
  assumes rel: "cache_rel s a" and "permitted (Delete_Page p) a"
  shows "simulated (Delete_Page p) s a"
proof (cases "pins s p = 0")
  case True
  have p: "p \<in> c_live a" using assms(2) by simp
  obtain s' where "DeletePgImp p s = Inr (True, s')" "pool_inv s' (c_live a - {p}) (c_touched a)"
      "\<And>q. q \<in> c_live a - {p} \<Longrightarrow> content s' q = content s q \<and> pins s' q = pins s q"
      "bp_next_page_id s' = bp_next_page_id s"
    by (rule DeletePg_ok [OF cache_relD(1) [OF rel] p True]) (rule that)
  then show ?thesis using cache_relD [OF rel] p True
    by (intro simulatedI [where r = "Done True" and s' = s']) (auto simp: cache_rel_def)
next
  case False
  have "0 \<le> pins s p" using mapped_frame(7) [OF cache_relD(1) [OF rel]] by (auto simp: pins_def split: option.splits)
  then have "0 < pins s p" using False by simp
  then show ?thesis using DeletePg_pinned [OF cache_relD(1) [OF rel]] cache_relD(4) [OF rel, of p] False rel assms(2)
    by (intro simulatedI [where r = "Done False" and s' = s]) simp_all
qed

lemma sim_Store:
  assumes rel: "cache_rel s a" and "permitted (Store_Page p x) a"
  shows "simulated (Store_Page p x) s a"
proof -
  have p: "p \<in> c_live a" "0 < pins s p" "length x = BUSTUB_PAGE_SIZE" using assms(2) cache_relD(4) [OF rel, of p] by auto
  then obtain f where f: "table_find p s = Some f" by (auto simp: pins_def split: option.splits)
  note st = client_store_ok [OF cache_relD(1) [OF rel] f p(2,3)]
  have "bp_next_page_id (client_store f x s) = bp_next_page_id s" by (simp add: client_store_def)
  then show ?thesis using st cache_relD [OF rel] f p(1)
    by (intro simulatedI [where r = "Done True" and s' = "client_store f x s"]) (auto simp: cache_rel_def)
qed

lemma exec_simulates: "cache_rel s a \<Longrightarrow> permitted c a \<Longrightarrow> simulated c s a"
  by (cases c) (auto intro: sim_New sim_Fetch sim_Unpin sim_Flush sim_Flush_All sim_Delete sim_Store simp del: permitted.simps)

section \<open>All sequences of calls\<close>

definition empty_cache :: cache where
  "empty_cache = \<lparr>c_live = {}, c_data = (\<lambda>_. []), c_pins = (\<lambda>_. 0), c_touched = {}, c_next = 0\<rparr>"

inductive pool_run :: "nat \<Rightarrow> nat \<Rightarrow> bpm \<Rightarrow> cache \<Rightarrow> bool" for n k where
  start: "1 \<le> k \<Longrightarrow> n < 2147483648 \<Longrightarrow> pool_run n k (new_bpm n (new_disk_manager [] []) k) empty_cache"
| step: "pool_run n k s a \<Longrightarrow> permitted c a \<Longrightarrow> exec c s = Inr (r, s') \<Longrightarrow> pool_run n k s' (after c r a)"

lemma new_bpm_rel:
  assumes "1 \<le> k" and "n < 2147483648"
  shows "cache_rel (new_bpm n (new_disk_manager [] []) k) empty_cache"
proof -
  let ?s = "new_bpm n (new_disk_manager [] []) k"
  have find: "table_find p ?s = None" for p by (simp add: table_find_def new_bpm_def Find_new)
  have frs: "frames ?s = {0..<int n}" by (simp add: frames_def new_bpm_def)
  have fr: "fr ?s f = new_page" if "f \<in> frames ?s" for f
    using that unfolding frs by (simp add: fr_def new_bpm_def nat_less_iff)
  have tab: "page_table_inv (new_eht 4 :: (page_id, frame_id) eht)" by (simp add: page_table_inv_def eht_inv_new) (simp add: new_eht_def)
  have view: "lruk_view (new_lruk n k) f = None" for f by (simp add: lruk_view_def new_lruk_def)
  have free: "set (bp_free_list ?s) = frames ?s" "distinct (bp_free_list ?s)"
    unfolding frs using assms(2) by (auto simp: new_bpm_def distinct_map image_int_atLeastLessThan)
  have "pool_core ?s {}"
    using tab new_lruk_ok [OF assms] find fr free unfolding pool_core_def
    by (auto simp: new_page_def) (auto simp: new_bpm_def new_disk_manager_def dm_inv_def dm_page_def byte_slice_padded zero_page_def)
  moreover have "slot_ok ?s {} {} f" if "f \<in> frames ?s" for f
    using that free fr [OF that] view [of f] by (simp add: slot_ok_def stale_def new_page_def) (simp add: new_bpm_def)
  ultimately have "pool_inv ?s {} {}" by (simp add: pool_inv_def)
  then show ?thesis by (simp add: cache_rel_def empty_cache_def) (simp add: new_bpm_def)
qed

lemma run_rel: "pool_run n k s a \<Longrightarrow> cache_rel s a"
proof (induction rule: pool_run.induct)
  case start
  then show ?case by (rule new_bpm_rel)
next
  case (step s a c r s')
  then show ?case using exec_simulates [OF step.IH step.hyps(2)] by (auto simp: simulated_def)
qed

text \<open>The array of frames never changes its size.\<close>

lemmas pool_size_defs = ebind_def Let_def AllocatePage_def table_insert_def table_remove_def evict_frame_def
  record_frame_def remove_frame_def set_evictable_def modify_frame_def client_store_def get_frame_def

lemma take_frame_size: "take_frame s = Inr (r, s') \<Longrightarrow> length (bp_pages s') = length (bp_pages s)"
  by (auto simp: take_frame_def pool_size_defs split: list.splits option.splits sum.splits)

lemma clean_frame_size: "clean_frame f s = Inr s' \<Longrightarrow> length (bp_pages s') = length (bp_pages s)"
  by (auto simp: clean_frame_def pool_size_defs split: if_splits)

lemma install_page_size: "install_page f p s = Inr s' \<Longrightarrow> length (bp_pages s') = length (bp_pages s)"
  by (auto simp: install_page_def pool_size_defs split: option.splits sum.splits)

lemma FlushPg_size: "FlushPgImp p s = Inr (r, s') \<Longrightarrow> length (bp_pages s') = length (bp_pages s)"
  by (auto simp: FlushPgImp_def pool_size_defs split: if_splits option.splits)

lemma flush_frames_size: "flush_frames is s = Inr s' \<Longrightarrow> length (bp_pages s') = length (bp_pages s)"
proof (induction "is" s rule: flush_frames.induct)
  case (2 i "is" s)
  obtain pg where pg: "get_frame (int i) s = Inr pg" using "2.prems" by (cases "get_frame (int i) s") auto
  obtain r s1 where s1: "FlushPgImp (pg_id pg) s = Inr (r, s1)" using "2.prems" pg by (cases "FlushPgImp (pg_id pg) s") auto
  have "flush_frames is s1 = Inr s'" using "2.prems" pg s1 by simp
  then show ?case using "2.IH" FlushPg_size [OF s1] by simp
qed simp

lemma NewPg_size: "NewPgImp s = Inr (r, s') \<Longrightarrow> length (bp_pages s') = length (bp_pages s)"
  by (auto simp: NewPgImp_def ebind_def AllocatePage_def Let_def dest!: take_frame_size clean_frame_size install_page_size
      split: sum.splits option.splits)

lemma FetchPg_size: "FetchPgImp p s = Inr (r, s') \<Longrightarrow> length (bp_pages s') = length (bp_pages s)"
  by (auto simp: FetchPgImp_def pool_size_defs dest!: take_frame_size clean_frame_size install_page_size
      split: sum.splits option.splits prod.splits if_splits)

lemma exec_size:
  assumes "exec c s = Inr (r, s')"
  shows "length (bp_pages s') = length (bp_pages s)"
proof (cases c)
  case New_Page
  then show ?thesis using assms NewPg_size by (auto simp: ebind_def split: sum.splits)
next
  case (Fetch_Page p)
  then show ?thesis using assms FetchPg_size by (auto simp: ebind_def split: sum.splits)
next
  case (Unpin_Page p d)
  then show ?thesis using assms by (auto simp: UnpinPgImp_def pool_size_defs split: sum.splits option.splits if_splits)
next
  case (Flush_Page p)
  then show ?thesis using assms FlushPg_size by (auto simp: ebind_def split: sum.splits)
next
  case Flush_All
  then show ?thesis using assms flush_frames_size by (auto simp: ebind_def FlushAllPgsImp_def split: sum.splits)
next
  case (Delete_Page p)
  then show ?thesis using assms by (auto simp: DeletePgImp_def pool_size_defs split: sum.splits option.splits if_splits)
next
  case (Store_Page p x)
  then show ?thesis using assms by (auto simp: pool_size_defs split: option.splits)
qed

lemma run_size: "pool_run n k s a \<Longrightarrow> length (bp_pages s) = n"
  by (induction rule: pool_run.induct) (auto simp: exec_size new_bpm_def)

text \<open>C1. The buffer pool is a transparent cache. Start it with any number of frames below \<open>2\<^sup>3\<^sup>1\<close>, so that
  frame ids fit their type, and any \<open>k\<close> of at least one on an empty database file, and make any sequence of calls that follows the
  client protocol: the next such call returns, no component throws, blocks or loops, the answer is
  that of the abstract cache, and the state again represents it. In particular a fetched page has
  the contents last stored into it, whatever was evicted, written back and reloaded in between,
  and a page is refused only when as many pages are pinned as there are frames.\<close>

theorem pool_is_transparent_cache:
  assumes "pool_run n k s a" and "permitted c a"
  shows "\<exists>r s'. exec c s = Inr (r, s') \<and> answer_ok c r a s' \<and> pool_run n k s' (after c r a) \<and> length (bp_pages s') = n"
  using exec_simulates [OF run_rel [OF assms(1)] assms(2)] pool_run.step [OF assms] run_size by (auto simp: simulated_def)

theorem pool_is_transparent_cache_witness:
  "\<exists>s a r s'. pool_run 3 2 s a \<and> 0 \<in> c_live a \<and> c_data a 0 = replicate BUSTUB_PAGE_SIZE 7 \<and>
     exec (Fetch_Page 0) s = Inr (r, s') \<and> answer_ok (Fetch_Page 0) r a s'"
proof -
  let ?a = "\<lparr>c_live = {0}, c_data = (\<lambda>_. [])(0 := zero_page), c_pins = (\<lambda>_. 0)(0 := 1), c_touched = {}, c_next = 1\<rparr>"
  let ?x = "replicate BUSTUB_PAGE_SIZE 7"
  have r0: "pool_run 3 2 (new_bpm 3 (new_disk_manager [] []) 2) empty_cache" by (rule start) simp_all
  have "\<exists>r s'. exec New_Page (new_bpm 3 (new_disk_manager [] []) 2) = Inr (r, s') \<and>
      answer_ok New_Page r empty_cache s' \<and> pool_run 3 2 s' (after New_Page r empty_cache) \<and> length (bp_pages s') = 3"
    by (rule pool_is_transparent_cache [OF r0]) (simp add: empty_cache_def)
  then obtain r s1 where s1: "exec New_Page (new_bpm 3 (new_disk_manager [] []) 2) = Inr (r, s1)"
      "answer_ok New_Page r empty_cache s1" "pool_run 3 2 s1 (after New_Page r empty_cache)" by blast
  obtain f where "r = Page_Of (Some (0, f))"
    using s1(1,2) by (auto simp: new_bpm_def NewPgImp_def take_frame_def upt_rec empty_cache_def ebind_def Let_def
        split: sum.splits prod.splits response.splits option.splits)
  then have r1: "pool_run 3 2 s1 ?a" using s1(3) by (simp add: empty_cache_def)
  obtain r2 s2 where s2: "pool_run 3 2 s2 (after (Store_Page 0 ?x) r2 ?a)"
    using pool_is_transparent_cache [OF r1, of "Store_Page 0 ?x"] by auto
  show ?thesis
    using pool_is_transparent_cache [OF s2, of "Fetch_Page 0"] s2
    by (intro exI [of _ s2] exI [of _ "after (Store_Page 0 ?x) r2 ?a"]) auto
qed

text \<open>C7. In every state that permitted calls can reach, each frame is in exactly one of two places.
  Either it is free: on the free list once, mapped by no page and unknown to the replacer. Or it
  holds a page in use: the page table maps exactly that page to it, the replacer may evict it
  exactly when its pin count is zero, and if it is neither pinned nor dirty its memory agrees with
  the disk, so dropping it loses nothing.\<close>

theorem frames_free_or_mapped:
  assumes "pool_run n k s a" and "0 \<le> f" and "f < int n"
  shows "let pg = bp_pages s ! nat f in
    f \<in> set (bp_free_list s) \<and> distinct (bp_free_list s) \<and> (\<forall>p. table_find p s \<noteq> Some f) \<and> lruk_view (bp_replacer s) f = None \<or>
    f \<notin> set (bp_free_list s) \<and> pg_id pg \<in> c_live a \<and> (\<forall>p. table_find p s = Some f \<longleftrightarrow> p = pg_id pg) \<and>
    lruk_view (bp_replacer s) f = Some (pin_count pg = 0) \<and> 0 \<le> pin_count pg \<and>
    (pin_count pg = 0 \<and> \<not> is_dirty pg \<longrightarrow> pg_data pg = dm_page (bp_disk s) (pg_id pg))"
proof -
  note inv = cache_relD(1) [OF run_rel [OF assms(1)]]
  note core = inv_core [OF inv]
  have f: "f \<in> frames s" using assms(2,3) run_size [OF assms(1)] by (simp add: frames_iff)
  have pg: "bp_pages s ! nat f = fr s f" by (simp add: fr_def)
  show ?thesis
  proof (cases "f \<in> set (bp_free_list s)")
    case True
    have "table_find p s \<noteq> Some f" for p
      using inv_slot [OF inv f] True core_find [OF core, of p f] by (auto simp: slot_ok_def stale_def)
    then show ?thesis using inv_slot [OF inv f] True core_free(1) [OF core] by (simp add: slot_ok_def Let_def)
  next
    case False
    then have slot: "resident s (c_live a) (c_touched a) f" "lruk_view (bp_replacer s) f = Some (pin_count (fr s f) = 0)"
        "pin_count (fr s f) = 0 \<longrightarrow> pg_id (fr s f) \<notin> c_touched a"
      using inv_slot [OF inv f] by (simp_all add: slot_ok_def)
    have "table_find p s = Some f \<longleftrightarrow> p = pg_id (fr s f)" for p
      using slot(1) core_find [OF core, of p f] by (auto simp: resident_def)
    then show ?thesis using False slot by (auto simp: pg resident_def Let_def)
  qed
qed

theorem frames_free_or_mapped_witness:
  "\<exists>s a f. pool_run 2 2 s a \<and> table_find 0 s = Some f \<and> f \<notin> set (bp_free_list s) \<and> lruk_view (bp_replacer s) f = Some False"
proof -
  let ?s0 = "new_bpm 2 (new_disk_manager [] []) 2" and ?a = "\<lparr>c_live = {0}, c_data = (\<lambda>_. [])(0 := zero_page), c_pins = (\<lambda>_. 0)(0 := 1), c_touched = {}, c_next = 1\<rparr>"
  have r0: "pool_run 2 2 ?s0 empty_cache" by (rule start) simp_all
  have new: "permitted New_Page empty_cache" by (simp add: empty_cache_def)
  obtain r s where s: "exec New_Page ?s0 = Inr (r, s)" "answer_ok New_Page r empty_cache s"
    using exec_simulates [OF run_rel [OF r0] new] by (auto simp: simulated_def)
  obtain g where "r = Page_Of (Some (0, g))"
    using s by (auto simp: new_bpm_def NewPgImp_def take_frame_def upt_rec empty_cache_def ebind_def Let_def
        split: sum.splits prod.splits response.splits option.splits)
  then have run: "pool_run 2 2 s ?a" using pool_run.step [OF r0 new s(1)] by (simp add: empty_cache_def)
  note rel = run_rel [OF run]
  have "pins s 0 = 1" using rel by (simp add: cache_rel_def)
  then obtain f where f: "table_find 0 s = Some f" "pin_count (fr s f) = 1" by (auto simp: pins_def split: option.splits)
  have "f \<in> frames s" using mapped_frame [OF cache_relD(1) [OF rel] f(1)] by simp
  then have "0 \<le> f" "f < int 2" using run_size [OF run] by (simp_all add: frames_iff)
  from frames_free_or_mapped [OF run this] show ?thesis using run f by (auto simp: Let_def fr_def)
qed

section \<open>What deletion leaves behind\<close>

text \<open>The components alone, without the protocol: enough to follow single calls.\<close>

definition parts_ok :: "bpm \<Rightarrow> bool" where
  "parts_ok s \<longleftrightarrow> page_table_inv (bp_table s) \<and> lruk_ok (length (bp_pages s)) (bp_replacer s)"

text \<open>A frame \<open>g\<close> from the free list is loaded with page \<open>p\<close>: the page whose id it still carries is
  unmapped.\<close>

definition loaded :: "bpm \<Rightarrow> frame_id \<Rightarrow> page_id \<Rightarrow> bpm \<Rightarrow> bool" where
  "loaded s g p s' \<longleftrightarrow> parts_ok s' \<and> length (bp_pages s') = length (bp_pages s) \<and>
     (\<forall>q. table_find q s' = (if q = p then Some g else if q = pg_id (fr s g) then None else table_find q s)) \<and>
     (\<forall>f \<in> frames s. f \<noteq> g \<longrightarrow> fr s' f = fr s f) \<and> pg_id (fr s' g) = p \<and> pin_count (fr s' g) = 1 \<and>
     lruk_view (bp_replacer s') = (lruk_view (bp_replacer s))(g \<mapsto> False)"

lemma install_free_frame:
  assumes ok: "parts_ok s" and g: "g \<in> frames s" and e: "clean_effect s g s1"
  shows "\<exists>s'. install_page g p (modify_frame g h (s1\<lparr>bp_disk := d\<rparr>)) = Inr s' \<and> loaded s g p s' \<and>
    bp_free_list s' = bp_free_list s \<and> bp_next_page_id s' = bp_next_page_id s"
proof -
  let ?s1 = "modify_frame g h (s1\<lparr>bp_disk := d\<rparr>)"
  note same = ce_same [OF e]
  have rep: "lruk_ok (length (bp_pages ?s1)) (bp_replacer ?s1)" and g1: "g \<in> frames ?s1" and tab: "page_table_inv (bp_table ?s1)"
    using ok g ce_table [OF e] by (simp_all add: parts_ok_def same)
  obtain t r where i: "install_page g p ?s1 = Inr (modify_frame g (\<lambda>pg. pg\<lparr>pg_id := p, pin_count := 1\<rparr>)
        (?s1\<lparr>bp_table := t, bp_replacer := r\<rparr>))" and t: "page_table_inv t" "Find hash_page_id t = (Find hash_page_id (bp_table ?s1))(p \<mapsto> g)"
    and r: "lruk_ok (length (bp_pages ?s1)) r" "lruk_view r = (lruk_view (bp_replacer ?s1))(g \<mapsto> False)"
    by (rule install_page_effect [OF tab rep g1])
  define s' where "s' = modify_frame g (\<lambda>pg. pg\<lparr>pg_id := p, pin_count := 1\<rparr>) (?s1\<lparr>bp_table := t, bp_replacer := r\<rparr>)"
  have find: "table_find q s' = (if q = p then Some g else if q = pg_id (fr s g) then None else table_find q s)" for q
    using t(2) ce_find [OF e, of q] by (auto simp: s'_def table_find_def)
  have "loaded s g p s'"
    unfolding loaded_def using find g g1 same t r ce_fr [OF e] by (simp add: parts_ok_def) (simp add: s'_def same)
  moreover have "bp_free_list s' = bp_free_list s" "bp_next_page_id s' = bp_next_page_id s" by (simp_all add: s'_def same)
  ultimately show ?thesis using i by (auto simp: s'_def)
qed

lemma loaded_update [simp]:
  "loaded (s\<lparr>bp_free_list := fs\<rparr>) g p s' = loaded s g p s'" "loaded (s\<lparr>bp_next_page_id := q\<rparr>) g p s' = loaded s g p s'"
  by (simp_all add: loaded_def)

lemma NewPg_free_frame:
  assumes ok: "parts_ok s" and fl: "bp_free_list s = g # fs" and g: "g \<in> frames s"
  shows "\<exists>s'. NewPgImp s = Inr (Some (bp_next_page_id s, g), s') \<and> loaded s g (bp_next_page_id s) s' \<and>
    bp_free_list s' = fs \<and> bp_next_page_id s' = bp_next_page_id s + 1"
proof -
  let ?s = "s\<lparr>bp_free_list := fs, bp_next_page_id := bp_next_page_id s + 1\<rparr>"
  have ok': "parts_ok ?s" "g \<in> frames ?s" "page_table_inv (bp_table ?s)" using ok g by (simp_all add: parts_ok_def)
  obtain s1 where s1: "clean_frame g ?s = Inr s1" "clean_effect ?s g s1"
    using clean_frame_effect [OF ok'(3,2)] by blast
  have id: "modify_frame g (\<lambda>pg. pg) (s1\<lparr>bp_disk := bp_disk s1\<rparr>) = s1" by (simp add: modify_frame_def)
  show ?thesis
    using install_free_frame [OF ok'(1,2) s1(2), of "bp_next_page_id s" "\<lambda>pg. pg" "bp_disk s1", unfolded id] fl s1(1)
    by (auto simp: NewPgImp_def take_frame_def AllocatePage_def)
qed

lemma FetchPg_free_frame:
  assumes ok: "parts_ok s" and fl: "bp_free_list s = g # fs" and g: "g \<in> frames s" and p: "table_find p s = None"
  shows "\<exists>s'. FetchPgImp p s = Inr (Some g, s') \<and> loaded s g p s' \<and> bp_free_list s' = fs \<and>
    bp_next_page_id s' = bp_next_page_id s"
proof -
  let ?s = "s\<lparr>bp_free_list := fs\<rparr>"
  have ok': "parts_ok ?s" "g \<in> frames ?s" "page_table_inv (bp_table ?s)" using ok g by (simp_all add: parts_ok_def)
  obtain s1 where s1: "clean_frame g ?s = Inr s1" "clean_effect ?s g s1"
    using clean_frame_effect [OF ok'(3,2)] by blast
  obtain x d where rd: "ReadPage p (pg_data (fr s1 g)) (bp_disk s1) = (x, d)" by (meson surj_pair)
  have "g \<in> frames s1" using ce_same(4) [OF s1(2)] g by simp
  then show ?thesis
    using install_free_frame [OF ok'(1,2) s1(2), of p "\<lambda>pg. pg\<lparr>pg_data := x\<rparr>" d] fl p s1(1) rd
    by (auto simp: FetchPgImp_def take_frame_def)
qed

lemma Unpin_Delete:
  assumes ok: "parts_ok s" and p: "table_find p s = Some f" "p \<noteq> INVALID_PAGE_ID" and f: "f \<in> frames s" "pin_count (fr s f) = 1"
    and v: "lruk_view (bp_replacer s) f = Some False"
  shows "\<exists>s1 s2. UnpinPgImp p True s = Inr (True, s1) \<and> DeletePgImp p s1 = Inr (True, s2) \<and> parts_ok s2 \<and>
    length (bp_pages s2) = length (bp_pages s) \<and> bp_next_page_id s2 = bp_next_page_id s \<and>
    bp_free_list s2 = bp_free_list s @ [f] \<and> pg_id (fr s2 f) = pg_id (fr s f) \<and> is_dirty (fr s2 f) \<and>
    (\<forall>g \<in> frames s. g \<noteq> f \<longrightarrow> fr s2 g = fr s g) \<and> (\<forall>q. table_find q s2 = (if q = p then None else table_find q s))"
proof -
  let ?r = "LRUK_SetEvictable f True (bp_replacer s)"
  have ok': "page_table_inv (bp_table s)" "lruk_ok (length (bp_pages s)) (bp_replacer s)" using ok by (simp_all add: parts_ok_def)
  define s1 where "s1 = modify_frame f (\<lambda>pg. pg\<lparr>is_dirty := True\<rparr>)
      (set_evictable f True (modify_frame f (\<lambda>pg. pg\<lparr>pin_count := pin_count pg - 1\<rparr>) s))"
  have u: "UnpinPgImp p True s = Inr (True, s1)" using p f by (simp add: UnpinPgImp_def s1_def)
  have s1: "bp_table s1 = bp_table s" "bp_replacer s1 = ?r" "bp_free_list s1 = bp_free_list s" "frames s1 = frames s"
    "length (bp_pages s1) = length (bp_pages s)" "bp_next_page_id s1 = bp_next_page_id s"
    by (simp_all add: s1_def set_evictable_def)
  have fr1: "fr s1 g = (if g = f then (fr s f)\<lparr>pin_count := 0, is_dirty := True\<rparr> else fr s g)" if "g \<in> frames s" for g
    using that f by (simp add: s1_def set_evictable_def)
  obtain r where r: "LRUK_Remove f ?r = Inr r" "lruk_ok (length (bp_pages s)) r"
    using rp.remove_law [OF rp.set_inv [OF ok'(2), of f True], of f] rp.set_view [OF ok'(2), of f True] v by auto
  define s2 where "s2 = (table_remove p ((modify_frame f ResetMemory s1)\<lparr>bp_replacer := r\<rparr>))\<lparr>bp_free_list := bp_free_list s @ [f]\<rparr>"
  have find1: "table_find q s1 = table_find q s" for q by (simp add: table_find_def s1)
  have d: "DeletePgImp p s1 = Inr (True, s2)"
    using p f(1) r(1) fr1 [OF f(1)] by (simp add: DeletePgImp_def find1 s1 remove_frame_def s2_def)
  have "table_find q s2 = (if q = p then None else table_find q s)" for q
    using ok'(1) by (simp add: s2_def table_find_remove s1 find1)
  moreover have "parts_ok s2" using ok'(1) r(2) by (simp add: parts_ok_def s2_def s1 table_remove_inv)
  moreover have "fr s2 g = (if g = f then ResetMemory (fr s1 f) else fr s1 g)" if "g \<in> frames s" for g
    using that f(1) by (simp add: s2_def s1)
  ultimately show ?thesis using u d f(1) fr1
    by (intro exI [of _ s1] exI [of _ s2]) (simp add: ResetMemory_def, simp add: s2_def s1)
qed

text \<open>\<^verbatim>\<open>DeletePgImp\<close> clears the memory of the frame but keeps its page id and its dirty flag. A
  client that creates page 0, gives it back as dirty, deletes it, fetches it again and then
  creates another page ends with page 0 pinned in frame 1 but no longer in the page table: the new
  page took over frame 0, and cleaning that frame unmapped the page whose id it still carried. The
  pin of page 0 can no longer be given up.\<close>

theorem deleted_page_refetched_is_lost:
  "\<exists>s1 s2 s3 s4 s5.
     NewPgImp (new_bpm 2 (new_disk_manager [] []) 2) = Inr (Some (0, 0), s1) \<and>
     UnpinPgImp 0 True s1 = Inr (True, s2) \<and> DeletePgImp 0 s2 = Inr (True, s3) \<and>
     FetchPgImp 0 s3 = Inr (Some 1, s4) \<and> NewPgImp s4 = Inr (Some (1, 0), s5) \<and>
     pg_id (fr s5 1) = 0 \<and> pin_count (fr s5 1) = 1 \<and> table_find 0 s5 = None \<and>
     UnpinPgImp 0 False s5 = Inr (False, s5)"
proof -
  let ?s0 = "new_bpm 2 (new_disk_manager [] []) 2"
  have "pool_run 2 2 ?s0 empty_cache" by (rule start) simp_all
  then have ok0: "parts_ok ?s0"
    using core_table core_lruk inv_core cache_relD(1) run_rel unfolding parts_ok_def by blast
  have s0: "bp_free_list ?s0 = [0, 1]" "bp_next_page_id ?s0 = 0" "length (bp_pages ?s0) = 2"
    by (simp_all add: new_bpm_def upt_rec)
  have g0: "0 \<in> frames ?s0" using s0(3) by (simp add: frames_iff)
  have g0: "0 \<in> frames ?s0" using s0(3) by (simp add: frames_iff)
  obtain s1 where s1: "NewPgImp ?s0 = Inr (Some (0, 0), s1)" "loaded ?s0 0 0 s1" "bp_free_list s1 = [1]" "bp_next_page_id s1 = 1"
    using NewPg_free_frame [OF ok0 s0(1) g0] s0(2) by auto
  have l1: "parts_ok s1" "table_find 0 s1 = Some 0" "0 \<in> frames s1" "pin_count (fr s1 0) = 1" "length (bp_pages s1) = 2"
      "lruk_view (bp_replacer s1) 0 = Some False" "pg_id (fr s1 0) = 0"
    using s1(2) s0(3) by (simp_all add: loaded_def frames_iff)
  have inv: "(0 :: page_id) \<noteq> INVALID_PAGE_ID" by (simp add: INVALID_PAGE_ID_def)
  obtain s2 s3 where s3: "UnpinPgImp 0 True s1 = Inr (True, s2)" "DeletePgImp 0 s2 = Inr (True, s3)" "parts_ok s3"
      "length (bp_pages s3) = 2" "bp_next_page_id s3 = 1" "bp_free_list s3 = [1, 0]" "pg_id (fr s3 0) = 0" "table_find 0 s3 = None"
    using Unpin_Delete [OF l1(1,2) inv l1(3,4,6)] l1(5,7) s1(3,4) by auto
  have g3: "1 \<in> frames s3" using s3(4) by (simp add: frames_iff)
  obtain s4 where s4: "FetchPgImp 0 s3 = Inr (Some 1, s4)" "loaded s3 1 0 s4" "bp_free_list s4 = [0]" "bp_next_page_id s4 = 1"
    using FetchPg_free_frame [OF s3(3,6) g3 s3(8)] s3(5) by auto
  have l4: "parts_ok s4" "0 \<in> frames s4" "1 \<in> frames s4" "pg_id (fr s4 0) = 0" "pg_id (fr s4 1) = 0" "pin_count (fr s4 1) = 1"
    using s4(2) s3(4,7) by (simp_all add: loaded_def frames_iff)
  obtain s5 where s5: "NewPgImp s4 = Inr (Some (1, 0), s5)" "loaded s4 0 1 s5"
    using NewPg_free_frame [OF l4(1) s4(3) l4(2)] s4(4) by auto
  have l5: "table_find 0 s5 = None" "pg_id (fr s5 1) = 0" "pin_count (fr s5 1) = 1"
    using s5(2) l4 by (simp_all add: loaded_def)
  then have "UnpinPgImp 0 False s5 = Inr (False, s5)" by (simp add: UnpinPgImp_def)
  then show ?thesis using s1(1) s3(1,2) s4(1) s5(1) l5 by blast
qed

end
