(* ===== verification/Cpp_Types.thy ===== *)
theory Cpp_Types
  imports Prelude "HOL-Library.Signed_Division"
begin

text \<open>
  What the type system uses of C++ and its standard library: signed integers of a width
  given at run time (wrap-around written out, the widths being template arguments of the
  code), \<^verbatim>\<open>std::to_string\<close> and \<^verbatim>\<open>std::stoi\<close>/\<^verbatim>\<open>std::stoll\<close>, \<^verbatim>\<open>tolower\<close>, \<^verbatim>\<open>memcmp\<close>, and the
  little-endian bytes of an object.  The operations of \<^verbatim>\<open>double\<close> are a parameter: a record
  of functions that every definition using them takes as an argument.
\<close>

section \<open>Exceptions\<close>

text \<open>\<^verbatim>\<open>ExceptionType\<close> of \<^verbatim>\<open>common/exception.h\<close>, the two exceptions of \<^verbatim>\<open>std::stoi\<close>, the one of \<^verbatim>\<open>UNREACHABLE\<close>, a failed
  \<^verbatim>\<open>assert\<close>, a call through a null pointer, a trapping division and an access outside an
  object.  An exception built from a message alone has the type \<^verbatim>\<open>INVALID\<close>.\<close>

datatype exc =
    INVALID_EXC
  | OUT_OF_RANGE
  | CONVERSION
  | UNKNOWN_TYPE
  | DECIMAL_EXC
  | MISMATCH_TYPE
  | DIVIDE_BY_ZERO
  | INCOMPATIBLE_TYPE
  | OUT_OF_MEMORY
  | NOT_IMPLEMENTED
  | Std_Out_Of_Range
  | Std_Invalid_Argument
  | Assert_Failed
  | Null_Deref
  | Arith_Trap
  | Out_Of_Bounds
  | Std_Logic_Error

text \<open>\<^verbatim>\<open>catch (std::out_of_range &e) { throw Exception(OUT_OF_RANGE, ...) }\<close>\<close>

definition catch_out_of_range :: "exc + 'a \<Rightarrow> exc + 'a" where
  "catch_out_of_range m = (case m of Inl e \<Rightarrow> Inl (if e = Std_Out_Of_Range then OUT_OF_RANGE else e) | Inr a \<Rightarrow> Inr a)"

definition assert_that :: "bool \<Rightarrow> exc + 'a \<Rightarrow> exc + 'a" where
  "assert_that b m = (if b then m else Inl Assert_Failed)"

lemma assert_that_simps [simp]: "assert_that True m = m" "assert_that False m = Inl Assert_Failed"
  by (simp_all add: assert_that_def)

lemma catch_out_of_range_simps [simp]:
  "catch_out_of_range (Inr a) = Inr a" "catch_out_of_range (Inl Std_Out_Of_Range) = Inl OUT_OF_RANGE"
  "catch_out_of_range (Inl Std_Invalid_Argument) = Inl Std_Invalid_Argument"
  by (simp_all add: catch_out_of_range_def)

section \<open>Signed integers\<close>

text \<open>Conversion of a mathematical integer to a signed integer of \<open>w\<close> bits.\<close>

definition wrap :: "nat \<Rightarrow> int \<Rightarrow> int" where
  "wrap w n = (n + 2 ^ (w - 1)) mod 2 ^ w - 2 ^ (w - 1)"

definition fits :: "nat \<Rightarrow> int \<Rightarrow> bool" where
  "fits w n \<longleftrightarrow> - (2 ^ (w - 1)) \<le> n \<and> n < 2 ^ (w - 1)"

text \<open>The type in which two operands are combined (integral promotion, then the usual
  arithmetic conversions).\<close>

definition common :: "nat \<Rightarrow> nat \<Rightarrow> nat" where
  "common T1 T2 = (if T1 \<le> 32 \<and> T2 \<le> 32 then 32 else 64)"

text \<open>Division and remainder truncate; the one quotient that does not fit traps.\<close>

definition int_div :: "nat \<Rightarrow> int \<Rightarrow> int \<Rightarrow> exc + int" where
  "int_div w x y = (if x = - (2 ^ (w - 1)) \<and> y = - 1 then Inl Arith_Trap else Inr (x sdiv y))"

definition int_mod :: "nat \<Rightarrow> int \<Rightarrow> int \<Rightarrow> exc + int" where
  "int_mod w x y = (if x = - (2 ^ (w - 1)) \<and> y = - 1 then Inl Arith_Trap else Inr (x smod y))"

lemma two_pow_split: "0 < w \<Longrightarrow> (2 :: int) ^ w = 2 * 2 ^ (w - 1)"
  by (cases w) simp_all

lemma wrap_eq_iff: "0 < w \<Longrightarrow> wrap w n = n \<longleftrightarrow> fits w n"
proof -
  assume w: "0 < w"
  have "wrap w n = n \<longleftrightarrow> (n + 2 ^ (w - 1)) mod 2 ^ w = n + 2 ^ (w - 1)"
    unfolding wrap_def by arith
  also have "\<dots> \<longleftrightarrow> 0 \<le> n + 2 ^ (w - 1) \<and> n + 2 ^ (w - 1) < 2 ^ w"
    by (metis mod_pos_pos_trivial pos_mod_bound pos_mod_sign zero_less_numeral zero_less_power)
  also have "\<dots> \<longleftrightarrow> fits w n"
    using two_pow_split [OF w] by (auto simp: fits_def)
  finally show ?thesis .
qed

lemma wrap_id [simp]: "0 < w \<Longrightarrow> fits w n \<Longrightarrow> wrap w n = n"
  by (simp add: wrap_eq_iff)

lemma fits_wrap [simp]: "0 < w \<Longrightarrow> fits w (wrap w n)"
proof -
  assume w: "0 < w"
  have "0 \<le> (n + 2 ^ (w - 1)) mod 2 ^ w \<and> (n + 2 ^ (w - 1)) mod 2 ^ w < (2 :: int) ^ w"
    by simp
  then show "fits w (wrap w n)"
    using two_pow_split [OF w] by (auto simp: fits_def wrap_def)
qed

lemma wrap_wrap [simp]: "0 < w \<Longrightarrow> wrap w (wrap w n) = wrap w n"
  by simp

lemma fits_mono: "v \<le> w \<Longrightarrow> fits v n \<Longrightarrow> fits w n"
proof -
  assume "v \<le> w" "fits v n"
  moreover have "(2 :: int) ^ (v - 1) \<le> 2 ^ (w - 1)" using \<open>v \<le> w\<close> by (intro power_increasing) auto
  ultimately show ?thesis unfolding fits_def by linarith
qed

lemma wrap_diff_multiple: "\<exists>k. wrap w n = n - k * 2 ^ w"
proof
  show "wrap w n = n - (n + 2 ^ (w - 1)) div 2 ^ w * 2 ^ w"
    unfolding wrap_def by (simp add: minus_div_mult_eq_mod [symmetric])
qed

lemma fits_sint: "fits LENGTH('a) (sint (x :: 'a::len word))"
  using sint_lt [of x] by (simp add: fits_def sint_greater_eq)

lemma sint_word_of_int:
  "fits LENGTH('a) n \<Longrightarrow> sint (word_of_int n :: 'a::len word) = n"
  by (simp add: fits_def signed_take_bit_int_eq_self sint_sbintrunc')

section \<open>Text\<close>

fun nat_digits :: "nat \<Rightarrow> string" where
  "nat_digits n = (if n < 10 then [char_of (48 + n)]
                   else nat_digits (n div 10) @ [char_of (48 + n mod 10)])"

declare nat_digits.simps [simp del]

definition to_string :: "int \<Rightarrow> string" where
  "to_string i = (if i < 0 then CHR ''-'' # nat_digits (nat (- i)) else nat_digits (nat i))"

definition char_code :: "char \<Rightarrow> nat" where
  "char_code c = of_char c"

definition isspace :: "char \<Rightarrow> bool" where
  "isspace c \<longleftrightarrow> char_code c = 32 \<or> 9 \<le> char_code c \<and> char_code c \<le> 13"

definition isdigit :: "char \<Rightarrow> bool" where
  "isdigit c \<longleftrightarrow> 48 \<le> char_code c \<and> char_code c \<le> 57"

definition tolower :: "char \<Rightarrow> char" where
  "tolower c = (if 65 \<le> char_code c \<and> char_code c \<le> 90 then char_of (char_code c + 32) else c)"

fun digits_value :: "nat \<Rightarrow> string \<Rightarrow> nat" where
  "digits_value acc [] = acc"
| "digits_value acc (c # cs) =
     (if isdigit c then digits_value (acc * 10 + (char_code c - 48)) cs else acc)"

text \<open>\<^verbatim>\<open>strtol\<close> in base 10: blanks, an optional sign, the longest run of digits; no digit means
  that nothing was converted.\<close>

definition strtol :: "string \<Rightarrow> int option" where
  "strtol s =
     (let t = dropWhile isspace s;
          neg = (t \<noteq> [] \<and> hd t = CHR ''-'');
          u = (if t \<noteq> [] \<and> (hd t = CHR ''-'' \<or> hd t = CHR ''+'') then tl t else t)
      in if u \<noteq> [] \<and> isdigit (hd u)
         then Some (if neg then - int (digits_value 0 u) else int (digits_value 0 u))
         else None)"

definition sto_int :: "nat \<Rightarrow> string \<Rightarrow> exc + int" where
  "sto_int w s = (case strtol s of None \<Rightarrow> Inl Std_Invalid_Argument
                  | Some n \<Rightarrow> if fits w n then Inr n else Inl Std_Out_Of_Range)"

definition stoi :: "string \<Rightarrow> exc + int" where
  "stoi = sto_int 32"

definition stoll :: "string \<Rightarrow> exc + int" where
  "stoll = sto_int 64"

lemma char_code_digit [simp]: "d < (10 :: nat) \<Longrightarrow> char_code (char_of (48 + d)) = 48 + d"
  by (simp add: char_code_def)

lemma isdigit_digit [simp]: "d < (10 :: nat) \<Longrightarrow> isdigit (char_of (48 + d))"
  by (simp add: isdigit_def)

lemma nat_digits_isdigit: "c \<in> set (nat_digits n) \<Longrightarrow> isdigit c"
proof (induction n rule: nat_digits.induct)
  case (1 n)
  then show ?case by (subst (asm) nat_digits.simps) (auto split: if_splits)
qed

lemma nat_digits_nonempty [simp]: "nat_digits n \<noteq> []"
  by (subst nat_digits.simps) simp

lemma digits_value_append:
  "(\<And>c. c \<in> set s \<Longrightarrow> isdigit c) \<Longrightarrow> digits_value acc (s @ t) = digits_value (digits_value acc s) t"
  by (induction s arbitrary: acc) auto

lemma digits_value_nat_digits [simp]: "digits_value 0 (nat_digits n) = n"
proof (induction n rule: nat_digits.induct)
  case (1 n)
  show ?case
  proof (cases "n < 10")
    case True
    then show ?thesis by (subst nat_digits.simps) simp
  next
    case False
    then have "digits_value 0 (nat_digits n)
        = digits_value (digits_value 0 (nat_digits (n div 10))) [char_of (48 + n mod 10)]"
      by (subst nat_digits.simps) (simp add: digits_value_append nat_digits_isdigit)
    with 1 [OF False] show ?thesis by simp
  qed
qed

lemma isdigit_not_space: "isdigit c \<Longrightarrow> \<not> isspace c \<and> c \<noteq> CHR ''-'' \<and> c \<noteq> CHR ''+''"
  by (auto simp: isdigit_def isspace_def char_code_def)

lemma nat_digits_hd: "isdigit (hd (nat_digits n))"
  by (rule nat_digits_isdigit [of _ n]) simp

lemma dropWhile_hd: "xs \<noteq> [] \<Longrightarrow> \<not> P (hd xs) \<Longrightarrow> dropWhile P xs = xs"
  by (cases xs) auto

lemma strtol_to_string [simp]: "strtol (to_string i) = Some i"
proof (cases "i < 0")
  case True
  have "dropWhile isspace (to_string i) = to_string i"
    using True by (intro dropWhile_hd) (simp_all add: to_string_def isspace_def char_code_def)
  then show ?thesis
    using True by (simp add: strtol_def to_string_def nat_digits_hd)
next
  case False
  have "\<not> isspace (hd (nat_digits (nat i)))" "hd (nat_digits (nat i)) \<noteq> CHR ''-''" "hd (nat_digits (nat i)) \<noteq> CHR ''+''"
    using isdigit_not_space [OF nat_digits_hd] by auto
  with False show ?thesis by (simp add: strtol_def to_string_def dropWhile_hd nat_digits_hd)
qed

lemma sto_int_to_string: "sto_int w (to_string i) = (if fits w i then Inr i else Inl Std_Out_Of_Range)"
  by (simp add: sto_int_def)

section \<open>Bytes\<close>

text \<open>\<^verbatim>\<open>memcmp\<close> of the first \<open>n\<close> bytes: the sign of the first difference.\<close>

fun memcmp :: "nat \<Rightarrow> string \<Rightarrow> string \<Rightarrow> int" where
  "memcmp (Suc n) (a # as) (b # bs) =
     (if a = b then memcmp n as bs else int (char_code a) - int (char_code b))"
| "memcmp _ _ _ = 0"

definition le_bytes :: "nat \<Rightarrow> int \<Rightarrow> byte list" where
  "le_bytes n k = map (\<lambda>i. word_of_int (k div 2 ^ (8 * i))) [0..<n]"

definition le_value :: "byte list \<Rightarrow> int" where
  "le_value bs = foldr (\<lambda>b acc. uint b + 256 * acc) bs 0"

definition char_byte :: "char \<Rightarrow> byte" where
  "char_byte c = word_of_nat (of_char c)"

definition byte_char :: "byte \<Rightarrow> char" where
  "byte_char b = char_of (unat b)"

lemma byte_char_byte [simp]: "byte_char (char_byte c) = c"
  by (simp add: byte_char_def char_byte_def unat_of_nat take_bit_eq_mod flip: char_of_take_bit_eq)

lemma length_le_bytes [simp]: "length (le_bytes n k) = n"
  by (simp add: le_bytes_def)

lemma le_bytes_Suc: "le_bytes (Suc n) k = word_of_int k # le_bytes n (k div 256)"
proof -
  have "k div 2 ^ (8 * Suc i) = k div 256 div 2 ^ (8 * i)" for i
    by (simp add: power_add div_mult2_eq zdiv_zmult2_eq)
  then show ?thesis
    unfolding le_bytes_def by (subst upt_conv_Cons) (simp_all add: map_Suc_upt [symmetric] del: upt_Suc)
qed

lemma le_value_le_bytes: "le_value (le_bytes n k) = k mod 256 ^ n"
proof (induction n arbitrary: k)
  case 0
  then show ?case by (simp add: le_bytes_def le_value_def)
next
  case (Suc n)
  have "le_value (le_bytes (Suc n) k) = k mod 256 + 256 * (k div 256 mod 256 ^ n)"
    using Suc [of "k div 256"] by (simp add: le_bytes_Suc le_value_def uint_word_of_int)
  then show ?case by (simp add: mod_mult2_eq zmod_zmult2_eq algebra_simps)
qed

lemma word_of_le_value:
  "8 * n = LENGTH('a) \<Longrightarrow> word_of_int (le_value (le_bytes n (uint (w :: 'a::len word)))) = w"
proof -
  assume "8 * n = LENGTH('a)"
  then have "(256 :: int) ^ n = 2 ^ LENGTH('a)"
    using power_mult [of "2 :: int" 8 n] by simp
  then show ?thesis by (simp add: le_value_le_bytes)
qed

section \<open>Doubles\<close>

text \<open>The arithmetic of \<^verbatim>\<open>double\<close>, given by the hardware, and its conversions of the C library.\<close>

record 'd double_ops =
  d_add :: "'d \<Rightarrow> 'd \<Rightarrow> 'd"
  d_sub :: "'d \<Rightarrow> 'd \<Rightarrow> 'd"
  d_mul :: "'d \<Rightarrow> 'd \<Rightarrow> 'd"
  d_div :: "'d \<Rightarrow> 'd \<Rightarrow> 'd"
  d_eq :: "'d \<Rightarrow> 'd \<Rightarrow> bool"
  d_lt :: "'d \<Rightarrow> 'd \<Rightarrow> bool"
  d_le :: "'d \<Rightarrow> 'd \<Rightarrow> bool"
  d_trunc :: "'d \<Rightarrow> 'd"
  d_sqrt :: "'d \<Rightarrow> 'd"
  d_of_int :: "int \<Rightarrow> 'd"
  d_to_int :: "'d \<Rightarrow> int"
  d_to_string :: "'d \<Rightarrow> string"
  d_stod :: "string \<Rightarrow> exc + 'd"
  d_lowest :: 'd
  d_max :: 'd
  d_flt_lowest :: 'd
  d_to_bits :: "'d \<Rightarrow> 64 word"
  d_of_bits :: "64 word \<Rightarrow> 'd"

text \<open>A concrete instance, on which the definitions are evaluated: the doubles that are
  integers, with exact arithmetic and a range of 64 bits.\<close>

definition int_double :: "int double_ops" where
  "int_double =
     \<lparr>d_add = (+), d_sub = (-), d_mul = (*), d_div = (sdiv), d_eq = (=), d_lt = (<), d_le = (\<le>),
      d_trunc = id, d_sqrt = (\<lambda>d. foldl (\<lambda>r k. if k * k \<le> d then k else r) 0 [0..d]),
      d_of_int = id, d_to_int = id, d_to_string = to_string, d_stod = stoll,
      d_lowest = - (2 ^ 63), d_max = 2 ^ 63 - 1, d_flt_lowest = - (2 ^ 62),
      d_to_bits = word_of_int, d_of_bits = sint\<rparr>"

lemma int_double_simps [simp]:
  "d_add int_double = (+)" "d_sub int_double = (-)" "d_mul int_double = (*)" "d_div int_double = (sdiv)"
  "d_eq int_double = (=)" "d_lt int_double = (<)" "d_le int_double = (\<le>)" "d_trunc int_double = id"
  "d_of_int int_double = id" "d_to_int int_double = id" "d_to_string int_double = to_string"
  "d_stod int_double = stoll" "d_lowest int_double = - 9223372036854775808"
  "d_max int_double = 9223372036854775807" "d_flt_lowest int_double = - 4611686018427387904"
  "d_to_bits int_double = word_of_int" "d_of_bits int_double = sint"
  by (simp_all add: int_double_def)

end
