(* ===== verification/Value_Types.thy ===== *)
theory Value_Types
  imports Cpp_Types
begin

text \<open>
  The SQL type system: \<^verbatim>\<open>Value\<close> (\<^verbatim>\<open>type/value.cpp\<close>, \<^verbatim>\<open>include/type/value.h\<close>) and the singleton
  \<^verbatim>\<open>Type\<close> classes that implement its operations (\<^verbatim>\<open>type/*_type.cpp\<close>), in the order
  constructors, printing, casts, comparisons, arithmetic, minimum and maximum,
  serialization.  A value is a tagged union; the tag is the constructor and the union
  members are its selectors.  A null is a value whose payload is the sentinel of its type,
  which the constructors of the code turn into the length \<^verbatim>\<open>BUSTUB_VALUE_NULL\<close>.

  The methods of one class that differ only in the operator handed to a macro
  (\<^verbatim>\<open>CompareEquals\<close> to \<^verbatim>\<open>CompareGreaterThanEquals\<close>; \<^verbatim>\<open>Add\<close>, \<^verbatim>\<open>Subtract\<close>, \<^verbatim>\<open>Multiply\<close>) are one definition
  with the operator as an argument.  Assertions are checked, as in the default build.
\<close>

section \<open>Types and values\<close>

datatype type_id = INVALID | BOOLEAN | TINYINT | SMALLINT | INTEGER | BIGINT | DECIMAL | VARCHAR | TIMESTAMP

datatype 'd Value =
    Invalid_v
  | Boolean_v (boolean_val: "8 word")
  | Tinyint_v (tinyint_val: "8 word")
  | Smallint_v (smallint_val: "16 word")
  | Integer_v (integer_val: "32 word")
  | Bigint_v (bigint_val: "64 word")
  | Decimal_v (decimal_val: 'd)
  | Varchar_v (varlen_val: "string option")
  | Timestamp_v (timestamp_val: "64 word")

datatype CmpBool = CmpFalse | CmpTrue | CmpNull

datatype cmp_op = Equals | NotEquals | LessThan | LessThanEquals | GreaterThan | GreaterThanEquals

datatype arith_op = Plus | Minus | Times

fun GetTypeId :: "'d Value \<Rightarrow> type_id" where
  "GetTypeId Invalid_v = INVALID"
| "GetTypeId (Boolean_v _) = BOOLEAN"
| "GetTypeId (Tinyint_v _) = TINYINT"
| "GetTypeId (Smallint_v _) = SMALLINT"
| "GetTypeId (Integer_v _) = INTEGER"
| "GetTypeId (Bigint_v _) = BIGINT"
| "GetTypeId (Decimal_v _) = DECIMAL"
| "GetTypeId (Varchar_v _) = VARCHAR"
| "GetTypeId (Timestamp_v _) = TIMESTAMP"

subsection \<open>Limits (\<^verbatim>\<open>include/type/limits.h\<close>)\<close>

definition BUSTUB_VALUE_NULL :: "32 word" where "BUSTUB_VALUE_NULL = - 1"
definition BUSTUB_VARCHAR_MAX_LEN :: "32 word" where "BUSTUB_VARCHAR_MAX_LEN = - 1"
definition BUSTUB_BOOLEAN_NULL :: "8 word" where "BUSTUB_BOOLEAN_NULL = - 128"
definition BUSTUB_INT8_NULL :: "8 word" where "BUSTUB_INT8_NULL = - 128"
definition BUSTUB_INT16_NULL :: "16 word" where "BUSTUB_INT16_NULL = - 32768"
definition BUSTUB_INT32_NULL :: "32 word" where "BUSTUB_INT32_NULL = - 2147483648"
definition BUSTUB_INT64_NULL :: "64 word" where "BUSTUB_INT64_NULL = - 9223372036854775808"
definition BUSTUB_TIMESTAMP_NULL :: "64 word" where "BUSTUB_TIMESTAMP_NULL = - 1"
definition BUSTUB_TIMESTAMP_MAX :: "64 word" where "BUSTUB_TIMESTAMP_MAX = 11231999986399999999"
definition BUSTUB_INT8_MIN :: int where "BUSTUB_INT8_MIN = - 127"
definition BUSTUB_INT16_MIN :: int where "BUSTUB_INT16_MIN = - 32767"
definition BUSTUB_INT32_MIN :: int where "BUSTUB_INT32_MIN = - 2147483647"
definition BUSTUB_INT64_MIN :: int where "BUSTUB_INT64_MIN = - 9223372036854775807"
definition BUSTUB_INT8_MAX :: int where "BUSTUB_INT8_MAX = 127"
definition BUSTUB_INT16_MAX :: int where "BUSTUB_INT16_MAX = 32767"
definition BUSTUB_INT32_MAX :: int where "BUSTUB_INT32_MAX = 2147483647"
definition BUSTUB_INT64_MAX :: int where "BUSTUB_INT64_MAX = 9223372036854775807"

lemmas limits_defs =
  BUSTUB_VALUE_NULL_def BUSTUB_VARCHAR_MAX_LEN_def BUSTUB_BOOLEAN_NULL_def BUSTUB_INT8_NULL_def
  BUSTUB_INT16_NULL_def BUSTUB_INT32_NULL_def BUSTUB_INT64_NULL_def BUSTUB_TIMESTAMP_NULL_def
  BUSTUB_TIMESTAMP_MAX_def BUSTUB_INT8_MIN_def BUSTUB_INT16_MIN_def BUSTUB_INT32_MIN_def
  BUSTUB_INT64_MIN_def BUSTUB_INT8_MAX_def BUSTUB_INT16_MAX_def BUSTUB_INT32_MAX_def
  BUSTUB_INT64_MAX_def

subsection \<open>The length field and nulls\<close>

text \<open>\<^verbatim>\<open>size_.len_\<close> as the constructors set it.\<close>

fun size_len :: "'d double_ops \<Rightarrow> 'd Value \<Rightarrow> 32 word" where
  "size_len D Invalid_v = BUSTUB_VALUE_NULL"
| "size_len D (Boolean_v b) = (if b = BUSTUB_BOOLEAN_NULL then BUSTUB_VALUE_NULL else 0)"
| "size_len D (Tinyint_v x) = (if x = BUSTUB_INT8_NULL then BUSTUB_VALUE_NULL else 0)"
| "size_len D (Smallint_v x) = (if x = BUSTUB_INT16_NULL then BUSTUB_VALUE_NULL else 0)"
| "size_len D (Integer_v x) = (if x = BUSTUB_INT32_NULL then BUSTUB_VALUE_NULL else 0)"
| "size_len D (Bigint_v x) = (if x = BUSTUB_INT64_NULL then BUSTUB_VALUE_NULL else 0)"
| "size_len D (Decimal_v d) = (if d_eq D d (d_lowest D) then BUSTUB_VALUE_NULL else 0)"
| "size_len D (Varchar_v s) = (case s of None \<Rightarrow> BUSTUB_VALUE_NULL | Some cs \<Rightarrow> word_of_nat (length cs))"
| "size_len D (Timestamp_v t) = (if t = BUSTUB_TIMESTAMP_NULL then BUSTUB_VALUE_NULL else 0)"

definition IsNull :: "'d double_ops \<Rightarrow> 'd Value \<Rightarrow> bool" where
  "IsNull D v \<longleftrightarrow> size_len D v = BUSTUB_VALUE_NULL"

subsection \<open>Constructors (\<^verbatim>\<open>Value::Value\<close>)\<close>

definition Value_int8 :: "type_id \<Rightarrow> 8 word \<Rightarrow> exc + 'd Value" where
  "Value_int8 type i = (case type of
       BOOLEAN \<Rightarrow> Inr (Boolean_v i)
     | TINYINT \<Rightarrow> Inr (Tinyint_v i)
     | SMALLINT \<Rightarrow> Inr (Smallint_v (scast i))
     | INTEGER \<Rightarrow> Inr (Integer_v (scast i))
     | BIGINT \<Rightarrow> Inr (Bigint_v (scast i))
     | _ \<Rightarrow> Inl INCOMPATIBLE_TYPE)"

definition Value_int16 :: "type_id \<Rightarrow> 16 word \<Rightarrow> exc + 'd Value" where
  "Value_int16 type i = (case type of
       BOOLEAN \<Rightarrow> Inr (Boolean_v (scast i))
     | TINYINT \<Rightarrow> Inr (Tinyint_v (scast i))
     | SMALLINT \<Rightarrow> Inr (Smallint_v i)
     | INTEGER \<Rightarrow> Inr (Integer_v (scast i))
     | BIGINT \<Rightarrow> Inr (Bigint_v (scast i))
     | TIMESTAMP \<Rightarrow> Inr (Timestamp_v (scast i))
     | _ \<Rightarrow> Inl INCOMPATIBLE_TYPE)"

definition Value_int32 :: "type_id \<Rightarrow> 32 word \<Rightarrow> exc + 'd Value" where
  "Value_int32 type i = (case type of
       BOOLEAN \<Rightarrow> Inr (Boolean_v (scast i))
     | TINYINT \<Rightarrow> Inr (Tinyint_v (scast i))
     | SMALLINT \<Rightarrow> Inr (Smallint_v (scast i))
     | INTEGER \<Rightarrow> Inr (Integer_v i)
     | BIGINT \<Rightarrow> Inr (Bigint_v (scast i))
     | TIMESTAMP \<Rightarrow> Inr (Timestamp_v (scast i))
     | _ \<Rightarrow> Inl INCOMPATIBLE_TYPE)"

definition Value_int64 :: "type_id \<Rightarrow> 64 word \<Rightarrow> exc + 'd Value" where
  "Value_int64 type i = (case type of
       BOOLEAN \<Rightarrow> Inr (Boolean_v (scast i))
     | TINYINT \<Rightarrow> Inr (Tinyint_v (scast i))
     | SMALLINT \<Rightarrow> Inr (Smallint_v (scast i))
     | INTEGER \<Rightarrow> Inr (Integer_v (scast i))
     | BIGINT \<Rightarrow> Inr (Bigint_v i)
     | TIMESTAMP \<Rightarrow> Inr (Timestamp_v i)
     | _ \<Rightarrow> Inl INCOMPATIBLE_TYPE)"

definition Value_uint64 :: "type_id \<Rightarrow> 64 word \<Rightarrow> exc + 'd Value" where
  "Value_uint64 type i = (case type of
       BIGINT \<Rightarrow> Inr (Bigint_v i)
     | TIMESTAMP \<Rightarrow> Inr (Timestamp_v i)
     | _ \<Rightarrow> Inl INCOMPATIBLE_TYPE)"

definition Value_double :: "type_id \<Rightarrow> 'd \<Rightarrow> exc + 'd Value" where
  "Value_double type d = (case type of
       DECIMAL \<Rightarrow> Inr (Decimal_v d)
     | _ \<Rightarrow> Inl INCOMPATIBLE_TYPE)"

text \<open>The data pointer is null or points to at least \<open>len\<close> bytes.\<close>

definition Value_varlen :: "type_id \<Rightarrow> string option \<Rightarrow> 32 word \<Rightarrow> bool \<Rightarrow> exc + 'd Value" where
  "Value_varlen type data len manage_data = (case type of
       VARCHAR \<Rightarrow>
         (case data of
            None \<Rightarrow> Inr (Varchar_v None)
          | Some cs \<Rightarrow>
              if manage_data
              then assert_that (len < BUSTUB_VARCHAR_MAX_LEN) (Inr (Varchar_v (Some (take (unat len) cs))))
              else Inr (Varchar_v (if len = BUSTUB_VALUE_NULL then None else Some (take (unat len) cs))))
     | _ \<Rightarrow> Inl INCOMPATIBLE_TYPE)"

definition Value_string :: "type_id \<Rightarrow> string \<Rightarrow> exc + 'd Value" where
  "Value_string type data = (case type of
       VARCHAR \<Rightarrow>
         (let len = word_of_nat (length data) + 1 :: 32 word
          in Inr (Varchar_v (if len = BUSTUB_VALUE_NULL then None else Some (take (unat len) (data @ [CHR 0x00])))))
     | _ \<Rightarrow> Inl INCOMPATIBLE_TYPE)"

text \<open>\<^verbatim>\<open>Value(type, i)\<close> for an integer of \<open>w\<close> bits, as overload resolution picks it.\<close>

definition Value_intN :: "nat \<Rightarrow> type_id \<Rightarrow> int \<Rightarrow> exc + 'd Value" where
  "Value_intN w type i =
     (if w = 8 then Value_int8 type (word_of_int i)
      else if w = 16 then Value_int16 type (word_of_int i)
      else if w = 32 then Value_int32 type (word_of_int i)
      else Value_int64 type (word_of_int i))"

fun CheckComparable :: "'d Value \<Rightarrow> 'd Value \<Rightarrow> bool" where
  "CheckComparable v o' = (case GetTypeId v of
       BOOLEAN \<Rightarrow> GetTypeId o' = BOOLEAN \<or> GetTypeId o' = VARCHAR
     | TINYINT \<Rightarrow> GetTypeId o' \<in> {TINYINT, SMALLINT, INTEGER, BIGINT, DECIMAL, VARCHAR}
     | SMALLINT \<Rightarrow> GetTypeId o' \<in> {TINYINT, SMALLINT, INTEGER, BIGINT, DECIMAL, VARCHAR}
     | INTEGER \<Rightarrow> GetTypeId o' \<in> {TINYINT, SMALLINT, INTEGER, BIGINT, DECIMAL, VARCHAR}
     | BIGINT \<Rightarrow> GetTypeId o' \<in> {TINYINT, SMALLINT, INTEGER, BIGINT, DECIMAL, VARCHAR}
     | DECIMAL \<Rightarrow> GetTypeId o' \<in> {TINYINT, SMALLINT, INTEGER, BIGINT, DECIMAL, VARCHAR}
     | VARCHAR \<Rightarrow> True
     | _ \<Rightarrow> False)"

fun CheckInteger :: "'d Value \<Rightarrow> bool" where
  "CheckInteger v = (GetTypeId v \<in> {TINYINT, SMALLINT, INTEGER, BIGINT})"

declare CheckComparable.simps [simp del] CheckInteger.simps [simp del]

section \<open>The type singletons (\<^verbatim>\<open>type/type.cpp\<close>)\<close>

text \<open>The table has 14 slots of which the initializer fills eight; the slot of
  \<^verbatim>\<open>TIMESTAMP\<close> is a null pointer.\<close>

definition k_types :: "type_id list" where
  "k_types = [INVALID, BOOLEAN, TINYINT, SMALLINT, INTEGER, BIGINT, DECIMAL, VARCHAR]"

fun type_index :: "type_id \<Rightarrow> nat" where
  "type_index INVALID = 0"
| "type_index BOOLEAN = 1"
| "type_index TINYINT = 2"
| "type_index SMALLINT = 3"
| "type_index INTEGER = 4"
| "type_index BIGINT = 5"
| "type_index DECIMAL = 6"
| "type_index VARCHAR = 7"
| "type_index TIMESTAMP = 8"

definition GetInstance :: "type_id \<Rightarrow> exc + type_id" where
  "GetInstance type = (if type_index type < length k_types then Inr (k_types ! type_index type) else Inl Null_Deref)"

definition GetTypeSize :: "type_id \<Rightarrow> exc + nat" where
  "GetTypeSize type = (case type of
       BOOLEAN \<Rightarrow> Inr 1
     | TINYINT \<Rightarrow> Inr 1
     | SMALLINT \<Rightarrow> Inr 2
     | INTEGER \<Rightarrow> Inr 4
     | BIGINT \<Rightarrow> Inr 8
     | DECIMAL \<Rightarrow> Inr 8
     | TIMESTAMP \<Rightarrow> Inr 8
     | VARCHAR \<Rightarrow> Inr 0
     | _ \<Rightarrow> Inl UNKNOWN_TYPE)"

text \<open>\<^verbatim>\<open>this->IsCoercableFrom(type_id)\<close>, the type of \<^verbatim>\<open>this\<close> first.\<close>

definition IsCoercableFrom :: "type_id \<Rightarrow> type_id \<Rightarrow> bool" where
  "IsCoercableFrom this type = (case this of
       INVALID \<Rightarrow> False
     | BOOLEAN \<Rightarrow> True
     | TIMESTAMP \<Rightarrow> type = VARCHAR \<or> type = TIMESTAMP
     | VARCHAR \<Rightarrow> type \<in> {BOOLEAN, TINYINT, SMALLINT, INTEGER, BIGINT, DECIMAL, TIMESTAMP, VARCHAR}
     | _ \<Rightarrow> type \<in> {TINYINT, SMALLINT, INTEGER, BIGINT, DECIMAL, VARCHAR})"

definition TypeIdToString :: "type_id \<Rightarrow> string" where
  "TypeIdToString type = (case type of
       INVALID \<Rightarrow> ''INVALID''
     | BOOLEAN \<Rightarrow> ''BOOLEAN''
     | TINYINT \<Rightarrow> ''TINYINT''
     | SMALLINT \<Rightarrow> ''SMALLINT''
     | INTEGER \<Rightarrow> ''INTEGER''
     | BIGINT \<Rightarrow> ''BIGINT''
     | DECIMAL \<Rightarrow> ''DECIMAL''
     | TIMESTAMP \<Rightarrow> ''TIMESTAMP''
     | VARCHAR \<Rightarrow> ''VARCHAR'')"

definition GetMinValue :: "'d double_ops \<Rightarrow> type_id \<Rightarrow> exc + 'd Value" where
  "GetMinValue D type = (case type of
       BOOLEAN \<Rightarrow> Value_int32 type 0
     | TINYINT \<Rightarrow> Value_int8 type (word_of_int BUSTUB_INT8_MIN)
     | SMALLINT \<Rightarrow> Value_int16 type (word_of_int BUSTUB_INT16_MIN)
     | INTEGER \<Rightarrow> Value_int32 type (word_of_int BUSTUB_INT32_MIN)
     | BIGINT \<Rightarrow> Value_int64 type (word_of_int BUSTUB_INT64_MIN)
     | DECIMAL \<Rightarrow> Value_double type (d_flt_lowest D)
     | TIMESTAMP \<Rightarrow> Value_int32 type 0
     | VARCHAR \<Rightarrow> Value_string type []
     | _ \<Rightarrow> Inl MISMATCH_TYPE)"

definition GetMaxValue :: "'d double_ops \<Rightarrow> type_id \<Rightarrow> exc + 'd Value" where
  "GetMaxValue D type = (case type of
       BOOLEAN \<Rightarrow> Value_int32 type 1
     | TINYINT \<Rightarrow> Value_int8 type (word_of_int BUSTUB_INT8_MAX)
     | SMALLINT \<Rightarrow> Value_int16 type (word_of_int BUSTUB_INT16_MAX)
     | INTEGER \<Rightarrow> Value_int32 type (word_of_int BUSTUB_INT32_MAX)
     | BIGINT \<Rightarrow> Value_int64 type (word_of_int BUSTUB_INT64_MAX)
     | DECIMAL \<Rightarrow> Value_double type (d_max D)
     | TIMESTAMP \<Rightarrow> Value_uint64 type BUSTUB_TIMESTAMP_MAX
     | VARCHAR \<Rightarrow> Value_varlen type None 0 False
     | _ \<Rightarrow> Inl MISMATCH_TYPE)"

end
