(* ===== verification/Value_Cast.thy ===== *)
theory Value_Cast
  imports Value_Types
begin

text \<open>
  Printing, copying, casting and serialization of values (\<^verbatim>\<open>ToString\<close>, \<^verbatim>\<open>Copy\<close>, \<^verbatim>\<open>CastAs\<close>,
  \<^verbatim>\<open>SerializeTo\<close>, \<^verbatim>\<open>DeserializeFrom\<close> of the classes of \<^verbatim>\<open>type/*_type.cpp\<close>, and the dispatch of
  \<^verbatim>\<open>include/type/value.h\<close>).  The properties: casts between integer types keep the number or
  report that it is out of range; an integer printed to a string is read back; serialization
  round trips; the types of the results.
\<close>

section \<open>Printing\<close>

definition BooleanType_ToString :: "'d Value \<Rightarrow> string" where
  "BooleanType_ToString val =
     (if boolean_val val = 1 then ''true''
      else if boolean_val val = 0 then ''false''
      else ''boolean_null'')"

definition TinyintType_ToString :: "'d double_ops \<Rightarrow> 'd Value \<Rightarrow> exc + string" where
  "TinyintType_ToString D val =
     assert_that (CheckInteger val)
       (if IsNull D val then Inr ''tinyint_null'' else Inr (to_string (sint (tinyint_val val))))"

definition SmallintType_ToString :: "'d double_ops \<Rightarrow> 'd Value \<Rightarrow> exc + string" where
  "SmallintType_ToString D val =
     assert_that (CheckInteger val)
       (case GetTypeId val of
          TINYINT \<Rightarrow> Inr (if IsNull D val then ''tinyint_null'' else to_string (sint (tinyint_val val)))
        | SMALLINT \<Rightarrow> Inr (if IsNull D val then ''smallint_null'' else to_string (sint (smallint_val val)))
        | INTEGER \<Rightarrow> Inr (if IsNull D val then ''integer_null'' else to_string (sint (integer_val val)))
        | BIGINT \<Rightarrow> Inr (if IsNull D val then ''bigint_null'' else to_string (sint (bigint_val val)))
        | _ \<Rightarrow> Inl INVALID_EXC)"

definition IntegerType_ToString :: "'d double_ops \<Rightarrow> 'd Value \<Rightarrow> exc + string" where
  "IntegerType_ToString D val =
     assert_that (CheckInteger val)
       (if IsNull D val then Inr ''integer_null'' else Inr (to_string (sint (integer_val val))))"

definition BigintType_ToString :: "'d double_ops \<Rightarrow> 'd Value \<Rightarrow> exc + string" where
  "BigintType_ToString D val =
     assert_that (CheckInteger val)
       (if IsNull D val then Inr ''bigint_null'' else Inr (to_string (sint (bigint_val val))))"

definition DecimalType_ToString :: "'d double_ops \<Rightarrow> 'd Value \<Rightarrow> string" where
  "DecimalType_ToString D val =
     (if IsNull D val then ''decimal_null'' else d_to_string D (decimal_val val))"

text \<open>The string constructor copies \<open>len - 1\<close> bytes from the data pointer, which is not null
  when the value is not.\<close>

definition VarlenType_ToString :: "'d double_ops \<Rightarrow> 'd Value \<Rightarrow> string" where
  "VarlenType_ToString D val =
     (let len = size_len D val in
      if IsNull D val then ''varlen_null''
      else if len = BUSTUB_VARCHAR_MAX_LEN then ''varlen_max''
      else if len = 0 then []
      else take (unat (len - 1)) (the (varlen_val val)))"

text \<open>\<^verbatim>\<open>%0wd\<close> of a non-negative number.\<close>

definition zero_padded :: "nat \<Rightarrow> nat \<Rightarrow> string" where
  "zero_padded w n = replicate (w - length (nat_digits n)) (CHR ''0'') @ nat_digits n"

text \<open>The fields of a timestamp, packed in mixed radix: month, day, time zone, year, second of
  the day, microsecond.\<close>

definition TimestampType_ToString :: "'d double_ops \<Rightarrow> 'd Value \<Rightarrow> string" where
  "TimestampType_ToString D val =
     (if IsNull D val then ''timestamp_null''
      else
        (let tm = unat (timestamp_val val);
             micro = tm mod 1000000; tm = tm div 1000000;
             second = tm mod 100000;
             sec = second mod 60; second = second div 60;
             min = second mod 60; second = second div 60;
             hour = second mod 24;
             tm = tm div 100000;
             year = tm mod 10000; tm = tm div 10000;
             tz = int (tm mod 27) - 12; tm = tm div 27;
             day = tm mod 32; tm = tm div 32;
             month = tm mod 65536;
             str = zero_padded 4 year @ ''-'' @ zero_padded 2 month @ ''-'' @ zero_padded 2 day @ '' '' @
                   zero_padded 2 hour @ '':'' @ zero_padded 2 min @ '':'' @ zero_padded 2 sec @ ''.'' @
                   zero_padded 6 micro
         in take 26 str @ (if tz \<ge> 0 then ''+'' else ''-'') @ take 4 (zero_padded 2 (nat \<bar>tz\<bar>))))"

text \<open>\<^verbatim>\<open>Value::ToString\<close>.\<close>

definition ToString :: "'d double_ops \<Rightarrow> 'd Value \<Rightarrow> exc + string" where
  "ToString D val = ebind (GetInstance (GetTypeId val)) (\<lambda>inst. case inst of
       INVALID \<Rightarrow> Inl NOT_IMPLEMENTED
     | BOOLEAN \<Rightarrow> Inr (BooleanType_ToString val)
     | TINYINT \<Rightarrow> TinyintType_ToString D val
     | SMALLINT \<Rightarrow> SmallintType_ToString D val
     | INTEGER \<Rightarrow> IntegerType_ToString D val
     | BIGINT \<Rightarrow> BigintType_ToString D val
     | DECIMAL \<Rightarrow> Inr (DecimalType_ToString D val)
     | VARCHAR \<Rightarrow> Inr (VarlenType_ToString D val)
     | TIMESTAMP \<Rightarrow> Inr (TimestampType_ToString D val))"

section \<open>Copying\<close>

definition BooleanType_Copy :: "'d Value \<Rightarrow> exc + 'd Value" where
  "BooleanType_Copy val = Value_int8 BOOLEAN (boolean_val val)"

definition TinyintType_Copy :: "'d Value \<Rightarrow> exc + 'd Value" where
  "TinyintType_Copy val = assert_that (CheckInteger val) (Value_int8 TINYINT (tinyint_val val))"

definition SmallintType_Copy :: "'d Value \<Rightarrow> exc + 'd Value" where
  "SmallintType_Copy val = assert_that (CheckInteger val) (Value_int16 SMALLINT (smallint_val val))"

definition IntegerType_Copy :: "'d Value \<Rightarrow> exc + 'd Value" where
  "IntegerType_Copy val = assert_that (CheckInteger val) (Value_int32 (GetTypeId val) (integer_val val))"

definition BigintType_Copy :: "'d Value \<Rightarrow> exc + 'd Value" where
  "BigintType_Copy val = Value_int64 BIGINT (bigint_val val)"

definition DecimalType_Copy :: "'d Value \<Rightarrow> exc + 'd Value" where
  "DecimalType_Copy val = Value_double DECIMAL (decimal_val val)"

text \<open>The copy constructor of \<^verbatim>\<open>Value\<close>: a string's bytes are duplicated.\<close>

definition VarlenType_Copy :: "'d Value \<Rightarrow> exc + 'd Value" where
  "VarlenType_Copy val = Inr val"

definition TimestampType_Copy :: "'d Value \<Rightarrow> exc + 'd Value" where
  "TimestampType_Copy val = Inr val"

definition Copy :: "'d Value \<Rightarrow> exc + 'd Value" where
  "Copy val = ebind (GetInstance (GetTypeId val)) (\<lambda>inst. case inst of
       INVALID \<Rightarrow> Inl NOT_IMPLEMENTED
     | BOOLEAN \<Rightarrow> BooleanType_Copy val
     | TINYINT \<Rightarrow> TinyintType_Copy val
     | SMALLINT \<Rightarrow> SmallintType_Copy val
     | INTEGER \<Rightarrow> IntegerType_Copy val
     | BIGINT \<Rightarrow> BigintType_Copy val
     | DECIMAL \<Rightarrow> DecimalType_Copy val
     | VARCHAR \<Rightarrow> VarlenType_Copy val
     | TIMESTAMP \<Rightarrow> TimestampType_Copy val)"

section \<open>Casting\<close>

definition null_varchar :: "exc + 'd Value" where
  "null_varchar = Value_varlen VARCHAR None 0 False"

definition BooleanType_CastAs :: "'d double_ops \<Rightarrow> 'd Value \<Rightarrow> type_id \<Rightarrow> exc + 'd Value" where
  "BooleanType_CastAs D val type = (case type of
       BOOLEAN \<Rightarrow> BooleanType_Copy val
     | VARCHAR \<Rightarrow> if IsNull D val then null_varchar
                 else ebind (ToString D val) (Value_string VARCHAR)
     | _ \<Rightarrow> Inl INVALID_EXC)"

definition TinyintType_CastAs :: "'d double_ops \<Rightarrow> 'd Value \<Rightarrow> type_id \<Rightarrow> exc + 'd Value" where
  "TinyintType_CastAs D val type = (case type of
       TINYINT \<Rightarrow> if IsNull D val then Value_int8 type BUSTUB_INT8_NULL else TinyintType_Copy val
     | SMALLINT \<Rightarrow> if IsNull D val then Value_int16 type BUSTUB_INT16_NULL
                  else Value_int16 type (scast (tinyint_val val))
     | INTEGER \<Rightarrow> if IsNull D val then Value_int32 type BUSTUB_INT32_NULL
                 else Value_int32 type (scast (tinyint_val val))
     | BIGINT \<Rightarrow> if IsNull D val then Value_int64 type BUSTUB_INT64_NULL
                else Value_int64 type (scast (tinyint_val val))
     | DECIMAL \<Rightarrow> if IsNull D val then Value_double type (d_lowest D)
                 else Value_double type (d_of_int D (sint (tinyint_val val)))
     | VARCHAR \<Rightarrow> if IsNull D val then null_varchar
                 else ebind (ToString D val) (Value_string VARCHAR)
     | _ \<Rightarrow> Inl INVALID_EXC)"

definition SmallintType_CastAs :: "'d double_ops \<Rightarrow> 'd Value \<Rightarrow> type_id \<Rightarrow> exc + 'd Value" where
  "SmallintType_CastAs D val type = (case type of
       TINYINT \<Rightarrow>
         if IsNull D val then Value_int8 type BUSTUB_INT8_NULL
         else if sint (smallint_val val) > BUSTUB_INT8_MAX \<or> sint (smallint_val val) < BUSTUB_INT8_MIN
         then Inl OUT_OF_RANGE
         else Value_int8 type (scast (smallint_val val))
     | SMALLINT \<Rightarrow> if IsNull D val then Value_int16 type BUSTUB_INT16_NULL else SmallintType_Copy val
     | INTEGER \<Rightarrow> if IsNull D val then Value_int32 type BUSTUB_INT32_NULL
                 else Value_int32 type (scast (smallint_val val))
     | BIGINT \<Rightarrow> if IsNull D val then Value_int64 type BUSTUB_INT64_NULL
                else Value_int64 type (scast (smallint_val val))
     | DECIMAL \<Rightarrow> if IsNull D val then Value_double type (d_lowest D)
                 else Value_double type (d_of_int D (sint (smallint_val val)))
     | VARCHAR \<Rightarrow> if IsNull D val then null_varchar
                 else ebind (ToString D val) (Value_string VARCHAR)
     | _ \<Rightarrow> Inl INVALID_EXC)"

definition IntegerType_CastAs :: "'d double_ops \<Rightarrow> 'd Value \<Rightarrow> type_id \<Rightarrow> exc + 'd Value" where
  "IntegerType_CastAs D val type = (case type of
       TINYINT \<Rightarrow>
         if IsNull D val then Value_int8 type BUSTUB_INT8_NULL
         else if sint (integer_val val) > BUSTUB_INT8_MAX \<or> sint (integer_val val) < BUSTUB_INT8_MIN
         then Inl OUT_OF_RANGE
         else Value_int8 type (scast (integer_val val))
     | SMALLINT \<Rightarrow>
         if IsNull D val then Value_int16 type BUSTUB_INT16_NULL
         else if sint (integer_val val) > BUSTUB_INT16_MAX \<or> sint (integer_val val) < BUSTUB_INT16_MIN
         then Inl OUT_OF_RANGE
         else Value_int16 type (scast (integer_val val))
     | INTEGER \<Rightarrow> if IsNull D val then Value_int32 type BUSTUB_INT32_NULL
                 else Value_int32 type (integer_val val)
     | BIGINT \<Rightarrow> if IsNull D val then Value_int64 type BUSTUB_INT64_NULL
                else Value_int64 type (scast (integer_val val))
     | DECIMAL \<Rightarrow> if IsNull D val then Value_double type (d_lowest D)
                 else Value_double type (d_of_int D (sint (integer_val val)))
     | VARCHAR \<Rightarrow> if IsNull D val then null_varchar
                 else ebind (ToString D val) (Value_string VARCHAR)
     | _ \<Rightarrow> Inl INVALID_EXC)"

definition BigintType_CastAs :: "'d double_ops \<Rightarrow> 'd Value \<Rightarrow> type_id \<Rightarrow> exc + 'd Value" where
  "BigintType_CastAs D val type = (case type of
       TINYINT \<Rightarrow>
         if IsNull D val then Value_int8 type BUSTUB_INT8_NULL
         else if sint (bigint_val val) > BUSTUB_INT8_MAX \<or> sint (bigint_val val) < BUSTUB_INT8_MIN
         then Inl OUT_OF_RANGE
         else Value_int8 type (scast (bigint_val val))
     | SMALLINT \<Rightarrow>
         if IsNull D val then Value_int16 type BUSTUB_INT16_NULL
         else if sint (bigint_val val) > BUSTUB_INT16_MAX \<or> sint (bigint_val val) < BUSTUB_INT16_MIN
         then Inl OUT_OF_RANGE
         else Value_int16 type (scast (bigint_val val))
     | INTEGER \<Rightarrow>
         if IsNull D val then Value_int32 type BUSTUB_INT32_NULL
         else if sint (bigint_val val) > BUSTUB_INT32_MAX \<or> sint (bigint_val val) < BUSTUB_INT32_MIN
         then Inl OUT_OF_RANGE
         else Value_int32 type (scast (bigint_val val))
     | BIGINT \<Rightarrow> if IsNull D val then Value_int64 type BUSTUB_INT64_NULL else BigintType_Copy val
     | DECIMAL \<Rightarrow> if IsNull D val then Value_double type (d_lowest D)
                 else Value_double type (d_of_int D (sint (bigint_val val)))
     | VARCHAR \<Rightarrow> if IsNull D val then null_varchar
                 else ebind (ToString D val) (Value_string VARCHAR)
     | _ \<Rightarrow> Inl INVALID_EXC)"

definition DecimalType_CastAs :: "'d double_ops \<Rightarrow> 'd Value \<Rightarrow> type_id \<Rightarrow> exc + 'd Value" where
  "DecimalType_CastAs D val type = (case type of
       TINYINT \<Rightarrow>
         if IsNull D val then Value_int8 type BUSTUB_INT8_NULL
         else if d_lt D (d_of_int D BUSTUB_INT8_MAX) (decimal_val val) \<or> d_lt D (decimal_val val) (d_of_int D BUSTUB_INT8_MIN)
         then Inl OUT_OF_RANGE
         else Value_int8 type (word_of_int (d_to_int D (decimal_val val)))
     | SMALLINT \<Rightarrow>
         if IsNull D val then Value_int16 type BUSTUB_INT16_NULL
         else if d_lt D (d_of_int D BUSTUB_INT16_MAX) (decimal_val val) \<or> d_lt D (decimal_val val) (d_of_int D BUSTUB_INT16_MIN)
         then Inl OUT_OF_RANGE
         else Value_int16 type (word_of_int (d_to_int D (decimal_val val)))
     | INTEGER \<Rightarrow>
         if IsNull D val then Value_int32 type BUSTUB_INT32_NULL
         else if d_lt D (d_of_int D BUSTUB_INT32_MAX) (decimal_val val) \<or> d_lt D (decimal_val val) (d_of_int D BUSTUB_INT32_MIN)
         then Inl OUT_OF_RANGE
         else Value_int32 type (word_of_int (d_to_int D (decimal_val val)))
     | BIGINT \<Rightarrow>
         if IsNull D val then Value_int64 type BUSTUB_INT64_NULL
         else if d_le D (d_of_int D BUSTUB_INT64_MAX) (decimal_val val) \<or> d_lt D (decimal_val val) (d_of_int D BUSTUB_INT64_MIN)
         then Inl OUT_OF_RANGE
         else Value_int64 type (word_of_int (d_to_int D (decimal_val val)))
     | DECIMAL \<Rightarrow> DecimalType_Copy val
     | VARCHAR \<Rightarrow> if IsNull D val then null_varchar
                 else ebind (ToString D val) (Value_string VARCHAR)
     | _ \<Rightarrow> Inl INVALID_EXC)"

definition VarlenType_CastAs :: "'d double_ops \<Rightarrow> 'd Value \<Rightarrow> type_id \<Rightarrow> exc + 'd Value" where
  "VarlenType_CastAs D val type = (case type of
       BOOLEAN \<Rightarrow> ebind (ToString D val) (\<lambda>s.
         let str = map tolower s in
         if str = ''true'' \<or> str = ''1'' \<or> str = ''t'' then Value_int32 type 1
         else if str = ''false'' \<or> str = ''0'' \<or> str = ''f'' then Value_int32 type 0
         else Inl INVALID_EXC)
     | TINYINT \<Rightarrow> ebind (ToString D val) (\<lambda>str. ebind (catch_out_of_range (stoi str)) (\<lambda>n.
         let tinyint = word_of_int n :: 8 word in
         if sint tinyint < BUSTUB_INT8_MIN then Inl OUT_OF_RANGE else Value_int8 type tinyint))
     | SMALLINT \<Rightarrow> ebind (ToString D val) (\<lambda>str. ebind (catch_out_of_range (stoi str)) (\<lambda>n.
         let smallint = word_of_int n :: 16 word in
         if sint smallint < BUSTUB_INT16_MIN then Inl OUT_OF_RANGE else Value_int16 type smallint))
     | INTEGER \<Rightarrow> ebind (ToString D val) (\<lambda>str. ebind (catch_out_of_range (stoi str)) (\<lambda>n.
         let integer = word_of_int n :: 32 word in
         if sint integer > BUSTUB_INT32_MAX \<or> sint integer < BUSTUB_INT32_MIN then Inl OUT_OF_RANGE
         else Value_int32 type integer))
     | BIGINT \<Rightarrow> ebind (ToString D val) (\<lambda>str. ebind (catch_out_of_range (stoll str)) (\<lambda>n.
         let bigint = word_of_int n :: 64 word in
         if sint bigint > BUSTUB_INT64_MAX \<or> sint bigint < BUSTUB_INT64_MIN then Inl OUT_OF_RANGE
         else Value_int64 type bigint))
     | DECIMAL \<Rightarrow> ebind (ToString D val) (\<lambda>str. ebind (catch_out_of_range (d_stod D str)) (\<lambda>res.
         if d_lt D (d_max D) res \<or> d_lt D res (d_flt_lowest D) then Inl OUT_OF_RANGE
         else Value_double type res))
     | VARCHAR \<Rightarrow> Copy val
     | _ \<Rightarrow> Inl INVALID_EXC)"

text \<open>The message of the exception prints the timestamp with the target type's \<^verbatim>\<open>ToString\<close>, whose
  assertion fails for the integer types.\<close>

definition TimestampType_CastAs :: "'d double_ops \<Rightarrow> 'd Value \<Rightarrow> type_id \<Rightarrow> exc + 'd Value" where
  "TimestampType_CastAs D val type = (case type of
       TIMESTAMP \<Rightarrow> TimestampType_Copy val
     | VARCHAR \<Rightarrow> if IsNull D val then null_varchar
                 else ebind (ToString D val) (Value_string VARCHAR)
     | _ \<Rightarrow> ebind (GetInstance type) (\<lambda>inst. case inst of
               INVALID \<Rightarrow> Inl NOT_IMPLEMENTED
             | BOOLEAN \<Rightarrow> Inl INVALID_EXC
             | DECIMAL \<Rightarrow> Inl INVALID_EXC
             | _ \<Rightarrow> Inl Assert_Failed))"

definition CastAs :: "'d double_ops \<Rightarrow> 'd Value \<Rightarrow> type_id \<Rightarrow> exc + 'd Value" where
  "CastAs D val type = ebind (GetInstance (GetTypeId val)) (\<lambda>inst. case inst of
       INVALID \<Rightarrow> Inl NOT_IMPLEMENTED
     | BOOLEAN \<Rightarrow> BooleanType_CastAs D val type
     | TINYINT \<Rightarrow> TinyintType_CastAs D val type
     | SMALLINT \<Rightarrow> SmallintType_CastAs D val type
     | INTEGER \<Rightarrow> IntegerType_CastAs D val type
     | BIGINT \<Rightarrow> BigintType_CastAs D val type
     | DECIMAL \<Rightarrow> DecimalType_CastAs D val type
     | VARCHAR \<Rightarrow> VarlenType_CastAs D val type
     | TIMESTAMP \<Rightarrow> TimestampType_CastAs D val type)"

section \<open>Serialization\<close>

text \<open>\<^verbatim>\<open>SerializeTo\<close> as the bytes it stores at the given address; \<^verbatim>\<open>DeserializeFrom\<close> of the bytes
  at an address, of which there are at least as many as it reads.\<close>

definition BooleanType_SerializeTo :: "'d Value \<Rightarrow> byte list" where
  "BooleanType_SerializeTo val = le_bytes 1 (uint (boolean_val val))"

definition TinyintType_SerializeTo :: "'d Value \<Rightarrow> byte list" where
  "TinyintType_SerializeTo val = le_bytes 1 (uint (tinyint_val val))"

definition SmallintType_SerializeTo :: "'d Value \<Rightarrow> byte list" where
  "SmallintType_SerializeTo val = le_bytes 2 (uint (smallint_val val))"

definition IntegerType_SerializeTo :: "'d Value \<Rightarrow> byte list" where
  "IntegerType_SerializeTo val = le_bytes 4 (uint (integer_val val))"

definition BigintType_SerializeTo :: "'d Value \<Rightarrow> byte list" where
  "BigintType_SerializeTo val = le_bytes 8 (uint (bigint_val val))"

definition DecimalType_SerializeTo :: "'d double_ops \<Rightarrow> 'd Value \<Rightarrow> byte list" where
  "DecimalType_SerializeTo D val = le_bytes 8 (uint (d_to_bits D (decimal_val val)))"

definition VarlenType_SerializeTo :: "'d double_ops \<Rightarrow> 'd Value \<Rightarrow> byte list" where
  "VarlenType_SerializeTo D val =
     (let len = size_len D val in
      if len = BUSTUB_VALUE_NULL then le_bytes 4 (uint len)
      else le_bytes 4 (uint len) @ map char_byte (take (unat len) (the (varlen_val val))))"

definition TimestampType_SerializeTo :: "'d Value \<Rightarrow> byte list" where
  "TimestampType_SerializeTo val = le_bytes 8 (uint (timestamp_val val))"

definition SerializeTo :: "'d double_ops \<Rightarrow> 'd Value \<Rightarrow> exc + byte list" where
  "SerializeTo D val = ebind (GetInstance (GetTypeId val)) (\<lambda>inst. case inst of
       INVALID \<Rightarrow> Inl NOT_IMPLEMENTED
     | BOOLEAN \<Rightarrow> Inr (BooleanType_SerializeTo val)
     | TINYINT \<Rightarrow> Inr (TinyintType_SerializeTo val)
     | SMALLINT \<Rightarrow> Inr (SmallintType_SerializeTo val)
     | INTEGER \<Rightarrow> Inr (IntegerType_SerializeTo val)
     | BIGINT \<Rightarrow> Inr (BigintType_SerializeTo val)
     | DECIMAL \<Rightarrow> Inr (DecimalType_SerializeTo D val)
     | VARCHAR \<Rightarrow> Inr (VarlenType_SerializeTo D val)
     | TIMESTAMP \<Rightarrow> Inr (TimestampType_SerializeTo val))"

definition BooleanType_DeserializeFrom :: "byte list \<Rightarrow> exc + 'd Value" where
  "BooleanType_DeserializeFrom storage = Value_int8 BOOLEAN (word_of_int (le_value (take 1 storage)))"

definition TinyintType_DeserializeFrom :: "byte list \<Rightarrow> exc + 'd Value" where
  "TinyintType_DeserializeFrom storage = Value_int8 TINYINT (word_of_int (le_value (take 1 storage)))"

definition SmallintType_DeserializeFrom :: "byte list \<Rightarrow> exc + 'd Value" where
  "SmallintType_DeserializeFrom storage = Value_int16 SMALLINT (word_of_int (le_value (take 2 storage)))"

definition IntegerType_DeserializeFrom :: "byte list \<Rightarrow> exc + 'd Value" where
  "IntegerType_DeserializeFrom storage = Value_int32 INTEGER (word_of_int (le_value (take 4 storage)))"

definition BigintType_DeserializeFrom :: "byte list \<Rightarrow> exc + 'd Value" where
  "BigintType_DeserializeFrom storage = Value_int64 BIGINT (word_of_int (le_value (take 8 storage)))"

definition DecimalType_DeserializeFrom :: "'d double_ops \<Rightarrow> byte list \<Rightarrow> exc + 'd Value" where
  "DecimalType_DeserializeFrom D storage =
     Value_double DECIMAL (d_of_bits D (word_of_int (le_value (take 8 storage))))"

definition VarlenType_DeserializeFrom :: "byte list \<Rightarrow> exc + 'd Value" where
  "VarlenType_DeserializeFrom storage =
     (let len = word_of_int (le_value (take 4 storage)) in
      if len = BUSTUB_VALUE_NULL then Value_varlen VARCHAR None len False
      else Value_varlen VARCHAR (Some (map byte_char (drop 4 storage))) len True)"

definition TimestampType_DeserializeFrom :: "byte list \<Rightarrow> exc + 'd Value" where
  "TimestampType_DeserializeFrom storage = Value_uint64 TIMESTAMP (word_of_int (le_value (take 8 storage)))"

definition DeserializeFrom :: "'d double_ops \<Rightarrow> byte list \<Rightarrow> type_id \<Rightarrow> exc + 'd Value" where
  "DeserializeFrom D storage type = ebind (GetInstance type) (\<lambda>inst. case inst of
       INVALID \<Rightarrow> Inl NOT_IMPLEMENTED
     | BOOLEAN \<Rightarrow> BooleanType_DeserializeFrom storage
     | TINYINT \<Rightarrow> TinyintType_DeserializeFrom storage
     | SMALLINT \<Rightarrow> SmallintType_DeserializeFrom storage
     | INTEGER \<Rightarrow> IntegerType_DeserializeFrom storage
     | BIGINT \<Rightarrow> BigintType_DeserializeFrom storage
     | DECIMAL \<Rightarrow> DecimalType_DeserializeFrom D storage
     | VARCHAR \<Rightarrow> VarlenType_DeserializeFrom storage
     | TIMESTAMP \<Rightarrow> TimestampType_DeserializeFrom storage)"

section \<open>Dispatch\<close>

lemma GetInstance_simps [simp]:
  "GetInstance INVALID = Inr INVALID" "GetInstance BOOLEAN = Inr BOOLEAN" "GetInstance TINYINT = Inr TINYINT"
  "GetInstance SMALLINT = Inr SMALLINT" "GetInstance INTEGER = Inr INTEGER" "GetInstance BIGINT = Inr BIGINT"
  "GetInstance DECIMAL = Inr DECIMAL" "GetInstance VARCHAR = Inr VARCHAR" "GetInstance TIMESTAMP = Inl Null_Deref"
  by (simp_all add: GetInstance_def k_types_def)

lemmas to_string_defs =
  BooleanType_ToString_def TinyintType_ToString_def SmallintType_ToString_def IntegerType_ToString_def
  BigintType_ToString_def DecimalType_ToString_def VarlenType_ToString_def

lemmas copy_defs =
  BooleanType_Copy_def TinyintType_Copy_def SmallintType_Copy_def IntegerType_Copy_def
  BigintType_Copy_def DecimalType_Copy_def VarlenType_Copy_def

lemmas cast_defs =
  BooleanType_CastAs_def TinyintType_CastAs_def SmallintType_CastAs_def IntegerType_CastAs_def
  BigintType_CastAs_def DecimalType_CastAs_def VarlenType_CastAs_def TimestampType_CastAs_def

lemmas value_ctor_defs =
  Value_int8_def Value_int16_def Value_int32_def Value_int64_def Value_uint64_def Value_double_def
  Value_varlen_def

section \<open>Integer values\<close>

text \<open>The number an integer value holds, the value that holds a number, and the widths.\<close>

fun type_width :: "type_id \<Rightarrow> nat" where
  "type_width TINYINT = 8"
| "type_width SMALLINT = 16"
| "type_width INTEGER = 32"
| "type_width BIGINT = 64"
| "type_width _ = 0"

definition integer_type :: "type_id \<Rightarrow> bool" where
  "integer_type t \<longleftrightarrow> t \<in> {TINYINT, SMALLINT, INTEGER, BIGINT}"

fun int_of :: "'d Value \<Rightarrow> int" where
  "int_of (Tinyint_v x) = sint x"
| "int_of (Smallint_v x) = sint x"
| "int_of (Integer_v x) = sint x"
| "int_of (Bigint_v x) = sint x"
| "int_of _ = 0"

fun int_value :: "type_id \<Rightarrow> int \<Rightarrow> 'd Value" where
  "int_value TINYINT n = Tinyint_v (word_of_int n)"
| "int_value SMALLINT n = Smallint_v (word_of_int n)"
| "int_value INTEGER n = Integer_v (word_of_int n)"
| "int_value BIGINT n = Bigint_v (word_of_int n)"
| "int_value _ n = Invalid_v"

definition null_int :: "type_id \<Rightarrow> int" where
  "null_int t = - (2 ^ (type_width t - 1))"

lemma sint_eq_minus_iff:
  "x = - (2 ^ (LENGTH('a) - 1)) \<longleftrightarrow> sint (x :: 'a::len word) = - (2 ^ (LENGTH('a) - 1))"
proof -
  have "sint (- (2 ^ (LENGTH('a) - 1)) :: 'a word) = - (2 ^ (LENGTH('a) - 1))"
    using sint_word_of_int [where 'a = 'a and n = "- (2 ^ (LENGTH('a) - 1))"] by (simp add: fits_def)
  then show ?thesis by (metis signed_word_eqI)
qed

lemma int_null_iff [simp]:
  "(x :: 8 word) = BUSTUB_INT8_NULL \<longleftrightarrow> sint x = - 128"
  "(y :: 16 word) = BUSTUB_INT16_NULL \<longleftrightarrow> sint y = - 32768"
  "(z :: 32 word) = BUSTUB_INT32_NULL \<longleftrightarrow> sint z = - 2147483648"
  "(w :: 64 word) = BUSTUB_INT64_NULL \<longleftrightarrow> sint w = - 9223372036854775808"
  using sint_eq_minus_iff [of x] sint_eq_minus_iff [of y] sint_eq_minus_iff [of z] sint_eq_minus_iff [of w]
  by (simp_all add: limits_defs)

lemma CheckInteger_simps [simp]:
  "CheckInteger (Tinyint_v a)" "CheckInteger (Smallint_v b)" "CheckInteger (Integer_v c)" "CheckInteger (Bigint_v d)"
  by (simp_all add: CheckInteger.simps)

lemma CheckInteger_cases [consumes 1, case_names Tinyint Smallint Integer Bigint]:
  assumes "CheckInteger v"
  obtains x where "v = Tinyint_v x" | x where "v = Smallint_v x" | x where "v = Integer_v x" | x where "v = Bigint_v x"
  using assms by (cases v) (auto simp: CheckInteger.simps)

lemma integer_type_cases [consumes 1, case_names Tinyint Smallint Integer Bigint]:
  assumes "integer_type t"
  obtains "t = TINYINT" | "t = SMALLINT" | "t = INTEGER" | "t = BIGINT"
  using assms by (auto simp: integer_type_def)

lemma CheckInteger_iff: "CheckInteger v \<longleftrightarrow> integer_type (GetTypeId v)"
  by (simp add: CheckInteger.simps integer_type_def)

lemma IsNull_int: "CheckInteger v \<Longrightarrow> IsNull D v \<longleftrightarrow> int_of v = null_int (GetTypeId v)"
  by (cases v rule: CheckInteger_cases) (simp_all add: IsNull_def null_int_def limits_defs(1))

lemma int_of_fits: "CheckInteger v \<Longrightarrow> fits (type_width (GetTypeId v)) (int_of v)"
  using fits_sint [where 'a = 8] fits_sint [where 'a = 16] fits_sint [where 'a = 32] fits_sint [where 'a = 64]
  by (cases v) (simp_all add: CheckInteger.simps)

lemma int_value_int_of [simp]: "CheckInteger v \<Longrightarrow> int_value (GetTypeId v) (int_of v) = v"
  by (cases v rule: CheckInteger_cases) simp_all

lemma GetTypeId_int_value [simp]: "integer_type t \<Longrightarrow> GetTypeId (int_value t n) = t"
  by (cases t rule: integer_type_cases) simp_all

lemma int_of_int_value [simp]:
  "integer_type t \<Longrightarrow> fits (type_width t) n \<Longrightarrow> int_of (int_value t n) = n"
  by (cases t rule: integer_type_cases) (simp_all add: sint_word_of_int)

lemma Value_intN_int_value:
  "integer_type t \<Longrightarrow> Value_intN (type_width t) t n = Inr (int_value t n)"
  by (cases t rule: integer_type_cases) (simp_all add: Value_intN_def value_ctor_defs)

lemma ToString_int:
  "CheckInteger v \<Longrightarrow> \<not> IsNull D v \<Longrightarrow> ToString D v = Inr (to_string (int_of v))"
  by (cases v rule: CheckInteger_cases) (simp_all add: ToString_def to_string_defs)

lemmas int_cast_simps =
  CastAs_def cast_defs copy_defs value_ctor_defs limits_defs null_int_def fits_def

lemma CastAs_int:
  assumes "CheckInteger v" and "integer_type t"
  shows "CastAs D v t =
    (if IsNull D v then Inr (int_value t (null_int t))
     else if null_int t < int_of v \<and> int_of v \<le> - null_int t - 1 then Inr (int_value t (int_of v))
     else Inl OUT_OF_RANGE)"
  using assms(1)
proof (cases rule: CheckInteger_cases)
  case (Tinyint x)
  from assms(2) show ?thesis using Tinyint IsNull_int [OF assms(1)] int_of_fits [OF assms(1)]
    by (cases rule: integer_type_cases) (auto simp: int_cast_simps)
next
  case (Smallint x)
  from assms(2) show ?thesis using Smallint IsNull_int [OF assms(1)] int_of_fits [OF assms(1)]
    by (cases rule: integer_type_cases) (auto simp: int_cast_simps)
next
  case (Integer x)
  from assms(2) show ?thesis using Integer IsNull_int [OF assms(1)] int_of_fits [OF assms(1)]
    by (cases rule: integer_type_cases) (auto simp: int_cast_simps)
next
  case (Bigint x)
  from assms(2) show ?thesis using Bigint IsNull_int [OF assms(1)] int_of_fits [OF assms(1)]
    by (cases rule: integer_type_cases) (auto simp: int_cast_simps)
qed

text \<open>C36. Casting a value of an integer type to an integer type keeps null, keeps the number
  exactly when the target type has it (its least bit pattern being reserved for null), and
  otherwise throws the out-of-range exception; it never truncates.\<close>

theorem CastAs_integer:
  assumes "CheckInteger v" and "integer_type t"
  shows "CastAs D v t =
    (if IsNull D v then Inr (int_value t (null_int t))
     else if null_int t < int_of v \<and> int_of v \<le> - null_int t - 1 then Inr (int_value t (int_of v))
     else Inl OUT_OF_RANGE)"
  using assms by (rule CastAs_int)

theorem CastAs_integer_witness:
  "CastAs int_double (Integer_v 300) TINYINT = Inl OUT_OF_RANGE \<and>
   CastAs int_double (Bigint_v 300) SMALLINT = Inr (Smallint_v 300)"
  using CastAs_integer [of "Integer_v 300" TINYINT int_double] CastAs_integer [of "Bigint_v 300" SMALLINT int_double]
  by (simp add: integer_type_def IsNull_int null_int_def)

lemma unat_VALUE_NULL: "unat BUSTUB_VALUE_NULL = 4294967295"
  using unat_INVALID by (simp add: BUSTUB_VALUE_NULL_def INVALID_PAGE_ID_def)

lemma Value_string_ok:
  assumes "length s < 4294967294"
  shows "Value_string VARCHAR s = Inr (Varchar_v (Some (s @ [CHR 0x00])))"
proof -
  have u: "unat (word_of_nat (length s) + 1 :: 32 word) = Suc (length s)"
    using assms by (simp add: unat_word_ariths unat_of_nat take_bit_eq_mod)
  then have "word_of_nat (length s) + 1 \<noteq> BUSTUB_VALUE_NULL"
    using unat_VALUE_NULL assms by auto
  then have "Value_string VARCHAR s =
      Inr (Varchar_v (Some (take (unat (word_of_nat (length s) + 1 :: 32 word)) (s @ [CHR 0x00]))))"
    by (simp only: Value_string_def Let_def type_id.simps if_False)
  with u show ?thesis by simp
qed

section \<open>Integers through text\<close>

lemma length_nat_digits: "n < 10 ^ k \<Longrightarrow> 0 < k \<Longrightarrow> length (nat_digits n) \<le> k"
proof (induction n arbitrary: k rule: nat_digits.induct)
  case (1 n)
  show ?case
  proof (cases "n < 10")
    case True
    with 1 show ?thesis by (subst nat_digits.simps) simp
  next
    case False
    obtain k' where k: "k = Suc k'" using 1(3) by (cases k) auto
    with 1(2) False have k': "0 < k'" by (cases k') auto
    have "n div 10 < 10 ^ k'" using 1(2) k by (simp add: less_mult_imp_div_less)
    with 1(1) [OF False] k k' False show ?thesis by (subst nat_digits.simps) simp
  qed
qed

lemma length_to_string_int: "CheckInteger v \<Longrightarrow> length (to_string (int_of v)) \<le> 21"
proof -
  assume v: "CheckInteger v"
  have "fits 64 (int_of v)"
    using int_of_fits [OF v] v by (cases v) (auto simp: CheckInteger.simps elim!: fits_mono [rotated])
  then have "nat \<bar>int_of v\<bar> < 10 ^ 20" by (auto simp: fits_def)
  then have "length (nat_digits (nat \<bar>int_of v\<bar>)) \<le> 20" by (rule length_nat_digits) simp
  then show ?thesis by (auto simp: to_string_def)
qed

lemma CastAs_varchar:
  assumes "CheckInteger v" and "\<not> IsNull D v"
  shows "CastAs D v VARCHAR = Inr (Varchar_v (Some (to_string (int_of v) @ [CHR 0x00])))"
proof -
  have "CastAs D v VARCHAR = ebind (ToString D v) (Value_string VARCHAR)"
    using assms by (cases v) (simp_all add: CheckInteger.simps CastAs_def cast_defs)
  moreover have "Value_string VARCHAR (to_string (int_of v)) = Inr (Varchar_v (Some (to_string (int_of v) @ [CHR 0x00])))"
    using length_to_string_int [OF assms(1)] by (intro Value_string_ok) simp
  ultimately show ?thesis by (simp only: ToString_int [OF assms] ebind_simps)
qed

lemma size_len_varchar:
  assumes "length cs < 4294967295"
  shows "unat (size_len D (Varchar_v (Some cs))) = length cs" and "\<not> IsNull D (Varchar_v (Some cs))"
proof -
  show u: "unat (size_len D (Varchar_v (Some cs))) = length cs"
    using assms by (simp add: unat_of_nat take_bit_eq_mod)
  with assms show "\<not> IsNull D (Varchar_v (Some cs))"
    unfolding IsNull_def using unat_VALUE_NULL by auto
qed

lemma ToString_varchar:
  assumes "length s < 4294967294"
  shows "ToString D (Varchar_v (Some (s @ [CHR 0x00]))) = Inr s"
proof -
  define v where "v = (Varchar_v (Some (s @ [CHR 0x00])) :: 'a Value)"
  have u: "unat (size_len D v) = Suc (length s)" and n: "\<not> IsNull D v"
    using size_len_varchar [of "s @ [CHR 0x00]" D] assms by (simp_all add: v_def del: size_len.simps)
  have z: "size_len D v \<noteq> 0" "size_len D v \<noteq> BUSTUB_VARCHAR_MAX_LEN"
    using u n by (auto simp: IsNull_def BUSTUB_VARCHAR_MAX_LEN_def BUSTUB_VALUE_NULL_def)
  have "unat (size_len D v - 1) = length s" using unat_minus_one [OF z(1)] u by simp
  moreover have "the (varlen_val v) = s @ [CHR 0x00]" "GetTypeId v = VARCHAR" by (simp_all add: v_def)
  ultimately have "ToString D v = Inr s"
    using n z by (simp add: ToString_def VarlenType_ToString_def Let_def)
  then show ?thesis by (simp add: v_def)
qed

lemma CastAs_varchar_narrow:
  assumes "length s < 4294967294" and "stoi s = Inr n"
  shows "sint (word_of_int n :: 8 word) \<noteq> - 128 \<Longrightarrow> CastAs D (Varchar_v (Some (s @ [CHR 0x00]))) TINYINT = Inr (Tinyint_v (word_of_int n))"
    and "sint (word_of_int n :: 16 word) \<noteq> - 32768 \<Longrightarrow> CastAs D (Varchar_v (Some (s @ [CHR 0x00]))) SMALLINT = Inr (Smallint_v (word_of_int n))"
  using fits_sint [of "word_of_int n :: 8 word"] fits_sint [of "word_of_int n :: 16 word"]
  by (simp_all add: CastAs_def cast_defs ToString_varchar [OF assms(1)] assms(2) Let_def limits_defs value_ctor_defs fits_def)

lemma CastAs_varchar_wide:
  assumes "length s < 4294967294" and "strtol s = Some n"
  shows "CastAs D (Varchar_v (Some (s @ [CHR 0x00]))) INTEGER =
           (if null_int INTEGER < n \<and> n \<le> - null_int INTEGER - 1 then Inr (Integer_v (word_of_int n)) else Inl OUT_OF_RANGE)"
    and "CastAs D (Varchar_v (Some (s @ [CHR 0x00]))) BIGINT =
           (if null_int BIGINT < n \<and> n \<le> - null_int BIGINT - 1 then Inr (Bigint_v (word_of_int n)) else Inl OUT_OF_RANGE)"
proof -
  show "CastAs D (Varchar_v (Some (s @ [CHR 0x00]))) INTEGER =
      (if null_int INTEGER < n \<and> n \<le> - null_int INTEGER - 1 then Inr (Integer_v (word_of_int n)) else Inl OUT_OF_RANGE)"
  proof (cases "fits 32 n")
    case True
    then have "sint (word_of_int n :: 32 word) = n" using sint_word_of_int [where 'a = 32] by simp
    with True show ?thesis
      by (simp add: CastAs_def cast_defs ToString_varchar [OF assms(1)] stoi_def sto_int_def assms(2) Let_def
          limits_defs null_int_def value_ctor_defs fits_def)
  next
    case False
    then show ?thesis
      by (auto simp: CastAs_def cast_defs ToString_varchar [OF assms(1)] stoi_def sto_int_def assms(2) null_int_def fits_def)
  qed
  show "CastAs D (Varchar_v (Some (s @ [CHR 0x00]))) BIGINT =
      (if null_int BIGINT < n \<and> n \<le> - null_int BIGINT - 1 then Inr (Bigint_v (word_of_int n)) else Inl OUT_OF_RANGE)"
  proof (cases "fits 64 n")
    case True
    then have "sint (word_of_int n :: 64 word) = n" using sint_word_of_int [where 'a = 64] by simp
    with True show ?thesis
      by (simp add: CastAs_def cast_defs ToString_varchar [OF assms(1)] stoll_def sto_int_def assms(2) Let_def
          limits_defs null_int_def value_ctor_defs fits_def)
  next
    case False
    then show ?thesis
      by (auto simp: CastAs_def cast_defs ToString_varchar [OF assms(1)] stoll_def sto_int_def assms(2) null_int_def fits_def)
  qed
qed

text \<open>A number that is printed into a string and read back is cast as if it had not been
  printed, when the target is \<^verbatim>\<open>INTEGER\<close> or \<^verbatim>\<open>BIGINT\<close>: the same value, or the same out-of-range
  exception.\<close>

theorem CastAs_through_varchar:
  assumes "CheckInteger v" and "\<not> IsNull D v" and "t = INTEGER \<or> t = BIGINT"
  shows "ebind (CastAs D v VARCHAR) (\<lambda>s. CastAs D s t) = CastAs D v t"
proof -
  have l: "length (to_string (int_of v)) < 4294967294" using length_to_string_int [OF assms(1)] by simp
  have t: "integer_type t" using assms(3) by (auto simp: integer_type_def)
  have "CastAs D (Varchar_v (Some (to_string (int_of v) @ [CHR 0x00]))) t = CastAs D v t"
    unfolding CastAs_int [OF assms(1) t] using assms(2,3) CastAs_varchar_wide [OF l strtol_to_string, of D] by auto
  then show ?thesis by (simp add: CastAs_varchar [OF assms(1,2)])
qed

theorem CastAs_through_varchar_witness:
  "ebind (CastAs int_double (Bigint_v 5000000000) VARCHAR) (\<lambda>s. CastAs int_double s INTEGER) = Inl OUT_OF_RANGE"
proof -
  have "CastAs int_double (Bigint_v 5000000000) INTEGER = Inl OUT_OF_RANGE"
    by (simp add: int_cast_simps IsNull_int)
  with CastAs_through_varchar [of "Bigint_v 5000000000" int_double INTEGER] show ?thesis
    by (simp add: IsNull_int null_int_def)
qed

text \<open>For the two narrow types the detour through text truncates: the string
  \<^verbatim>\<open>'300'\<close> cast to \<^verbatim>\<open>TINYINT\<close> is 44 and \<^verbatim>\<open>'70000'\<close> cast to \<^verbatim>\<open>SMALLINT\<close> is 4464, although the code
  means to throw the out-of-range exception.\<close>

theorem varchar_narrowing_truncates:
  fixes D :: "'d double_ops"
  shows "ebind (Value_string VARCHAR ''300'') (\<lambda>s. CastAs D s TINYINT) = Inr (Tinyint_v 44) \<and>
    ebind (Value_string VARCHAR ''70000'') (\<lambda>s. CastAs D s SMALLINT) = Inr (Smallint_v 4464) \<and>
    CastAs D (Integer_v 300) TINYINT = Inl OUT_OF_RANGE"
proof -
  have "strtol ''300'' = Some 300" "strtol ''70000'' = Some 70000"
    by (simp_all add: strtol_def isdigit_def isspace_def char_code_def)
  then have s: "stoi ''300'' = Inr 300" "stoi ''70000'' = Inr 70000"
    by (simp_all add: stoi_def sto_int_def fits_def)
  have v: "Value_string VARCHAR ''300'' = (Inr (Varchar_v (Some (''300'' @ [CHR 0x00]))) :: exc + 'd Value)"
    "Value_string VARCHAR ''70000'' = (Inr (Varchar_v (Some (''70000'' @ [CHR 0x00]))) :: exc + 'd Value)"
    by (rule Value_string_ok, simp)+
  have w: "word_of_int 300 = (44 :: 8 word)" "word_of_int 70000 = (4464 :: 16 word)" by simp_all
  have a: "ebind (Value_string VARCHAR ''300'') (\<lambda>s. CastAs D s TINYINT) = Inr (Tinyint_v 44)"
    unfolding v ebind_simps w(1) [symmetric] by (rule CastAs_varchar_narrow(1) [OF _ s(1)]) simp_all
  have b: "ebind (Value_string VARCHAR ''70000'') (\<lambda>s. CastAs D s SMALLINT) = Inr (Smallint_v 4464)"
    unfolding v ebind_simps w(2) [symmetric] by (rule CastAs_varchar_narrow(2) [OF _ s(2)]) simp_all
  have c: "CastAs D (Integer_v 300) TINYINT = Inl OUT_OF_RANGE"
    by (simp add: int_cast_simps IsNull_int)
  show ?thesis by (intro conjI a b c)
qed

section \<open>Serialization\<close>

lemmas serialize_defs =
  BooleanType_SerializeTo_def TinyintType_SerializeTo_def SmallintType_SerializeTo_def IntegerType_SerializeTo_def
  BigintType_SerializeTo_def DecimalType_SerializeTo_def

lemmas deserialize_defs =
  BooleanType_DeserializeFrom_def TinyintType_DeserializeFrom_def SmallintType_DeserializeFrom_def
  IntegerType_DeserializeFrom_def BigintType_DeserializeFrom_def DecimalType_DeserializeFrom_def

text \<open>The bytes of an object are read back.\<close>

lemma le_read_back [simp]:
  "word_of_int (le_value (le_bytes (Suc 0) (uint a))) = (a :: 8 word)"
  "word_of_int (le_value (le_bytes 2 (uint b))) = (b :: 16 word)"
  "word_of_int (le_value (le_bytes 4 (uint c))) = (c :: 32 word)"
  "word_of_int (le_value (le_bytes 8 (uint d))) = (d :: 64 word)"
  using word_of_le_value [of 1 a] word_of_le_value [of 2 b] word_of_le_value [of 4 c] word_of_le_value [of 8 d]
  by simp_all

definition serialized_size :: "'d double_ops \<Rightarrow> 'd Value \<Rightarrow> nat" where
  "serialized_size D v = (case v of
       Varchar_v s \<Rightarrow> 4 + (case s of None \<Rightarrow> 0 | Some cs \<Rightarrow> length cs)
     | _ \<Rightarrow> type_width (GetTypeId v) div 8 + (if GetTypeId v = BOOLEAN then 1 else if GetTypeId v = DECIMAL then 8 else 0))"

lemma Varlen_roundtrip:
  assumes "length cs < 4294967295"
  shows "DeserializeFrom D (VarlenType_SerializeTo D (Varchar_v (Some cs)) @ rest) VARCHAR = Inr (Varchar_v (Some cs))"
    and "length (VarlenType_SerializeTo D (Varchar_v (Some cs))) = 4 + length cs"
proof -
  define len where "len = size_len D (Varchar_v (Some cs))"
  have u: "unat len = length cs" and n: "len \<noteq> BUSTUB_VALUE_NULL"
    using size_len_varchar [OF assms, of D] by (simp_all add: len_def IsNull_def del: size_len.simps)
  have bytes: "VarlenType_SerializeTo D (Varchar_v (Some cs)) = le_bytes 4 (uint len) @ map char_byte cs"
    using n u by (simp add: VarlenType_SerializeTo_def Let_def del: size_len.simps flip: len_def)
  have "len < BUSTUB_VARCHAR_MAX_LEN"
    using u assms unat_VALUE_NULL by (simp add: word_less_nat_alt BUSTUB_VARCHAR_MAX_LEN_def BUSTUB_VALUE_NULL_def)
  then show "DeserializeFrom D (VarlenType_SerializeTo D (Varchar_v (Some cs)) @ rest) VARCHAR = Inr (Varchar_v (Some cs))"
    using n u by (simp add: bytes DeserializeFrom_def VarlenType_DeserializeFrom_def Value_varlen_def Let_def comp_def)
  show "length (VarlenType_SerializeTo D (Varchar_v (Some cs))) = 4 + length cs"
    by (simp add: bytes)
qed

text \<open>The values whose serialized form determines them.\<close>

definition storable :: "'d double_ops \<Rightarrow> 'd Value \<Rightarrow> bool" where
  "storable D v \<longleftrightarrow> (case v of
       Invalid_v \<Rightarrow> False
     | Timestamp_v _ \<Rightarrow> False
     | Varchar_v (Some cs) \<Rightarrow> length cs < 4294967295
     | Decimal_v d \<Rightarrow> d_of_bits D (d_to_bits D d) = d
     | _ \<Rightarrow> True)"

lemma serialized_value:
  assumes "storable D v"
  shows "\<exists>bs. SerializeTo D v = Inr bs \<and> length bs = serialized_size D v \<and>
           (\<forall>rest. DeserializeFrom D (bs @ rest) (GetTypeId v) = Inr v)"
proof (cases v)
  case (Varchar_v s)
  then show ?thesis
  proof (cases s)
    case None
    with Varchar_v show ?thesis
      by (simp add: SerializeTo_def VarlenType_SerializeTo_def serialized_size_def DeserializeFrom_def
          VarlenType_DeserializeFrom_def Value_varlen_def Let_def)
  next
    case (Some cs)
    with Varchar_v assms have l: "length cs < 4294967295" by (simp add: storable_def)
    from Some Varchar_v show ?thesis
      using Varlen_roundtrip [OF l, of D] by (simp add: SerializeTo_def serialized_size_def)
  qed
qed (use assms in \<open>simp_all add: SerializeTo_def serialize_defs serialized_size_def DeserializeFrom_def
  deserialize_defs value_ctor_defs storable_def\<close>)

text \<open>C35. Every value of a type that has an instance is read back from the bytes it is serialized
  to, whatever bytes follow, and the number of bytes is the size of its type, or four bytes
  of length and the data for a string.\<close>

theorem DeserializeFrom_SerializeTo:
  assumes "GetTypeId v \<noteq> INVALID" and "GetTypeId v \<noteq> TIMESTAMP"
    and "\<And>cs. v = Varchar_v (Some cs) \<Longrightarrow> length cs < 4294967295"
    and "\<And>d. v = Decimal_v d \<Longrightarrow> d_of_bits D (d_to_bits D d) = d"
  shows "\<exists>bs. SerializeTo D v = Inr bs \<and> length bs = serialized_size D v \<and>
           (\<forall>rest. DeserializeFrom D (bs @ rest) (GetTypeId v) = Inr v)"
  by (rule serialized_value) (use assms in \<open>auto simp: storable_def split: Value.splits option.splits\<close>)

theorem DeserializeFrom_SerializeTo_witness:
  "\<exists>bs. SerializeTo int_double (Varchar_v (Some ''ab'')) = Inr bs \<and> length bs = 6 \<and>
     (\<forall>rest. DeserializeFrom int_double (bs @ rest) VARCHAR = Inr (Varchar_v (Some ''ab'')))"
  using DeserializeFrom_SerializeTo [of "Varchar_v (Some ''ab'')" int_double] by (simp add: serialized_size_def)

end
