(* ===== verification/Value_Compare.thy ===== *)
theory Value_Compare
  imports Value_Cast
begin

text \<open>
  The six comparison methods of every type class (\<^verbatim>\<open>type/*_type.cpp\<close>) and their dispatch in
  \<^verbatim>\<open>include/type/value.h\<close>.  The comparison macros of the code are definitions of their own;
  their argument is the operator.  The properties: integers of any widths compare as
  numbers, strings compare in lexicographic order of their bytes, a null operand gives
  \<^verbatim>\<open>CmpNull\<close>; a string and a number compare differently in the two orders.
\<close>

section \<open>Operators\<close>

definition GetCmpBool :: "bool \<Rightarrow> CmpBool" where
  "GetCmpBool b = (if b then CmpTrue else CmpFalse)"

fun int_cmp :: "cmp_op \<Rightarrow> int \<Rightarrow> int \<Rightarrow> bool" where
  "int_cmp Equals a b = (a = b)"
| "int_cmp NotEquals a b = (a \<noteq> b)"
| "int_cmp LessThan a b = (a < b)"
| "int_cmp LessThanEquals a b = (a \<le> b)"
| "int_cmp GreaterThan a b = (a > b)"
| "int_cmp GreaterThanEquals a b = (a \<ge> b)"

fun d_cmp :: "'d double_ops \<Rightarrow> cmp_op \<Rightarrow> 'd \<Rightarrow> 'd \<Rightarrow> bool" where
  "d_cmp D Equals a b = d_eq D a b"
| "d_cmp D NotEquals a b = (\<not> d_eq D a b)"
| "d_cmp D LessThan a b = d_lt D a b"
| "d_cmp D LessThanEquals a b = d_le D a b"
| "d_cmp D GreaterThan a b = d_lt D b a"
| "d_cmp D GreaterThanEquals a b = d_le D b a"

section \<open>Booleans\<close>

definition BooleanType_Compare :: "'d double_ops \<Rightarrow> cmp_op \<Rightarrow> 'd Value \<Rightarrow> 'd Value \<Rightarrow> exc + CmpBool" where
  "BooleanType_Compare D op left right =
     assert_that (CheckComparable left right)
       (if IsNull D left \<or> IsNull D right then Inr CmpNull
        else ebind (CastAs D right BOOLEAN) (\<lambda>r.
          Inr (GetCmpBool (int_cmp op (sint (boolean_val left)) (sint (boolean_val r))))))"

section \<open>Integers\<close>

definition TINYINT_COMPARE_FUNC :: "'d double_ops \<Rightarrow> cmp_op \<Rightarrow> 'd Value \<Rightarrow> 'd Value \<Rightarrow> exc + CmpBool" where
  "TINYINT_COMPARE_FUNC D op left right = (case GetTypeId right of
       TINYINT \<Rightarrow> Inr (GetCmpBool (int_cmp op (sint (tinyint_val left)) (sint (tinyint_val right))))
     | SMALLINT \<Rightarrow> Inr (GetCmpBool (int_cmp op (sint (tinyint_val left)) (sint (smallint_val right))))
     | INTEGER \<Rightarrow> Inr (GetCmpBool (int_cmp op (sint (tinyint_val left)) (sint (integer_val right))))
     | BIGINT \<Rightarrow> Inr (GetCmpBool (int_cmp op (sint (tinyint_val left)) (sint (bigint_val right))))
     | DECIMAL \<Rightarrow> Inr (GetCmpBool (d_cmp D op (d_of_int D (sint (tinyint_val left))) (decimal_val right)))
     | VARCHAR \<Rightarrow> ebind (CastAs D right TINYINT) (\<lambda>r_value.
         Inr (GetCmpBool (int_cmp op (sint (tinyint_val left)) (sint (tinyint_val r_value)))))
     | _ \<Rightarrow> Inl INVALID_EXC)"

definition TinyintType_Compare :: "'d double_ops \<Rightarrow> cmp_op \<Rightarrow> 'd Value \<Rightarrow> 'd Value \<Rightarrow> exc + CmpBool" where
  "TinyintType_Compare D op left right =
     assert_that (CheckInteger left) (assert_that (CheckComparable left right)
       (if IsNull D left \<or> IsNull D right then Inr CmpNull else TINYINT_COMPARE_FUNC D op left right))"

definition SMALLINT_COMPARE_FUNC :: "'d double_ops \<Rightarrow> cmp_op \<Rightarrow> 'd Value \<Rightarrow> 'd Value \<Rightarrow> exc + CmpBool" where
  "SMALLINT_COMPARE_FUNC D op left right = (case GetTypeId right of
       TINYINT \<Rightarrow> Inr (GetCmpBool (int_cmp op (sint (smallint_val left)) (sint (tinyint_val right))))
     | SMALLINT \<Rightarrow> Inr (GetCmpBool (int_cmp op (sint (smallint_val left)) (sint (smallint_val right))))
     | INTEGER \<Rightarrow> Inr (GetCmpBool (int_cmp op (sint (smallint_val left)) (sint (integer_val right))))
     | BIGINT \<Rightarrow> Inr (GetCmpBool (int_cmp op (sint (smallint_val left)) (sint (bigint_val right))))
     | DECIMAL \<Rightarrow> Inr (GetCmpBool (d_cmp D op (d_of_int D (sint (smallint_val left))) (decimal_val right)))
     | VARCHAR \<Rightarrow> ebind (CastAs D right SMALLINT) (\<lambda>r_value.
         Inr (GetCmpBool (int_cmp op (sint (smallint_val left)) (sint (smallint_val r_value)))))
     | _ \<Rightarrow> Inl INVALID_EXC)"

definition SmallintType_Compare :: "'d double_ops \<Rightarrow> cmp_op \<Rightarrow> 'd Value \<Rightarrow> 'd Value \<Rightarrow> exc + CmpBool" where
  "SmallintType_Compare D op left right =
     assert_that (CheckInteger left) (assert_that (CheckComparable left right)
       (if IsNull D left \<or> IsNull D right then Inr CmpNull else SMALLINT_COMPARE_FUNC D op left right))"

definition INT_COMPARE_FUNC :: "'d double_ops \<Rightarrow> cmp_op \<Rightarrow> 'd Value \<Rightarrow> 'd Value \<Rightarrow> exc + CmpBool" where
  "INT_COMPARE_FUNC D op left right = (case GetTypeId right of
       TINYINT \<Rightarrow> Inr (GetCmpBool (int_cmp op (sint (integer_val left)) (sint (tinyint_val right))))
     | SMALLINT \<Rightarrow> Inr (GetCmpBool (int_cmp op (sint (integer_val left)) (sint (smallint_val right))))
     | INTEGER \<Rightarrow> Inr (GetCmpBool (int_cmp op (sint (integer_val left)) (sint (integer_val right))))
     | BIGINT \<Rightarrow> Inr (GetCmpBool (int_cmp op (sint (integer_val left)) (sint (bigint_val right))))
     | DECIMAL \<Rightarrow> Inr (GetCmpBool (d_cmp D op (d_of_int D (sint (integer_val left))) (decimal_val right)))
     | VARCHAR \<Rightarrow> ebind (CastAs D right INTEGER) (\<lambda>r_value.
         Inr (GetCmpBool (int_cmp op (sint (integer_val left)) (sint (integer_val r_value)))))
     | _ \<Rightarrow> Inl INVALID_EXC)"

definition IntegerType_Compare :: "'d double_ops \<Rightarrow> cmp_op \<Rightarrow> 'd Value \<Rightarrow> 'd Value \<Rightarrow> exc + CmpBool" where
  "IntegerType_Compare D op left right =
     assert_that (CheckInteger left) (assert_that (CheckComparable left right)
       (if IsNull D left \<or> IsNull D right then Inr CmpNull else INT_COMPARE_FUNC D op left right))"

definition BIGINT_COMPARE_FUNC :: "'d double_ops \<Rightarrow> cmp_op \<Rightarrow> 'd Value \<Rightarrow> 'd Value \<Rightarrow> exc + CmpBool" where
  "BIGINT_COMPARE_FUNC D op left right = (case GetTypeId right of
       TINYINT \<Rightarrow> Inr (GetCmpBool (int_cmp op (sint (bigint_val left)) (sint (tinyint_val right))))
     | SMALLINT \<Rightarrow> Inr (GetCmpBool (int_cmp op (sint (bigint_val left)) (sint (smallint_val right))))
     | INTEGER \<Rightarrow> Inr (GetCmpBool (int_cmp op (sint (bigint_val left)) (sint (integer_val right))))
     | BIGINT \<Rightarrow> Inr (GetCmpBool (int_cmp op (sint (bigint_val left)) (sint (bigint_val right))))
     | DECIMAL \<Rightarrow> Inr (GetCmpBool (d_cmp D op (d_of_int D (sint (bigint_val left))) (decimal_val right)))
     | VARCHAR \<Rightarrow> ebind (CastAs D right BIGINT) (\<lambda>r_value.
         Inr (GetCmpBool (int_cmp op (sint (bigint_val left)) (sint (bigint_val r_value)))))
     | _ \<Rightarrow> Inl INVALID_EXC)"

definition BigintType_Compare :: "'d double_ops \<Rightarrow> cmp_op \<Rightarrow> 'd Value \<Rightarrow> 'd Value \<Rightarrow> exc + CmpBool" where
  "BigintType_Compare D op left right =
     assert_that (CheckInteger left) (assert_that (CheckComparable left right)
       (if IsNull D left \<or> IsNull D right then Inr CmpNull else BIGINT_COMPARE_FUNC D op left right))"

section \<open>Decimals\<close>

definition DECIMAL_COMPARE_FUNC :: "'d double_ops \<Rightarrow> cmp_op \<Rightarrow> 'd Value \<Rightarrow> 'd Value \<Rightarrow> exc + CmpBool" where
  "DECIMAL_COMPARE_FUNC D op left right = (case GetTypeId right of
       TINYINT \<Rightarrow> Inr (GetCmpBool (d_cmp D op (decimal_val left) (d_of_int D (sint (tinyint_val right)))))
     | SMALLINT \<Rightarrow> Inr (GetCmpBool (d_cmp D op (decimal_val left) (d_of_int D (sint (smallint_val right)))))
     | INTEGER \<Rightarrow> Inr (GetCmpBool (d_cmp D op (decimal_val left) (d_of_int D (sint (integer_val right)))))
     | BIGINT \<Rightarrow> Inr (GetCmpBool (d_cmp D op (decimal_val left) (d_of_int D (sint (bigint_val right)))))
     | DECIMAL \<Rightarrow> Inr (GetCmpBool (d_cmp D op (decimal_val left) (decimal_val right)))
     | VARCHAR \<Rightarrow> ebind (CastAs D right DECIMAL) (\<lambda>r_value.
         Inr (GetCmpBool (d_cmp D op (decimal_val left) (decimal_val r_value))))
     | _ \<Rightarrow> Inl INVALID_EXC)"

definition DecimalType_Compare :: "'d double_ops \<Rightarrow> cmp_op \<Rightarrow> 'd Value \<Rightarrow> 'd Value \<Rightarrow> exc + CmpBool" where
  "DecimalType_Compare D op left right =
     assert_that (CheckComparable left right)
       (if IsNull D left \<or> IsNull D right then Inr CmpNull else DECIMAL_COMPARE_FUNC D op left right)"

section \<open>Strings\<close>

text \<open>\<^verbatim>\<open>TypeUtil::CompareStrings\<close>: the lengths arrive as \<^verbatim>\<open>int\<close>.\<close>

definition CompareStrings :: "string option \<Rightarrow> int \<Rightarrow> string option \<Rightarrow> int \<Rightarrow> exc + int" where
  "CompareStrings str1 len1 str2 len2 =
     assert_that (str1 \<noteq> None) (assert_that (len1 \<ge> 0) (assert_that (str2 \<noteq> None) (assert_that (len2 \<ge> 0)
       (let ret = memcmp (nat (min len1 len2)) (the str1) (the str2) in
        Inr (if ret = 0 \<and> len1 \<noteq> len2 then len1 - len2 else ret)))))"

definition VARLEN_COMPARE_FUNC :: "'d double_ops \<Rightarrow> cmp_op \<Rightarrow> 'd Value \<Rightarrow> 'd Value \<Rightarrow> exc + CmpBool" where
  "VARLEN_COMPARE_FUNC D op left right =
     (let str1 = varlen_val left; len1 = size_len D left - 1 in
      if GetTypeId right = VARCHAR
      then ebind (CompareStrings str1 (sint len1) (varlen_val right) (sint (size_len D right - 1)))
             (\<lambda>ret. Inr (GetCmpBool (int_cmp op ret 0)))
      else ebind (CastAs D right VARCHAR) (\<lambda>r_value.
             ebind (CompareStrings str1 (sint len1) (varlen_val r_value) (sint (size_len D r_value - 1)))
               (\<lambda>ret. Inr (GetCmpBool (int_cmp op ret 0)))))"

definition VarlenType_Compare :: "'d double_ops \<Rightarrow> cmp_op \<Rightarrow> 'd Value \<Rightarrow> 'd Value \<Rightarrow> exc + CmpBool" where
  "VarlenType_Compare D op left right =
     assert_that (CheckComparable left right)
       (if IsNull D left \<or> IsNull D right then Inr CmpNull
        else if size_len D left = BUSTUB_VARCHAR_MAX_LEN \<or> size_len D right = BUSTUB_VARCHAR_MAX_LEN
        then Inr (GetCmpBool (int_cmp op (uint (size_len D left)) (uint (size_len D right))))
        else VARLEN_COMPARE_FUNC D op left right)"

section \<open>Timestamps\<close>

text \<open>\<^verbatim>\<open>CompareNotEquals\<close> looks at the right operand's null only, and \<^verbatim>\<open>CompareGreaterThan\<close> reads the
  bits as signed.\<close>

definition TimestampType_Compare :: "'d double_ops \<Rightarrow> cmp_op \<Rightarrow> 'd Value \<Rightarrow> 'd Value \<Rightarrow> exc + CmpBool" where
  "TimestampType_Compare D op left right =
     assert_that (CheckComparable left right)
       (if (op \<noteq> NotEquals \<and> IsNull D left) \<or> IsNull D right then Inr CmpNull
        else if op = GreaterThan
        then Inr (GetCmpBool (sint (timestamp_val left) > sint (timestamp_val right)))
        else Inr (GetCmpBool (int_cmp op (uint (timestamp_val left)) (uint (timestamp_val right)))))"

section \<open>Dispatch\<close>

definition Value_Compare :: "'d double_ops \<Rightarrow> cmp_op \<Rightarrow> 'd Value \<Rightarrow> 'd Value \<Rightarrow> exc + CmpBool" where
  "Value_Compare D op v o' = ebind (GetInstance (GetTypeId v)) (\<lambda>inst. case inst of
       INVALID \<Rightarrow> Inl NOT_IMPLEMENTED
     | BOOLEAN \<Rightarrow> BooleanType_Compare D op v o'
     | TINYINT \<Rightarrow> TinyintType_Compare D op v o'
     | SMALLINT \<Rightarrow> SmallintType_Compare D op v o'
     | INTEGER \<Rightarrow> IntegerType_Compare D op v o'
     | BIGINT \<Rightarrow> BigintType_Compare D op v o'
     | DECIMAL \<Rightarrow> DecimalType_Compare D op v o'
     | VARCHAR \<Rightarrow> VarlenType_Compare D op v o'
     | TIMESTAMP \<Rightarrow> TimestampType_Compare D op v o')"

lemmas compare_defs =
  Value_Compare_def BooleanType_Compare_def TinyintType_Compare_def SmallintType_Compare_def IntegerType_Compare_def
  BigintType_Compare_def DecimalType_Compare_def VarlenType_Compare_def

lemmas compare_func_defs =
  TINYINT_COMPARE_FUNC_def SMALLINT_COMPARE_FUNC_def INT_COMPARE_FUNC_def BIGINT_COMPARE_FUNC_def
  DECIMAL_COMPARE_FUNC_def VARLEN_COMPARE_FUNC_def

section \<open>Integers compare as numbers\<close>

lemma CheckComparable_int: "CheckInteger l \<Longrightarrow> CheckInteger r \<Longrightarrow> CheckComparable l r"
  by (auto simp: CheckInteger.simps CheckComparable.simps)

lemma Compare_int:
  assumes "CheckInteger l" and "CheckInteger r"
  shows "Value_Compare D op l r =
    Inr (if IsNull D l \<or> IsNull D r then CmpNull else GetCmpBool (int_cmp op (int_of l) (int_of r)))"
  using assms(1)
proof (cases rule: CheckInteger_cases)
  case (Tinyint x)
  from assms(2) show ?thesis using Tinyint CheckComparable_int [OF assms]
    by (cases rule: CheckInteger_cases) (simp_all add: compare_defs compare_func_defs)
next
  case (Smallint x)
  from assms(2) show ?thesis using Smallint CheckComparable_int [OF assms]
    by (cases rule: CheckInteger_cases) (simp_all add: compare_defs compare_func_defs)
next
  case (Integer x)
  from assms(2) show ?thesis using Integer CheckComparable_int [OF assms]
    by (cases rule: CheckInteger_cases) (simp_all add: compare_defs compare_func_defs)
next
  case (Bigint x)
  from assms(2) show ?thesis using Bigint CheckComparable_int [OF assms]
    by (cases rule: CheckInteger_cases) (simp_all add: compare_defs compare_func_defs)
qed

text \<open>C33. Two values of integer types, of equal or different widths, compare as the numbers they
  hold under each of the six operators, and to \<^verbatim>\<open>CmpNull\<close> when one of them is null.\<close>

theorem integers_compare_as_numbers:
  assumes "CheckInteger l" and "CheckInteger r"
  shows "Value_Compare D op l r =
    Inr (if IsNull D l \<or> IsNull D r then CmpNull else GetCmpBool (int_cmp op (int_of l) (int_of r)))"
  using assms by (rule Compare_int)

theorem integers_compare_as_numbers_witness:
  "Value_Compare int_double LessThan (Tinyint_v (- 1)) (Bigint_v 4294967295) = Inr CmpTrue \<and>
   Value_Compare int_double Equals (Integer_v BUSTUB_INT32_NULL) (Bigint_v 0) = Inr CmpNull"
  using integers_compare_as_numbers [of "Tinyint_v (- 1)" "Bigint_v 4294967295" int_double LessThan]
    integers_compare_as_numbers [of "Integer_v BUSTUB_INT32_NULL" "Bigint_v 0" int_double Equals]
  by (simp add: IsNull_def GetCmpBool_def BUSTUB_VALUE_NULL_def)

section \<open>Strings compare lexicographically\<close>

definition byte_order :: "(char \<times> char) set" where
  "byte_order = {(a, b). char_code a < char_code b}"

text \<open>What \<^verbatim>\<open>CompareStrings\<close> returns for two whole strings.\<close>

definition string_cmp :: "string \<Rightarrow> string \<Rightarrow> int" where
  "string_cmp s t =
     (let ret = memcmp (min (length s) (length t)) s t
      in if ret = 0 \<and> length s \<noteq> length t then int (length s) - int (length t) else ret)"

lemma char_code_inject [simp]: "char_code a = char_code b \<longleftrightarrow> a = b"
  by (simp add: char_code_def)

lemma string_cmp_simps [simp]:
  "string_cmp [] [] = 0" "string_cmp [] (b # t) = - 1 - int (length t)" "string_cmp (a # s) [] = 1 + int (length s)"
  "string_cmp (a # s) (b # t) = (if a = b then string_cmp s t else int (char_code a) - int (char_code b))"
  by (simp_all add: string_cmp_def Let_def)

lemma string_cmp_eq: "string_cmp s t = 0 \<longleftrightarrow> s = t"
proof (induction s arbitrary: t)
  case Nil
  then show ?case by (cases t) auto
next
  case (Cons a s)
  then show ?case by (cases t) auto
qed

lemma string_cmp_less: "string_cmp s t < 0 \<longleftrightarrow> (s, t) \<in> lexord byte_order"
proof (induction s arbitrary: t)
  case Nil
  then show ?case by (cases t) simp_all
next
  case (Cons a s)
  then show ?case by (cases t) (auto simp: byte_order_def)
qed

lemma string_cmp_minus: "string_cmp s t > 0 \<longleftrightarrow> string_cmp t s < 0"
proof (induction s arbitrary: t)
  case Nil
  then show ?case by (cases t) auto
next
  case (Cons a s)
  then show ?case by (cases t) auto
qed

lemma memcmp_append:
  "n \<le> length s \<Longrightarrow> n \<le> length t \<Longrightarrow> memcmp n (s @ u) (t @ v) = memcmp n s t"
proof (induction n arbitrary: s t)
  case (Suc n)
  then obtain a s' b t' where "s = a # s'" "t = b # t'" by (metis Suc_le_length_iff)
  with Suc show ?case by simp
qed simp

lemma CompareStrings_whole:
  "CompareStrings (Some (s @ u)) (int (length s)) (Some (t @ v)) (int (length t)) = Inr (string_cmp s t)"
proof -
  have "nat (min (int (length s)) (int (length t))) = min (length s) (length t)" by simp
  then show ?thesis by (simp add: CompareStrings_def string_cmp_def memcmp_append Let_def)
qed

text \<open>The string values that hold a text: its bytes and the final zero byte.\<close>

definition varchar_of :: "string \<Rightarrow> 'd Value" where
  "varchar_of s = Varchar_v (Some (s @ [CHR 0x00]))"

lemma varchar_of_simps [simp]:
  "GetTypeId (varchar_of s) = VARCHAR" "varlen_val (varchar_of s) = Some (s @ [CHR 0x00])"
  by (simp_all add: varchar_of_def)

lemma max_len_nonzero: "0 \<noteq> BUSTUB_VARCHAR_MAX_LEN"
  by (simp add: BUSTUB_VARCHAR_MAX_LEN_def)

lemma varchar_of_len:
  assumes "length s < 2147483648"
  shows "\<not> IsNull D (varchar_of s)" and "sint (size_len D (varchar_of s) - 1) = int (length s)"
    and "size_len D (varchar_of s) \<noteq> BUSTUB_VARCHAR_MAX_LEN"
proof -
  show n: "\<not> IsNull D (varchar_of s)"
    unfolding varchar_of_def using assms by (intro size_len_varchar) simp
  then show "size_len D (varchar_of s) \<noteq> BUSTUB_VARCHAR_MAX_LEN"
    by (simp add: IsNull_def BUSTUB_VARCHAR_MAX_LEN_def BUSTUB_VALUE_NULL_def)
  have "size_len D (varchar_of s) - 1 = word_of_int (int (length s))"
    by (simp add: varchar_of_def)
  moreover have "sint (word_of_int (int (length s)) :: 32 word) = int (length s)"
    using assms by (intro sint_word_of_int [where 'a = 32]) (simp add: fits_def)
  ultimately show "sint (size_len D (varchar_of s) - 1) = int (length s)" by simp
qed

lemma Compare_varchar:
  assumes "length s < 2147483648" and "length t < 2147483648"
  shows "Value_Compare D op (varchar_of s) (varchar_of t) = Inr (GetCmpBool (int_cmp op (string_cmp s t) 0))"
  by (simp add: compare_defs compare_func_defs varchar_of_len assms CheckComparable.simps CompareStrings_whole Let_def)

text \<open>C34. Two texts stored as \<^verbatim>\<open>VARCHAR\<close> with their closing zero compare in the lexicographic order of their bytes under each of
  the six operators.\<close>

theorem strings_compare_lexicographically:
  assumes "length s < 2147483648" and "length t < 2147483648"
  shows "Value_Compare D op (varchar_of s) (varchar_of t) =
    Inr (GetCmpBool (case op of
        Equals \<Rightarrow> s = t
      | NotEquals \<Rightarrow> s \<noteq> t
      | LessThan \<Rightarrow> (s, t) \<in> lexord byte_order
      | LessThanEquals \<Rightarrow> s = t \<or> (s, t) \<in> lexord byte_order
      | GreaterThan \<Rightarrow> (t, s) \<in> lexord byte_order
      | GreaterThanEquals \<Rightarrow> s = t \<or> (t, s) \<in> lexord byte_order))"
proof -
  have "int_cmp op (string_cmp s t) 0 = (case op of
        Equals \<Rightarrow> s = t
      | NotEquals \<Rightarrow> s \<noteq> t
      | LessThan \<Rightarrow> (s, t) \<in> lexord byte_order
      | LessThanEquals \<Rightarrow> s = t \<or> (s, t) \<in> lexord byte_order
      | GreaterThan \<Rightarrow> (t, s) \<in> lexord byte_order
      | GreaterThanEquals \<Rightarrow> s = t \<or> (t, s) \<in> lexord byte_order)"
    using string_cmp_eq [of s t] string_cmp_less [of s t] string_cmp_less [of t s] string_cmp_minus [of s t]
    by (cases op) (simp_all, linarith+)
  with Compare_varchar [OF assms, of D op] show ?thesis by simp
qed

theorem strings_compare_lexicographically_witness:
  "Value_Compare int_double LessThan (varchar_of ''9'') (varchar_of ''10'') = Inr CmpFalse"
  using strings_compare_lexicographically [of "''9''" "''10''" int_double LessThan]
  by (simp add: byte_order_def char_code_def GetCmpBool_def)

section \<open>Mixed comparisons\<close>

lemma to_string_10: "to_string 10 = ''10''"
  by code_simp

text \<open>A number and a string compare as numbers when the number is on the left, and as texts when
  it is on the right: \<^verbatim>\<open>10 < '9'\<close> is false but \<^verbatim>\<open>'9' > 10\<close> is true.\<close>

theorem mixed_comparison_asymmetric:
  "Value_Compare D LessThan (Integer_v 10) (varchar_of ''9'') = Inr CmpFalse \<and>
   Value_Compare D GreaterThan (varchar_of ''9'') (Integer_v 10) = Inr CmpTrue"
proof
  have "strtol ''9'' = Some 9" by (simp add: strtol_def isdigit_def isspace_def char_code_def)
  then have "CastAs D (varchar_of ''9'') INTEGER = Inr (Integer_v 9)"
    unfolding varchar_of_def using CastAs_varchar_wide(1) [of "''9''" 9 D] by (simp add: null_int_def)
  then show "Value_Compare D LessThan (Integer_v 10) (varchar_of ''9'') = Inr CmpFalse"
    by (simp add: varchar_of_len compare_defs compare_func_defs CheckComparable.simps IsNull_int null_int_def GetCmpBool_def)
  have "CastAs D (Integer_v 10) VARCHAR = Inr (varchar_of ''10'')"
    using CastAs_varchar [of "Integer_v 10" D] by (simp add: IsNull_int null_int_def to_string_10 varchar_of_def)
  then show "Value_Compare D GreaterThan (varchar_of ''9'') (Integer_v 10) = Inr CmpTrue"
    using CompareStrings_whole [of "''9''" "[CHR 0x00]" "''10''" "[CHR 0x00]"] varchar_of_len(2) [of "''9''" D] varchar_of_len(2) [of "''10''" D]
    by (simp add: compare_defs compare_func_defs CheckComparable.simps varchar_of_len IsNull_int null_int_def GetCmpBool_def
        Let_def max_len_nonzero char_code_def)
qed

end
