(* ===== verification/Value_Arith.thy ===== *)
theory Value_Arith
  imports Value_Compare
begin

text \<open>
  Arithmetic on values (\<^verbatim>\<open>Add\<close>, \<^verbatim>\<open>Subtract\<close>, \<^verbatim>\<open>Multiply\<close>, \<^verbatim>\<open>Divide\<close>, \<^verbatim>\<open>Modulo\<close>, \<^verbatim>\<open>Sqrt\<close>, \<^verbatim>\<open>Min\<close>, \<^verbatim>\<open>Max\<close>,
  \<^verbatim>\<open>OperateNull\<close>, \<^verbatim>\<open>IsZero\<close>): the templates of \<^verbatim>\<open>include/type/integer_parent_type.h\<close>, the classes of
  \<^verbatim>\<open>type/*_type.cpp\<close> and the dispatch of \<^verbatim>\<open>include/type/value.h\<close>.  The template arguments are the
  widths in bits; sums, differences and products are taken in the promoted type and wrap
  around in it.  The properties: on non-null integers every operation is exact in the wider
  of the two types or throws the out-of-range exception, no division traps, and where the
  exact result is the least number of its type it silently becomes null.
\<close>

section \<open>Templates for integers\<close>

definition GetAs_int :: "nat \<Rightarrow> 'd Value \<Rightarrow> int" where
  "GetAs_int w v =
     (if w = 8 then sint (tinyint_val v) else if w = 16 then sint (smallint_val v)
      else if w = 32 then sint (integer_val v) else sint (bigint_val v))"

definition AddValue :: "nat \<Rightarrow> nat \<Rightarrow> 'd Value \<Rightarrow> 'd Value \<Rightarrow> exc + 'd Value" where
  "AddValue T1 T2 left right =
     (let x = GetAs_int T1 left; y = GetAs_int T2 right;
          s = wrap (common T1 T2) (x + y);
          sum1 = wrap T1 s; sum2 = wrap T2 s
      in if s \<noteq> sum1 \<and> s \<noteq> sum2 then Inl OUT_OF_RANGE
         else if T1 \<ge> T2
         then (if (x > 0 \<and> y > 0 \<and> sum1 < 0) \<or> (x < 0 \<and> y < 0 \<and> sum1 > 0) then Inl OUT_OF_RANGE
               else Value_intN T1 (GetTypeId left) sum1)
         else if (x > 0 \<and> y > 0 \<and> sum2 < 0) \<or> (x < 0 \<and> y < 0 \<and> sum2 > 0) then Inl OUT_OF_RANGE
         else Value_intN T2 (GetTypeId right) sum2)"

definition SubtractValue :: "nat \<Rightarrow> nat \<Rightarrow> 'd Value \<Rightarrow> 'd Value \<Rightarrow> exc + 'd Value" where
  "SubtractValue T1 T2 left right =
     (let x = GetAs_int T1 left; y = GetAs_int T2 right;
          d = wrap (common T1 T2) (x - y);
          diff1 = wrap T1 d; diff2 = wrap T2 d
      in if d \<noteq> diff1 \<and> d \<noteq> diff2 then Inl OUT_OF_RANGE
         else if T1 \<ge> T2
         then (if (x > 0 \<and> y < 0 \<and> diff1 < 0) \<or> (x < 0 \<and> y > 0 \<and> diff1 > 0) then Inl OUT_OF_RANGE
               else Value_intN T1 (GetTypeId left) diff1)
         else if (x > 0 \<and> y < 0 \<and> diff2 < 0) \<or> (x < 0 \<and> y > 0 \<and> diff2 > 0) then Inl OUT_OF_RANGE
         else Value_intN T2 (GetTypeId right) diff2)"

definition MultiplyValue :: "nat \<Rightarrow> nat \<Rightarrow> 'd Value \<Rightarrow> 'd Value \<Rightarrow> exc + 'd Value" where
  "MultiplyValue T1 T2 left right =
     (let x = GetAs_int T1 left; y = GetAs_int T2 right;
          p = wrap (common T1 T2) (x * y);
          prod1 = wrap T1 p; prod2 = wrap T2 p
      in if p \<noteq> prod1 \<and> p \<noteq> prod2 then Inl OUT_OF_RANGE
         else if T1 \<ge> T2
         then (if y = 0 then Value_intN T1 (GetTypeId left) prod1
               else ebind (int_div (common T1 T2) prod1 y) (\<lambda>q.
                      if q \<noteq> x then Inl OUT_OF_RANGE else Value_intN T1 (GetTypeId left) prod1))
         else (if y = 0 then Value_intN T2 (GetTypeId right) prod2
               else ebind (int_div (common T1 T2) prod2 y) (\<lambda>q.
                      if q \<noteq> x then Inl OUT_OF_RANGE else Value_intN T2 (GetTypeId right) prod2)))"

definition DivideValue :: "nat \<Rightarrow> nat \<Rightarrow> 'd Value \<Rightarrow> 'd Value \<Rightarrow> exc + 'd Value" where
  "DivideValue T1 T2 left right =
     (let x = GetAs_int T1 left; y = GetAs_int T2 right
      in if y = 0 then Inl DIVIDE_BY_ZERO
         else ebind (int_div (common T1 T2) x y) (\<lambda>q.
           let quot1 = wrap T1 q; quot2 = wrap T2 q in
           if T1 \<ge> T2 then Value_intN T1 (GetTypeId left) quot1
           else Value_intN T2 (GetTypeId right) quot2))"

definition ModuloValue :: "nat \<Rightarrow> nat \<Rightarrow> 'd Value \<Rightarrow> 'd Value \<Rightarrow> exc + 'd Value" where
  "ModuloValue T1 T2 left right =
     (let x = GetAs_int T1 left; y = GetAs_int T2 right
      in if y = 0 then Inl DIVIDE_BY_ZERO
         else ebind (int_mod (common T1 T2) x y) (\<lambda>q.
           let quot1 = wrap T1 q; quot2 = wrap T2 q in
           if T1 \<ge> T2 then Value_intN T1 (GetTypeId left) quot1
           else Value_intN T2 (GetTypeId right) quot2))"

definition ValMod :: "'d double_ops \<Rightarrow> 'd \<Rightarrow> 'd \<Rightarrow> 'd" where
  "ValMod D x y = d_sub D x (d_mul D (d_trunc D (d_div D x y)) y)"

text \<open>The two arguments that \<^verbatim>\<open>Add\<close>, \<^verbatim>\<open>Subtract\<close> and \<^verbatim>\<open>Multiply\<close> hand to the macros.\<close>

fun modify_method :: "arith_op \<Rightarrow> nat \<Rightarrow> nat \<Rightarrow> 'd Value \<Rightarrow> 'd Value \<Rightarrow> exc + 'd Value" where
  "modify_method Plus = AddValue"
| "modify_method Minus = SubtractValue"
| "modify_method Times = MultiplyValue"

fun modify_double :: "'d double_ops \<Rightarrow> arith_op \<Rightarrow> 'd \<Rightarrow> 'd \<Rightarrow> 'd" where
  "modify_double D Plus = d_add D"
| "modify_double D Minus = d_sub D"
| "modify_double D Times = d_mul D"

section \<open>Nulls and zero\<close>

definition TinyintType_OperateNull :: "'d double_ops \<Rightarrow> 'd Value \<Rightarrow> 'd Value \<Rightarrow> exc + 'd Value" where
  "TinyintType_OperateNull D left right = (case GetTypeId right of
       TINYINT \<Rightarrow> Value_int8 TINYINT BUSTUB_INT8_NULL
     | SMALLINT \<Rightarrow> Value_int16 SMALLINT BUSTUB_INT16_NULL
     | INTEGER \<Rightarrow> Value_int32 INTEGER BUSTUB_INT32_NULL
     | BIGINT \<Rightarrow> Value_int64 BIGINT BUSTUB_INT64_NULL
     | DECIMAL \<Rightarrow> Value_double DECIMAL (d_lowest D)
     | _ \<Rightarrow> Inl INVALID_EXC)"

definition SmallintType_OperateNull :: "'d double_ops \<Rightarrow> 'd Value \<Rightarrow> 'd Value \<Rightarrow> exc + 'd Value" where
  "SmallintType_OperateNull D left right = (case GetTypeId right of
       TINYINT \<Rightarrow> Value_int16 SMALLINT BUSTUB_INT16_NULL
     | SMALLINT \<Rightarrow> Value_int16 SMALLINT BUSTUB_INT16_NULL
     | INTEGER \<Rightarrow> Value_int32 INTEGER BUSTUB_INT32_NULL
     | BIGINT \<Rightarrow> Value_int64 BIGINT BUSTUB_INT64_NULL
     | DECIMAL \<Rightarrow> Value_double DECIMAL (d_lowest D)
     | _ \<Rightarrow> Inl INVALID_EXC)"

definition IntegerType_OperateNull :: "'d double_ops \<Rightarrow> 'd Value \<Rightarrow> 'd Value \<Rightarrow> exc + 'd Value" where
  "IntegerType_OperateNull D left right = (case GetTypeId right of
       TINYINT \<Rightarrow> Value_int32 INTEGER BUSTUB_INT32_NULL
     | SMALLINT \<Rightarrow> Value_int32 INTEGER BUSTUB_INT32_NULL
     | INTEGER \<Rightarrow> Value_int32 INTEGER BUSTUB_INT32_NULL
     | BIGINT \<Rightarrow> Value_int64 BIGINT BUSTUB_INT64_NULL
     | DECIMAL \<Rightarrow> Value_double DECIMAL (d_lowest D)
     | _ \<Rightarrow> Inl INVALID_EXC)"

definition BigintType_OperateNull :: "'d double_ops \<Rightarrow> 'd Value \<Rightarrow> 'd Value \<Rightarrow> exc + 'd Value" where
  "BigintType_OperateNull D left right = (case GetTypeId right of
       TINYINT \<Rightarrow> Value_int64 BIGINT BUSTUB_INT64_NULL
     | SMALLINT \<Rightarrow> Value_int64 BIGINT BUSTUB_INT64_NULL
     | INTEGER \<Rightarrow> Value_int64 BIGINT BUSTUB_INT64_NULL
     | BIGINT \<Rightarrow> Value_int64 BIGINT BUSTUB_INT64_NULL
     | DECIMAL \<Rightarrow> Value_double DECIMAL (d_lowest D)
     | _ \<Rightarrow> Inl INVALID_EXC)"

definition DecimalType_OperateNull :: "'d double_ops \<Rightarrow> 'd Value \<Rightarrow> 'd Value \<Rightarrow> exc + 'd Value" where
  "DecimalType_OperateNull D left right = Value_double DECIMAL (d_lowest D)"

text \<open>The classes without arithmetic inherit the methods of \<^verbatim>\<open>Type\<close>, which throw.\<close>

definition OperateNull :: "'d double_ops \<Rightarrow> 'd Value \<Rightarrow> 'd Value \<Rightarrow> exc + 'd Value" where
  "OperateNull D v o' = ebind (GetInstance (GetTypeId v)) (\<lambda>inst. case inst of
       TINYINT \<Rightarrow> TinyintType_OperateNull D v o'
     | SMALLINT \<Rightarrow> SmallintType_OperateNull D v o'
     | INTEGER \<Rightarrow> IntegerType_OperateNull D v o'
     | BIGINT \<Rightarrow> BigintType_OperateNull D v o'
     | DECIMAL \<Rightarrow> DecimalType_OperateNull D v o'
     | _ \<Rightarrow> Inl NOT_IMPLEMENTED)"

definition IsZero :: "'d double_ops \<Rightarrow> 'd Value \<Rightarrow> exc + bool" where
  "IsZero D v = ebind (GetInstance (GetTypeId v)) (\<lambda>inst. case inst of
       TINYINT \<Rightarrow> Inr (tinyint_val v = 0)
     | SMALLINT \<Rightarrow> Inr (smallint_val v = 0)
     | INTEGER \<Rightarrow> Inr (integer_val v = 0)
     | BIGINT \<Rightarrow> Inr (bigint_val v = 0)
     | DECIMAL \<Rightarrow> Inr (d_eq D (decimal_val v) (d_of_int D 0))
     | _ \<Rightarrow> Inl NOT_IMPLEMENTED)"

section \<open>\<^verbatim>\<open>TinyintType\<close>\<close>

definition TINYINT_MODIFY_FUNC ::
  "'d double_ops \<Rightarrow> (nat \<Rightarrow> nat \<Rightarrow> 'd Value \<Rightarrow> 'd Value \<Rightarrow> exc + 'd Value) \<Rightarrow> ('d \<Rightarrow> 'd \<Rightarrow> 'd)
     \<Rightarrow> 'd Value \<Rightarrow> 'd Value \<Rightarrow> exc + 'd Value" where
  "TINYINT_MODIFY_FUNC D METHOD OP left right = (case GetTypeId right of
       TINYINT \<Rightarrow> METHOD 8 8 left right
     | SMALLINT \<Rightarrow> METHOD 8 16 left right
     | INTEGER \<Rightarrow> METHOD 8 32 left right
     | BIGINT \<Rightarrow> METHOD 8 64 left right
     | DECIMAL \<Rightarrow> Value_double DECIMAL (OP (d_of_int D (sint (tinyint_val left))) (decimal_val right))
     | VARCHAR \<Rightarrow> ebind (CastAs D right TINYINT) (\<lambda>r_value. METHOD 8 8 left r_value)
     | _ \<Rightarrow> Inl INVALID_EXC)"

definition TinyintType_Modify :: "arith_op \<Rightarrow> 'd double_ops \<Rightarrow> 'd Value \<Rightarrow> 'd Value \<Rightarrow> exc + 'd Value" where
  "TinyintType_Modify op D left right =
     assert_that (CheckInteger left) (assert_that (CheckComparable left right)
       (if IsNull D left \<or> IsNull D right then OperateNull D left right
        else TINYINT_MODIFY_FUNC D (modify_method op) (modify_double D op) left right))"

definition TinyintType_Divide :: "'d double_ops \<Rightarrow> 'd Value \<Rightarrow> 'd Value \<Rightarrow> exc + 'd Value" where
  "TinyintType_Divide D left right =
     assert_that (CheckInteger left) (assert_that (CheckComparable left right)
       (if IsNull D left \<or> IsNull D right then OperateNull D left right
        else ebind (IsZero D right) (\<lambda>zero. if zero then Inl DIVIDE_BY_ZERO
          else TINYINT_MODIFY_FUNC D DivideValue (d_div D) left right)))"

definition TinyintType_Modulo :: "'d double_ops \<Rightarrow> 'd Value \<Rightarrow> 'd Value \<Rightarrow> exc + 'd Value" where
  "TinyintType_Modulo D left right =
     assert_that (CheckInteger left) (assert_that (CheckComparable left right)
       (if IsNull D left \<or> IsNull D right then OperateNull D left right
        else ebind (IsZero D right) (\<lambda>zero. if zero then Inl DIVIDE_BY_ZERO
          else (case GetTypeId right of
              TINYINT \<Rightarrow> ModuloValue 8 8 left right
            | SMALLINT \<Rightarrow> ModuloValue 8 16 left right
            | INTEGER \<Rightarrow> ModuloValue 8 32 left right
            | BIGINT \<Rightarrow> ModuloValue 8 64 left right
            | DECIMAL \<Rightarrow> Value_double DECIMAL (ValMod D (d_of_int D (sint (tinyint_val left))) (decimal_val right))
            | VARCHAR \<Rightarrow> ebind (CastAs D right TINYINT) (\<lambda>r_value. ModuloValue 8 8 left r_value)
            | _ \<Rightarrow> Inl INVALID_EXC))))"

definition TinyintType_Sqrt :: "'d double_ops \<Rightarrow> 'd Value \<Rightarrow> exc + 'd Value" where
  "TinyintType_Sqrt D val =
     assert_that (CheckInteger val)
       (if IsNull D val then Value_double DECIMAL (d_lowest D)
        else if sint (tinyint_val val) < 0 then Inl DECIMAL_EXC
        else Value_double DECIMAL (d_sqrt D (d_of_int D (sint (tinyint_val val)))))"

section \<open>\<^verbatim>\<open>SmallintType\<close>\<close>

definition SMALLINT_MODIFY_FUNC ::
  "'d double_ops \<Rightarrow> (nat \<Rightarrow> nat \<Rightarrow> 'd Value \<Rightarrow> 'd Value \<Rightarrow> exc + 'd Value) \<Rightarrow> ('d \<Rightarrow> 'd \<Rightarrow> 'd)
     \<Rightarrow> 'd Value \<Rightarrow> 'd Value \<Rightarrow> exc + 'd Value" where
  "SMALLINT_MODIFY_FUNC D METHOD OP left right = (case GetTypeId right of
       TINYINT \<Rightarrow> METHOD 16 8 left right
     | SMALLINT \<Rightarrow> METHOD 16 16 left right
     | INTEGER \<Rightarrow> METHOD 16 32 left right
     | BIGINT \<Rightarrow> METHOD 16 64 left right
     | DECIMAL \<Rightarrow> Value_double DECIMAL (OP (d_of_int D (sint (smallint_val left))) (decimal_val right))
     | VARCHAR \<Rightarrow> ebind (CastAs D right SMALLINT) (\<lambda>r_value. METHOD 16 16 left r_value)
     | _ \<Rightarrow> Inl INVALID_EXC)"

definition SmallintType_Modify :: "arith_op \<Rightarrow> 'd double_ops \<Rightarrow> 'd Value \<Rightarrow> 'd Value \<Rightarrow> exc + 'd Value" where
  "SmallintType_Modify op D left right =
     assert_that (CheckInteger left) (assert_that (CheckComparable left right)
       (if IsNull D left \<or> IsNull D right then OperateNull D left right
        else SMALLINT_MODIFY_FUNC D (modify_method op) (modify_double D op) left right))"

definition SmallintType_Divide :: "'d double_ops \<Rightarrow> 'd Value \<Rightarrow> 'd Value \<Rightarrow> exc + 'd Value" where
  "SmallintType_Divide D left right =
     assert_that (CheckInteger left) (assert_that (CheckComparable left right)
       (if IsNull D left \<or> IsNull D right then OperateNull D left right
        else ebind (IsZero D right) (\<lambda>zero. if zero then Inl DIVIDE_BY_ZERO
          else SMALLINT_MODIFY_FUNC D DivideValue (d_div D) left right)))"

definition SmallintType_Modulo :: "'d double_ops \<Rightarrow> 'd Value \<Rightarrow> 'd Value \<Rightarrow> exc + 'd Value" where
  "SmallintType_Modulo D left right =
     assert_that (CheckInteger left) (assert_that (CheckComparable left right)
       (if IsNull D left \<or> IsNull D right then OperateNull D left right
        else ebind (IsZero D right) (\<lambda>zero. if zero then Inl DIVIDE_BY_ZERO
          else (case GetTypeId right of
              TINYINT \<Rightarrow> ModuloValue 16 8 left right
            | SMALLINT \<Rightarrow> ModuloValue 16 16 left right
            | INTEGER \<Rightarrow> ModuloValue 16 32 left right
            | BIGINT \<Rightarrow> ModuloValue 16 64 left right
            | DECIMAL \<Rightarrow> Value_double DECIMAL (ValMod D (d_of_int D (sint (smallint_val left))) (decimal_val right))
            | VARCHAR \<Rightarrow> ebind (CastAs D right SMALLINT) (\<lambda>r_value. ModuloValue 16 16 left r_value)
            | _ \<Rightarrow> Inl INVALID_EXC))))"

definition SmallintType_Sqrt :: "'d double_ops \<Rightarrow> 'd Value \<Rightarrow> exc + 'd Value" where
  "SmallintType_Sqrt D val =
     assert_that (CheckInteger val)
       (if IsNull D val then Value_double DECIMAL (d_lowest D)
        else if sint (smallint_val val) < 0 then Inl DECIMAL_EXC
        else Value_double DECIMAL (d_sqrt D (d_of_int D (sint (smallint_val val)))))"

section \<open>\<^verbatim>\<open>IntegerType\<close>\<close>

definition INT_MODIFY_FUNC ::
  "'d double_ops \<Rightarrow> (nat \<Rightarrow> nat \<Rightarrow> 'd Value \<Rightarrow> 'd Value \<Rightarrow> exc + 'd Value) \<Rightarrow> ('d \<Rightarrow> 'd \<Rightarrow> 'd)
     \<Rightarrow> 'd Value \<Rightarrow> 'd Value \<Rightarrow> exc + 'd Value" where
  "INT_MODIFY_FUNC D METHOD OP left right = (case GetTypeId right of
       TINYINT \<Rightarrow> METHOD 32 8 left right
     | SMALLINT \<Rightarrow> METHOD 32 16 left right
     | INTEGER \<Rightarrow> METHOD 32 32 left right
     | BIGINT \<Rightarrow> METHOD 32 64 left right
     | DECIMAL \<Rightarrow> Value_double DECIMAL (OP (d_of_int D (sint (integer_val left))) (decimal_val right))
     | VARCHAR \<Rightarrow> ebind (CastAs D right INTEGER) (\<lambda>r_value. METHOD 32 32 left r_value)
     | _ \<Rightarrow> Inl INVALID_EXC)"

definition IntegerType_Modify :: "arith_op \<Rightarrow> 'd double_ops \<Rightarrow> 'd Value \<Rightarrow> 'd Value \<Rightarrow> exc + 'd Value" where
  "IntegerType_Modify op D left right =
     assert_that (CheckInteger left) (assert_that (CheckComparable left right)
       (if IsNull D left \<or> IsNull D right then OperateNull D left right
        else INT_MODIFY_FUNC D (modify_method op) (modify_double D op) left right))"

definition IntegerType_Divide :: "'d double_ops \<Rightarrow> 'd Value \<Rightarrow> 'd Value \<Rightarrow> exc + 'd Value" where
  "IntegerType_Divide D left right =
     assert_that (CheckInteger left) (assert_that (CheckComparable left right)
       (if IsNull D left \<or> IsNull D right then OperateNull D left right
        else ebind (IsZero D right) (\<lambda>zero. if zero then Inl DIVIDE_BY_ZERO
          else INT_MODIFY_FUNC D DivideValue (d_div D) left right)))"

definition IntegerType_Modulo :: "'d double_ops \<Rightarrow> 'd Value \<Rightarrow> 'd Value \<Rightarrow> exc + 'd Value" where
  "IntegerType_Modulo D left right =
     assert_that (CheckInteger left) (assert_that (CheckComparable left right)
       (if IsNull D left \<or> IsNull D right then OperateNull D left right
        else ebind (IsZero D right) (\<lambda>zero. if zero then Inl DIVIDE_BY_ZERO
          else (case GetTypeId right of
              TINYINT \<Rightarrow> ModuloValue 32 8 left right
            | SMALLINT \<Rightarrow> ModuloValue 32 16 left right
            | INTEGER \<Rightarrow> ModuloValue 32 32 left right
            | BIGINT \<Rightarrow> ModuloValue 32 64 left right
            | DECIMAL \<Rightarrow> Value_double DECIMAL (ValMod D (d_of_int D (sint (integer_val left))) (decimal_val right))
            | VARCHAR \<Rightarrow> ebind (CastAs D right INTEGER) (\<lambda>r_value. ModuloValue 32 32 left r_value)
            | _ \<Rightarrow> Inl INVALID_EXC))))"

definition IntegerType_Sqrt :: "'d double_ops \<Rightarrow> 'd Value \<Rightarrow> exc + 'd Value" where
  "IntegerType_Sqrt D val =
     assert_that (CheckInteger val)
       (if IsNull D val then IntegerType_OperateNull D val val
        else if sint (integer_val val) < 0 then Inl DECIMAL_EXC
        else Value_double DECIMAL (d_sqrt D (d_of_int D (sint (integer_val val)))))"

section \<open>\<^verbatim>\<open>BigintType\<close>\<close>

definition BIGINT_MODIFY_FUNC ::
  "'d double_ops \<Rightarrow> (nat \<Rightarrow> nat \<Rightarrow> 'd Value \<Rightarrow> 'd Value \<Rightarrow> exc + 'd Value) \<Rightarrow> ('d \<Rightarrow> 'd \<Rightarrow> 'd)
     \<Rightarrow> 'd Value \<Rightarrow> 'd Value \<Rightarrow> exc + 'd Value" where
  "BIGINT_MODIFY_FUNC D METHOD OP left right = (case GetTypeId right of
       TINYINT \<Rightarrow> METHOD 64 8 left right
     | SMALLINT \<Rightarrow> METHOD 64 16 left right
     | INTEGER \<Rightarrow> METHOD 64 32 left right
     | BIGINT \<Rightarrow> METHOD 64 64 left right
     | DECIMAL \<Rightarrow> Value_double DECIMAL (OP (d_of_int D (sint (bigint_val left))) (decimal_val right))
     | VARCHAR \<Rightarrow> ebind (CastAs D right BIGINT) (\<lambda>r_value. METHOD 64 64 left r_value)
     | _ \<Rightarrow> Inl INVALID_EXC)"

definition BigintType_Modify :: "arith_op \<Rightarrow> 'd double_ops \<Rightarrow> 'd Value \<Rightarrow> 'd Value \<Rightarrow> exc + 'd Value" where
  "BigintType_Modify op D left right =
     assert_that (CheckInteger left) (assert_that (CheckComparable left right)
       (if IsNull D left \<or> IsNull D right then OperateNull D left right
        else BIGINT_MODIFY_FUNC D (modify_method op) (modify_double D op) left right))"

definition BigintType_Divide :: "'d double_ops \<Rightarrow> 'd Value \<Rightarrow> 'd Value \<Rightarrow> exc + 'd Value" where
  "BigintType_Divide D left right =
     assert_that (CheckInteger left) (assert_that (CheckComparable left right)
       (if IsNull D left \<or> IsNull D right then OperateNull D left right
        else ebind (IsZero D right) (\<lambda>zero. if zero then Inl DIVIDE_BY_ZERO
          else BIGINT_MODIFY_FUNC D DivideValue (d_div D) left right)))"

definition BigintType_Modulo :: "'d double_ops \<Rightarrow> 'd Value \<Rightarrow> 'd Value \<Rightarrow> exc + 'd Value" where
  "BigintType_Modulo D left right =
     assert_that (CheckInteger left) (assert_that (CheckComparable left right)
       (if IsNull D left \<or> IsNull D right then OperateNull D left right
        else ebind (IsZero D right) (\<lambda>zero. if zero then Inl DIVIDE_BY_ZERO
          else (case GetTypeId right of
              TINYINT \<Rightarrow> ModuloValue 64 8 left right
            | SMALLINT \<Rightarrow> ModuloValue 64 16 left right
            | INTEGER \<Rightarrow> ModuloValue 64 32 left right
            | BIGINT \<Rightarrow> ModuloValue 64 64 left right
            | DECIMAL \<Rightarrow> Value_double DECIMAL (ValMod D (d_of_int D (sint (bigint_val left))) (decimal_val right))
            | VARCHAR \<Rightarrow> ebind (CastAs D right BIGINT) (\<lambda>r_value. ModuloValue 64 64 left r_value)
            | _ \<Rightarrow> Inl INVALID_EXC))))"

definition BigintType_Sqrt :: "'d double_ops \<Rightarrow> 'd Value \<Rightarrow> exc + 'd Value" where
  "BigintType_Sqrt D val =
     assert_that (CheckInteger val)
       (if IsNull D val then Value_double DECIMAL (d_lowest D)
        else if sint (bigint_val val) < 0 then Inl DECIMAL_EXC
        else Value_double DECIMAL (d_sqrt D (d_of_int D (sint (bigint_val val)))))"

section \<open>\<^verbatim>\<open>DecimalType\<close>\<close>

definition DECIMAL_MODIFY_FUNC :: "'d double_ops \<Rightarrow> ('d \<Rightarrow> 'd \<Rightarrow> 'd) \<Rightarrow> 'd Value \<Rightarrow> 'd Value \<Rightarrow> exc + 'd Value" where
  "DECIMAL_MODIFY_FUNC D OP left right = (case GetTypeId right of
       TINYINT \<Rightarrow> Value_double DECIMAL (OP (decimal_val left) (d_of_int D (sint (tinyint_val right))))
     | SMALLINT \<Rightarrow> Value_double DECIMAL (OP (decimal_val left) (d_of_int D (sint (smallint_val right))))
     | INTEGER \<Rightarrow> Value_double DECIMAL (OP (decimal_val left) (d_of_int D (sint (integer_val right))))
     | BIGINT \<Rightarrow> Value_double DECIMAL (OP (decimal_val left) (d_of_int D (sint (bigint_val right))))
     | DECIMAL \<Rightarrow> Value_double DECIMAL (OP (decimal_val left) (decimal_val right))
     | VARCHAR \<Rightarrow> ebind (CastAs D right DECIMAL) (\<lambda>r_value.
         Value_double DECIMAL (OP (decimal_val left) (decimal_val r_value)))
     | _ \<Rightarrow> Inl INVALID_EXC)"

definition DecimalType_Modify :: "arith_op \<Rightarrow> 'd double_ops \<Rightarrow> 'd Value \<Rightarrow> 'd Value \<Rightarrow> exc + 'd Value" where
  "DecimalType_Modify op D left right =
     assert_that (CheckComparable left right)
       (if IsNull D left \<or> IsNull D right then OperateNull D left right
        else DECIMAL_MODIFY_FUNC D (modify_double D op) left right)"

definition DecimalType_Divide :: "'d double_ops \<Rightarrow> 'd Value \<Rightarrow> 'd Value \<Rightarrow> exc + 'd Value" where
  "DecimalType_Divide D left right =
     assert_that (CheckComparable left right)
       (if IsNull D left \<or> IsNull D right then OperateNull D left right
        else ebind (IsZero D right) (\<lambda>zero. if zero then Inl DIVIDE_BY_ZERO
          else DECIMAL_MODIFY_FUNC D (d_div D) left right))"

definition DecimalType_Modulo :: "'d double_ops \<Rightarrow> 'd Value \<Rightarrow> 'd Value \<Rightarrow> exc + 'd Value" where
  "DecimalType_Modulo D left right =
     assert_that (CheckComparable left right)
       (if IsNull D left \<or> IsNull D right then DecimalType_OperateNull D left right
        else ebind (IsZero D right) (\<lambda>zero. if zero then Inl DIVIDE_BY_ZERO
          else DECIMAL_MODIFY_FUNC D (ValMod D) left right))"

definition DecimalType_Sqrt :: "'d double_ops \<Rightarrow> 'd Value \<Rightarrow> exc + 'd Value" where
  "DecimalType_Sqrt D val =
     (if IsNull D val then Value_double DECIMAL (d_lowest D)
      else if d_lt D (decimal_val val) (d_of_int D 0) then Inl DECIMAL_EXC
      else Value_double DECIMAL (d_sqrt D (decimal_val val)))"

section \<open>Minimum and maximum\<close>

definition IntegerParentType_Min :: "'d double_ops \<Rightarrow> 'd Value \<Rightarrow> 'd Value \<Rightarrow> exc + 'd Value" where
  "IntegerParentType_Min D left right =
     assert_that (CheckInteger left) (assert_that (CheckComparable left right)
       (if IsNull D left \<or> IsNull D right then OperateNull D left right
        else ebind (Value_Compare D LessThan left right) (\<lambda>c. if c = CmpTrue then Copy left else Copy right)))"

definition IntegerParentType_Max :: "'d double_ops \<Rightarrow> 'd Value \<Rightarrow> 'd Value \<Rightarrow> exc + 'd Value" where
  "IntegerParentType_Max D left right =
     assert_that (CheckInteger left) (assert_that (CheckComparable left right)
       (if IsNull D left \<or> IsNull D right then OperateNull D left right
        else ebind (Value_Compare D GreaterThanEquals left right) (\<lambda>c. if c = CmpTrue then Copy left else Copy right)))"

definition DecimalType_Min :: "'d double_ops \<Rightarrow> 'd Value \<Rightarrow> 'd Value \<Rightarrow> exc + 'd Value" where
  "DecimalType_Min D left right =
     assert_that (CheckComparable left right)
       (if IsNull D left \<or> IsNull D right then OperateNull D left right
        else ebind (Value_Compare D LessThanEquals left right) (\<lambda>c. if c = CmpTrue then Copy left else Copy right))"

definition DecimalType_Max :: "'d double_ops \<Rightarrow> 'd Value \<Rightarrow> 'd Value \<Rightarrow> exc + 'd Value" where
  "DecimalType_Max D left right =
     assert_that (CheckComparable left right)
       (if IsNull D left \<or> IsNull D right then OperateNull D left right
        else ebind (Value_Compare D GreaterThanEquals left right) (\<lambda>c. if c = CmpTrue then Copy left else Copy right))"

definition VarlenType_Min :: "'d double_ops \<Rightarrow> 'd Value \<Rightarrow> 'd Value \<Rightarrow> exc + 'd Value" where
  "VarlenType_Min D left right =
     assert_that (CheckComparable left right)
       (if IsNull D left \<or> IsNull D right then OperateNull D left right
        else ebind (Value_Compare D LessThan left right) (\<lambda>c. if c = CmpTrue then Copy left else Copy right))"

definition VarlenType_Max :: "'d double_ops \<Rightarrow> 'd Value \<Rightarrow> 'd Value \<Rightarrow> exc + 'd Value" where
  "VarlenType_Max D left right =
     assert_that (CheckComparable left right)
       (if IsNull D left \<or> IsNull D right then OperateNull D left right
        else ebind (Value_Compare D GreaterThan left right) (\<lambda>c. if c = CmpTrue then Copy left else Copy right))"

definition TimestampType_Min :: "'d double_ops \<Rightarrow> 'd Value \<Rightarrow> 'd Value \<Rightarrow> exc + 'd Value" where
  "TimestampType_Min D left right =
     assert_that (CheckComparable left right)
       (if IsNull D left \<or> IsNull D right then OperateNull D left right
        else ebind (Value_Compare D LessThan left right) (\<lambda>c. if c = CmpTrue then Copy left else Copy right))"

definition TimestampType_Max :: "'d double_ops \<Rightarrow> 'd Value \<Rightarrow> 'd Value \<Rightarrow> exc + 'd Value" where
  "TimestampType_Max D left right =
     assert_that (CheckComparable left right)
       (if IsNull D left \<or> IsNull D right then OperateNull D left right
        else ebind (Value_Compare D GreaterThanEquals left right) (\<lambda>c. if c = CmpTrue then Copy left else Copy right))"

section \<open>Dispatch\<close>

text \<open>\<^verbatim>\<open>Value::Add\<close>, \<^verbatim>\<open>Value::Subtract\<close> and \<^verbatim>\<open>Value::Multiply\<close>.\<close>

definition Value_Modify :: "arith_op \<Rightarrow> 'd double_ops \<Rightarrow> 'd Value \<Rightarrow> 'd Value \<Rightarrow> exc + 'd Value" where
  "Value_Modify op D v o' = ebind (GetInstance (GetTypeId v)) (\<lambda>inst. case inst of
       TINYINT \<Rightarrow> TinyintType_Modify op D v o'
     | SMALLINT \<Rightarrow> SmallintType_Modify op D v o'
     | INTEGER \<Rightarrow> IntegerType_Modify op D v o'
     | BIGINT \<Rightarrow> BigintType_Modify op D v o'
     | DECIMAL \<Rightarrow> DecimalType_Modify op D v o'
     | _ \<Rightarrow> Inl NOT_IMPLEMENTED)"

definition Value_Divide :: "'d double_ops \<Rightarrow> 'd Value \<Rightarrow> 'd Value \<Rightarrow> exc + 'd Value" where
  "Value_Divide D v o' = ebind (GetInstance (GetTypeId v)) (\<lambda>inst. case inst of
       TINYINT \<Rightarrow> TinyintType_Divide D v o'
     | SMALLINT \<Rightarrow> SmallintType_Divide D v o'
     | INTEGER \<Rightarrow> IntegerType_Divide D v o'
     | BIGINT \<Rightarrow> BigintType_Divide D v o'
     | DECIMAL \<Rightarrow> DecimalType_Divide D v o'
     | _ \<Rightarrow> Inl NOT_IMPLEMENTED)"

definition Value_Modulo :: "'d double_ops \<Rightarrow> 'd Value \<Rightarrow> 'd Value \<Rightarrow> exc + 'd Value" where
  "Value_Modulo D v o' = ebind (GetInstance (GetTypeId v)) (\<lambda>inst. case inst of
       TINYINT \<Rightarrow> TinyintType_Modulo D v o'
     | SMALLINT \<Rightarrow> SmallintType_Modulo D v o'
     | INTEGER \<Rightarrow> IntegerType_Modulo D v o'
     | BIGINT \<Rightarrow> BigintType_Modulo D v o'
     | DECIMAL \<Rightarrow> DecimalType_Modulo D v o'
     | _ \<Rightarrow> Inl NOT_IMPLEMENTED)"

definition Value_Min :: "'d double_ops \<Rightarrow> 'd Value \<Rightarrow> 'd Value \<Rightarrow> exc + 'd Value" where
  "Value_Min D v o' = ebind (GetInstance (GetTypeId v)) (\<lambda>inst. case inst of
       INVALID \<Rightarrow> Inl NOT_IMPLEMENTED
     | BOOLEAN \<Rightarrow> Inl NOT_IMPLEMENTED
     | DECIMAL \<Rightarrow> DecimalType_Min D v o'
     | VARCHAR \<Rightarrow> VarlenType_Min D v o'
     | TIMESTAMP \<Rightarrow> TimestampType_Min D v o'
     | _ \<Rightarrow> IntegerParentType_Min D v o')"

definition Value_Max :: "'d double_ops \<Rightarrow> 'd Value \<Rightarrow> 'd Value \<Rightarrow> exc + 'd Value" where
  "Value_Max D v o' = ebind (GetInstance (GetTypeId v)) (\<lambda>inst. case inst of
       INVALID \<Rightarrow> Inl NOT_IMPLEMENTED
     | BOOLEAN \<Rightarrow> Inl NOT_IMPLEMENTED
     | DECIMAL \<Rightarrow> DecimalType_Max D v o'
     | VARCHAR \<Rightarrow> VarlenType_Max D v o'
     | TIMESTAMP \<Rightarrow> TimestampType_Max D v o'
     | _ \<Rightarrow> IntegerParentType_Max D v o')"

definition Value_Sqrt :: "'d double_ops \<Rightarrow> 'd Value \<Rightarrow> exc + 'd Value" where
  "Value_Sqrt D v = ebind (GetInstance (GetTypeId v)) (\<lambda>inst. case inst of
       TINYINT \<Rightarrow> TinyintType_Sqrt D v
     | SMALLINT \<Rightarrow> SmallintType_Sqrt D v
     | INTEGER \<Rightarrow> IntegerType_Sqrt D v
     | BIGINT \<Rightarrow> BigintType_Sqrt D v
     | DECIMAL \<Rightarrow> DecimalType_Sqrt D v
     | _ \<Rightarrow> Inl NOT_IMPLEMENTED)"

section \<open>Overflow detection\<close>

definition int_width :: "nat \<Rightarrow> bool" where
  "int_width T \<longleftrightarrow> T \<in> {8, 16, 32, 64}"

definition nonnull :: "nat \<Rightarrow> int \<Rightarrow> bool" where
  "nonnull w n \<longleftrightarrow> - (2 ^ (w - 1)) < n \<and> n < 2 ^ (w - 1)"

lemma width_cases:
  assumes "int_width T1" and "int_width T2"
  shows "0 < max T1 T2 \<and> max T1 T2 \<le> common T1 T2 \<and>
         (max T1 T2 = common T1 T2 \<or> max T1 T2 \<le> 16 \<and> common T1 T2 = 32)"
  using assms by (auto simp: int_width_def common_def)

lemma nonnull_mono: "v \<le> w \<Longrightarrow> nonnull v n \<Longrightarrow> nonnull w n"
proof -
  assume "v \<le> w" "nonnull v n"
  moreover have "(2 :: int) ^ (v - 1) \<le> 2 ^ (w - 1)" using \<open>v \<le> w\<close> by (intro power_increasing) auto
  ultimately show ?thesis unfolding nonnull_def by linarith
qed

lemma nonnull_max1: "nonnull T1 n \<Longrightarrow> nonnull (max T1 T2) n"
  by (rule nonnull_mono [OF max.cobounded1])

lemma nonnull_max2: "nonnull T2 n \<Longrightarrow> nonnull (max T1 T2) n"
  by (rule nonnull_mono [OF max.cobounded2])

lemma nonnull_fits: "nonnull w n \<Longrightarrow> fits w n"
  by (simp add: nonnull_def fits_def)

lemma wrap_above:
  assumes "0 < w" and "2 ^ (w - 1) \<le> z" and "z < 2 ^ w + 2 ^ (w - 1)"
  shows "wrap w z = z - 2 ^ w"
proof -
  have "(z + 2 ^ (w - 1) - 2 ^ w) mod 2 ^ w = z + 2 ^ (w - 1) - 2 ^ w"
    using assms two_pow_split [OF assms(1)] by (intro mod_pos_pos_trivial) auto
  then show ?thesis unfolding wrap_def by simp
qed

lemma wrap_below:
  assumes "0 < w" and "z < - (2 ^ (w - 1))" and "- (2 ^ w) - 2 ^ (w - 1) \<le> z"
  shows "wrap w z = z + 2 ^ w"
proof -
  have "(z + 2 ^ (w - 1) + 2 ^ w) mod 2 ^ w = z + 2 ^ (w - 1) + 2 ^ w"
    using assms two_pow_split [OF assms(1)] by (intro mod_pos_pos_trivial) auto
  then show ?thesis unfolding wrap_def by simp
qed

text \<open>The first test of the templates: the promoted result fits neither operand's type.\<close>

lemma fits_neither:
  assumes "int_width T1" and "int_width T2"
  shows "(s \<noteq> wrap T1 s \<and> s \<noteq> wrap T2 s) \<longleftrightarrow> \<not> fits (max T1 T2) s"
proof -
  have "0 < T1" "0 < T2" using assms by (auto simp: int_width_def)
  then have "s \<noteq> wrap T1 s \<longleftrightarrow> \<not> fits T1 s" "s \<noteq> wrap T2 s \<longleftrightarrow> \<not> fits T2 s"
    by (metis wrap_eq_iff)+
  then show ?thesis using fits_mono [of T1 "max T1 T2" s] fits_mono [of T2 "max T1 T2" s]
    by (auto simp: max_def)
qed

lemma wrap_common:
  assumes "int_width T1" and "int_width T2" and "fits (max T1 T2) z"
  shows "wrap (common T1 T2) z = z"
  using width_cases [OF assms(1,2)] assms(3) by (auto intro!: wrap_id fits_mono [OF _ assms(3)])

text \<open>Sum of two non-null operands: the sign test catches every overflow.\<close>

lemma sum_overflow:
  assumes "int_width T1" and "int_width T2" and "nonnull (max T1 T2) x" and "nonnull (max T1 T2) y"
    and "\<not> fits (max T1 T2) (x + y)" and "fits (max T1 T2) s" and s: "s = wrap (common T1 T2) (x + y)"
  shows "(x > 0 \<and> y > 0 \<and> s < 0) \<or> (x < 0 \<and> y < 0 \<and> s > 0)"
proof -
  define M where "M = max T1 T2"
  have M: "0 < M" and c: "M = common T1 T2 \<or> M \<le> 16 \<and> common T1 T2 = 32"
    using width_cases [OF assms(1,2)] by (auto simp: M_def)
  have xy: "nonnull M x" "nonnull M y" "\<not> fits M (x + y)" "fits M s" using assms by (simp_all add: M_def)
  have W: "M = common T1 T2"
  proof (rule ccontr)
    assume "M \<noteq> common T1 T2"
    with c have "M \<le> 16" "common T1 T2 = 32" by auto
    with xy have "nonnull 16 x" "nonnull 16 y" using nonnull_mono by blast+
    then have "fits 32 (x + y)" by (auto simp: nonnull_def fits_def)
    then have "s = x + y" using s \<open>common T1 T2 = 32\<close> by simp
    with xy show False by simp
  qed
  then have s: "s = wrap M (x + y)" using s by simp
  note d = two_pow_split [OF M] and xy' = xy(1,2) [unfolded nonnull_def]
  from xy(3) consider "2 ^ (M - 1) \<le> x + y" | "x + y < - (2 ^ (M - 1))" by (auto simp: fits_def)
  then show ?thesis
  proof cases
    case 1
    then have "s = x + y - 2 ^ M" unfolding s using d xy' M by (intro wrap_above) linarith+
    with 1 xy' d show ?thesis by linarith
  next
    case 2
    then have "s = x + y + 2 ^ M" unfolding s using d xy' M by (intro wrap_below) linarith+
    with 2 xy' d show ?thesis by linarith
  qed
qed

lemma mult_sdiv_cancel:
  fixes x y :: int
  assumes "y \<noteq> 0"
  shows "x * y sdiv y = x"
proof -
  have "\<bar>x * y\<bar> div \<bar>y\<bar> = \<bar>x\<bar>" using assms by (simp add: abs_mult)
  then have "x * y sdiv y = (sgn x * \<bar>x\<bar>) * (sgn y * sgn y)"
    by (simp only: signed_divide_int_def sgn_mult mult_ac)
  also have "sgn y * sgn y = 1" using assms by (simp add: sgn_if)
  finally show ?thesis by (simp add: sgn_mult_abs)
qed

text \<open>Product: dividing it back catches every overflow, and the division does not trap.\<close>

lemma product_overflow:
  assumes "int_width T1" and "int_width T2" and "nonnull (max T1 T2) x" and "nonnull (max T1 T2) y" and "y \<noteq> 0"
    and "fits (max T1 T2) s" and s: "s = wrap (common T1 T2) (x * y)"
  shows "int_div (common T1 T2) s y = Inr (s sdiv y)"
    and "s sdiv y = x \<longleftrightarrow> fits (max T1 T2) (x * y)"
proof -
  define M W where "M = max T1 T2" and "W = common T1 T2"
  have M: "0 < M" "M \<le> W" and c: "M = W \<or> M \<le> 16 \<and> W = 32"
    using width_cases [OF assms(1,2)] by (auto simp: M_def W_def)
  have xy: "nonnull M x" "nonnull M y" "fits M s" using assms by (simp_all add: M_def)
  obtain k where k: "s = x * y - k * 2 ^ W" using wrap_diff_multiple [of W "x * y"] s by (auto simp: W_def)
  have small: "\<bar>y\<bar> < 2 ^ W" "\<bar>x\<bar> < 2 ^ (W - 1)"
    using nonnull_mono [OF M(2) xy(2)] nonnull_mono [OF M(2) xy(1)] two_pow_split [of W] M by (auto simp: nonnull_def)
  have exact: "s = x * y" if "s sdiv y = x"
  proof -
    have "s = x * y + s smod y" using sdiv_mult_smod_eq [of s y] that by simp
    then have "\<bar>k * 2 ^ W\<bar> < \<bar>y\<bar>" using k smod_int_range [OF assms(5), of s] by auto
    moreover have "\<bar>k * 2 ^ W\<bar> = \<bar>k\<bar> * 2 ^ W" by (simp add: abs_mult)
    ultimately have "\<bar>k\<bar> * 2 ^ W < 1 * 2 ^ W" using small(1) by linarith
    then have "\<bar>k\<bar> < 1" by (rule mult_right_less_imp_less) simp
    then have "k = 0" by simp
    with k show ?thesis by simp
  qed
  show "s sdiv y = x \<longleftrightarrow> fits (max T1 T2) (x * y)"
  proof
    assume "s sdiv y = x"
    with exact xy(3) show "fits (max T1 T2) (x * y)" by (simp add: M_def)
  next
    assume "fits (max T1 T2) (x * y)"
    then have "s = x * y" using s wrap_common [OF assms(1,2)] by simp
    then show "s sdiv y = x" using assms(5) by (simp add: mult_sdiv_cancel)
  qed
  have "\<not> (s = - (2 ^ (W - 1)) \<and> y = - 1)"
  proof
    assume "s = - (2 ^ (W - 1)) \<and> y = - 1"
    then have "- (2 ^ (W - 1)) = x * (- 1) - k * 2 ^ W" using k by metis
    then have "x = 2 ^ (W - 1) - k * 2 ^ W" by linarith
    then have e: "x = 2 ^ (W - 1) * (1 - 2 * k)" using two_pow_split [of W] M by (simp add: algebra_simps)
    have "1 \<le> \<bar>1 - 2 * k\<bar>" by arith
    then have "2 ^ (W - 1) \<le> \<bar>x\<bar>" unfolding e abs_mult by simp
    with small(2) show False by simp
  qed
  then show "int_div (common T1 T2) s y = Inr (s sdiv y)" by (auto simp: int_div_def W_def)
qed

section \<open>The templates are exact\<close>

abbreviation (input) wider :: "nat \<Rightarrow> nat \<Rightarrow> 'd Value \<Rightarrow> 'd Value \<Rightarrow> type_id" where
  "wider T1 T2 left right \<equiv> GetTypeId (if T1 \<ge> T2 then left else right)"

lemma wrap_max:
  "int_width T1 \<Longrightarrow> int_width T2 \<Longrightarrow> fits (max T1 T2) s \<Longrightarrow>
     (T2 \<le> T1 \<longrightarrow> wrap T1 s = s) \<and> (\<not> T2 \<le> T1 \<longrightarrow> wrap T2 s = s)"
  by (auto simp: max_def int_width_def split: if_splits)

lemma AddValue_exact:
  assumes T: "int_width T1" "int_width T2"
    and x: "nonnull T1 (GetAs_int T1 left)" and y: "nonnull T2 (GetAs_int T2 right)"
  shows "AddValue T1 T2 left right =
    (let z = GetAs_int T1 left + GetAs_int T2 right in
     if fits (max T1 T2) z then Value_intN (max T1 T2) (wider T1 T2 left right) z else Inl OUT_OF_RANGE)"
proof -
  define a b where "a = GetAs_int T1 left" and "b = GetAs_int T2 right"
  define s where "s = wrap (common T1 T2) (a + b)"
  have ab: "nonnull (max T1 T2) a" "nonnull (max T1 T2) b"
    using nonnull_max1 [OF x] nonnull_max2 [OF y] by (simp_all add: a_def b_def)
  have A: "AddValue T1 T2 left right =
      (if \<not> fits (max T1 T2) s then Inl OUT_OF_RANGE
       else if (a > 0 \<and> b > 0 \<and> s < 0) \<or> (a < 0 \<and> b < 0 \<and> s > 0) then Inl OUT_OF_RANGE
       else Value_intN (max T1 T2) (wider T1 T2 left right) s)"
    unfolding AddValue_def Let_def a_def [symmetric] b_def [symmetric] s_def [symmetric] fits_neither [OF T]
    using wrap_max [OF T, of s] by (auto simp: max_def)
  show ?thesis
  proof (cases "fits (max T1 T2) (a + b)")
    case True
    then have "s = a + b" by (simp add: s_def wrap_common [OF T])
    with True A show ?thesis by (auto simp: a_def b_def)
  next
    case False
    with A sum_overflow [OF T ab False _ s_def] show ?thesis by (auto simp: a_def b_def)
  qed
qed

lemma nonnull_minus: "nonnull w n \<Longrightarrow> nonnull w (- n)"
  by (auto simp: nonnull_def)

lemma SubtractValue_exact:
  assumes T: "int_width T1" "int_width T2"
    and x: "nonnull T1 (GetAs_int T1 left)" and y: "nonnull T2 (GetAs_int T2 right)"
  shows "SubtractValue T1 T2 left right =
    (let z = GetAs_int T1 left - GetAs_int T2 right in
     if fits (max T1 T2) z then Value_intN (max T1 T2) (wider T1 T2 left right) z else Inl OUT_OF_RANGE)"
proof -
  define a b where "a = GetAs_int T1 left" and "b = GetAs_int T2 right"
  define s where "s = wrap (common T1 T2) (a - b)"
  have ab: "nonnull (max T1 T2) a" "nonnull (max T1 T2) (- b)"
    using nonnull_max1 [OF x] nonnull_max2 [OF nonnull_minus [OF y]] by (simp_all add: a_def b_def)
  have A: "SubtractValue T1 T2 left right =
      (if \<not> fits (max T1 T2) s then Inl OUT_OF_RANGE
       else if (a > 0 \<and> b < 0 \<and> s < 0) \<or> (a < 0 \<and> b > 0 \<and> s > 0) then Inl OUT_OF_RANGE
       else Value_intN (max T1 T2) (wider T1 T2 left right) s)"
    unfolding SubtractValue_def Let_def a_def [symmetric] b_def [symmetric] s_def [symmetric] fits_neither [OF T]
    using wrap_max [OF T, of s] by (auto simp: max_def)
  show ?thesis
  proof (cases "fits (max T1 T2) (a - b)")
    case True
    then have "s = a - b" by (simp add: s_def wrap_common [OF T])
    with True A show ?thesis by (auto simp: a_def b_def)
  next
    case False
    with A sum_overflow [OF T ab, of s] show ?thesis by (auto simp: a_def b_def s_def)
  qed
qed

lemma MultiplyValue_exact:
  assumes T: "int_width T1" "int_width T2"
    and x: "nonnull T1 (GetAs_int T1 left)" and y: "nonnull T2 (GetAs_int T2 right)"
  shows "MultiplyValue T1 T2 left right =
    (let z = GetAs_int T1 left * GetAs_int T2 right in
     if fits (max T1 T2) z then Value_intN (max T1 T2) (wider T1 T2 left right) z else Inl OUT_OF_RANGE)"
proof -
  define a b where "a = GetAs_int T1 left" and "b = GetAs_int T2 right"
  define s where "s = wrap (common T1 T2) (a * b)"
  have ab: "nonnull (max T1 T2) a" "nonnull (max T1 T2) b"
    using nonnull_max1 [OF x] nonnull_max2 [OF y] by (simp_all add: a_def b_def)
  have A: "MultiplyValue T1 T2 left right =
      (if \<not> fits (max T1 T2) s then Inl OUT_OF_RANGE
       else if b = 0 then Value_intN (max T1 T2) (wider T1 T2 left right) s
       else ebind (int_div (common T1 T2) s b) (\<lambda>q.
         if q \<noteq> a then Inl OUT_OF_RANGE else Value_intN (max T1 T2) (wider T1 T2 left right) s))"
    unfolding MultiplyValue_def Let_def a_def [symmetric] b_def [symmetric] s_def [symmetric] fits_neither [OF T]
    using wrap_max [OF T, of s] by (auto simp: max_def ebind_def split: sum.splits)
  have z: "fits (max T1 T2) (0 :: int)" by (simp add: fits_def)
  show ?thesis
  proof (cases "fits (max T1 T2) s")
    case fs: True
    show ?thesis
    proof (cases "b = 0")
      case True
      with A z fs show ?thesis using wrap_common [OF T z] by (simp add: s_def flip: a_def b_def)
    next
      case False
      note p = product_overflow [OF T ab False fs s_def]
      have "fits (max T1 T2) (a * b) \<Longrightarrow> s = a * b" by (simp add: s_def wrap_common [OF T])
      with A p fs False show ?thesis by (auto simp: Let_def simp flip: a_def b_def)
    qed
  next
    case False
    then have "\<not> fits (max T1 T2) (a * b)" using wrap_common [OF T] by (auto simp: s_def)
    with A False show ?thesis by (simp flip: a_def b_def)
  qed
qed

lemma trap_free: "int_width T1 \<Longrightarrow> int_width T2 \<Longrightarrow> nonnull T1 x \<Longrightarrow> x \<noteq> - (2 ^ (common T1 T2 - 1))"
  using nonnull_mono [of T1 "common T1 T2" x] by (auto simp: int_width_def common_def nonnull_def split: if_splits)

lemma abs_le_nonnull: "nonnull w n \<Longrightarrow> \<bar>q\<bar> \<le> \<bar>n\<bar> \<Longrightarrow> fits w q"
  by (auto simp: nonnull_def fits_def)

lemma abs_smod_le: "\<bar>a smod b\<bar> \<le> \<bar>a :: int\<bar>"
  by (cases "b = 0") (auto simp: smod_int_alt_def abs_mult abs_sgn_eq zmod_le_nonneg_dividend)

lemma DivideValue_exact:
  assumes T: "int_width T1" "int_width T2" and x: "nonnull T1 (GetAs_int T1 left)" and y: "GetAs_int T2 right \<noteq> 0"
  shows "DivideValue T1 T2 left right =
    Value_intN (max T1 T2) (wider T1 T2 left right) (GetAs_int T1 left sdiv GetAs_int T2 right)"
proof -
  define q where "q = GetAs_int T1 left sdiv GetAs_int T2 right"
  have "fits T1 q" unfolding q_def using x sdiv_int_range [of "GetAs_int T1 left" "GetAs_int T2 right"]
    by (intro abs_le_nonnull [OF x]) (auto simp: abs_le_iff)
  then have f: "fits (max T1 T2) q" by (rule fits_mono [OF max.cobounded1])
  have "int_div (common T1 T2) (GetAs_int T1 left) (GetAs_int T2 right) = Inr q"
    using trap_free [OF T x] by (simp add: int_div_def q_def)
  then show ?thesis using wrap_max [OF T f] y by (simp add: DivideValue_def Let_def max_def q_def)
qed

lemma ModuloValue_exact:
  assumes T: "int_width T1" "int_width T2" and x: "nonnull T1 (GetAs_int T1 left)" and y: "GetAs_int T2 right \<noteq> 0"
  shows "ModuloValue T1 T2 left right =
    Value_intN (max T1 T2) (wider T1 T2 left right) (GetAs_int T1 left smod GetAs_int T2 right)"
proof -
  define q where "q = GetAs_int T1 left smod GetAs_int T2 right"
  have "fits T1 q" unfolding q_def by (intro abs_le_nonnull [OF x] abs_smod_le)
  then have f: "fits (max T1 T2) q" by (rule fits_mono [OF max.cobounded1])
  have "int_mod (common T1 T2) (GetAs_int T1 left) (GetAs_int T2 right) = Inr q"
    using trap_free [OF T x] by (simp add: int_mod_def q_def)
  then show ?thesis using wrap_max [OF T f] y by (simp add: ModuloValue_def Let_def max_def q_def)
qed

section \<open>Arithmetic of integer values\<close>

lemma int_width_type [simp]: "integer_type t \<Longrightarrow> int_width (type_width t)"
  by (auto simp: integer_type_def int_width_def)

lemma GetAs_int_of [simp]: "CheckInteger v \<Longrightarrow> GetAs_int (type_width (GetTypeId v)) v = int_of v"
  by (cases v) (auto simp: CheckInteger.simps GetAs_int_def)

lemma nonnull_int_of: "CheckInteger v \<Longrightarrow> \<not> IsNull D v \<Longrightarrow> nonnull (type_width (GetTypeId v)) (int_of v)"
  using int_of_fits [of v] IsNull_int [of v D] by (auto simp: nonnull_def fits_def null_int_def)

text \<open>The wider of two types, the left one when they have the same width.\<close>

definition wider_type :: "type_id \<Rightarrow> type_id \<Rightarrow> type_id" where
  "wider_type t u = (if type_width t \<ge> type_width u then t else u)"

lemma wider_eq: "wider (type_width (GetTypeId l)) (type_width (GetTypeId r)) l r = wider_type (GetTypeId l) (GetTypeId r)"
  by (simp add: wider_type_def)

lemma width_wider: "max (type_width t) (type_width u) = type_width (wider_type t u)"
  by (simp add: wider_type_def max_def)

lemma integer_wider [simp]: "integer_type t \<Longrightarrow> integer_type u \<Longrightarrow> integer_type (wider_type t u)"
  by (simp add: wider_type_def)

lemmas modify_func_defs = TINYINT_MODIFY_FUNC_def SMALLINT_MODIFY_FUNC_def INT_MODIFY_FUNC_def BIGINT_MODIFY_FUNC_def

lemma MODIFY_FUNC_int:
  assumes "CheckInteger r"
  shows "TINYINT_MODIFY_FUNC D METHOD OP l r = METHOD 8 (type_width (GetTypeId r)) l r"
    and "SMALLINT_MODIFY_FUNC D METHOD OP l r = METHOD 16 (type_width (GetTypeId r)) l r"
    and "INT_MODIFY_FUNC D METHOD OP l r = METHOD 32 (type_width (GetTypeId r)) l r"
    and "BIGINT_MODIFY_FUNC D METHOD OP l r = METHOD 64 (type_width (GetTypeId r)) l r"
  using assms by (cases r; simp add: modify_func_defs CheckInteger.simps)+

lemma IsZero_int: "CheckInteger v \<Longrightarrow> IsZero D v = Inr (int_of v = 0)"
  by (cases v) (auto simp: IsZero_def CheckInteger.simps signed_eq_0_iff)

lemmas modify_class_defs =
  Value_Modify_def TinyintType_Modify_def SmallintType_Modify_def IntegerType_Modify_def BigintType_Modify_def

lemmas divide_class_defs =
  Value_Divide_def TinyintType_Divide_def SmallintType_Divide_def IntegerType_Divide_def BigintType_Divide_def

lemmas modulo_class_defs =
  Value_Modulo_def TinyintType_Modulo_def SmallintType_Modulo_def IntegerType_Modulo_def BigintType_Modulo_def

lemma Modify_int:
  assumes "CheckInteger l" and "CheckInteger r" and "\<not> IsNull D l" and "\<not> IsNull D r"
  shows "Value_Modify op D l r = modify_method op (type_width (GetTypeId l)) (type_width (GetTypeId r)) l r"
  using assms(1) assms(3) CheckComparable_int [OF assms(1,2)]
  by (cases rule: CheckInteger_cases) (simp_all add: modify_class_defs MODIFY_FUNC_int [OF assms(2)] assms(4))

lemma Divide_int:
  assumes "CheckInteger l" and "CheckInteger r" and "\<not> IsNull D l" and "\<not> IsNull D r"
  shows "Value_Divide D l r =
    (if int_of r = 0 then Inl DIVIDE_BY_ZERO
     else DivideValue (type_width (GetTypeId l)) (type_width (GetTypeId r)) l r)"
  using assms(1) assms(3) CheckComparable_int [OF assms(1,2)]
  by (cases rule: CheckInteger_cases)
    (simp_all add: divide_class_defs MODIFY_FUNC_int [OF assms(2)] assms(4) IsZero_int [OF assms(2)])

lemma modulo_switch_int:
  assumes "CheckInteger r"
  shows "(case GetTypeId r of
              TINYINT \<Rightarrow> ModuloValue w 8 l r | SMALLINT \<Rightarrow> ModuloValue w 16 l r | INTEGER \<Rightarrow> ModuloValue w 32 l r
            | BIGINT \<Rightarrow> ModuloValue w 64 l r | DECIMAL \<Rightarrow> a | VARCHAR \<Rightarrow> b | _ \<Rightarrow> c)
         = ModuloValue w (type_width (GetTypeId r)) l r"
  using assms by (cases r) (simp_all add: CheckInteger.simps)

lemma Modulo_int:
  assumes "CheckInteger l" and "CheckInteger r" and "\<not> IsNull D l" and "\<not> IsNull D r"
  shows "Value_Modulo D l r =
    (if int_of r = 0 then Inl DIVIDE_BY_ZERO
     else ModuloValue (type_width (GetTypeId l)) (type_width (GetTypeId r)) l r)"
  using assms(1) assms(3) CheckComparable_int [OF assms(1,2)]
  by (cases rule: CheckInteger_cases)
    (simp_all add: modulo_class_defs modulo_switch_int [OF assms(2)] assms(4) IsZero_int [OF assms(2)])

fun int_op :: "arith_op \<Rightarrow> int \<Rightarrow> int \<Rightarrow> int" where
  "int_op Plus a b = a + b"
| "int_op Minus a b = a - b"
| "int_op Times a b = a * b"

lemma Modify_exact:
  assumes "CheckInteger l" and "CheckInteger r" and "\<not> IsNull D l" and "\<not> IsNull D r"
  shows "Value_Modify op D l r =
    (let t = wider_type (GetTypeId l) (GetTypeId r); z = int_op op (int_of l) (int_of r)
     in if fits (type_width t) z then Inr (int_value t z) else Inl OUT_OF_RANGE)"
proof -
  have T: "integer_type (GetTypeId l)" "integer_type (GetTypeId r)" using assms by (simp_all add: CheckInteger_iff)
  have x: "nonnull (type_width (GetTypeId l)) (GetAs_int (type_width (GetTypeId l)) l)"
    and y: "nonnull (type_width (GetTypeId r)) (GetAs_int (type_width (GetTypeId r)) r)"
    using assms by (simp_all add: nonnull_int_of)
  note w = int_width_type [OF T(1)] int_width_type [OF T(2)]
  note exact = AddValue_exact [OF w x y] SubtractValue_exact [OF w x y] MultiplyValue_exact [OF w x y]
  have "modify_method op (type_width (GetTypeId l)) (type_width (GetTypeId r)) l r =
      (let z = int_op op (int_of l) (int_of r) in
       if fits (type_width (wider_type (GetTypeId l) (GetTypeId r))) z
       then Value_intN (type_width (wider_type (GetTypeId l) (GetTypeId r))) (wider_type (GetTypeId l) (GetTypeId r)) z
       else Inl OUT_OF_RANGE)"
    using exact [unfolded wider_eq width_wider GetAs_int_of [OF assms(1)] GetAs_int_of [OF assms(2)]]
    by (cases op) simp_all
  then show ?thesis
    by (simp add: Modify_int [OF assms] Value_intN_int_value T Let_def)
qed

text \<open>C31. Adding, subtracting or multiplying two non-null values of integer types of any two widths
  gives the exact result, in the wider of the two types, when it fits there, and throws the
  out-of-range exception when it does not.  The intermediate computation in C++ wraps around;
  no wrapped result is ever returned and no division used for the check traps.\<close>

theorem integer_arithmetic_exact:
  assumes "CheckInteger l" and "CheckInteger r" and "\<not> IsNull D l" and "\<not> IsNull D r"
  shows "Value_Modify op D l r =
    (let t = wider_type (GetTypeId l) (GetTypeId r); z = int_op op (int_of l) (int_of r)
     in if fits (type_width t) z then Inr (int_value t z) else Inl OUT_OF_RANGE)"
  using assms by (rule Modify_exact)

theorem integer_arithmetic_exact_witness:
  "Value_Modify Times int_double (Tinyint_v 100) (Smallint_v 300) = Inr (Smallint_v 30000) \<and>
   Value_Modify Plus int_double (Integer_v 2147483647) (Integer_v 1) = Inl OUT_OF_RANGE"
  using integer_arithmetic_exact [of "Tinyint_v 100" "Smallint_v 300" int_double Times]
    integer_arithmetic_exact [of "Integer_v 2147483647" "Integer_v 1" int_double Plus]
  by (simp add: IsNull_int null_int_def wider_type_def fits_def)

text \<open>C32. Dividing two non-null values of integer types truncates towards zero, in the wider type, and
  the remainder has the sign of the dividend; a zero divisor throws, and nothing else can go
  wrong: the one trapping division, of the least number by minus one, does not occur because
  the least number is null.\<close>

theorem integer_division_exact:
  assumes "CheckInteger l" and "CheckInteger r" and "\<not> IsNull D l" and "\<not> IsNull D r"
  shows "Value_Divide D l r =
      (if int_of r = 0 then Inl DIVIDE_BY_ZERO
       else Inr (int_value (wider_type (GetTypeId l) (GetTypeId r)) (int_of l sdiv int_of r))) \<and>
    Value_Modulo D l r =
      (if int_of r = 0 then Inl DIVIDE_BY_ZERO
       else Inr (int_value (wider_type (GetTypeId l) (GetTypeId r)) (int_of l smod int_of r)))"
proof (cases "int_of r = 0")
  case False
  have T: "integer_type (GetTypeId l)" "integer_type (GetTypeId r)" using assms by (simp_all add: CheckInteger_iff)
  note w = int_width_type [OF T(1)] int_width_type [OF T(2)]
  have x: "nonnull (type_width (GetTypeId l)) (GetAs_int (type_width (GetTypeId l)) l)"
    using assms by (simp add: nonnull_int_of)
  have y: "GetAs_int (type_width (GetTypeId r)) r \<noteq> 0" using False assms by simp
  note exact = DivideValue_exact [OF w x y] ModuloValue_exact [OF w x y]
  show ?thesis
    using exact [unfolded wider_eq width_wider GetAs_int_of [OF assms(1)] GetAs_int_of [OF assms(2)]] False
    by (simp add: Divide_int [OF assms] Modulo_int [OF assms] Value_intN_int_value T)
qed (simp add: Divide_int [OF assms] Modulo_int [OF assms])

theorem integer_division_exact_witness:
  "Value_Divide int_double (Integer_v (- 7)) (Tinyint_v 2) = Inr (Integer_v (- 3)) \<and>
   Value_Modulo int_double (Integer_v (- 7)) (Tinyint_v 2) = Inr (Integer_v (- 1))"
  using integer_division_exact [of "Integer_v (- 7)" "Tinyint_v 2" int_double]
  by (simp add: IsNull_int null_int_def wider_type_def)

text \<open>The range check of the sum lets the least number through, and that bit pattern is null:
  \<^verbatim>\<open>-2147483647 + -1\<close> is \<^verbatim>\<open>NULL\<close> instead of an out-of-range exception, in every integer type.\<close>

theorem sum_becomes_null:
  assumes "integer_type t"
  shows "\<not> IsNull D (int_value t (null_int t + 1)) \<and> \<not> IsNull D (int_value t (- 1)) \<and>
    Value_Modify Plus D (int_value t (null_int t + 1)) (int_value t (- 1)) = Inr (int_value t (null_int t)) \<and>
    IsNull D (int_value t (null_int t))"
proof -
  have f: "fits (type_width t) (null_int t)" "fits (type_width t) (null_int t + 1)" "fits (type_width t) (- 1)" "null_int t \<noteq> - 1"
    using assms by (auto simp: integer_type_def null_int_def fits_def)
  have c: "CheckInteger (int_value t n)" for n using assms by (simp add: CheckInteger_iff)
  have n: "\<not> IsNull D (int_value t (null_int t + 1))" "\<not> IsNull D (int_value t (- 1))" "IsNull D (int_value t (null_int t))"
    using assms f by (auto simp: IsNull_int [OF c])
  moreover have "Value_Modify Plus D (int_value t (null_int t + 1)) (int_value t (- 1)) = Inr (int_value t (null_int t))"
    using assms f by (simp add: Modify_exact [OF c c n(1,2)] wider_type_def)
  ultimately show ?thesis by simp
qed

theorem sum_becomes_null_witness:
  "Value_Modify Plus int_double (Integer_v (- 2147483647)) (Integer_v (- 1)) = Inr (Integer_v (- 2147483648)) \<and>
   IsNull int_double (Integer_v (- 2147483648))"
  using sum_becomes_null [of INTEGER int_double] by (simp add: integer_type_def null_int_def)

section \<open>Minimum and maximum of integers\<close>

lemma Copy_int: "CheckInteger v \<Longrightarrow> Copy v = Inr v"
  by (cases v) (simp_all add: CheckInteger.simps Copy_def copy_defs value_ctor_defs)

text \<open>The minimum and the maximum of two non-null values of integer types are one of the two
  values, and hold the minimum and the maximum of the two numbers; of two equal numbers the
  minimum is the right value and the maximum the left one.\<close>

theorem integer_Min_Max:
  assumes "CheckInteger l" and "CheckInteger r" and "\<not> IsNull D l" and "\<not> IsNull D r"
  shows "Value_Min D l r = Inr (if int_of l < int_of r then l else r) \<and>
         Value_Max D l r = Inr (if int_of l \<ge> int_of r then l else r)"
proof -
  have "Value_Min D l r = IntegerParentType_Min D l r" "Value_Max D l r = IntegerParentType_Max D l r"
    using assms(1) by (cases l; simp add: CheckInteger.simps Value_Min_def Value_Max_def)+
  then show ?thesis
    using assms CheckComparable_int [OF assms(1,2)]
    by (simp add: IntegerParentType_Min_def IntegerParentType_Max_def Compare_int GetCmpBool_def Copy_int)
qed

theorem integer_Min_Max_witness:
  "Value_Min int_double (Bigint_v 5) (Tinyint_v (- 3)) = Inr (Tinyint_v (- 3)) \<and>
   Value_Max int_double (Bigint_v 5) (Tinyint_v (- 3)) = Inr (Bigint_v 5)"
  using integer_Min_Max [of "Bigint_v 5" "Tinyint_v (- 3)" int_double] by (simp add: IsNull_int null_int_def)

section \<open>Types of results\<close>

lemma ctor_type:
  "Value_int8 t a = Inr v \<Longrightarrow> GetTypeId v = t" "Value_int16 t b = Inr v \<Longrightarrow> GetTypeId v = t"
  "Value_int32 t c = Inr v \<Longrightarrow> GetTypeId v = t" "Value_int64 t d = Inr v \<Longrightarrow> GetTypeId v = t"
  "Value_double t e = Inr v \<Longrightarrow> GetTypeId v = t" "Value_intN w t n = Inr v \<Longrightarrow> GetTypeId v = t"
  "Value_string t s = Inr v \<Longrightarrow> GetTypeId v = t" "Value_varlen t x l m = Inr v \<Longrightarrow> GetTypeId v = t"
  by (auto simp: value_ctor_defs Value_intN_def Value_string_def assert_that_def Let_def
      split: type_id.splits if_splits option.splits)

lemma ebind_InrE: "ebind m f = Inr v \<Longrightarrow> (\<And>x. m = Inr x \<Longrightarrow> f x = Inr v \<Longrightarrow> P) \<Longrightarrow> P"
  by (cases m) auto

lemma method_type:
  "AddValue T1 T2 l r = Inr v \<Longrightarrow> GetTypeId v = wider T1 T2 l r"
  "SubtractValue T1 T2 l r = Inr v \<Longrightarrow> GetTypeId v = wider T1 T2 l r"
  "MultiplyValue T1 T2 l r = Inr v \<Longrightarrow> GetTypeId v = wider T1 T2 l r"
  "DivideValue T1 T2 l r = Inr v \<Longrightarrow> GetTypeId v = wider T1 T2 l r"
  "ModuloValue T1 T2 l r = Inr v \<Longrightarrow> GetTypeId v = wider T1 T2 l r"
  by (auto simp: AddValue_def SubtractValue_def MultiplyValue_def DivideValue_def ModuloValue_def Let_def
      split: if_splits elim!: ebind_InrE dest!: ctor_type)

definition arith_type :: "type_id \<Rightarrow> type_id \<Rightarrow> type_id" where
  "arith_type t u = (if t = DECIMAL \<or> u = DECIMAL then DECIMAL else if u = VARCHAR then t else wider_type t u)"

lemma arith_type_simps [simp]:
  "arith_type DECIMAL u = DECIMAL" "arith_type t DECIMAL = DECIMAL" "integer_type t \<Longrightarrow> arith_type t VARCHAR = t"
  "integer_type t \<Longrightarrow> integer_type u \<Longrightarrow> arith_type t u = wider_type t u"
  by (auto simp: arith_type_def integer_type_def)

lemmas operate_null_defs =
  OperateNull_def TinyintType_OperateNull_def SmallintType_OperateNull_def IntegerType_OperateNull_def
  BigintType_OperateNull_def DecimalType_OperateNull_def

lemma OperateNull_type: "OperateNull D l r = Inr v \<Longrightarrow> GetTypeId v = arith_type (GetTypeId l) (GetTypeId r)"
  by (cases l) (auto simp: operate_null_defs arith_type_def wider_type_def split: type_id.splits dest!: ctor_type)

lemma MODIFY_FUNC_type:
  assumes METHOD: "\<forall>T1 T2 l r v. METHOD T1 T2 l r = Inr v \<longrightarrow> GetTypeId v = wider T1 T2 l r"
  shows "TINYINT_MODIFY_FUNC D METHOD OP (Tinyint_v a) r = Inr v \<Longrightarrow> GetTypeId v = arith_type TINYINT (GetTypeId r)"
    and "SMALLINT_MODIFY_FUNC D METHOD OP (Smallint_v b) r = Inr v \<Longrightarrow> GetTypeId v = arith_type SMALLINT (GetTypeId r)"
    and "INT_MODIFY_FUNC D METHOD OP (Integer_v c) r = Inr v \<Longrightarrow> GetTypeId v = arith_type INTEGER (GetTypeId r)"
    and "BIGINT_MODIFY_FUNC D METHOD OP (Bigint_v d) r = Inr v \<Longrightarrow> GetTypeId v = arith_type BIGINT (GetTypeId r)"
  by (auto simp: modify_func_defs arith_type_def wider_type_def
      split: type_id.splits elim!: ebind_InrE dest!: METHOD [rule_format] ctor_type)

lemma DECIMAL_MODIFY_FUNC_type: "DECIMAL_MODIFY_FUNC D OP l r = Inr v \<Longrightarrow> GetTypeId v = DECIMAL"
  by (auto simp: DECIMAL_MODIFY_FUNC_def split: type_id.splits elim!: ebind_InrE dest!: ctor_type)

lemma modify_method_type: "\<forall>T1 T2 l r v. modify_method op T1 T2 l r = Inr v \<longrightarrow> GetTypeId v = wider T1 T2 l r"
  by (cases op) (auto dest: method_type)

lemma divide_method_type: "\<forall>T1 T2 l r v. DivideValue T1 T2 l r = Inr v \<longrightarrow> GetTypeId v = wider T1 T2 l r"
  by (auto dest: method_type)

lemma assert_that_InrD: "assert_that b m = Inr v \<Longrightarrow> b \<and> m = Inr v"
  by (auto simp: assert_that_def split: if_splits)

lemma Modify_type: "Value_Modify op D l r = Inr v \<Longrightarrow> GetTypeId v = arith_type (GetTypeId l) (GetTypeId r)"
  by (cases l) (auto simp: modify_class_defs DecimalType_Modify_def split: if_splits dest!: assert_that_InrD
      dest: OperateNull_type MODIFY_FUNC_type [OF modify_method_type] DECIMAL_MODIFY_FUNC_type)

lemma Divide_type: "Value_Divide D l r = Inr v \<Longrightarrow> GetTypeId v = arith_type (GetTypeId l) (GetTypeId r)"
  by (cases l) (auto simp: divide_class_defs DecimalType_Divide_def split: if_splits dest!: assert_that_InrD
      elim!: ebind_InrE dest: OperateNull_type MODIFY_FUNC_type [OF divide_method_type] DECIMAL_MODIFY_FUNC_type)

lemma Modulo_type: "Value_Modulo D l r = Inr v \<Longrightarrow> GetTypeId v = arith_type (GetTypeId l) (GetTypeId r)"
proof (cases l)
  case (Decimal_v d)
  assume "Value_Modulo D l r = Inr v"
  with Decimal_v show ?thesis
    by (auto simp: Value_Modulo_def DecimalType_Modulo_def DecimalType_OperateNull_def split: if_splits dest!: assert_that_InrD
        elim!: ebind_InrE dest: ctor_type DECIMAL_MODIFY_FUNC_type)
qed (auto simp: modulo_class_defs arith_type_def wider_type_def split: if_splits type_id.splits
  dest!: assert_that_InrD elim!: ebind_InrE dest!: OperateNull_type method_type(5) ctor_type)

text \<open>The type of a result is determined by the types of the operands, nulls included: \<^verbatim>\<open>DECIMAL\<close>
  if one of them is, the left type if the right operand is a string, and the wider type
  otherwise.  This holds for the five arithmetic operations.\<close>

theorem arithmetic_result_type:
  assumes "Value_Modify op D l r = Inr v \<or> Value_Divide D l r = Inr v \<or> Value_Modulo D l r = Inr v"
  shows "GetTypeId v = arith_type (GetTypeId l) (GetTypeId r)"
  using assms Modify_type Divide_type Modulo_type by blast

theorem arithmetic_result_type_witness:
  "Value_Modify Plus int_double (Tinyint_v 1) (Bigint_v BUSTUB_INT64_NULL) = Inr (Bigint_v BUSTUB_INT64_NULL) \<and>
   GetTypeId (Bigint_v BUSTUB_INT64_NULL :: int Value) = arith_type TINYINT BIGINT"
proof -
  have "Value_Modify Plus int_double (Tinyint_v 1) (Bigint_v BUSTUB_INT64_NULL) = Inr (Bigint_v BUSTUB_INT64_NULL)"
    by (simp add: modify_class_defs operate_null_defs CheckComparable.simps IsNull_def value_ctor_defs)
  with arithmetic_result_type [of Plus int_double "Tinyint_v 1" "Bigint_v BUSTUB_INT64_NULL" "Bigint_v BUSTUB_INT64_NULL"]
  show ?thesis by simp
qed

section \<open>What the dispatch does not reach\<close>

text \<open>A number cannot be divided by a number that is written as a string: the switch has a case
  for it, but the test for a zero divisor asks the string type, which does not implement it,
  so the operation throws for every string and the case is dead.\<close>

theorem divide_by_string_not_implemented:
  assumes "CheckInteger l" and "\<not> IsNull D l" and "length s < 2147483648"
  shows "Value_Divide D l (varchar_of s) = Inl NOT_IMPLEMENTED \<and> Value_Modulo D l (varchar_of s) = Inl NOT_IMPLEMENTED"
  using assms(1)
proof (cases rule: CheckInteger_cases)
qed (use assms in \<open>simp_all add: divide_class_defs modulo_class_defs CheckComparable.simps varchar_of_len IsZero_def\<close>)

theorem divide_by_string_not_implemented_witness:
  "Value_Divide int_double (Integer_v 6) (varchar_of ''2'') = Inl NOT_IMPLEMENTED"
  using divide_by_string_not_implemented [of "Integer_v 6" int_double "''2''"] by (simp add: IsNull_int null_int_def)

text \<open>The table of type singletons has no entry for \<^verbatim>\<open>TIMESTAMP\<close>: every operation of a timestamp value
  is a call through a null pointer, and the comparisons of the class \<^verbatim>\<open>TimestampType\<close> itself fail
  their assertion, because \<^verbatim>\<open>CheckComparable\<close> is false for timestamps.\<close>

theorem timestamp_unusable:
  "ToString D (Timestamp_v t) = Inl Null_Deref \<and> Copy (Timestamp_v t :: 'd Value) = Inl Null_Deref \<and>
   CastAs D (Timestamp_v t) u = Inl Null_Deref \<and> Value_Compare D op (Timestamp_v t) r = Inl Null_Deref \<and>
   Value_Min D (Timestamp_v t) r = Inl Null_Deref \<and> SerializeTo D (Timestamp_v t) = Inl Null_Deref \<and>
   DeserializeFrom D storage TIMESTAMP = Inl Null_Deref \<and>
   TimestampType_Compare D op (Timestamp_v t) r = Inl Assert_Failed"
  by (simp add: ToString_def Copy_def CastAs_def Value_Compare_def Value_Min_def SerializeTo_def DeserializeFrom_def
      TimestampType_Compare_def CheckComparable.simps)

end
