(* ===== verification/Value_Factory.thy ===== *)
theory Value_Factory
  imports Value_Arith
begin

text \<open>
  \<^verbatim>\<open>ValueFactory\<close> (\<^verbatim>\<open>include/type/value_factory.h\<close>): construction of values and the second family of
  casts, \<^verbatim>\<open>CastAsBigInt\<close> to \<^verbatim>\<open>CastAsBoolean\<close>, which the code keeps beside \<^verbatim>\<open>Value::CastAs\<close>.  The
  properties: the two families agree on numbers and on strings that hold numbers; where
  they differ; timestamps are read back from the text they are printed as.
\<close>

section \<open>Construction\<close>

definition GetBooleanValue :: "CmpBool \<Rightarrow> exc + 'd Value" where
  "GetBooleanValue c = Value_int8 BOOLEAN
     (case c of CmpNull \<Rightarrow> BUSTUB_BOOLEAN_NULL | CmpTrue \<Rightarrow> 1 | CmpFalse \<Rightarrow> 0)"

text \<open>\<^verbatim>\<open>GetVarcharValue(const char *, bool)\<close>: the bytes up to and including the first zero byte.\<close>

definition GetVarcharValue :: "string option \<Rightarrow> bool \<Rightarrow> exc + 'd Value" where
  "GetVarcharValue s manage_data =
     (let len = (case s of None \<Rightarrow> 0 | Some cs \<Rightarrow> word_of_nat (length (takeWhile (\<lambda>c. c \<noteq> CHR 0x00) cs) + 1))
      in Value_varlen VARCHAR s len manage_data)"

definition GetNullValueByType :: "'d double_ops \<Rightarrow> type_id \<Rightarrow> exc + 'd Value" where
  "GetNullValueByType D type = (case type of
       BOOLEAN \<Rightarrow> Value_int8 BOOLEAN BUSTUB_BOOLEAN_NULL
     | TINYINT \<Rightarrow> Value_int8 TINYINT BUSTUB_INT8_NULL
     | SMALLINT \<Rightarrow> Value_int16 SMALLINT BUSTUB_INT16_NULL
     | INTEGER \<Rightarrow> Value_int32 INTEGER BUSTUB_INT32_NULL
     | BIGINT \<Rightarrow> Value_int64 BIGINT BUSTUB_INT64_NULL
     | DECIMAL \<Rightarrow> Value_double DECIMAL (d_lowest D)
     | VARCHAR \<Rightarrow> GetVarcharValue None False
     | _ \<Rightarrow> Inl UNKNOWN_TYPE)"

definition GetZeroValueByType :: "'d double_ops \<Rightarrow> type_id \<Rightarrow> exc + 'd Value" where
  "GetZeroValueByType D type = (case type of
       BOOLEAN \<Rightarrow> Value_int8 BOOLEAN 0
     | TINYINT \<Rightarrow> Value_int8 TINYINT 0
     | SMALLINT \<Rightarrow> Value_int16 SMALLINT 0
     | INTEGER \<Rightarrow> Value_int32 INTEGER 0
     | BIGINT \<Rightarrow> Value_int64 BIGINT 0
     | DECIMAL \<Rightarrow> Value_double DECIMAL (d_of_int D 0)
     | VARCHAR \<Rightarrow> Value_string VARCHAR ''0''
     | _ \<Rightarrow> Inl UNKNOWN_TYPE)"

section \<open>Casts\<close>

text \<open>The handlers of the two exceptions of \<^verbatim>\<open>std::stoi\<close>, and the final \<^verbatim>\<open>throw\<close>, whose message prints
  the value.\<close>

definition catch_conversion :: "exc + 'a \<Rightarrow> exc + 'a" where
  "catch_conversion m = (case m of
       Inl e \<Rightarrow> Inl (if e = Std_Out_Of_Range then OUT_OF_RANGE else if e = Std_Invalid_Argument then INVALID_EXC else e)
     | Inr a \<Rightarrow> Inr a)"

definition not_coercable :: "'d double_ops \<Rightarrow> 'd Value \<Rightarrow> exc + 'd Value" where
  "not_coercable D v = ebind (ToString D v) (\<lambda>_. Inl INVALID_EXC)"

definition CastAsBigInt :: "'d double_ops \<Rightarrow> 'd Value \<Rightarrow> exc + 'd Value" where
  "CastAsBigInt D v =
     (if IsCoercableFrom BIGINT (GetTypeId v)
      then if IsNull D v then Value_int64 BIGINT BUSTUB_INT64_NULL
           else (case GetTypeId v of
               TINYINT \<Rightarrow> Value_int64 BIGINT (scast (tinyint_val v))
             | SMALLINT \<Rightarrow> Value_int64 BIGINT (scast (smallint_val v))
             | INTEGER \<Rightarrow> Value_int64 BIGINT (scast (integer_val v))
             | BIGINT \<Rightarrow> Value_int64 BIGINT (bigint_val v)
             | DECIMAL \<Rightarrow>
                 if d_lt D (d_of_int D BUSTUB_INT64_MAX) (decimal_val v) \<or> d_lt D (decimal_val v) (d_of_int D BUSTUB_INT64_MIN)
                 then Inl OUT_OF_RANGE
                 else Value_int64 BIGINT (word_of_int (d_to_int D (decimal_val v)))
             | VARCHAR \<Rightarrow> ebind (ToString D v) (\<lambda>str. ebind (catch_conversion (stoll str)) (\<lambda>n.
                 let bigint = word_of_int n :: 64 word in
                 if sint bigint > BUSTUB_INT64_MAX \<or> sint bigint < BUSTUB_INT64_MIN then Inl OUT_OF_RANGE
                 else Value_int64 BIGINT bigint))
             | _ \<Rightarrow> not_coercable D v)
      else not_coercable D v)"

definition CastAsInteger :: "'d double_ops \<Rightarrow> 'd Value \<Rightarrow> exc + 'd Value" where
  "CastAsInteger D v =
     (if IsCoercableFrom INTEGER (GetTypeId v)
      then if IsNull D v then Value_int32 INTEGER BUSTUB_INT32_NULL
           else (case GetTypeId v of
               TINYINT \<Rightarrow> Value_int32 INTEGER (scast (tinyint_val v))
             | SMALLINT \<Rightarrow> Value_int32 INTEGER (scast (smallint_val v))
             | INTEGER \<Rightarrow> Value_int32 INTEGER (integer_val v)
             | BIGINT \<Rightarrow>
                 if sint (bigint_val v) > BUSTUB_INT32_MAX \<or> sint (bigint_val v) < BUSTUB_INT32_MIN then Inl OUT_OF_RANGE
                 else Value_int32 INTEGER (scast (bigint_val v))
             | DECIMAL \<Rightarrow>
                 if d_lt D (d_of_int D BUSTUB_INT32_MAX) (decimal_val v) \<or> d_lt D (decimal_val v) (d_of_int D BUSTUB_INT32_MIN)
                 then Inl OUT_OF_RANGE
                 else Value_int32 INTEGER (word_of_int (d_to_int D (decimal_val v)))
             | VARCHAR \<Rightarrow> ebind (ToString D v) (\<lambda>str. ebind (catch_conversion (stoi str)) (\<lambda>n.
                 let integer = word_of_int n :: 32 word in
                 if sint integer > BUSTUB_INT32_MAX \<or> sint integer < BUSTUB_INT32_MIN then Inl OUT_OF_RANGE
                 else Value_int32 INTEGER integer))
             | _ \<Rightarrow> not_coercable D v)
      else not_coercable D v)"

definition CastAsSmallInt :: "'d double_ops \<Rightarrow> 'd Value \<Rightarrow> exc + 'd Value" where
  "CastAsSmallInt D v =
     (if IsCoercableFrom SMALLINT (GetTypeId v)
      then if IsNull D v then Value_int16 SMALLINT BUSTUB_INT16_NULL
           else (case GetTypeId v of
               TINYINT \<Rightarrow> Value_int16 SMALLINT (scast (tinyint_val v))
             | SMALLINT \<Rightarrow> Value_int16 SMALLINT (smallint_val v)
             | INTEGER \<Rightarrow>
                 if sint (integer_val v) > BUSTUB_INT16_MAX \<or> sint (integer_val v) < BUSTUB_INT16_MIN then Inl OUT_OF_RANGE
                 else Value_int16 SMALLINT (scast (integer_val v))
             | BIGINT \<Rightarrow>
                 if sint (bigint_val v) > BUSTUB_INT16_MAX \<or> sint (bigint_val v) < BUSTUB_INT16_MIN then Inl OUT_OF_RANGE
                 else Value_int16 SMALLINT (scast (bigint_val v))
             | DECIMAL \<Rightarrow>
                 if d_lt D (d_of_int D BUSTUB_INT16_MAX) (decimal_val v) \<or> d_lt D (decimal_val v) (d_of_int D BUSTUB_INT16_MIN)
                 then Inl OUT_OF_RANGE
                 else Value_int16 SMALLINT (word_of_int (d_to_int D (decimal_val v)))
             | VARCHAR \<Rightarrow> ebind (ToString D v) (\<lambda>str. ebind (catch_conversion (stoi str)) (\<lambda>n.
                 let smallint = word_of_int n :: 16 word in
                 if sint smallint < BUSTUB_INT16_MIN then Inl OUT_OF_RANGE else Value_int16 SMALLINT smallint))
             | _ \<Rightarrow> not_coercable D v)
      else not_coercable D v)"

definition CastAsTinyInt :: "'d double_ops \<Rightarrow> 'd Value \<Rightarrow> exc + 'd Value" where
  "CastAsTinyInt D v =
     (if IsCoercableFrom TINYINT (GetTypeId v)
      then if IsNull D v then Value_int8 TINYINT BUSTUB_INT8_NULL
           else (case GetTypeId v of
               TINYINT \<Rightarrow> Value_int8 TINYINT (tinyint_val v)
             | SMALLINT \<Rightarrow>
                 if sint (smallint_val v) > BUSTUB_INT8_MAX \<or> sint (smallint_val v) < BUSTUB_INT8_MIN then Inl OUT_OF_RANGE
                 else Value_int8 TINYINT (scast (smallint_val v))
             | INTEGER \<Rightarrow>
                 if sint (integer_val v) > BUSTUB_INT8_MAX \<or> sint (integer_val v) < BUSTUB_INT8_MIN then Inl OUT_OF_RANGE
                 else Value_int8 TINYINT (scast (integer_val v))
             | BIGINT \<Rightarrow>
                 if sint (bigint_val v) > BUSTUB_INT8_MAX \<or> sint (bigint_val v) < BUSTUB_INT8_MIN then Inl OUT_OF_RANGE
                 else Value_int8 TINYINT (scast (bigint_val v))
             | DECIMAL \<Rightarrow>
                 if d_lt D (d_of_int D BUSTUB_INT8_MAX) (decimal_val v) \<or> d_lt D (decimal_val v) (d_of_int D BUSTUB_INT8_MIN)
                 then Inl OUT_OF_RANGE
                 else Value_int8 TINYINT (word_of_int (d_to_int D (decimal_val v)))
             | VARCHAR \<Rightarrow> ebind (ToString D v) (\<lambda>str. ebind (catch_conversion (stoi str)) (\<lambda>n.
                 let tinyint = word_of_int n :: 8 word in
                 if sint tinyint < BUSTUB_INT8_MIN then Inl OUT_OF_RANGE else Value_int8 TINYINT tinyint))
             | _ \<Rightarrow> not_coercable D v)
      else not_coercable D v)"

definition CastAsDecimal :: "'d double_ops \<Rightarrow> 'd Value \<Rightarrow> exc + 'd Value" where
  "CastAsDecimal D v =
     (if IsCoercableFrom DECIMAL (GetTypeId v)
      then if IsNull D v then Value_double DECIMAL (d_lowest D)
           else (case GetTypeId v of
               TINYINT \<Rightarrow> Value_double DECIMAL (d_of_int D (sint (tinyint_val v)))
             | SMALLINT \<Rightarrow> Value_double DECIMAL (d_of_int D (sint (smallint_val v)))
             | INTEGER \<Rightarrow> Value_double DECIMAL (d_of_int D (sint (integer_val v)))
             | BIGINT \<Rightarrow> Value_double DECIMAL (d_of_int D (sint (bigint_val v)))
             | DECIMAL \<Rightarrow> Value_double DECIMAL (decimal_val v)
             | VARCHAR \<Rightarrow> ebind (ToString D v) (\<lambda>str. ebind (catch_conversion (d_stod D str)) (\<lambda>res.
                 if d_lt D (d_max D) res \<or> d_lt D res (d_flt_lowest D) then Inl OUT_OF_RANGE
                 else Value_double DECIMAL res))
             | _ \<Rightarrow> not_coercable D v)
      else not_coercable D v)"

definition CastAsVarchar :: "'d double_ops \<Rightarrow> 'd Value \<Rightarrow> exc + 'd Value" where
  "CastAsVarchar D v =
     (if IsCoercableFrom VARCHAR (GetTypeId v)
      then if IsNull D v then GetVarcharValue None False
           else if GetTypeId v \<in> {BOOLEAN, TINYINT, SMALLINT, INTEGER, BIGINT, DECIMAL, VARCHAR}
           then ebind (ToString D v) (Value_string VARCHAR)
           else not_coercable D v
      else not_coercable D v)"

definition CastAsBoolean :: "'d double_ops \<Rightarrow> 'd Value \<Rightarrow> exc + 'd Value" where
  "CastAsBoolean D v =
     (if IsCoercableFrom BOOLEAN (GetTypeId v)
      then if IsNull D v then Value_int8 BOOLEAN BUSTUB_BOOLEAN_NULL
           else (case GetTypeId v of
               BOOLEAN \<Rightarrow> Value_int8 BOOLEAN (boolean_val v)
             | VARCHAR \<Rightarrow> ebind (ToString D v) (\<lambda>s.
                 let str = map tolower s in
                 if str = ''true'' \<or> str = ''1'' \<or> str = ''t'' then Value_int8 BOOLEAN 1
                 else if str = ''false'' \<or> str = ''0'' \<or> str = ''f'' then Value_int8 BOOLEAN 0
                 else Inl INVALID_EXC)
             | _ \<Rightarrow> not_coercable D v)
      else not_coercable D v)"

section \<open>Timestamps\<close>

text \<open>The layout \<^verbatim>\<open>YYYY-MM-DD hh:mm:ss.uuuuuu+zz\<close>: where the separators are, and that the rest are
  digits.\<close>

definition timestamp_layout :: "string \<Rightarrow> bool" where
  "timestamp_layout str \<longleftrightarrow>
     str ! 10 = CHR '' '' \<and> str ! 4 = CHR ''-'' \<and> str ! 7 = CHR ''-'' \<and> str ! 13 = CHR '':'' \<and> str ! 16 = CHR '':'' \<and>
     str ! 19 = CHR ''.'' \<and> (str ! 26 = CHR ''+'' \<or> str ! 26 = CHR ''-'') \<and>
     list_all (\<lambda>i. isdigit (str ! i)) (filter (\<lambda>i. i \<notin> {4, 7, 10, 13, 16, 19, 26}) [0..<29])"

text \<open>\<open>n\<close> digits from position \<open>k\<close>, as \<^verbatim>\<open>sscanf\<close> reads them from a string of that layout.\<close>

definition field :: "nat \<Rightarrow> nat \<Rightarrow> string \<Rightarrow> nat" where
  "field k n str = digits_value 0 (take n (drop k str))"

definition days_in_month :: "nat \<Rightarrow> nat \<Rightarrow> nat" where
  "days_in_month year month =
     (if (year mod 4 = 0 \<and> year mod 100 \<noteq> 0) \<or> year mod 400 = 0
      then [0, 31, 29, 31, 30, 31, 30, 31, 31, 30, 31, 30, 31] ! month
      else [0, 31, 28, 31, 30, 31, 30, 31, 31, 30, 31, 30, 31] ! month)"

text \<open>The packing: 64-bit unsigned arithmetic; the time zone arrives as a 32-bit unsigned number.\<close>

definition pack_timestamp :: "nat \<Rightarrow> nat \<Rightarrow> nat \<Rightarrow> nat \<Rightarrow> nat \<Rightarrow> nat \<Rightarrow> nat \<Rightarrow> int \<Rightarrow> 64 word" where
  "pack_timestamp year month day hour minute sec micro tz =
     ((((word_of_nat month * 32 + word_of_nat day) * 27 + ucast (word_of_int (tz + 12) :: 32 word)) * 10000 + word_of_nat year)
        * 100000 + word_of_nat (hour * 3600 + minute * 60 + sec)) * 1000000 + word_of_nat micro"

definition parse_timestamp :: "string \<Rightarrow> exc + 64 word" where
  "parse_timestamp s =
     (let str = (if length s = 22 then take 19 s @ ''.000000'' @ take 3 (drop 19 s) else s)
      in if length str \<noteq> 29 then Inl INVALID_EXC
         else if \<not> timestamp_layout str then Inl INVALID_EXC
         else
           (let year = field 0 4 str; month = field 5 2 str; day = field 8 2 str; hour = field 11 2 str;
                minute = field 14 2 str; sec = field 17 2 str; micro = field 20 6 str;
                tz = (if str ! 26 = CHR ''-'' then - int (field 27 2 str) else int (field 27 2 str))
            in if year > 9999 \<or> month > 12 \<or> day > 31 \<or> hour > 23 \<or> minute > 59 \<or> sec > 59 \<or> micro > 999999 \<or>
                  day = 0 \<or> month = 0
               then Inl OUT_OF_RANGE
               else if day > days_in_month year month then Inl OUT_OF_RANGE
               else if tz > 26 then Inl INVALID_EXC
               else Inr (pack_timestamp year month day hour minute sec micro tz)))"

definition CastAsTimestamp :: "'d double_ops \<Rightarrow> 'd Value \<Rightarrow> exc + 'd Value" where
  "CastAsTimestamp D v =
     ebind (GetInstance TIMESTAMP) (\<lambda>inst.
       if IsCoercableFrom inst (GetTypeId v)
       then if IsNull D v then Value_int64 TIMESTAMP BUSTUB_TIMESTAMP_NULL
            else (case GetTypeId v of
                TIMESTAMP \<Rightarrow> Value_int64 TIMESTAMP (timestamp_val v)
              | VARCHAR \<Rightarrow> ebind (ToString D v) (\<lambda>str. ebind (parse_timestamp str) (Value_int64 TIMESTAMP))
              | _ \<Rightarrow> not_coercable D v)
       else not_coercable D v)"

section \<open>The two families of casts agree\<close>

lemmas factory_defs = CastAsBigInt_def CastAsInteger_def CastAsSmallInt_def CastAsTinyInt_def

lemma catch_conversion_eq:
  "m \<noteq> Inl Std_Invalid_Argument \<Longrightarrow> catch_conversion m = catch_out_of_range m"
  by (auto simp: catch_conversion_def catch_out_of_range_def split: sum.splits)

lemma sto_int_number: "strtol s = Some n \<Longrightarrow> stoi s \<noteq> Inl Std_Invalid_Argument \<and> stoll s \<noteq> Inl Std_Invalid_Argument"
  by (simp add: stoi_def stoll_def sto_int_def)

lemma IsCoercable_numeric [simp]:
  "integer_type t \<Longrightarrow> IsCoercableFrom t u = (u \<in> {TINYINT, SMALLINT, INTEGER, BIGINT, DECIMAL, VARCHAR})"
  by (auto simp: integer_type_def IsCoercableFrom_def)

lemma factory_agrees_numeric:
  assumes "CheckInteger v \<or> GetTypeId v = DECIMAL"
  shows "CastAsTinyInt D v = CastAs D v TINYINT" and "CastAsSmallInt D v = CastAs D v SMALLINT"
    and "CastAsInteger D v = CastAs D v INTEGER" and "CheckInteger v \<Longrightarrow> CastAsBigInt D v = CastAs D v BIGINT"
  using assms
  by (cases v; simp add: factory_defs IsCoercableFrom_def CastAs_def cast_defs copy_defs CheckInteger.simps)+

lemma factory_agrees_varchar:
  assumes "\<not> IsNull D (Varchar_v s)" and "ToString D (Varchar_v s) = Inr str" and "strtol str = Some n"
  shows "CastAsTinyInt D (Varchar_v s) = CastAs D (Varchar_v s) TINYINT"
    and "CastAsSmallInt D (Varchar_v s) = CastAs D (Varchar_v s) SMALLINT"
    and "CastAsInteger D (Varchar_v s) = CastAs D (Varchar_v s) INTEGER"
    and "CastAsBigInt D (Varchar_v s) = CastAs D (Varchar_v s) BIGINT"
  using assms sto_int_number [OF assms(3)]
  by (simp_all add: factory_defs IsCoercableFrom_def CastAs_def cast_defs catch_conversion_eq)

text \<open>The four integer casts of \<^verbatim>\<open>ValueFactory\<close> return what \<^verbatim>\<open>Value::CastAs\<close> returns, values and exceptions,
  for every value of a numeric type (for a \<^verbatim>\<open>DECIMAL\<close>, the cast to \<^verbatim>\<open>BIGINT\<close> excepted) and for every
  string that starts with a number.\<close>

theorem factory_casts_agree:
  assumes "CheckInteger v \<or> GetTypeId v = DECIMAL \<or>
    (GetTypeId v = VARCHAR \<and> \<not> IsNull D v \<and> (\<exists>str n. ToString D v = Inr str \<and> strtol str = Some n))"
  shows "CastAsTinyInt D v = CastAs D v TINYINT \<and> CastAsSmallInt D v = CastAs D v SMALLINT \<and>
    CastAsInteger D v = CastAs D v INTEGER \<and> (GetTypeId v \<noteq> DECIMAL \<longrightarrow> CastAsBigInt D v = CastAs D v BIGINT)"
proof (cases "CheckInteger v \<or> GetTypeId v = DECIMAL")
  case True
  then show ?thesis using factory_agrees_numeric [OF True, of D] by auto
next
  case False
  with assms obtain s str n where "v = Varchar_v s" "\<not> IsNull D v" "ToString D v = Inr str" "strtol str = Some n"
    by (cases v) auto
  then show ?thesis using factory_agrees_varchar by auto
qed

theorem factory_casts_agree_witness:
  "CastAsSmallInt int_double (Decimal_v 70000) = Inl OUT_OF_RANGE \<and>
   CastAsTinyInt int_double (Bigint_v 5) = CastAs int_double (Bigint_v 5) TINYINT"
proof -
  have "CastAs int_double (Decimal_v 70000) SMALLINT = Inl OUT_OF_RANGE"
    by (simp add: CastAs_def cast_defs IsNull_def BUSTUB_VALUE_NULL_def BUSTUB_INT16_MAX_def)
  then show ?thesis
    using factory_casts_agree [of "Decimal_v 70000" int_double] factory_casts_agree [of "Bigint_v 5" int_double] by simp
qed

text \<open>The two families differ on a null string: \<^verbatim>\<open>ValueFactory\<close> makes it the null of the target type, while
  \<^verbatim>\<open>Value::CastAs\<close> tries to read the text \<^verbatim>\<open>varlen_null\<close> as a number and lets the exception of the
  standard library escape.\<close>

theorem null_string_casts_differ:
  "CastAsInteger D (Varchar_v None) = Inr (Integer_v BUSTUB_INT32_NULL) \<and>
   CastAs D (Varchar_v None) INTEGER = Inl Std_Invalid_Argument \<and>
   CastAsBigInt D (Varchar_v None) = Inr (Bigint_v BUSTUB_INT64_NULL) \<and>
   CastAs D (Varchar_v None) BIGINT = Inl Std_Invalid_Argument"
proof -
  have n: "strtol ''varlen_null'' = None" by (simp add: strtol_def isspace_def isdigit_def char_code_def)
  have "ToString D (Varchar_v None) = Inr ''varlen_null''"
    by (simp add: ToString_def VarlenType_ToString_def IsNull_def)
  then show ?thesis
    by (simp add: factory_defs IsCoercableFrom_def CastAs_def cast_defs IsNull_def stoi_def stoll_def sto_int_def n value_ctor_defs)
qed

section \<open>Timestamps through text\<close>

fun padded :: "nat \<Rightarrow> nat \<Rightarrow> string" where
  "padded 0 n = []"
| "padded (Suc w) n = padded w (n div 10) @ [char_of (48 + n mod 10)]"

lemma length_padded [simp]: "length (padded w n) = w"
  by (induction w arbitrary: n) simp_all

lemma padded_isdigit: "c \<in> set (padded w n) \<Longrightarrow> isdigit c"
  by (induction w arbitrary: n) auto

lemma digits_value_padded: "digits_value 0 (padded w n) = n mod 10 ^ w"
proof (induction w arbitrary: n)
  case (Suc w)
  have "digits_value 0 (padded (Suc w) n) = digits_value (digits_value 0 (padded w (n div 10))) [char_of (48 + n mod 10)]"
    by (simp add: digits_value_append padded_isdigit)
  also have "\<dots> = n div 10 mod 10 ^ w * 10 + n mod 10" using Suc by simp
  also have "\<dots> = n mod 10 ^ Suc w" by (simp add: mod_mult2_eq)
  finally show ?case .
qed simp

lemma padded_zero: "padded w 0 = replicate w (CHR ''0'')"
proof (induction w)
  case (Suc w)
  have "of_char (CHR ''0'') = (48 :: nat)" by simp
  then have "char_of (48 :: nat) = CHR ''0''" by (metis char_of_char)
  with Suc show ?case by (simp add: replicate_append_same)
qed simp

lemma zero_padded_eq: "n < 10 ^ w \<Longrightarrow> 0 < w \<Longrightarrow> zero_padded w n = padded w n"
proof (induction w arbitrary: n)
  case (Suc w)
  show ?case
  proof (cases "n < 10")
    case True
    then have "nat_digits n = [char_of (48 + n)]" by (subst nat_digits.simps) simp
    with True show ?thesis by (simp add: zero_padded_def padded_zero)
  next
    case False
    then have d: "nat_digits n = nat_digits (n div 10) @ [char_of (48 + n mod 10)]"
      by (subst nat_digits.simps) simp
    have "0 < w" using Suc.prems False by (cases w) auto
    moreover have "n div 10 < 10 ^ w" using Suc.prems by (simp add: less_mult_imp_div_less)
    ultimately have "zero_padded w (n div 10) = padded w (n div 10)" by (rule Suc.IH [rotated])
    then show ?thesis by (simp add: zero_padded_def d)
  qed
qed simp

text \<open>The instants that have a text, and the text.\<close>

definition valid_timestamp :: "nat \<Rightarrow> nat \<Rightarrow> nat \<Rightarrow> nat \<Rightarrow> nat \<Rightarrow> nat \<Rightarrow> nat \<Rightarrow> int \<Rightarrow> bool" where
  "valid_timestamp year month day hour minute sec micro tz \<longleftrightarrow>
     year < 10000 \<and> 1 \<le> month \<and> month \<le> 12 \<and> 1 \<le> day \<and> day \<le> days_in_month year month \<and>
     hour < 24 \<and> minute < 60 \<and> sec < 60 \<and> micro < 1000000 \<and> - 12 \<le> tz \<and> tz \<le> 14"

definition timestamp_text :: "nat \<Rightarrow> nat \<Rightarrow> nat \<Rightarrow> nat \<Rightarrow> nat \<Rightarrow> nat \<Rightarrow> nat \<Rightarrow> int \<Rightarrow> string" where
  "timestamp_text year month day hour minute sec micro tz =
     padded 4 year @ ''-'' @ padded 2 month @ ''-'' @ padded 2 day @ '' '' @ padded 2 hour @ '':'' @ padded 2 minute @ '':'' @
     padded 2 sec @ ''.'' @ padded 6 micro @ (if tz \<ge> 0 then ''+'' else ''-'') @ padded 2 (nat \<bar>tz\<bar>)"

lemma days_le: "1 \<le> month \<Longrightarrow> month \<le> 12 \<Longrightarrow> days_in_month year month \<le> 31"
proof -
  assume "1 \<le> month" "month \<le> 12"
  then have "month = 1 \<or> month = 2 \<or> month = 3 \<or> month = 4 \<or> month = 5 \<or> month = 6 \<or> month = 7 \<or> month = 8 \<or>
      month = 9 \<or> month = 10 \<or> month = 11 \<or> month = 12" by arith
  then show ?thesis by (auto simp: days_in_month_def)
qed

lemma unat_pack_timestamp:
  assumes "valid_timestamp year month day hour minute sec micro tz"
  shows "unat (pack_timestamp year month day hour minute sec micro tz) =
    ((((month * 32 + day) * 27 + nat (tz + 12)) * 10000 + year) * 100000 + (hour * 3600 + minute * 60 + sec)) * 1000000 + micro"
    (is "_ = ?n")
proof -
  note v = assms [unfolded valid_timestamp_def]
  have d: "day \<le> 31" using v days_le [of month year] by linarith
  have z: "nat (tz + 12) \<le> 26" using v by (auto simp: nat_le_iff)
  have "pack_timestamp year month day hour minute sec micro tz = word_of_nat ?n"
  proof -
    have "ucast (word_of_int (tz + 12) :: 32 word) = (word_of_nat (nat (tz + 12)) :: 64 word)"
    proof -
      have "word_of_int (tz + 12) = (word_of_nat (nat (tz + 12)) :: 32 word)" using v by (simp add: of_nat_nat)
      then show ?thesis using z by (simp add: unsigned_of_nat take_bit_nat_eq_self)
    qed
    then show ?thesis by (simp add: pack_timestamp_def)
  qed
  moreover have "?n < 2 ^ 64" using v d z by simp
  ultimately show ?thesis by (simp only: unat_of_nat) (simp add: take_bit_nat_eq_self)
qed

lemma mixed_radix:
  fixes q r k :: nat
  shows "r < k \<Longrightarrow> (q * k + r) mod k = r" and "r < k \<Longrightarrow> (q * k + r) div k = q"
  by (simp_all add: div_mult1_eq)

lemma seconds_fields:
  fixes hour minute sec :: nat
  assumes "hour < 24" and "minute < 60" and "sec < 60"
  shows "hour * 3600 + minute * 60 + sec < 100000" and "(hour * 3600 + minute * 60 + sec) mod 60 = sec"
    and "(hour * 3600 + minute * 60 + sec) div 60 mod 60 = minute"
    and "(hour * 3600 + minute * 60 + sec) div 60 div 60 mod 24 = hour"
proof -
  have e: "hour * 3600 + minute * 60 + sec = (hour * 60 + minute) * 60 + sec" by simp
  show "hour * 3600 + minute * 60 + sec < 100000" using assms by simp
  show "(hour * 3600 + minute * 60 + sec) mod 60 = sec"
    unfolding e by (rule mixed_radix [OF assms(3)])
  show "(hour * 3600 + minute * 60 + sec) div 60 mod 60 = minute"
    unfolding e mixed_radix(2) [OF assms(3)] by (rule mixed_radix [OF assms(2)])
  show "(hour * 3600 + minute * 60 + sec) div 60 div 60 mod 24 = hour"
    unfolding e mixed_radix(2) [OF assms(3)] mixed_radix(2) [OF assms(2)] using assms(1) by simp
qed

lemma ToString_timestamp:
  assumes "valid_timestamp year month day hour minute sec micro tz"
  shows "TimestampType_ToString D (Timestamp_v (pack_timestamp year month day hour minute sec micro tz)) =
    timestamp_text year month day hour minute sec micro tz"
proof -
  note v = assms [unfolded valid_timestamp_def]
  have d: "day < 32" using v days_le [of month year] by linarith
  have z: "nat (tz + 12) < 27" using v by auto
  have p: "zero_padded 4 year = padded 4 year" "zero_padded 2 month = padded 2 month" "zero_padded 2 day = padded 2 day"
    "zero_padded 2 hour = padded 2 hour" "zero_padded 2 minute = padded 2 minute" "zero_padded 2 sec = padded 2 sec"
    "zero_padded 6 micro = padded 6 micro" "zero_padded 2 (nat \<bar>tz\<bar>) = padded 2 (nat \<bar>tz\<bar>)"
    using v d by (auto intro!: zero_padded_eq)
  note u = unat_pack_timestamp [OF assms]
  have "unat (pack_timestamp year month day hour minute sec micro tz) < 18446744073709551615"
    unfolding u using v d z by simp
  moreover have "unat BUSTUB_TIMESTAMP_NULL = 18446744073709551615"
    by (simp add: BUSTUB_TIMESTAMP_NULL_def unsigned_minus_1_eq_mask mask_eq_exp_minus_1)
  ultimately have n: "\<not> IsNull D (Timestamp_v (pack_timestamp year month day hour minute sec micro tz))"
    by (auto simp: IsNull_def BUSTUB_VALUE_NULL_def)
  have r: "micro < 1000000" "year < 10000" "hour < 24" "minute < 60" "sec < 60" "month mod 65536 = month" using v by auto
  note sf = seconds_fields [OF r(3,4,5)]
  note fields = mixed_radix [OF r(1)] mixed_radix [OF sf(1)] mixed_radix [OF r(2)] mixed_radix [OF z] mixed_radix [OF d] r(6) sf(2,3,4)
  have tz: "int (nat (tz + 12)) - 12 = tz" using v by simp
  show ?thesis
    unfolding TimestampType_ToString_def timestamp_text_def Let_def if_not_P [OF n] Value.sel u fields tz p
    by simp
qed

lemma isdigit_nth_padded [simp]: "i < w \<Longrightarrow> isdigit (padded w n ! i)"
  by (rule padded_isdigit [of _ w n]) simp

lemma digit_positions:
  "filter (\<lambda>i. i \<notin> {4, 7, 10, 13, 16, 19, 26}) [0..<29] =
     [0, 1, 2, 3, 5, 6, 8, 9, 11, 12, 14, 15, 17, 18, 20, 21, 22, 23, 24, 25, 27, 28 :: nat]"
  by (simp add: upt_conv_Cons)

lemma layout_timestamp_text: "timestamp_layout (timestamp_text year month day hour minute sec micro tz)"
  unfolding timestamp_layout_def digit_positions timestamp_text_def by (simp add: nth_append)

lemma fields_timestamp_text:
  assumes "valid_timestamp year month day hour minute sec micro tz"
  defines "t \<equiv> timestamp_text year month day hour minute sec micro tz"
  shows "field 0 4 t = year" and "field 5 2 t = month" and "field 8 2 t = day" and "field 11 2 t = hour"
    and "field 14 2 t = minute" and "field 17 2 t = sec" and "field 20 6 t = micro" and "field 27 2 t = nat \<bar>tz\<bar>"
    and "t ! 26 = CHR ''-'' \<longleftrightarrow> tz < 0" and "length t = 29"
proof -
  note v = assms(1) [unfolded valid_timestamp_def]
  have d: "day < 100" using v days_le [of month year] by linarith
  have z: "nat \<bar>tz\<bar> < 100" using v by auto
  show "field 0 4 t = year" "field 5 2 t = month" "field 8 2 t = day" "field 11 2 t = hour"
    "field 14 2 t = minute" "field 17 2 t = sec" "field 20 6 t = micro" "field 27 2 t = nat \<bar>tz\<bar>"
    using v d z by (simp_all add: field_def t_def timestamp_text_def digits_value_padded)
  show "t ! 26 = CHR ''-'' \<longleftrightarrow> tz < 0" "length t = 29"
    by (simp_all add: t_def timestamp_text_def nth_append)
qed

text \<open>For every instant with a valid date and time and a time zone between -12 and 14, the text that
  \<^verbatim>\<open>TimestampType::ToString\<close> prints for the packed timestamp is read back by the parser of
  \<^verbatim>\<open>CastAsTimestamp\<close> as the same packed timestamp.\<close>

theorem timestamp_text_roundtrip:
  assumes "valid_timestamp year month day hour minute sec micro tz"
  defines "w \<equiv> pack_timestamp year month day hour minute sec micro tz"
  shows "parse_timestamp (TimestampType_ToString D (Timestamp_v w)) = Inr w"
proof -
  note v = assms(1) [unfolded valid_timestamp_def]
  have d: "day \<le> 31" using v days_le [of month year] by linarith
  have "(if tz < 0 then - int (nat \<bar>tz\<bar>) else int (nat \<bar>tz\<bar>)) = tz" by simp
  then show ?thesis
    using v d fields_timestamp_text [OF assms(1)] layout_timestamp_text [of year month day hour minute sec micro tz]
    by (simp add: ToString_timestamp [OF assms(1)] w_def parse_timestamp_def Let_def not_less)
qed

theorem timestamp_text_roundtrip_witness:
  "parse_timestamp (TimestampType_ToString int_double (Timestamp_v (pack_timestamp 2024 2 29 23 59 59 999999 (- 5)))) =
     Inr (pack_timestamp 2024 2 29 23 59 59 999999 (- 5))"
  by (rule timestamp_text_roundtrip) (simp add: valid_timestamp_def days_in_month_def)

end
