(* ===== verification/Primer_Trie.thy ===== *)
theory Primer_Trie
  imports Prelude "HOL-Library.Sublist"
begin

text \<open>
  The key-value trie of \<^verbatim>\<open>include/primer/p0_trie.h\<close>.  A node is a record of its character, its end
  flag, the value of a \<^verbatim>\<open>TrieNodeWithValue\<close> and the map of its children; the pointer that walks
  down the trie and changes the node it reaches is a recursion that rebuilds the path.  A
  value of C++ type \<^verbatim>\<open>T\<close> is found by a \<^verbatim>\<open>dynamic_cast\<close>, here a predicate on values.  Every call
  holds the latch while it changes nodes and is one step.

  The lemmas: the shape invariant (children have distinct characters and carry them, a node
  has a value exactly when it is an end node, a node without children is an end node); \<^verbatim>\<open>Insert\<close>
  is an insertion into the map of keys to values that never overwrites; \<^verbatim>\<open>Remove\<close> is a deletion
  when no stored key extends or is extended by the removed one, and what it does otherwise;
  the recursive \<^verbatim>\<open>RemoveAux\<close> does what the loop does.
\<close>

section \<open>Nodes\<close>

datatype 'v trie_node = TrieNode (key_char: char) (is_end: bool) (value_of: "'v option")
  (children: "(char \<times> 'v trie_node) list")

definition new_node :: "char \<Rightarrow> 'v trie_node" where
  "new_node c = TrieNode c False None []"

text \<open>\<^verbatim>\<open>TrieNodeWithValue(TrieNode &&, T)\<close>: the node keeps its character and its children.\<close>

definition with_value :: "'v trie_node \<Rightarrow> 'v \<Rightarrow> 'v trie_node" where
  "with_value n v = TrieNode (key_char n) True (Some v) (children n)"

definition HasChild :: "'v trie_node \<Rightarrow> char \<Rightarrow> bool" where
  "HasChild n c \<longleftrightarrow> map_of (children n) c \<noteq> None"

definition HasChildren :: "'v trie_node \<Rightarrow> bool" where
  "HasChildren n \<longleftrightarrow> children n \<noteq> []"

definition GetChildNode :: "'v trie_node \<Rightarrow> char \<Rightarrow> 'v trie_node option" where
  "GetChildNode n c = (if HasChild n c then map_of (children n) c else None)"

text \<open>The pointer that \<^verbatim>\<open>InsertChildNode\<close> returns is null when it inserts nothing.\<close>

definition InsertChildNode :: "'v trie_node \<Rightarrow> char \<Rightarrow> 'v trie_node \<Rightarrow> 'v trie_node \<times> bool" where
  "InsertChildNode n c child =
     (if \<not> HasChild n c \<and> c = key_char child
      then (TrieNode (key_char n) (is_end n) (value_of n) ((c, child) # children n), True)
      else (n, False))"

definition RemoveChildNode :: "'v trie_node \<Rightarrow> char \<Rightarrow> 'v trie_node" where
  "RemoveChildNode n c =
     (if HasChild n c then TrieNode (key_char n) (is_end n) (value_of n) (alist_erase (children n) c) else n)"

definition SetEndNode :: "'v trie_node \<Rightarrow> bool \<Rightarrow> 'v trie_node" where
  "SetEndNode n b = TrieNode (key_char n) b (value_of n) (children n)"

text \<open>Assignment through the pointer to a child.\<close>

definition set_child :: "'v trie_node \<Rightarrow> char \<Rightarrow> 'v trie_node \<Rightarrow> 'v trie_node" where
  "set_child n c child = TrieNode (key_char n) (is_end n) (value_of n) (alist_assign (children n) c child)"

section \<open>The trie\<close>

definition new_trie :: "'v trie_node" where
  "new_trie = new_node (CHR 0x00)"

text \<open>The loop of \<^verbatim>\<open>Insert\<close> and what it does at the node it reaches.\<close>

fun insert_path :: "string \<Rightarrow> 'v \<Rightarrow> 'v trie_node \<Rightarrow> 'v trie_node \<times> bool" where
  "insert_path [] v p = (if is_end p then (p, False) else (with_value p v, True))"
| "insert_path (c # cs) v p =
     (let p' = (if GetChildNode p c = None then fst (InsertChildNode p c (new_node c)) else p);
          (son, ok) = insert_path cs v (the (GetChildNode p' c))
      in (set_child p' c son, ok))"

definition Trie_Insert :: "string \<Rightarrow> 'v \<Rightarrow> 'v trie_node \<Rightarrow> 'v trie_node \<times> bool" where
  "Trie_Insert key v root = (if key = [] then (root, False) else insert_path key v root)"

text \<open>The first loop of \<^verbatim>\<open>Remove\<close>: does the path of the key exist?\<close>

fun has_path :: "string \<Rightarrow> 'v trie_node \<Rightarrow> bool" where
  "has_path [] p = True"
| "has_path (c # cs) p = (HasChild p c \<and> has_path cs (the (GetChildNode p c)))"

text \<open>The second loop, from the last node of the path upwards: the flag says that it has not
  reached its \<^verbatim>\<open>break\<close>.\<close>

fun remove_path :: "string \<Rightarrow> 'v trie_node \<Rightarrow> 'v trie_node \<times> bool" where
  "remove_path [] p = (p, True)"
| "remove_path (c # cs) father =
     (let (son, running) = remove_path cs (the (GetChildNode father c))
      in if running \<and> \<not> HasChildren son then (RemoveChildNode father c, True)
         else (set_child father c son, False))"

definition Trie_Remove :: "string \<Rightarrow> 'v trie_node \<Rightarrow> 'v trie_node \<times> bool" where
  "Trie_Remove key root =
     (if key = [] then (root, False)
      else if \<not> has_path key root then (root, False)
      else (fst (remove_path key root), True))"

text \<open>\<^verbatim>\<open>RemoveAux\<close>, from the node it is called on; a null pointer is dereferenced when the path ends
  early.\<close>

fun RemoveAux :: "string \<Rightarrow> 'v trie_node option \<Rightarrow> 'v trie_node option" where
  "RemoveAux [] pre = pre"
| "RemoveAux (c # cs) None = None"
| "RemoveAux (c # cs) (Some pre) =
     (case RemoveAux cs (GetChildNode pre c) of
        None \<Rightarrow> (if cs = [] then Some pre else None)
      | Some node \<Rightarrow>
          let pre' = set_child pre c node
          in Some (if \<not> HasChildren node then RemoveChildNode pre' c else pre'))"

text \<open>\<^verbatim>\<open>GetValue<T>\<close>; the value found, and none when \<^verbatim>\<open>success\<close> is false.\<close>

fun get_path :: "('v \<Rightarrow> bool) \<Rightarrow> string \<Rightarrow> 'v trie_node \<Rightarrow> 'v option" where
  "get_path is_T [] p = (case value_of p of None \<Rightarrow> None | Some v \<Rightarrow> if is_T v then Some v else None)"
| "get_path is_T (c # cs) p = (if \<not> HasChild p c then None else get_path is_T cs (the (GetChildNode p c)))"

definition Trie_GetValue :: "('v \<Rightarrow> bool) \<Rightarrow> string \<Rightarrow> 'v trie_node \<Rightarrow> 'v option" where
  "Trie_GetValue is_T key root = get_path is_T key root"

section \<open>The map of a trie and the shape invariant\<close>

definition lookup :: "'v trie_node \<Rightarrow> string \<Rightarrow> 'v option" where
  "lookup n key = get_path (\<lambda>_. True) key n"

lemma lookup_simps [simp]:
  "lookup n [] = value_of n"
  "lookup n (c # cs) = (case map_of (children n) c of None \<Rightarrow> None | Some m \<Rightarrow> lookup m cs)"
  by (auto simp: lookup_def HasChild_def GetChildNode_def split: option.splits)

inductive shape :: "'v trie_node \<Rightarrow> bool" where
  "distinct (map fst kids) \<Longrightarrow> e = (v \<noteq> None) \<Longrightarrow>
   (\<And>c m. (c, m) \<in> set kids \<Longrightarrow> key_char m = c \<and> shape m \<and> (children m = [] \<longrightarrow> is_end m)) \<Longrightarrow>
   shape (TrieNode k e v kids)"

inductive_simps shape_simps: "shape (TrieNode k e v kids)"

lemma shape_iff:
  "shape n \<longleftrightarrow> distinct (map fst (children n)) \<and> is_end n = (value_of n \<noteq> None) \<and>
     (\<forall>(c, m) \<in> set (children n). key_char m = c \<and> shape m \<and> (children m = [] \<longrightarrow> is_end m))"
  by (cases n) (auto simp: shape_simps)

lemma shape_child:
  assumes "shape n" and "map_of (children n) c = Some m"
  shows "key_char m = c \<and> shape m \<and> (children m = [] \<longrightarrow> is_end m)"
  using assms map_of_SomeD [OF assms(2)] unfolding shape_iff [of n] by blast

lemma key_in_children: "map_of (children n) c = Some m \<Longrightarrow> c \<in> fst ` set (children n)"
  by (auto dest: map_of_SomeD intro: rev_image_eqI)

lemma lookup_set_child:
  assumes "map_of (children n) c = Some m"
  shows "lookup (set_child n c m') (d # ds) = (if d = c then lookup m' ds else lookup n (d # ds))"
  using key_in_children [OF assms] by (auto simp: set_child_def map_of_alist_assign split: option.splits)

lemma lookup_set_child_Nil [simp]: "lookup (set_child n c m') [] = lookup n []"
  by (simp add: set_child_def)

lemma set_alist_assign:
  "distinct (map fst kvs) \<Longrightarrow> (a, b) \<in> set (alist_assign kvs k v) \<Longrightarrow> (a = k \<and> b = v) \<or> (a \<noteq> k \<and> (a, b) \<in> set kvs)"
  by (induction kvs) (auto split: if_splits intro: rev_image_eqI)

lemma shape_set_child:
  assumes "shape n" and "shape m'" and "key_char m' = c" and "children m' = [] \<longrightarrow> is_end m'"
  shows "shape (set_child n c m')"
  using assms unfolding shape_iff [of "set_child n c m'"] shape_iff [of n]
  by (auto simp: set_child_def dest!: set_alist_assign)

section \<open>\<^verbatim>\<open>Insert\<close>\<close>

lemma lookup_new_node [simp]: "lookup (new_node c) key = None"
  by (cases key) (simp_all add: new_node_def)

lemma new_node_simps [simp]:
  "key_char (new_node c) = c" "children (new_node c) = []" "is_end (new_node c) = False" "shape (new_node c)"
  by (simp_all add: new_node_def shape_simps)

lemma alist_assign_same: "map_of kvs k = Some v \<Longrightarrow> alist_assign kvs k v = kvs"
  by (induction kvs) (auto split: if_splits)

lemma alist_erase_assign: "alist_erase (alist_assign kvs k v) k = alist_erase kvs k"
  by (induction kvs) auto

text \<open>The node into which the loop of \<^verbatim>\<open>Insert\<close> steps.\<close>

lemma step_into:
  assumes "shape p" and "q = (if GetChildNode p c = None then fst (InsertChildNode p c (new_node c)) else p)"
  shows "\<exists>m. map_of (children q) c = Some m \<and> shape m \<and> key_char m = c \<and>
      (map_of (children p) c = Some m \<and> q = p \<or>
       map_of (children p) c = None \<and> m = new_node c \<and>
       q = TrieNode (key_char p) (is_end p) (value_of p) ((c, new_node c) # children p))"
proof (cases "map_of (children p) c")
  case None
  then show ?thesis by (simp add: assms(2) GetChildNode_def HasChild_def InsertChildNode_def)
next
  case (Some m)
  then show ?thesis using shape_child [OF assms(1) Some] by (simp add: assms(2) GetChildNode_def HasChild_def)
qed

lemma shape_add_child:
  assumes "shape p" and "map_of (children p) c = None" and "shape m" and "key_char m = c" and "children m = [] \<longrightarrow> is_end m"
  shows "shape (TrieNode (key_char p) (is_end p) (value_of p) ((c, m) # children p))"
  using assms by (auto simp: shape_simps shape_iff [of p] map_of_eq_None_iff)

lemma insert_path_spec:
  assumes "shape p" and "r = insert_path key v p"
  shows "shape (fst r) \<and> key_char (fst r) = key_char p \<and> (children (fst r) = [] \<longrightarrow> is_end (fst r)) \<and>
    (snd r \<longleftrightarrow> lookup p key = None) \<and> (snd r \<longrightarrow> lookup (fst r) = (lookup p)(key \<mapsto> v)) \<and> (\<not> snd r \<longrightarrow> fst r = p)"
  using assms(1) unfolding assms(2)
proof (induction key arbitrary: p)
  case Nil
  have "lookup (with_value p v) k = ((lookup p)([] \<mapsto> v)) k" for k by (cases k) (simp_all add: with_value_def)
  with Nil show ?case
    by (auto simp: shape_iff [of p] with_value_def shape_simps fun_eq_iff)
next
  case (Cons c cs)
  define q where "q = (if GetChildNode p c = None then fst (InsertChildNode p c (new_node c)) else p)"
  obtain m where m: "map_of (children q) c = Some m" "shape m" "key_char m = c"
    and cases: "map_of (children p) c = Some m \<and> q = p \<or> map_of (children p) c = None \<and> m = new_node c \<and>
       q = TrieNode (key_char p) (is_end p) (value_of p) ((c, new_node c) # children p)"
    using step_into [OF Cons.prems q_def] by blast
  obtain son ok where so: "insert_path cs v m = (son, ok)" by fastforce
  have r: "insert_path (c # cs) v p = (set_child q c son, ok)"
    using m(1) so unfolding insert_path.simps Let_def q_def [symmetric] by (simp add: GetChildNode_def HasChild_def)
  have ih: "shape son" "key_char son = c" "children son = [] \<longrightarrow> is_end son" "ok \<longleftrightarrow> lookup m cs = None"
    "ok \<longrightarrow> lookup son = (lookup m)(cs \<mapsto> v)" "\<not> ok \<longrightarrow> son = m"
    using Cons.IH [OF m(2)] so m(3) by (simp_all add: fun_eq_iff)
  have l: "lookup q k = lookup p k" for k using cases by (cases k) auto
  have "set_child q c son = TrieNode (key_char p) (is_end p) (value_of p) ((c, son) # children p)"
    if "map_of (children p) c = None" using cases that by (auto simp: set_child_def)
  then have "shape (set_child q c son)"
    using cases shape_set_child [OF Cons.prems ih(1,2,3)] shape_add_child [OF Cons.prems _ ih(1,2,3)] by auto
  moreover have "children (set_child q c son) \<noteq> []" "key_char (set_child q c son) = key_char p"
    using m(1) cases by (auto simp: set_child_def dest: arg_cong [of _ _ length])
  moreover have "lookup p (c # cs) = None \<longleftrightarrow> lookup m cs = None" using cases by auto
  moreover have "lookup (set_child q c son) = (lookup p)(c # cs \<mapsto> v)" if ok
  proof
    fix k
    show "lookup (set_child q c son) k = ((lookup p)(c # cs \<mapsto> v)) k"
    proof (cases k)
      case (Cons d ds)
      have "lookup m ds = lookup p (c # ds)" using cases by auto
      with Cons that ih(5) show ?thesis by (auto simp: lookup_set_child [OF m(1)] l simp del: lookup_simps)
    qed (use l [of "[]"] in \<open>simp add: set_child_def\<close>)
  qed
  moreover have "set_child q c son = p" if "\<not> ok"
    using that ih(4,6) cases by (auto simp: set_child_def alist_assign_same)
  ultimately show ?case using r ih(4) by auto
qed

section \<open>\<^verbatim>\<open>Remove\<close>\<close>

text \<open>The keys stored below a node all lie on the path of \<^verbatim>\<open>key\<close>; and the keys that a removal of
  \<^verbatim>\<open>key\<close> takes away: those below the first node of the path with this property.\<close>

definition on_path :: "'v trie_node \<Rightarrow> string \<Rightarrow> bool" where
  "on_path p key \<longleftrightarrow> (\<forall>k. lookup p k \<noteq> None \<longrightarrow> prefix k key)"

definition swept :: "'v trie_node \<Rightarrow> string \<Rightarrow> string \<Rightarrow> bool" where
  "swept p key k \<longleftrightarrow> (\<exists>pre. pre \<noteq> [] \<and> prefix pre key \<and> prefix pre k \<and>
     (\<forall>k'. lookup p k' \<noteq> None \<and> prefix pre k' \<longrightarrow> prefix k' key))"

lemma shape_stores_key: "shape m \<Longrightarrow> children m = [] \<longrightarrow> is_end m \<Longrightarrow> \<exists>k. lookup m k \<noteq> None"
proof (induction rule: shape.induct)
  case (1 kids e v k)
  show ?case
  proof (cases kids)
    case Nil
    with 1 show ?thesis by (intro exI [of _ "[]"]) simp
  next
    case (Cons cm rest)
    then obtain c m where kids: "kids = (c, m) # rest" by (cases cm) auto
    with 1(3) [of c m] obtain k' where "lookup m k' \<noteq> None" by auto
    with kids show ?thesis by (intro exI [of _ "c # k'"]) simp
  qed
qed

lemma on_path_Nil: "shape m \<Longrightarrow> on_path m [] \<longleftrightarrow> children m = []"
proof
  assume "shape m" "on_path m []"
  show "children m = []"
  proof (rule ccontr)
    assume "children m \<noteq> []"
    then obtain c n rest where "children m = (c, n) # rest" by (cases "children m") auto
    moreover from this have "\<exists>k. lookup n k \<noteq> None"
      using shape_child [OF \<open>shape m\<close>, of c n] by (intro shape_stores_key) auto
    ultimately have "\<exists>k. lookup m (c # k) \<noteq> None" by simp
    with \<open>on_path m []\<close> show False by (auto simp: on_path_def simp del: lookup_simps)
  qed
next
  assume "children m = []"
  then have "lookup m k = None" if "k \<noteq> []" for k using that by (cases k) auto
  then show "on_path m []" by (metis on_path_def prefix_bot.extremum)
qed

lemma on_path_Cons:
  assumes "shape m" and "map_of (children m) c = Some n"
  shows "on_path m (c # cs) \<longleftrightarrow> on_path n cs \<and> (\<forall>d. d \<noteq> c \<longrightarrow> map_of (children m) d = None)"
proof
  assume l: "on_path m (c # cs)"
  have "prefix k cs" if "lookup n k \<noteq> None" for k
    using l that assms(2) unfolding on_path_def by (auto dest!: spec [of _ "c # k"])
  moreover have "map_of (children m) d = None" if "d \<noteq> c" for d
  proof (rule ccontr)
    assume "map_of (children m) d \<noteq> None"
    then obtain n' where n': "map_of (children m) d = Some n'" by blast
    with shape_stores_key shape_child [OF assms(1)] obtain k where "lookup n' k \<noteq> None" by metis
    with n' l that show False unfolding on_path_def by (auto dest!: spec [of _ "d # k"])
  qed
  ultimately show "on_path n cs \<and> (\<forall>d. d \<noteq> c \<longrightarrow> map_of (children m) d = None)" by (simp add: on_path_def)
next
  assume r: "on_path n cs \<and> (\<forall>d. d \<noteq> c \<longrightarrow> map_of (children m) d = None)"
  have "prefix k (c # cs)" if "lookup m k \<noteq> None" for k
  proof (cases k)
    case (Cons d ds)
    then show ?thesis using that r assms(2) unfolding on_path_def by (cases "d = c") auto
  qed simp
  then show "on_path m (c # cs)" by (simp add: on_path_def)
qed

lemma swept_Nil [simp]: "\<not> swept p key []"
  by (simp add: swept_def)

lemma swept_Nil_key [simp]: "\<not> swept p [] k"
  by (simp add: swept_def)

lemma swept_Cons:
  assumes "map_of (children p) c = Some m"
  shows "swept p (c # cs) (d # ds) \<longleftrightarrow> d = c \<and> (on_path m cs \<or> swept m cs ds)"
proof -
  have pre: "(\<forall>k'. lookup p k' \<noteq> None \<and> prefix (c # pre) k' \<longrightarrow> prefix k' (c # cs)) \<longleftrightarrow>
      (\<forall>k'. lookup m k' \<noteq> None \<and> prefix pre k' \<longrightarrow> prefix k' cs)" for pre
  proof (intro iffI allI impI; elim conjE)
    fix k'
    assume "\<forall>k'. lookup p k' \<noteq> None \<and> prefix (c # pre) k' \<longrightarrow> prefix k' (c # cs)" "lookup m k' \<noteq> None" "prefix pre k'"
    then show "prefix k' cs" using assms by (auto dest!: spec [of _ "c # k'"])
  next
    fix k'
    assume "\<forall>k'. lookup m k' \<noteq> None \<and> prefix pre k' \<longrightarrow> prefix k' cs" "lookup p k' \<noteq> None" "prefix (c # pre) k'"
    then show "prefix k' (c # cs)" using assms by (cases k') auto
  qed
  have "swept p (c # cs) (d # ds) \<longleftrightarrow> d = c \<and> (\<exists>pre. prefix pre cs \<and> prefix pre ds \<and>
      (\<forall>k'. lookup m k' \<noteq> None \<and> prefix pre k' \<longrightarrow> prefix k' cs))"
    unfolding swept_def pre [symmetric] by (auto simp: prefix_Cons)
  also have "\<dots> \<longleftrightarrow> d = c \<and> (on_path m cs \<or> swept m cs ds)"
    unfolding swept_def on_path_def by (metis Nil_prefix)
  finally show ?thesis .
qed

lemma shape_remove_child:
  assumes "shape p"
  shows "shape (RemoveChildNode p c)"
  using assms set_alist_erase_subset [of "children p" c]
  by (auto simp: RemoveChildNode_def shape_simps shape_iff [of p] distinct_alist_erase)

lemma map_of_remove_child: "shape p \<Longrightarrow> map_of (children (RemoveChildNode p c)) = (map_of (children p))(c := None)"
  by (cases "map_of (children p) c")
    (simp_all add: RemoveChildNode_def HasChild_def shape_iff [of p] map_of_alist_erase fun_eq_iff)

lemma remove_child_simps [simp]:
  "key_char (RemoveChildNode p c) = key_char p" "is_end (RemoveChildNode p c) = is_end p"
  "value_of (RemoveChildNode p c) = value_of p"
  by (simp_all add: RemoveChildNode_def)

lemma set_child_simps [simp]:
  "key_char (set_child p c m) = key_char p" "is_end (set_child p c m) = is_end p"
  "value_of (set_child p c m) = value_of p" "children (set_child p c m) = [] \<longleftrightarrow> children p = []"
  by (simp_all add: set_child_def flip: length_0_conv)

lemma remove_path_spec:
  assumes "shape p" and "has_path key p" and "r = remove_path key p"
  shows "shape (fst r) \<and> key_char (fst r) = key_char p \<and> is_end (fst r) = is_end p \<and>
    (snd r \<and> children (fst r) = [] \<longleftrightarrow> on_path p key) \<and> (\<not> snd r \<longrightarrow> children (fst r) \<noteq> []) \<and>
    (\<forall>k. lookup (fst r) k = (if swept p key k then None else lookup p k))"
  using assms(1,2) unfolding assms(3)
proof (induction key arbitrary: p)
  case Nil
  then show ?case by (simp add: on_path_Nil)
next
  case (Cons c cs)
  then obtain m where m: "map_of (children p) c = Some m" and path: "has_path cs m" 
    by (auto simp: HasChild_def GetChildNode_def)
  obtain son running where so: "remove_path cs m = (son, running)" by fastforce
  note mm = shape_child [OF Cons.prems(1) m]
  have ih: "shape son" "key_char son = c" "is_end son = is_end m" "running \<and> children son = [] \<longleftrightarrow> on_path m cs"
    "\<not> running \<longrightarrow> children son \<noteq> []" "\<And>k. lookup son k = (if swept m cs k then None else lookup m k)"
    using Cons.IH [of m] so mm path by simp_all
  note shp = Cons.prems(1) and path_iff = on_path_Cons [OF Cons.prems(1) m]
  show ?case
  proof (cases "on_path m cs")
    case True
    then have r: "remove_path (c # cs) p = (RemoveChildNode p c, True)"
      using so m ih(4) by (simp add: GetChildNode_def HasChild_def HasChildren_def)
    have "lookup (RemoveChildNode p c) k = (if swept p (c # cs) k then None else lookup p k)" for k
      using True by (cases k) (auto simp: map_of_remove_child [OF shp] swept_Cons [OF m])
    moreover have "children (RemoveChildNode p c) = [] \<longleftrightarrow> (\<forall>d. d \<noteq> c \<longrightarrow> map_of (children p) d = None)"
      using map_of_remove_child [OF shp, of c] by (auto simp: fun_eq_iff simp flip: map_of_eq_empty_iff)
    ultimately show ?thesis using r True path_iff shape_remove_child [OF shp] by simp
  next
    case False
    then have r: "remove_path (c # cs) p = (set_child p c son, False)"
      using so m ih(4) by (auto simp: GetChildNode_def HasChild_def HasChildren_def)
    have "lookup (set_child p c son) k = (if swept p (c # cs) k then None else lookup p k)" for k
      using False lookup_simps(2) [of p c] m
      by (cases k) (simp_all add: lookup_set_child [OF m] swept_Cons [OF m] ih(6) del: lookup_simps(2))
    moreover have "children son = [] \<longrightarrow> is_end son" using ih(4,5) False by blast
    moreover have "children p \<noteq> []" using m by auto
    ultimately show ?thesis using r False path_iff shape_set_child [OF shp ih(1,2)] by simp
  qed
qed

lemma RemoveAux_remove_path:
  assumes "shape p" and "has_path key p"
  shows "RemoveAux key (Some p) = Some (fst (remove_path key p))"
  using assms
proof (induction key arbitrary: p)
  case (Cons c cs)
  then obtain m where m: "map_of (children p) c = Some m" and path: "has_path cs m" 
    by (auto simp: HasChild_def GetChildNode_def)
  note mm = shape_child [OF Cons.prems(1) m]
  obtain son running where so: "remove_path cs m = (son, running)" by fastforce
  have run: "\<not> running \<longrightarrow> children son \<noteq> []" using remove_path_spec [OF _ path so [symmetric]] mm by simp
  have aux: "RemoveAux cs (GetChildNode p c) = Some son"
    using Cons.IH [of m] m mm path so by (simp add: GetChildNode_def HasChild_def)
  have "RemoveChildNode (set_child p c son) c = RemoveChildNode p c"
    using m key_in_children [OF m]
    by (auto simp: RemoveChildNode_def set_child_def HasChild_def alist_erase_assign map_of_alist_assign)
  then show ?case using aux m so run by (auto simp: GetChildNode_def HasChild_def HasChildren_def Let_def)
qed simp

lemma has_path_iff:
  assumes "shape p" and "key \<noteq> []"
  shows "has_path key p \<longleftrightarrow> (\<exists>k. lookup p k \<noteq> None \<and> prefix key k)"
  using assms
proof (induction key arbitrary: p rule: induct_list012)
  case (2 c)
  have "\<exists>k. lookup m k \<noteq> None" if "map_of (children p) c = Some m" for m
    using shape_child [OF 2(1) that] by (intro shape_stores_key) simp_all
  then show ?case by (force simp: HasChild_def prefix_Cons prefix_def split: option.splits)
next
  case (3 c d cs)
  show ?case
  proof (cases "map_of (children p) c")
    case (Some m)
    then have "has_path (c # d # cs) p \<longleftrightarrow> (\<exists>k. lookup m k \<noteq> None \<and> prefix (d # cs) k)"
      using 3(2) [of m] shape_child [OF 3(3) Some] by (simp add: HasChild_def GetChildNode_def)
    also have "\<dots> \<longleftrightarrow> (\<exists>k. lookup p k \<noteq> None \<and> prefix (c # d # cs) k)"
    proof
      assume "\<exists>k. lookup m k \<noteq> None \<and> prefix (d # cs) k"
      then obtain k where "lookup m k \<noteq> None \<and> prefix (d # cs) k" ..
      with Some show "\<exists>k. lookup p k \<noteq> None \<and> prefix (c # d # cs) k" by (intro exI [of _ "c # k"]) simp
    next
      assume "\<exists>k. lookup p k \<noteq> None \<and> prefix (c # d # cs) k"
      then obtain k where "lookup p (c # k) \<noteq> None" "prefix (d # cs) k"
        by (metis Cons_prefix_Cons list.exhaust prefix_Nil list.distinct(1))
      with Some show "\<exists>k. lookup m k \<noteq> None \<and> prefix (d # cs) k" by auto
    qed
    finally show ?thesis .
  qed (auto simp: HasChild_def prefix_def)
qed simp

section \<open>Histories of calls\<close>

inductive trie_reachable :: "'v trie_node \<Rightarrow> bool" where
  trie_init: "trie_reachable new_trie"
| trie_insert: "trie_reachable t \<Longrightarrow> trie_reachable (fst (Trie_Insert key v t))"
| trie_remove: "trie_reachable t \<Longrightarrow> trie_reachable (fst (Trie_Remove key t))"

lemma trie_reachable_shape: "trie_reachable t \<Longrightarrow> shape t \<and> \<not> is_end t"
proof (induction rule: trie_reachable.induct)
  case trie_init
  show ?case by (simp add: new_trie_def)
next
  case (trie_insert t key v)
  have "is_end (fst (insert_path key v t)) = is_end t" if "key \<noteq> []"
    using that by (cases key) (auto simp: InsertChildNode_def Let_def split: prod.splits)
  with trie_insert show ?case
    using insert_path_spec [of t _ key v] by (simp add: Trie_Insert_def)
next
  case (trie_remove t key)
  then show ?case using remove_path_spec [of t key] by (simp add: Trie_Remove_def)
qed

lemma GetValue_lookup:
  "Trie_GetValue is_T key t = (case lookup t key of None \<Rightarrow> None | Some v \<Rightarrow> if is_T v then Some v else None)"
  unfolding Trie_GetValue_def lookup_def by (induction key arbitrary: t) (auto split: option.splits)

lemma lookup_GetValue: "lookup t key = Trie_GetValue (\<lambda>_. True) key t"
  by (simp add: GetValue_lookup split: option.splits)

text \<open>C29. In every trie that calls of \<^verbatim>\<open>Insert\<close> and \<^verbatim>\<open>Remove\<close> can build, \<^verbatim>\<open>Insert\<close> succeeds exactly
  when the key is not empty and has no value yet; then \<^verbatim>\<open>GetValue\<close> finds the new value under this
  key, at the type it was inserted with, and every other key reads as before.  When it fails
  the trie is unchanged.\<close>

theorem Insert_never_overwrites:
  assumes "trie_reachable t" and "Trie_Insert key v t = (t', ok)"
  shows "(ok \<longleftrightarrow> key \<noteq> [] \<and> Trie_GetValue (\<lambda>_. True) key t = None) \<and>
    (ok \<longrightarrow> (\<forall>is_T k. Trie_GetValue is_T k t' =
       (if k = key then (if is_T v then Some v else None) else Trie_GetValue is_T k t))) \<and>
    (\<not> ok \<longrightarrow> t' = t)"
  using assms(2) insert_path_spec [OF conjunct1 [OF trie_reachable_shape [OF assms(1)]] refl, of key v]
  by (auto simp: Trie_Insert_def GetValue_lookup split: if_splits option.splits)

theorem Insert_never_overwrites_witness:
  "let t = fst (Trie_Insert ''ab'' (1::int) new_trie); (t', ok) = Trie_Insert ''a'' 2 t
   in ok \<and> Trie_GetValue (\<lambda>_. True) ''a'' t' = Some 2 \<and> Trie_GetValue (\<lambda>_. True) ''ab'' t' = Some 1"
proof -
  define t where "t = fst (Trie_Insert ''ab'' (1::int) new_trie)"
  have t: "trie_reachable t" unfolding t_def by (intro trie_insert trie_init)
  obtain t' ok where i: "Trie_Insert ''a'' 2 t = (t', ok)" by fastforce
  have "Trie_GetValue (\<lambda>_. True) ''a'' t = None" "Trie_GetValue (\<lambda>_. True) ''ab'' t = Some 1"
    unfolding t_def by code_simp+
  then show ?thesis using Insert_never_overwrites [OF t i] i by (simp add: t_def [symmetric])
qed

text \<open>C30. \<^verbatim>\<open>Remove\<close> succeeds exactly when the key is not empty and is a prefix of a stored key
  (stored or not itself).  It drops every stored key that extends a non-empty prefix of the
  removed key below which only prefixes of the removed key are stored, and nothing else; so
  it deletes exactly the removed key when that is stored and no other stored key is a
  prefix of it or extends it.\<close>

theorem Remove_effect:
  assumes "trie_reachable t" and "Trie_Remove key t = (t', ok)"
  shows "(ok \<longleftrightarrow> key \<noteq> [] \<and> (\<exists>k. Trie_GetValue (\<lambda>_. True) k t \<noteq> None \<and> prefix key k)) \<and>
    (\<not> ok \<longrightarrow> t' = t) \<and>
    (ok \<longrightarrow> (\<forall>is_T k. Trie_GetValue is_T k t' = (if swept t key k then None else Trie_GetValue is_T k t))) \<and>
    (Trie_GetValue (\<lambda>_. True) key t \<noteq> None \<and>
     (\<forall>k. Trie_GetValue (\<lambda>_. True) k t \<noteq> None \<and> (prefix k key \<or> prefix key k) \<longrightarrow> k = key) \<longrightarrow>
     ok \<and> (\<forall>is_T k. Trie_GetValue is_T k t' = (if k = key then None else Trie_GetValue is_T k t)))"
proof -
  have sh: "shape t" "lookup t [] = None"
    using trie_reachable_shape [OF assms(1)] shape_iff [of t] by auto
  have ok: "ok \<longleftrightarrow> key \<noteq> [] \<and> (\<exists>k. lookup t k \<noteq> None \<and> prefix key k)" and same: "\<not> ok \<longrightarrow> t' = t"
    using assms(2) has_path_iff [OF sh(1), of key] by (auto simp: Trie_Remove_def split: if_splits)
  have eff: "lookup t' k = (if swept t key k then None else lookup t k)" if ok for k
    using that assms(2) remove_path_spec [OF sh(1) _ refl, of key] by (auto simp: Trie_Remove_def split: if_splits)
  have "ok \<and> (\<forall>k. lookup t' k = (if k = key then None else lookup t k))"
    if st: "lookup t key \<noteq> None" and only: "\<forall>k. lookup t k \<noteq> None \<and> (prefix k key \<or> prefix key k) \<longrightarrow> k = key"
  proof -
    have "key \<noteq> []" using st sh(2) by (metis)
    then have "ok" using ok st by auto
    moreover have "swept t key key" using \<open>key \<noteq> []\<close> only unfolding swept_def by auto
    moreover have "lookup t k = None \<or> k = key" if "swept t key k" for k
      using that only unfolding swept_def by metis
    ultimately show ?thesis using eff by metis
  qed
  moreover have "Trie_GetValue (\<lambda>_. True) k t = lookup t k" for k by (simp add: lookup_GetValue)
  moreover have "Trie_GetValue is_T k t' = (if b then None else Trie_GetValue is_T k t)"
    if "lookup t' k = (if b then None else lookup t k)" for is_T k b using that by (simp add: GetValue_lookup)
  ultimately show ?thesis using ok same eff by simp
qed

theorem Remove_effect_witness:
  "let t = fst (Trie_Insert ''ab'' 2 (fst (Trie_Insert ''a'' (1::int) new_trie))); (t', ok) = Trie_Remove ''ab'' t
   in ok \<and> swept t ''ab'' ''a'' \<and> Trie_GetValue (\<lambda>_. True) ''a'' t = Some 1 \<and> Trie_GetValue (\<lambda>_. True) ''a'' t' = None"
proof -
  define t where "t = fst (Trie_Insert ''ab'' 2 (fst (Trie_Insert ''a'' (1::int) new_trie)))"
  have t: "trie_reachable t" unfolding t_def by (intro trie_insert trie_init)
  obtain t' ok where r: "Trie_Remove ''ab'' t = (t', ok)" by fastforce
  have ok: "snd (Trie_Remove ''ab'' t) = True" "Trie_GetValue (\<lambda>_. True) ''a'' t = Some 1"
    and gone: "Trie_GetValue (\<lambda>_. True) ''a'' (fst (Trie_Remove ''ab'' t)) = None"
    unfolding t_def by code_simp+
  have "ok \<longrightarrow> (\<forall>is_T k. Trie_GetValue is_T k t' = (if swept t ''ab'' k then None else Trie_GetValue is_T k t))"
    using Remove_effect [OF t r] by blast
  with ok gone r have "swept t ''ab'' ''a''" by (metis fst_conv option.distinct(1) snd_conv)
  with ok gone r show ?thesis by (simp add: t_def [symmetric])
qed

text \<open>On a key for which \<^verbatim>\<open>Remove\<close> succeeds, the recursive \<^verbatim>\<open>RemoveAux\<close> that its comment calls the
  recursive version, started at the root, leaves the same trie as the loop.\<close>

theorem RemoveAux_is_Remove:
  assumes "trie_reachable t" and "Trie_Remove key t = (t', True)"
  shows "RemoveAux key (Some t) = Some t'"
  using assms(2) RemoveAux_remove_path [of t key] trie_reachable_shape [OF assms(1)]
  by (auto simp: Trie_Remove_def split: if_splits)

theorem RemoveAux_is_Remove_witness:
  "let t = fst (Trie_Insert ''ac'' 2 (fst (Trie_Insert ''ab'' (1::int) new_trie)))
   in RemoveAux ''ab'' (Some t) = Some (fst (Trie_Remove ''ab'' t)) \<and>
      Trie_GetValue (\<lambda>_. True) ''ac'' (the (RemoveAux ''ab'' (Some t))) = Some 2"
proof -
  define t where "t = fst (Trie_Insert ''ac'' 2 (fst (Trie_Insert ''ab'' (1::int) new_trie)))"
  have t: "trie_reachable t" unfolding t_def by (intro trie_insert trie_init)
  have "snd (Trie_Remove ''ab'' t) = True" unfolding t_def by code_simp
  then have r: "Trie_Remove ''ab'' t = (fst (Trie_Remove ''ab'' t), True)" by (metis prod.collapse)
  have "Trie_GetValue (\<lambda>_. True) ''ac'' (fst (Trie_Remove ''ab'' t)) = Some 2" unfolding t_def by code_simp
  then show ?thesis using RemoveAux_is_Remove [OF t r] by (simp add: t_def [symmetric])
qed

end
