(* ===== verification/Memory.thy ===== *)
theory Memory
  imports Cpp_Types
begin

text \<open>
  Raw memory as the page and tuple layouts use it: a buffer is the list of its bytes, an
  address is an offset into it, and an access that leaves the buffer is an error.  Unsigned
  32-bit arithmetic is written out as reduction modulo \<open>2 ^ 32\<close>.
\<close>

section \<open>Unsigned integers\<close>

definition u32 :: "int \<Rightarrow> int" where
  "u32 n = n mod 2 ^ 32"

lemma u32_id [simp]: "0 \<le> n \<Longrightarrow> n < 4294967296 \<Longrightarrow> u32 n = n"
  by (simp add: u32_def)

lemma u32_range [simp]: "0 \<le> u32 n" "u32 n < 4294967296"
  by (simp_all add: u32_def)

lemma upto_from: "[int k..int n - 1] = map int [k..<n]"
proof (induction n)
  case (Suc n)
  show ?case
  proof (cases "k \<le> n")
    case True
    then have "[int k..int (Suc n) - 1] = [int k..int n - 1] @ [int n]" by (simp add: upto_rec2)
    with Suc True show ?thesis by simp
  qed simp
qed simp

lemma sint_small: "- 2147483648 \<le> k \<Longrightarrow> k < 2147483648 \<Longrightarrow> sint (word_of_int k :: 32 word) = k"
  by (simp add: signed_of_int signed_take_bit_int_eq_self)

section \<open>Buffers\<close>

definition mem_read :: "byte list \<Rightarrow> int \<Rightarrow> nat \<Rightarrow> exc + byte list" where
  "mem_read buf off n =
     (if 0 \<le> off \<and> nat off + n \<le> length buf then Inr (take n (drop (nat off) buf)) else Inl Out_Of_Bounds)"

definition mem_splice :: "byte list \<Rightarrow> nat \<Rightarrow> byte list \<Rightarrow> byte list" where
  "mem_splice buf off bs = take off buf @ bs @ drop (off + length bs) buf"

text \<open>\<^verbatim>\<open>memcpy\<close> of \<open>bs\<close> to an address of the buffer; \<^verbatim>\<open>memmove\<close> within it.\<close>

definition memcpy :: "byte list \<Rightarrow> int \<Rightarrow> byte list \<Rightarrow> exc + byte list" where
  "memcpy buf off bs =
     (if 0 \<le> off \<and> nat off + length bs \<le> length buf then Inr (mem_splice buf (nat off) bs) else Inl Out_Of_Bounds)"

definition memmove :: "byte list \<Rightarrow> int \<Rightarrow> int \<Rightarrow> nat \<Rightarrow> exc + byte list" where
  "memmove buf dst src n = ebind (mem_read buf src n) (\<lambda>bs. memcpy buf dst bs)"

text \<open>A \<^verbatim>\<open>uint32_t\<close> at an address, and storing one.\<close>

definition read32 :: "byte list \<Rightarrow> int \<Rightarrow> exc + int" where
  "read32 buf off = ebind (mem_read buf off 4) (\<lambda>bs. Inr (le_value bs))"

definition write32 :: "byte list \<Rightarrow> int \<Rightarrow> int \<Rightarrow> exc + byte list" where
  "write32 buf off k = memcpy buf off (le_bytes 4 k)"

section \<open>Reading what was written\<close>

definition mem_slice :: "byte list \<Rightarrow> nat \<Rightarrow> nat \<Rightarrow> byte list" where
  "mem_slice buf off n = take n (drop off buf)"

definition word32 :: "byte list \<Rightarrow> nat \<Rightarrow> int" where
  "word32 buf off = le_value (mem_slice buf off 4)"

lemma length_splice [simp]: "off + length bs \<le> length buf \<Longrightarrow> length (mem_splice buf off bs) = length buf"
  by (simp add: mem_splice_def)

lemma length_slice [simp]: "off + n \<le> length buf \<Longrightarrow> length (mem_slice buf off n) = n"
  by (simp add: mem_slice_def)

lemma nth_splice:
  "off + length bs \<le> length buf \<Longrightarrow> i < length buf \<Longrightarrow>
   mem_splice buf off bs ! i = (if off \<le> i \<and> i < off + length bs then bs ! (i - off) else buf ! i)"
  by (auto simp: mem_splice_def nth_append min_def)

lemma nth_slice: "off + n \<le> length buf \<Longrightarrow> i < n \<Longrightarrow> mem_slice buf off n ! i = buf ! (off + i)"
  by (simp add: mem_slice_def)

lemma slice_splice_same: "off + length bs \<le> length buf \<Longrightarrow> mem_slice (mem_splice buf off bs) off (length bs) = bs"
  by (simp add: mem_slice_def mem_splice_def)

lemma slice_splice_other:
  assumes "off + length bs \<le> length buf" and "at + n \<le> length buf" and "at + n \<le> off \<or> off + length bs \<le> at"
  shows "mem_slice (mem_splice buf off bs) at n = mem_slice buf at n"
  using assms by (intro nth_equalityI) (auto simp: nth_slice nth_splice)

lemma slice_splice_inside:
  assumes "off + length bs \<le> length buf" and "off \<le> at" and "at + n \<le> off + length bs"
  shows "mem_slice (mem_splice buf off bs) at n = mem_slice bs (at - off) n"
  using assms by (intro nth_equalityI) (auto simp: nth_slice nth_splice)

lemma slice_slice: "i + n \<le> m \<Longrightarrow> off + m \<le> length buf \<Longrightarrow> mem_slice (mem_slice buf off m) i n = mem_slice buf (off + i) n"
  by (intro nth_equalityI) (auto simp: nth_slice ac_simps)

lemma le_value_bound: "0 \<le> le_value bs \<and> le_value bs < 256 ^ length bs"
proof (induction bs)
  case (Cons b bs)
  have "uint b + 256 * le_value bs < 256 + 256 * (256 ^ length bs - 1)"
    using Cons uint_bounded [of b] by simp
  with Cons show ?case by (simp add: le_value_def)
qed (simp add: le_value_def)

lemma word32_range [simp]:
  assumes "off + 4 \<le> length buf"
  shows "0 \<le> word32 buf off" "word32 buf off < 4294967296"
  using le_value_bound [of "mem_slice buf off 4"] assms by (simp_all add: word32_def)

lemma word32_splice_same:
  "off + 4 \<le> length buf \<Longrightarrow> word32 (mem_splice buf off (le_bytes 4 k)) off = u32 k"
  using slice_splice_same [of off "le_bytes 4 k" buf] by (simp add: word32_def le_value_le_bytes u32_def)

lemma word32_splice_other:
  "off + length bs \<le> length buf \<Longrightarrow> at + 4 \<le> length buf \<Longrightarrow> at + 4 \<le> off \<or> off + length bs \<le> at \<Longrightarrow>
   word32 (mem_splice buf off bs) at = word32 buf at"
  by (simp add: word32_def slice_splice_other)

text \<open>Accesses that stay inside the buffer.\<close>

lemma mem_read_ok: "0 \<le> off \<Longrightarrow> nat off + n \<le> length buf \<Longrightarrow> mem_read buf off n = Inr (mem_slice buf (nat off) n)"
  by (simp add: mem_read_def mem_slice_def)

lemma memcpy_ok: "0 \<le> off \<Longrightarrow> nat off + length bs \<le> length buf \<Longrightarrow> memcpy buf off bs = Inr (mem_splice buf (nat off) bs)"
  by (simp add: memcpy_def)

lemma memmove_ok:
  "0 \<le> dst \<Longrightarrow> 0 \<le> src \<Longrightarrow> nat dst + n \<le> length buf \<Longrightarrow> nat src + n \<le> length buf \<Longrightarrow>
   memmove buf dst src n = Inr (mem_splice buf (nat dst) (mem_slice buf (nat src) n))"
  by (simp add: memmove_def mem_read_ok memcpy_ok)

lemma read32_ok: "0 \<le> off \<Longrightarrow> nat off + 4 \<le> length buf \<Longrightarrow> read32 buf off = Inr (word32 buf (nat off))"
  by (simp add: read32_def mem_read_ok word32_def)

lemma write32_ok:
  "0 \<le> off \<Longrightarrow> nat off + 4 \<le> length buf \<Longrightarrow> write32 buf off k = Inr (mem_splice buf (nat off) (le_bytes 4 k))"
  by (simp add: write32_def memcpy_ok)

end
