(* ===== verification/Tuple_Layout.thy ===== *)
theory Tuple_Layout
  imports Value_Cast Memory
begin

text \<open>
  Record identifiers (\<^verbatim>\<open>include/common/rid.h\<close>), columns (\<^verbatim>\<open>include/catalog/column.h\<close>), schemas
  (\<^verbatim>\<open>catalog/schema.cpp\<close>) and tuples (\<^verbatim>\<open>storage/table/tuple.cpp\<close>).  A tuple is the bytes it points to
  and its record identifier; its \<^verbatim>\<open>size_\<close> is the number of the bytes.  Whether a tuple owns its
  bytes (\<^verbatim>\<open>allocated_\<close>) only decides who frees them and is not modelled.

  The lemmas: a record identifier is read back from its 64-bit form; a tuple built from
  values that match its schema reads back as these values, at every column; a key tuple
  holds the key columns; the serialized tuple is read back.
\<close>

section \<open>Record identifiers\<close>

record RID =
  rid_page_id :: page_id
  rid_slot_num :: "32 word"

definition RID_default :: RID where
  "RID_default = \<lparr>rid_page_id = INVALID_PAGE_ID, rid_slot_num = 0\<rparr>"

definition RID_int64 :: "64 word \<Rightarrow> RID" where
  "RID_int64 rid = \<lparr>rid_page_id = scast (signed_drop_bit 32 rid), rid_slot_num = ucast rid\<rparr>"

definition RID_Get :: "RID \<Rightarrow> 64 word" where
  "RID_Get r = or (push_bit 32 (scast (rid_page_id r))) (ucast (rid_slot_num r))"

definition RID_Set :: "page_id \<Rightarrow> 32 word \<Rightarrow> RID \<Rightarrow> RID" where
  "RID_Set p s r = r\<lparr>rid_page_id := p, rid_slot_num := s\<rparr>"

definition RID_ToString :: "RID \<Rightarrow> string" where
  "RID_ToString r = ''page_id: '' @ to_string (sint (rid_page_id r)) @
     '' slot_num: '' @ to_string (uint (rid_slot_num r)) @ [CHR 0x0A]"

section \<open>Columns\<close>

record column =
  column_name :: string
  column_type :: type_id
  fixed_length :: int
  variable_length :: int
  column_offset :: int

definition TypeSize :: "type_id \<Rightarrow> exc + int" where
  "TypeSize type = (case type of
       BOOLEAN \<Rightarrow> Inr 1
     | TINYINT \<Rightarrow> Inr 1
     | SMALLINT \<Rightarrow> Inr 2
     | INTEGER \<Rightarrow> Inr 4
     | BIGINT \<Rightarrow> Inr 8
     | DECIMAL \<Rightarrow> Inr 8
     | TIMESTAMP \<Rightarrow> Inr 8
     | VARCHAR \<Rightarrow> Inr 12
     | _ \<Rightarrow> Inl Std_Logic_Error)"

definition Column_fixed :: "string \<Rightarrow> type_id \<Rightarrow> exc + column" where
  "Column_fixed name type = ebind (TypeSize type) (\<lambda>size. assert_that (type \<noteq> VARCHAR)
     (Inr \<lparr>column_name = name, column_type = type, fixed_length = size, variable_length = 0, column_offset = 0\<rparr>))"

definition Column_varlen :: "string \<Rightarrow> type_id \<Rightarrow> int \<Rightarrow> exc + column" where
  "Column_varlen name type len = ebind (TypeSize type) (\<lambda>size. assert_that (type = VARCHAR)
     (Inr \<lparr>column_name = name, column_type = type, fixed_length = size, variable_length = len, column_offset = 0\<rparr>))"

definition Column_rename :: "string \<Rightarrow> column \<Rightarrow> column" where
  "Column_rename name col = col\<lparr>column_name := name\<rparr>"

definition Column_IsInlined :: "column \<Rightarrow> bool" where
  "Column_IsInlined col \<longleftrightarrow> column_type col \<noteq> VARCHAR"

definition Column_GetLength :: "column \<Rightarrow> int" where
  "Column_GetLength col = (if Column_IsInlined col then fixed_length col else variable_length col)"

definition Column_ToString :: "bool \<Rightarrow> column \<Rightarrow> string" where
  "Column_ToString simplified col =
     (if simplified then column_name col @ '':'' @ TypeIdToString (column_type col)
      else ''Column['' @ column_name col @ '', '' @ TypeIdToString (column_type col) @ '', '' @
           ''Offset:'' @ to_string (column_offset col) @ '', '' @
           (if Column_IsInlined col then ''FixedLength:'' @ to_string (fixed_length col)
            else ''VarLength:'' @ to_string (variable_length col)) @ '']'')"

section \<open>Schemas\<close>

record schema =
  schema_length :: int
  columns :: "column list"
  tuple_is_inlined :: bool
  uninlined_columns :: "nat list"

text \<open>The loop of the constructor: the remaining columns, their index and the current offset.\<close>

fun add_columns :: "column list \<Rightarrow> nat \<Rightarrow> int \<Rightarrow> schema \<Rightarrow> schema" where
  "add_columns [] index curr_offset s = s\<lparr>schema_length := curr_offset\<rparr>"
| "add_columns (col # cols) index curr_offset s =
     (let s1 = (if \<not> Column_IsInlined col
                then s\<lparr>tuple_is_inlined := False, uninlined_columns := uninlined_columns s @ [index]\<rparr> else s);
          col' = col\<lparr>column_offset := curr_offset\<rparr>
      in add_columns cols (index + 1) (u32 (curr_offset + fixed_length col')) (s1\<lparr>columns := columns s1 @ [col']\<rparr>))"

definition new_schema :: "column list \<Rightarrow> schema" where
  "new_schema cols = add_columns cols 0 0
     \<lparr>schema_length = 0, columns = [], tuple_is_inlined = True, uninlined_columns = []\<rparr>"

definition GetColumn :: "schema \<Rightarrow> nat \<Rightarrow> exc + column" where
  "GetColumn s i = (if i < length (columns s) then Inr (columns s ! i) else Inl Out_Of_Bounds)"

fun copy_columns :: "schema \<Rightarrow> nat list \<Rightarrow> exc + column list" where
  "copy_columns from [] = Inr []"
| "copy_columns from (i # is) = ebind (GetColumn from i) (\<lambda>c. ebind (copy_columns from is) (\<lambda>cs. Inr (c # cs)))"

definition CopySchema :: "schema \<Rightarrow> nat list \<Rightarrow> exc + schema" where
  "CopySchema from attrs = ebind (copy_columns from attrs) (\<lambda>cols. Inr (new_schema cols))"

fun find_column :: "column list \<Rightarrow> nat \<Rightarrow> string \<Rightarrow> nat option" where
  "find_column [] i name = None"
| "find_column (col # cols) i name = (if column_name col = name then Some i else find_column cols (i + 1) name)"

definition TryGetColIdx :: "schema \<Rightarrow> string \<Rightarrow> nat option" where
  "TryGetColIdx s name = find_column (columns s) 0 name"

definition GetColIdx :: "schema \<Rightarrow> string \<Rightarrow> exc + nat" where
  "GetColIdx s name = (case TryGetColIdx s name of Some i \<Rightarrow> Inr i | None \<Rightarrow> Inl Std_Logic_Error)"

fun commas :: "string list \<Rightarrow> string" where
  "commas [] = []"
| "commas [x] = x"
| "commas (x # y # ys) = x @ '', '' @ commas (y # ys)"

definition Schema_ToString :: "bool \<Rightarrow> schema \<Rightarrow> string" where
  "Schema_ToString simplified s =
     (if simplified then ''('' @ commas (map (Column_ToString simplified) (columns s)) @ '')''
      else ''Schema['' @ ''NumColumns:'' @ to_string (int (length (columns s))) @ '', '' @
           ''IsInlined:'' @ (if tuple_is_inlined s then ''1'' else ''0'') @ '', '' @
           ''Length:'' @ to_string (schema_length s) @ '']'' @
           '' :: ('' @ commas (map (Column_ToString True) (columns s)) @ '')'')"

section \<open>Tuples\<close>

record tuple =
  t_rid :: RID
  t_data :: "byte list option"

definition Tuple_default :: tuple where
  "Tuple_default = \<lparr>t_rid = RID_default, t_data = None\<rparr>"

definition Tuple_rid :: "RID \<Rightarrow> tuple" where
  "Tuple_rid rid = \<lparr>t_rid = rid, t_data = None\<rparr>"

definition tuple_bytes :: "tuple \<Rightarrow> byte list" where
  "tuple_bytes t = (case t_data t of None \<Rightarrow> [] | Some bs \<Rightarrow> bs)"

definition tuple_size :: "tuple \<Rightarrow> int" where
  "tuple_size t = int (length (tuple_bytes t))"

text \<open>\<^verbatim>\<open>Value::GetLength\<close>, and the bytes that a varlen value takes behind the fixed part.\<close>

definition Value_GetLength :: "'d double_ops \<Rightarrow> 'd Value \<Rightarrow> exc + 32 word" where
  "Value_GetLength D v = ebind (GetInstance (GetTypeId v)) (\<lambda>inst.
     if inst = VARCHAR then Inr (size_len D v) else Inl NOT_IMPLEMENTED)"

definition varlen_bytes :: "'d double_ops \<Rightarrow> 'd Value \<Rightarrow> exc + int" where
  "varlen_bytes D v = ebind (Value_GetLength D v) (\<lambda>len.
     Inr (uint (if len = BUSTUB_VALUE_NULL then 0 else len) + 4))"

fun add_varlens :: "'d double_ops \<Rightarrow> 'd Value list \<Rightarrow> nat list \<Rightarrow> int \<Rightarrow> exc + int" where
  "add_varlens D vals [] acc = Inr acc"
| "add_varlens D vals (i # is) acc =
     ebind (varlen_bytes D (vals ! i)) (\<lambda>n. add_varlens D vals is (u32 (acc + n)))"

fun write_columns :: "'d double_ops \<Rightarrow> column list \<Rightarrow> 'd Value list \<Rightarrow> int \<Rightarrow> byte list \<Rightarrow> exc + byte list" where
  "write_columns D (col # cols) (v # vs) offset data =
     (if \<not> Column_IsInlined col
      then ebind (write32 data (column_offset col) offset) (\<lambda>data.
           ebind (SerializeTo D v) (\<lambda>bs.
           ebind (memcpy data offset bs) (\<lambda>data.
           ebind (varlen_bytes D v) (\<lambda>n.
           write_columns D cols vs (u32 (offset + n)) data))))
      else ebind (SerializeTo D v) (\<lambda>bs.
           ebind (memcpy data (column_offset col) bs) (\<lambda>data.
           write_columns D cols vs offset data)))"
| "write_columns D _ _ offset data = Inr data"

definition new_tuple :: "'d double_ops \<Rightarrow> 'd Value list \<Rightarrow> schema \<Rightarrow> exc + tuple" where
  "new_tuple D vals s = assert_that (length vals = length (columns s))
     (ebind (add_varlens D vals (uninlined_columns s) (schema_length s)) (\<lambda>size.
      ebind (write_columns D (columns s) vals (schema_length s) (replicate (nat size) 0)) (\<lambda>data.
      Inr \<lparr>t_rid = RID_default, t_data = Some data\<rparr>)))"

text \<open>The address of a column, and the number of bytes that \<^verbatim>\<open>DeserializeFrom\<close> reads there.\<close>

definition GetDataPtr :: "schema \<Rightarrow> nat \<Rightarrow> tuple \<Rightarrow> exc + int" where
  "GetDataPtr s column_idx t = assert_that (t_data t \<noteq> None)
     (ebind (GetColumn s column_idx) (\<lambda>col.
      if Column_IsInlined col then Inr (column_offset col)
      else ebind (read32 (tuple_bytes t) (column_offset col)) (\<lambda>k. Inr (wrap 32 k))))"

definition read_span :: "type_id \<Rightarrow> byte list \<Rightarrow> int \<Rightarrow> exc + nat" where
  "read_span type data off =
     (if type = VARCHAR
      then ebind (read32 data off) (\<lambda>k. Inr (4 + (if k = uint BUSTUB_VALUE_NULL then 0 else nat k)))
      else if type = INVALID \<or> type = TIMESTAMP then Inr 0
      else GetTypeSize type)"

definition Tuple_GetValue :: "'d double_ops \<Rightarrow> schema \<Rightarrow> nat \<Rightarrow> tuple \<Rightarrow> exc + 'd Value" where
  "Tuple_GetValue D s column_idx t = assert_that (t_data t \<noteq> None)
     (ebind (GetColumn s column_idx) (\<lambda>col.
      ebind (GetDataPtr s column_idx t) (\<lambda>ptr.
      ebind (read_span (column_type col) (tuple_bytes t) ptr) (\<lambda>n.
      ebind (mem_read (tuple_bytes t) ptr n) (\<lambda>storage.
      DeserializeFrom D storage (column_type col))))))"

definition Tuple_IsNull :: "'d double_ops \<Rightarrow> schema \<Rightarrow> nat \<Rightarrow> tuple \<Rightarrow> exc + bool" where
  "Tuple_IsNull D s column_idx t = ebind (Tuple_GetValue D s column_idx t) (\<lambda>v. Inr (IsNull D v))"

fun key_values :: "'d double_ops \<Rightarrow> schema \<Rightarrow> nat list \<Rightarrow> tuple \<Rightarrow> exc + 'd Value list" where
  "key_values D s [] t = Inr []"
| "key_values D s (i # is) t =
     ebind (Tuple_GetValue D s i t) (\<lambda>v. ebind (key_values D s is t) (\<lambda>vs. Inr (v # vs)))"

definition KeyFromTuple :: "'d double_ops \<Rightarrow> schema \<Rightarrow> schema \<Rightarrow> nat list \<Rightarrow> tuple \<Rightarrow> exc + tuple" where
  "KeyFromTuple D s key_schema key_attrs t =
     ebind (key_values D s key_attrs t) (\<lambda>vals. new_tuple D vals key_schema)"

fun column_texts :: "'d double_ops \<Rightarrow> schema \<Rightarrow> nat list \<Rightarrow> tuple \<Rightarrow> exc + string list" where
  "column_texts D s [] t = Inr []"
| "column_texts D s (i # is) t =
     ebind (Tuple_IsNull D s i t) (\<lambda>null.
     ebind (if null then Inr ''<NULL>'' else ebind (Tuple_GetValue D s i t) (ToString D)) (\<lambda>x.
     ebind (column_texts D s is t) (\<lambda>xs. Inr (x # xs))))"

definition Tuple_ToString :: "'d double_ops \<Rightarrow> schema \<Rightarrow> tuple \<Rightarrow> exc + string" where
  "Tuple_ToString D s t = ebind (column_texts D s [0..<length (columns s)] t) (\<lambda>xs.
     Inr (''('' @ commas xs @ '')'' @ '' Tuple size is '' @ to_string (tuple_size t)))"

definition Tuple_SerializeTo :: "tuple \<Rightarrow> byte list \<Rightarrow> int \<Rightarrow> exc + byte list" where
  "Tuple_SerializeTo t buf storage =
     ebind (memcpy buf storage (le_bytes 4 (tuple_size t))) (\<lambda>buf. memcpy buf (storage + 4) (tuple_bytes t))"

definition Tuple_DeserializeFrom :: "byte list \<Rightarrow> int \<Rightarrow> tuple \<Rightarrow> exc + tuple" where
  "Tuple_DeserializeFrom buf storage t =
     ebind (read32 buf storage) (\<lambda>size.
     ebind (mem_read buf (storage + 4) (nat size)) (\<lambda>data. Inr (t\<lparr>t_data := Some data\<rparr>)))"

section \<open>The layout of a schema\<close>

definition wf_column :: "column \<Rightarrow> bool" where
  "wf_column col \<longleftrightarrow> TypeSize (column_type col) = Inr (fixed_length col)"

lemma wf_column_pos: "wf_column col \<Longrightarrow> 0 < fixed_length col"
  by (cases "column_type col") (auto simp: wf_column_def TypeSize_def)

lemma wf_column_ctors:
  "Column_fixed name type = Inr col \<Longrightarrow> wf_column col" "Column_varlen name type len = Inr col \<Longrightarrow> wf_column col"
  by (cases type; force simp: Column_fixed_def Column_varlen_def wf_column_def TypeSize_def)+

definition fixed_part :: "column list \<Rightarrow> nat" where
  "fixed_part cols = (\<Sum>col\<leftarrow>cols. nat (fixed_length col))"

fun place :: "nat \<Rightarrow> column list \<Rightarrow> column list" where
  "place off [] = []"
| "place off (col # cols) = col\<lparr>column_offset := int off\<rparr> # place (off + nat (fixed_length col)) cols"

fun uninlined_from :: "nat \<Rightarrow> column list \<Rightarrow> nat list" where
  "uninlined_from i [] = []"
| "uninlined_from i (col # cols) = (if Column_IsInlined col then [] else [i]) @ uninlined_from (Suc i) cols"

lemma fixed_part_simps [simp]:
  "fixed_part [] = 0" "fixed_part (col # cols) = nat (fixed_length col) + fixed_part cols"
  by (simp_all add: fixed_part_def)

lemma length_place [simp]: "length (place off cols) = length cols"
  by (induction cols arbitrary: off) auto

lemma IsInlined_offset [simp]: "Column_IsInlined (col\<lparr>column_offset := k\<rparr>) = Column_IsInlined col"
  by (simp add: Column_IsInlined_def)

lemma add_columns_spec:
  assumes "list_all wf_column cols" and "off + fixed_part cols < 4294967296"
  shows "add_columns cols i (int off) s =
    s\<lparr>schema_length := int (off + fixed_part cols), columns := columns s @ place off cols,
      tuple_is_inlined := tuple_is_inlined s \<and> list_all Column_IsInlined cols,
      uninlined_columns := uninlined_columns s @ uninlined_from i cols\<rparr>"
  using assms
proof (induction cols arbitrary: off i s)
  case (Cons col cols)
  obtain k where k: "fixed_length col = int k"
    using Cons.prems wf_column_pos [of col] by (auto dest!: zero_less_imp_eq_int)
  then have "u32 (int off + fixed_length col) = int (off + k)" using Cons.prems by simp
  with Cons.prems Cons.IH [of "off + k"] k show ?case by (simp add: Let_def ac_simps)
qed simp

lemma new_schema_eq:
  "list_all wf_column cols \<Longrightarrow> fixed_part cols < 4294967296 \<Longrightarrow>
   new_schema cols = \<lparr>schema_length = int (fixed_part cols), columns = place 0 cols,
     tuple_is_inlined = list_all Column_IsInlined cols, uninlined_columns = uninlined_from 0 cols\<rparr>"
  using add_columns_spec [of cols 0] by (simp add: new_schema_def)

section \<open>Building a tuple\<close>

definition matches :: "'d double_ops \<Rightarrow> column \<Rightarrow> 'd Value \<Rightarrow> bool" where
  "matches D col v \<longleftrightarrow> GetTypeId v = column_type col \<and> storable D v"

fun varlen_part :: "'d double_ops \<Rightarrow> column list \<Rightarrow> 'd Value list \<Rightarrow> nat" where
  "varlen_part D (col # cols) (v # vs) =
     (if Column_IsInlined col then 0 else serialized_size D v) + varlen_part D cols vs"
| "varlen_part D _ _ = 0"

lemma varlen_bytes_eq:
  assumes "storable D v" and "GetTypeId v = VARCHAR"
  shows "varlen_bytes D v = Inr (int (serialized_size D v))"
proof -
  obtain s where v: "v = Varchar_v s" using assms(2) by (cases v) auto
  show ?thesis
  proof (cases s)
    case None
    with v show ?thesis by (simp add: varlen_bytes_def Value_GetLength_def serialized_size_def)
  next
    case (Some cs)
    with v assms(1) have l: "length cs < 4294967295" by (simp add: storable_def)
    define len where "len = size_len D v"
    have "len \<noteq> BUSTUB_VALUE_NULL" "uint len = int (length cs)"
      using size_len_varchar [OF l, of D] Some v uint_nat [of len] by (simp_all add: len_def IsNull_def del: size_len.simps)
    then have "varlen_bytes D v = Inr (int (length cs) + 4)"
      using assms(2) by (simp add: varlen_bytes_def Value_GetLength_def len_def [symmetric] del: size_len.simps)
    with Some v show ?thesis by (simp add: serialized_size_def)
  qed
qed

lemma inlined_size:
  assumes "matches D col v" and "wf_column col" and "Column_IsInlined col"
  shows "serialized_size D v = nat (fixed_length col)" and "GetTypeSize (column_type col) = Inr (serialized_size D v)"
  using assms by (cases v; auto simp: matches_def wf_column_def Column_IsInlined_def TypeSize_def serialized_size_def
      GetTypeSize_def storable_def)+

lemma add_varlens_eq:
  assumes "list_all2 (matches D) cols vs" and "acc + varlen_part D cols vs < 4294967296"
  shows "add_varlens D (pre @ vs) (uninlined_from (length pre) cols) (int acc) = Inr (int (acc + varlen_part D cols vs))"
  using assms
proof (induction cols vs arbitrary: acc pre rule: list_all2_induct)
  case (Cons col cols v vs)
  have "varlen_bytes D v = Inr (int (serialized_size D v))" if "\<not> Column_IsInlined col"
    using that Cons by (intro varlen_bytes_eq) (auto simp: matches_def Column_IsInlined_def)
  with Cons.prems Cons.IH [of _ "pre @ [v]"] show ?case
    by (auto simp: ac_simps simp flip: of_nat_add)
qed simp

text \<open>A column of the data holds a value: its bytes are at the offset of the column, or at the
  offset that is stored there.\<close>

definition stored :: "'d double_ops \<Rightarrow> byte list \<Rightarrow> column \<Rightarrow> 'd Value \<Rightarrow> nat \<Rightarrow> bool" where
  "stored D data col v off \<longleftrightarrow> (\<exists>bs at. SerializeTo D v = Inr bs \<and> at + length bs \<le> length data \<and>
     mem_slice data at (length bs) = bs \<and>
     (if Column_IsInlined col then at = off else word32 data off = int at \<and> off + 4 \<le> length data))"

lemma stored_offset [simp]: "stored D data (col\<lparr>column_offset := k\<rparr>) v off = stored D data col v off"
  by (simp add: stored_def)

lemma stored_inlined:
  assumes "SerializeTo D v = Inr bs" and "Column_IsInlined col" and "off + length bs \<le> length data"
    and "mem_slice data off (length bs) = bs"
  shows "stored D data col v off"
  unfolding stored_def using assms by (intro exI [of _ bs] exI [of _ off]) simp

lemma stored_varlen:
  assumes "SerializeTo D v = Inr bs" and "off + 4 \<le> length data" and "word32 data off = int at"
    and "at + length bs \<le> length data" and "mem_slice data at (length bs) = bs" and "\<not> Column_IsInlined col"
  shows "stored D data col v off"
  unfolding stored_def using assms by (intro exI [of _ bs] exI [of _ at]) simp

lemma write_columns_spec:
  assumes "list_all2 (matches D) cols vs" and "list_all wf_column cols"
    and "b + fixed_part cols \<le> L" and "L \<le> off" and "off + varlen_part D cols vs \<le> length data"
    and "length data < 4294967296"
  shows "\<exists>data'. write_columns D (place b cols) vs (int off) data = Inr data' \<and> length data' = length data \<and>
    (\<forall>at n. at + n \<le> b \<or> L \<le> at \<and> at + n \<le> off \<longrightarrow> mem_slice data' at n = mem_slice data at n) \<and>
    (\<forall>i < length cols. stored D data' (place b cols ! i) (vs ! i) (nat (column_offset (place b cols ! i))))"
  using assms
proof (induction cols vs arbitrary: b off data rule: list_all2_induct)
  case (Cons col cols v vs)
  obtain bs where bs: "SerializeTo D v = Inr bs" "length bs = serialized_size D v"
    using serialized_value [of D v] Cons.hyps(1) by (auto simp: matches_def)
  let ?b = "b + nat (fixed_length col)"
  have wf: "wf_column col" "list_all wf_column cols" using Cons.prems by simp_all
  show ?case
  proof (cases "Column_IsInlined col")
    case True
    define d where "d = mem_splice data b bs"
    have size: "length bs = nat (fixed_length col)"
      using inlined_size(1) [OF Cons.hyps(1) wf(1) True] bs(2) by simp
    with Cons.prems have fit: "b + length bs \<le> length data" "b + length bs \<le> L" by simp_all
    then have d: "memcpy data (int b) bs = Inr d" "length d = length data" by (simp_all add: d_def memcpy_ok)
    obtain d' where d': "write_columns D (place ?b cols) vs (int off) d = Inr d'" "length d' = length d"
      "\<And>at n. at + n \<le> ?b \<or> L \<le> at \<and> at + n \<le> off \<Longrightarrow> mem_slice d' at n = mem_slice d at n"
      "\<And>i. i < length cols \<Longrightarrow> stored D d' (place ?b cols ! i) (vs ! i) (nat (column_offset (place ?b cols ! i)))"
      using Cons.IH [of ?b off d] Cons.prems True d(2) by auto
    have "stored D d' col v b"
      using fit d(2) d'(2,3) size slice_splice_same [OF fit(1)] 
      by (intro stored_inlined [OF bs(1) True]) (simp_all add: d_def)
    moreover have "mem_slice d at n = mem_slice data at n" if "at + n \<le> b \<or> L \<le> at \<and> at + n \<le> off" for at n
      using that fit Cons.prems(4) unfolding d_def by (intro slice_splice_other) auto
    ultimately show ?thesis
      using True bs(1) d d' by (auto simp: nth_Cons split: nat.splits)
  next
    case False
    define d where "d = mem_splice data b (le_bytes 4 (int off))"
    define e where "e = mem_splice d off bs"
    have size: "fixed_length col = 12" "varlen_bytes D v = Inr (int (length bs))"
      using False wf(1) Cons.hyps(1) bs(2) varlen_bytes_eq [of D v]
      by (auto simp: Column_IsInlined_def wf_column_def TypeSize_def matches_def)
    let ?off = "off + length bs"
    have fit: "b + 4 \<le> L" "L \<le> off" "?off + varlen_part D cols vs \<le> length data" "length data < 4294967296"
      using Cons.prems False bs(2) size by simp_all
    then have d: "write32 data (int b) (int off) = Inr d" "length d = length data" by (simp_all add: d_def write32_ok)
    with fit have e: "memcpy d (int off) bs = Inr e" "length e = length data" by (simp_all add: e_def memcpy_ok)
    obtain d' where d': "write_columns D (place ?b cols) vs (int ?off) e = Inr d'" "length d' = length e"
      "\<And>at n. at + n \<le> ?b \<or> L \<le> at \<and> at + n \<le> ?off \<Longrightarrow> mem_slice d' at n = mem_slice e at n"
      "\<And>i. i < length cols \<Longrightarrow> stored D d' (place ?b cols ! i) (vs ! i) (nat (column_offset (place ?b cols ! i)))"
      using Cons.IH [of ?b ?off e] Cons.prems fit e(2) by auto
    have "mem_slice d' b 4 = mem_slice d b 4" "mem_slice d' off (length bs) = bs"
      using fit size d(2) d'(3) [of b 4] d'(3) [of off "length bs"] slice_splice_same [of off bs d]
      by (simp_all add: e_def slice_splice_other)
    moreover have "word32 d b = int off" using fit by (simp add: d_def word32_splice_same)
    ultimately have "stored D d' col v b"
      using fit d'(2) e(2) False by (intro stored_varlen [OF bs(1), of _ _ off]) (simp_all add: word32_def)
    moreover have "mem_slice e at n = mem_slice data at n" if "at + n \<le> b \<or> L \<le> at \<and> at + n \<le> off" for at n
    proof -
      have "mem_slice e at n = mem_slice d at n"
        using that fit d(2) unfolding e_def by (intro slice_splice_other) auto
      moreover have "mem_slice d at n = mem_slice data at n"
        using that fit unfolding d_def by (intro slice_splice_other) auto
      ultimately show ?thesis by simp
    qed
    ultimately show ?thesis
      using False bs(1) d e d' size fit by (auto simp: nth_Cons split: nat.splits simp flip: of_nat_add)
  qed
qed simp

section \<open>Reading a tuple\<close>

lemma place_nth:
  "i < length cols \<Longrightarrow> column_type (place b cols ! i) = column_type (cols ! i) \<and>
     Column_IsInlined (place b cols ! i) = Column_IsInlined (cols ! i) \<and> 0 \<le> column_offset (place b cols ! i)"
  by (induction cols arbitrary: b i) (auto simp: nth_Cons Column_IsInlined_def split: nat.splits)

lemma varlen_span:
  assumes "storable D v" and "GetTypeId v = VARCHAR" and "SerializeTo D v = Inr bs"
    and "at + length bs \<le> length data" and "mem_slice data at (length bs) = bs"
  shows "read_span VARCHAR data (int at) = Inr (length bs)"
proof -
  obtain s where v: "v = Varchar_v s" using assms(2) by (cases v) auto
  let ?len = "size_len D v"
  have ser: "bs = (if ?len = BUSTUB_VALUE_NULL then le_bytes 4 (uint ?len)
      else le_bytes 4 (uint ?len) @ map char_byte (take (unat ?len) (the s)))"
    using assms(2,3) v by (simp add: SerializeTo_def VarlenType_SerializeTo_def Let_def del: size_len.simps
        split: if_splits)
  have "length (the s) = unat ?len" if "?len \<noteq> BUSTUB_VALUE_NULL"
    using that size_len_varchar(1) [of "the s" D] assms(1) v by (cases s) (simp_all add: storable_def)
  with ser obtain cs where bs: "bs = le_bytes 4 (uint ?len) @ map char_byte cs"
    and cs: "length cs = (if ?len = BUSTUB_VALUE_NULL then 0 else unat ?len)"
    by (cases "?len = BUSTUB_VALUE_NULL") auto
  have len: "length bs = 4 + (if ?len = BUSTUB_VALUE_NULL then 0 else unat ?len)"
    using cs by (simp add: bs)
  have "word32 data at = le_value (le_bytes 4 (uint ?len))"
    using assms(4,5) slice_slice [of 0 4 "length bs" at data] by (simp add: word32_def bs mem_slice_def)
  then have "word32 data at = uint ?len"
    using uint_lt2p [of ?len] by (simp add: le_value_le_bytes)
  moreover have "at + 4 \<le> length data" using assms(4) by (simp add: bs)
  moreover have "uint ?len = uint BUSTUB_VALUE_NULL \<longleftrightarrow> ?len = BUSTUB_VALUE_NULL" by (simp add: word_uint_eq_iff)
  ultimately show ?thesis
    using len by (cases "?len = BUSTUB_VALUE_NULL") (simp_all add: read_span_def read32_ok)
qed

lemma GetValue_stored:
  assumes "i < length cols" and "columns s = place 0 cols" and "matches D (cols ! i) v" and "wf_column (cols ! i)"
    and "stored D data (place 0 cols ! i) v (nat (column_offset (place 0 cols ! i)))" and "length data < 2147483648"
  shows "Tuple_GetValue D s i \<lparr>t_rid = r, t_data = Some data\<rparr> = Inr v"
proof -
  let ?col = "place 0 cols ! i"
  have col: "column_type ?col = GetTypeId v" "Column_IsInlined ?col = Column_IsInlined (cols ! i)" "0 \<le> column_offset ?col"
    using place_nth [OF assms(1), of 0] assms(3) by (simp_all add: matches_def)
  obtain bs at where st: "SerializeTo D v = Inr bs" "at + length bs \<le> length data" "mem_slice data at (length bs) = bs"
    "if Column_IsInlined ?col then at = nat (column_offset ?col)
     else word32 data (nat (column_offset ?col)) = int at \<and> nat (column_offset ?col) + 4 \<le> length data"
    using assms(5) unfolding stored_def by metis
  have rt: "DeserializeFrom D bs (GetTypeId v) = Inr v" "length bs = serialized_size D v"
    using serialized_value [of D v] assms(3) st(1) by (auto simp: matches_def dest: spec [of _ "[]"])
  have ptr: "GetDataPtr s i \<lparr>t_rid = r, t_data = Some data\<rparr> = Inr (int at)"
    using st(2,4) col assms(1,2,6) by (auto simp: GetDataPtr_def GetColumn_def read32_ok tuple_bytes_def fits_def split: if_splits)
  have "read_span (GetTypeId v) data (int at) = Inr (length bs)"
  proof (cases "Column_IsInlined (cols ! i)")
    case True
    with inlined_size(2) [OF assms(3,4) True] assms(3) rt(2) show ?thesis
      by (cases v) (auto simp: read_span_def matches_def Column_IsInlined_def storable_def)
  next
    case False
    then have "GetTypeId v = VARCHAR" using assms(3) by (simp add: matches_def Column_IsInlined_def)
    with varlen_span [OF _ _ st(1-3)] assms(3) show ?thesis by (simp add: matches_def)
  qed
  with ptr rt st(2,3) col(1) assms(1,2) show ?thesis
    by (simp add: Tuple_GetValue_def GetColumn_def tuple_bytes_def mem_read_ok)
qed

lemma tuple_reads_back:
  assumes "list_all wf_column cols" and "list_all2 (matches D) cols vs"
    and "fixed_part cols + varlen_part D cols vs < 2147483648"
  shows "\<exists>t. new_tuple D vs (new_schema cols) = Inr t \<and>
    tuple_size t = int (fixed_part cols + varlen_part D cols vs) \<and>
    (\<forall>i < length cols. Tuple_GetValue D (new_schema cols) i t = Inr (vs ! i))"
proof -
  let ?n = "fixed_part cols + varlen_part D cols vs"
  have s: "new_schema cols = \<lparr>schema_length = int (fixed_part cols), columns = place 0 cols,
     tuple_is_inlined = list_all Column_IsInlined cols, uninlined_columns = uninlined_from 0 cols\<rparr>"
    using assms by (intro new_schema_eq) simp_all
  obtain data where data: "write_columns D (place 0 cols) vs (int (fixed_part cols)) (replicate ?n 0) = Inr data"
    "length data = ?n"
    "\<And>i. i < length cols \<Longrightarrow> stored D data (place 0 cols ! i) (vs ! i) (nat (column_offset (place 0 cols ! i)))"
    using write_columns_spec [OF assms(2,1), of 0 "fixed_part cols" "fixed_part cols" "replicate ?n 0"] assms(3) by auto
  have len: "length vs = length cols" using assms(2) by (simp add: list_all2_lengthD)
  have "new_tuple D vs (new_schema cols) = Inr \<lparr>t_rid = RID_default, t_data = Some data\<rparr>"
    using add_varlens_eq [OF assms(2), of "fixed_part cols" "[]"] assms(3) data(1) len
    by (simp add: new_tuple_def s nat_add_distrib)
  moreover have "Tuple_GetValue D (new_schema cols) i \<lparr>t_rid = RID_default, t_data = Some data\<rparr> = Inr (vs ! i)"
    if "i < length cols" for i
    using that assms data by (intro GetValue_stored [of i cols]) (simp_all add: s list_all2_nthD list_all_length)
  ultimately show ?thesis using data(2) by (auto simp: tuple_size_def tuple_bytes_def)
qed

text \<open>C26. A tuple built from values that match the columns of its schema (the type of the column, a
  string that fits, a double that its bits determine) takes exactly the fixed part of the
  schema and the serialized strings, and reading any of its columns gives the value it was
  built from, nulls included.\<close>

theorem tuple_roundtrip:
  assumes "list_all wf_column cols" and "list_all2 (matches D) cols vs"
    and "fixed_part cols + varlen_part D cols vs < 2147483648"
  shows "\<exists>t. new_tuple D vs (new_schema cols) = Inr t \<and>
    tuple_size t = int (fixed_part cols + varlen_part D cols vs) \<and>
    (\<forall>i < length cols. Tuple_GetValue D (new_schema cols) i t = Inr (vs ! i))"
  using assms by (rule tuple_reads_back)

text \<open>A schema of an integer and two strings, and values for it.\<close>

definition example_columns :: "column list" where
  "example_columns = map (\<lambda>(n, t, k). \<lparr>column_name = n, column_type = t, fixed_length = k, variable_length = 0, column_offset = 0\<rparr>)
     [(''name'', VARCHAR, 12), (''age'', INTEGER, 4), (''note'', VARCHAR, 12)]"

definition example_values :: "int Value list" where
  "example_values = [Varchar_v (Some ''ab''), Integer_v 7, Varchar_v None]"

lemma example_fits:
  "list_all wf_column example_columns" "list_all2 (matches int_double) example_columns example_values"
  "fixed_part example_columns = 28" "varlen_part int_double example_columns example_values = 10"
  by (simp_all add: example_columns_def example_values_def wf_column_def TypeSize_def matches_def storable_def
      Column_IsInlined_def serialized_size_def)

theorem tuple_roundtrip_witness:
  "\<exists>t. new_tuple int_double example_values (new_schema example_columns) = Inr t \<and> tuple_size t = 38 \<and>
     Tuple_GetValue int_double (new_schema example_columns) 0 t = Inr (Varchar_v (Some ''ab'')) \<and>
     Tuple_GetValue int_double (new_schema example_columns) 1 t = Inr (Integer_v 7)"
proof -
  obtain t where t: "new_tuple int_double example_values (new_schema example_columns) = Inr t" "tuple_size t = 38"
    "\<forall>i < length example_columns. Tuple_GetValue int_double (new_schema example_columns) i t = Inr (example_values ! i)"
    using tuple_roundtrip [OF example_fits(1,2)] example_fits(3,4) by auto
  moreover have "Tuple_GetValue int_double (new_schema example_columns) 0 t = Inr (example_values ! 0)"
    "Tuple_GetValue int_double (new_schema example_columns) 1 t = Inr (example_values ! 1)"
    using t(3) by (simp_all add: example_columns_def)
  ultimately show ?thesis by (auto simp: example_values_def)
qed

lemma key_values_eq:
  assumes "\<forall>i < n. Tuple_GetValue D s i t = Inr (vs ! i)" and "list_all (\<lambda>i. i < n) attrs"
  shows "key_values D s attrs t = Inr (map ((!) vs) attrs)"
  using assms(2) by (induction attrs) (simp_all add: assms(1))

text \<open>C27. The key tuple of a tuple, over a key schema whose columns have the types of the key
  columns, holds the values of the key columns in the order of the key.\<close>

theorem KeyFromTuple_projects:
  assumes "list_all wf_column cols" and "list_all2 (matches D) cols vs"
    and "fixed_part cols + varlen_part D cols vs < 2147483648"
    and "list_all (\<lambda>i. i < length cols) attrs"
    and "list_all wf_column key_cols" and "list_all2 (matches D) key_cols (map ((!) vs) attrs)"
    and "fixed_part key_cols + varlen_part D key_cols (map ((!) vs) attrs) < 2147483648"
  shows "\<exists>t k. new_tuple D vs (new_schema cols) = Inr t \<and>
    KeyFromTuple D (new_schema cols) (new_schema key_cols) attrs t = Inr k \<and>
    (\<forall>j < length attrs. Tuple_GetValue D (new_schema key_cols) j k = Inr (vs ! (attrs ! j)))"
proof -
  obtain t where t: "new_tuple D vs (new_schema cols) = Inr t"
    "\<forall>i < length cols. Tuple_GetValue D (new_schema cols) i t = Inr (vs ! i)"
    using tuple_reads_back [OF assms(1-3)] by blast
  obtain k where k: "new_tuple D (map ((!) vs) attrs) (new_schema key_cols) = Inr k"
    "\<forall>j < length key_cols. Tuple_GetValue D (new_schema key_cols) j k = Inr (map ((!) vs) attrs ! j)"
    using tuple_reads_back [OF assms(5-7)] by blast
  have "length key_cols = length attrs" using assms(6) by (auto dest: list_all2_lengthD)
  with t k key_values_eq [OF t(2) assms(4)] show ?thesis by (auto simp: KeyFromTuple_def)
qed

theorem KeyFromTuple_projects_witness:
  "\<exists>t k. new_tuple int_double example_values (new_schema example_columns) = Inr t \<and>
     KeyFromTuple int_double (new_schema example_columns) (new_schema [example_columns ! 1]) [1] t = Inr k \<and>
     Tuple_GetValue int_double (new_schema [example_columns ! 1]) 0 k = Inr (Integer_v 7)"
proof -
  have "list_all wf_column [example_columns ! 1]"
    "list_all2 (matches int_double) [example_columns ! 1] (map ((!) example_values) [1])"
    "fixed_part [example_columns ! 1] + varlen_part int_double [example_columns ! 1] (map ((!) example_values) [1]) < 2147483648"
    "list_all (\<lambda>i. i < length example_columns) [1]"
    by (simp_all add: example_columns_def example_values_def wf_column_def TypeSize_def matches_def storable_def
      Column_IsInlined_def)
  from KeyFromTuple_projects [OF example_fits(1,2) _ this(4,1,2,3)] example_fits(3,4)
  show ?thesis by (auto simp: example_values_def)
qed

section \<open>Other round trips\<close>

lemma RID_int64_Get: "RID_int64 (RID_Get r) = r"
proof -
  have "scast (signed_drop_bit 32 (or (push_bit 32 (scast p)) (ucast s :: 64 word))) = (p :: 32 word)" for p s :: "32 word"
    by (rule bit_word_eqI) (auto simp: bit_simps dest: bit_imp_le_length)
  moreover have "ucast (or (push_bit 32 (scast p)) (ucast s :: 64 word)) = (s :: 32 word)" for p s :: "32 word"
    by (rule bit_word_eqI) (auto simp: bit_simps)
  ultimately show ?thesis by (simp add: RID_int64_def RID_Get_def)
qed

lemma Tuple_DeserializeFrom_SerializeTo:
  assumes "0 \<le> storage" and "nat storage + 4 + length (tuple_bytes t) \<le> length buf" and "tuple_size t < 4294967296"
  shows "\<exists>buf'. Tuple_SerializeTo t buf storage = Inr buf' \<and>
    Tuple_DeserializeFrom buf' storage t' = Inr (t'\<lparr>t_data := Some (tuple_bytes t)\<rparr>)"
proof -
  let ?a = "nat storage" and ?size = "le_bytes 4 (tuple_size t)"
  define b where "b = mem_splice buf ?a ?size"
  define b' where "b' = mem_splice b (?a + 4) (tuple_bytes t)"
  have nat4: "nat (storage + 4) = ?a + 4" using assms(1) by simp
  have b: "memcpy buf storage ?size = Inr b" "length b = length buf" "memcpy b (storage + 4) (tuple_bytes t) = Inr b'"
    "length b' = length buf"
    using assms(1,2) nat4 by (simp_all add: b_def b'_def memcpy_ok)
  have "word32 b' ?a = tuple_size t"
    using assms by (simp add: b_def b'_def word32_splice_other word32_splice_same tuple_size_def)
  moreover have "mem_slice b' (?a + 4) (length (tuple_bytes t)) = tuple_bytes t"
    using assms(2) b(2) unfolding b'_def by (intro slice_splice_same) simp
  ultimately show ?thesis
    using b assms(1,2) nat4 by (simp add: Tuple_SerializeTo_def Tuple_DeserializeFrom_def read32_ok mem_read_ok tuple_size_def)
qed

end
