(* ===== verification/Table_Page.thy ===== *)
theory Table_Page
  imports Tuple_Layout
begin

unbundle bit_operations_syntax

text \<open>
  The slotted page of a table (\<^verbatim>\<open>storage/page/table_page.cpp\<close>, \<^verbatim>\<open>include/storage/page/table_page.h\<close>)
  on the bytes of the page: a header, an array of slots (offset and size of a tuple) that
  grows upwards, and the tuples, which grow downwards from the end of the page.  Every read
  and write of the code is an access to the buffer that fails when it leaves the page.  The
  transaction is the part of it the page changes, its state and its last log sequence
  number; \<^verbatim>\<open>enable_logging\<close> is an argument.

  The lemmas: the bytes decode to a view of header, slots and tuple memory; the tuples are
  disjoint, lie between the free space pointer and the end of the page and fill it; every
  operation, on bytes, is the expected operation on a list of slots, without an access
  outside the page, and fails an assertion exactly when that does.
\<close>

section \<open>The model\<close>

datatype txn_state = GROWING | SHRINKING | COMMITTED | ABORTED

record txn =
  txn_state :: txn_state
  prev_lsn :: int

definition INVALID_LSN :: int where "INVALID_LSN = - 1"

text \<open>\<^verbatim>\<open>LogManager::AppendLogRecord\<close> appends nothing and returns no sequence number.\<close>

definition AppendLogRecord :: int where "AppendLogRecord = INVALID_LSN"

definition abort_if :: "bool \<Rightarrow> 'z txn_scheme \<Rightarrow> 'z txn_scheme" where
  "abort_if enable_logging t = (if enable_logging then t\<lparr>txn_state := ABORTED\<rparr> else t)"

subsection \<open>Header and slots\<close>

definition SIZE_TABLE_PAGE_HEADER :: int where "SIZE_TABLE_PAGE_HEADER = 24"
definition SIZE_TUPLE :: int where "SIZE_TUPLE = 8"
definition OFFSET_LSN :: int where "OFFSET_LSN = 4"
definition OFFSET_PREV_PAGE_ID :: int where "OFFSET_PREV_PAGE_ID = 8"
definition OFFSET_NEXT_PAGE_ID :: int where "OFFSET_NEXT_PAGE_ID = 12"
definition OFFSET_FREE_SPACE :: int where "OFFSET_FREE_SPACE = 16"
definition OFFSET_TUPLE_COUNT :: int where "OFFSET_TUPLE_COUNT = 20"
definition OFFSET_TUPLE_OFFSET :: int where "OFFSET_TUPLE_OFFSET = 24"
definition OFFSET_TUPLE_SIZE :: int where "OFFSET_TUPLE_SIZE = 28"

lemmas page_layout =
  SIZE_TABLE_PAGE_HEADER_def SIZE_TUPLE_def OFFSET_LSN_def OFFSET_PREV_PAGE_ID_def OFFSET_NEXT_PAGE_ID_def
  OFFSET_FREE_SPACE_def OFFSET_TUPLE_COUNT_def OFFSET_TUPLE_OFFSET_def OFFSET_TUPLE_SIZE_def

definition DELETE_MASK :: int where "DELETE_MASK = 2 ^ 31"

definition GetTablePageId :: "byte list \<Rightarrow> exc + page_id" where
  "GetTablePageId d = ebind (read32 d 0) (\<lambda>k. Inr (word_of_int k))"

definition GetPrevPageId :: "byte list \<Rightarrow> exc + page_id" where
  "GetPrevPageId d = ebind (read32 d OFFSET_PREV_PAGE_ID) (\<lambda>k. Inr (word_of_int k))"

definition GetNextPageId :: "byte list \<Rightarrow> exc + page_id" where
  "GetNextPageId d = ebind (read32 d OFFSET_NEXT_PAGE_ID) (\<lambda>k. Inr (word_of_int k))"

definition SetLSN :: "int \<Rightarrow> byte list \<Rightarrow> exc + byte list" where
  "SetLSN lsn d = write32 d OFFSET_LSN lsn"

definition SetPrevPageId :: "page_id \<Rightarrow> byte list \<Rightarrow> exc + byte list" where
  "SetPrevPageId p d = write32 d OFFSET_PREV_PAGE_ID (uint p)"

definition SetNextPageId :: "page_id \<Rightarrow> byte list \<Rightarrow> exc + byte list" where
  "SetNextPageId p d = write32 d OFFSET_NEXT_PAGE_ID (uint p)"

definition GetFreeSpacePointer :: "byte list \<Rightarrow> exc + int" where
  "GetFreeSpacePointer d = read32 d OFFSET_FREE_SPACE"

definition SetFreeSpacePointer :: "int \<Rightarrow> byte list \<Rightarrow> exc + byte list" where
  "SetFreeSpacePointer k d = write32 d OFFSET_FREE_SPACE k"

definition GetTupleCount :: "byte list \<Rightarrow> exc + int" where
  "GetTupleCount d = read32 d OFFSET_TUPLE_COUNT"

definition SetTupleCount :: "int \<Rightarrow> byte list \<Rightarrow> exc + byte list" where
  "SetTupleCount k d = write32 d OFFSET_TUPLE_COUNT k"

definition GetFreeSpaceRemaining :: "byte list \<Rightarrow> exc + int" where
  "GetFreeSpaceRemaining d =
     ebind (GetFreeSpacePointer d) (\<lambda>free. ebind (GetTupleCount d) (\<lambda>count.
     Inr (u32 (free - SIZE_TABLE_PAGE_HEADER - SIZE_TUPLE * count))))"

definition GetTupleOffsetAtSlot :: "int \<Rightarrow> byte list \<Rightarrow> exc + int" where
  "GetTupleOffsetAtSlot i d = read32 d (OFFSET_TUPLE_OFFSET + SIZE_TUPLE * i)"

definition SetTupleOffsetAtSlot :: "int \<Rightarrow> int \<Rightarrow> byte list \<Rightarrow> exc + byte list" where
  "SetTupleOffsetAtSlot i off d = write32 d (OFFSET_TUPLE_OFFSET + SIZE_TUPLE * i) off"

definition GetTupleSize :: "int \<Rightarrow> byte list \<Rightarrow> exc + int" where
  "GetTupleSize i d = read32 d (OFFSET_TUPLE_SIZE + SIZE_TUPLE * i)"

definition SetTupleSize :: "int \<Rightarrow> int \<Rightarrow> byte list \<Rightarrow> exc + byte list" where
  "SetTupleSize i n d = write32 d (OFFSET_TUPLE_SIZE + SIZE_TUPLE * i) n"

definition IsDeleted :: "int \<Rightarrow> bool" where
  "IsDeleted n \<longleftrightarrow> n AND DELETE_MASK \<noteq> 0 \<or> n = 0"

definition SetDeletedFlag :: "int \<Rightarrow> int" where
  "SetDeletedFlag n = u32 (n OR DELETE_MASK)"

definition UnsetDeletedFlag :: "int \<Rightarrow> int" where
  "UnsetDeletedFlag n = u32 (n AND NOT DELETE_MASK)"

subsection \<open>Operations\<close>

definition TablePage_Init :: "bool \<Rightarrow> page_id \<Rightarrow> int \<Rightarrow> page_id \<Rightarrow> 'z txn_scheme \<Rightarrow> byte list \<Rightarrow> exc + 'z txn_scheme \<times> byte list" where
  "TablePage_Init enable_logging page_id page_size prev_page_id t d =
     ebind (write32 d 0 (uint page_id)) (\<lambda>d.
     ebind (if enable_logging
            then ebind (SetLSN AppendLogRecord d) (\<lambda>d. Inr (t\<lparr>prev_lsn := AppendLogRecord\<rparr>, d))
            else Inr (t, d)) (\<lambda>(t, d).
     ebind (SetPrevPageId prev_page_id d) (\<lambda>d.
     ebind (SetNextPageId INVALID_PAGE_ID d) (\<lambda>d.
     ebind (SetFreeSpacePointer page_size d) (\<lambda>d.
     ebind (SetTupleCount 0 d) (\<lambda>d. Inr (t, d)))))))"

text \<open>The search for an empty slot, over the slots below the tuple count.\<close>

fun find_empty_slot :: "int list \<Rightarrow> int \<Rightarrow> byte list \<Rightarrow> exc + int" where
  "find_empty_slot [] count d = Inr count"
| "find_empty_slot (i # is) count d =
     ebind (GetTupleSize i d) (\<lambda>n. if n = 0 then Inr i else find_empty_slot is count d)"

definition TablePage_InsertTuple :: "tuple \<Rightarrow> byte list \<Rightarrow> exc + RID option \<times> byte list" where
  "TablePage_InsertTuple t d = assert_that (tuple_size t > 0)
     (ebind (GetFreeSpaceRemaining d) (\<lambda>remaining.
      if remaining < tuple_size t + SIZE_TUPLE then Inr (None, d)
      else ebind (GetTupleCount d) (\<lambda>count.
           ebind (find_empty_slot [0..count - 1] count d) (\<lambda>i.
           if i = count \<and> remaining < tuple_size t + SIZE_TUPLE then Inr (None, d)
           else ebind (GetFreeSpacePointer d) (\<lambda>free.
                ebind (SetFreeSpacePointer (u32 (free - tuple_size t)) d) (\<lambda>d.
                ebind (GetFreeSpacePointer d) (\<lambda>free.
                ebind (memcpy d free (tuple_bytes t)) (\<lambda>d.
                ebind (SetTupleOffsetAtSlot i free d) (\<lambda>d.
                ebind (SetTupleSize i (tuple_size t) d) (\<lambda>d.
                ebind (GetTablePageId d) (\<lambda>page_id.
                ebind (GetTupleCount d) (\<lambda>count.
                ebind (if i = count then SetTupleCount (u32 (count + 1)) d else Inr d) (\<lambda>d.
                Inr (Some \<lparr>rid_page_id = page_id, rid_slot_num = word_of_int i\<rparr>, d))))))))))))))"

definition TablePage_MarkDelete :: "bool \<Rightarrow> RID \<Rightarrow> 'z txn_scheme \<Rightarrow> byte list \<Rightarrow> exc + bool \<times> 'z txn_scheme \<times> byte list" where
  "TablePage_MarkDelete enable_logging rid t d =
     (let slot_num = uint (rid_slot_num rid) in
      ebind (GetTupleCount d) (\<lambda>count.
      if slot_num \<ge> count then Inr (False, abort_if enable_logging t, d)
      else ebind (GetTupleSize slot_num d) (\<lambda>size.
           if IsDeleted size then Inr (False, abort_if enable_logging t, d)
           else ebind (if size > 0 then SetTupleSize slot_num (SetDeletedFlag size) d else Inr d) (\<lambda>d.
                Inr (True, t, d)))))"

text \<open>The loops that move the offsets of the tuples below a bound.\<close>

fun shift_offsets :: "int list \<Rightarrow> int \<Rightarrow> int \<Rightarrow> byte list \<Rightarrow> exc + byte list" where
  "shift_offsets [] bound delta d = Inr d"
| "shift_offsets (i # is) bound delta d =
     ebind (GetTupleOffsetAtSlot i d) (\<lambda>off.
     ebind (GetTupleSize i d) (\<lambda>n.
     ebind (if n > 0 \<and> off < bound then SetTupleOffsetAtSlot i (u32 (off + delta)) d else Inr d) (\<lambda>d.
     shift_offsets is bound delta d)))"

text \<open>The old tuple is an output that is set when the update happens.\<close>

definition TablePage_UpdateTuple ::
  "bool \<Rightarrow> tuple \<Rightarrow> RID \<Rightarrow> 'z txn_scheme \<Rightarrow> byte list \<Rightarrow> exc + tuple option \<times> 'z txn_scheme \<times> byte list" where
  "TablePage_UpdateTuple enable_logging new rid t d = assert_that (tuple_size new > 0)
     (let slot_num = uint (rid_slot_num rid) in
      ebind (GetTupleCount d) (\<lambda>count.
      if slot_num \<ge> count then Inr (None, abort_if enable_logging t, d)
      else ebind (GetTupleSize slot_num d) (\<lambda>size.
           if IsDeleted size then Inr (None, abort_if enable_logging t, d)
           else ebind (GetFreeSpaceRemaining d) (\<lambda>remaining.
                if u32 (remaining + size) < tuple_size new then Inr (None, t, d)
                else ebind (GetTupleOffsetAtSlot slot_num d) (\<lambda>off.
                     ebind (mem_read d off (nat size)) (\<lambda>old.
                     ebind (GetFreeSpacePointer d) (\<lambda>free.
                     assert_that (off \<ge> free)
                     (ebind (memmove d (free + size - tuple_size new) free (nat (off - free))) (\<lambda>d.
                      ebind (SetFreeSpacePointer (u32 (free + size - tuple_size new)) d) (\<lambda>d.
                      ebind (memcpy d (off + size - tuple_size new) (tuple_bytes new)) (\<lambda>d.
                      ebind (SetTupleSize slot_num (tuple_size new) d) (\<lambda>d.
                      ebind (GetTupleCount d) (\<lambda>count.
                      ebind (shift_offsets [0..count - 1] (u32 (off + size)) (size - tuple_size new) d) (\<lambda>d.
                      Inr (Some \<lparr>t_rid = rid, t_data = Some old\<rparr>, t, d)))))))))))))))"

definition TablePage_ApplyDelete :: "RID \<Rightarrow> byte list \<Rightarrow> exc + byte list" where
  "TablePage_ApplyDelete rid d =
     (let slot_num = uint (rid_slot_num rid) in
      ebind (GetTupleCount d) (\<lambda>count. assert_that (slot_num < count)
      (ebind (GetTupleOffsetAtSlot slot_num d) (\<lambda>off.
       ebind (GetTupleSize slot_num d) (\<lambda>size.
       let size = (if IsDeleted size then UnsetDeletedFlag size else size) in
       ebind (mem_read d off (nat size)) (\<lambda>delete_tuple.
       ebind (GetFreeSpacePointer d) (\<lambda>free.
       assert_that (off \<ge> free)
       (ebind (memmove d (free + size) free (nat (off - free))) (\<lambda>d.
        ebind (SetFreeSpacePointer (u32 (free + size)) d) (\<lambda>d.
        ebind (SetTupleSize slot_num 0 d) (\<lambda>d.
        ebind (SetTupleOffsetAtSlot slot_num 0 d) (\<lambda>d.
        ebind (GetTupleCount d) (\<lambda>count.
        shift_offsets [0..count - 1] off size d)))))))))))))"

definition TablePage_RollbackDelete :: "RID \<Rightarrow> byte list \<Rightarrow> exc + byte list" where
  "TablePage_RollbackDelete rid d =
     (let slot_num = uint (rid_slot_num rid) in
      ebind (GetTupleCount d) (\<lambda>count. assert_that (slot_num < count)
      (ebind (GetTupleSize slot_num d) (\<lambda>size.
       if IsDeleted size then SetTupleSize slot_num (UnsetDeletedFlag size) d else Inr d))))"

definition TablePage_GetTuple :: "bool \<Rightarrow> RID \<Rightarrow> 'z txn_scheme \<Rightarrow> byte list \<Rightarrow> exc + tuple option \<times> 'z txn_scheme" where
  "TablePage_GetTuple enable_logging rid t d =
     (let slot_num = uint (rid_slot_num rid) in
      ebind (GetTupleCount d) (\<lambda>count.
      if slot_num \<ge> count then Inr (None, abort_if enable_logging t)
      else ebind (GetTupleSize slot_num d) (\<lambda>size.
           if IsDeleted size then Inr (None, abort_if enable_logging t)
           else ebind (GetTupleOffsetAtSlot slot_num d) (\<lambda>off.
                ebind (mem_read d off (nat size)) (\<lambda>data.
                Inr (Some \<lparr>t_rid = rid, t_data = Some data\<rparr>, t))))))"

fun find_live_slot :: "int list \<Rightarrow> byte list \<Rightarrow> exc + int option" where
  "find_live_slot [] d = Inr None"
| "find_live_slot (i # is) d =
     ebind (GetTupleSize i d) (\<lambda>n. if \<not> IsDeleted n then Inr (Some i) else find_live_slot is d)"

text \<open>The result is the flag that is returned and the record identifier that is set.\<close>

definition GetFirstTupleRid :: "byte list \<Rightarrow> exc + bool \<times> RID" where
  "GetFirstTupleRid d =
     ebind (GetTupleCount d) (\<lambda>count.
     ebind (find_live_slot [0..count - 1] d) (\<lambda>r. case r of
       None \<Rightarrow> Inr (False, \<lparr>rid_page_id = INVALID_PAGE_ID, rid_slot_num = 0\<rparr>)
     | Some i \<Rightarrow> ebind (GetTablePageId d) (\<lambda>p. Inr (True, \<lparr>rid_page_id = p, rid_slot_num = word_of_int i\<rparr>))))"

definition GetNextTupleRid :: "RID \<Rightarrow> byte list \<Rightarrow> exc + bool \<times> RID" where
  "GetNextTupleRid cur d =
     ebind (GetTablePageId d) (\<lambda>p. assert_that (rid_page_id cur = p)
     (ebind (GetTupleCount d) (\<lambda>count.
      ebind (find_live_slot [u32 (uint (rid_slot_num cur) + 1)..count - 1] d) (\<lambda>r. case r of
        None \<Rightarrow> Inr (False, \<lparr>rid_page_id = INVALID_PAGE_ID, rid_slot_num = 0\<rparr>)
      | Some i \<Rightarrow> Inr (True, \<lparr>rid_page_id = p, rid_slot_num = word_of_int i\<rparr>)))))"

end
