(* ===== verification/Table_Page_View.thy ===== *)
theory Table_Page_View
  imports Table_Page
begin

text \<open>
  Views of a slotted page.  The bytes of a page are decoded to a view (header fields, slot
  entries, memory behind the slots); every access of the code is an access to the view; a
  view is well formed when the tuples are disjoint, in range and fill the page; and a
  well-formed view is a list of slots that are free or hold a tuple, live or marked as
  deleted.  The changes of a view that the operations make, and what they do to the slots.
\<close>

section \<open>Views\<close>

record view =
  v_pid :: int
  v_prev :: int
  v_next :: int
  v_free :: nat
  v_ents :: "(nat \<times> nat) list"
  v_mem :: "nat \<Rightarrow> byte"

abbreviation slots_end :: "view \<Rightarrow> nat" where
  "slots_end v \<equiv> 24 + 8 * length (v_ents v)"

definition rep :: "byte list \<Rightarrow> view \<Rightarrow> bool" where
  "rep d v \<longleftrightarrow> length d = 4096 \<and> slots_end v \<le> 4096 \<and>
     word32 d 0 = v_pid v \<and> word32 d 8 = v_prev v \<and> word32 d 12 = v_next v \<and>
     word32 d 16 = int (v_free v) \<and> word32 d 20 = int (length (v_ents v)) \<and>
     (\<forall>i < length (v_ents v). word32 d (24 + 8 * i) = int (fst (v_ents v ! i)) \<and>
        word32 d (28 + 8 * i) = int (snd (v_ents v ! i))) \<and>
     (\<forall>x. slots_end v \<le> x \<and> x < 4096 \<longrightarrow> d ! x = v_mem v x)"

lemma rep_D:
  assumes "rep d v"
  shows "length d = 4096" "slots_end v \<le> 4096" "word32 d 0 = v_pid v" "word32 d 8 = v_prev v" "word32 d 12 = v_next v"
    "word32 d 16 = int (v_free v)" "word32 d 20 = int (length (v_ents v))"
    "\<And>i. i < length (v_ents v) \<Longrightarrow> word32 d (24 + 8 * i) = int (fst (v_ents v ! i))"
    "\<And>i. i < length (v_ents v) \<Longrightarrow> word32 d (28 + 8 * i) = int (snd (v_ents v ! i))"
    "\<And>x. slots_end v \<le> x \<Longrightarrow> x < 4096 \<Longrightarrow> d ! x = v_mem v x"
  using assms by (auto simp: rep_def)

subsection \<open>Reading\<close>

lemma read_header:
  assumes "rep d v"
  shows "GetTablePageId d = Inr (word_of_int (v_pid v))" "GetFreeSpacePointer d = Inr (int (v_free v))"
    "GetTupleCount d = Inr (int (length (v_ents v)))"
  using assms by (simp_all add: rep_def page_layout GetTablePageId_def GetFreeSpacePointer_def GetTupleCount_def read32_ok)

lemma nat_slot: "nat (24 + 8 * int i) = 24 + 8 * i" "nat (28 + 8 * int i) = 28 + 8 * i"
  by simp_all

lemma read_slot:
  assumes "rep d v" and "i < length (v_ents v)"
  shows "GetTupleOffsetAtSlot (int i) d = Inr (int (fst (v_ents v ! i)))"
    "GetTupleSize (int i) d = Inr (int (snd (v_ents v ! i)))"
  using rep_D [OF assms(1)] assms(2)
  by (simp_all add: GetTupleOffsetAtSlot_def GetTupleSize_def page_layout read32_ok nat_slot)

lemma read_mem:
  assumes "rep d v" and "slots_end v \<le> a" and "a + n \<le> 4096"
  shows "mem_read d (int a) n = Inr (map (v_mem v) [a..<a + n])"
proof -
  have "mem_slice d a n = map (v_mem v) [a..<a + n]"
    using rep_D(1,10) [OF assms(1)] assms(2,3) by (intro nth_equalityI) (auto simp: nth_slice)
  then show ?thesis using rep_D(1) [OF assms(1)] assms(3) by (simp add: mem_read_ok)
qed

subsection \<open>Writing\<close>

lemma write_free:
  assumes "rep d v" and "k < 4294967296"
  shows "\<exists>d'. SetFreeSpacePointer (int k) d = Inr d' \<and> rep d' (v\<lparr>v_free := k\<rparr>)"
proof -
  have "rep (mem_splice d 16 (le_bytes 4 (int k))) (v\<lparr>v_free := k\<rparr>)"
    using assms unfolding rep_def by (auto simp: word32_splice_same word32_splice_other nth_splice)
  then show ?thesis
    using rep_D(1) [OF assms(1)] by (simp add: SetFreeSpacePointer_def page_layout write32_ok)
qed

lemma word32_other_slot:
  assumes "length d = 4096" and "24 + 8 * i < 4092" and "24 + 8 * j < 4092" and "i \<noteq> j"
  shows "word32 (mem_splice d (24 + 8 * i) (le_bytes 4 k)) (24 + 8 * j) = word32 d (24 + 8 * j)"
    "word32 (mem_splice d (24 + 8 * i) (le_bytes 4 k)) (28 + 8 * j) = word32 d (28 + 8 * j)"
    "word32 (mem_splice d (28 + 8 * i) (le_bytes 4 k)) (24 + 8 * j) = word32 d (24 + 8 * j)"
    "word32 (mem_splice d (28 + 8 * i) (le_bytes 4 k)) (28 + 8 * j) = word32 d (28 + 8 * j)"
proof -
  have "8 * j + 8 \<le> 8 * i \<or> 8 * i + 8 \<le> 8 * j" using assms(4) by presburger
  with assms(1-3) show
    "word32 (mem_splice d (24 + 8 * i) (le_bytes 4 k)) (24 + 8 * j) = word32 d (24 + 8 * j)"
    "word32 (mem_splice d (24 + 8 * i) (le_bytes 4 k)) (28 + 8 * j) = word32 d (28 + 8 * j)"
    "word32 (mem_splice d (28 + 8 * i) (le_bytes 4 k)) (24 + 8 * j) = word32 d (24 + 8 * j)"
    "word32 (mem_splice d (28 + 8 * i) (le_bytes 4 k)) (28 + 8 * j) = word32 d (28 + 8 * j)"
    by (auto intro!: word32_splice_other)
qed

lemma write_slot_offset:
  assumes "rep d v" and "i < length (v_ents v)" and "k < 4294967296"
  shows "\<exists>d'. SetTupleOffsetAtSlot (int i) (int k) d = Inr d' \<and>
    rep d' (v\<lparr>v_ents := (v_ents v)[i := (k, snd (v_ents v ! i))]\<rparr>)"
proof -
  have "rep (mem_splice d (24 + 8 * i) (le_bytes 4 (int k))) (v\<lparr>v_ents := (v_ents v)[i := (k, snd (v_ents v ! i))]\<rparr>)"
    using assms unfolding rep_def
    by (auto simp: word32_splice_same word32_splice_other word32_other_slot nth_splice nth_list_update)
  then show ?thesis
    using rep_D(1,2) [OF assms(1)] assms(2) by (simp add: SetTupleOffsetAtSlot_def page_layout write32_ok nat_slot)
qed

lemma write_slot_size:
  assumes "rep d v" and "i < length (v_ents v)" and "k < 4294967296"
  shows "\<exists>d'. SetTupleSize (int i) (int k) d = Inr d' \<and>
    rep d' (v\<lparr>v_ents := (v_ents v)[i := (fst (v_ents v ! i), k)]\<rparr>)"
proof -
  have "rep (mem_splice d (28 + 8 * i) (le_bytes 4 (int k))) (v\<lparr>v_ents := (v_ents v)[i := (fst (v_ents v ! i), k)]\<rparr>)"
    using assms unfolding rep_def
    by (auto simp: word32_splice_same word32_splice_other word32_other_slot nth_splice nth_list_update)
  then show ?thesis
    using rep_D(1,2) [OF assms(1)] assms(2) by (simp add: SetTupleSize_def page_layout write32_ok nat_slot)
qed

lemma write_mem:
  assumes "rep d v" and "slots_end v \<le> a" and "a + length bs \<le> 4096"
  shows "\<exists>d'. memcpy d (int a) bs = Inr d' \<and>
    rep d' (v\<lparr>v_mem := (\<lambda>x. if a \<le> x \<and> x < a + length bs then bs ! (x - a) else v_mem v x)\<rparr>)"
proof -
  have "rep (mem_splice d a bs) (v\<lparr>v_mem := (\<lambda>x. if a \<le> x \<and> x < a + length bs then bs ! (x - a) else v_mem v x)\<rparr>)"
    using assms unfolding rep_def by (auto simp: word32_splice_other nth_splice)
  then show ?thesis using rep_D(1) [OF assms(1)] assms(3) by (simp add: memcpy_ok)
qed

text \<open>A slot behind the last one: its entry is written, then the count.\<close>

lemma write_new_slot:
  assumes "rep d v" and "slots_end v + 8 \<le> 4096" and "off < 4294967296" and "k < 4294967296"
  defines "n \<equiv> length (v_ents v)"
  shows "\<exists>d1 d2 d3. SetTupleOffsetAtSlot (int n) (int off) d = Inr d1 \<and> SetTupleSize (int n) (int k) d1 = Inr d2 \<and>
    GetTablePageId d2 = Inr (word_of_int (v_pid v)) \<and> GetTupleCount d2 = Inr (int n) \<and>
    SetTupleCount (int (Suc n)) d2 = Inr d3 \<and> rep d3 (v\<lparr>v_ents := v_ents v @ [(off, k)]\<rparr>)"
proof -
  let ?d1 = "mem_splice d (24 + 8 * n) (le_bytes 4 (int off))"
  let ?d2 = "mem_splice ?d1 (28 + 8 * n) (le_bytes 4 (int k))"
  let ?d3 = "mem_splice ?d2 20 (le_bytes 4 (int (Suc n)))"
  note r = rep_D [OF assms(1), folded n_def]
  have fit: "24 + 8 * n + 8 \<le> 4096" using assms(2) by (simp add: n_def)
  have len: "length ?d1 = 4096" "length ?d2 = 4096" "length ?d3 = 4096" using r(1) fit by simp_all
  have hdr: "word32 ?d2 a = word32 d a" if "a \<le> 20" for a
    using that r(1) len fit by (simp add: word32_splice_other)
  have old: "word32 ?d3 (24 + 8 * i) = word32 d (24 + 8 * i)" "word32 ?d3 (28 + 8 * i) = word32 d (28 + 8 * i)"
    if "i < n" for i
    using that r(1) len fit by (simp_all add: word32_splice_other)
  have new: "word32 ?d3 (24 + 8 * n) = int off" "word32 ?d3 (28 + 8 * n) = int k" "word32 ?d3 20 = int (Suc n)"
    using r(1) len fit assms(3,4) by (simp_all add: word32_splice_other word32_splice_same)
  have mem: "?d3 ! x = d ! x" if "32 + 8 * n \<le> x" "x < 4096" for x
    using that r(1) len fit by (simp add: nth_splice)
  have "rep ?d3 (v\<lparr>v_ents := v_ents v @ [(off, k)]\<rparr>)"
    unfolding rep_def using r hdr old new mem len fit
    by (auto simp: word32_splice_other nth_append less_Suc_eq simp flip: n_def)
  moreover have "GetTablePageId ?d2 = Inr (word_of_int (v_pid v))" "GetTupleCount ?d2 = Inr (int n)"
    using hdr [of 0] hdr [of 20] r len by (simp_all add: GetTablePageId_def GetTupleCount_def page_layout read32_ok)
  ultimately show ?thesis
    using r(1) len fit
    by (simp add: SetTupleOffsetAtSlot_def SetTupleSize_def SetTupleCount_def page_layout write32_ok nat_slot)
qed

section \<open>Well-formed views and the slots they hold\<close>

datatype slot = Free | Slot bool "byte list"

text \<open>The size of a slot without the flag for deletion.\<close>

definition tlen :: "nat \<Rightarrow> nat" where
  "tlen k = k mod 2147483648"

definition slot_of :: "(nat \<Rightarrow> byte) \<Rightarrow> nat \<times> nat \<Rightarrow> slot" where
  "slot_of mem e = (case e of (off, k) \<Rightarrow>
     if k = 0 then Free else Slot (2147483648 \<le> k) (map mem [off..<off + tlen k]))"

definition slots :: "view \<Rightarrow> slot list" where
  "slots v = map (slot_of (v_mem v)) (v_ents v)"

definition entry_ok :: "nat \<Rightarrow> nat \<times> nat \<Rightarrow> bool" where
  "entry_ok free e \<longleftrightarrow> (case e of (off, k) \<Rightarrow> k < 4294967296 \<and>
     (if k = 0 then off = 0 else 0 < tlen k \<and> free \<le> off \<and> off + tlen k \<le> 4096))"

definition apart :: "nat \<times> nat \<Rightarrow> nat \<times> nat \<Rightarrow> bool" where
  "apart e f \<longleftrightarrow> snd e = 0 \<or> snd f = 0 \<or> fst e + tlen (snd e) \<le> fst f \<or> fst f + tlen (snd f) \<le> fst e"

definition view_ok :: "view \<Rightarrow> bool" where
  "view_ok v \<longleftrightarrow> slots_end v \<le> v_free v \<and> (\<forall>e \<in> set (v_ents v). entry_ok (v_free v) e) \<and>
     (\<forall>i < length (v_ents v). \<forall>j < length (v_ents v). i \<noteq> j \<longrightarrow> apart (v_ents v ! i) (v_ents v ! j)) \<and>
     v_free v + (\<Sum>e\<leftarrow>v_ents v. tlen (snd e)) = 4096"

lemma tlen_simps [simp]:
  "tlen 0 = 0" "k < 2147483648 \<Longrightarrow> tlen k = k" "k < 2147483648 \<Longrightarrow> tlen (k + 2147483648) = k"
  by (simp_all add: tlen_def)

lemma apart_sym: "apart e f \<longleftrightarrow> apart f e"
  by (auto simp: apart_def)

lemma length_slots [simp]: "length (slots v) = length (v_ents v)"
  by (simp add: slots_def)

lemma view_ok_free: "view_ok v \<Longrightarrow> v_free v \<le> 4096"
  by (simp add: view_ok_def)

text \<open>A slot reads the same when its bytes have not changed.\<close>

lemma slot_of_cong:
  assumes "\<And>x. snd e \<noteq> 0 \<Longrightarrow> fst e \<le> x \<Longrightarrow> x < fst e + tlen (snd e) \<Longrightarrow> mem' x = mem x"
  shows "slot_of mem' e = slot_of mem e"
  using assms by (cases e) (auto simp: slot_of_def)

text \<open>The space that the code computes is what the slots leave.\<close>

definition slot_len :: "slot \<Rightarrow> nat" where
  "slot_len s = (case s of Free \<Rightarrow> 0 | Slot _ bs \<Rightarrow> length bs)"

definition room :: "slot list \<Rightarrow> int" where
  "room ss = 4096 - 24 - 8 * int (length ss) - int (\<Sum>s\<leftarrow>ss. slot_len s)"

lemma slot_len_slot_of: "slot_len (slot_of mem e) = tlen (snd e)"
  by (cases e) (simp add: slot_of_def slot_len_def)

lemma room_slots:
  assumes "view_ok v"
  shows "room (slots v) = int (v_free v) - int (slots_end v)" "0 \<le> room (slots v)"
  using assms by (auto simp: room_def slots_def view_ok_def slot_len_slot_of comp_def)

lemma GetFreeSpaceRemaining_room:
  assumes "rep d v" and "view_ok v"
  shows "GetFreeSpaceRemaining d = Inr (room (slots v))"
  using read_header [OF assms(1)] assms(2) room_slots [OF assms(2)] view_ok_free [OF assms(2)]
  by (simp add: GetFreeSpaceRemaining_def page_layout)

section \<open>Changes of a view\<close>

subsection \<open>A tuple below the free space pointer\<close>

definition put_tuple :: "byte list \<Rightarrow> view \<Rightarrow> view" where
  "put_tuple bs v = v\<lparr>v_free := v_free v - length bs,
     v_mem := (\<lambda>x. if v_free v - length bs \<le> x \<and> x < v_free v - length bs + length bs
                   then bs ! (x - (v_free v - length bs)) else v_mem v x)\<rparr>"

lemma put_tuple_simps [simp]:
  "v_free (put_tuple bs v) = v_free v - length bs" "v_ents (put_tuple bs v) = v_ents v" "v_pid (put_tuple bs v) = v_pid v"
  by (simp_all add: put_tuple_def)

lemma put_tuple_old:
  assumes "view_ok v" and "e \<in> set (v_ents v)" and "length bs \<le> v_free v"
  shows "slot_of (v_mem (put_tuple bs v)) e = slot_of (v_mem v) e" "entry_ok (v_free v - length bs) e"
    "apart e (v_free v - length bs, length bs)"
proof -
  have e: "entry_ok (v_free v) e" using assms(1,2) by (simp add: view_ok_def)
  then show "slot_of (v_mem (put_tuple bs v)) e = slot_of (v_mem v) e"
    using assms(3) by (intro slot_of_cong) (auto simp: entry_ok_def put_tuple_def)
  show "entry_ok (v_free v - length bs) e" using e by (auto simp: entry_ok_def)
  show "apart e (v_free v - length bs, length bs)"
    using e assms(3) view_ok_free [OF assms(1)] by (auto simp: entry_ok_def apart_def split: prod.splits if_splits)
qed

lemma map_written:
  "b = a + length bs \<Longrightarrow> map (\<lambda>x. if a \<le> x \<and> x < b then bs ! (x - a) else m x) [a..<b] = bs"
  by (intro nth_equalityI) simp_all

lemma put_tuple_new:
  assumes "view_ok v" and "bs \<noteq> []" and "length bs \<le> v_free v"
  shows "slot_of (v_mem (put_tuple bs v)) (v_free v - length bs, length bs) = Slot False bs"
    "entry_ok (v_free v - length bs) (v_free v - length bs, length bs)"
  using assms view_ok_free [OF assms(1)]
  by (auto simp: slot_of_def entry_ok_def put_tuple_def map_written)

lemma put_tuple_reuse:
  assumes "view_ok v" and "bs \<noteq> []" and "length bs + 8 \<le> v_free v - slots_end v"
    and "i < length (v_ents v)" and "snd (v_ents v ! i) = 0"
  defines "v' \<equiv> (put_tuple bs v)\<lparr>v_ents := (v_ents v)[i := (v_free v - length bs, length bs)]\<rparr>"
  shows "view_ok v' \<and> slots v' = (slots v)[i := Slot False bs]"
proof
  let ?f = "v_free v - length bs"
  have l: "length bs \<le> v_free v" using assms(3) by simp
  note old = put_tuple_old [OF assms(1) nth_mem l] and new = put_tuple_new [OF assms(1,2) l]
  have "\<forall>e \<in> set (v_ents v'). entry_ok ?f e"
    using put_tuple_old(2) [OF assms(1) _ l] new(2) by (auto simp: v'_def dest: subsetD [OF set_update_subset_insert])
  moreover have "apart (v_ents v' ! j) (v_ents v' ! k)" if "j < length (v_ents v)" "k < length (v_ents v)" "j \<noteq> k" for j k
    using that assms(1,4) old(3) apart_sym by (auto simp: v'_def nth_list_update view_ok_def)
  moreover have "(\<Sum>e\<leftarrow>v_ents v'. tlen (snd e)) = (\<Sum>e\<leftarrow>v_ents v. tlen (snd e)) + length bs"
    using assms(4,5) view_ok_free [OF assms(1)] l by (simp add: v'_def map_update sum_list_update)
  ultimately show "view_ok v'" using assms(1,3) by (simp add: view_ok_def v'_def)
  show "slots v' = (slots v)[i := Slot False bs]"
    using old(1) new(1) assms(4) by (intro nth_equalityI) (auto simp: slots_def v'_def nth_list_update)
qed

lemma put_tuple_append:
  assumes "view_ok v" and "bs \<noteq> []" and "length bs + 8 \<le> v_free v - slots_end v"
  defines "v' \<equiv> (put_tuple bs v)\<lparr>v_ents := v_ents v @ [(v_free v - length bs, length bs)]\<rparr>"
  shows "view_ok v' \<and> slots v' = slots v @ [Slot False bs]"
proof
  have l: "length bs \<le> v_free v" using assms(3) by simp
  note old = put_tuple_old [OF assms(1) _ l] and new = put_tuple_new [OF assms(1,2) l]
  have "apart (v_ents v' ! j) (v_ents v' ! k)" if "j < Suc (length (v_ents v))" "k < Suc (length (v_ents v))" "j \<noteq> k" for j k
    using that assms(1) old(3) [OF nth_mem] apart_sym
    by (cases "j < length (v_ents v)"; cases "k < length (v_ents v)") (auto simp: v'_def nth_append view_ok_def)
  then show "view_ok v'"
    using assms(1,3) old(2) new(2) view_ok_free [OF assms(1)] l by (auto simp: view_ok_def v'_def)
  show "slots v' = slots v @ [Slot False bs]"
    using old(1) new(1) by (simp add: slots_def v'_def)
qed

subsection \<open>A tuple that changes its size\<close>

text \<open>The tuple of slot \<open>k\<close> is replaced by \<open>bs\<close> (or removed), and the tuples below it move to its
  new start.\<close>

definition resized :: "nat \<Rightarrow> byte list \<Rightarrow> view \<Rightarrow> view \<Rightarrow> bool" where
  "resized k bs v v' \<longleftrightarrow> (case v_ents v ! k of (off, s) \<Rightarrow>
     v_free v' = v_free v + tlen s - length bs \<and> length (v_ents v') = length (v_ents v) \<and>
     v_ents v' ! k = (if bs = [] then (0, 0) else (off + tlen s - length bs, length bs)) \<and>
     (\<forall>i < length (v_ents v). i \<noteq> k \<longrightarrow> v_ents v' ! i = (case v_ents v ! i of (p, t) \<Rightarrow>
        if t \<noteq> 0 \<and> p < off then (p + tlen s - length bs, t) else (p, t))) \<and>
     (\<forall>x. v_free v' \<le> x \<and> x < off + tlen s - length bs \<longrightarrow> v_mem v' x = v_mem v (x + length bs - tlen s)) \<and>
     (\<forall>x. off + tlen s - length bs \<le> x \<and> x < off + tlen s \<longrightarrow> v_mem v' x = bs ! (x - (off + tlen s - length bs))) \<and>
     (\<forall>x \<ge> off + tlen s. v_mem v' x = v_mem v x))"

lemma resized_other:
  assumes "view_ok v" and "resized k bs v v'" and "k < length (v_ents v)" and "snd (v_ents v ! k) \<noteq> 0"
    and "length bs \<le> v_free v + tlen (snd (v_ents v ! k))" and "i < length (v_ents v)" and "i \<noteq> k"
  shows "slot_of (v_mem v') (v_ents v' ! i) = slot_of (v_mem v) (v_ents v ! i)" "entry_ok (v_free v') (v_ents v' ! i)"
    "apart (v_ents v' ! i) (v_ents v' ! k)"
proof -
  obtain off s where ek: "v_ents v ! k = (off, s)" by (rule prod.exhaust)
  obtain p t where ei: "v_ents v ! i = (p, t)" by (rule prod.exhaust)
  have ok: "entry_ok (v_free v) (off, s)" "entry_ok (v_free v) (p, t)" "apart (p, t) (off, s)"
    using assms(1,3,6,7) nth_mem [OF assms(3)] nth_mem [OF assms(6)] unfolding view_ok_def ek [symmetric] ei [symmetric]
    by blast+
  have r: "v_free v' = v_free v + tlen s - length bs" 
    "v_ents v' ! k = (if bs = [] then (0, 0) else (off + tlen s - length bs, length bs))"
    "v_ents v' ! i = (if t \<noteq> 0 \<and> p < off then (p + tlen s - length bs, t) else (p, t))"
    "\<And>x. v_free v' \<le> x \<Longrightarrow> x < off + tlen s - length bs \<Longrightarrow> v_mem v' x = v_mem v (x + length bs - tlen s)"
    "\<And>x. off + tlen s \<le> x \<Longrightarrow> v_mem v' x = v_mem v x"
    using assms(2,6,7) ek ei by (auto simp: resized_def)
  have l: "length bs \<le> v_free v + tlen s" "s \<noteq> 0" using assms(4,5) ek by simp_all
  have m: "tlen (length bs) = length bs"
    using l ok(1) view_ok_free [OF assms(1)] by (intro tlen_simps) (simp add: entry_ok_def)
  consider (empty) "t = 0" | (below) "t \<noteq> 0" "p + tlen t \<le> off" "p < off" | (above) "t \<noteq> 0" "off + tlen s \<le> p" "\<not> p < off"
    using ok l(2) by (fastforce simp: apart_def entry_ok_def)
  then have "entry_ok (v_free v') (v_ents v' ! i) \<and> apart (v_ents v' ! i) (v_ents v' ! k) \<and>
    slot_of (v_mem v') (v_ents v' ! i) = slot_of (v_mem v) (v_ents v ! i)"
  proof cases
    case empty
    with r(3) ok(2) ei show ?thesis by (simp add: entry_ok_def apart_def slot_of_def)
  next
    case below
    have p: "v_free v \<le> p" "0 < tlen t" "off + tlen s \<le> 4096" using ok below l by (simp_all add: entry_ok_def)
    then have "entry_ok (v_free v') (v_ents v' ! i)" "apart (v_ents v' ! i) (v_ents v' ! k)"
      using below r(1,2,3) l(1) m ok(2) by (auto simp: entry_ok_def apart_def)
    moreover have "map (v_mem v') [p + tlen s - length bs..<p + tlen s - length bs + tlen t] = map (v_mem v) [p..<p + tlen t]"
      using p below l(1) r(1) by (intro nth_equalityI) (auto simp: r(4))
    ultimately show ?thesis using below r(3) ei by (simp add: slot_of_def)
  next
    case above
    then have "slot_of (v_mem v') (p, t) = slot_of (v_mem v) (p, t)" using r(5) by (intro slot_of_cong) auto
    moreover have "v_free v \<le> off" using ok(1) l(2) by (simp add: entry_ok_def)
    ultimately show ?thesis using above r(1,2,3) ok(2) ei l(1) m by (auto simp: entry_ok_def apart_def)
  qed
  then show "slot_of (v_mem v') (v_ents v' ! i) = slot_of (v_mem v) (v_ents v ! i)" "entry_ok (v_free v') (v_ents v' ! i)"
    "apart (v_ents v' ! i) (v_ents v' ! k)" by blast+
qed

lemma resized_apart:
  assumes "view_ok v" and "resized k bs v v'" and "k < length (v_ents v)" and "snd (v_ents v ! k) \<noteq> 0"
    and "length bs \<le> v_free v + tlen (snd (v_ents v ! k))"
    and "i < length (v_ents v)" and "j < length (v_ents v)" and "i \<noteq> k" and "j \<noteq> k" and "i \<noteq> j"
  shows "apart (v_ents v' ! i) (v_ents v' ! j)"
proof -
  obtain off s where ek: "v_ents v ! k = (off, s)" by (rule prod.exhaust)
  obtain p t where ei: "v_ents v ! i = (p, t)" by (rule prod.exhaust)
  obtain q u where ej: "v_ents v ! j = (q, u)" by (rule prod.exhaust)
  have ok: "apart (p, t) (q, u)" "apart (p, t) (off, s)" "apart (q, u) (off, s)"
    "entry_ok (v_free v) (p, t)" "entry_ok (v_free v) (q, u)" "entry_ok (v_free v) (off, s)"
    using assms(1,3,6-10) nth_mem [of _ "v_ents v"] unfolding view_ok_def ek [symmetric] ei [symmetric] ej [symmetric]
    by blast+
  have e': "v_ents v' ! i = (if t \<noteq> 0 \<and> p < off then (p + tlen s - length bs, t) else (p, t))"
    "v_ents v' ! j = (if u \<noteq> 0 \<and> q < off then (q + tlen s - length bs, u) else (q, u))"
    using assms(2,6-9) ek ei ej by (auto simp: resized_def)
  show ?thesis
  proof (cases "t = 0 \<or> u = 0")
    case True
    with e' show ?thesis by (auto simp: apart_def)
  next
    case False
    with ok assms(4,5) ek e' show ?thesis
      by (cases "p < off"; cases "q < off") (auto simp: apart_def entry_ok_def)
  qed
qed

lemma resized_ok:
  assumes "view_ok v" and "resized k bs v v'" and "k < length (v_ents v)" and "snd (v_ents v ! k) \<noteq> 0"
    and "length bs \<le> v_free v - slots_end v + tlen (snd (v_ents v ! k))"
  shows "view_ok v' \<and> slots v' = (slots v)[k := if bs = [] then Free else Slot False bs]"
proof
  let ?n = "length (v_ents v)"
  obtain off s where ek: "v_ents v ! k = (off, s)" by (rule prod.exhaust)
  have n: "length (v_ents v') = ?n" using assms(2) ek by (simp add: resized_def)
  have ok: "entry_ok (v_free v) (off, s)" "slots_end v \<le> v_free v"
    using assms(1) nth_mem [OF assms(3)] unfolding view_ok_def ek [symmetric] by blast+
  have l: "length bs \<le> v_free v + tlen s" "s \<noteq> 0" "off + tlen s \<le> 4096" "v_free v \<le> off"
    using assms(4,5) ek ok by (simp_all add: entry_ok_def)
  have r: "v_free v' = v_free v + tlen s - length bs" 
    "v_ents v' ! k = (if bs = [] then (0, 0) else (off + tlen s - length bs, length bs))"
    "\<And>i. i < ?n \<Longrightarrow> i \<noteq> k \<Longrightarrow> snd (v_ents v' ! i) = snd (v_ents v ! i)"
    "\<And>x. off + tlen s - length bs \<le> x \<Longrightarrow> x < off + tlen s \<Longrightarrow> v_mem v' x = bs ! (x - (off + tlen s - length bs))"
    using assms(2) ek by (auto simp: resized_def split: prod.splits if_splits)
  have m: "tlen (length bs) = length bs" using l view_ok_free [OF assms(1)] by (intro tlen_simps) simp
  have other': "length bs \<le> v_free v + tlen (snd (v_ents v ! k))" using assms(5) by simp
  note other = resized_other [OF assms(1-4) other']
  have k: "entry_ok (v_free v') (v_ents v' ! k)"
    using r(1,2) l m view_ok_free [OF assms(1)] by (auto simp: entry_ok_def)
  have "map (v_mem v') [off + tlen s - length bs..<off + tlen s - length bs + length bs] = bs"
    using l by (intro nth_equalityI) (auto simp: r(4))
  then have sk: "slot_of (v_mem v') (v_ents v' ! k) = (if bs = [] then Free else Slot False bs)"
    using r(2) l m view_ok_free [OF assms(1)] by (auto simp: slot_of_def)
  have "map (\<lambda>e. tlen (snd e)) (v_ents v') = (map (\<lambda>e. tlen (snd e)) (v_ents v))[k := length bs]"
    using n r(2,3) assms(3) m by (intro nth_equalityI) (auto simp: nth_list_update)
  moreover have "tlen s \<le> (\<Sum>e\<leftarrow>v_ents v. tlen (snd e))"
    using member_le_sum_list [of "tlen s" "map (\<lambda>e. tlen (snd e)) (v_ents v)"] nth_mem [OF assms(3)] ek by force
  ultimately have "v_free v' + (\<Sum>e\<leftarrow>v_ents v'. tlen (snd e)) = 4096"
    using assms(1,3) ek r(1) l(1) by (simp add: sum_list_update view_ok_def)
  moreover have "entry_ok (v_free v') e" if "e \<in> set (v_ents v')" for e
    using that other(2) k n by (metis in_set_conv_nth)
  moreover have "apart (v_ents v' ! i) (v_ents v' ! j)" if "i < ?n" "j < ?n" "i \<noteq> j" for i j
    using that other(3) apart_sym resized_apart [OF assms(1-4) other', of i j] by (cases "i = k"; cases "j = k") metis+
  ultimately show "view_ok v'"
    using n r(1) ok(2) l(1) assms(5) ek by (auto simp: view_ok_def)
  show "slots v' = (slots v)[k := if bs = [] then Free else Slot False bs]"
    using other(1) sk assms(3) n by (intro nth_equalityI) (auto simp: slots_def nth_list_update)
qed

subsection \<open>Moving the offsets\<close>

definition moved :: "int \<Rightarrow> int \<Rightarrow> nat \<times> nat \<Rightarrow> nat \<times> nat" where
  "moved bound delta e = (case e of (p, t) \<Rightarrow> if 0 < t \<and> int p < bound then (nat (int p + delta), t) else (p, t))"

lemma shift_offsets_step:
  assumes "rep d v" and "i < length (v_ents v)"
    and "0 < snd (v_ents v ! i) \<Longrightarrow> int (fst (v_ents v ! i)) < bound \<Longrightarrow>
      0 \<le> int (fst (v_ents v ! i)) + delta \<and> int (fst (v_ents v ! i)) + delta < 4294967296"
  shows "\<exists>d'. shift_offsets (int i # is) bound delta d = shift_offsets is bound delta d' \<and>
    rep d' (v\<lparr>v_ents := (v_ents v)[i := moved bound delta (v_ents v ! i)]\<rparr>)"
proof -
  obtain p t where e: "v_ents v ! i = (p, t)" by (rule prod.exhaust)
  show ?thesis
  proof (cases "0 < t \<and> int p < bound")
    case True
    with assms(3) e have k: "0 \<le> int p + delta" "int p + delta < 4294967296" by simp_all
    then have "nat (int p + delta) < 4294967296" by simp
    from write_slot_offset [OF assms(1,2) this] k True e read_slot [OF assms(1,2)] show ?thesis by (auto simp: moved_def)
  next
    case False
    then have "moved bound delta (v_ents v ! i) = v_ents v ! i" using e by (auto simp: moved_def)
    then have "v\<lparr>v_ents := (v_ents v)[i := moved bound delta (v_ents v ! i)]\<rparr> = v" by simp
    with False assms(1) e read_slot [OF assms(1,2)] show ?thesis by auto
  qed
qed

lemma shift_offsets_from:
  assumes "rep d v" and "n = length (v_ents v)" and "i \<le> n"
    and "\<And>e. e \<in> set (drop i (v_ents v)) \<Longrightarrow> 0 < snd e \<Longrightarrow> int (fst e) < bound \<Longrightarrow>
      0 \<le> int (fst e) + delta \<and> int (fst e) + delta < 4294967296"
  shows "\<exists>d'. shift_offsets (map int [i..<n]) bound delta d = Inr d' \<and>
    rep d' (v\<lparr>v_ents := take i (v_ents v) @ map (moved bound delta) (drop i (v_ents v))\<rparr>)"
  using assms
proof (induction "n - i" arbitrary: i d v)
  case 0
  then show ?case by simp
next
  case (Suc m)
  then have i: "i < n" "i < length (v_ents v)" "m = n - Suc i" by simp_all
  have hd: "drop i (v_ents v) = v_ents v ! i # drop (Suc i) (v_ents v)" using i(2) by (simp add: Cons_nth_drop_Suc)
  let ?w = "v\<lparr>v_ents := (v_ents v)[i := moved bound delta (v_ents v ! i)]\<rparr>"
  obtain d1 where d1: "shift_offsets (int i # map int [Suc i..<n]) bound delta d = shift_offsets (map int [Suc i..<n]) bound delta d1"
    "rep d1 ?w"
    using shift_offsets_step [OF Suc.prems(1) i(2) Suc.prems(4) [of "v_ents v ! i"]] hd by (auto simp del: shift_offsets.simps)
  obtain d' where "shift_offsets (map int [Suc i..<n]) bound delta d1 = Inr d'"
    "rep d' (?w\<lparr>v_ents := take (Suc i) (v_ents ?w) @ map (moved bound delta) (drop (Suc i) (v_ents ?w))\<rparr>)"
    using Suc.hyps(1) [OF i(3) d1(2)] Suc.prems(2,4) hd i(1) by auto
  moreover have "take (Suc i) (v_ents ?w) @ map (moved bound delta) (drop (Suc i) (v_ents ?w)) =
      take i (v_ents v) @ map (moved bound delta) (drop i (v_ents v))"
    using i hd by (simp add: take_Suc_conv_app_nth)
  ultimately show ?case using d1(1) i(1) by (simp add: upt_conv_Cons)
qed

lemma upto_map: "[0..int n - 1] = map int [0..<n]"
proof (induction n)
  case (Suc n)
  have "[0..int (Suc n) - 1] = [0..int n - 1] @ [int n]" by (simp add: upto_rec2)
  with Suc show ?case by simp
qed simp

lemma shift_offsets_all:
  assumes "rep d v"
    and "\<And>e. e \<in> set (v_ents v) \<Longrightarrow> 0 < snd e \<Longrightarrow> int (fst e) < bound \<Longrightarrow>
      0 \<le> int (fst e) + delta \<and> int (fst e) + delta < 4294967296"
  shows "\<exists>d'. shift_offsets [0..int (length (v_ents v)) - 1] bound delta d = Inr d' \<and>
    rep d' (v\<lparr>v_ents := map (moved bound delta) (v_ents v)\<rparr>)"
  using shift_offsets_from [OF assms(1) refl, of 0 bound delta] assms(2) by (simp add: upto_map)

subsection \<open>The flag for deletion\<close>

lemma bit31: "k < 4294967296 \<Longrightarrow> bit (int k) 31 \<longleftrightarrow> 2147483648 \<le> k"
proof -
  assume "k < 4294967296"
  then have "k div 2147483648 = (if 2147483648 \<le> k then 1 else 0)" by (auto intro: div_eq_dividend_iff)
  then have "bit k 31 \<longleftrightarrow> 2147483648 \<le> k" by (simp add: bit_iff_odd)
  then show ?thesis by (simp add: bit_of_nat_iff)
qed

lemma bit_DELETE_MASK: "bit DELETE_MASK n \<longleftrightarrow> n = 31"
  unfolding DELETE_MASK_def bit_exp_iff by auto

lemma IsDeleted_iff: "k < 4294967296 \<Longrightarrow> IsDeleted (int k) \<longleftrightarrow> k = 0 \<or> 2147483648 \<le> k"
  using bit31 [of k] and_exp_eq_0_iff_not_bit [of "int k" 31] by (auto simp: IsDeleted_def DELETE_MASK_def)

lemma UnsetDeletedFlag_tlen: "k < 4294967296 \<Longrightarrow> UnsetDeletedFlag (int k) = int (tlen k)"
proof -
  assume k: "k < 4294967296"
  then have "take_bit 32 (int k) = int k" by (simp add: take_bit_eq_mod)
  then have "bit (int k) n \<Longrightarrow> n < 32" for n by (metis bit_take_bit_iff)
  then have "bit (int k) n \<Longrightarrow> n \<noteq> 31 \<longleftrightarrow> n < 31" for n by fastforce
  then have "int k AND NOT DELETE_MASK = take_bit 31 (int k)"
    by (intro bit_eqI) (auto simp: bit_and_iff bit_not_iff bit_take_bit_iff bit_DELETE_MASK)
  then show ?thesis using k by (simp add: UnsetDeletedFlag_def take_bit_eq_mod tlen_def zmod_int)
qed

lemma SetDeletedFlag_add: "k < 2147483648 \<Longrightarrow> SetDeletedFlag (int k) = int (k + 2147483648)"
proof -
  assume k: "k < 2147483648"
  then have "\<not> bit (int k) 31" using bit31 [of k] by simp
  then have "int k OR DELETE_MASK = int k + DELETE_MASK"
    by (intro disjunctive_add [symmetric]) (auto simp: bit_DELETE_MASK)
  then show ?thesis using k by (simp add: SetDeletedFlag_def DELETE_MASK_def)
qed

lemma reflag:
  assumes "view_ok v" and "i < length (v_ents v)" and "v_ents v ! i = (off, s)"
    and "s \<noteq> 0" and "s' \<noteq> 0" and "s' < 4294967296" and "tlen s' = tlen s"
  defines "v' \<equiv> v\<lparr>v_ents := (v_ents v)[i := (off, s')]\<rparr>"
  shows "view_ok v' \<and> slots v' = (slots v)[i := Slot (2147483648 \<le> s') (map (v_mem v) [off..<off + tlen s])]"
proof
  have "entry_ok (v_free v) (off, s)" using assms(1) nth_mem [OF assms(2)] assms(3) by (metis view_ok_def)
  then have "entry_ok (v_free v) (off, s')" using assms(4-7) by (simp add: entry_ok_def)
  then have "\<forall>e \<in> set (v_ents v'). entry_ok (v_free v) e"
    using assms(1) by (auto simp: v'_def view_ok_def dest: subsetD [OF set_update_subset_insert])
  moreover have "apart (off, s') e \<longleftrightarrow> apart (off, s) e" for e using assms(4,5,7) by (simp add: apart_def)
  then have "apart (v_ents v' ! j) (v_ents v' ! k)" if "j < length (v_ents v)" "k < length (v_ents v)" "j \<noteq> k" for j k
    using that assms(1-3) apart_sym by (simp add: v'_def nth_list_update view_ok_def) metis
  moreover have "map (\<lambda>e. tlen (snd e)) (v_ents v') = map (\<lambda>e. tlen (snd e)) (v_ents v)"
    using assms(2,3,7) by (intro nth_equalityI) (auto simp: v'_def nth_list_update)
  then have "(\<Sum>e\<leftarrow>v_ents v'. tlen (snd e)) = (\<Sum>e\<leftarrow>v_ents v. tlen (snd e))" by metis
  ultimately show "view_ok v'" using assms(1) by (auto simp: view_ok_def v'_def)
  show "slots v' = (slots v)[i := Slot (2147483648 \<le> s') (map (v_mem v) [off..<off + tlen s])]"
    using assms(2,5,7) by (intro nth_equalityI) (auto simp: slots_def v'_def nth_list_update slot_of_def)
qed

end
