(* ===== verification/Table_Page_Spec.thy ===== *)
theory Table_Page_Spec
  imports Table_Page_View
begin

text \<open>
  The abstract page, a list of slots with the page ids of the header, its operations, and
  the refinement: every operation of the slotted page, on bytes, gives the result of the
  abstract operation and leaves bytes that decode to the abstract page it leaves, or fails
  the assertion that the abstract operation fails.
\<close>

section \<open>The abstract page\<close>

record apage =
  ap_id :: page_id
  ap_prev :: page_id
  ap_next :: page_id
  ap_slots :: "slot list"

definition empty_apage :: "page_id \<Rightarrow> page_id \<Rightarrow> apage" where
  "empty_apage p prev = \<lparr>ap_id = p, ap_prev = prev, ap_next = INVALID_PAGE_ID, ap_slots = []\<rparr>"

text \<open>The first slot that satisfies a predicate, from a position on.\<close>

fun first_slot :: "(slot \<Rightarrow> bool) \<Rightarrow> nat \<Rightarrow> slot list \<Rightarrow> nat option" where
  "first_slot P i [] = None"
| "first_slot P i (s # ss) = (if P s then Some i else first_slot P (Suc i) ss)"

definition is_live :: "slot \<Rightarrow> bool" where
  "is_live s \<longleftrightarrow> (case s of Slot False _ \<Rightarrow> True | _ \<Rightarrow> False)"

definition slot_at :: "apage \<Rightarrow> RID \<Rightarrow> slot option" where
  "slot_at a rid = (let i = unat (rid_slot_num rid) in if i < length (ap_slots a) then Some (ap_slots a ! i) else None)"

definition set_slot :: "RID \<Rightarrow> slot \<Rightarrow> apage \<Rightarrow> apage" where
  "set_slot rid s a = a\<lparr>ap_slots := (ap_slots a)[unat (rid_slot_num rid) := s]\<rparr>"

datatype page_op =
    Insert_op tuple
  | Mark_op RID
  | Update_op tuple RID
  | Apply_op RID
  | Rollback_op RID
  | Get_op RID
  | First_op
  | Next_op RID

datatype page_out = Rid_out "RID option" | Flag_out bool | Tuple_out "tuple option" | Found_out bool RID | No_out

definition spec_insert :: "byte list \<Rightarrow> apage \<Rightarrow> exc + page_out \<times> apage" where
  "spec_insert bs a =
     (if bs = [] then Inl Assert_Failed
      else if room (ap_slots a) < int (length bs) + 8 then Inr (Rid_out None, a)
      else case first_slot (\<lambda>s. s = Free) 0 (ap_slots a) of
        Some i \<Rightarrow> Inr (Rid_out (Some \<lparr>rid_page_id = ap_id a, rid_slot_num = word_of_nat i\<rparr>),
                     a\<lparr>ap_slots := (ap_slots a)[i := Slot False bs]\<rparr>)
      | None \<Rightarrow> Inr (Rid_out (Some \<lparr>rid_page_id = ap_id a, rid_slot_num = word_of_nat (length (ap_slots a))\<rparr>),
                   a\<lparr>ap_slots := ap_slots a @ [Slot False bs]\<rparr>))"

definition spec_found :: "nat \<Rightarrow> apage \<Rightarrow> page_out" where
  "spec_found i a = (case first_slot is_live i (drop i (ap_slots a)) of
       None \<Rightarrow> Found_out False \<lparr>rid_page_id = INVALID_PAGE_ID, rid_slot_num = 0\<rparr>
     | Some j \<Rightarrow> Found_out True \<lparr>rid_page_id = ap_id a, rid_slot_num = word_of_nat j\<rparr>)"

definition spec_step :: "bool \<Rightarrow> page_op \<Rightarrow> 'z txn_scheme \<times> apage \<Rightarrow> exc + page_out \<times> 'z txn_scheme \<times> apage" where
  "spec_step enable_logging op st = (case st of (t, a) \<Rightarrow> (case op of
       Insert_op new \<Rightarrow> ebind (spec_insert (tuple_bytes new) a) (\<lambda>(out, a). Inr (out, t, a))
     | Mark_op rid \<Rightarrow> (case slot_at a rid of
         Some (Slot False bs) \<Rightarrow> Inr (Flag_out True, t, set_slot rid (Slot True bs) a)
       | _ \<Rightarrow> Inr (Flag_out False, abort_if enable_logging t, a))
     | Update_op new rid \<Rightarrow>
         if tuple_bytes new = [] then Inl Assert_Failed
         else (case slot_at a rid of
           Some (Slot False old) \<Rightarrow>
             if room (ap_slots a) + int (length old) < tuple_size new then Inr (Tuple_out None, t, a)
             else Inr (Tuple_out (Some \<lparr>t_rid = rid, t_data = Some old\<rparr>), t, set_slot rid (Slot False (tuple_bytes new)) a)
         | _ \<Rightarrow> Inr (Tuple_out None, abort_if enable_logging t, a))
     | Apply_op rid \<Rightarrow> (case slot_at a rid of
         Some (Slot b bs) \<Rightarrow> Inr (No_out, t, set_slot rid Free a)
       | _ \<Rightarrow> Inl Assert_Failed)
     | Rollback_op rid \<Rightarrow> (case slot_at a rid of
         None \<Rightarrow> Inl Assert_Failed
       | Some (Slot True bs) \<Rightarrow> Inr (No_out, t, set_slot rid (Slot False bs) a)
       | Some s \<Rightarrow> Inr (No_out, t, a))
     | Get_op rid \<Rightarrow> (case slot_at a rid of
         Some (Slot False bs) \<Rightarrow> Inr (Tuple_out (Some \<lparr>t_rid = rid, t_data = Some bs\<rparr>), t, a)
       | _ \<Rightarrow> Inr (Tuple_out None, abort_if enable_logging t, a))
     | First_op \<Rightarrow> Inr (spec_found 0 a, t, a)
     | Next_op rid \<Rightarrow>
         if rid_page_id rid = ap_id a then Inr (spec_found (unat (rid_slot_num rid + 1)) a, t, a)
         else Inl Assert_Failed))"

text \<open>The same calls on the page of the code.\<close>

definition page_step :: "bool \<Rightarrow> page_op \<Rightarrow> 'z txn_scheme \<times> byte list \<Rightarrow> exc + page_out \<times> 'z txn_scheme \<times> byte list" where
  "page_step enable_logging op st = (case st of (t, d) \<Rightarrow> (case op of
       Insert_op new \<Rightarrow> ebind (TablePage_InsertTuple new d) (\<lambda>(out, d). Inr (Rid_out out, t, d))
     | Mark_op rid \<Rightarrow> ebind (TablePage_MarkDelete enable_logging rid t d) (\<lambda>(out, t, d). Inr (Flag_out out, t, d))
     | Update_op new rid \<Rightarrow>
         ebind (TablePage_UpdateTuple enable_logging new rid t d) (\<lambda>(out, t, d). Inr (Tuple_out out, t, d))
     | Apply_op rid \<Rightarrow> ebind (TablePage_ApplyDelete rid d) (\<lambda>d. Inr (No_out, t, d))
     | Rollback_op rid \<Rightarrow> ebind (TablePage_RollbackDelete rid d) (\<lambda>d. Inr (No_out, t, d))
     | Get_op rid \<Rightarrow> ebind (TablePage_GetTuple enable_logging rid t d) (\<lambda>(out, t). Inr (Tuple_out out, t, d))
     | First_op \<Rightarrow> ebind (GetFirstTupleRid d) (\<lambda>(b, rid). Inr (Found_out b rid, t, d))
     | Next_op rid \<Rightarrow> ebind (GetNextTupleRid rid d) (\<lambda>(b, rid). Inr (Found_out b rid, t, d))))"

section \<open>The refinement relation\<close>

definition page_of :: "view \<Rightarrow> apage" where
  "page_of v = \<lparr>ap_id = word_of_int (v_pid v), ap_prev = word_of_int (v_prev v), ap_next = word_of_int (v_next v),
     ap_slots = slots v\<rparr>"

definition is_page :: "byte list \<Rightarrow> apage \<Rightarrow> bool" where
  "is_page d a \<longleftrightarrow> (\<exists>v. rep d v \<and> view_ok v \<and> page_of v = a)"

definition refined :: "exc + page_out \<times> 'z txn_scheme \<times> byte list \<Rightarrow> exc + page_out \<times> 'z txn_scheme \<times> apage \<Rightarrow> bool" where
  "refined c s \<longleftrightarrow> (case s of Inl e \<Rightarrow> c = Inl e
     | Inr (out, t, a) \<Rightarrow> (\<exists>d. c = Inr (out, t, d) \<and> is_page d a))"

lemma refined_simps [simp]:
  "refined c (Inl e) \<longleftrightarrow> c = Inl e" "refined c (Inr (out, t, a)) \<longleftrightarrow> (\<exists>d. c = Inr (out, t, d) \<and> is_page d a)"
  by (simp_all add: refined_def)

lemma is_pageI: "rep d v \<Longrightarrow> view_ok v \<Longrightarrow> is_page d (page_of v)"
  by (auto simp: is_page_def)

lemma is_page_slots:
  assumes "rep d v'" and "view_ok v' \<and> slots v' = ss" and "v_pid v' = v_pid v \<and> v_prev v' = v_prev v \<and> v_next v' = v_next v"
  shows "is_page d ((page_of v)\<lparr>ap_slots := ss\<rparr>)"
proof -
  have "page_of v' = (page_of v)\<lparr>ap_slots := ss\<rparr>" using assms(2,3) by (simp add: page_of_def)
  with is_pageI [OF assms(1)] assms(2) show ?thesis by simp
qed

lemma page_of_simps [simp]: "ap_slots (page_of v) = slots v" "ap_id (page_of v) = word_of_int (v_pid v)"
  by (simp_all add: page_of_def)

text \<open>The entry of a slot and what the code tests of its size.\<close>

lemma slot_entry:
  assumes "view_ok v" and "i < length (v_ents v)" and "v_ents v ! i = (off, s)"
  shows "s < 4294967296" "slots v ! i = (if s = 0 then Free else Slot (2147483648 \<le> s) (map (v_mem v) [off..<off + tlen s]))"
    "s = 0 \<Longrightarrow> off = 0" "s \<noteq> 0 \<Longrightarrow> v_free v \<le> off \<and> off + tlen s \<le> 4096 \<and> 0 < tlen s \<and> slots_end v \<le> off"
proof -
  have "entry_ok (v_free v) (off, s)" "slots_end v \<le> v_free v"
    using assms(1) nth_mem [OF assms(2)] assms(3) by (metis view_ok_def)+
  then show "s < 4294967296" "s = 0 \<Longrightarrow> off = 0"
    "s \<noteq> 0 \<Longrightarrow> v_free v \<le> off \<and> off + tlen s \<le> 4096 \<and> 0 < tlen s \<and> slots_end v \<le> off"
    by (auto simp: entry_ok_def)
  show "slots v ! i = (if s = 0 then Free else Slot (2147483648 \<le> s) (map (v_mem v) [off..<off + tlen s]))"
    using assms(2,3) by (simp add: slots_def slot_of_def)
qed

section \<open>Searching the slots\<close>

lemma drop_slots: "i < length (v_ents v) \<Longrightarrow> drop i (slots v) = slots v ! i # drop (Suc i) (slots v)"
  by (simp add: Cons_nth_drop_Suc)

lemma find_empty_from:
  assumes "rep d v" and "view_ok v" and "n = length (v_ents v)" and "i \<le> n"
  shows "find_empty_slot (map int [i..<n]) k d =
    Inr (case first_slot (\<lambda>s. s = Free) i (drop i (slots v)) of Some j \<Rightarrow> int j | None \<Rightarrow> k)"
  using assms(4)
proof (induction "n - i" arbitrary: i)
  case 0
  then show ?case using assms(3) by simp
next
  case (Suc m)
  then have i: "i < n" "m = n - Suc i" "i < length (v_ents v)" using assms(3) by simp_all
  obtain off s where e: "v_ents v ! i = (off, s)" by (rule prod.exhaust)
  have "GetTupleSize (int i) d = Inr (int s)" using read_slot(2) [OF assms(1) i(3)] e by simp
  moreover have "slots v ! i = Free \<longleftrightarrow> s = 0" using slot_entry(2) [OF assms(2) i(3) e] by simp
  ultimately show ?case using Suc.hyps(1) [OF i(2)] i(1) by (simp add: upt_conv_Cons drop_slots [OF i(3)])
qed

lemma find_live_from:
  assumes "rep d v" and "view_ok v" and "n = length (v_ents v)" and "i \<le> n"
  shows "find_live_slot (map int [i..<n]) d = Inr (map_option int (first_slot is_live i (drop i (slots v))))"
  using assms(4)
proof (induction "n - i" arbitrary: i)
  case 0
  then show ?case using assms(3) by simp
next
  case (Suc m)
  then have i: "i < n" "m = n - Suc i" "i < length (v_ents v)" using assms(3) by simp_all
  obtain off s where e: "v_ents v ! i = (off, s)" by (rule prod.exhaust)
  have "GetTupleSize (int i) d = Inr (int s)" using read_slot(2) [OF assms(1) i(3)] e by simp
  moreover have "is_live (slots v ! i) \<longleftrightarrow> \<not> IsDeleted (int s)"
    using slot_entry(1,2) [OF assms(2) i(3) e] by (simp add: is_live_def IsDeleted_iff split: bool.splits)
  ultimately show ?case using Suc.hyps(1) [OF i(2)] i(1) by (simp add: upt_conv_Cons drop_slots [OF i(3)])
qed

lemma first_slot_bound: "first_slot P i ss = Some j \<Longrightarrow> i \<le> j \<and> j < i + length ss \<and> P (ss ! (j - i))"
  by (induction ss arbitrary: i) (fastforce simp: nth_Cons' split: if_splits)+

lemma GetFirstTupleRid_refines:
  assumes "rep d v" and "view_ok v"
  shows "refined (page_step lg First_op (t, d)) (spec_step lg First_op (t, page_of v))"
  using find_live_from [OF assms refl, of 0] read_header [OF assms(1)] is_pageI [OF assms]
  by (auto simp: page_step_def spec_step_def spec_found_def GetFirstTupleRid_def upto_from [of 0, simplified] split: option.splits)

lemma u32_succ: "u32 (uint (w :: 32 word) + 1) = int (unat (w + 1))"
  by (simp add: u32_def uint_word_ariths)

lemma GetNextTupleRid_refines:
  assumes "rep d v" and "view_ok v"
  shows "refined (page_step lg (Next_op rid) (t, d)) (spec_step lg (Next_op rid) (t, page_of v))"
proof -
  let ?i = "unat (rid_slot_num rid + 1)" and ?n = "length (v_ents v)"
  have "find_live_slot (map int [?i..<?n]) d = Inr (map_option int (first_slot is_live ?i (drop ?i (slots v))))"
    using find_live_from [OF assms refl, of ?i] by (cases "?i \<le> ?n") simp_all
  then have "find_live_slot [u32 (uint (rid_slot_num rid) + 1)..int ?n - 1] d =
      Inr (map_option int (first_slot is_live ?i (drop ?i (slots v))))" by (simp only: u32_succ upto_from)
  then show ?thesis using read_header [OF assms(1)] is_pageI [OF assms]
    by (auto simp: page_step_def spec_step_def spec_found_def GetNextTupleRid_def split: option.splits)
qed

section \<open>\<^verbatim>\<open>InsertTuple\<close>\<close>

text \<open>The bytes are copied below the free space pointer.\<close>

lemma claim_space:
  assumes "rep d v" and "v_free v = f + length bs" and "slots_end v \<le> f" and "v_free v \<le> 4096"
  shows "\<exists>d1 d2. SetFreeSpacePointer (u32 (int (v_free v) - int (length bs))) d = Inr d1 \<and>
    GetFreeSpacePointer d1 = Inr (int f) \<and> memcpy d1 (int f) bs = Inr d2 \<and> rep d2 (put_tuple bs v)"
proof -
  have f: "u32 (int (v_free v) - int (length bs)) = int f" "f < 4294967296" using assms(2,4) by simp_all
  obtain d1 where d1: "SetFreeSpacePointer (int f) d = Inr d1" "rep d1 (v\<lparr>v_free := f\<rparr>)"
    using write_free [OF assms(1) f(2)] by blast
  have "(v\<lparr>v_free := f\<rparr>)\<lparr>v_mem := (\<lambda>x. if f \<le> x \<and> x < f + length bs then bs ! (x - f) else v_mem (v\<lparr>v_free := f\<rparr>) x)\<rparr>
      = put_tuple bs v" using assms(2) by (simp add: put_tuple_def cong: if_cong)
  moreover obtain d2 where "memcpy d1 (int f) bs = Inr d2"
    "rep d2 ((v\<lparr>v_free := f\<rparr>)\<lparr>v_mem := (\<lambda>x. if f \<le> x \<and> x < f + length bs then bs ! (x - f) else v_mem (v\<lparr>v_free := f\<rparr>) x)\<rparr>)"
    using write_mem [OF d1(2), of f bs] assms(2-4) by auto
  ultimately show ?thesis using d1 f(1) read_header(2) [OF d1(2)] by auto
qed

lemma InsertTuple_refines:
  assumes "rep d v" and "view_ok v"
  shows "refined (page_step lg (Insert_op new) (t, d)) (spec_step lg (Insert_op new) (t, page_of v))"
proof -
  let ?bs = "tuple_bytes new" and ?n = "length (v_ents v)"
  consider (empty) "?bs = []" | (full) "?bs \<noteq> []" "room (slots v) < int (length ?bs) + 8"
    | (fits) "?bs \<noteq> []" "int (length ?bs) + 8 \<le> room (slots v)" by linarith
  then show ?thesis
  proof cases
    case empty
    then show ?thesis by (simp add: page_step_def spec_step_def spec_insert_def TablePage_InsertTuple_def tuple_size_def)
  next
    case full
    then show ?thesis using GetFreeSpaceRemaining_room [OF assms] is_pageI [OF assms]
      by (auto simp: page_step_def spec_step_def spec_insert_def TablePage_InsertTuple_def tuple_size_def page_layout)
  next
    case fits
    obtain f where f: "v_free v = f + length ?bs" "slots_end v + 8 \<le> f" "v_free v \<le> 4096"
      using fits(2) room_slots(1) [OF assms(2)] view_ok_free [OF assms(2)] le_Suc_ex [of "length ?bs" "v_free v"] by auto
    then have l: "length ?bs + 8 \<le> v_free v - slots_end v" by simp
    obtain d1 d2 where d: "SetFreeSpacePointer (u32 (int (v_free v) - int (length ?bs))) d = Inr d1"
      "GetFreeSpacePointer d1 = Inr (int f)" "memcpy d1 (int f) ?bs = Inr d2" "rep d2 (put_tuple ?bs v)"
      using claim_space [OF assms(1) f(1) _ f(3)] f(2) by auto
    note pre = GetFreeSpaceRemaining_room [OF assms] read_header [OF assms(1)]
    have find: "find_empty_slot [0..int ?n - 1] (int ?n) d =
      Inr (case first_slot (\<lambda>s. s = Free) 0 (slots v) of Some j \<Rightarrow> int j | None \<Rightarrow> int ?n)"
      using find_empty_from [OF assms refl, of 0] upto_from [of 0] by simp
    show ?thesis
    proof (cases "first_slot (\<lambda>s. s = Free) 0 (slots v)")
      case None
      obtain d3 d4 d5 where "SetTupleOffsetAtSlot (int ?n) (int f) d2 = Inr d3"
        "SetTupleSize (int ?n) (int (length ?bs)) d3 = Inr d4" "GetTablePageId d4 = Inr (word_of_int (v_pid v))"
        "GetTupleCount d4 = Inr (int ?n)" "SetTupleCount (int (Suc ?n)) d4 = Inr d5"
        "rep d5 ((put_tuple ?bs v)\<lparr>v_ents := v_ents v @ [(f, length ?bs)]\<rparr>)"
        using write_new_slot [OF d(4), of f "length ?bs"] f by auto
      moreover from this(6) have "is_page d5 ((page_of v)\<lparr>ap_slots := slots v @ [Slot False ?bs]\<rparr>)"
        by (rule is_page_slots) (use put_tuple_append [OF assms(2) fits(1) l] f(1) in \<open>simp_all add: put_tuple_def\<close>)
      ultimately show ?thesis
        using None fits d(1-3) pre find f
        by (simp add: page_step_def spec_step_def spec_insert_def TablePage_InsertTuple_def tuple_size_def page_layout
            add.commute [of "int ?n" 1])
    next
      case (Some i)
      then have i: "i < ?n" "snd (v_ents v ! i) = 0"
        using first_slot_bound [OF Some] by (auto simp: slots_def slot_of_def split: prod.splits if_splits)
      obtain d3 where d3: "SetTupleOffsetAtSlot (int i) (int f) d2 = Inr d3"
        "rep d3 ((put_tuple ?bs v)\<lparr>v_ents := (v_ents v)[i := (f, snd (v_ents v ! i))]\<rparr>)"
        using write_slot_offset [OF d(4), of i f] i(1) f by auto
      obtain d4 where d4: "SetTupleSize (int i) (int (length ?bs)) d3 = Inr d4"
        "rep d4 ((put_tuple ?bs v)\<lparr>v_ents := (v_ents v)[i := (f, length ?bs)]\<rparr>)"
        using write_slot_size [OF d3(2), of i "length ?bs"] i(1) f by auto
      have "is_page d4 ((page_of v)\<lparr>ap_slots := (slots v)[i := Slot False ?bs]\<rparr>)"
        by (rule is_page_slots [OF d4(2)])
          (use put_tuple_reuse [OF assms(2) fits(1) l i] f(1) in \<open>simp_all add: put_tuple_def\<close>)
      then show ?thesis
        using Some fits d(1-3) d3(1) d4(1) read_header [OF d4(2)] pre find f i(1)
        by (simp add: page_step_def spec_step_def spec_insert_def TablePage_InsertTuple_def tuple_size_def page_layout)
    qed
  qed
qed

section \<open>Marking and rolling back\<close>

text \<open>What the operations on a record identifier read first.\<close>

lemma slot_of_rid:
  assumes "view_ok v" and "i = unat (rid_slot_num rid)"
  shows "slot_at (page_of v) rid = (if i < length (v_ents v) then Some (slots v ! i) else None)"
    "uint (rid_slot_num rid) = int i"
  using assms by (simp_all add: slot_at_def)

lemma set_size_refines:
  assumes "rep d v" and "view_ok v" and "i < length (v_ents v)" and "v_ents v ! i = (off, s)" and "i = unat (rid_slot_num rid)"
    and "s \<noteq> 0" and "s' \<noteq> 0" and "s' < 4294967296" and "tlen s' = tlen s"
  shows "\<exists>d'. SetTupleSize (int i) (int s') d = Inr d' \<and>
    is_page d' (set_slot rid (Slot (2147483648 \<le> s') (map (v_mem v) [off..<off + tlen s])) (page_of v))"
proof -
  obtain d' where d': "SetTupleSize (int i) (int s') d = Inr d'" "rep d' (v\<lparr>v_ents := (v_ents v)[i := (off, s')]\<rparr>)"
    using write_slot_size [OF assms(1,3,8)] assms(4) by auto
  show ?thesis
    using d'(1) is_page_slots [OF d'(2) reflag [OF assms(2-4,6-9)]] assms(5) by (simp add: set_slot_def)
qed

lemma MarkDelete_refines:
  assumes "rep d v" and "view_ok v"
  shows "refined (page_step lg (Mark_op rid) (t, d)) (spec_step lg (Mark_op rid) (t, page_of v))"
proof -
  define i where "i = unat (rid_slot_num rid)"
  note rid = slot_of_rid [OF assms(2) i_def] and pg = is_pageI [OF assms] and hd = read_header(3) [OF assms(1)]
  show ?thesis
  proof (cases "i < length (v_ents v)")
    case False
    then show ?thesis using rid hd pg by (simp add: page_step_def spec_step_def TablePage_MarkDelete_def)
  next
    case True
    obtain off s where e: "v_ents v ! i = (off, s)" by (rule prod.exhaust)
    note sl = slot_entry [OF assms(2) True e] and rd = read_slot(2) [OF assms(1) True]
    show ?thesis
    proof (cases "s = 0 \<or> 2147483648 \<le> s")
      case del: True
      then show ?thesis using rid hd pg True e rd sl(1,2)
        by (auto simp: page_step_def spec_step_def TablePage_MarkDelete_def IsDeleted_iff split: bool.splits)
    next
      case False
      then have "\<exists>d'. SetTupleSize (int i) (int (s + 2147483648)) d = Inr d' \<and>
          is_page d' (set_slot rid (Slot True (map (v_mem v) [off..<off + tlen s])) (page_of v))"
        using set_size_refines [OF assms True e i_def, of "s + 2147483648"] by simp
      with False show ?thesis using rid hd True e rd sl(1,2) SetDeletedFlag_add [of s]
        by (auto simp: page_step_def spec_step_def TablePage_MarkDelete_def IsDeleted_iff)
    qed
  qed
qed

lemma RollbackDelete_refines:
  assumes "rep d v" and "view_ok v"
  shows "refined (page_step lg (Rollback_op rid) (t, d)) (spec_step lg (Rollback_op rid) (t, page_of v))"
proof -
  define i where "i = unat (rid_slot_num rid)"
  note rid = slot_of_rid [OF assms(2) i_def] and pg = is_pageI [OF assms] and hd = read_header(3) [OF assms(1)]
  show ?thesis
  proof (cases "i < length (v_ents v)")
    case False
    then show ?thesis using rid hd pg by (simp add: page_step_def spec_step_def TablePage_RollbackDelete_def)
  next
    case True
    obtain off s where e: "v_ents v ! i = (off, s)" by (rule prod.exhaust)
    note sl = slot_entry [OF assms(2) True e] and rd = read_slot(2) [OF assms(1) True]
    consider (free) "s = 0" | (live) "0 < s" "s < 2147483648" | (dead) "2147483648 \<le> s" by linarith
    then show ?thesis
    proof cases
      case free
      then have "v\<lparr>v_ents := (v_ents v)[i := (fst (v_ents v ! i), 0)]\<rparr> = v"
        using e list_update_id [of "v_ents v" i] by simp
      then have "\<exists>d'. SetTupleSize (int i) 0 d = Inr d' \<and> is_page d' (page_of v)"
        using write_slot_size [OF assms(1) True, of 0] assms(2) is_pageI by auto
      with free show ?thesis using rid hd True e rd sl(2) UnsetDeletedFlag_tlen [of 0]
        by (auto simp: page_step_def spec_step_def TablePage_RollbackDelete_def IsDeleted_def)
    next
      case live
      then show ?thesis using rid hd pg True e rd sl(1,2)
        by (auto simp: page_step_def spec_step_def TablePage_RollbackDelete_def IsDeleted_iff)
    next
      case dead
      then have "\<exists>d'. SetTupleSize (int i) (int (tlen s)) d = Inr d' \<and>
          is_page d' (set_slot rid (Slot False (map (v_mem v) [off..<off + tlen s])) (page_of v))"
        using set_size_refines [OF assms True e i_def, of "tlen s"] sl(4) by (auto simp: tlen_def)
      with dead show ?thesis using rid hd True e rd sl(1,2) UnsetDeletedFlag_tlen [of s]
        by (auto simp: page_step_def spec_step_def TablePage_RollbackDelete_def IsDeleted_iff)
    qed
  qed
qed

lemma GetTuple_refines:
  assumes "rep d v" and "view_ok v"
  shows "refined (page_step lg (Get_op rid) (t, d)) (spec_step lg (Get_op rid) (t, page_of v))"
proof -
  define i where "i = unat (rid_slot_num rid)"
  note rid = slot_of_rid [OF assms(2) i_def] and pg = is_pageI [OF assms] and hd = read_header(3) [OF assms(1)]
  show ?thesis
  proof (cases "i < length (v_ents v)")
    case False
    then show ?thesis using rid hd pg by (auto simp: page_step_def spec_step_def TablePage_GetTuple_def)
  next
    case True
    obtain off s where e: "v_ents v ! i = (off, s)" by (rule prod.exhaust)
    note sl = slot_entry [OF assms(2) True e] and rd = read_slot [OF assms(1) True]
    show ?thesis
    proof (cases "s = 0 \<or> 2147483648 \<le> s")
      case del: True
      then show ?thesis using rid hd pg True e rd sl(1,2)
        by (auto simp: page_step_def spec_step_def TablePage_GetTuple_def IsDeleted_iff split: bool.splits)
    next
      case False
      then show ?thesis using rid hd pg True e rd sl(1,2,4) read_mem [OF assms(1), of off s]
        by (auto simp: page_step_def spec_step_def TablePage_GetTuple_def IsDeleted_iff)
    qed
  qed
qed

section \<open>Updating and removing\<close>

lemma move_tuples:
  assumes "rep d v" and "slots_end v \<le> dst" and "slots_end v \<le> src" and "dst + n \<le> 4096" and "src + n \<le> 4096"
  shows "\<exists>d'. memmove d (int dst) (int src) n = Inr d' \<and>
    rep d' (v\<lparr>v_mem := (\<lambda>x. if dst \<le> x \<and> x < dst + n then v_mem v (x - dst + src) else v_mem v x)\<rparr>)"
proof -
  let ?bs = "map (v_mem v) [src..<src + n]"
  have "(\<lambda>x. if dst \<le> x \<and> x < dst + length ?bs then ?bs ! (x - dst) else v_mem v x) =
      (\<lambda>x. if dst \<le> x \<and> x < dst + n then v_mem v (x - dst + src) else v_mem v x)"
    by (auto simp: fun_eq_iff add.commute)
  with write_mem [OF assms(1,2), of ?bs] read_mem [OF assms(1,3,5)] assms(4) show ?thesis
    by (simp add: memmove_def)
qed

text \<open>Below the end of a tuple there is nothing but the tuples below its start.\<close>

lemma tuple_below:
  assumes "view_ok v" and "k < length (v_ents v)" and "v_ents v ! k = (off, s)" and "s \<noteq> 0"
    and "j < length (v_ents v)" and "j \<noteq> k" and "v_ents v ! j = (p, t)" and "t \<noteq> 0"
  shows "p < off + tlen s \<longleftrightarrow> p < off"
proof -
  have "apart (p, t) (off, s)" using assms(1,2,3,5,6,7) unfolding view_ok_def by metis
  with slot_entry(4) [OF assms(1,5,7,8)] assms(4,8) show ?thesis by (auto simp: apart_def)
qed

lemma nat_int_add_diff: "nat (int p + (int s - int m)) = p + s - m"
  by simp

lemma UpdateTuple_bytes:
  assumes "rep d v" and "view_ok v" and "i < length (v_ents v)" and "v_ents v ! i = (off, s)" and "0 < s" and "s < 2147483648"
    and "bs \<noteq> []" and "slots_end v \<le> dst" and "dst + length bs = v_free v + s" and "a + length bs = off + s"
  shows "\<exists>d1 d2 d3 d4 d5 v'. memmove d (int dst) (int (v_free v)) (off - v_free v) = Inr d1 \<and>
    SetFreeSpacePointer (int dst) d1 = Inr d2 \<and> memcpy d2 (int a) bs = Inr d3 \<and>
    SetTupleSize (int i) (int (length bs)) d3 = Inr d4 \<and> GetTupleCount d4 = Inr (int (length (v_ents v))) \<and>
    shift_offsets [0..int (length (v_ents v)) - 1] (int (off + s)) (int s - int (length bs)) d4 = Inr d5 \<and>
    rep d5 v' \<and> resized i bs v v' \<and> v_pid v' = v_pid v \<and> v_prev v' = v_prev v \<and> v_next v' = v_next v"
proof -
  let ?n = "length (v_ents v)" and ?m = "length bs"
  have off: "v_free v \<le> off" "off + s \<le> 4096" "slots_end v \<le> v_free v"
    using slot_entry(4) [OF assms(2-4)] assms(2,5,6) by (auto simp: view_ok_def)
  have a: "dst + (off - v_free v) = a" using assms(9,10) off by simp
  define m1 where "m1 = (\<lambda>x. if dst \<le> x \<and> x < a then v_mem v (x - dst + v_free v) else v_mem v x)"
  define m2 where "m2 = (\<lambda>x. if a \<le> x \<and> x < a + ?m then bs ! (x - a) else m1 x)"
  obtain d1 where d1: "memmove d (int dst) (int (v_free v)) (off - v_free v) = Inr d1" "rep d1 (v\<lparr>v_mem := m1\<rparr>)"
    using move_tuples [OF assms(1,8) off(3), of "off - v_free v"] off a assms(9,10) by (auto simp: m1_def)
  obtain d2 where d2: "SetFreeSpacePointer (int dst) d1 = Inr d2" "rep d2 (v\<lparr>v_mem := m1, v_free := dst\<rparr>)"
    using write_free [OF d1(2), of dst] off assms(9) by auto
  obtain d3 where d3: "memcpy d2 (int a) bs = Inr d3" "rep d3 (v\<lparr>v_free := dst, v_mem := m2\<rparr>)"
    using write_mem [OF d2(2), of a bs] off a assms(8,10) by (auto simp: m2_def cong: if_cong)
  obtain d4 where d4: "SetTupleSize (int i) (int ?m) d3 = Inr d4"
    "rep d4 (v\<lparr>v_free := dst, v_mem := m2, v_ents := (v_ents v)[i := (off, ?m)]\<rparr>)"
    using write_slot_size [OF d3(2), of i ?m] off assms(3,4,10) by auto
  define v' where "v' = v\<lparr>v_free := dst, v_mem := m2,
    v_ents := map (moved (int (off + s)) (int s - int ?m)) ((v_ents v)[i := (off, ?m)])\<rparr>"
  have ents: "0 \<le> int (fst e) + (int s - int ?m) \<and> int (fst e) + (int s - int ?m) < 4294967296"
    if "e \<in> set ((v_ents v)[i := (off, ?m)])" "0 < snd e" for e
  proof -
    from that(1) obtain j where j: "j < ?n" "e = (v_ents v)[i := (off, ?m)] ! j" by (metis in_set_conv_nth length_list_update)
    have "v_free v \<le> fst e \<and> fst e \<le> 4096"
      using j assms(3) off that(2) slot_entry(4) [OF assms(2) j(1), of "fst e" "snd e"]
      by (cases "j = i") (auto simp: nth_list_update)
    with assms(9) off show ?thesis by simp
  qed
  obtain d5 where d5: "shift_offsets [0..int ?n - 1] (int (off + s)) (int s - int ?m) d4 = Inr d5" "rep d5 v'"
    using shift_offsets_all [OF d4(2), of "int (off + s)" "int s - int ?m"] ents by (auto simp: v'_def)
  have "v_ents v' ! j = (case v_ents v ! j of (p, t) \<Rightarrow> if t \<noteq> 0 \<and> p < off then (p + tlen s - ?m, t) else (p, t))"
    if "j < ?n" "j \<noteq> i" for j
  proof -
    obtain p t where e: "v_ents v ! j = (p, t)" by (rule prod.exhaust)
    with that tuple_below [OF assms(2-4) _ that e] assms(5,6) show ?thesis
      by (auto simp: v'_def moved_def nat_int_add_diff)
  qed
  moreover have "v_ents v' ! i = (off + s - ?m, ?m)" using assms(3,5,7) by (simp add: v'_def moved_def nat_int_add_diff)
  moreover have "x - dst + v_free v = x + ?m - s" if "dst \<le> x" for x using that assms(9) by simp
  moreover have "a = off + s - ?m" "dst = v_free v + s - ?m" using assms(9,10) by simp_all
  ultimately have "resized i bs v v'"
    using assms(4,6,7,10) by (auto simp: resized_def v'_def m2_def m1_def)
  moreover have "v_pid v' = v_pid v" "v_prev v' = v_prev v" "v_next v' = v_next v" by (simp_all add: v'_def)
  ultimately show ?thesis
    using d1(1) d2(1) d3(1) d4(1) read_header(3) [OF d4(2)] d5 by auto
qed

lemma UpdateTuple_refines:
  assumes "rep d v" and "view_ok v"
  shows "refined (page_step lg (Update_op new rid) (t, d)) (spec_step lg (Update_op new rid) (t, page_of v))"
proof (cases "tuple_bytes new = []")
  case True
  then show ?thesis by (simp add: page_step_def spec_step_def TablePage_UpdateTuple_def tuple_size_def)
next
  case bs: False
  define i where "i = unat (rid_slot_num rid)"
  let ?bs = "tuple_bytes new"
  note rid = slot_of_rid [OF assms(2) i_def] and pg = is_pageI [OF assms] and hd = read_header [OF assms(1)]
  note unf = page_step_def spec_step_def TablePage_UpdateTuple_def tuple_size_def
  show ?thesis
  proof (cases "i < length (v_ents v)")
    case False
    then show ?thesis using bs rid hd pg by (simp add: unf)
  next
    case True
    obtain off s where e: "v_ents v ! i = (off, s)" by (rule prod.exhaust)
    note sl = slot_entry [OF assms(2) True e] and rd = read_slot [OF assms(1) True]
    note fr = GetFreeSpaceRemaining_room [OF assms] and rm = room_slots [OF assms(2)] view_ok_free [OF assms(2)]
    show ?thesis
    proof (cases "s = 0 \<or> 2147483648 \<le> s")
      case del: True
      then show ?thesis using bs rid hd pg True e rd sl(1,2)
        by (auto simp: unf IsDeleted_iff split: bool.splits)
    next
      case live: False
      then have old: "slots v ! i = Slot False (map (v_mem v) [off..<off + s])" "off + s \<le> 4096" "v_free v \<le> off" "slots_end v \<le> off"
        using sl(2,4) by auto
      have u: "u32 (room (slots v) + int s) = room (slots v) + int s" using rm old by simp
      show ?thesis
      proof (cases "room (slots v) + int s < int (length ?bs)")
        case full: True
        then show ?thesis using bs rid hd pg True e rd sl(1) live old fr u by (auto simp: unf IsDeleted_iff)
      next
        case False
        define dst where "dst = v_free v + s - length ?bs"
        define a where "a = off + s - length ?bs"
        have dst: "slots_end v \<le> dst" "dst + length ?bs = v_free v + s" "a + length ?bs = off + s"
          using False rm(1) old assms(2) by (auto simp: dst_def a_def view_ok_def)
        from UpdateTuple_bytes [OF assms True e _ _ bs dst] live
        obtain d1 d2 d3 d4 d5 v' where d: "memmove d (int dst) (int (v_free v)) (off - v_free v) = Inr d1"
          "SetFreeSpacePointer (int dst) d1 = Inr d2" "memcpy d2 (int a) ?bs = Inr d3"
          "SetTupleSize (int i) (int (length ?bs)) d3 = Inr d4" "GetTupleCount d4 = Inr (int (length (v_ents v)))"
          "shift_offsets [0..int (length (v_ents v)) - 1] (int (off + s)) (int s - int (length ?bs)) d4 = Inr d5"
          "rep d5 v'" "resized i ?bs v v'" "v_pid v' = v_pid v \<and> v_prev v' = v_prev v \<and> v_next v' = v_next v"
          by auto
        have "is_page d5 (set_slot rid (Slot False ?bs) (page_of v))"
          using is_page_slots [OF d(7) _ d(9)] resized_ok [OF assms(2) d(8) True] e live bs dst(1,2)
          by (simp add: set_slot_def i_def)
        moreover have "int (v_free v) + int s - int (length ?bs) = int dst" "int off + int s - int (length ?bs) = int a"
          "u32 (int off + int s) = int (off + s)" "u32 (int dst) = int dst" "nat (int off - int (v_free v)) = off - v_free v"
          using dst old by simp_all
        ultimately show ?thesis
          using bs rid hd True e rd sl(1) live old fr u False d(1-6) read_mem [OF assms(1) old(4,2)] by (simp add: unf IsDeleted_iff)
      qed
    qed
  qed
qed

lemma ApplyDelete_bytes:
  assumes "rep d v" and "view_ok v" and "i < length (v_ents v)" and "v_ents v ! i = (off, s)" and "s \<noteq> 0"
  shows "\<exists>d1 d2 d3 d4 d5 v'. memmove d (int (v_free v + tlen s)) (int (v_free v)) (off - v_free v) = Inr d1 \<and>
    SetFreeSpacePointer (int (v_free v + tlen s)) d1 = Inr d2 \<and> SetTupleSize (int i) 0 d2 = Inr d3 \<and>
    SetTupleOffsetAtSlot (int i) 0 d3 = Inr d4 \<and> GetTupleCount d4 = Inr (int (length (v_ents v))) \<and>
    shift_offsets [0..int (length (v_ents v)) - 1] (int off) (int (tlen s)) d4 = Inr d5 \<and>
    rep d5 v' \<and> resized i [] v v' \<and> v_pid v' = v_pid v \<and> v_prev v' = v_prev v \<and> v_next v' = v_next v"
proof -
  let ?n = "length (v_ents v)" and ?f = "v_free v + tlen s"
  have off: "v_free v \<le> off" "off + tlen s \<le> 4096" "slots_end v \<le> v_free v"
    using slot_entry(4) [OF assms(2-4)] assms(2,5) by (auto simp: view_ok_def)
  have end_eq: "?f + (off - v_free v) = off + tlen s" using off by simp
  define m where "m = (\<lambda>x. if ?f \<le> x \<and> x < off + tlen s then v_mem v (x - ?f + v_free v) else v_mem v x)"
  obtain d1 where d1: "memmove d (int ?f) (int (v_free v)) (off - v_free v) = Inr d1" "rep d1 (v\<lparr>v_mem := m\<rparr>)"
    using move_tuples [OF assms(1) _ off(3), of ?f "off - v_free v", unfolded end_eq] off by (auto simp: m_def)
  obtain d2 where d2: "SetFreeSpacePointer (int ?f) d1 = Inr d2" "rep d2 (v\<lparr>v_mem := m, v_free := ?f\<rparr>)"
    using write_free [OF d1(2), of ?f] off by auto
  obtain d3 where d3: "SetTupleSize (int i) 0 d2 = Inr d3"
    "rep d3 (v\<lparr>v_mem := m, v_free := ?f, v_ents := (v_ents v)[i := (off, 0)]\<rparr>)"
    using write_slot_size [OF d2(2), of i 0] assms(3,4) by auto
  obtain d4 where d4: "SetTupleOffsetAtSlot (int i) 0 d3 = Inr d4"
    "rep d4 (v\<lparr>v_mem := m, v_free := ?f, v_ents := (v_ents v)[i := (0, 0)]\<rparr>)"
    using write_slot_offset [OF d3(2), of i 0] assms(3) by auto
  define v' where "v' = v\<lparr>v_mem := m, v_free := ?f, v_ents := map (moved (int off) (int (tlen s))) ((v_ents v)[i := (0, 0)])\<rparr>"
  obtain d5 where d5: "shift_offsets [0..int ?n - 1] (int off) (int (tlen s)) d4 = Inr d5" "rep d5 v'"
    using shift_offsets_all [OF d4(2), of "int off" "int (tlen s)"] off by (auto simp: v'_def)
  have "v_ents v' ! j = (case v_ents v ! j of (p, t) \<Rightarrow> if t \<noteq> 0 \<and> p < off then (p + tlen s - length ([] :: byte list), t) else (p, t))"
    if "j < ?n" "j \<noteq> i" for j
    using that by (auto simp: v'_def moved_def nat_add_distrib split: prod.splits)
  moreover have "v_ents v' ! i = (0, 0)" using assms(3) by (simp add: v'_def moved_def)
  ultimately have "resized i [] v v'"
    using assms(4) by (auto simp: resized_def v'_def m_def)
  moreover have "v_pid v' = v_pid v" "v_prev v' = v_prev v" "v_next v' = v_next v" by (simp_all add: v'_def)
  ultimately show ?thesis
    using d1(1) d2(1) d3(1) d4(1) read_header(3) [OF d4(2)] d5 by auto
qed

lemma ApplyDelete_refines:
  assumes "rep d v" and "view_ok v"
  shows "refined (page_step lg (Apply_op rid) (t, d)) (spec_step lg (Apply_op rid) (t, page_of v))"
proof -
  define i where "i = unat (rid_slot_num rid)"
  note rid = slot_of_rid [OF assms(2) i_def] and hd = read_header [OF assms(1)]
  note unf = page_step_def spec_step_def TablePage_ApplyDelete_def
  show ?thesis
  proof (cases "i < length (v_ents v)")
    case False
    then show ?thesis using rid hd by (simp add: unf)
  next
    case True
    obtain off s where e: "v_ents v ! i = (off, s)" by (rule prod.exhaust)
    note sl = slot_entry [OF assms(2) True e] and rd = read_slot [OF assms(1) True]
    have size: "(if IsDeleted (int s) then UnsetDeletedFlag (int s) else int s) = int (tlen s)"
      using sl(1) by (auto simp: IsDeleted_iff UnsetDeletedFlag_tlen)
    show ?thesis
    proof (cases "s = 0")
      case free: True
      have "mem_read d 0 0 = Inr []" by (simp add: mem_read_def)
      moreover have "0 < v_free v" using assms(2) by (simp add: view_ok_def)
      ultimately show ?thesis using free rid hd True e rd sl(2,3) UnsetDeletedFlag_tlen [of 0]
        by (simp add: unf Let_def IsDeleted_def)
    next
      case False
      then obtain d1 d2 d3 d4 d5 v' where d: "memmove d (int (v_free v + tlen s)) (int (v_free v)) (off - v_free v) = Inr d1"
        "SetFreeSpacePointer (int (v_free v + tlen s)) d1 = Inr d2" "SetTupleSize (int i) 0 d2 = Inr d3"
        "SetTupleOffsetAtSlot (int i) 0 d3 = Inr d4" "GetTupleCount d4 = Inr (int (length (v_ents v)))"
        "shift_offsets [0..int (length (v_ents v)) - 1] (int off) (int (tlen s)) d4 = Inr d5"
        "rep d5 v'" "resized i [] v v'" "v_pid v' = v_pid v \<and> v_prev v' = v_prev v \<and> v_next v' = v_next v"
        using ApplyDelete_bytes [OF assms True e] by auto
      have "is_page d5 (set_slot rid Free (page_of v))"
        using is_page_slots [OF d(7) _ d(9)] resized_ok [OF assms(2) d(8) True] e False by (simp add: set_slot_def i_def)
      moreover have "u32 (int (v_free v) + int (tlen s)) = int (v_free v + tlen s)" "nat (int off - int (v_free v)) = off - v_free v"
        "v_free v \<le> off" "slots_end v \<le> off" "off + tlen s \<le> 4096"
        using sl(4) False by simp_all
      ultimately show ?thesis
        using False rid hd True e rd sl(2) size d(1-6) read_mem [OF assms(1), of off "tlen s"] by (simp add: unf Let_def)
    qed
  qed
qed

section \<open>Sequences of calls\<close>

lemma page_step_refines:
  assumes "is_page d a"
  shows "refined (page_step lg op (t, d)) (spec_step lg op (t, a))"
proof -
  obtain v where v: "rep d v" "view_ok v" "page_of v = a" using assms by (auto simp: is_page_def)
  note refines = InsertTuple_refines MarkDelete_refines UpdateTuple_refines ApplyDelete_refines RollbackDelete_refines
    GetTuple_refines GetFirstTupleRid_refines GetNextTupleRid_refines
  show ?thesis unfolding v(3) [symmetric] by (cases op) (simp_all only: refines [OF v(1,2)])
qed

lemma Init_is_page:
  assumes "length d = 4096"
  shows "\<exists>t' d'. TablePage_Init lg p 4096 prev t d = Inr (t', d') \<and> is_page d' (empty_apage p prev)"
proof -
  let ?d1 = "mem_splice d 0 (le_bytes 4 (uint p))"
  let ?d2 = "if lg then mem_splice ?d1 4 (le_bytes 4 AppendLogRecord) else ?d1"
  let ?d3 = "mem_splice ?d2 8 (le_bytes 4 (uint prev))"
  let ?d4 = "mem_splice ?d3 12 (le_bytes 4 (uint INVALID_PAGE_ID))"
  let ?d5 = "mem_splice ?d4 16 (le_bytes 4 4096)"
  let ?d6 = "mem_splice ?d5 20 (le_bytes 4 0)"
  let ?v = "\<lparr>v_pid = uint p, v_prev = uint prev, v_next = uint INVALID_PAGE_ID, v_free = 4096, v_ents = [], v_mem = (!) ?d6\<rparr>"
  have len: "length ?d1 = 4096" "length ?d2 = 4096" "length ?d3 = 4096" "length ?d4 = 4096" "length ?d5 = 4096" "length ?d6 = 4096"
    using assms by simp_all
  have u: "u32 (uint w) = uint w" for w :: "32 word" using uint_bounded [of w] by simp
  have "word32 ?d2 0 = word32 ?d1 0" using len(1) by (simp add: word32_splice_other)
  then have "rep ?d6 ?v"
    using assms len by (simp add: rep_def word32_splice_other word32_splice_same u)
  moreover have "view_ok ?v" "page_of ?v = empty_apage p prev"
    by (simp_all add: view_ok_def page_of_def empty_apage_def slots_def)
  ultimately have "is_page ?d6 (empty_apage p prev)" using is_pageI by metis
  moreover have "\<exists>t'. TablePage_Init lg p 4096 prev t d = Inr (t', ?d6)"
    using assms len by (cases lg) (simp_all add: TablePage_Init_def SetLSN_def SetPrevPageId_def SetNextPageId_def
      SetFreeSpacePointer_def SetTupleCount_def page_layout write32_ok)
  ultimately show ?thesis by blast
qed

fun page_run :: "bool \<Rightarrow> page_op list \<Rightarrow> 'z txn_scheme \<times> byte list \<Rightarrow> exc + page_out list \<times> 'z txn_scheme \<times> byte list" where
  "page_run lg [] st = Inr ([], st)"
| "page_run lg (op # ops) st =
     ebind (page_step lg op st) (\<lambda>(out, st). ebind (page_run lg ops st) (\<lambda>(outs, st). Inr (out # outs, st)))"

fun spec_run :: "bool \<Rightarrow> page_op list \<Rightarrow> 'z txn_scheme \<times> apage \<Rightarrow> exc + page_out list \<times> 'z txn_scheme \<times> apage" where
  "spec_run lg [] st = Inr ([], st)"
| "spec_run lg (op # ops) st =
     ebind (spec_step lg op st) (\<lambda>(out, st). ebind (spec_run lg ops st) (\<lambda>(outs, st). Inr (out # outs, st)))"

lemma page_run_refines:
  assumes "is_page d a"
  shows "case spec_run lg ops (t, a) of Inl e \<Rightarrow> page_run lg ops (t, d) = Inl e
    | Inr (outs, t', a') \<Rightarrow> \<exists>d'. page_run lg ops (t, d) = Inr (outs, t', d') \<and> is_page d' a'"
  using assms
proof (induction ops arbitrary: t d a)
  case (Cons op ops)
  note st = page_step_refines [OF Cons.prems, of lg op t]
  show ?case
  proof (cases "spec_step lg op (t, a)")
    case (Inl e)
    with st show ?thesis by simp
  next
    case (Inr r)
    then obtain out t1 a1 where r: "spec_step lg op (t, a) = Inr (out, t1, a1)" by (cases r) auto
    with st obtain d1 where d1: "page_step lg op (t, d) = Inr (out, t1, d1)" "is_page d1 a1" by auto
    from Cons.IH [OF d1(2), of t1] d1(1) r show ?thesis
      by (cases "spec_run lg ops (t1, a1)") auto
  qed
qed simp

text \<open>C5. A freshly initialized table page, after any sequence of insertions, updates, marked,
  applied and rolled-back deletions, reads and scans, gives exactly the results of the
  abstract page, a list of slots, on the same calls, and its bytes decode to the abstract
  page; an assertion of the code fails exactly when the abstract operation fails it, and no
  access leaves the page.\<close>

theorem table_page_refines_slots:
  assumes "length d = 4096"
  shows "\<exists>t' d0. TablePage_Init lg p 4096 prev t d = Inr (t', d0) \<and>
    (case spec_run lg ops (t', empty_apage p prev) of
       Inl e \<Rightarrow> page_run lg ops (t', d0) = Inl e
     | Inr (outs, t'', a) \<Rightarrow> \<exists>d'. page_run lg ops (t', d0) = Inr (outs, t'', d') \<and> is_page d' a)"
  using Init_is_page [OF assms, of lg p prev t] page_run_refines by blast

theorem table_page_refines_slots_witness:
  "\<exists>t' d0 d'. TablePage_Init False 7 4096 (- 1) \<lparr>txn_state = GROWING, prev_lsn = 0\<rparr> (replicate 4096 0) = Inr (t', d0) \<and>
     page_run False
       [Insert_op \<lparr>t_rid = RID_default, t_data = Some [1, 2]\<rparr>, Insert_op \<lparr>t_rid = RID_default, t_data = Some [3]\<rparr>,
        Update_op \<lparr>t_rid = RID_default, t_data = Some [4, 5, 6]\<rparr> \<lparr>rid_page_id = 7, rid_slot_num = 0\<rparr>,
        Apply_op \<lparr>rid_page_id = 7, rid_slot_num = 0\<rparr>, First_op] (t', d0) =
     Inr ([Rid_out (Some \<lparr>rid_page_id = 7, rid_slot_num = 0\<rparr>), Rid_out (Some \<lparr>rid_page_id = 7, rid_slot_num = 1\<rparr>),
           Tuple_out (Some \<lparr>t_rid = \<lparr>rid_page_id = 7, rid_slot_num = 0\<rparr>, t_data = Some [1, 2]\<rparr>), No_out,
           Found_out True \<lparr>rid_page_id = 7, rid_slot_num = 1\<rparr>], t', d')"
  using table_page_refines_slots [of "replicate 4096 0" False 7 "- 1" "\<lparr>txn_state = GROWING, prev_lsn = 0\<rparr>"
    "[Insert_op \<lparr>t_rid = RID_default, t_data = Some [1, 2]\<rparr>, Insert_op \<lparr>t_rid = RID_default, t_data = Some [3]\<rparr>,
      Update_op \<lparr>t_rid = RID_default, t_data = Some [4, 5, 6]\<rparr> \<lparr>rid_page_id = 7, rid_slot_num = 0\<rparr>,
      Apply_op \<lparr>rid_page_id = 7, rid_slot_num = 0\<rparr>, First_op]"]
  by (auto simp: spec_step_def spec_insert_def empty_apage_def room_def slot_len_def tuple_bytes_def tuple_size_def
      slot_at_def set_slot_def spec_found_def is_live_def)

end
