(* ===== verification/Page_Access.thy ===== *)
theory Page_Access
  imports Buffer_Pool_Spec
begin

text \<open>
  How the access methods (table heap, index) use the buffer pool: they fetch or create a page, read
  and store the bytes of its frame while it is pinned, and unpin it.  The interface \<open>page_pool\<close>
  states the laws of these calls on the abstract cache, and that the frame of a pinned page does
  not move; the sessions derived from it (fetch, read, unpin and fetch, store, unpin) carry the
  proofs of the clients.  The buffer pool manager interprets it.
\<close>

section \<open>Calls as changes of the cache\<close>

definition pinned_pages :: "cache \<Rightarrow> page_id set" where
  "pinned_pages a = {p \<in> c_live a. 0 < c_pins a p}"

definition pin_page :: "page_id \<Rightarrow> cache \<Rightarrow> cache" where
  "pin_page p a = a\<lparr>c_pins := (c_pins a)(p := c_pins a p + 1)\<rparr>"

definition unpin_page :: "page_id \<Rightarrow> bool \<Rightarrow> cache \<Rightarrow> cache" where
  "unpin_page p d a = a\<lparr>c_pins := (c_pins a)(p := c_pins a p - 1), c_touched := (if d then c_touched a - {p} else c_touched a)\<rparr>"

definition put_page :: "page_id \<Rightarrow> byte list \<Rightarrow> cache \<Rightarrow> cache" where
  "put_page p x a = a\<lparr>c_data := (c_data a)(p := x), c_touched := insert p (c_touched a)\<rparr>"

definition add_page :: "cache \<Rightarrow> cache" where
  "add_page a = (let p = c_next a in
     a\<lparr>c_live := insert p (c_live a), c_data := (c_data a)(p := zero_page), c_pins := (c_pins a)(p := 1), c_next := p + 1\<rparr>)"

lemmas cache_ops = pin_page_def unpin_page_def put_page_def add_page_def

lemma cache_op_fields [simp]:
  "c_live (pin_page p a) = c_live a" "c_data (pin_page p a) = c_data a" "c_touched (pin_page p a) = c_touched a"
  "c_next (pin_page p a) = c_next a" "c_pins (pin_page p a) = (c_pins a)(p := c_pins a p + 1)"
  "c_live (put_page p x a) = c_live a" "c_data (put_page p x a) = (c_data a)(p := x)" "c_touched (put_page p x a) = insert p (c_touched a)"
  "c_next (put_page p x a) = c_next a" "c_pins (put_page p x a) = c_pins a"
  "c_live (add_page a) = insert (c_next a) (c_live a)" "c_data (add_page a) = (c_data a)(c_next a := zero_page)"
  "c_touched (add_page a) = c_touched a" "c_next (add_page a) = c_next a + 1" "c_pins (add_page a) = (c_pins a)(c_next a := 1)"
  by (simp_all add: cache_ops Let_def)

lemma unpin_pin [simp]: "unpin_page p False (pin_page p a) = a"
  by (simp add: cache_ops)

lemma unpin_put_pin:
  "p \<notin> c_touched a \<Longrightarrow> unpin_page p True (put_page p x (pin_page p a)) = a\<lparr>c_data := (c_data a)(p := x)\<rparr>"
  by (simp add: cache_ops)

lemma finite_pinned [simp]: "finite (pinned_pages a)"
  by (simp add: pinned_pages_def)

text \<open>\<open>spare n k a\<close>: of \<open>n\<close> frames, \<open>k\<close> can still be pinned.\<close>

definition spare :: "nat \<Rightarrow> nat \<Rightarrow> cache \<Rightarrow> bool" where
  "spare n k a \<longleftrightarrow> card (pinned_pages a) + k \<le> n"

lemma spare_pin: "spare n (Suc k) a \<Longrightarrow> spare n k (pin_page p a)"
proof -
  assume "spare n (Suc k) a"
  moreover have "pinned_pages (pin_page p a) \<subseteq> insert p (pinned_pages a)"
    by (auto simp: pinned_pages_def pin_page_def)
  then have "card (pinned_pages (pin_page p a)) \<le> card (insert p (pinned_pages a))" by (intro card_mono) simp_all
  then have "card (pinned_pages (pin_page p a)) \<le> Suc (card (pinned_pages a))"
    using card_insert_le_m1 [of "Suc (card (pinned_pages a))" "pinned_pages a" p] by simp
  ultimately show ?thesis by (simp add: spare_def)
qed

lemma spare_mono: "spare n k a \<Longrightarrow> j \<le> k \<Longrightarrow> spare n j a"
  by (simp add: spare_def)

lemma pinned_put [simp]: "pinned_pages (put_page p x a) = pinned_pages a"
  by (simp add: pinned_pages_def put_page_def)

lemma spare_data [simp]: "spare n k (put_page p x a) = spare n k a" "spare n k (a\<lparr>c_data := g\<rparr>) = spare n k a"
  by (simp add: spare_def) (simp add: spare_def pinned_pages_def)

section \<open>The interface\<close>

locale page_pool =
  fixes fetch :: "page_id \<Rightarrow> 's \<Rightarrow> 'e + 'f option \<times> 's"
    and unpin :: "page_id \<Rightarrow> bool \<Rightarrow> 's \<Rightarrow> 'e + bool \<times> 's"
    and create :: "'s \<Rightarrow> 'e + (page_id \<times> 'f) option \<times> 's"
    and load :: "'f \<Rightarrow> 's \<Rightarrow> 'e + byte list"
    and store :: "'f \<Rightarrow> byte list \<Rightarrow> 's \<Rightarrow> 's"
    and at :: "'s \<Rightarrow> page_id \<Rightarrow> 'f option"
    and ok :: "nat \<Rightarrow> 's \<Rightarrow> cache \<Rightarrow> bool"
  assumes fetch_law: "ok n s a \<Longrightarrow> p \<in> c_live a \<Longrightarrow>
        (\<exists>f s'. fetch p s = Inr (Some f, s') \<and> ok n s' (pin_page p a) \<and> at s' p = Some f \<and>
           (\<forall>q g. at s q = Some g \<and> 0 < c_pins a q \<longrightarrow> at s' q = Some g)) \<or>
        fetch p s = Inr (None, s) \<and> \<not> spare n 1 a"
    and create_law: "ok n s a \<Longrightarrow> unat (c_next a) < 524287 \<Longrightarrow>
        (\<exists>f s'. create s = Inr (Some (c_next a, f), s') \<and> c_next a \<notin> c_live a \<and> ok n s' (add_page a) \<and> at s' (c_next a) = Some f \<and>
           (\<forall>q g. at s q = Some g \<and> 0 < c_pins a q \<longrightarrow> at s' q = Some g)) \<or>
        create s = Inr (None, s) \<and> \<not> spare n 1 a"
    and unpin_law: "ok n s a \<Longrightarrow> p \<in> c_live a \<Longrightarrow> 0 < c_pins a p \<Longrightarrow> d \<or> p \<notin> c_touched a \<or> 1 < c_pins a p \<Longrightarrow>
        \<exists>s'. unpin p d s = Inr (True, s') \<and> ok n s' (unpin_page p d a) \<and> at s' = at s \<and> (\<forall>f. load f s' = load f s)"
    and load_law: "ok n s a \<Longrightarrow> at s p = Some f \<Longrightarrow> load f s = Inr (c_data a p) \<and> p \<in> c_live a"
    and store_law: "ok n s a \<Longrightarrow> at s p = Some f \<Longrightarrow> 0 < c_pins a p \<Longrightarrow> length x = BUSTUB_PAGE_SIZE \<Longrightarrow>
        ok n (store f x s) (put_page p x a) \<and> at (store f x s) = at s"
    and store_same: "load f s = Inr x \<Longrightarrow> store f x s = s"
    and pins_nonneg: "ok n s a \<Longrightarrow> p \<in> c_live a \<Longrightarrow> 0 \<le> c_pins a p"
begin

lemma fetch_ok:
  assumes "ok n s a" and "p \<in> c_live a" and "spare n 1 a"
  obtains f s' where "fetch p s = Inr (Some f, s')" and "ok n s' (pin_page p a)" and "at s' p = Some f"
    and "load f s' = Inr (c_data a p)" and "\<And>q g. at s q = Some g \<Longrightarrow> 0 < c_pins a q \<Longrightarrow> at s' q = Some g"
proof -
  obtain f s' where s': "fetch p s = Inr (Some f, s')" "ok n s' (pin_page p a)" "at s' p = Some f"
    "\<And>q g. at s q = Some g \<Longrightarrow> 0 < c_pins a q \<Longrightarrow> at s' q = Some g"
    using fetch_law [OF assms(1,2)] assms(3) by blast
  show ?thesis by (rule that [OF s'(1-3)]) (use load_law [OF s'(2,3)] s'(4) in \<open>simp_all add: pin_page_def\<close>)
qed

lemma create_ok:
  assumes "ok n s a" and "unat (c_next a) < 524287" and "spare n 1 a"
  obtains f s' where "create s = Inr (Some (c_next a, f), s')" and "c_next a \<notin> c_live a" and "ok n s' (add_page a)"
    and "at s' (c_next a) = Some f" and "load f s' = Inr zero_page"
    and "\<And>q g. at s q = Some g \<Longrightarrow> 0 < c_pins a q \<Longrightarrow> at s' q = Some g"
proof -
  obtain f s' where s': "create s = Inr (Some (c_next a, f), s')" "c_next a \<notin> c_live a" "ok n s' (add_page a)"
    "at s' (c_next a) = Some f" "\<And>q g. at s q = Some g \<Longrightarrow> 0 < c_pins a q \<Longrightarrow> at s' q = Some g"
    using create_law [OF assms(1,2)] assms(3) by blast
  show ?thesis by (rule that [OF s'(1-4)]) (use load_law [OF s'(3,4)] s'(5) in \<open>simp_all add: add_page_def Let_def\<close>)
qed

text \<open>Fetch, read and unpin; the frame keeps its bytes after the unpin.\<close>

lemma read_session:
  assumes "ok n s a" and "p \<in> c_live a" and "p \<notin> c_touched a" and "spare n 1 a"
  obtains f s1 s2 where "fetch p s = Inr (Some f, s1)" and "load f s1 = Inr (c_data a p)"
    and "unpin p False s1 = Inr (True, s2)" and "ok n s2 a" and "load f s2 = Inr (c_data a p)"
    and "\<And>q g. at s q = Some g \<Longrightarrow> 0 < c_pins a q \<Longrightarrow> at s2 q = Some g"
proof -
  obtain f s1 where s1: "fetch p s = Inr (Some f, s1)" "ok n s1 (pin_page p a)" "at s1 p = Some f" "load f s1 = Inr (c_data a p)"
    "\<And>q g. at s q = Some g \<Longrightarrow> 0 < c_pins a q \<Longrightarrow> at s1 q = Some g"
    by (rule fetch_ok [OF assms(1,2,4)]) (rule that)
  have "p \<in> c_live (pin_page p a)" "0 < c_pins (pin_page p a) p" "p \<notin> c_touched (pin_page p a)"
    using assms(2,3) pins_nonneg [OF assms(1,2)] by (simp_all add: pin_page_def)
  then obtain s2 where "unpin p False s1 = Inr (True, s2)" "ok n s2 (unpin_page p False (pin_page p a))" "load f s2 = load f s1" "at s2 = at s1"
    using unpin_law [OF s1(2), of p False] by blast
  with that s1 show ?thesis by simp
qed

text \<open>Fetch, store and unpin as dirty.\<close>

lemma write_session:
  assumes "ok n s a" and "p \<in> c_live a" and "p \<notin> c_touched a" and "spare n 1 a" and "length x = BUSTUB_PAGE_SIZE"
  obtains f s1 s2 where "fetch p s = Inr (Some f, s1)" and "load f s1 = Inr (c_data a p)"
    and "load f (store f x s1) = Inr x" and "unpin p True (store f x s1) = Inr (True, s2)"
    and "ok n s2 (a\<lparr>c_data := (c_data a)(p := x)\<rparr>)"
proof -
  obtain f s1 where s1: "fetch p s = Inr (Some f, s1)" "ok n s1 (pin_page p a)" "at s1 p = Some f" "load f s1 = Inr (c_data a p)"
    by (rule fetch_ok [OF assms(1,2,4)])
  let ?a = "put_page p x (pin_page p a)"
  have st: "ok n (store f x s1) ?a" "at (store f x s1) p = Some f"
    using store_law [OF s1(2,3) _ assms(5)] pins_nonneg [OF assms(1,2)] s1(3) by (simp_all add: pin_page_def)
  have "p \<in> c_live ?a" "0 < c_pins ?a p" using assms(2) pins_nonneg [OF assms(1,2)] by (simp_all add: cache_ops)
  then obtain s2 where "unpin p True (store f x s1) = Inr (True, s2)" "ok n s2 (unpin_page p True ?a)"
    using unpin_law [OF st(1), of p True] by blast
  moreover have "load f (store f x s1) = Inr x" using load_law [OF st] by (simp add: put_page_def)
  ultimately show ?thesis using that s1 unpin_put_pin [OF assms(3)] by simp
qed

end

section \<open>The buffer pool manager provides it\<close>

text \<open>The bytes of the frame a page pointer points to.\<close>

definition page_data :: "frame_id \<Rightarrow> bpm \<Rightarrow> bpm_error + byte list" where
  "page_data f s = ebind (get_frame f s) (\<lambda>pg. Inr (pg_data pg))"

definition pool_ok :: "nat \<Rightarrow> bpm \<Rightarrow> cache \<Rightarrow> bool" where
  "pool_ok n s a \<longleftrightarrow> cache_rel s a \<and> length (bp_pages s) = n"

text \<open>The frame of a pinned page is never taken.\<close>

lemma taken_not_pinned:
  assumes "taken s g L T" and "table_find p s = Some f" and "0 < pins s p"
  shows "p \<noteq> pg_id (fr s g)"
proof
  assume p: "p = pg_id (fr s g)"
  then have "f = g" using taken_mapped [OF assms(1)] assms(2) by simp
  have "p \<in> L" using core_find [OF taken_core [OF assms(1)] assms(2)] by blast
  moreover have "pin_count (fr s g) = pins s p" using assms(2) \<open>f = g\<close> by (simp add: pins_def)
  ultimately show False using taken_cases [OF assms(1)] assms(3) p by (simp add: stale_def)
qed

lemma clean_frame_find:
  assumes "taken s g L T" and "clean_frame g s = Inr s'"
  shows "table_find q s' = (if q = pg_id (fr s g) then None else table_find q s)" "frames s' = frames s"
    "page_table_inv (bp_table s')" "lruk_ok (length (bp_pages s')) (bp_replacer s')"
proof -
  note core = taken_core [OF assms(1)]
  obtain s'' where e: "clean_frame g s = Inr s''" "clean_effect s g s''"
    using clean_frame_effect [OF core_table [OF core] taken_g(1) [OF assms(1)]] by blast
  have "s' = s''" using assms(2) e(1) by simp
  then have e: "clean_effect s g s'" using e(2) by simp
  show "table_find q s' = (if q = pg_id (fr s g) then None else table_find q s)" by (rule ce_find [OF e])
  show "frames s' = frames s" "page_table_inv (bp_table s')" using ce_same(4) [OF e] ce_table [OF e] by simp_all
  show "lruk_ok (length (bp_pages s')) (bp_replacer s')" unfolding ce_same [OF e] by (rule core_lruk [OF core])
qed

lemma install_page_find:
  assumes "page_table_inv (bp_table s)" and "lruk_ok (length (bp_pages s)) (bp_replacer s)" and "g \<in> frames s"
    and "install_page g p s = Inr s'"
  shows "table_find q s' = (if q = p then Some g else table_find q s)"
proof -
  obtain t r where i: "install_page g p s = Inr (modify_frame g (\<lambda>pg. pg\<lparr>pg_id := p, pin_count := 1\<rparr>)
        (s\<lparr>bp_table := t, bp_replacer := r\<rparr>))" (is "_ = Inr ?s")
    and t: "Find hash_page_id t = (Find hash_page_id (bp_table s))(p \<mapsto> g)"
    by (rule install_page_effect [OF assms(1-3)])
  have s': "s' = ?s" using i assms(4) by simp
  have "bp_table s' = t" unfolding s' by simp
  then have "table_find q s' = Find hash_page_id t q" by (simp only: table_find_def)
  then show ?thesis by (simp only: t table_find_def fun_upd_apply)
qed

text \<open>A taken frame that is cleaned and loaded with another page.\<close>

lemma reload_keeps:
  assumes t: "taken s g L T" and c: "clean_frame g s = Inr s1" and i: "install_page g q (modify_frame g h (s1\<lparr>bp_disk := d\<rparr>)) = Inr s'"
    and p: "table_find p s = Some f" "0 < pins s p" "p \<noteq> q"
  shows "table_find p s' = Some f"
proof -
  let ?s1 = "modify_frame g h (s1\<lparr>bp_disk := d\<rparr>)"
  note cf = clean_frame_find [OF t c]
  have 1: "page_table_inv (bp_table ?s1)" "lruk_ok (length (bp_pages ?s1)) (bp_replacer ?s1)" "g \<in> frames ?s1"
    using cf(2-4) taken_g(1) [OF t] by simp_all
  have "table_find p s1 = Some f" using cf(1) [of p] taken_not_pinned [OF t p(1,2)] p(1) by simp
  then have "table_find p ?s1 = Some f" by simp
  with install_page_find [OF 1 i, of p] p(3) show ?thesis by simp
qed

lemma modify_frame_id: "modify_frame g (\<lambda>pg. pg) (s\<lparr>bp_disk := bp_disk s\<rparr>) = s"
  by (simp add: modify_frame_def)

lemma NewPg_keeps:
  assumes inv: "pool_inv s L T" and room: "unat (bp_next_page_id s) < 524287"
    and p: "table_find p s = Some f" "0 < pins s p" and r: "NewPgImp s = Inr (r, s')"
  shows "table_find p s' = Some f"
proof (cases rule: take_frame_cases [OF inv])
  case 1
  then show ?thesis using r p(1) by (simp add: NewPgImp_def)
next
  case (2 g s1)
  let ?s1 = "s1\<lparr>bp_next_page_id := bp_next_page_id s + 1\<rparr>"
  have t: "taken ?s1 g (insert (bp_next_page_id s) L) T"
    using allocate_taken(1) [OF 2(2)] room unfolding AllocatePage_def 2(7) snd_conv by simp
  have p1: "table_find p ?s1 = Some f" using p(1) 2(5) by simp
  have pins: "0 < pins ?s1 p" using p(2) 2(3) p1 p(1) by (simp add: pins_def)
  obtain s2 where c: "clean_frame g ?s1 = Inr s2" and i: "install_page g (bp_next_page_id s) s2 = Inr s'"
    using r 2(1,7) by (auto simp: NewPgImp_def AllocatePage_def ebind_def split: sum.splits)
  have "unat p < unat (bp_next_page_id s)"
    using core_find [OF inv_core [OF inv] p(1)] core_live [OF inv_core [OF inv]] by blast
  then have "p \<noteq> bp_next_page_id s" by auto
  then show ?thesis 
    using reload_keeps [where h = "\<lambda>pg. pg" and d = "bp_disk s2", OF t c _ p1 pins, unfolded modify_frame_id, OF i] by simp
qed

lemma FetchPg_keeps:
  assumes inv: "pool_inv s L T" and p: "table_find p s = Some f" "0 < pins s p" and r: "FetchPgImp q s = Inr (r, s')"
  shows "table_find p s' = Some f"
proof (cases "table_find q s")
  case (Some g)
  then have "bp_table s' = bp_table s"
    using r by (auto simp: FetchPgImp_def get_frame_def record_frame_def set_evictable_def ebind_def split: if_splits sum.splits)
  with p(1) show ?thesis by (simp only: table_find_def)
next
  case None
  then have "p \<noteq> q" using p(1) by auto
  show ?thesis
  proof (cases rule: take_frame_cases [OF inv])
    case 1
    then show ?thesis using r p(1) None by (simp add: FetchPgImp_def)
  next
    case (2 g s1)
    have p1: "table_find p s1 = Some f" using p(1) 2(5) by simp
    have pins: "0 < pins s1 p" using p(2) 2(3) p1 p(1) by (simp add: pins_def)
    obtain s2 x d where c: "clean_frame g s1 = Inr s2"
      and i: "install_page g q (modify_frame g (\<lambda>pg. pg\<lparr>pg_data := x\<rparr>) (s2\<lparr>bp_disk := d\<rparr>)) = Inr s'"
      using r 2(1) None by (auto simp: FetchPgImp_def ebind_def split: sum.splits prod.splits)
    show ?thesis by (rule reload_keeps [OF 2(2) c i p1 pins \<open>p \<noteq> q\<close>])
  qed
qed

lemma UnpinPg_frames:
  assumes "UnpinPgImp p d s = Inr (r, s')"
  shows "table_find q s' = table_find q s" "page_data f s' = page_data f s"
  using assms
  by (auto simp: UnpinPgImp_def page_data_def get_frame_def modify_frame_def set_evictable_def Let_def ebind_def table_find_def
      nth_list_update nat_eq_iff split: if_splits option.splits)

lemma full_not_spare: "pool_ok n s a \<Longrightarrow> pool_full a s \<Longrightarrow> \<not> spare n 1 a"
  by (simp add: pool_ok_def pool_full_def spare_def pinned_pages_def)

lemma pinned_pins:
  assumes rel: "cache_rel s a" and "table_find q s = Some g" and "0 < c_pins a q"
  shows "0 < pins s q"
proof -
  have "q \<in> c_live a" using core_find [OF inv_core [OF cache_relD(1) [OF rel]] assms(2)] by blast
  then show ?thesis using cache_relD(4) [OF rel] assms(3) by simp
qed

lemma pool_fetch:
  assumes ok: "pool_ok n s a" and p: "p \<in> c_live a"
  shows "(\<exists>f s'. FetchPgImp p s = Inr (Some f, s') \<and> pool_ok n s' (pin_page p a) \<and> table_find p s' = Some f \<and>
       (\<forall>q g. table_find q s = Some g \<and> 0 < c_pins a q \<longrightarrow> table_find q s' = Some g)) \<or>
     FetchPgImp p s = Inr (None, s) \<and> \<not> spare n 1 a"
proof -
  have rel: "cache_rel s a" and len: "length (bp_pages s) = n" using ok by (simp_all add: pool_ok_def)
  note inv = cache_relD(1) [OF rel]
  have keep: "table_find q s' = Some g" if "FetchPgImp p s = Inr (r, s')" "table_find q s = Some g \<and> 0 < c_pins a q" for r s' q g
    using FetchPg_keeps [OF inv _ _ that(1)] pinned_pins [OF rel] that(2) by blast
  have found: ?thesis if s': "FetchPgImp p s = Inr (Some f, s')" "pool_inv s' (c_live a) (c_touched a)" "table_find p s' = Some f"
      "\<And>q. q \<in> c_live a \<Longrightarrow> content s' q = content s q \<and> pins s' q = (if q = p then pins s p + 1 else pins s q)"
      "bp_next_page_id s' = bp_next_page_id s" for f s'
  proof -
    have "cache_rel s' (pin_page p a)" using s' cache_relD [OF rel] p by (auto simp: cache_rel_def pin_page_def)
    then have "pool_ok n s' (pin_page p a)" using FetchPg_size [OF s'(1)] len by (simp add: pool_ok_def)
    with s'(1,3) keep show ?thesis by blast
  qed
  show ?thesis
  proof (cases "table_find p s")
    case None
    then have "pins s p = 0" by (simp add: pins_def)
    show ?thesis
    proof (cases rule: FetchPg_miss [OF inv p None])
      case 1
      then show ?thesis using full_not_spare [OF ok full_answer [OF rel]] by blast
    next
      case (2 g s')
      then show ?thesis using found [of g s'] \<open>pins s p = 0\<close> by simp
    qed
  next
    case (Some f)
    obtain s' where "FetchPgImp p s = Inr (Some f, s')" "pool_inv s' (c_live a) (c_touched a)" "table_find p s' = Some f"
      "\<And>q. content s' q = content s q" "\<And>q. pins s' q = (if q = p then pins s p + 1 else pins s q)"
      "bp_next_page_id s' = bp_next_page_id s"
      by (rule FetchPg_hit [OF inv Some]) (rule that)
    then show ?thesis by (intro found [of f s']) simp_all
  qed
qed

lemma pool_create:
  assumes ok: "pool_ok n s a" and next_id: "unat (c_next a) < 524287"
  shows "(\<exists>f s'. NewPgImp s = Inr (Some (c_next a, f), s') \<and> c_next a \<notin> c_live a \<and> pool_ok n s' (add_page a) \<and>
       table_find (c_next a) s' = Some f \<and> (\<forall>q g. table_find q s = Some g \<and> 0 < c_pins a q \<longrightarrow> table_find q s' = Some g)) \<or>
     NewPgImp s = Inr (None, s) \<and> \<not> spare n 1 a"
proof -
  have rel: "cache_rel s a" and len: "length (bp_pages s) = n" using ok by (simp_all add: pool_ok_def)
  note inv = cache_relD(1) [OF rel]
  have room: "unat (bp_next_page_id s) < 524287" using cache_relD(2) [OF rel] next_id by simp
  have keep: "table_find q s' = Some g" if "NewPgImp s = Inr (r, s')" "table_find q s = Some g \<and> 0 < c_pins a q" for r s' q g
    using NewPg_keeps [OF inv room _ _ that(1)] pinned_pins [OF rel] that(2) by blast
  show ?thesis
  proof (cases rule: NewPg_ok [OF inv room])
    case 1
    then show ?thesis using full_not_spare [OF ok full_answer [OF rel]] by blast
  next
    case (2 p f s')
    have p: "p = c_next a" using 2(2) cache_relD(2) [OF rel] by simp
    have "cache_rel s' (add_page a)" using 2 cache_relD [OF rel] p by (auto simp: cache_rel_def add_page_def Let_def)
    then have "pool_ok n s' (add_page a)" using NewPg_size [OF 2(1)] len by (simp add: pool_ok_def)
    with 2(1,3,5) p keep show ?thesis by blast
  qed
qed

lemma pool_unpin:
  assumes ok: "pool_ok n s a" and p: "p \<in> c_live a" "0 < c_pins a p" "d \<or> p \<notin> c_touched a \<or> 1 < c_pins a p"
  shows "\<exists>s'. UnpinPgImp p d s = Inr (True, s') \<and> pool_ok n s' (unpin_page p d a) \<and>
    (\<lambda>q. table_find q s') = (\<lambda>q. table_find q s) \<and> (\<forall>f. page_data f s' = page_data f s)"
proof -
  have "cache_rel s a" using ok by (simp add: pool_ok_def)
  then have "simulated (Unpin_Page p d) s a" by (rule sim_Unpin) (use p in simp)
  then obtain r s' where s': "exec (Unpin_Page p d) s = Inr (r, s')" "answer_ok (Unpin_Page p d) r a s'"
    "cache_rel s' (after (Unpin_Page p d) r a)" by (auto simp: simulated_def)
  have r: "r = Done True" using s'(2) p(2) by simp
  have u: "UnpinPgImp p d s = Inr (True, s')" using s'(1) r by (auto simp: ebind_def split: sum.splits)
  have "cache_rel s' (unpin_page p d a)" using s'(3) r by (simp add: unpin_page_def)
  moreover have "length (bp_pages s') = n" using exec_size [OF s'(1)] ok by (simp add: pool_ok_def)
  ultimately show ?thesis using u UnpinPg_frames [OF u] by (auto simp: pool_ok_def)
qed

lemma pool_load:
  assumes "pool_ok n s a" and "table_find p s = Some f"
  shows "page_data f s = Inr (c_data a p) \<and> p \<in> c_live a"
proof -
  have rel: "cache_rel s a" using assms(1) by (simp add: pool_ok_def)
  note inv = cache_relD(1) [OF rel]
  have f: "f \<in> frames s" "p \<in> c_live a" using core_find [OF inv_core [OF inv] assms(2)] by blast+
  then have "page_data f s = Inr (pg_data (fr s f))" by (simp add: page_data_def)
  then show ?thesis using f found_page [OF inv assms(2)] cache_relD(3) [OF rel f(2)] by simp
qed

lemma pool_store:
  assumes ok: "pool_ok n s a" and p: "table_find p s = Some f" "0 < c_pins a p" and x: "length x = BUSTUB_PAGE_SIZE"
  shows "pool_ok n (client_store f x s) (put_page p x a) \<and> (\<lambda>q. table_find q (client_store f x s)) = (\<lambda>q. table_find q s)"
proof -
  have "cache_rel s a" using ok by (simp add: pool_ok_def)
  then have "simulated (Store_Page p x) s a" by (rule sim_Store) (use p x pool_load [OF ok p(1)] in simp)
  then have "cache_rel (client_store f x s) (put_page p x a)" using p(1) by (auto simp: simulated_def put_page_def)
  then show ?thesis using ok by (auto simp: pool_ok_def client_store_def)
qed

lemma client_store_same:
  assumes "page_data f s = Inr x"
  shows "client_store f x s = s"
proof -
  have "bp_pages s ! nat f = (bp_pages s ! nat f)\<lparr>pg_data := x\<rparr>"
    using assms by (auto simp: page_data_def get_frame_def ebind_def split: if_splits)
  then show ?thesis unfolding client_store_def modify_frame_def by (metis bpm.surjective bpm.update_convs(2) list_update_id)
qed

lemma pool_pins: "pool_ok n s a \<Longrightarrow> p \<in> c_live a \<Longrightarrow> 0 \<le> c_pins a p"
  using cache_relD(4) [of s a p] mapped_frame(7) [OF cache_relD(1), of s a p]
  by (auto simp: pool_ok_def pins_def split: option.splits)

interpretation pool: page_pool FetchPgImp UnpinPgImp NewPgImp page_data client_store "\<lambda>s q. table_find q s" pool_ok
proof (unfold_locales, goal_cases)
  case (1 n s a p)
  then show ?case by (rule pool_fetch)
next
  case (2 n s a)
  then show ?case by (rule pool_create)
next
  case (3 n s a p d)
  then show ?case by (rule pool_unpin)
next
  case (4 n s a p f)
  then show ?case by (rule pool_load)
next
  case (5 n s a p f x)
  then show ?case by (rule pool_store)
next
  case (6 f s x)
  then show ?case by (rule client_store_same)
next
  case (7 n s a p)
  then show ?case by (rule pool_pins)
qed

lemma new_pool_ok: "1 \<le> k \<Longrightarrow> n < 2147483648 \<Longrightarrow> pool_ok n (new_bpm n (new_disk_manager [] []) k) empty_cache"
  by (simp add: pool_ok_def new_bpm_rel) (simp add: new_bpm_def)

end
