(* ===== verification/Transaction.thy ===== *)
theory Transaction
  imports Table_Page
begin

text \<open>
  Transactions (\<^verbatim>\<open>include/concurrency/transaction.h\<close>): state, write sets and lock sets, the reasons of
  an abort, and the locks that \<^verbatim>\<open>TransactionManager::ReleaseLocks\<close> gives back.  The part that a table
  page changes (state and last log sequence number) is the record of the page theory, extended
  here.  The hash sets of the code are sets and maps.  The thread id, the latch of a transaction and
  the pointer of an index record to the one catalog have no counterpart.  The lemmas: the
  locks released are exactly those held.
\<close>

section \<open>Write records\<close>

datatype isolation_level = READ_UNCOMMITTED | REPEATABLE_READ | READ_COMMITTED

datatype wtype = W_INSERT | W_DELETE | W_UPDATE

text \<open>A table heap is its first page; its pool, lock manager and log manager are those of the system.\<close>

record table_heap =
  first_page_id :: page_id

record table_write_record =
  tw_rid :: RID
  tw_type :: wtype
  tw_tuple :: tuple
  tw_table :: table_heap

type_synonym table_oid = "32 word"
type_synonym index_oid = "32 word"

record index_write_record =
  iw_rid :: RID
  iw_table_oid :: table_oid
  iw_type :: wtype
  iw_tuple :: tuple
  iw_old_tuple :: tuple
  iw_index_oid :: index_oid

definition new_index_write_record :: "RID \<Rightarrow> table_oid \<Rightarrow> wtype \<Rightarrow> tuple \<Rightarrow> index_oid \<Rightarrow> index_write_record" where
  "new_index_write_record rid table_oid w t index_oid =
     \<lparr>iw_rid = rid, iw_table_oid = table_oid, iw_type = w, iw_tuple = t, iw_old_tuple = Tuple_default, iw_index_oid = index_oid\<rparr>"

section \<open>Transactions\<close>

record transaction = txn +
  isolation :: isolation_level
  txn_id :: "32 word"
  table_write_set :: "table_write_record list"
  index_write_set :: "index_write_record list"
  page_set :: "frame_id list"
  deleted_page_set :: "page_id set"
  shared_lock_set :: "RID set"
  exclusive_lock_set :: "RID set"
  s_table_lock_set :: "table_oid set"
  x_table_lock_set :: "table_oid set"
  is_table_lock_set :: "table_oid set"
  ix_table_lock_set :: "table_oid set"
  six_table_lock_set :: "table_oid set"
  s_row_lock_set :: "table_oid \<rightharpoonup> RID set"
  x_row_lock_set :: "table_oid \<rightharpoonup> RID set"

definition new_transaction :: "32 word \<Rightarrow> isolation_level \<Rightarrow> transaction" where
  "new_transaction i level =
     \<lparr>txn_state = GROWING, prev_lsn = INVALID_LSN, isolation = level, txn_id = i, table_write_set = [], index_write_set = [],
      page_set = [], deleted_page_set = {}, shared_lock_set = {}, exclusive_lock_set = {}, s_table_lock_set = {},
      x_table_lock_set = {}, is_table_lock_set = {}, ix_table_lock_set = {}, six_table_lock_set = {},
      s_row_lock_set = Map.empty, x_row_lock_set = Map.empty\<rparr>"

definition SetState :: "txn_state \<Rightarrow> 'z txn_scheme \<Rightarrow> 'z txn_scheme" where
  "SetState st t = t\<lparr>txn_state := st\<rparr>"

definition AppendTableWriteRecord :: "table_write_record \<Rightarrow> transaction \<Rightarrow> transaction" where
  "AppendTableWriteRecord w t = t\<lparr>table_write_set := table_write_set t @ [w]\<rparr>"

definition AppendIndexWriteRecord :: "index_write_record \<Rightarrow> transaction \<Rightarrow> transaction" where
  "AppendIndexWriteRecord w t = t\<lparr>index_write_set := index_write_set t @ [w]\<rparr>"

definition AddIntoPageSet :: "frame_id \<Rightarrow> transaction \<Rightarrow> transaction" where
  "AddIntoPageSet f t = t\<lparr>page_set := page_set t @ [f]\<rparr>"

definition AddIntoDeletedPageSet :: "page_id \<Rightarrow> transaction \<Rightarrow> transaction" where
  "AddIntoDeletedPageSet p t = t\<lparr>deleted_page_set := insert p (deleted_page_set t)\<rparr>"

definition IsRowSharedLocked :: "table_oid \<Rightarrow> RID \<Rightarrow> transaction \<Rightarrow> bool" where
  "IsRowSharedLocked oid rid t = (case s_row_lock_set t oid of None \<Rightarrow> False | Some rids \<Rightarrow> rid \<in> rids)"

definition IsRowExclusiveLocked :: "table_oid \<Rightarrow> RID \<Rightarrow> transaction \<Rightarrow> bool" where
  "IsRowExclusiveLocked oid rid t = (case x_row_lock_set t oid of None \<Rightarrow> False | Some rids \<Rightarrow> rid \<in> rids)"

definition IsTableIntentionSharedLocked :: "table_oid \<Rightarrow> transaction \<Rightarrow> bool" where
  "IsTableIntentionSharedLocked oid t \<longleftrightarrow> oid \<in> is_table_lock_set t"

definition IsTableSharedLocked :: "table_oid \<Rightarrow> transaction \<Rightarrow> bool" where
  "IsTableSharedLocked oid t \<longleftrightarrow> oid \<in> s_table_lock_set t"

definition IsTableIntentionExclusiveLocked :: "table_oid \<Rightarrow> transaction \<Rightarrow> bool" where
  "IsTableIntentionExclusiveLocked oid t \<longleftrightarrow> oid \<in> ix_table_lock_set t"

definition IsTableExclusiveLocked :: "table_oid \<Rightarrow> transaction \<Rightarrow> bool" where
  "IsTableExclusiveLocked oid t \<longleftrightarrow> oid \<in> x_table_lock_set t"

definition IsTableSharedIntentionExclusiveLocked :: "table_oid \<Rightarrow> transaction \<Rightarrow> bool" where
  "IsTableSharedIntentionExclusiveLocked oid t \<longleftrightarrow> oid \<in> six_table_lock_set t"

section \<open>Reasons of an abort\<close>

datatype abort_reason =
    LOCK_ON_SHRINKING
  | UPGRADE_CONFLICT
  | DEADLOCK
  | LOCK_SHARED_ON_READ_UNCOMMITTED
  | TABLE_LOCK_NOT_PRESENT
  | ATTEMPTED_INTENTION_LOCK_ON_ROW
  | TABLE_UNLOCKED_BEFORE_UNLOCKING_ROWS
  | INCOMPATIBLE_UPGRADE
  | ATTEMPTED_UNLOCK_BUT_NO_LOCK_HELD

definition newline :: string where
  "newline = [CHR 0x0A]"

definition GetInfo :: "32 word \<Rightarrow> abort_reason \<Rightarrow> string" where
  "GetInfo i reason = ''Transaction '' @ to_string (sint i) @ (case reason of
       LOCK_ON_SHRINKING \<Rightarrow> '' aborted because it can not take locks in the shrinking state''
     | UPGRADE_CONFLICT \<Rightarrow> '' aborted because another transaction is already waiting to upgrade its lock''
     | DEADLOCK \<Rightarrow> '' aborted on deadlock''
     | LOCK_SHARED_ON_READ_UNCOMMITTED \<Rightarrow> '' aborted on lockshared on READ_UNCOMMITTED''
     | TABLE_LOCK_NOT_PRESENT \<Rightarrow> '' aborted because table lock not present''
     | ATTEMPTED_INTENTION_LOCK_ON_ROW \<Rightarrow> '' aborted because intention lock attempted on row''
     | TABLE_UNLOCKED_BEFORE_UNLOCKING_ROWS \<Rightarrow> '' aborted because table locks dropped before dropping row locks''
     | INCOMPATIBLE_UPGRADE \<Rightarrow> '' aborted because attempted lock upgrade is incompatible''
     | ATTEMPTED_UNLOCK_BUT_NO_LOCK_HELD \<Rightarrow> '' aborted because attempted to unlock but no lock held '') @ newline"

section \<open>Releasing locks\<close>

text \<open>\<^verbatim>\<open>ReleaseLocks\<close> collects two sets and calls the lock manager once for each member.  The methods of
  the lock manager return true and do nothing, so the effect of the function is the calls it makes.\<close>

definition row_locks :: "transaction \<Rightarrow> (table_oid \<times> RID) set" where
  "row_locks t = {(oid, rid). \<exists>rids. s_row_lock_set t oid = Some rids \<and> rid \<in> rids} \<union>
     {(oid, rid). \<exists>rids. x_row_lock_set t oid = Some rids \<and> rid \<in> rids}"

definition table_locks :: "transaction \<Rightarrow> table_oid set" where
  "table_locks t = s_table_lock_set t \<union> is_table_lock_set t \<union> x_table_lock_set t \<union> ix_table_lock_set t \<union> six_table_lock_set t"

record lock_calls =
  unlocked_rows :: "(table_oid \<times> RID) set"
  unlocked_tables :: "table_oid set"

definition ReleaseLocks :: "transaction \<Rightarrow> lock_calls" where
  "ReleaseLocks t = \<lparr>unlocked_rows = row_locks t, unlocked_tables = table_locks t\<rparr>"

lemma row_locks_iff: "(oid, rid) \<in> row_locks t \<longleftrightarrow> IsRowSharedLocked oid rid t \<or> IsRowExclusiveLocked oid rid t"
  by (auto simp: row_locks_def IsRowSharedLocked_def IsRowExclusiveLocked_def split: option.splits)

lemma table_locks_iff:
  "oid \<in> table_locks t \<longleftrightarrow> IsTableSharedLocked oid t \<or> IsTableIntentionSharedLocked oid t \<or> IsTableExclusiveLocked oid t \<or>
     IsTableIntentionExclusiveLocked oid t \<or> IsTableSharedIntentionExclusiveLocked oid t"
  by (auto simp: table_locks_def IsTableSharedLocked_def IsTableIntentionSharedLocked_def IsTableExclusiveLocked_def
      IsTableIntentionExclusiveLocked_def IsTableSharedIntentionExclusiveLocked_def)

end
