(* ===== verification/Table_Heap.thy ===== *)
theory Table_Heap
  imports Page_Access Transaction
begin

text \<open>
  Tables (\<^verbatim>\<open>storage/table/table_heap.cpp\<close>, \<^verbatim>\<open>storage/table/table_iterator.cpp\<close>): a chain of slotted pages
  in the buffer pool.  Every operation is written as the calls it makes: it fetches a page, works
  on the bytes of the frame with the operations of the page theory, and unpins the page; nothing
  else is shared.  A page pointer is the frame it points into; using a null pointer is an error
  value.  The two searches along the chain are partial functions, as a cyclic chain would not end.
  Page latches have no counterpart: an operation runs without interference.
\<close>

section \<open>Calls of the pool and of the page\<close>

text \<open>An error of the pool, of a page, or the release of a latch that is not held.\<close>

datatype db_error = Pool_Error bpm_error | Page_Error exc | Latch_Not_Held

definition pool_call :: "bpm_error + 'a \<Rightarrow> db_error + 'a" where
  "pool_call r = (case r of Inl e \<Rightarrow> Inl (Pool_Error e) | Inr x \<Rightarrow> Inr x)"

definition page_call :: "exc + 'a \<Rightarrow> db_error + 'a" where
  "page_call r = (case r of Inl e \<Rightarrow> Inl (Page_Error e) | Inr x \<Rightarrow> Inr x)"

text \<open>A call through a page pointer that reads the page, and one that may change it.\<close>

definition read_page :: "frame_id \<Rightarrow> (byte list \<Rightarrow> exc + 'a) \<Rightarrow> bpm \<Rightarrow> db_error + 'a" where
  "read_page f get s = ebind (pool_call (page_data f s)) (\<lambda>d. page_call (get d))"

definition update_page :: "frame_id \<Rightarrow> (byte list \<Rightarrow> exc + 'a \<times> byte list) \<Rightarrow> bpm \<Rightarrow> db_error + 'a \<times> bpm" where
  "update_page f act s = ebind (pool_call (page_data f s)) (\<lambda>d.
     ebind (page_call (act d)) (\<lambda>(r, d). Inr (r, client_store f d s)))"

lemma pool_call_simps [simp]: "pool_call (Inr x) = Inr x" "pool_call (Inl e) = Inl (Pool_Error e)"
  by (simp_all add: pool_call_def)

lemma page_call_simps [simp]: "page_call (Inr x) = Inr x" "page_call (Inl e) = Inl (Page_Error e)"
  by (simp_all add: page_call_def)

section \<open>The table heap\<close>

definition new_TableHeap :: "bool \<Rightarrow> transaction \<Rightarrow> bpm \<Rightarrow> db_error + table_heap \<times> transaction \<times> bpm" where
  "new_TableHeap lg t s =
     ebind (pool_call (NewPgImp s)) (\<lambda>(r, s). case r of
       None \<Rightarrow> Inl (Page_Error Assert_Failed)
     | Some (p, f) \<Rightarrow>
         ebind (update_page f (TablePage_Init lg p (int BUSTUB_PAGE_SIZE) (word_of_int INVALID_LSN) t) s) (\<lambda>(t, s).
         ebind (pool_call (UnpinPgImp p True s)) (\<lambda>(_, s).
         Inr (\<lparr>first_page_id = p\<rparr>, t, s))))"

text \<open>One turn of the loop of \<^verbatim>\<open>InsertTuple\<close>: the tuple is placed on the current page, or the next
  page is fetched, or a new page is linked, or there is no frame for one.\<close>

datatype insert_result =
    Placed RID transaction frame_id bpm
  | Next_Page transaction frame_id bpm
  | No_Page transaction bpm

definition insert_step :: "bool \<Rightarrow> tuple \<Rightarrow> transaction \<Rightarrow> frame_id \<Rightarrow> bpm \<Rightarrow> db_error + insert_result" where
  "insert_step lg tup t cur s =
     ebind (update_page cur (TablePage_InsertTuple tup) s) (\<lambda>(r, s). case r of
       Some rid \<Rightarrow> Inr (Placed rid t cur s)
     | None \<Rightarrow> ebind (read_page cur GetNextPageId s) (\<lambda>next_page_id.
         if next_page_id \<noteq> INVALID_PAGE_ID then
           ebind (read_page cur GetTablePageId s) (\<lambda>p.
           ebind (pool_call (UnpinPgImp p False s)) (\<lambda>(_, s).
           ebind (pool_call (FetchPgImp next_page_id s)) (\<lambda>(r, s). case r of
             None \<Rightarrow> Inl (Page_Error Null_Deref)
           | Some f \<Rightarrow> Inr (Next_Page t f s))))
         else
           ebind (pool_call (NewPgImp s)) (\<lambda>(r, s). case r of
             None \<Rightarrow>
               ebind (read_page cur GetTablePageId s) (\<lambda>p.
               ebind (pool_call (UnpinPgImp p False s)) (\<lambda>(_, s).
               Inr (No_Page (SetState ABORTED t) s)))
           | Some (next_page_id, new_f) \<Rightarrow>
               ebind (update_page cur (\<lambda>d. ebind (SetNextPageId next_page_id d) (\<lambda>d. Inr ((), d))) s) (\<lambda>(_, s).
               ebind (read_page cur GetTablePageId s) (\<lambda>prev_page_id.
               ebind (update_page new_f (TablePage_Init lg next_page_id (int BUSTUB_PAGE_SIZE) prev_page_id t) s) (\<lambda>(t, s).
               ebind (read_page cur GetTablePageId s) (\<lambda>p.
               ebind (pool_call (UnpinPgImp p True s)) (\<lambda>(_, s).
               Inr (Next_Page t new_f s)))))))))"

partial_function (option) insert_loop :: "bool \<Rightarrow> tuple \<Rightarrow> transaction \<Rightarrow> frame_id \<Rightarrow> bpm \<Rightarrow> (db_error + insert_result) option" where
  "insert_loop lg tup t cur s = (case insert_step lg tup t cur s of
       Inr (Next_Page t f s) \<Rightarrow> insert_loop lg tup t f s
     | r \<Rightarrow> Some r)"

definition TableHeap_InsertTuple ::
  "bool \<Rightarrow> table_heap \<Rightarrow> tuple \<Rightarrow> transaction \<Rightarrow> bpm \<Rightarrow> (db_error + RID option \<times> transaction \<times> bpm) option" where
  "TableHeap_InsertTuple lg h tup t s =
     (if u32 (tuple_size tup + 32) > int BUSTUB_PAGE_SIZE then Some (Inr (None, SetState ABORTED t, s))
      else case pool_call (FetchPgImp (first_page_id h) s) of
        Inl e \<Rightarrow> Some (Inl e)
      | Inr (None, s) \<Rightarrow> Some (Inr (None, SetState ABORTED t, s))
      | Inr (Some f, s) \<Rightarrow> (case insert_loop lg tup t f s of
            None \<Rightarrow> None
          | Some (Inr (Placed rid t cur s)) \<Rightarrow> Some (
              ebind (read_page cur GetTablePageId s) (\<lambda>p.
              ebind (pool_call (UnpinPgImp p True s)) (\<lambda>(_, s).
              Inr (Some rid, AppendTableWriteRecord \<lparr>tw_rid = rid, tw_type = W_INSERT, tw_tuple = Tuple_default, tw_table = h\<rparr> t, s))))
          | Some (Inr (No_Page t s)) \<Rightarrow> Some (Inr (None, t, s))
          | Some (Inr (Next_Page t f s)) \<Rightarrow> None
          | Some (Inl e) \<Rightarrow> Some (Inl e)))"

definition TableHeap_MarkDelete :: "bool \<Rightarrow> table_heap \<Rightarrow> RID \<Rightarrow> transaction \<Rightarrow> bpm \<Rightarrow> db_error + bool \<times> transaction \<times> bpm" where
  "TableHeap_MarkDelete lg h rid t s =
     ebind (pool_call (FetchPgImp (rid_page_id rid) s)) (\<lambda>(r, s). case r of
       None \<Rightarrow> Inr (False, SetState ABORTED t, s)
     | Some f \<Rightarrow>
         ebind (update_page f (\<lambda>d. ebind (TablePage_MarkDelete lg rid t d) (\<lambda>(_, t, d). Inr (t, d))) s) (\<lambda>(t, s).
         ebind (read_page f GetTablePageId s) (\<lambda>p.
         ebind (pool_call (UnpinPgImp p True s)) (\<lambda>(_, s).
         Inr (True, AppendTableWriteRecord \<lparr>tw_rid = rid, tw_type = W_DELETE, tw_tuple = Tuple_default, tw_table = h\<rparr> t, s)))))"

definition TableHeap_UpdateTuple ::
  "bool \<Rightarrow> table_heap \<Rightarrow> tuple \<Rightarrow> RID \<Rightarrow> transaction \<Rightarrow> bpm \<Rightarrow> db_error + bool \<times> transaction \<times> bpm" where
  "TableHeap_UpdateTuple lg h tup rid t s =
     ebind (pool_call (FetchPgImp (rid_page_id rid) s)) (\<lambda>(r, s). case r of
       None \<Rightarrow> Inr (False, SetState ABORTED t, s)
     | Some f \<Rightarrow>
         ebind (update_page f (\<lambda>d. ebind (TablePage_UpdateTuple lg tup rid t d) (\<lambda>(old, t, d). Inr ((old, t), d))) s) (\<lambda>((old, t), s).
         ebind (read_page f GetTablePageId s) (\<lambda>p.
         ebind (pool_call (UnpinPgImp p (old \<noteq> None) s)) (\<lambda>(_, s).
         Inr (case old of
             None \<Rightarrow> (False, t, s)
           | Some old_tuple \<Rightarrow>
               (True,
                if txn_state t \<noteq> ABORTED
                then AppendTableWriteRecord \<lparr>tw_rid = rid, tw_type = W_UPDATE, tw_tuple = old_tuple, tw_table = h\<rparr> t
                else t, s))))))"

definition TableHeap_ApplyDelete :: "RID \<Rightarrow> bpm \<Rightarrow> db_error + bpm" where
  "TableHeap_ApplyDelete rid s =
     ebind (pool_call (FetchPgImp (rid_page_id rid) s)) (\<lambda>(r, s). case r of
       None \<Rightarrow> Inl (Page_Error Assert_Failed)
     | Some f \<Rightarrow>
         ebind (update_page f (\<lambda>d. ebind (TablePage_ApplyDelete rid d) (\<lambda>d. Inr ((), d))) s) (\<lambda>(_, s).
         ebind (read_page f GetTablePageId s) (\<lambda>p.
         ebind (pool_call (UnpinPgImp p True s)) (\<lambda>(_, s). Inr s))))"

definition TableHeap_RollbackDelete :: "RID \<Rightarrow> bpm \<Rightarrow> db_error + bpm" where
  "TableHeap_RollbackDelete rid s =
     ebind (pool_call (FetchPgImp (rid_page_id rid) s)) (\<lambda>(r, s). case r of
       None \<Rightarrow> Inl (Page_Error Assert_Failed)
     | Some f \<Rightarrow>
         ebind (update_page f (\<lambda>d. ebind (TablePage_RollbackDelete rid d) (\<lambda>d. Inr ((), d))) s) (\<lambda>(_, s).
         ebind (read_page f GetTablePageId s) (\<lambda>p.
         ebind (pool_call (UnpinPgImp p True s)) (\<lambda>(_, s). Inr s))))"

text \<open>The tuple is an output that is set when the result is true.\<close>

definition TableHeap_GetTuple :: "bool \<Rightarrow> RID \<Rightarrow> transaction \<Rightarrow> bpm \<Rightarrow> db_error + tuple option \<times> transaction \<times> bpm" where
  "TableHeap_GetTuple lg rid t s =
     ebind (pool_call (FetchPgImp (rid_page_id rid) s)) (\<lambda>(r, s). case r of
       None \<Rightarrow> Inr (None, SetState ABORTED t, s)
     | Some f \<Rightarrow>
         ebind (read_page f (TablePage_GetTuple lg rid t) s) (\<lambda>(res, t).
         ebind (pool_call (UnpinPgImp (rid_page_id rid) False s)) (\<lambda>(_, s).
         Inr (res, t, s))))"

section \<open>Iterators\<close>

record table_iterator =
  it_heap :: table_heap
  it_tuple :: tuple

text \<open>\<^verbatim>\<open>GetTuple\<close> into the tuple of the iterator.\<close>

definition load_tuple :: "bool \<Rightarrow> tuple \<Rightarrow> transaction \<Rightarrow> bpm \<Rightarrow> db_error + tuple \<times> transaction \<times> bpm" where
  "load_tuple lg tup t s = ebind (TableHeap_GetTuple lg (t_rid tup) t s) (\<lambda>(r, t, s).
     Inr (case r of None \<Rightarrow> tup | Some tup' \<Rightarrow> tup', t, s))"

definition new_TableIterator :: "bool \<Rightarrow> table_heap \<Rightarrow> RID \<Rightarrow> transaction \<Rightarrow> bpm \<Rightarrow> db_error + table_iterator \<times> transaction \<times> bpm" where
  "new_TableIterator lg h rid t s =
     (if rid_page_id rid \<noteq> INVALID_PAGE_ID
      then ebind (load_tuple lg (Tuple_rid rid) t s) (\<lambda>(tup, t, s). Inr (\<lparr>it_heap = h, it_tuple = tup\<rparr>, t, s))
      else Inr (\<lparr>it_heap = h, it_tuple = Tuple_rid rid\<rparr>, t, s))"

partial_function (option) begin_loop :: "page_id \<Rightarrow> bpm \<Rightarrow> (db_error + RID \<times> bpm) option" where
  "begin_loop page_id s =
     (if page_id = INVALID_PAGE_ID then Some (Inr (RID_default, s))
      else case ebind (pool_call (FetchPgImp page_id s)) (\<lambda>(r, s). case r of
            None \<Rightarrow> Inl (Page_Error Null_Deref)
          | Some f \<Rightarrow>
              ebind (read_page f GetFirstTupleRid s) (\<lambda>(found_tuple, rid).
              ebind (pool_call (UnpinPgImp page_id False s)) (\<lambda>(_, s). Inr (found_tuple, rid, f, s)))) of
          Inl e \<Rightarrow> Some (Inl e)
        | Inr (found_tuple, rid, f, s) \<Rightarrow>
            if found_tuple then Some (Inr (rid, s))
            else case read_page f GetNextPageId s of
                Inl e \<Rightarrow> Some (Inl e)
              | Inr next_page_id \<Rightarrow> begin_loop next_page_id s)"

definition TableHeap_Begin :: "bool \<Rightarrow> table_heap \<Rightarrow> transaction \<Rightarrow> bpm \<Rightarrow> (db_error + table_iterator \<times> transaction \<times> bpm) option" where
  "TableHeap_Begin lg h t s = (case begin_loop (first_page_id h) s of
       None \<Rightarrow> None
     | Some (Inl e) \<Rightarrow> Some (Inl e)
     | Some (Inr (rid, s)) \<Rightarrow> Some (new_TableIterator lg h rid t s))"

definition TableHeap_End :: "table_heap \<Rightarrow> table_iterator" where
  "TableHeap_End h = \<lparr>it_heap = h, it_tuple = Tuple_rid \<lparr>rid_page_id = INVALID_PAGE_ID, rid_slot_num = 0\<rparr>\<rparr>"

definition iterator_eq :: "table_iterator \<Rightarrow> table_iterator \<Rightarrow> bool" where
  "iterator_eq i j \<longleftrightarrow> RID_Get (t_rid (it_tuple i)) = RID_Get (t_rid (it_tuple j))"

text \<open>The pages after the current one, for the first that holds a tuple.\<close>

partial_function (option) next_loop :: "frame_id \<Rightarrow> RID \<Rightarrow> bpm \<Rightarrow> (db_error + RID \<times> frame_id \<times> bpm) option" where
  "next_loop cur rid s = (case read_page cur GetNextPageId s of
       Inl e \<Rightarrow> Some (Inl e)
     | Inr next_page_id \<Rightarrow>
         if next_page_id = INVALID_PAGE_ID then Some (Inr (rid, cur, s))
         else case ebind (pool_call (FetchPgImp next_page_id s)) (\<lambda>(r, s).
               ebind (read_page cur GetTablePageId s) (\<lambda>p.
               ebind (pool_call (UnpinPgImp p False s)) (\<lambda>(_, s). case r of
                 None \<Rightarrow> Inl (Page_Error Null_Deref)
               | Some f \<Rightarrow> ebind (read_page f GetFirstTupleRid s) (\<lambda>(found, rid). Inr (found, rid, f, s))))) of
             Inl e \<Rightarrow> Some (Inl e)
           | Inr (found, rid, f, s) \<Rightarrow> if found then Some (Inr (rid, f, s)) else next_loop f rid s)"

definition TableIterator_next :: "bool \<Rightarrow> table_iterator \<Rightarrow> transaction \<Rightarrow> bpm \<Rightarrow> (db_error + table_iterator \<times> transaction \<times> bpm) option" where
  "TableIterator_next lg it t s =
     (case ebind (pool_call (FetchPgImp (rid_page_id (t_rid (it_tuple it))) s)) (\<lambda>(r, s). case r of
          None \<Rightarrow> Inl (Page_Error Null_Deref)
        | Some f \<Rightarrow> ebind (read_page f (GetNextTupleRid (t_rid (it_tuple it))) s) (\<lambda>(found, rid). Inr (found, rid, f, s))) of
       Inl e \<Rightarrow> Some (Inl e)
     | Inr (found, rid, f, s) \<Rightarrow> (case if found then Some (Inr (rid, f, s)) else next_loop f rid s of
           None \<Rightarrow> None
         | Some (Inl e) \<Rightarrow> Some (Inl e)
         | Some (Inr (rid, cur, s)) \<Rightarrow> Some (
             let it = it\<lparr>it_tuple := (it_tuple it)\<lparr>t_rid := rid\<rparr>\<rparr> in
             ebind (if \<not> iterator_eq it (TableHeap_End (it_heap it)) then load_tuple lg (it_tuple it) t s
                    else Inr (it_tuple it, t, s)) (\<lambda>(tup, t, s).
             ebind (read_page cur GetTablePageId s) (\<lambda>p.
             ebind (pool_call (UnpinPgImp p False s)) (\<lambda>(_, s).
             Inr (it\<lparr>it_tuple := tup\<rparr>, t, s)))))))"

text \<open>The loop \<^verbatim>\<open>for (auto tuple = heap->Begin(txn); tuple != heap->End(); ++tuple)\<close> of \<^verbatim>\<open>Catalog::CreateIndex\<close>, with its
  body as an argument.\<close>

partial_function (option) for_tuples ::
  "bool \<Rightarrow> (tuple \<Rightarrow> 'x \<times> transaction \<times> bpm \<Rightarrow> db_error + 'x \<times> transaction \<times> bpm) \<Rightarrow> table_iterator \<Rightarrow> 'x \<times> transaction \<times> bpm \<Rightarrow>
     (db_error + 'x \<times> transaction \<times> bpm) option" where
  "for_tuples lg body it st =
     (if iterator_eq it (TableHeap_End (it_heap it)) then Some (Inr st)
      else case body (it_tuple it) st of
          Inl e \<Rightarrow> Some (Inl e)
        | Inr (x, t, s) \<Rightarrow> (case TableIterator_next lg it t s of
              None \<Rightarrow> None
            | Some (Inl e) \<Rightarrow> Some (Inl e)
            | Some (Inr (it, t, s)) \<Rightarrow> for_tuples lg body it (x, t, s)))"

end
