(* ===== verification/Table_Heap_Spec.thy ===== *)
theory Table_Heap_Spec
  imports Table_Heap Table_Page_Spec
begin

text \<open>
  Tables as lists of abstract pages.  A table is represented when the pages of its chain, linked in
  order, are in use in the pool, reported as dirty where they were changed, and decode to the
  abstract pages.  Every operation of the table heap, through the buffer pool and on the bytes of its
  frames, gives the result of the operation on the abstract table, leaves its representation, and
  changes no other page and no pin.
\<close>

section \<open>The page header\<close>

lemma is_page_length: "is_page d p \<Longrightarrow> length d = BUSTUB_PAGE_SIZE"
  by (auto simp: is_page_def rep_def BUSTUB_PAGE_SIZE_def)

lemma is_page_header:
  assumes "is_page d p"
  shows "GetTablePageId d = Inr (ap_id p)" "GetNextPageId d = Inr (ap_next p)"
  using assms read_header(1)
  by (auto simp: is_page_def page_of_def GetNextPageId_def read32_ok page_layout rep_def)

lemma SetNextPageId_is_page:
  assumes "is_page d p"
  shows "\<exists>d'. SetNextPageId q d = Inr d' \<and> is_page d' (p\<lparr>ap_next := q\<rparr>)"
proof -
  obtain v where v: "rep d v" "view_ok v" "p = page_of v" using assms by (auto simp: is_page_def)
  let ?d = "mem_splice d 12 (le_bytes 4 (uint q))"
  have u: "u32 (uint q) = uint q" using uint_bounded [of q] by simp
  have "SetNextPageId q d = Inr ?d" using v(1) by (simp add: SetNextPageId_def page_layout write32_ok rep_def)
  moreover have "rep ?d (v\<lparr>v_next := uint q\<rparr>)"
    using v(1) u unfolding rep_def by (auto simp: word32_splice_other word32_splice_same nth_splice)
  moreover have "view_ok (v\<lparr>v_next := uint q\<rparr>)" using v(2) by (simp add: view_ok_def)
  moreover have "page_of (v\<lparr>v_next := uint q\<rparr>) = p\<lparr>ap_next := q\<rparr>" using v(3) by (simp add: page_of_def slots_def slot_of_def)
  ultimately show ?thesis using is_pageI by metis
qed

lemma InsertTuple_refused_same: "TablePage_InsertTuple tup d = Inr (None, d') \<Longrightarrow> d' = d"
  by (auto simp: TablePage_InsertTuple_def assert_that_def ebind_def split: if_splits sum.splits)

lemma UpdateTuple_refused_same: "TablePage_UpdateTuple lg tup rid t d = Inr (None, t', d') \<Longrightarrow> d' = d"
  by (auto simp: TablePage_UpdateTuple_def assert_that_def Let_def ebind_def split: if_splits sum.splits)

section \<open>The abstract table\<close>

text \<open>The pages of the chain, each linked to the next.\<close>

fun linked :: "apage list \<Rightarrow> bool" where
  "linked [] = True"
| "linked [p] = (ap_next p = INVALID_PAGE_ID)"
| "linked (p # q # ps) = (ap_next p = ap_id q \<and> linked (q # ps))"

definition page_at :: "page_id \<Rightarrow> apage list \<Rightarrow> apage option" where
  "page_at i ps = find (\<lambda>p. ap_id p = i) ps"

definition put_apage :: "apage \<Rightarrow> apage list \<Rightarrow> apage list" where
  "put_apage p ps = map (\<lambda>q. if ap_id q = ap_id p then p else q) ps"

definition fits_on :: "byte list \<Rightarrow> apage \<Rightarrow> bool" where
  "fits_on bs p \<longleftrightarrow> int (length bs) + 8 \<le> room (ap_slots p)"

text \<open>Insertion of bytes into a page with room: the first free slot, or a new one.\<close>

definition place_tuple :: "byte list \<Rightarrow> apage \<Rightarrow> RID \<times> apage" where
  "place_tuple bs p = (case first_slot (\<lambda>s. s = Free) 0 (ap_slots p) of
       Some i \<Rightarrow> (\<lparr>rid_page_id = ap_id p, rid_slot_num = word_of_nat i\<rparr>, p\<lparr>ap_slots := (ap_slots p)[i := Slot False bs]\<rparr>)
     | None \<Rightarrow> (\<lparr>rid_page_id = ap_id p, rid_slot_num = word_of_nat (length (ap_slots p))\<rparr>, p\<lparr>ap_slots := ap_slots p @ [Slot False bs]\<rparr>))"

text \<open>Insertion into the first page of the chain with room, or into a new last page \<open>i\<close>.\<close>

fun table_insert_at :: "byte list \<Rightarrow> page_id \<Rightarrow> apage list \<Rightarrow> RID \<times> apage list" where
  "table_insert_at bs i [] = (RID_default, [])"
| "table_insert_at bs i (p # ps) =
     (if fits_on bs p then (case place_tuple bs p of (rid, p) \<Rightarrow> (rid, p # ps))
      else if ps = [] then (case place_tuple bs (empty_apage i (ap_id p)) of (rid, q) \<Rightarrow> (rid, [p\<lparr>ap_next := i\<rparr>, q]))
      else (case table_insert_at bs i ps of (rid, ps) \<Rightarrow> (rid, p # ps)))"

definition heap_pages :: "cache \<Rightarrow> apage list \<Rightarrow> bool" where
  "heap_pages a ps \<longleftrightarrow> (\<forall>p \<in> set ps. ap_id p \<in> c_live a \<and> ap_id p \<notin> c_touched a \<and> is_page (c_data a (ap_id p)) p)"

definition heap_ok :: "table_heap \<Rightarrow> cache \<Rightarrow> apage list \<Rightarrow> bool" where
  "heap_ok h a ps \<longleftrightarrow> ps \<noteq> [] \<and> first_page_id h = ap_id (hd ps) \<and> linked ps \<and> distinct (map ap_id ps) \<and> heap_pages a ps"

text \<open>What an operation leaves alone: every page outside \<open>P\<close>, and every pin.\<close>

definition only_changes :: "page_id set \<Rightarrow> cache \<Rightarrow> cache \<Rightarrow> bool" where
  "only_changes P a a' \<longleftrightarrow> c_touched a' \<subseteq> c_touched a \<and> c_live a \<subseteq> c_live a' \<and>
     (\<forall>q \<in> c_live a. c_pins a' q = c_pins a q) \<and> (\<forall>q \<in> c_live a' - c_live a. c_pins a' q = 0) \<and>
     (\<forall>q \<in> c_live a - P. c_data a' q = c_data a q)"

lemma only_changes_refl: "only_changes P a a"
  by (simp add: only_changes_def)

lemma only_changes_data: "p \<in> P \<Longrightarrow> only_changes P a (a\<lparr>c_data := (c_data a)(p := x)\<rparr>)"
  by (auto simp: only_changes_def)

lemma only_changes_spare:
  assumes "only_changes P a a'"
  shows "spare n k a' = spare n k a"
proof -
  have "pinned_pages a' = pinned_pages a" using assms unfolding only_changes_def pinned_pages_def
    by (intro Collect_cong) (metis DiffI less_irrefl subsetD)
  then show ?thesis by (simp add: spare_def)
qed

lemma put_apage_ids [simp]: "map ap_id (put_apage p ps) = map ap_id ps"
  by (simp add: put_apage_def)

lemma put_apage_Nil [simp]: "put_apage p ps = [] \<longleftrightarrow> ps = []"
  by (simp add: put_apage_def)

lemma put_apage_split:
  assumes "distinct (map ap_id (pre @ p # rest))" and "ap_id p' = ap_id p"
  shows "put_apage p' (pre @ p # rest) = pre @ p' # rest"
  using assms by (auto simp: put_apage_def intro!: map_idI) (metis image_eqI)+

lemma linked_put:
  assumes "linked (pre @ p # rest)" and "ap_id p' = ap_id p" and "ap_next p' = ap_next p"
  shows "linked (pre @ p' # rest)"
  using assms by (induction pre rule: linked.induct) (cases rest; simp)+

lemma linked_next:
  "linked (pre @ p # rest) \<Longrightarrow> ap_next p = (case rest of [] \<Rightarrow> INVALID_PAGE_ID | q # _ \<Rightarrow> ap_id q)"
  by (induction pre rule: linked.induct) (cases rest; simp)+

lemma linked_extend:
  "linked (pre @ [p]) \<Longrightarrow> ap_id p' = ap_id p \<Longrightarrow> ap_next p' = ap_id q \<Longrightarrow> ap_next q = INVALID_PAGE_ID \<Longrightarrow> linked (pre @ [p', q])"
  by (induction pre rule: linked.induct) simp_all

lemma heap_okD:
  assumes "heap_ok h a ps"
  shows "linked ps" "distinct (map ap_id ps)" "ps \<noteq> []" "first_page_id h = ap_id (hd ps)"
    "p \<in> set ps \<Longrightarrow> ap_id p \<in> c_live a \<and> ap_id p \<notin> c_touched a \<and> is_page (c_data a (ap_id p)) p"
  using assms by (auto simp: heap_ok_def heap_pages_def)

lemma hd_ids: "map ap_id ps = map ap_id qs \<Longrightarrow> ps \<noteq> [] \<Longrightarrow> ap_id (hd ps) = ap_id (hd qs)"
  by (cases ps; cases qs) auto

text \<open>One page is replaced.\<close>

lemma heap_ok_put:
  assumes ok: "heap_ok h a (pre @ p # rest)" and p': "ap_id p' = ap_id p" "ap_next p' = ap_next p" "is_page d p'"
  shows "heap_ok h (a\<lparr>c_data := (c_data a)(ap_id p := d)\<rparr>) (pre @ p' # rest)"
proof -
  note D = heap_okD [OF ok]
  have "first_page_id h = ap_id (hd (pre @ p' # rest))" using D(4) p'(1) by (cases pre) simp_all
  moreover have "heap_pages (a\<lparr>c_data := (c_data a)(ap_id p := d)\<rparr>) (pre @ p' # rest)"
    using D(2,5) p' unfolding heap_pages_def by (auto simp: image_iff)
  ultimately show ?thesis using linked_put [OF D(1) p'(1,2)] D(2) p'(1) by (simp add: heap_ok_def)
qed

section \<open>Work on one page\<close>

lemma read_page_eq: "page_data f s = Inr d \<Longrightarrow> read_page f get s = page_call (get d)"
  by (simp add: read_page_def)

lemma update_page_eq: "page_data f s = Inr d \<Longrightarrow> act d = Inr (r, d') \<Longrightarrow> update_page f act s = Inr (r, client_store f d' s)"
  by (simp add: update_page_def)

lemma update_page_error: "page_data f s = Inr d \<Longrightarrow> act d = Inl e \<Longrightarrow> update_page f act s = Inl (Page_Error e)"
  by (simp add: update_page_def)

text \<open>The common form of the operations: a page of the table is fetched, changed and unpinned as dirty.\<close>

definition dirty_session ::
  "page_id \<Rightarrow> (bpm \<Rightarrow> db_error + 'b) \<Rightarrow> (byte list \<Rightarrow> exc + 'a \<times> byte list) \<Rightarrow> ('a \<Rightarrow> bpm \<Rightarrow> db_error + 'b) \<Rightarrow> bpm \<Rightarrow> db_error + 'b" where
  "dirty_session i none act k s = ebind (pool_call (FetchPgImp i s)) (\<lambda>(r, s). case r of
       None \<Rightarrow> none s
     | Some f \<Rightarrow>
         ebind (update_page f act s) (\<lambda>(x, s).
         ebind (read_page f GetTablePageId s) (\<lambda>q.
         ebind (pool_call (UnpinPgImp q True s)) (\<lambda>(_, s). k x s))))"

lemma dirty_session_ok:
  assumes pool: "pool_ok n s a" "spare n 1 a" and ok: "heap_ok h a (pre @ p # rest)"
    and act: "act (c_data a (ap_id p)) = Inr (r, d')" and p': "is_page d' p'" "ap_id p' = ap_id p" "ap_next p' = ap_next p"
  obtains s' a' where "dirty_session (ap_id p) none act k s = k r s'" and "pool_ok n s' a'" and "heap_ok h a' (pre @ p' # rest)"
    and "only_changes (ap_id ` set (pre @ p # rest)) a a'" and "c_next a' = c_next a"
proof -
  let ?a = "a\<lparr>c_data := (c_data a)(ap_id p := d')\<rparr>"
  have p: "ap_id p \<in> c_live a" "ap_id p \<notin> c_touched a" using heap_okD(5) [OF ok, of p] by simp_all
  obtain f s1 s2 where s: "FetchPgImp (ap_id p) s = Inr (Some f, s1)" "page_data f s1 = Inr (c_data a (ap_id p))"
    "page_data f (client_store f d' s1) = Inr d'" "UnpinPgImp (ap_id p) True (client_store f d' s1) = Inr (True, s2)"
    "pool_ok n s2 ?a"
    by (rule pool.write_session [OF pool(1) p pool(2) is_page_length [OF p'(1)]])
  have "read_page f GetTablePageId (client_store f d' s1) = Inr (ap_id p)"
    using is_page_header(1) [OF p'(1)] p'(2) by (simp add: read_page_eq [OF s(3)])
  then have "dirty_session (ap_id p) none act k s = k r s2" for none k
    using s(1,4) by (simp add: dirty_session_def update_page_eq [where act = act, OF s(2) act])
  then show ?thesis
    by (rule that [OF _ s(5) heap_ok_put [OF ok p'(2,3,1)]]) (auto intro: only_changes_data)
qed

lemma dirty_session_error:
  assumes pool: "pool_ok n s a" "spare n 1 a" and ok: "heap_ok h a (pre @ p # rest)" and act: "act (c_data a (ap_id p)) = Inl e"
  shows "dirty_session (ap_id p) none act k s = Inl (Page_Error e)"
proof -
  have p: "ap_id p \<in> c_live a" "ap_id p \<notin> c_touched a" using heap_okD(5) [OF ok, of p] by simp_all
  obtain f s1 where s: "FetchPgImp (ap_id p) s = Inr (Some f, s1)" "page_data f s1 = Inr (c_data a (ap_id p))"
    by (rule pool.read_session [OF pool(1) p pool(2)])
  then show ?thesis by (simp add: dirty_session_def update_page_error [where act = act, OF s(2) act])
qed

lemma heap_sessions:
  "TableHeap_MarkDelete lg h rid t s = dirty_session (rid_page_id rid) (\<lambda>s. Inr (False, SetState ABORTED t, s))
     (\<lambda>d. ebind (TablePage_MarkDelete lg rid t d) (\<lambda>(_, t, d). Inr (t, d)))
     (\<lambda>t s. Inr (True, AppendTableWriteRecord \<lparr>tw_rid = rid, tw_type = W_DELETE, tw_tuple = Tuple_default, tw_table = h\<rparr> t, s)) s"
  "TableHeap_ApplyDelete rid s = dirty_session (rid_page_id rid) (\<lambda>s. Inl (Page_Error Assert_Failed))
     (\<lambda>d. ebind (TablePage_ApplyDelete rid d) (\<lambda>d. Inr ((), d))) (\<lambda>_ s. Inr s) s"
  "TableHeap_RollbackDelete rid s = dirty_session (rid_page_id rid) (\<lambda>s. Inl (Page_Error Assert_Failed))
     (\<lambda>d. ebind (TablePage_RollbackDelete rid d) (\<lambda>d. Inr ((), d))) (\<lambda>_ s. Inr s) s"
  unfolding TableHeap_MarkDelete_def TableHeap_ApplyDelete_def TableHeap_RollbackDelete_def dirty_session_def by (rule refl)+

text \<open>A page of the table is fetched, read and unpinned; the frame still holds its bytes.\<close>

lemma look_session:
  assumes pool: "pool_ok n s a" "spare n 1 a" and ok: "heap_ok h a ps" and p: "p \<in> set ps"
  obtains f s1 s2 where "FetchPgImp (ap_id p) s = Inr (Some f, s1)" and "page_data f s1 = Inr (c_data a (ap_id p))"
    and "read_page f GetTablePageId s1 = Inr (ap_id p)"
    and "UnpinPgImp (ap_id p) False s1 = Inr (True, s2)" and "pool_ok n s2 a" and "page_data f s2 = Inr (c_data a (ap_id p))"
    and "\<And>q g. table_find q s = Some g \<Longrightarrow> 0 < c_pins a q \<Longrightarrow> table_find q s2 = Some g"
proof -
  have p: "ap_id p \<in> c_live a" "ap_id p \<notin> c_touched a" "is_page (c_data a (ap_id p)) p" using heap_okD(5) [OF ok p] by simp_all
  obtain f s1 s2 where s: "FetchPgImp (ap_id p) s = Inr (Some f, s1)" "page_data f s1 = Inr (c_data a (ap_id p))"
    "UnpinPgImp (ap_id p) False s1 = Inr (True, s2)" "pool_ok n s2 a" "page_data f s2 = Inr (c_data a (ap_id p))"
    "\<And>q g. table_find q s = Some g \<Longrightarrow> 0 < c_pins a q \<Longrightarrow> table_find q s2 = Some g"
    by (rule pool.read_session [OF pool(1) p(1,2) pool(2)]) (rule that)
  show ?thesis by (rule that [OF s(1,2) _ s(3-6)]) (simp_all add: read_page_eq [OF s(2)] is_page_header(1) [OF p(3)])
qed

lemma ebind_Inr: "ebind m f = Inr x \<longleftrightarrow> (\<exists>y. m = Inr y \<and> f y = Inr x)"
  by (cases m) simp_all

lemma ebind_Inl: "ebind m f = Inl e \<longleftrightarrow> m = Inl e \<or> (\<exists>y. m = Inr y \<and> f y = Inl e)"
  by (cases m) auto

lemma spec_step_header:
  "spec_step lg op (t, p) = Inr (out, t', p') \<Longrightarrow> ap_id p' = ap_id p \<and> ap_next p' = ap_next p \<and> ap_prev p' = ap_prev p"
  by (cases op) (auto simp: spec_step_def spec_insert_def set_slot_def ebind_Inr split: if_splits option.splits slot.splits bool.splits)

section \<open>Operations on the abstract table\<close>

datatype heap_op =
    Insert_tuple tuple
  | Mark_delete RID
  | Update_tuple tuple RID
  | Apply_delete RID
  | Rollback_delete RID
  | Get_tuple RID
  | Scan

datatype heap_out = Rid_of "RID option" | Flag bool | Tuple_of "tuple option" | Finished | Rows "tuple list"

definition row_at :: "apage list \<Rightarrow> RID \<Rightarrow> slot option" where
  "row_at ps rid = Option.bind (page_at (rid_page_id rid) ps) (\<lambda>p. slot_at p rid)"

definition set_row :: "RID \<Rightarrow> slot \<Rightarrow> apage list \<Rightarrow> apage list" where
  "set_row rid x ps = map (\<lambda>p. if ap_id p = rid_page_id rid then set_slot rid x p else p) ps"

definition room_at :: "apage list \<Rightarrow> RID \<Rightarrow> int" where
  "room_at ps rid = (case page_at (rid_page_id rid) ps of None \<Rightarrow> 0 | Some p \<Rightarrow> room (ap_slots p))"

definition logged :: "wtype \<Rightarrow> tuple \<Rightarrow> table_heap \<Rightarrow> RID \<Rightarrow> transaction \<Rightarrow> transaction" where
  "logged w old h rid t = AppendTableWriteRecord \<lparr>tw_rid = rid, tw_type = w, tw_tuple = old, tw_table = h\<rparr> t"

text \<open>The rows of the table in the order of the chain and of the slots.\<close>

definition page_rows :: "apage \<Rightarrow> tuple list" where
  "page_rows p = concat (map (\<lambda>i. case ap_slots p ! i of
       Slot False bs \<Rightarrow> [\<lparr>t_rid = \<lparr>rid_page_id = ap_id p, rid_slot_num = word_of_nat i\<rparr>, t_data = Some bs\<rparr>]
     | _ \<Rightarrow> []) [0..<length (ap_slots p)])"

definition rows :: "apage list \<Rightarrow> tuple list" where
  "rows ps = concat (map page_rows ps)"

definition grows :: "byte list \<Rightarrow> apage list \<Rightarrow> bool" where
  "grows bs ps \<longleftrightarrow> (\<forall>p \<in> set ps. \<not> fits_on bs p)"

definition heap_spec ::
  "bool \<Rightarrow> table_heap \<Rightarrow> heap_op \<Rightarrow> transaction \<times> apage list \<times> page_id \<Rightarrow>
     exc + heap_out \<times> transaction \<times> apage list \<times> page_id" where
  "heap_spec lg h op st = (case st of (t, ps, i) \<Rightarrow> (case op of
       Insert_tuple tup \<Rightarrow>
         if tuple_size tup + 32 > 4096 then Inr (Rid_of None, SetState ABORTED t, ps, i)
         else if tuple_bytes tup = [] then Inl Assert_Failed
         else (case table_insert_at (tuple_bytes tup) i ps of (rid, ps') \<Rightarrow>
           Inr (Rid_of (Some rid),
                logged W_INSERT Tuple_default h rid (if lg \<and> grows (tuple_bytes tup) ps then t\<lparr>prev_lsn := INVALID_LSN\<rparr> else t), ps', if grows (tuple_bytes tup) ps then i + 1 else i))
     | Mark_delete rid \<Rightarrow> (case row_at ps rid of
           Some (Slot False bs) \<Rightarrow> Inr (Flag True, logged W_DELETE Tuple_default h rid t, set_row rid (Slot True bs) ps, i)
         | _ \<Rightarrow> Inr (Flag True, logged W_DELETE Tuple_default h rid (abort_if lg t), ps, i))
     | Update_tuple tup rid \<Rightarrow>
         if tuple_bytes tup = [] then Inl Assert_Failed
         else (case row_at ps rid of
           Some (Slot False old) \<Rightarrow>
             if room_at ps rid + int (length old) < tuple_size tup then Inr (Flag False, t, ps, i)
             else Inr (Flag True,
                       if txn_state t \<noteq> ABORTED then logged W_UPDATE \<lparr>t_rid = rid, t_data = Some old\<rparr> h rid t else t,
                       set_row rid (Slot False (tuple_bytes tup)) ps, i)
         | _ \<Rightarrow> Inr (Flag False, abort_if lg t, ps, i))
     | Apply_delete rid \<Rightarrow> (case row_at ps rid of
           Some (Slot b bs) \<Rightarrow> Inr (Finished, t, set_row rid Free ps, i)
         | _ \<Rightarrow> Inl Assert_Failed)
     | Rollback_delete rid \<Rightarrow> (case row_at ps rid of
           None \<Rightarrow> Inl Assert_Failed
         | Some (Slot True bs) \<Rightarrow> Inr (Finished, t, set_row rid (Slot False bs) ps, i)
         | Some _ \<Rightarrow> Inr (Finished, t, ps, i))
     | Get_tuple rid \<Rightarrow> (case row_at ps rid of
           Some (Slot False bs) \<Rightarrow> Inr (Tuple_of (Some \<lparr>t_rid = rid, t_data = Some bs\<rparr>), t, ps, i)
         | _ \<Rightarrow> Inr (Tuple_of None, abort_if lg t, ps, i))
     | Scan \<Rightarrow> Inr (Rows (rows ps), t, ps, i)))"

text \<open>The same calls on the code.\<close>

definition collect :: "tuple \<Rightarrow> tuple list \<times> transaction \<times> bpm \<Rightarrow> db_error + tuple list \<times> transaction \<times> bpm" where
  "collect tup st = (case st of (xs, t, s) \<Rightarrow> Inr (xs @ [tup], t, s))"

definition heap_scan :: "bool \<Rightarrow> table_heap \<Rightarrow> transaction \<Rightarrow> bpm \<Rightarrow> (db_error + tuple list \<times> transaction \<times> bpm) option" where
  "heap_scan lg h t s = (case TableHeap_Begin lg h t s of
       None \<Rightarrow> None
     | Some (Inl e) \<Rightarrow> Some (Inl e)
     | Some (Inr (it, t, s)) \<Rightarrow> for_tuples lg collect it ([], t, s))"

definition heap_step :: "bool \<Rightarrow> table_heap \<Rightarrow> heap_op \<Rightarrow> transaction \<times> bpm \<Rightarrow> (db_error + heap_out \<times> transaction \<times> bpm) option" where
  "heap_step lg h op st = (case st of (t, s) \<Rightarrow> (case op of
       Insert_tuple tup \<Rightarrow> map_option (\<lambda>r. ebind r (\<lambda>(rid, t, s). Inr (Rid_of rid, t, s))) (TableHeap_InsertTuple lg h tup t s)
     | Mark_delete rid \<Rightarrow> Some (ebind (TableHeap_MarkDelete lg h rid t s) (\<lambda>(b, t, s). Inr (Flag b, t, s)))
     | Update_tuple tup rid \<Rightarrow> Some (ebind (TableHeap_UpdateTuple lg h tup rid t s) (\<lambda>(b, t, s). Inr (Flag b, t, s)))
     | Apply_delete rid \<Rightarrow> Some (ebind (TableHeap_ApplyDelete rid s) (\<lambda>s. Inr (Finished, t, s)))
     | Rollback_delete rid \<Rightarrow> Some (ebind (TableHeap_RollbackDelete rid s) (\<lambda>s. Inr (Finished, t, s)))
     | Get_tuple rid \<Rightarrow> Some (ebind (TableHeap_GetTuple lg rid t s) (\<lambda>(r, t, s). Inr (Tuple_of r, t, s)))
     | Scan \<Rightarrow> map_option (\<lambda>r. ebind r (\<lambda>(xs, t, s). Inr (Rows xs, t, s))) (heap_scan lg h t s)))"

section \<open>The operations on a record identifier\<close>

lemma page_at_split:
  assumes "page_at i ps = Some p"
  obtains pre rest where "ps = pre @ p # rest" and "ap_id p = i"
proof -
  obtain k where k: "k < length ps" "ap_id (ps ! k) = i" "p = ps ! k"
    using assms by (auto simp: page_at_def find_Some_iff)
  then have "ps = take k ps @ p # drop (Suc k) ps" by (simp add: id_take_nth_drop)
  with k that show ?thesis by metis
qed

lemma row_at_page:
  assumes "distinct (map ap_id (pre @ p # rest))" and "rid_page_id rid = ap_id p"
  shows "row_at (pre @ p # rest) rid = slot_at p rid" "set_row rid x (pre @ p # rest) = pre @ set_slot rid x p # rest"
    "room_at (pre @ p # rest) rid = room (ap_slots p)"
proof -
  have "find (\<lambda>q. ap_id q = ap_id p) (pre @ p # rest) = Some p"
    using assms(1) by (induction pre) auto
  then have "page_at (rid_page_id rid) (pre @ p # rest) = Some p" by (simp add: page_at_def assms(2))
  then show "row_at (pre @ p # rest) rid = slot_at p rid" "room_at (pre @ p # rest) rid = room (ap_slots p)"
    by (simp_all add: row_at_def room_at_def)
  show "set_row rid x (pre @ p # rest) = pre @ set_slot rid x p # rest"
    using assms by (auto simp: set_row_def intro!: map_idI) (metis image_eqI)+
qed

definition heap_refined ::
  "nat \<Rightarrow> table_heap \<Rightarrow> cache \<Rightarrow> apage list \<Rightarrow> (db_error + heap_out \<times> transaction \<times> bpm) option \<Rightarrow>
     exc + heap_out \<times> transaction \<times> apage list \<times> page_id \<Rightarrow> bool" where
  "heap_refined n h a ps c r \<longleftrightarrow> (case r of Inl e \<Rightarrow> c = Some (Inl (Page_Error e))
     | Inr (out, t, ps', i) \<Rightarrow> (\<exists>s a'. c = Some (Inr (out, t, s)) \<and> pool_ok n s a' \<and> heap_ok h a' ps' \<and>
         only_changes (ap_id ` set ps) a a' \<and> c_next a' = i))"

text \<open>What the refinement of the page says of one of its operations.\<close>

lemma page_op_ok:
  assumes "is_page d p" and "spec_step lg op (t, p) = Inr (out, t', p')"
  obtains d' where "page_step lg op (t, d) = Inr (out, t', d')" and "is_page d' p'" and "ap_id p' = ap_id p" and "ap_next p' = ap_next p"
  using page_step_refines [OF assms(1), of lg op t] assms(2) spec_step_header [OF assms(2)] that by auto

lemma page_op_error:
  assumes "is_page d p" and "spec_step lg op (t, p) = Inl e"
  shows "page_step lg op (t, d) = Inl e"
  using page_step_refines [OF assms(1), of lg op t] assms(2) by simp

lemma only_changes_mono: "only_changes P a a' \<Longrightarrow> P \<subseteq> Q \<Longrightarrow> only_changes Q a a'"
  unfolding only_changes_def by blast

lemma refinedI:
  assumes "c = Some (Inr (out, t, s))" and "pool_ok n s a'" and "heap_ok h a' ps'" and "only_changes (ap_id ` set ps) a a'"
    and "c_next a' = i"
  shows "heap_refined n h a ps c (Inr (out, t, ps', i))"
  using assms by (auto simp: heap_refined_def)

lemma slot_option_cases:
  obtains (none) "x = None" | (free) "x = Some Free" | (live) bs where "x = Some (Slot False bs)" | (dead) bs where "x = Some (Slot True bs)"
  by (metis (full_types) option.exhaust slot.exhaust)

text \<open>The page that a record identifier names.\<close>

lemma rid_page:
  assumes "heap_ok h a ps" and "page_at (rid_page_id rid) ps \<noteq> None"
  obtains pre p rest where "ps = pre @ p # rest" and "rid_page_id rid = ap_id p" and "is_page (c_data a (ap_id p)) p"
    and "row_at ps rid = slot_at p rid" and "\<And>x. set_row rid x ps = pre @ set_slot rid x p # rest" and "room_at ps rid = room (ap_slots p)"
proof -
  obtain pre p rest where ps: "ps = pre @ p # rest" and id: "rid_page_id rid = ap_id p"
    using assms(2) page_at_split by (metis option.exhaust)
  show ?thesis
    by (rule that [OF ps id]) (use heap_okD(5) [OF assms(1), of p] row_at_page [OF heap_okD(2) [OF assms(1), unfolded ps] id] in
        \<open>simp_all add: ps\<close>)
qed

text \<open>A session that runs one operation of the page follows the operation of the abstract page.\<close>

lemma dirty_refines:
  assumes pool: "pool_ok n s a" "spare n 1 a" and ok: "heap_ok h a (pre @ p # rest)"
    and act: "\<And>d. act d = ebind (page_step lg op (t, d)) (\<lambda>(out, t, d). Inr (g out t, d))"
  obtains (error) e where "spec_step lg op (t, p) = Inl e" and "dirty_session (ap_id p) none act k s = Inl (Page_Error e)"
  | (success) out t' p' s' a' where "spec_step lg op (t, p) = Inr (out, t', p')" and "dirty_session (ap_id p) none act k s = k (g out t') s'"
    and "pool_ok n s' a'" and "heap_ok h a' (pre @ p' # rest)" and "only_changes (ap_id ` set (pre @ p # rest)) a a'"
    and "c_next a' = c_next a"
proof -
  have pg: "is_page (c_data a (ap_id p)) p" using heap_okD(5) [OF ok, of p] by simp
  show ?thesis
  proof (cases "spec_step lg op (t, p)")
    case (Inl e)
    then have "act (c_data a (ap_id p)) = Inl e" using page_op_error [OF pg Inl] by (simp add: act)
    from error [OF Inl dirty_session_error [where act = act, OF pool ok this]] show ?thesis .
  next
    case (Inr r)
    obtain out t' p' where r: "r = (out, t', p')" by (cases r)
    obtain d' where d': "page_step lg op (t, c_data a (ap_id p)) = Inr (out, t', d')"
      and p': "is_page d' p'" "ap_id p' = ap_id p" "ap_next p' = ap_next p"
      by (rule page_op_ok [OF pg Inr [unfolded r]])
    have "act (c_data a (ap_id p)) = Inr (g out t', d')" using d' by (simp add: act)
    from dirty_session_ok [where act = act, OF pool ok this p'] show ?thesis using success Inr [unfolded r] by metis
  qed
qed

lemma heap_rid_ops:
  assumes pool: "pool_ok n s a" "spare n 1 a" and ok: "heap_ok h a ps" and p: "page_at (rid_page_id rid) ps \<noteq> None"
  shows MarkDelete_heap: "heap_refined n h a ps (heap_step lg h (Mark_delete rid) (t, s)) (heap_spec lg h (Mark_delete rid) (t, ps, c_next a))"
    and ApplyDelete_heap: "heap_refined n h a ps (heap_step lg h (Apply_delete rid) (t, s)) (heap_spec lg h (Apply_delete rid) (t, ps, c_next a))"
    and RollbackDelete_heap: "heap_refined n h a ps (heap_step lg h (Rollback_delete rid) (t, s)) (heap_spec lg h (Rollback_delete rid) (t, ps, c_next a))"
proof -
  obtain pre p rest where ps: "ps = pre @ p # rest" and id: "rid_page_id rid = ap_id p" and pg: "is_page (c_data a (ap_id p)) p"
    and row: "row_at ps rid = slot_at p rid" "\<And>x. set_row rid x ps = pre @ set_slot rid x p # rest" "room_at ps rid = room (ap_slots p)"
    by (rule rid_page [OF ok p]) (rule that)
  note ok = ok [unfolded ps] and spec = spec_step_def heap_spec_def row
  note step = heap_step_def prod.case heap_op.case heap_sessions id logged_def
  show "heap_refined n h a ps (heap_step lg h (Mark_delete rid) (t, s)) (heap_spec lg h (Mark_delete rid) (t, ps, c_next a))"
  proof (cases rule: dirty_refines [OF pool ok, where g = "\<lambda>_ t. t" and op = "Mark_op rid" and lg = lg and t = t and
      act = "\<lambda>d. ebind (TablePage_MarkDelete lg rid t d) (\<lambda>(_, t, d). Inr (t, d))" and none = "\<lambda>s. Inr (False, SetState ABORTED t, s)" and
      k = "\<lambda>t s. Inr (True, AppendTableWriteRecord \<lparr>tw_rid = rid, tw_type = W_DELETE, tw_tuple = Tuple_default, tw_table = h\<rparr> t, s)"])
    case 1
    then show ?case by (auto simp: page_step_def ebind_def split: sum.splits)
  next
    case (2 e)
    then show ?thesis by (cases rule: slot_option_cases [of "slot_at p rid"]) (simp_all add: spec)
  next
    case (3 out t' p' s' a')
    have sp: "heap_spec lg h (Mark_delete rid) (t, ps, c_next a) = Inr (Flag True, logged W_DELETE Tuple_default h rid t', pre @ p' # rest, c_next a)"
      using 3(1) by (cases rule: slot_option_cases [of "slot_at p rid"]) (auto simp: spec, simp_all add: ps)
    have "heap_step lg h (Mark_delete rid) (t, s) = Some (Inr (Flag True, logged W_DELETE Tuple_default h rid t', s'))"
      using 3(2) by (simp only: step ebind_simps)
    from refinedI [OF this 3(3-6)] show ?thesis unfolding sp unfolding ps .
  qed
  show "heap_refined n h a ps (heap_step lg h (Apply_delete rid) (t, s)) (heap_spec lg h (Apply_delete rid) (t, ps, c_next a))"
  proof (cases rule: dirty_refines [OF pool ok, where g = "\<lambda>_ _. ()" and op = "Apply_op rid" and lg = lg and t = t and
      act = "\<lambda>d. ebind (TablePage_ApplyDelete rid d) (\<lambda>d. Inr ((), d))" and none = "\<lambda>s. Inl (Page_Error Assert_Failed)" and
      k = "\<lambda>_ s. Inr s"])
    case 1
    then show ?case by (auto simp: page_step_def ebind_def split: sum.splits)
  next
    case (2 e)
    then have sp: "heap_spec lg h (Apply_delete rid) (t, ps, c_next a) = Inl e"
      by (cases rule: slot_option_cases [of "slot_at p rid"]) (simp_all add: spec)
    then show ?thesis using 2(2) unfolding sp by (simp only: step ebind_simps heap_refined_def sum.case)
  next
    case (3 out t' p' s' a')
    have sp: "heap_spec lg h (Apply_delete rid) (t, ps, c_next a) = Inr (Finished, t, pre @ p' # rest, c_next a)"
      using 3(1) by (cases rule: slot_option_cases [of "slot_at p rid"]) (auto simp: spec)
    have "heap_step lg h (Apply_delete rid) (t, s) = Some (Inr (Finished, t, s'))" using 3(2) by (simp only: step ebind_simps)
    from refinedI [OF this 3(3-6)] show ?thesis unfolding sp unfolding ps .
  qed
  show "heap_refined n h a ps (heap_step lg h (Rollback_delete rid) (t, s)) (heap_spec lg h (Rollback_delete rid) (t, ps, c_next a))"
  proof (cases rule: dirty_refines [OF pool ok, where g = "\<lambda>_ _. ()" and op = "Rollback_op rid" and lg = lg and t = t and
      act = "\<lambda>d. ebind (TablePage_RollbackDelete rid d) (\<lambda>d. Inr ((), d))" and none = "\<lambda>s. Inl (Page_Error Assert_Failed)" and
      k = "\<lambda>_ s. Inr s"])
    case 1
    then show ?case by (auto simp: page_step_def ebind_def split: sum.splits)
  next
    case (2 e)
    then have sp: "heap_spec lg h (Rollback_delete rid) (t, ps, c_next a) = Inl e"
      by (cases rule: slot_option_cases [of "slot_at p rid"]) (simp_all add: spec)
    then show ?thesis using 2(2) unfolding sp by (simp only: step ebind_simps heap_refined_def sum.case)
  next
    case (3 out t' p' s' a')
    have sp: "heap_spec lg h (Rollback_delete rid) (t, ps, c_next a) = Inr (Finished, t, pre @ p' # rest, c_next a)"
      using 3(1) by (cases rule: slot_option_cases [of "slot_at p rid"]) (auto simp: spec, simp_all add: ps)
    have "heap_step lg h (Rollback_delete rid) (t, s) = Some (Inr (Finished, t, s'))" using 3(2) by (simp only: step ebind_simps)
    from refinedI [OF this 3(3-6)] show ?thesis unfolding sp unfolding ps .
  qed
qed

lemma GetTuple_heap:
  assumes pool: "pool_ok n s a" "spare n 1 a" and ok: "heap_ok h a ps" and p: "page_at (rid_page_id rid) ps \<noteq> None"
  shows "heap_refined n h a ps (heap_step lg h (Get_tuple rid) (t, s)) (heap_spec lg h (Get_tuple rid) (t, ps, c_next a))"
proof -
  obtain pre p rest where ps: "ps = pre @ p # rest" and id: "rid_page_id rid = ap_id p" and pg: "is_page (c_data a (ap_id p)) p"
    and row: "row_at ps rid = slot_at p rid" "\<And>x. set_row rid x ps = pre @ set_slot rid x p # rest" "room_at ps rid = room (ap_slots p)"
    by (rule rid_page [OF ok p]) (rule that)
  have "\<exists>out t'. spec_step lg (Get_op rid) (t, p) = Inr (Tuple_out out, t', p) \<and>
      heap_spec lg h (Get_tuple rid) (t, ps, c_next a) = Inr (Tuple_of out, t', ps, c_next a)"
    by (cases rule: slot_option_cases [of "slot_at p rid"]) (simp_all add: spec_step_def heap_spec_def row)
  then obtain out t' where sp: "spec_step lg (Get_op rid) (t, p) = Inr (Tuple_out out, t', p)"
    "heap_spec lg h (Get_tuple rid) (t, ps, c_next a) = Inr (Tuple_of out, t', ps, c_next a)" by blast
  obtain d' where "page_step lg (Get_op rid) (t, c_data a (ap_id p)) = Inr (Tuple_out out, t', d')" by (rule page_op_ok [OF pg sp(1)])
  then have get: "TablePage_GetTuple lg rid t (c_data a (ap_id p)) = Inr (out, t')" by (auto simp: page_step_def ebind_Inr)
  have "p \<in> set ps" by (simp add: ps)
  obtain f s1 s2 where c: "FetchPgImp (ap_id p) s = Inr (Some f, s1)" "page_data f s1 = Inr (c_data a (ap_id p))"
    "UnpinPgImp (ap_id p) False s1 = Inr (True, s2)" "pool_ok n s2 a"
    by (rule look_session [OF pool ok \<open>p \<in> set ps\<close>])
  have "heap_step lg h (Get_tuple rid) (t, s) = Some (Inr (Tuple_of out, t', s2))"
    using c(1,3) by (simp add: heap_step_def TableHeap_GetTuple_def id read_page_eq [OF c(2)] get)
  from refinedI [OF this c(4) ok only_changes_refl refl] show ?thesis unfolding sp(2) .
qed

lemma UpdateTuple_heap:
  assumes pool: "pool_ok n s a" "spare n 1 a" and ok: "heap_ok h a ps" and p: "page_at (rid_page_id rid) ps \<noteq> None"
  shows "heap_refined n h a ps (heap_step lg h (Update_tuple tup rid) (t, s)) (heap_spec lg h (Update_tuple tup rid) (t, ps, c_next a))"
proof -
  obtain pre p rest where ps: "ps = pre @ p # rest" and id: "rid_page_id rid = ap_id p" and pg: "is_page (c_data a (ap_id p)) p"
    and row: "row_at ps rid = slot_at p rid" "\<And>x. set_row rid x ps = pre @ set_slot rid x p # rest" "room_at ps rid = room (ap_slots p)"
    by (rule rid_page [OF ok p]) (rule that)
  note unf = heap_step_def TableHeap_UpdateTuple_def id and spec = spec_step_def heap_spec_def row
  let ?act = "\<lambda>d. ebind (TablePage_UpdateTuple lg tup rid t d) (\<lambda>(old, t, d). Inr ((old, t), d))"
  have "p \<in> set ps" by (simp add: ps)
  obtain f s1 s2 where c: "FetchPgImp (ap_id p) s = Inr (Some f, s1)" "page_data f s1 = Inr (c_data a (ap_id p))"
    "read_page f GetTablePageId s1 = Inr (ap_id p)" "UnpinPgImp (ap_id p) False s1 = Inr (True, s2)" "pool_ok n s2 a"
    by (rule look_session [OF pool ok \<open>p \<in> set ps\<close>])
  have "spec_step lg (Update_op tup rid) (t, p) = Inl Assert_Failed \<and>
      heap_spec lg h (Update_tuple tup rid) (t, ps, c_next a) = Inl Assert_Failed \<or>
    (\<exists>t'. spec_step lg (Update_op tup rid) (t, p) = Inr (Tuple_out None, t', p) \<and>
      heap_spec lg h (Update_tuple tup rid) (t, ps, c_next a) = Inr (Flag False, t', ps, c_next a)) \<or>
    (\<exists>old p'. spec_step lg (Update_op tup rid) (t, p) = Inr (Tuple_out (Some old), t, p') \<and>
      heap_spec lg h (Update_tuple tup rid) (t, ps, c_next a) =
         Inr (Flag True, if txn_state t \<noteq> ABORTED then logged W_UPDATE old h rid t else t, pre @ p' # rest, c_next a))"
    by (cases rule: slot_option_cases [of "slot_at p rid"]; cases "tuple_bytes tup = []") (simp_all add: spec)
  then consider (error) "spec_step lg (Update_op tup rid) (t, p) = Inl Assert_Failed"
      "heap_spec lg h (Update_tuple tup rid) (t, ps, c_next a) = Inl Assert_Failed"
    | (same) t' where "spec_step lg (Update_op tup rid) (t, p) = Inr (Tuple_out None, t', p)"
      "heap_spec lg h (Update_tuple tup rid) (t, ps, c_next a) = Inr (Flag False, t', ps, c_next a)"
    | (change) old p' where "spec_step lg (Update_op tup rid) (t, p) = Inr (Tuple_out (Some old), t, p')"
      "heap_spec lg h (Update_tuple tup rid) (t, ps, c_next a) =
         Inr (Flag True, if txn_state t \<noteq> ABORTED then logged W_UPDATE old h rid t else t, pre @ p' # rest, c_next a)"
    by blast
  then show ?thesis
  proof cases
    case error
    have "?act (c_data a (ap_id p)) = Inl Assert_Failed"
      using page_op_error [OF pg error(1)] by (auto simp: page_step_def ebind_Inl)
    then show ?thesis unfolding error(2) using c(1) by (simp add: unf heap_refined_def update_page_error [OF c(2)])
  next
    case same
    obtain d' where "page_step lg (Update_op tup rid) (t, c_data a (ap_id p)) = Inr (Tuple_out None, t', d')"
      by (rule page_op_ok [OF pg same(1)])
    then have u: "TablePage_UpdateTuple lg tup rid t (c_data a (ap_id p)) = Inr (None, t', d')" by (auto simp: page_step_def ebind_Inr)
    have "client_store f d' s1 = s1" using client_store_same [OF c(2)] UpdateTuple_refused_same [OF u] by simp
    then have "heap_step lg h (Update_tuple tup rid) (t, s) = Some (Inr (Flag False, t', s2))"
      using c(1,3,4) u by (simp add: unf update_page_eq [OF c(2)])
    from refinedI [OF this c(5) ok only_changes_refl refl] show ?thesis unfolding same(2) .
  next
    case change
    obtain d' where "page_step lg (Update_op tup rid) (t, c_data a (ap_id p)) = Inr (Tuple_out (Some old), t, d')"
      and p': "is_page d' p'" "ap_id p' = ap_id p" "ap_next p' = ap_next p" by (rule page_op_ok [OF pg change(1)])
    then have u: "TablePage_UpdateTuple lg tup rid t (c_data a (ap_id p)) = Inr (Some old, t, d')" by (auto simp: page_step_def ebind_Inr)
    have live: "ap_id p \<in> c_live a" "ap_id p \<notin> c_touched a" using heap_okD(5) [OF ok \<open>p \<in> set ps\<close>] by simp_all
    obtain f s1 s2 where w: "FetchPgImp (ap_id p) s = Inr (Some f, s1)" "page_data f s1 = Inr (c_data a (ap_id p))"
      "page_data f (client_store f d' s1) = Inr d'" "UnpinPgImp (ap_id p) True (client_store f d' s1) = Inr (True, s2)"
      "pool_ok n s2 (a\<lparr>c_data := (c_data a)(ap_id p := d')\<rparr>)"
      by (rule pool.write_session [OF pool(1) live pool(2) is_page_length [OF p'(1)]])
    have "heap_step lg h (Update_tuple tup rid) (t, s) =
        Some (Inr (Flag True, if txn_state t \<noteq> ABORTED then logged W_UPDATE old h rid t else t, s2))"
      using w(1,4) u is_page_header(1) [OF p'(1)] p'(2)
      by (simp add: unf update_page_eq [OF w(2)] read_page_eq [OF w(3)] logged_def)
    from refinedI [OF this w(5) heap_ok_put [OF ok [unfolded ps] p'(2,3,1)] only_changes_data] show ?thesis unfolding change(2) by (simp add: ps)
  qed
qed

section \<open>Insertion\<close>

lemma place_header: "ap_id (snd (place_tuple bs p)) = ap_id p" "ap_next (snd (place_tuple bs p)) = ap_next p"
  by (simp_all add: place_tuple_def split: option.splits)

lemma insert_page_fits:
  assumes "is_page d p" and "tuple_bytes tup \<noteq> []" and "fits_on (tuple_bytes tup) p"
  shows "\<exists>d'. TablePage_InsertTuple tup d = Inr (Some (fst (place_tuple (tuple_bytes tup) p)), d') \<and> is_page d' (snd (place_tuple (tuple_bytes tup) p))"
proof -
  have "spec_step False (Insert_op tup) (\<lparr>txn_state = GROWING, prev_lsn = 0\<rparr>, p) =
      Inr (Rid_out (Some (fst (place_tuple (tuple_bytes tup) p))), \<lparr>txn_state = GROWING, prev_lsn = 0\<rparr>, snd (place_tuple (tuple_bytes tup) p))"
    using assms(2,3) by (simp add: spec_step_def spec_insert_def place_tuple_def fits_on_def split: option.splits)
  from page_op_ok [OF assms(1) this] show ?thesis by (fastforce simp: page_step_def ebind_Inr)
qed

lemma insert_page_full:
  assumes "is_page d p" and "tuple_bytes tup \<noteq> []" and "\<not> fits_on (tuple_bytes tup) p"
  shows "TablePage_InsertTuple tup d = Inr (None, d)"
proof -
  have "spec_step False (Insert_op tup) (\<lparr>txn_state = GROWING, prev_lsn = 0\<rparr>, p) =
      Inr (Rid_out None, \<lparr>txn_state = GROWING, prev_lsn = 0\<rparr>, p)"
    using assms(2,3) by (simp add: spec_step_def spec_insert_def fits_on_def)
  from page_op_ok [OF assms(1) this] obtain d' where "TablePage_InsertTuple tup d = Inr (None, d')"
    by (fastforce simp: page_step_def ebind_Inr)
  with InsertTuple_refused_same [OF this] show ?thesis by simp
qed

text \<open>The three outcomes of a turn of the loop, on a pinned page \<open>p\<close> in the frame \<open>cur\<close>.\<close>

lemma step_place:
  assumes pool: "pool_ok n s b" "table_find (ap_id p) s = Some cur" "0 < c_pins b (ap_id p)" and pg: "is_page (c_data b (ap_id p)) p"
    and tup: "tuple_bytes tup \<noteq> []" "fits_on (tuple_bytes tup) p"
  shows "\<exists>d'. insert_step lg tup t cur s = Inr (Placed (fst (place_tuple (tuple_bytes tup) p)) t cur (client_store cur d' s)) \<and>
    is_page d' (snd (place_tuple (tuple_bytes tup) p)) \<and> pool_ok n (client_store cur d' s) (put_page (ap_id p) d' b) \<and>
    table_find (ap_id p) (client_store cur d' s) = Some cur"
proof -
  obtain d' where d': "TablePage_InsertTuple tup (c_data b (ap_id p)) = Inr (Some (fst (place_tuple (tuple_bytes tup) p)), d')"
    "is_page d' (snd (place_tuple (tuple_bytes tup) p))" using insert_page_fits [OF pg tup] by blast
  have "page_data cur s = Inr (c_data b (ap_id p))" using pool.load_law [OF pool(1,2)] by simp
  from update_page_eq [where act = "TablePage_InsertTuple tup", OF this d'(1)] have "insert_step lg tup t cur s = Inr (Placed (fst (place_tuple (tuple_bytes tup) p)) t cur (client_store cur d' s))"
    by (simp add: insert_step_def)
  moreover have "pool_ok n (client_store cur d' s) (put_page (ap_id p) d' b)" "table_find (ap_id p) (client_store cur d' s) = Some cur"
    using pool.store_law [OF pool is_page_length [OF d'(2)]] pool(2) by (simp_all add: fun_eq_iff)
  ultimately show ?thesis using d'(2) by blast
qed

lemma step_next:
  assumes pool: "pool_ok n s (pin_page (ap_id p) a)" "table_find (ap_id p) s = Some cur" "spare n 1 a"
    and ok: "heap_ok h a (pre @ p # q # rest)" and tup: "tuple_bytes tup \<noteq> []" "\<not> fits_on (tuple_bytes tup) p" and pins: "0 \<le> c_pins a (ap_id p)"
  shows "\<exists>f s'. insert_step lg tup t cur s = Inr (Next_Page t f s') \<and> pool_ok n s' (pin_page (ap_id q) a) \<and> table_find (ap_id q) s' = Some f"
proof -
  have p: "ap_id p \<in> c_live a" "ap_id p \<notin> c_touched a" "is_page (c_data a (ap_id p)) p"
    and q: "ap_id q \<in> c_live a" "ap_id q \<noteq> INVALID_PAGE_ID"
    using heap_okD(5) [OF ok, of p] heap_okD(5) [OF ok, of q] live_valid_id [of s "c_live a" "c_touched a" "ap_id q"] pool(1)
    by (auto simp: pool_ok_def cache_rel_def pin_page_def)
  have d: "page_data cur s = Inr (c_data a (ap_id p))" using pool.load_law [OF pool(1,2)] by (simp add: pin_page_def)
  have "client_store cur (c_data a (ap_id p)) s = s" by (rule client_store_same [OF d])
  then have u: "update_page cur (TablePage_InsertTuple tup) s = Inr (None, s)"
    using update_page_eq [where act = "TablePage_InsertTuple tup", OF d insert_page_full [OF p(3) tup]] by simp
  obtain s1 where s1: "UnpinPgImp (ap_id p) False s = Inr (True, s1)" "pool_ok n s1 a"
    using pool.unpin_law [OF pool(1), of "ap_id p" False] p(1,2) pins by auto
  obtain f s2 where s2: "FetchPgImp (ap_id q) s1 = Inr (Some f, s2)" "pool_ok n s2 (pin_page (ap_id q) a)" "table_find (ap_id q) s2 = Some f"
    by (rule pool.fetch_ok [OF s1(2) q(1) pool(3)])
  have "ap_next p = ap_id q" using linked_next [OF heap_okD(1) [OF ok]] by simp
  then have "insert_step lg tup t cur s = Inr (Next_Page t f s2)"
    using u s1(1) s2(1) q(2) is_page_header [OF p(3)] by (simp add: insert_step_def read_page_eq [OF d])
  with s2(2,3) show ?thesis by blast
qed

lemma Init_page:
  assumes "length d = BUSTUB_PAGE_SIZE"
  shows "\<exists>d'. TablePage_Init lg p (int BUSTUB_PAGE_SIZE) prev t d = Inr (if lg then t\<lparr>prev_lsn := INVALID_LSN\<rparr> else t, d') \<and>
    is_page d' (empty_apage p prev)"
proof -
  obtain t' d' where d': "TablePage_Init lg p 4096 prev t d = Inr (t', d')" "is_page d' (empty_apage p prev)"
    using Init_is_page assms by (metis BUSTUB_PAGE_SIZE_def)
  have "t' = (if lg then t\<lparr>prev_lsn := INVALID_LSN\<rparr> else t)"
    using d'(1) by (auto simp: TablePage_Init_def AppendLogRecord_def ebind_Inr split: if_splits)
  with d' show ?thesis by (simp add: BUSTUB_PAGE_SIZE_def)
qed

text \<open>The cache after a new last page has been linked: it is pinned and not yet reported as dirty.\<close>

definition extended :: "cache \<Rightarrow> page_id \<Rightarrow> byte list \<Rightarrow> byte list \<Rightarrow> cache" where
  "extended a i d1 d2 = (let j = c_next a in
     a\<lparr>c_live := insert j (c_live a), c_data := (c_data a)(i := d1, j := d2), c_pins := (c_pins a)(j := 1),
       c_touched := insert j (c_touched a), c_next := j + 1\<rparr>)"

lemma extended_eq:
  assumes "i \<noteq> c_next a" and "i \<notin> c_touched a"
  shows "unpin_page i True (put_page (c_next a) d2 (put_page i d1 (add_page (pin_page i a)))) = extended a i d1 d2"
proof -
  have "(c_pins a)(i := c_pins a i + 1, c_next a := 1, i := c_pins a i) = (c_pins a)(c_next a := 1)"
    using assms(1) by (auto simp: fun_eq_iff)
  moreover have "(c_data a)(c_next a := zero_page, i := d1, c_next a := d2) = (c_data a)(i := d1, c_next a := d2)"
    using assms(1) by (auto simp: fun_eq_iff)
  moreover have "insert (c_next a) (insert i (c_touched a)) - {i} = insert (c_next a) (c_touched a)" using assms by auto
  ultimately show ?thesis using assms(1) by (simp add: cache_ops Let_def extended_def)
qed

lemma step_extend:
  assumes pool: "pool_ok n s (pin_page (ap_id p) a)" "table_find (ap_id p) s = Some cur" "spare n 2 a" "unat (c_next a) < 524287"
    and ok: "heap_ok h a (pre @ [p])" and tup: "tuple_bytes tup \<noteq> []" "\<not> fits_on (tuple_bytes tup) p" and pins: "0 \<le> c_pins a (ap_id p)"
  shows "\<exists>f s' d1 d2. insert_step lg tup t cur s = Inr (Next_Page (if lg then t\<lparr>prev_lsn := INVALID_LSN\<rparr> else t) f s') \<and>
    pool_ok n s' (extended a (ap_id p) d1 d2) \<and> table_find (c_next a) s' = Some f \<and> c_next a \<notin> c_live a \<and>
    is_page d1 (p\<lparr>ap_next := c_next a\<rparr>) \<and> is_page d2 (empty_apage (c_next a) (ap_id p))"
proof -
  let ?i = "ap_id p" and ?j = "c_next a" and ?b = "pin_page (ap_id p) a"
  define t' where "t' = (if lg then t\<lparr>prev_lsn := INVALID_LSN\<rparr> else t)"
  have p: "?i \<in> c_live a" "?i \<notin> c_touched a" "is_page (c_data a ?i) p" using heap_okD(5) [OF ok, of p] by simp_all
  have d: "page_data cur s = Inr (c_data a ?i)" using pool.load_law [OF pool(1,2)] by (simp add: pin_page_def)
  have "client_store cur (c_data a ?i) s = s" by (rule client_store_same [OF d])
  then have u: "update_page cur (TablePage_InsertTuple tup) s = Inr (None, s)"
    using update_page_eq [where act = "TablePage_InsertTuple tup", OF d insert_page_full [OF p(3) tup]] by simp
  have "spare n 1 ?b" using spare_pin [of n 1 a ?i] pool(3) by (simp add: numeral_2_eq_2)
  moreover have "unat (c_next ?b) < 524287" using pool(4) by (simp add: pin_page_def)
  ultimately obtain f s1 where s1: "NewPgImp s = Inr (Some (?j, f), s1)" "?j \<notin> c_live a" "pool_ok n s1 (add_page ?b)"
    "table_find ?j s1 = Some f" "page_data f s1 = Inr zero_page" "\<And>q g. table_find q s = Some g \<Longrightarrow> 0 < c_pins ?b q \<Longrightarrow> table_find q s1 = Some g"
    using pool.create_ok [OF pool(1)] by (metis cache_op_fields(1,4))
  have cur: "table_find ?i s1 = Some cur" using s1(6) [OF pool(2)] pins by simp
  have ij: "?i \<noteq> ?j" using s1(2) p(1) by auto
  obtain d1 where d1: "SetNextPageId ?j (c_data a ?i) = Inr d1" "is_page d1 (p\<lparr>ap_next := ?j\<rparr>)"
    using SetNextPageId_is_page [OF p(3)] by blast
  obtain d2 where d2: "TablePage_Init lg ?j (int BUSTUB_PAGE_SIZE) ?i t zero_page = Inr (t', d2)" "is_page d2 (empty_apage ?j ?i)"
    using Init_page [of zero_page lg ?j ?i t] by (auto simp: zero_page_def t'_def)
  let ?s2 = "client_store cur d1 s1"
  have s2: "pool_ok n ?s2 (put_page ?i d1 (add_page ?b))" "table_find ?i ?s2 = Some cur" "table_find ?j ?s2 = Some f"
    using pool.store_law [OF s1(3) cur _ is_page_length [OF d1(2)]] pins ij cur s1(4) by (simp_all add: fun_eq_iff)
  have ld2: "page_data cur s1 = Inr (c_data a ?i)" "page_data cur ?s2 = Inr d1" "page_data f ?s2 = Inr zero_page"
    using pool.load_law [OF s1(3) cur] pool.load_law [OF s2(1,2)] pool.load_law [OF s2(1,3)] ij by simp_all
  let ?s3 = "client_store f d2 ?s2"
  have s3: "pool_ok n ?s3 (put_page ?j d2 (put_page ?i d1 (add_page ?b)))" "table_find ?i ?s3 = Some cur" "table_find ?j ?s3 = Some f"
    using pool.store_law [OF s2(1,3) _ is_page_length [OF d2(2)]] s2(2,3) by (simp_all add: fun_eq_iff)
  have ld3: "page_data cur ?s3 = Inr d1" using pool.load_law [OF s3(1,2)] ij by simp
  obtain s4 where s4: "UnpinPgImp ?i True ?s3 = Inr (True, s4)" "pool_ok n s4 (extended a ?i d1 d2)" "table_find ?j s4 = Some f"
    using pool.unpin_law [OF s3(1), of ?i True] extended_eq [OF ij p(2), of d2 d1] p(1) ij pins s3(3) by (auto simp: fun_eq_iff)
  have up: "update_page cur (\<lambda>d. ebind (SetNextPageId ?j d) (\<lambda>d. Inr ((), d))) s1 = Inr ((), ?s2)"
    "update_page f (TablePage_Init lg ?j (int BUSTUB_PAGE_SIZE) ?i t) ?s2 = Inr (t', ?s3)"
    using d1(1) d2(1) by (simp_all add: update_page_def ld2)
  have rd: "read_page cur GetNextPageId s = Inr INVALID_PAGE_ID" "read_page cur GetTablePageId ?s2 = Inr ?i" "read_page cur GetTablePageId ?s3 = Inr ?i"
    using is_page_header(1) [OF d1(2)] is_page_header(2) [OF p(3)] linked_next [OF heap_okD(1) [OF ok]]
    by (simp_all add: read_page_def d ld2 ld3)
  have "insert_step lg tup t cur s = Inr (Next_Page t' f s4)"
    using u s1(1) s4(1) up rd by (simp add: insert_step_def)
  with s4(2,3) s1(2) d1(2) d2(2) show ?thesis unfolding t'_def by blast
qed

text \<open>The table after a new last page \<open>q\<close> has been linked and unpinned.\<close>

lemma heap_ok_extend:
  assumes ok: "heap_ok h a (pre @ [p])" and new: "c_next a \<notin> c_live a" and d1: "is_page d1 (p\<lparr>ap_next := c_next a\<rparr>)"
    and q: "is_page d q" "ap_id q = c_next a" "ap_next q = INVALID_PAGE_ID"
    and a'_def: "a' = unpin_page (c_next a) True (put_page (c_next a) d (extended a (ap_id p) d1 d2))"
  shows "heap_ok h a' (pre @ [p\<lparr>ap_next := c_next a\<rparr>, q])" "only_changes (ap_id ` set (pre @ [p])) a a'" "c_next a' = c_next a + 1"
proof -
  let ?j = "c_next a"
  note D = heap_okD [OF ok]
  have fresh: "ap_id x \<noteq> ?j" if "x \<in> set (pre @ [p])" for x using D(5) [OF that] new by auto
  then have fresh_ids: "?j \<notin> ap_id ` set (pre @ [p])" by (metis imageE)
  have a': "c_live a' = insert ?j (c_live a)" "c_data a' = (c_data a)(ap_id p := d1, ?j := d)" "c_touched a' = c_touched a - {?j}"
    "c_pins a' = (c_pins a)(?j := 0)" "c_next a' = ?j + 1"
    using fresh by (auto simp: a'_def unpin_page_def extended_def Let_def put_page_def)
  show "c_next a' = ?j + 1" by (rule a'(5))
  show "only_changes (ap_id ` set (pre @ [p])) a a'" using new unfolding only_changes_def a' by auto
  have "linked (pre @ [p\<lparr>ap_next := ?j\<rparr>, q])" using linked_extend [OF D(1), of "p\<lparr>ap_next := ?j\<rparr>" q] q by simp
  moreover have "distinct (map ap_id (pre @ [p\<lparr>ap_next := ?j\<rparr>, q]))" using D(2) fresh_ids q(2) by auto
  moreover have "first_page_id h = ap_id (hd (pre @ [p\<lparr>ap_next := ?j\<rparr>, q]))" using D(4) by (cases pre) simp_all
  moreover have "heap_pages a' (pre @ [p\<lparr>ap_next := ?j\<rparr>, q])"
    using D(2,5) fresh q d1 unfolding heap_pages_def a' by (auto simp: image_iff)
  ultimately show "heap_ok h a' (pre @ [p\<lparr>ap_next := ?j\<rparr>, q])" by (simp add: heap_ok_def)
qed

definition insert_done ::
  "nat \<Rightarrow> table_heap \<Rightarrow> cache \<Rightarrow> apage list \<Rightarrow> RID \<Rightarrow> apage list \<Rightarrow> page_id \<Rightarrow> (db_error + insert_result) option \<Rightarrow> transaction \<Rightarrow> bool" where
  "insert_done n h a ps rid ps' j r t \<longleftrightarrow> (\<exists>cur s b q. r = Some (Inr (Placed rid t cur s)) \<and> pool_ok n s b \<and> table_find q s = Some cur \<and>
     0 < c_pins b q \<and> GetTablePageId (c_data b q) = Inr q \<and> heap_ok h (unpin_page q True b) ps' \<and>
     only_changes (ap_id ` set ps) a (unpin_page q True b) \<and> c_next b = j)"

lemma fits_on_new: "int (length bs) + 32 \<le> 4096 \<Longrightarrow> fits_on bs (empty_apage i j)"
  by (simp add: fits_on_def empty_apage_def room_def)

lemma grows_Cons: "grows bs (p # ps) \<longleftrightarrow> \<not> fits_on bs p \<and> grows bs ps"
  by (simp add: grows_def)

lemma place_on_pinned:
  assumes pool: "pool_ok n s b" "table_find (ap_id p) s = Some cur" "0 < c_pins b (ap_id p)" and pg: "is_page (c_data b (ap_id p)) p"
    and tup: "tuple_bytes tup \<noteq> []" "fits_on (tuple_bytes tup) p"
  obtains d' s' where "insert_loop lg tup t cur s = Some (Inr (Placed (fst (place_tuple (tuple_bytes tup) p)) t cur s'))"
    and "is_page d' (snd (place_tuple (tuple_bytes tup) p))" and "pool_ok n s' (put_page (ap_id p) d' b)" and "table_find (ap_id p) s' = Some cur"
proof -
  obtain d' where d': "insert_step lg tup t cur s = Inr (Placed (fst (place_tuple (tuple_bytes tup) p)) t cur (client_store cur d' s))"
    "is_page d' (snd (place_tuple (tuple_bytes tup) p))" "pool_ok n (client_store cur d' s) (put_page (ap_id p) d' b)"
    "table_find (ap_id p) (client_store cur d' s) = Some cur"
    using step_place [OF assms] by blast
  show ?thesis by (rule that [OF _ d'(2-4)]) (subst insert_loop.simps, simp add: d'(1))
qed

lemma loop_fits:
  assumes pool: "pool_ok n s (pin_page (ap_id p) a)" "table_find (ap_id p) s = Some cur" and pins: "\<forall>q \<in> c_live a. 0 \<le> c_pins a q"
    and ok: "heap_ok h a (pre @ p # rest)" and tup: "tuple_bytes tup \<noteq> []" "fits_on (tuple_bytes tup) p"
  shows "insert_done n h a (pre @ p # rest) (fst (place_tuple (tuple_bytes tup) p)) (pre @ snd (place_tuple (tuple_bytes tup) p) # rest)
    (c_next a) (insert_loop lg tup t cur s) t"
proof -
  have p: "ap_id p \<in> c_live a" "ap_id p \<notin> c_touched a" "is_page (c_data a (ap_id p)) p" using heap_okD(5) [OF ok, of p] by simp_all
  obtain d' s' where s': "insert_loop lg tup t cur s = Some (Inr (Placed (fst (place_tuple (tuple_bytes tup) p)) t cur s'))"
    "is_page d' (snd (place_tuple (tuple_bytes tup) p))" "pool_ok n s' (put_page (ap_id p) d' (pin_page (ap_id p) a))"
    "table_find (ap_id p) s' = Some cur"
    by (rule place_on_pinned [OF pool _ _ tup]) (use p pins in auto)
  have eq: "unpin_page (ap_id p) True (put_page (ap_id p) d' (pin_page (ap_id p) a)) = a\<lparr>c_data := (c_data a)(ap_id p := d')\<rparr>"
    by (rule unpin_put_pin [OF p(2)])
  have "heap_ok h (a\<lparr>c_data := (c_data a)(ap_id p := d')\<rparr>) (pre @ snd (place_tuple (tuple_bytes tup) p) # rest)"
    by (rule heap_ok_put [OF ok place_header s'(2)])
  moreover have "only_changes (ap_id ` set (pre @ p # rest)) a (a\<lparr>c_data := (c_data a)(ap_id p := d')\<rparr>)" by (rule only_changes_data) simp
  moreover have "GetTablePageId d' = Inr (ap_id p)" using is_page_header(1) [OF s'(2)] by (simp add: place_header)
  ultimately show ?thesis unfolding insert_done_def using s'(1,3,4) p(1) pins eq
    by (intro exI [of _ cur] exI [of _ s'] exI [of _ "put_page (ap_id p) d' (pin_page (ap_id p) a)"] exI [of _ "ap_id p"]) simp
qed

lemma loop_extend:
  assumes pool: "pool_ok n s (pin_page (ap_id p) a)" "table_find (ap_id p) s = Some cur" "spare n 2 a" "unat (c_next a) < 524287"
    and pins: "\<forall>q \<in> c_live a. 0 \<le> c_pins a q" and ok: "heap_ok h a (pre @ [p])"
    and tup: "tuple_bytes tup \<noteq> []" "int (length (tuple_bytes tup)) + 32 \<le> 4096" "\<not> fits_on (tuple_bytes tup) p"
    and q: "place_tuple (tuple_bytes tup) (empty_apage (c_next a) (ap_id p)) = (rid, q)"
  shows "insert_done n h a (pre @ [p]) rid (pre @ [p\<lparr>ap_next := c_next a\<rparr>, q]) (c_next a + 1)
    (insert_loop lg tup t cur s) (if lg then t\<lparr>prev_lsn := INVALID_LSN\<rparr> else t)"
proof -
  let ?j = "c_next a" and ?e = "empty_apage (c_next a) (ap_id p)" and ?t = "if lg then t\<lparr>prev_lsn := INVALID_LSN\<rparr> else t"
  have "0 \<le> c_pins a (ap_id p)" using pins heap_okD(5) [OF ok, of p] by simp
  from step_extend [OF pool ok tup(1,3) this]
  obtain f s1 d1 d2 where s1: "insert_step lg tup t cur s = Inr (Next_Page ?t f s1)" "pool_ok n s1 (extended a (ap_id p) d1 d2)"
    "table_find ?j s1 = Some f" "?j \<notin> c_live a" "is_page d1 (p\<lparr>ap_next := ?j\<rparr>)" "is_page d2 ?e" by blast
  have e: "ap_id ?e = ?j" by (simp add: empty_apage_def)
  obtain d' s' where s': "insert_loop lg tup ?t f s1 = Some (Inr (Placed (fst (place_tuple (tuple_bytes tup) ?e)) ?t f s'))"
    "is_page d' (snd (place_tuple (tuple_bytes tup) ?e))" "pool_ok n s' (put_page (ap_id ?e) d' (extended a (ap_id p) d1 d2))"
    "table_find (ap_id ?e) s' = Some f"
    by (rule place_on_pinned [of n s1 "extended a (ap_id p) d1 d2" ?e f tup])
      (use s1 e tup(1) fits_on_new [OF tup(2)] in \<open>simp_all add: extended_def Let_def\<close>)
  note s' = s' [unfolded q fst_conv snd_conv e]
  have qh: "ap_id q = ?j" "ap_next q = INVALID_PAGE_ID" using place_header [of "tuple_bytes tup" ?e] q by (simp_all add: empty_apage_def)
  note ext = heap_ok_extend [OF ok s1(4,5) s'(2) qh refl, of d2]
  have "insert_loop lg tup t cur s = Some (Inr (Placed rid ?t f s'))"
    by (subst insert_loop.simps) (simp only: s1(1) sum.case insert_result.case s'(1))
  moreover have "c_data (put_page ?j d' (extended a (ap_id p) d1 d2)) ?j = d'" "0 < c_pins (put_page ?j d' (extended a (ap_id p) d1 d2)) ?j"
    "c_next (put_page ?j d' (extended a (ap_id p) d1 d2)) = ?j + 1" by (simp_all add: extended_def Let_def)
  ultimately show ?thesis unfolding insert_done_def using s'(3,4) ext is_page_header(1) [OF s'(2)] qh(1)
    by (intro exI [of _ f] exI [of _ s'] exI [of _ "put_page ?j d' (extended a (ap_id p) d1 d2)"] exI [of _ ?j]) simp
qed

lemma insert_loop_ok:
  assumes "pool_ok n s (pin_page (ap_id p) a)" and "table_find (ap_id p) s = Some cur" and spare: "spare n 2 a"
    and nxt: "unat (c_next a) < 524287" and "heap_ok h a (pre @ p # rest)" and pins: "\<forall>q \<in> c_live a. 0 \<le> c_pins a q"
    and tup: "tuple_bytes tup \<noteq> []" "int (length (tuple_bytes tup)) + 32 \<le> 4096"
    and "table_insert_at (tuple_bytes tup) (c_next a) (p # rest) = (rid, ps')"
  shows "insert_done n h a (pre @ p # rest) rid (pre @ ps') (if grows (tuple_bytes tup) (p # rest) then c_next a + 1 else c_next a)
    (insert_loop lg tup t cur s) (if lg \<and> grows (tuple_bytes tup) (p # rest) then t\<lparr>prev_lsn := INVALID_LSN\<rparr> else t)"
  using assms(1,2,5,9)
proof (induction rest arbitrary: pre p cur s ps')
  case (Nil pre p cur s ps')
  show ?case
  proof (cases "fits_on (tuple_bytes tup) p")
    case True
    then show ?thesis using loop_fits [OF Nil(1,2) pins Nil(3) tup(1), of lg t] Nil(4) by (auto simp: grows_Cons split: prod.splits)
  next
    case False
    then show ?thesis using loop_extend [OF Nil(1,2) spare nxt pins Nil(3) tup False, of _ _ lg t] Nil(4)
      by (auto simp: grows_def split: prod.splits)
  qed
next
  case (Cons q rest pre p cur s ps')
  show ?case
  proof (cases "fits_on (tuple_bytes tup) p")
    case True
    then show ?thesis using loop_fits [OF Cons.prems(1,2) pins Cons.prems(3) tup(1), of lg t] Cons.prems(4)
      by (auto simp: grows_Cons split: prod.splits)
  next
    case False
    obtain qs where qs: "table_insert_at (tuple_bytes tup) (c_next a) (q # rest) = (rid, qs)" "ps' = p # qs"
      using Cons.prems(4) False by (auto split: prod.splits if_splits)
    have "0 \<le> c_pins a (ap_id p)" using pins heap_okD(5) [OF Cons.prems(3), of p] by simp
    from step_next [OF Cons.prems(1,2) spare_mono [OF spare] Cons.prems(3) tup(1) False this, of lg t]
    obtain f s1 where s1: "insert_step lg tup t cur s = Inr (Next_Page t f s1)" "pool_ok n s1 (pin_page (ap_id q) a)"
      "table_find (ap_id q) s1 = Some f" by auto
    have "insert_loop lg tup t cur s = insert_loop lg tup t f s1"
      by (subst insert_loop.simps) (simp only: s1(1) sum.case insert_result.case)
    then show ?thesis using Cons.IH [OF s1(2,3) _ qs(1), of "pre @ [p]"] Cons.prems(3) qs(2) False by (simp add: grows_Cons)
  qed
qed

lemma InsertTuple_heap:
  assumes pool: "pool_ok n s a" "spare n 2 a" "unat (c_next a) < 524287" and ok: "heap_ok h a ps" and size: "tuple_size tup + 32 < 4294967296"
  shows "heap_refined n h a ps (heap_step lg h (Insert_tuple tup) (t, s)) (heap_spec lg h (Insert_tuple tup) (t, ps, c_next a))"
proof -
  have u: "u32 (tuple_size tup + 32) = tuple_size tup + 32" using size by (simp add: tuple_size_def)
  obtain p rest where ps: "ps = p # rest" using heap_okD(3) [OF ok] by (cases ps) auto
  have p: "first_page_id h = ap_id p" "ap_id p \<in> c_live a" "is_page (c_data a (ap_id p)) p"
    using heap_okD(4) [OF ok] heap_okD(5) [OF ok, of p] by (simp_all add: ps)
  have pins: "\<forall>q \<in> c_live a. 0 \<le> c_pins a q" using pool.pins_nonneg [OF pool(1)] by blast
  obtain f s1 where s1: "FetchPgImp (ap_id p) s = Inr (Some f, s1)" "pool_ok n s1 (pin_page (ap_id p) a)" "table_find (ap_id p) s1 = Some f"
    "page_data f s1 = Inr (c_data a (ap_id p))" by (rule pool.fetch_ok [OF pool(1) p(2) spare_mono [OF pool(2)]]) simp
  consider (big) "4096 < tuple_size tup + 32" | (empty) "tuple_size tup + 32 \<le> 4096" "tuple_bytes tup = []"
    | (fits) "tuple_size tup + 32 \<le> 4096" "tuple_bytes tup \<noteq> []" by linarith
  then show ?thesis
  proof cases
    case big
    then show ?thesis using pool(1) ok
      by (auto simp: heap_spec_def heap_step_def TableHeap_InsertTuple_def u BUSTUB_PAGE_SIZE_def heap_refined_def only_changes_refl)
  next
    case empty
    have "insert_step lg tup t f s1 = Inl (Page_Error Assert_Failed)"
      using empty(2) s1(4) by (simp add: insert_step_def update_page_def TablePage_InsertTuple_def tuple_size_def)
    then have "insert_loop lg tup t f s1 = Some (Inl (Page_Error Assert_Failed))" by (subst insert_loop.simps) simp
    then show ?thesis using empty s1(1)
      by (simp add: heap_spec_def heap_step_def TableHeap_InsertTuple_def u BUSTUB_PAGE_SIZE_def heap_refined_def p(1))
  next
    case fits
    obtain rid ps' where ins: "table_insert_at (tuple_bytes tup) (c_next a) (p # rest) = (rid, ps')" by fastforce
    define t' where "t' = (if lg \<and> grows (tuple_bytes tup) ps then t\<lparr>prev_lsn := INVALID_LSN\<rparr> else t)"
    define j where "j = (if grows (tuple_bytes tup) ps then c_next a + 1 else c_next a)"
    have "insert_done n h a ps rid ps' j (insert_loop lg tup t f s1) t'"
      using insert_loop_ok [OF s1(2,3) pool(2,3) _ pins fits(2) _ ins, of h "[]" lg t] ok fits(1) by (simp add: ps tuple_size_def t'_def j_def)
    then obtain cur s2 b q where l: "insert_loop lg tup t f s1 = Some (Inr (Placed rid t' cur s2))" "pool_ok n s2 b" "table_find q s2 = Some cur"
      "0 < c_pins b q" "GetTablePageId (c_data b q) = Inr q" "heap_ok h (unpin_page q True b) ps'"
      "only_changes (ap_id ` set ps) a (unpin_page q True b)" "c_next b = j" by (auto simp: insert_done_def)
    have q: "page_data cur s2 = Inr (c_data b q)" "q \<in> c_live b" using pool.load_law [OF l(2,3)] by simp_all
    obtain s3 where s3: "UnpinPgImp q True s2 = Inr (True, s3)" "pool_ok n s3 (unpin_page q True b)"
      using pool.unpin_law [OF l(2) q(2) l(4), of True] by blast
    have "heap_step lg h (Insert_tuple tup) (t, s) = Some (Inr (Rid_of (Some rid), logged W_INSERT Tuple_default h rid t', s3))"
      using fits(1) l(1) s1(1) s3(1) l(5)
      by (simp add: heap_step_def TableHeap_InsertTuple_def u BUSTUB_PAGE_SIZE_def p(1) read_page_eq [OF q(1)] logged_def)
    moreover have "heap_spec lg h (Insert_tuple tup) (t, ps, c_next a) = Inr (Rid_of (Some rid), logged W_INSERT Tuple_default h rid t', ps', j)"
      using fits ins by (simp add: heap_spec_def ps t'_def j_def)
    ultimately show ?thesis using refinedI [OF _ s3(2) l(6,7)] l(8) by (simp add: unpin_page_def)
  qed
qed

end
