(* ===== verification/Table_Heap_Scan.thy ===== *)
theory Table_Heap_Scan
  imports Table_Heap_Spec
begin

text \<open>
  The iterator of a table: starting with \<^verbatim>\<open>Begin\<close> and advancing with \<^verbatim>\<open>operator++\<close> visits exactly the live
  rows, in the order of the chain and of the slots, and leaves the table and the pool as they were.
\<close>

section \<open>Rows from a slot on\<close>

definition row_of :: "apage \<Rightarrow> nat \<Rightarrow> byte list \<Rightarrow> tuple" where
  "row_of p i bs = \<lparr>t_rid = \<lparr>rid_page_id = ap_id p, rid_slot_num = word_of_nat i\<rparr>, t_data = Some bs\<rparr>"

definition rows_from :: "nat \<Rightarrow> apage \<Rightarrow> tuple list" where
  "rows_from k p = concat (map (\<lambda>i. case ap_slots p ! i of Slot False bs \<Rightarrow> [row_of p i bs] | _ \<Rightarrow> []) [k..<length (ap_slots p)])"

lemma page_rows_from: "page_rows p = rows_from 0 p"
  unfolding page_rows_def rows_from_def row_of_def by (rule refl)

lemma rows_from_step:
  "k < length (ap_slots p) \<Longrightarrow>
    rows_from k p = (case ap_slots p ! k of Slot False bs \<Rightarrow> row_of p k bs # rows_from (Suc k) p | _ \<Rightarrow> rows_from (Suc k) p)"
  by (simp add: rows_from_def upt_conv_Cons split: slot.splits bool.splits)

lemma rows_from_first:
  "rows_from k p = (case first_slot is_live k (drop k (ap_slots p)) of
       None \<Rightarrow> []
     | Some j \<Rightarrow> (case ap_slots p ! j of Slot False bs \<Rightarrow> row_of p j bs # rows_from (Suc j) p | _ \<Rightarrow> []))"
proof (induction "length (ap_slots p) - k" arbitrary: k)
  case 0
  then show ?case by (simp add: rows_from_def)
next
  case (Suc m)
  then have k: "k < length (ap_slots p)" "m = length (ap_slots p) - Suc k" by simp_all
  then show ?case using Suc.hyps(1) [OF k(2)]
    by (simp add: rows_from_step Cons_nth_drop_Suc [symmetric] is_live_def split: slot.splits bool.splits)
qed

lemma first_live:
  assumes "first_slot is_live k (drop k (ap_slots p)) = Some j"
  obtains bs where "k \<le> j" and "j < length (ap_slots p)" and "ap_slots p ! j = Slot False bs"
proof -
  note b = first_slot_bound [OF assms]
  then have "k \<le> length (ap_slots p)" "k + (j - k) = j" by auto
  then have "drop k (ap_slots p) ! (j - k) = ap_slots p ! j" by (simp only: nth_drop)
  with b have "is_live (ap_slots p ! j)" "j < length (ap_slots p)" by auto
  with b that show ?thesis by (auto simp: is_live_def split: slot.splits bool.splits)
qed

text \<open>The record identifier of the first row of a chain.\<close>

fun first_rid :: "apage list \<Rightarrow> RID" where
  "first_rid [] = RID_default"
| "first_rid (p # ps) = (case first_slot is_live 0 (ap_slots p) of
       None \<Rightarrow> first_rid ps
     | Some j \<Rightarrow> \<lparr>rid_page_id = ap_id p, rid_slot_num = word_of_nat j\<rparr>)"

lemma slots_bound: "is_page d p \<Longrightarrow> length (ap_slots p) \<le> 509"
  by (auto simp: is_page_def rep_def)

lemma unat_slot: "i \<le> 509 \<Longrightarrow> unat (word_of_nat i :: 32 word) = i" "i \<le> 509 \<Longrightarrow> unat (word_of_nat i + 1 :: 32 word) = Suc i"
proof -
  assume i: "i \<le> 509"
  then show 1: "unat (word_of_nat i :: 32 word) = i" by (simp add: unat_of_nat)
  have "word_of_nat i + 1 = (word_of_nat (Suc i) :: 32 word)" by simp
  then show "unat (word_of_nat i + 1 :: 32 word) = Suc i" using i by (simp only: unat_of_nat) simp
qed

lemma iterator_eq_iff: "iterator_eq i j \<longleftrightarrow> t_rid (it_tuple i) = t_rid (it_tuple j)"
  unfolding iterator_eq_def by (metis RID_int64_Get)

text \<open>What the page tells about its rows.\<close>

lemma GetFirstTupleRid_page:
  assumes "is_page d p"
  shows "GetFirstTupleRid d = Inr (case first_slot is_live 0 (ap_slots p) of
      None \<Rightarrow> (False, RID_default) | Some j \<Rightarrow> (True, \<lparr>rid_page_id = ap_id p, rid_slot_num = word_of_nat j\<rparr>))"
proof -
  have "refined (page_step False First_op (\<lparr>txn_state = GROWING, prev_lsn = 0\<rparr>, d)) (spec_step False First_op (\<lparr>txn_state = GROWING, prev_lsn = 0\<rparr>, p))"
    by (rule page_step_refines [OF assms])
  then show ?thesis
    by (auto simp: page_step_def spec_step_def spec_found_def RID_default_def ebind_Inr split: option.splits)
qed

lemma GetNextTupleRid_page:
  assumes "is_page d p" and "i < length (ap_slots p)"
  shows "GetNextTupleRid \<lparr>rid_page_id = ap_id p, rid_slot_num = word_of_nat i\<rparr> d =
    Inr (case first_slot is_live (Suc i) (drop (Suc i) (ap_slots p)) of
      None \<Rightarrow> (False, RID_default) | Some j \<Rightarrow> (True, \<lparr>rid_page_id = ap_id p, rid_slot_num = word_of_nat j\<rparr>))"
proof -
  let ?rid = "\<lparr>rid_page_id = ap_id p, rid_slot_num = word_of_nat i\<rparr>" and ?t = "\<lparr>txn_state = GROWING, prev_lsn = 0\<rparr>"
  have u: "unat (word_of_nat i + 1 :: 32 word) = Suc i" using unat_slot(2) slots_bound [OF assms(1)] assms(2) by simp
  have "refined (page_step False (Next_op ?rid) (?t, d)) (spec_step False (Next_op ?rid) (?t, p))"
    by (rule page_step_refines [OF assms(1)])
  then show ?thesis
    by (auto simp: page_step_def spec_step_def spec_found_def RID_default_def ebind_Inr u split: option.splits)
qed

lemma GetTuple_row:
  assumes pool: "pool_ok n s a" "spare n 1 a" and ok: "heap_ok h a (pre @ p # rest)" and i: "i < length (ap_slots p)" "ap_slots p ! i = Slot False bs"
  shows "\<exists>s'. TableHeap_GetTuple lg (t_rid (row_of p i bs)) t s = Inr (Some (row_of p i bs), t, s') \<and> pool_ok n s' a \<and>
    (\<forall>q g. table_find q s = Some g \<and> 0 < c_pins a q \<longrightarrow> table_find q s' = Some g)"
proof -
  let ?rid = "t_rid (row_of p i bs)"
  have id: "rid_page_id ?rid = ap_id p" by (simp add: row_of_def)
  have pg: "is_page (c_data a (ap_id p)) p" using heap_okD(5) [OF ok, of p] by simp
  have sl: "slot_at p ?rid = Some (Slot False bs)"
    using i unat_slot(1) [of i] slots_bound [OF pg] by (simp add: slot_at_def row_of_def Let_def)
  have sp: "spec_step lg (Get_op ?rid) (t, p) = Inr (Tuple_out (Some \<lparr>t_rid = ?rid, t_data = Some bs\<rparr>), t, p)"
    by (simp add: spec_step_def sl)
  obtain d' where "page_step lg (Get_op ?rid) (t, c_data a (ap_id p)) = Inr (Tuple_out (Some \<lparr>t_rid = ?rid, t_data = Some bs\<rparr>), t, d')"
    by (rule page_op_ok [OF pg sp])
  then have get: "TablePage_GetTuple lg ?rid t (c_data a (ap_id p)) = Inr (Some (row_of p i bs), t)"
    by (auto simp: page_step_def ebind_Inr row_of_def)
  obtain f s1 s2 where c: "FetchPgImp (ap_id p) s = Inr (Some f, s1)" "page_data f s1 = Inr (c_data a (ap_id p))"
    "UnpinPgImp (ap_id p) False s1 = Inr (True, s2)" "pool_ok n s2 a"
    "\<And>q g. table_find q s = Some g \<Longrightarrow> 0 < c_pins a q \<Longrightarrow> table_find q s2 = Some g"
    by (rule look_session [OF pool ok, of p]) (simp, rule that)
  have "TableHeap_GetTuple lg ?rid t s = Inr (Some (row_of p i bs), t, s2)"
    using c(1,3) by (simp add: TableHeap_GetTuple_def id read_page_eq [OF c(2)] get)
  with c(4,5) show ?thesis by blast
qed

section \<open>\<^verbatim>\<open>Begin\<close>\<close>

lemma begin_loop_ok:
  assumes "pool_ok n s a" and spare: "spare n 1 a" and ok: "heap_ok h a (pre @ rest)"
    and i: "i = (case rest of [] \<Rightarrow> INVALID_PAGE_ID | p # _ \<Rightarrow> ap_id p)"
  shows "\<exists>s'. begin_loop i s = Some (Inr (first_rid rest, s')) \<and> pool_ok n s' a"
  using assms(1,3,4)
proof (induction rest arbitrary: pre i s)
  case Nil
  then show ?case by (subst begin_loop.simps) simp
next
  case (Cons p rest pre i s)
  have pg: "is_page (c_data a (ap_id p)) p" and live: "ap_id p \<in> c_live a" using heap_okD(5) [OF Cons.prems(2), of p] by simp_all
  then have valid: "ap_id p \<noteq> INVALID_PAGE_ID"
    using live_valid_id [of s "c_live a" "c_touched a"] Cons.prems(1) by (auto simp: pool_ok_def cache_rel_def)
  obtain f s1 s2 where c: "FetchPgImp (ap_id p) s = Inr (Some f, s1)" "page_data f s1 = Inr (c_data a (ap_id p))"
    "UnpinPgImp (ap_id p) False s1 = Inr (True, s2)" "pool_ok n s2 a" "page_data f s2 = Inr (c_data a (ap_id p))"
    by (rule look_session [OF Cons.prems(1) spare Cons.prems(2), of p]) simp
  have nx: "read_page f GetNextPageId s2 = Inr (case rest of [] \<Rightarrow> INVALID_PAGE_ID | q # _ \<Rightarrow> ap_id q)"
    using is_page_header(2) [OF pg] linked_next [OF heap_okD(1) [OF Cons.prems(2)]] by (simp add: read_page_eq [OF c(5)])
  have fr: "read_page f GetFirstTupleRid s1 = Inr (case first_slot is_live 0 (ap_slots p) of
      None \<Rightarrow> (False, RID_default) | Some j \<Rightarrow> (True, \<lparr>rid_page_id = ap_id p, rid_slot_num = word_of_nat j\<rparr>))"
    by (simp add: read_page_eq [OF c(2)] GetFirstTupleRid_page [OF pg])
  show ?case
  proof (cases "first_slot is_live 0 (ap_slots p)")
    case None
    then have "begin_loop i s = begin_loop (case rest of [] \<Rightarrow> INVALID_PAGE_ID | q # _ \<Rightarrow> ap_id q) s2"
      using c(1,3) valid Cons.prems(3) fr nx by (subst begin_loop.simps) simp
    then show ?thesis using Cons.IH [OF c(4), of "pre @ [p]"] Cons.prems(2) None by simp
  next
    case (Some j)
    then show ?thesis using c(1,3,4) valid Cons.prems(3) fr by (subst begin_loop.simps) simp
  qed
qed

section \<open>\<^verbatim>\<open>operator++\<close>\<close>

text \<open>Where the remaining rows \<open>R\<close> of a chain begin: at slot \<open>j\<close> of page \<open>q\<close>.\<close>

definition starts_at :: "apage list \<Rightarrow> tuple list \<Rightarrow> tuple \<Rightarrow> bool" where
  "starts_at ps R r \<longleftrightarrow> (\<exists>pre q rest j bs. ps = pre @ q # rest \<and> j < length (ap_slots q) \<and> ap_slots q ! j = Slot False bs \<and>
     r = row_of q j bs \<and> R = rows_from j q @ rows rest)"

lemma rows_Cons: "rows (p # ps) = rows_from 0 p @ rows ps"
  by (simp add: rows_def page_rows_from)

lemma first_rid_rows:
  "rows rest = [] \<and> first_rid rest = RID_default \<or> (\<exists>r. starts_at (pre @ rest) (rows rest) r \<and> first_rid rest = t_rid r)"
proof (induction rest arbitrary: pre)
  case Nil
  then show ?case by (simp add: rows_def)
next
  case (Cons p rest)
  show ?case
  proof (cases "first_slot is_live 0 (ap_slots p)")
    case None
    then have "rows (p # rest) = rows rest" "first_rid (p # rest) = first_rid rest"
      using rows_from_first [of 0 p] by (simp_all add: rows_Cons)
    with Cons.IH [of "pre @ [p]"] show ?thesis by simp
  next
    case (Some j)
    then obtain bs where j: "j < length (ap_slots p)" "ap_slots p ! j = Slot False bs" using first_live [of 0 p j] by auto
    have "rows_from 0 p = rows_from j p" using rows_from_first [of 0 p] Some j rows_from_step [OF j(1)] by simp
    then have "starts_at (pre @ p # rest) (rows (p # rest)) (row_of p j bs)" using j unfolding starts_at_def rows_Cons by metis
    moreover have "first_rid (p # rest) = t_rid (row_of p j bs)" using Some by (simp add: row_of_def)
    ultimately show ?thesis by blast
  qed
qed

lemma next_loop_ok:
  assumes "pool_ok n s (pin_page (ap_id p) a)" and "table_find (ap_id p) s = Some cur" and spare: "spare n 2 a"
    and pins: "\<forall>q \<in> c_live a. 0 \<le> c_pins a q" and "heap_ok h a (pre @ p # rest)"
  shows "\<exists>q f s'. next_loop cur RID_default s = Some (Inr (first_rid rest, f, s')) \<and> q \<in> set (p # rest) \<and>
    pool_ok n s' (pin_page (ap_id q) a) \<and> table_find (ap_id q) s' = Some f"
  using assms(1,2,5)
proof (induction rest arbitrary: pre p cur s)
  case (Nil pre p cur s)
  have "is_page (c_data a (ap_id p)) p" using heap_okD(5) [OF Nil(3), of p] by simp
  moreover have "page_data cur s = Inr (c_data a (ap_id p))" using pool.load_law [OF Nil(1,2)] by simp
  ultimately have "read_page cur GetNextPageId s = Inr INVALID_PAGE_ID"
    using is_page_header(2) linked_next [OF heap_okD(1) [OF Nil(3)]] by (simp add: read_page_def)
  then show ?case using Nil(1,2) by (subst next_loop.simps) auto
next
  case (Cons q rest pre p cur s)
  note ok = Cons.prems(3)
  have p: "ap_id p \<in> c_live a" "ap_id p \<notin> c_touched a" "is_page (c_data a (ap_id p)) p"
    and q: "ap_id q \<in> c_live a" "is_page (c_data a (ap_id q)) q" and pq: "ap_id p \<noteq> ap_id q"
    using heap_okD(5) [OF ok, of p] heap_okD(5) [OF ok, of q] heap_okD(2) [OF ok] by auto
  have valid: "ap_id q \<noteq> INVALID_PAGE_ID"
    using live_valid_id [of s "c_live a" "c_touched a"] Cons.prems(1) q(1) by (auto simp: pool_ok_def cache_rel_def)
  have d: "page_data cur s = Inr (c_data a (ap_id p))" using pool.load_law [OF Cons.prems(1,2)] by simp
  have nx: "read_page cur GetNextPageId s = Inr (ap_id q)"
    using is_page_header(2) [OF p(3)] linked_next [OF heap_okD(1) [OF ok]] by (simp add: read_page_eq [OF d])
  have "spare n 1 (pin_page (ap_id p) a)" using spare_pin [of n 1 a] spare by (simp add: numeral_2_eq_2)
  then obtain f s1 where s1: "FetchPgImp (ap_id q) s = Inr (Some f, s1)" "pool_ok n s1 (pin_page (ap_id q) (pin_page (ap_id p) a))"
    "table_find (ap_id q) s1 = Some f" "\<And>r g. table_find r s = Some g \<Longrightarrow> 0 < c_pins (pin_page (ap_id p) a) r \<Longrightarrow> table_find r s1 = Some g"
    using pool.fetch_ok [OF Cons.prems(1)] q(1) by (metis cache_op_fields(1))
  have "table_find (ap_id p) s1 = Some cur" using s1(4) [OF Cons.prems(2)] pins p(1) by simp
  then have "read_page cur GetTablePageId s1 = Inr (ap_id p)"
    using pool.load_law [OF s1(2)] is_page_header(1) [OF p(3)] by (simp add: read_page_def)
  moreover obtain s2 where s2: "UnpinPgImp (ap_id p) False s1 = Inr (True, s2)" "pool_ok n s2 (pin_page (ap_id q) a)" "table_find (ap_id q) s2 = Some f"
  proof -
    have "unpin_page (ap_id p) False (pin_page (ap_id q) (pin_page (ap_id p) a)) = pin_page (ap_id q) a"
      using pq by (simp add: cache_ops fun_upd_twist)
    then show ?thesis using that pool.unpin_law [OF s1(2), of "ap_id p" False] p(1,2) pins pq s1(3) by (auto simp: fun_eq_iff)
  qed
  moreover have "read_page f GetFirstTupleRid s2 = Inr (case first_slot is_live 0 (ap_slots q) of
      None \<Rightarrow> (False, RID_default) | Some j \<Rightarrow> (True, \<lparr>rid_page_id = ap_id q, rid_slot_num = word_of_nat j\<rparr>))"
    using pool.load_law [OF s2(2,3)] by (simp add: read_page_def GetFirstTupleRid_page [OF q(2)])
  ultimately have step: "next_loop cur RID_default s = (case first_slot is_live 0 (ap_slots q) of
      None \<Rightarrow> next_loop f RID_default s2 | Some j \<Rightarrow> Some (Inr (\<lparr>rid_page_id = ap_id q, rid_slot_num = word_of_nat j\<rparr>, f, s2)))"
    using nx valid s1(1) by (subst next_loop.simps) (simp split: option.splits)
  show ?case
  proof (cases "first_slot is_live 0 (ap_slots q)")
    case None
    then show ?thesis using step Cons.IH [OF s2(2,3), of "pre @ [p]"] ok by auto
  next
    case (Some j)
    then show ?thesis using step s2(2,3) by auto
  qed
qed

lemma heap_ok_pin [simp]: "heap_ok h (pin_page q a) ps \<longleftrightarrow> heap_ok h a ps"
  by (simp add: heap_ok_def heap_pages_def)

text \<open>The tuple of the iterator is loaded while the page \<open>q\<close> is pinned in the frame \<open>f\<close>, which is then unpinned.\<close>

lemma load_and_unpin:
  assumes pool: "pool_ok n s (pin_page (ap_id q) a)" "table_find (ap_id q) s = Some f" "spare n 2 a"
    and ok: "heap_ok h a ps" "q \<in> set ps" and pins: "\<forall>q \<in> c_live a. 0 \<le> c_pins a q"
    and it: "it_heap it = h" "R = [] \<and> t_rid (it_tuple it) = RID_default \<or> starts_at ps R r \<and> t_rid (it_tuple it) = t_rid r"
  shows "\<exists>tup s1 s2. (if \<not> iterator_eq it (TableHeap_End (it_heap it)) then load_tuple lg (it_tuple it) t s else Inr (it_tuple it, t, s)) = Inr (tup, t, s1) \<and>
    read_page f GetTablePageId s1 = Inr (ap_id q) \<and> UnpinPgImp (ap_id q) False s1 = Inr (True, s2) \<and> pool_ok n s2 a \<and>
    (R = [] \<and> t_rid tup = RID_default \<or> starts_at ps R tup)"
proof -
  let ?b = "pin_page (ap_id q) a"
  have q: "ap_id q \<in> c_live a" "ap_id q \<notin> c_touched a" "is_page (c_data a (ap_id q)) q" using heap_okD(5) [OF ok] by simp_all
  have pinned: "0 < c_pins ?b (ap_id q)" using pins q(1) by simp
  have fin: "\<exists>s2. read_page f GetTablePageId s1 = Inr (ap_id q) \<and> UnpinPgImp (ap_id q) False s1 = Inr (True, s2) \<and> pool_ok n s2 a"
    if "pool_ok n s1 ?b" "table_find (ap_id q) s1 = Some f" for s1
    using pool.load_law [OF that] pool.unpin_law [OF that(1), of "ap_id q" False] q pinned is_page_header(1) [OF q(3)]
    by (auto simp: read_page_def)
  have fin_rid: "t_rid (it_tuple (TableHeap_End h)) = RID_default" by (simp add: TableHeap_End_def Tuple_rid_def RID_default_def)
  from it(2) show ?thesis
  proof
    assume "R = [] \<and> t_rid (it_tuple it) = RID_default"
    then show ?thesis using fin [OF pool(1,2)] fin_rid it(1) by (auto simp: iterator_eq_iff)
  next
    assume r: "starts_at ps R r \<and> t_rid (it_tuple it) = t_rid r"
    then obtain pre p rest j bs where p: "ps = pre @ p # rest" "j < length (ap_slots p)" "ap_slots p ! j = Slot False bs" "r = row_of p j bs"
      unfolding starts_at_def by blast
    have "ap_id p \<in> c_live a" using heap_okD(5) [OF ok(1), of p] p(1) by simp
    then have "ap_id p \<noteq> INVALID_PAGE_ID"
      using live_valid_id [of s "c_live a" "c_touched a"] pool(1) by (auto simp: pool_ok_def cache_rel_def)
    then have "t_rid r \<noteq> RID_default" by (simp add: p(4) row_of_def RID_default_def)
    then have ne: "\<not> iterator_eq it (TableHeap_End (it_heap it))" using r fin_rid it(1) by (simp add: iterator_eq_iff)
    have sp: "spare n 1 ?b" using spare_pin [of n 1 a] pool(3) by (simp add: numeral_2_eq_2)
    have okb: "heap_ok h ?b (pre @ p # rest)" using ok(1) p(1) by simp
    obtain s1 where s1: "TableHeap_GetTuple lg (t_rid r) t s = Inr (Some r, t, s1)" "pool_ok n s1 ?b" "table_find (ap_id q) s1 = Some f"
      using GetTuple_row [OF pool(1) sp okb p(2,3), of lg t] pool(2) pinned p(4) by blast
    have "load_tuple lg (it_tuple it) t s = Inr (r, t, s1)" using s1(1) r by (simp add: load_tuple_def)
    then show ?thesis using ne fin [OF s1(2,3)] r by auto
  qed
qed

lemma next_ok:
  assumes pool: "pool_ok n s a" "spare n 2 a" and ok: "heap_ok h a (pre @ p # rest)" and i: "i < length (ap_slots p)" "ap_slots p ! i = Slot False bs"
    and it: "it_heap it = h" "it_tuple it = row_of p i bs" and R: "R = rows_from (Suc i) p @ rows rest"
  shows "\<exists>it' s'. TableIterator_next lg it t s = Some (Inr (it', t, s')) \<and> pool_ok n s' a \<and> it_heap it' = h \<and>
    (R = [] \<and> t_rid (it_tuple it') = RID_default \<or> starts_at (pre @ p # rest) R (it_tuple it'))"
proof -
  let ?ps = "pre @ p # rest" and ?rid = "\<lparr>rid_page_id = ap_id p, rid_slot_num = word_of_nat i\<rparr>"
  have p: "ap_id p \<in> c_live a" "is_page (c_data a (ap_id p)) p" using heap_okD(5) [OF ok, of p] by simp_all
  have pins: "\<forall>q \<in> c_live a. 0 \<le> c_pins a q" using pool.pins_nonneg [OF pool(1)] by blast
  obtain f s1 where s1: "FetchPgImp (ap_id p) s = Inr (Some f, s1)" "pool_ok n s1 (pin_page (ap_id p) a)" "table_find (ap_id p) s1 = Some f"
    "page_data f s1 = Inr (c_data a (ap_id p))" by (rule pool.fetch_ok [OF pool(1) p(1) spare_mono [OF pool(2)]]) simp
  let ?find = "first_slot is_live (Suc i) (drop (Suc i) (ap_slots p))"
  have g: "read_page f (GetNextTupleRid ?rid) s1 = Inr (case ?find of
      None \<Rightarrow> (False, RID_default) | Some j \<Rightarrow> (True, \<lparr>rid_page_id = ap_id p, rid_slot_num = word_of_nat j\<rparr>))"
    by (simp add: read_page_eq [OF s1(4)] GetNextTupleRid_page [OF p(2) i(1)])
  have rid: "t_rid (it_tuple it) = ?rid" by (simp add: it(2) row_of_def)
  have "\<exists>rid q f' s2. (case ?find of None \<Rightarrow> next_loop f RID_default s1
        | Some j \<Rightarrow> Some (Inr (\<lparr>rid_page_id = ap_id p, rid_slot_num = word_of_nat j\<rparr>, f, s1))) = Some (Inr (rid, f', s2)) \<and>
      q \<in> set ?ps \<and> pool_ok n s2 (pin_page (ap_id q) a) \<and> table_find (ap_id q) s2 = Some f' \<and>
      (R = [] \<and> rid = RID_default \<or> (\<exists>r. starts_at ?ps R r \<and> rid = t_rid r))"
  proof (cases ?find)
    case None
    then have "R = rows rest" using R rows_from_first [of "Suc i" p] by simp
    moreover obtain q f' s2 where "next_loop f RID_default s1 = Some (Inr (first_rid rest, f', s2))" "q \<in> set (p # rest)"
      "pool_ok n s2 (pin_page (ap_id q) a)" "table_find (ap_id q) s2 = Some f'" using next_loop_ok [OF s1(2,3) pool(2) pins ok] by blast
    moreover have "rows rest = [] \<and> first_rid rest = RID_default \<or> (\<exists>r. starts_at ?ps (rows rest) r \<and> first_rid rest = t_rid r)"
      using first_rid_rows [of rest "pre @ [p]"] by simp
    ultimately show ?thesis using None
      by (intro exI [of _ "first_rid rest"] exI [of _ q] exI [of _ f'] exI [of _ s2]) auto
  next
    case (Some j)
    then obtain bs' where j: "Suc i \<le> j" "j < length (ap_slots p)" "ap_slots p ! j = Slot False bs'" by (rule first_live)
    have "rows_from (Suc i) p = rows_from j p" using rows_from_first [of "Suc i" p] Some j rows_from_step [OF j(2)] by simp
    then have "starts_at ?ps R (row_of p j bs')" unfolding starts_at_def R using j by metis
    moreover have "\<lparr>rid_page_id = ap_id p, rid_slot_num = word_of_nat j\<rparr> = t_rid (row_of p j bs')" by (simp add: row_of_def)
    ultimately show ?thesis using Some s1(2,3)
      by (intro exI [of _ "t_rid (row_of p j bs')"] exI [of _ p] exI [of _ f] exI [of _ s1]) auto
  qed
  then obtain rid q f' s2 where s2: "(case ?find of None \<Rightarrow> next_loop f RID_default s1
        | Some j \<Rightarrow> Some (Inr (\<lparr>rid_page_id = ap_id p, rid_slot_num = word_of_nat j\<rparr>, f, s1))) = Some (Inr (rid, f', s2))"
    "q \<in> set ?ps" "pool_ok n s2 (pin_page (ap_id q) a)" "table_find (ap_id q) s2 = Some f'"
    "R = [] \<and> rid = RID_default \<or> (\<exists>r. starts_at ?ps R r \<and> rid = t_rid r)" by blast
  define it' where "it' = it\<lparr>it_tuple := (it_tuple it)\<lparr>t_rid := rid\<rparr>\<rparr>"
  have it': "it_heap it' = h" "t_rid (it_tuple it') = rid" by (simp_all add: it'_def it(1))
  then obtain r where "R = [] \<and> t_rid (it_tuple it') = RID_default \<or> starts_at ?ps R r \<and> t_rid (it_tuple it') = t_rid r" using s2(5) by metis
  from load_and_unpin [OF s2(3,4) pool(2) ok s2(2) pins it'(1) this, of lg t]
  obtain tup s3 s4 where s4: "(if \<not> iterator_eq it' (TableHeap_End (it_heap it')) then load_tuple lg (it_tuple it') t s2
      else Inr (it_tuple it', t, s2)) = Inr (tup, t, s3)" "read_page f' GetTablePageId s3 = Inr (ap_id q)"
    "UnpinPgImp (ap_id q) False s3 = Inr (True, s4)" "pool_ok n s4 a" "R = [] \<and> t_rid tup = RID_default \<or> starts_at ?ps R tup" by blast
  obtain found rid0 where found: "read_page f (GetNextTupleRid ?rid) s1 = Inr (found, rid0)"
    "(if found then Some (Inr (rid0, f, s1)) else next_loop f rid0 s1) = Some (Inr (rid, f', s2))"
    using g s2(1) by (cases ?find) auto
  have "ebind (if \<not> iterator_eq it' (TableHeap_End (it_heap it')) then load_tuple lg (it_tuple it') t s2 else Inr (it_tuple it', t, s2))
     (\<lambda>(tup, t, s). ebind (read_page f' GetTablePageId s) (\<lambda>p. ebind (pool_call (UnpinPgImp p False s)) (\<lambda>(_, s).
        Inr (it'\<lparr>it_tuple := tup\<rparr>, t, s)))) = Inr (it'\<lparr>it_tuple := tup\<rparr>, t, s4)"
    unfolding s4(1) using s4(2,3) by simp
  then have "TableIterator_next lg it t s = Some (Inr (it'\<lparr>it_tuple := tup\<rparr>, t, s4))"
    using s1(1) found(1) unfolding TableIterator_next_def rid Let_def it'_def by (simp add: found(2))
  then show ?thesis using s4(4,5) it'(1) by auto
qed

section \<open>A complete scan\<close>

lemma live_ids: "pool_ok n s a \<Longrightarrow> heap_ok h a ps \<Longrightarrow> p \<in> set ps \<Longrightarrow> ap_id p \<noteq> INVALID_PAGE_ID"
  using heap_okD(5) live_valid_id [of s "c_live a" "c_touched a"] by (auto simp: pool_ok_def cache_rel_def)

lemma starts_at_rid:
  assumes "pool_ok n s a" and "heap_ok h a ps" and "starts_at ps R r"
  shows "rid_page_id (t_rid r) \<noteq> INVALID_PAGE_ID"
proof -
  obtain pre q rest j bs where "ps = pre @ q # rest" "r = row_of q j bs" using assms(3) unfolding starts_at_def by blast
  with live_ids [OF assms(1,2), of q] show ?thesis by (simp add: row_of_def)
qed

lemma for_tuples_collect:
  assumes "pool_ok n s a" and spare: "spare n 2 a" and ok: "heap_ok h a ps" and "it_heap it = h"
    and "R = [] \<and> t_rid (it_tuple it) = RID_default \<or> starts_at ps R (it_tuple it)"
  shows "\<exists>s'. for_tuples lg collect it (xs, t, s) = Some (Inr (xs @ R, t, s')) \<and> pool_ok n s' a"
  using assms(1,4,5)
proof (induction "length R" arbitrary: R it xs s)
  case 0
  then have "R = []" "\<not> starts_at ps R (it_tuple it)" by (auto simp: starts_at_def rows_from_step)
  then have "iterator_eq it (TableHeap_End (it_heap it))"
    using 0(4) by (auto simp: iterator_eq_iff TableHeap_End_def Tuple_rid_def RID_default_def)
  then show ?case using 0(2) \<open>R = []\<close> by (subst for_tuples.simps) simp
next
  case (Suc m)
  then have st: "starts_at ps R (it_tuple it)" by auto
  then obtain pre q rest j bs where q: "ps = pre @ q # rest" "j < length (ap_slots q)" "ap_slots q ! j = Slot False bs"
    "it_tuple it = row_of q j bs" "R = rows_from j q @ rows rest" unfolding starts_at_def by blast
  define R' where "R' = rows_from (Suc j) q @ rows rest"
  have R: "R = it_tuple it # R'" using q rows_from_step [OF q(2)] by (simp add: R'_def)
  have ne: "\<not> iterator_eq it (TableHeap_End (it_heap it))"
    using starts_at_rid [OF Suc.prems(1) ok st] by (auto simp: iterator_eq_iff TableHeap_End_def Tuple_rid_def)
  obtain it' s' where s': "TableIterator_next lg it t s = Some (Inr (it', t, s'))" "pool_ok n s' a" "it_heap it' = h"
    "R' = [] \<and> t_rid (it_tuple it') = RID_default \<or> starts_at ps R' (it_tuple it')"
    using next_ok [OF Suc.prems(1) spare ok [unfolded q(1)] q(2,3) Suc.prems(2) q(4) R'_def, of lg t] q(1) by blast
  have "m = length R'" using Suc.hyps(2) R by simp
  from Suc.hyps(1) [OF this s'(2-4)] obtain s'' where
    "for_tuples lg collect it' (xs @ [it_tuple it], t, s') = Some (Inr ((xs @ [it_tuple it]) @ R', t, s''))" "pool_ok n s'' a" by blast
  then show ?case using ne s'(1) R by (subst for_tuples.simps) (simp add: collect_def)
qed

lemma Begin_ok:
  assumes pool: "pool_ok n s a" "spare n 2 a" and ok: "heap_ok h a ps"
  shows "\<exists>it s'. TableHeap_Begin lg h t s = Some (Inr (it, t, s')) \<and> pool_ok n s' a \<and> it_heap it = h \<and>
    (rows ps = [] \<and> t_rid (it_tuple it) = RID_default \<or> starts_at ps (rows ps) (it_tuple it))"
proof -
  have sp: "spare n 1 a" using spare_mono [OF pool(2)] by simp
  have "first_page_id h = (case ps of [] \<Rightarrow> INVALID_PAGE_ID | p # _ \<Rightarrow> ap_id p)" using heap_okD(3,4) [OF ok] by (cases ps) simp_all
  then obtain s1 where s1: "begin_loop (first_page_id h) s = Some (Inr (first_rid ps, s1))" "pool_ok n s1 a"
    using begin_loop_ok [OF pool(1) sp, of h "[]" ps] ok by auto
  from first_rid_rows [of ps "[]"] show ?thesis
  proof
    assume "rows ps = [] \<and> first_rid ps = RID_default"
    then show ?thesis using s1 by (simp add: TableHeap_Begin_def new_TableIterator_def RID_default_def Tuple_rid_def)
  next
    assume "\<exists>r. starts_at ([] @ ps) (rows ps) r \<and> first_rid ps = t_rid r"
    then obtain r where r: "starts_at ps (rows ps) r" "first_rid ps = t_rid r" by auto
    then obtain pre p rest j bs where p: "ps = pre @ p # rest" "j < length (ap_slots p)" "ap_slots p ! j = Slot False bs" "r = row_of p j bs"
      unfolding starts_at_def by blast
    obtain s2 where s2: "TableHeap_GetTuple lg (t_rid r) t s1 = Inr (Some r, t, s2)" "pool_ok n s2 a"
      using GetTuple_row [OF s1(2) sp ok [unfolded p(1)] p(2,3), of lg t] p(4) by blast
    then have "TableHeap_Begin lg h t s = Some (Inr (\<lparr>it_heap = h, it_tuple = r\<rparr>, t, s2))"
      using s1(1) r(2) starts_at_rid [OF pool(1) ok r(1)]
      by (simp add: TableHeap_Begin_def new_TableIterator_def load_tuple_def Tuple_rid_def)
    then show ?thesis using s2(2) r(1) by auto
  qed
qed

lemma Scan_heap:
  assumes pool: "pool_ok n s a" "spare n 2 a" and ok: "heap_ok h a ps"
  shows "heap_refined n h a ps (heap_step lg h Scan (t, s)) (heap_spec lg h Scan (t, ps, c_next a))"
proof -
  obtain it s1 where s1: "TableHeap_Begin lg h t s = Some (Inr (it, t, s1))" "pool_ok n s1 a" "it_heap it = h"
    "rows ps = [] \<and> t_rid (it_tuple it) = RID_default \<or> starts_at ps (rows ps) (it_tuple it)" using Begin_ok [OF assms] by blast
  obtain s2 where "for_tuples lg collect it ([], t, s1) = Some (Inr ([] @ rows ps, t, s2))" "pool_ok n s2 a"
    using for_tuples_collect [OF s1(2) pool(2) ok s1(3,4)] by blast
  then show ?thesis using s1(1) ok
    by (auto simp: heap_step_def heap_spec_def heap_scan_def heap_refined_def only_changes_refl)
qed

section \<open>Sequences of operations\<close>

lemma new_TableHeap_ok:
  assumes pool: "pool_ok n s a" "spare n 1 a" "unat (c_next a) < 524287"
  shows "\<exists>s' a'. new_TableHeap lg t s = Inr (\<lparr>first_page_id = c_next a\<rparr>, if lg then t\<lparr>prev_lsn := INVALID_LSN\<rparr> else t, s') \<and>
    pool_ok n s' a' \<and> heap_ok \<lparr>first_page_id = c_next a\<rparr> a' [empty_apage (c_next a) INVALID_PAGE_ID] \<and> only_changes {} a a' \<and>
    c_next a' = c_next a + 1"
proof -
  let ?j = "c_next a" and ?h = "\<lparr>first_page_id = c_next a\<rparr>"
  define t' where "t' = (if lg then t\<lparr>prev_lsn := INVALID_LSN\<rparr> else t)"
  obtain f s1 where s1: "NewPgImp s = Inr (Some (?j, f), s1)" "?j \<notin> c_live a" "pool_ok n s1 (add_page a)" "table_find ?j s1 = Some f"
    "page_data f s1 = Inr zero_page" by (rule pool.create_ok [OF pool(1,3,2)])
  have inv: "word_of_int INVALID_LSN = INVALID_PAGE_ID" by (simp add: INVALID_LSN_def INVALID_PAGE_ID_def)
  obtain d where d: "TablePage_Init lg ?j (int BUSTUB_PAGE_SIZE) INVALID_PAGE_ID t zero_page = Inr (t', d)" "is_page d (empty_apage ?j INVALID_PAGE_ID)"
    using Init_page [of zero_page lg ?j INVALID_PAGE_ID t] by (auto simp: zero_page_def t'_def)
  let ?b = "put_page ?j d (add_page a)"
  have s2: "pool_ok n (client_store f d s1) ?b" using pool.store_law [OF s1(3,4) _ is_page_length [OF d(2)]] by simp
  then obtain s3 where s3: "UnpinPgImp ?j True (client_store f d s1) = Inr (True, s3)" "pool_ok n s3 (unpin_page ?j True ?b)"
    using pool.unpin_law [OF s2, of ?j True] by auto
  have "new_TableHeap lg t s = Inr (?h, t', s3)"
    using s1(1) s3(1) d(1) by (simp add: new_TableHeap_def inv update_page_def s1(5))
  moreover have "heap_ok ?h (unpin_page ?j True ?b) [empty_apage ?j INVALID_PAGE_ID]"
    using d(2) by (simp add: heap_ok_def heap_pages_def unpin_page_def empty_apage_def)
  moreover have "only_changes {} a (unpin_page ?j True ?b)" "c_next (unpin_page ?j True ?b) = ?j + 1"
    using s1(2) by (auto simp: only_changes_def unpin_page_def)
  ultimately show ?thesis using s3(2) unfolding t'_def by blast
qed

text \<open>What a client may call: on record identifiers of pages of the table, and as long as there are
  page ids left.\<close>

definition heap_permitted :: "heap_op \<Rightarrow> apage list \<Rightarrow> page_id \<Rightarrow> bool" where
  "heap_permitted op ps i \<longleftrightarrow> (case op of
       Insert_tuple tup \<Rightarrow> tuple_size tup + 32 < 4294967296 \<and> unat i < 524287
     | Mark_delete rid \<Rightarrow> page_at (rid_page_id rid) ps \<noteq> None
     | Update_tuple tup rid \<Rightarrow> page_at (rid_page_id rid) ps \<noteq> None
     | Apply_delete rid \<Rightarrow> page_at (rid_page_id rid) ps \<noteq> None
     | Rollback_delete rid \<Rightarrow> page_at (rid_page_id rid) ps \<noteq> None
     | Get_tuple rid \<Rightarrow> page_at (rid_page_id rid) ps \<noteq> None
     | Scan \<Rightarrow> True)"

lemma heap_step_refines:
  assumes "pool_ok n s a" and "spare n 2 a" and "heap_ok h a ps" and "heap_permitted op ps (c_next a)"
  shows "heap_refined n h a ps (heap_step lg h op (t, s)) (heap_spec lg h op (t, ps, c_next a))"
proof -
  have "spare n 1 a" using spare_mono [OF assms(2)] by simp
  note rid = heap_rid_ops [OF assms(1) this assms(3)] GetTuple_heap [OF assms(1) this assms(3)] UpdateTuple_heap [OF assms(1) this assms(3)]
  show ?thesis
    using assms(4) InsertTuple_heap [OF assms(1,2) _ assms(3)] Scan_heap [OF assms(1-3)] rid
    by (cases op) (simp_all add: heap_permitted_def)
qed

fun heap_run :: "bool \<Rightarrow> table_heap \<Rightarrow> heap_op list \<Rightarrow> transaction \<times> bpm \<Rightarrow> (db_error + heap_out list \<times> transaction \<times> bpm) option" where
  "heap_run lg h [] st = Some (Inr ([], st))"
| "heap_run lg h (op # ops) st = (case heap_step lg h op st of
       None \<Rightarrow> None
     | Some (Inl e) \<Rightarrow> Some (Inl e)
     | Some (Inr (out, st)) \<Rightarrow> map_option (\<lambda>r. ebind r (\<lambda>(outs, st). Inr (out # outs, st))) (heap_run lg h ops st))"

fun heap_spec_run ::
  "bool \<Rightarrow> table_heap \<Rightarrow> heap_op list \<Rightarrow> transaction \<times> apage list \<times> page_id \<Rightarrow> exc + heap_out list \<times> transaction \<times> apage list \<times> page_id" where
  "heap_spec_run lg h [] st = Inr ([], st)"
| "heap_spec_run lg h (op # ops) st =
     ebind (heap_spec lg h op st) (\<lambda>(out, st). ebind (heap_spec_run lg h ops st) (\<lambda>(outs, st). Inr (out # outs, st)))"

fun all_permitted :: "bool \<Rightarrow> table_heap \<Rightarrow> heap_op list \<Rightarrow> transaction \<times> apage list \<times> page_id \<Rightarrow> bool" where
  "all_permitted lg h [] st \<longleftrightarrow> True"
| "all_permitted lg h (op # ops) st \<longleftrightarrow> (case st of (t, ps, i) \<Rightarrow> heap_permitted op ps i \<and>
     (case heap_spec lg h op st of Inl e \<Rightarrow> True | Inr (out, st) \<Rightarrow> all_permitted lg h ops st))"

lemma heap_run_refines:
  assumes "pool_ok n s a" and "spare n 2 a" and "heap_ok h a ps" and "all_permitted lg h ops (t, ps, c_next a)"
  shows "case heap_spec_run lg h ops (t, ps, c_next a) of
      Inl e \<Rightarrow> heap_run lg h ops (t, s) = Some (Inl (Page_Error e))
    | Inr (outs, t', ps', i) \<Rightarrow> (\<exists>s' a'. heap_run lg h ops (t, s) = Some (Inr (outs, t', s')) \<and> pool_ok n s' a' \<and> heap_ok h a' ps' \<and>
        spare n 2 a' \<and> c_next a' = i)"
  using assms
proof (induction ops arbitrary: s a ps t)
  case (Cons op ops)
  have ref: "heap_refined n h a ps (heap_step lg h op (t, s)) (heap_spec lg h op (t, ps, c_next a))"
    using heap_step_refines Cons.prems by simp
  show ?case
  proof (cases "heap_spec lg h op (t, ps, c_next a)")
    case (Inl e)
    then show ?thesis using ref by (simp add: heap_refined_def)
  next
    case (Inr r)
    obtain out t1 ps1 i1 where r: "r = (out, t1, ps1, i1)" by (cases r)
    then obtain s1 a1 where s1: "heap_step lg h op (t, s) = Some (Inr (out, t1, s1))" "pool_ok n s1 a1" "heap_ok h a1 ps1"
      "only_changes (ap_id ` set ps) a a1" "c_next a1 = i1" using ref Inr by (auto simp: heap_refined_def)
    have "all_permitted lg h ops (t1, ps1, c_next a1)" using Cons.prems(4) Inr r s1(5) by simp
    from Cons.IH [OF s1(2) _ s1(3) this] show ?thesis
      using only_changes_spare [OF s1(4), of n 2] Cons.prems(2) s1(1,5) Inr r
      by (cases "heap_spec_run lg h ops (t1, ps1, c_next a1)") (auto split: prod.splits)
  qed
qed auto

lemma fresh_table:
  assumes "1 \<le> k" and "2 \<le> n" and "n < 2147483648"
  shows "\<exists>s a. new_TableHeap lg t (new_bpm n (new_disk_manager [] []) k) =
      Inr (\<lparr>first_page_id = 0\<rparr>, if lg then t\<lparr>prev_lsn := INVALID_LSN\<rparr> else t, s) \<and>
    pool_ok n s a \<and> spare n 2 a \<and> heap_ok \<lparr>first_page_id = 0\<rparr> a [empty_apage 0 INVALID_PAGE_ID] \<and> c_next a = 1"
proof -
  have sp: "spare n j empty_cache" if "j \<le> 2" for j
    using assms(2) that by (simp add: spare_def pinned_pages_def empty_cache_def)
  have nx: "c_next empty_cache = 0" by (simp add: empty_cache_def)
  obtain s a where "new_TableHeap lg t (new_bpm n (new_disk_manager [] []) k) =
      Inr (\<lparr>first_page_id = 0\<rparr>, if lg then t\<lparr>prev_lsn := INVALID_LSN\<rparr> else t, s)"
    "pool_ok n s a" "heap_ok \<lparr>first_page_id = 0\<rparr> a [empty_apage 0 INVALID_PAGE_ID]" "only_changes {} empty_cache a" "c_next a = 1"
    using new_TableHeap_ok [OF new_pool_ok [OF assms(1,3)] sp [of 1], of lg t] by (auto simp: nx)
  then show ?thesis using only_changes_spare [of "{}" empty_cache a n 2] sp [of 2] by blast
qed

text \<open>C2. A table is the list of its rows. Create a table in a database with at least two and fewer than
  \<open>2\<^sup>3\<^sup>1\<close> buffer pool frames and make any sequence of calls to it, insertions that overflow into new pages, deletions,
  updates, roll-backs, lookups and complete scans with the iterator, on record identifiers of its own
  pages and while the database has fewer than \<open>2\<^sup>1\<^sup>9\<close> pages: each call returns, and the
  answers are those of the abstract table, a list of pages of slots. A lookup returns the bytes that
  were last inserted or updated under that record identifier, a scan returns exactly the live rows in
  order, and a call fails an assertion exactly when the abstract one does. Whatever pages the
  replacer evicts and the disk manager writes back and reloads in between, no call dereferences a null
  page, leaves a page or loops.\<close>

theorem table_heap_refines_rows:
  assumes "1 \<le> k" and "2 \<le> n" and "n < 2147483648" and "new_TableHeap lg t0 (new_bpm n (new_disk_manager [] []) k) = Inr (h, t, s)"
    and "all_permitted lg h ops (t, [empty_apage 0 INVALID_PAGE_ID], 1)"
  shows "case heap_spec_run lg h ops (t, [empty_apage 0 INVALID_PAGE_ID], 1) of
      Inl e \<Rightarrow> heap_run lg h ops (t, s) = Some (Inl (Page_Error e))
    | Inr (outs, t', ps, i) \<Rightarrow> (\<exists>s'. heap_run lg h ops (t, s) = Some (Inr (outs, t', s')))"
proof -
  obtain a where "pool_ok n s a" "spare n 2 a" "heap_ok h a [empty_apage 0 INVALID_PAGE_ID]" "c_next a = 1"
    using fresh_table [OF assms(1-3), of lg t0] assms(4) by auto
  with heap_run_refines [OF this(1-3), of lg ops t] show ?thesis
    using assms(5) by (auto split: sum.splits prod.splits)
qed

theorem table_heap_refines_rows_witness:
  "\<exists>h t s s' t'. new_TableHeap False (new_transaction 0 REPEATABLE_READ) (new_bpm 2 (new_disk_manager [] []) 2) = Inr (h, t, s) \<and>
     heap_run False h [Insert_tuple \<lparr>t_rid = RID_default, t_data = Some [7, 8]\<rparr>, Insert_tuple \<lparr>t_rid = RID_default, t_data = Some [9]\<rparr>,
       Mark_delete \<lparr>rid_page_id = 0, rid_slot_num = 0\<rparr>, Scan] (t, s) =
     Some (Inr ([Rid_of (Some \<lparr>rid_page_id = 0, rid_slot_num = 0\<rparr>), Rid_of (Some \<lparr>rid_page_id = 0, rid_slot_num = 1\<rparr>), Flag True,
       Rows [\<lparr>t_rid = \<lparr>rid_page_id = 0, rid_slot_num = 1\<rparr>, t_data = Some [9]\<rparr>]], t', s'))"
proof -
  let ?ops = "[Insert_tuple \<lparr>t_rid = RID_default, t_data = Some [7, 8]\<rparr>, Insert_tuple \<lparr>t_rid = RID_default, t_data = Some [9]\<rparr>,
    Mark_delete \<lparr>rid_page_id = 0, rid_slot_num = 0\<rparr>, Scan]"
  obtain h t s where new: "new_TableHeap False (new_transaction 0 REPEATABLE_READ) (new_bpm 2 (new_disk_manager [] []) 2) = Inr (h, t, s)"
    using new_TableHeap_ok [OF new_pool_ok [of 2 2], of False "new_transaction 0 REPEATABLE_READ"]
    by (auto simp: spare_def pinned_pages_def empty_cache_def)
  note ev = heap_spec_def tuple_size_def tuple_bytes_def fits_on_def place_tuple_def room_def empty_apage_def slot_len_def grows_def
    row_at_def page_at_def slot_at_def set_row_def set_slot_def rows_def page_rows_def heap_permitted_def upt_rec
  have "all_permitted False h ?ops (t, [empty_apage 0 INVALID_PAGE_ID], 1)" by (simp add: ev)
  then show ?thesis using table_heap_refines_rows [OF _ _ _ new, of ?ops] new by (auto simp: ev)
qed

end
