(* ===== verification/Table_Values.thy ===== *)
theory Table_Values
  imports Table_Heap_Scan
begin

text \<open>
  The contents of a table as a map from record identifiers to values: the bytes of the tuple and
  whether it is marked as deleted.  Free slots and slots that do not exist are not told apart.  Every
  operation changes the map at one record identifier; a table whose pages and slots have only become
  more, and whose map is the same, has the same rows.
\<close>

section \<open>Well-formed pages\<close>

definition slot_value :: "slot \<Rightarrow> (bool \<times> byte list) option" where
  "slot_value x = (case x of Free \<Rightarrow> None | Slot b bs \<Rightarrow> Some (b, bs))"

lemma slot_value_simps [simp]: "slot_value Free = None" "slot_value (Slot b bs) = Some (b, bs)"
  by (simp_all add: slot_value_def)

definition value_at :: "apage list \<Rightarrow> RID \<Rightarrow> (bool \<times> byte list) option" where
  "value_at ps rid = Option.bind (row_at ps rid) slot_value"

definition page_wf :: "apage \<Rightarrow> bool" where
  "page_wf p \<longleftrightarrow> length (ap_slots p) \<le> 509 \<and> 0 \<le> room (ap_slots p) \<and> (\<forall>b. Slot b [] \<notin> set (ap_slots p))"

definition table_wf :: "apage list \<Rightarrow> bool" where
  "table_wf ps \<longleftrightarrow> distinct (map ap_id ps) \<and> (\<forall>p \<in> set ps. page_wf p)"

lemma is_page_wf:
  assumes "is_page d p"
  shows "page_wf p"
proof -
  obtain v where v: "rep d v" "view_ok v" "p = page_of v" using assms by (auto simp: is_page_def)
  have "Slot b [] \<notin> set (slots v)" for b
    using v(2) by (auto simp: slots_def slot_of_def view_ok_def entry_ok_def split: prod.splits if_splits)
  then show ?thesis using v slots_bound [OF assms] room_slots(2) [OF v(2)] by (simp add: page_wf_def page_of_def)
qed

lemma heap_ok_wf: "heap_ok h a ps \<Longrightarrow> table_wf ps"
  using heap_okD(2,5) is_page_wf unfolding table_wf_def by blast

lemma table_wf_Cons: "table_wf (p # ps) \<longleftrightarrow> page_wf p \<and> ap_id p \<notin> ap_id ` set ps \<and> table_wf ps"
  by (auto simp: table_wf_def)

section \<open>Reading and writing a row\<close>

lemma row_at_Nil [simp]: "row_at [] r = None"
  by (simp add: row_at_def page_at_def)

lemma value_at_Nil [simp]: "value_at [] r = None"
  by (simp add: value_at_def)

lemma row_at_Cons: "row_at (p # ps) r = (if ap_id p = rid_page_id r then slot_at p r else row_at ps r)"
  by (simp add: row_at_def page_at_def)

lemma row_at_has_page: "row_at ps r = Some x \<Longrightarrow> page_at (rid_page_id r) ps \<noteq> None"
  by (cases "page_at (rid_page_id r) ps") (simp_all add: row_at_def)

lemma row_at_in_ids: "row_at ps r = Some x \<Longrightarrow> rid_page_id r \<in> ap_id ` set ps"
  by (induction ps) (auto simp: row_at_Cons split: if_splits)

lemma value_at_row: "value_at ps r = Some (b, bs) \<longleftrightarrow> row_at ps r = Some (Slot b bs)"
  by (cases "row_at ps r") (auto simp: value_at_def slot_value_def split: slot.splits)

lemma slot_at_set_slot:
  "rid_page_id r = rid_page_id rid \<Longrightarrow>
    slot_at (set_slot rid x p) r = (if r = rid \<and> slot_at p rid \<noteq> None then Some x else slot_at p r)"
  by (cases r; cases rid) (auto simp: slot_at_def set_slot_def Let_def nth_list_update word_unat_eq_iff)

lemma set_slot_fields [simp]:
  "ap_id (set_slot rid x p) = ap_id p" "length (ap_slots (set_slot rid x p)) = length (ap_slots p)"
  by (simp_all add: set_slot_def)

lemma row_at_set_row: "row_at (set_row rid x ps) r = (if r = rid \<and> row_at ps rid \<noteq> None then Some x else row_at ps r)"
proof (induction ps)
  case (Cons p ps)
  have "set_row rid x (p # ps) = (if ap_id p = rid_page_id rid then set_slot rid x p else p) # set_row rid x ps"
    by (simp add: set_row_def)
  then show ?case using slot_at_set_slot [of r rid x p]
    by (cases "ap_id p = rid_page_id rid"; cases "rid_page_id r = ap_id p") ((simp add: row_at_Cons Cons.IH; fail) | (cases "r = rid"; simp add: row_at_Cons Cons.IH))+
qed (simp add: set_row_def)

lemma value_at_set_row:
  assumes "row_at ps rid = Some y"
  shows "value_at (set_row rid x ps) = (value_at ps)(rid := slot_value x)"
  using assms by (auto simp: value_at_def row_at_set_row)

lemma table_wf_room: "table_wf ps \<Longrightarrow> 0 \<le> room_at ps r"
  unfolding room_at_def table_wf_def page_at_def page_wf_def
  by (auto split: option.splits simp: find_Some_iff)

lemma slot_at_mem: "slot_at p r = Some x \<Longrightarrow> x \<in> set (ap_slots p)"
  by (auto simp: slot_at_def Let_def split: if_splits)

lemma table_wf_bytes: "table_wf ps \<Longrightarrow> row_at ps r = Some (Slot b bs) \<Longrightarrow> bs \<noteq> []"
  by (induction ps) (auto simp: table_wf_Cons row_at_Cons page_wf_def dest: slot_at_mem split: if_splits)

section \<open>Growing tables\<close>

fun grown :: "apage list \<Rightarrow> apage list \<Rightarrow> bool" where
  "grown [] qs = True"
| "grown (p # ps) [] = False"
| "grown (p # ps) (q # qs) = (ap_id q = ap_id p \<and> length (ap_slots p) \<le> length (ap_slots q) \<and> grown ps qs)"

lemma grown_refl [simp]: "grown ps ps"
  by (induction ps) simp_all

lemma grown_trans: "grown ps qs \<Longrightarrow> grown qs rs \<Longrightarrow> grown ps rs"
proof (induction ps qs arbitrary: rs rule: grown.induct)
  case (3 p ps q qs)
  then show ?case by (cases rs) auto
qed simp_all

lemma grown_set_row: "grown ps (set_row rid x ps)"
  by (induction ps) (simp_all add: set_row_def)

lemma place_tuple_ok:
  assumes "page_wf p" and "place_tuple bs p = (rid, q)"
  shows "rid_page_id rid = ap_id p" "ap_id q = ap_id p" "length (ap_slots p) \<le> length (ap_slots q)"
    "Option.bind (slot_at p rid) slot_value = None"
    "rid_page_id r = ap_id p \<Longrightarrow> slot_at q r = (if r = rid then Some (Slot False bs) else slot_at p r)"
proof -
  define i where "i = (case first_slot (\<lambda>s. s = Free) 0 (ap_slots p) of Some i \<Rightarrow> i | None \<Rightarrow> length (ap_slots p))"
  have len: "length (ap_slots p) \<le> 509" using assms(1) by (simp add: page_wf_def)
  have i: "i \<le> length (ap_slots p)" "i < length (ap_slots p) \<Longrightarrow> ap_slots p ! i = Free"
    using first_slot_bound [of "\<lambda>s. s = Free" 0 "ap_slots p"] by (auto simp: i_def split: option.splits)
  have rid: "rid = \<lparr>rid_page_id = ap_id p, rid_slot_num = word_of_nat i\<rparr>"
    and q: "q = p\<lparr>ap_slots := if i < length (ap_slots p) then (ap_slots p)[i := Slot False bs] else ap_slots p @ [Slot False bs]\<rparr>"
    using assms(2) first_slot_bound [of "\<lambda>s. s = Free" 0 "ap_slots p"]
    by (auto simp: place_tuple_def i_def split: option.splits)
  have u: "unat (rid_slot_num rid) = i" using unat_slot(1) i(1) len by (simp add: rid)
  show "rid_page_id rid = ap_id p" "ap_id q = ap_id p" "length (ap_slots p) \<le> length (ap_slots q)" by (simp_all add: rid q)
  show "Option.bind (slot_at p rid) slot_value = None" using i u by (simp add: slot_at_def)
  assume r: "rid_page_id r = ap_id p"
  have eq: "r = rid \<longleftrightarrow> unat (rid_slot_num r) = i"
    using r u by (cases r) (auto simp: rid word_unat_eq_iff)
  show "slot_at q r = (if r = rid then Some (Slot False bs) else slot_at p r)"
    using i(1) unfolding eq by (auto simp: slot_at_def Let_def q nth_list_update nth_append)
qed

lemma value_at_Cons: "value_at (p # ps) r = (if ap_id p = rid_page_id r then Option.bind (slot_at p r) slot_value else value_at ps r)"
  by (simp add: value_at_def row_at_Cons)

lemma value_at_None: "rid_page_id r \<notin> ap_id ` set ps \<Longrightarrow> value_at ps r = None"
  using row_at_in_ids by (cases "row_at ps r") (auto simp: value_at_def)

lemma place_tuple_value:
  assumes "page_wf p" and "place_tuple bs p = (rid, q)"
  shows "value_at (p # ps) rid = None" "value_at (q # ps) = (value_at (p # ps))(rid \<mapsto> (False, bs))"
proof -
  note P = place_tuple_ok [OF assms]
  show "value_at (p # ps) rid = None" using P(1,4) by (simp add: value_at_Cons)
  show "value_at (q # ps) = (value_at (p # ps))(rid \<mapsto> (False, bs))"
  proof
    fix r
    show "value_at (q # ps) r = ((value_at (p # ps))(rid \<mapsto> (False, bs))) r"
      using P(1,2) P(5) [of r] by (cases "rid_page_id r = ap_id p") (auto simp: value_at_Cons)
  qed
qed

lemma empty_apage_wf: "page_wf (empty_apage i j)"
  by (simp add: page_wf_def empty_apage_def room_def)

lemma empty_apage_value: "value_at [empty_apage i j] = Map.empty"
  by (simp add: empty_apage_def value_at_Cons slot_at_def fun_eq_iff)

lemma slot_at_next: "slot_at (p\<lparr>ap_next := i\<rparr>) r = slot_at p r"
  by (simp add: slot_at_def Let_def)

lemma table_insert_at_value:
  assumes "table_wf ps" and "i \<notin> ap_id ` set ps" and "ps \<noteq> []" and "table_insert_at bs i ps = (rid, qs)"
  shows "rid_page_id rid \<in> insert i (ap_id ` set ps) \<and> value_at ps rid = None \<and> value_at qs = (value_at ps)(rid \<mapsto> (False, bs)) \<and> grown ps qs"
  using assms
proof (induction ps arbitrary: rid qs)
  case (Cons p ps)
  have wf: "page_wf p" "ap_id p \<notin> ap_id ` set ps" "table_wf ps" using Cons.prems(1) by (simp_all add: table_wf_Cons)
  consider (here) "fits_on bs p" | (new) "\<not> fits_on bs p" "ps = []" | (later) "\<not> fits_on bs p" "ps \<noteq> []" by blast
  then show ?case
  proof cases
    case here
    obtain r q where q: "place_tuple bs p = (r, q)" by (rule prod.exhaust)
    then have "rid = r" "qs = q # ps" using Cons.prems(4) here by simp_all
    then show ?thesis using place_tuple_ok(1-3) [OF wf(1) q] place_tuple_value [OF wf(1) q, of ps] by simp
  next
    case new
    obtain r q where q: "place_tuple bs (empty_apage i (ap_id p)) = (r, q)" by (rule prod.exhaust)
    note P = place_tuple_ok [OF empty_apage_wf q] and V = place_tuple_value [OF empty_apage_wf q, of "[]"]
    have e: "ap_id (empty_apage i (ap_id p)) = i" "value_at [empty_apage i (ap_id p)] = Map.empty"
      by (simp add: empty_apage_def) (rule empty_apage_value)
    have eq: "rid = r" "qs = [p\<lparr>ap_next := i\<rparr>, q]" using Cons.prems(4) new q by simp_all
    have ne: "rid_page_id r \<noteq> ap_id p" using Cons.prems(2) P(1) e(1) by auto
    have vq: "value_at [q] = [r \<mapsto> (False, bs)]" using V(2) e(2) by simp
    have "value_at qs x = ((value_at (p # ps))(rid \<mapsto> (False, bs))) x" for x
      using ne vq value_at_Cons [of "p\<lparr>ap_next := i\<rparr>" "[q]" x] value_at_Cons [of p "[]" x]
      by (simp add: eq new(2) slot_at_next)
    then show ?thesis using P(1) e(1) ne by (simp add: eq new(2) value_at_Cons fun_eq_iff)
  next
    case later
    obtain r qs' where q: "table_insert_at bs i ps = (r, qs')" by (rule prod.exhaust)
    then have "rid = r" "qs = p # qs'" using Cons.prems(4) later by simp_all
    moreover have "i \<noteq> ap_id p" using Cons.prems(2) by auto
    ultimately show ?thesis using Cons.IH [OF wf(3) _ later(2) q] Cons.prems(2) wf(2)
      by (auto simp: fun_eq_iff value_at_Cons)
  qed
qed simp

section \<open>The same rows\<close>

text \<open>The rows are the values that are not marked.\<close>

definition live_of :: "(bool \<times> byte list) option \<Rightarrow> byte list option" where
  "live_of x = (case x of Some (False, bs) \<Rightarrow> Some bs | _ \<Rightarrow> None)"

lemma live_of_simps [simp]: "live_of None = None" "live_of (Some (b, bs)) = (if b then None else Some bs)"
  by (simp_all add: live_of_def)

definition slot_row :: "apage \<Rightarrow> nat \<Rightarrow> tuple list" where
  "slot_row p i = (case live_of (slot_value (ap_slots p ! i)) of None \<Rightarrow> [] | Some bs \<Rightarrow> [row_of p i bs])"

lemma page_rows_slots: "page_rows p = concat (map (slot_row p) [0..<length (ap_slots p)])"
  unfolding page_rows_def slot_row_def row_of_def by (intro arg_cong [of _ _ concat] map_cong) (auto split: slot.splits)

lemma page_rows_same:
  assumes wf: "page_wf q" and id: "ap_id q = ap_id p" and len: "length (ap_slots p) \<le> length (ap_slots q)"
    and same: "\<And>r. rid_page_id r = ap_id p \<Longrightarrow> live_of (Option.bind (slot_at q r) slot_value) = live_of (Option.bind (slot_at p r) slot_value)"
  shows "page_rows q = page_rows p"
proof -
  have v: "live_of (slot_value (ap_slots q ! i)) =
      live_of (Option.bind (if i < length (ap_slots p) then Some (ap_slots p ! i) else None) slot_value)" if "i < length (ap_slots q)" for i
    using same [of "\<lparr>rid_page_id = ap_id p, rid_slot_num = word_of_nat i\<rparr>"] that wf unat_slot(1) [of i]
    by (simp add: slot_at_def page_wf_def)
  have row: "row_of q i = row_of p i" for i by (simp add: row_of_def id fun_eq_iff)
  have new: "slot_row q i = []" if "length (ap_slots p) \<le> i" "i < length (ap_slots q)" for i
    using v [OF that(2)] that by (simp add: slot_row_def)
  have old: "slot_row q i = slot_row p i" if "i < length (ap_slots p)" for i
    using v [of i] that len by (simp add: slot_row_def row split: option.split)
  have "[0..<length (ap_slots q)] = [0..<length (ap_slots p)] @ [length (ap_slots p)..<length (ap_slots q)]"
    using len upt_add_eq_append [of 0 "length (ap_slots p)" "length (ap_slots q) - length (ap_slots p)"] by simp
  moreover have "map (slot_row q) [0..<length (ap_slots p)] = map (slot_row p) [0..<length (ap_slots p)]" using old by simp
  moreover have "concat (map (slot_row q) [length (ap_slots p)..<length (ap_slots q)]) = []" using new by simp
  ultimately show ?thesis by (simp only: page_rows_slots map_append concat_append append_Nil2)
qed

lemma rows_none: "table_wf qs \<Longrightarrow> (\<And>r. live_of (value_at qs r) = None) \<Longrightarrow> rows qs = []"
proof (induction qs)
  case (Cons q qs)
  note wf = Cons.prems(1) [unfolded table_wf_Cons]
  have v: "live_of (value_at (q # qs) r) = None" for r using Cons.prems(2) by simp
  have "live_of (value_at qs r) = None" for r
    using v [of r] value_at_None [of r qs] wf by (auto simp: value_at_Cons split: if_splits)
  moreover have "page_rows q = page_rows (q\<lparr>ap_slots := []\<rparr>)"
  proof (rule page_rows_same)
    fix r :: RID
    assume "rid_page_id r = ap_id (q\<lparr>ap_slots := []\<rparr>)"
    then show "live_of (Option.bind (slot_at q r) slot_value) = live_of (Option.bind (slot_at (q\<lparr>ap_slots := []\<rparr>) r) slot_value)"
      using v [of r] by (simp add: value_at_Cons slot_at_def)
  qed (use wf in simp_all)
  ultimately show ?case using Cons.IH wf by (simp add: rows_def page_rows_def)
qed (simp add: rows_def)

lemma rows_same:
  "grown ps qs \<Longrightarrow> table_wf ps \<Longrightarrow> table_wf qs \<Longrightarrow> (\<And>r. live_of (value_at qs r) = live_of (value_at ps r)) \<Longrightarrow> rows qs = rows ps"
proof (induction ps qs rule: grown.induct)
  case (1 qs)
  then show ?case using rows_none [of qs] by (simp add: rows_def)
next
  case (3 p ps q qs)
  have id: "ap_id q = ap_id p" using 3(2) by simp
  note v = 3(5)
  have "live_of (Option.bind (slot_at q r) slot_value) = live_of (Option.bind (slot_at p r) slot_value)" if "rid_page_id r = ap_id p" for r
    using v [of r] id that by (simp add: value_at_Cons)
  then have "page_rows q = page_rows p" using 3(2,4) by (intro page_rows_same) (simp_all add: table_wf_Cons)
  moreover have "live_of (value_at qs r) = live_of (value_at ps r)" for r
    using v [of r] id value_at_None [of r ps] value_at_None [of r qs] 3(3,4)
    by (auto simp: table_wf_Cons value_at_Cons split: if_splits)
  ultimately show ?case using 3(1-4) by (simp add: table_wf_Cons rows_def)
qed simp

end
