(* ===== verification/Transaction_Manager.thy ===== *)
theory Transaction_Manager
  imports Table_Heap
begin

text \<open>
  The transaction manager (\<^verbatim>\<open>concurrency/transaction_manager.cpp\<close>): \<^verbatim>\<open>Begin\<close>, \<^verbatim>\<open>Commit\<close>, \<^verbatim>\<open>Abort\<close> and the two
  calls that stop and resume all transactions.  \<^verbatim>\<open>Commit\<close> and \<^verbatim>\<open>Abort\<close> pop the write set from its end and
  work on the tables through the buffer pool.  The indexes of the catalog are a parameter (their
  entries are changed by virtual methods): a record of the lookups and updates that the roll-back of
  an index record calls, over a state of its own next to the pool.  The global latch is the
  state of a \<^verbatim>\<open>std::shared_mutex\<close>; a call that has to wait for it has no result.  The mutex of the
  transaction map has no counterpart.
\<close>

section \<open>The latch and the transaction map\<close>

record rw_latch =
  readers :: nat
  writer :: bool

definition RLock :: "rw_latch \<Rightarrow> rw_latch option" where
  "RLock l = (if writer l then None else Some (l\<lparr>readers := readers l + 1\<rparr>))"

definition RUnlock :: "rw_latch \<Rightarrow> db_error + rw_latch" where
  "RUnlock l = (if readers l = 0 then Inl Latch_Not_Held else Inr (l\<lparr>readers := readers l - 1\<rparr>))"

definition WLock :: "rw_latch \<Rightarrow> rw_latch option" where
  "WLock l = (if writer l \<or> readers l \<noteq> 0 then None else Some (l\<lparr>writer := True\<rparr>))"

definition WUnlock :: "rw_latch \<Rightarrow> db_error + rw_latch" where
  "WUnlock l = (if writer l then Inr (l\<lparr>writer := False\<rparr>) else Inl Latch_Not_Held)"

text \<open>A pointer to a transaction is its position in the store.\<close>

record txn_manager =
  next_txn_id :: "32 word"
  txn_map :: "32 word \<rightharpoonup> nat"
  txn_store :: "transaction list"
  global_txn_latch :: rw_latch

definition new_txn_manager :: txn_manager where
  "new_txn_manager = \<lparr>next_txn_id = 0, txn_map = Map.empty, txn_store = [], global_txn_latch = \<lparr>readers = 0, writer = False\<rparr>\<rparr>"

definition TM_Begin :: "nat option \<Rightarrow> isolation_level \<Rightarrow> txn_manager \<Rightarrow> (nat \<times> txn_manager) option" where
  "TM_Begin txn level m = map_option (\<lambda>l.
     let m = m\<lparr>global_txn_latch := l\<rparr>;
         (p, m) = (case txn of
            None \<Rightarrow> (length (txn_store m),
              m\<lparr>next_txn_id := next_txn_id m + 1, txn_store := txn_store m @ [new_transaction (next_txn_id m) level]\<rparr>)
          | Some p \<Rightarrow> (p, m))
     in (p, m\<lparr>txn_map := (txn_map m)(txn_id (txn_store m ! p) \<mapsto> p)\<rparr>)) (RLock (global_txn_latch m))"

definition GetTransaction :: "32 word \<Rightarrow> txn_manager \<Rightarrow> exc + nat" where
  "GetTransaction i m = (case txn_map m i of None \<Rightarrow> Inl Assert_Failed | Some p \<Rightarrow> Inr p)"

definition BlockAllTransactions :: "txn_manager \<Rightarrow> txn_manager option" where
  "BlockAllTransactions m = map_option (\<lambda>l. m\<lparr>global_txn_latch := l\<rparr>) (WLock (global_txn_latch m))"

definition ResumeTransactions :: "txn_manager \<Rightarrow> db_error + txn_manager" where
  "ResumeTransactions m = ebind (WUnlock (global_txn_latch m)) (\<lambda>l. Inr (m\<lparr>global_txn_latch := l\<rparr>))"

text \<open>The end of \<^verbatim>\<open>Commit\<close> and \<^verbatim>\<open>Abort\<close>: the locks and the latch are released.\<close>

definition finish_txn :: "nat \<Rightarrow> transaction \<Rightarrow> txn_manager \<Rightarrow> db_error + lock_calls \<times> txn_manager" where
  "finish_txn p t m = ebind (RUnlock (global_txn_latch m)) (\<lambda>l.
     Inr (ReleaseLocks t, m\<lparr>txn_store := (txn_store m)[p := t], global_txn_latch := l\<rparr>))"

section \<open>\<^verbatim>\<open>Commit\<close>\<close>

function commit_loop :: "transaction \<Rightarrow> bpm \<Rightarrow> db_error + transaction \<times> bpm" where
  "commit_loop t s =
     (if table_write_set t = [] then Inr (t, s)
      else let item = last (table_write_set t) in
        ebind (if tw_type item = W_DELETE then TableHeap_ApplyDelete (tw_rid item) s else Inr s) (\<lambda>s.
        commit_loop (t\<lparr>table_write_set := butlast (table_write_set t)\<rparr>) s))"
  by pat_completeness auto
termination
  by (relation "measure (\<lambda>(t, s). length (table_write_set t))") auto

declare commit_loop.simps [simp del]

definition Commit_txn :: "transaction \<Rightarrow> bpm \<Rightarrow> db_error + transaction \<times> bpm" where
  "Commit_txn t s =
     ebind (commit_loop (SetState COMMITTED t) s) (\<lambda>(t, s). Inr (t\<lparr>table_write_set := []\<rparr>, s))"

definition TM_Commit :: "nat \<Rightarrow> txn_manager \<times> bpm \<Rightarrow> db_error + lock_calls \<times> txn_manager \<times> bpm" where
  "TM_Commit p st = (case st of (m, s) \<Rightarrow>
     ebind (Commit_txn (txn_store m ! p) s) (\<lambda>(t, s).
     ebind (finish_txn p t m) (\<lambda>(calls, m). Inr (calls, m, s))))"

section \<open>\<^verbatim>\<open>Abort\<close>\<close>

text \<open>The roll-back of one record of the table write set.\<close>

definition rollback_item :: "bool \<Rightarrow> table_write_record \<Rightarrow> transaction \<Rightarrow> bpm \<Rightarrow> db_error + transaction \<times> bpm" where
  "rollback_item lg item t s = (case tw_type item of
       W_DELETE \<Rightarrow> ebind (TableHeap_RollbackDelete (tw_rid item) s) (\<lambda>s. Inr (t, s))
     | W_INSERT \<Rightarrow> ebind (TableHeap_ApplyDelete (tw_rid item) s) (\<lambda>s. Inr (t, s))
     | W_UPDATE \<Rightarrow> ebind (TableHeap_UpdateTuple lg (tw_table item) (tw_tuple item) (tw_rid item) t s) (\<lambda>(_, t, s). Inr (t, s)))"

partial_function (option) abort_loop :: "bool \<Rightarrow> transaction \<Rightarrow> bpm \<Rightarrow> (db_error + transaction \<times> bpm) option" where
  "abort_loop lg t s =
     (if table_write_set t = [] then Some (Inr (t, s))
      else case rollback_item lg (last (table_write_set t)) t s of
          Inl e \<Rightarrow> Some (Inl e)
        | Inr (t, s) \<Rightarrow> abort_loop lg (t\<lparr>table_write_set := butlast (table_write_set t)\<rparr>) s)"

text \<open>The indexes: the schema of a table, the key schema and key attributes of an index, and the two
  updates.\<close>

record 'i index_api =
  api_schema :: "table_oid \<Rightarrow> 'i \<Rightarrow> schema option"
  api_index :: "index_oid \<Rightarrow> 'i \<Rightarrow> (schema \<times> nat list) option"
  api_insert :: "index_oid \<Rightarrow> tuple \<Rightarrow> RID \<Rightarrow> transaction \<Rightarrow> 'i \<times> bpm \<Rightarrow> db_error + transaction \<times> 'i \<times> bpm"
  api_delete :: "index_oid \<Rightarrow> tuple \<Rightarrow> RID \<Rightarrow> transaction \<Rightarrow> 'i \<times> bpm \<Rightarrow> db_error + transaction \<times> 'i \<times> bpm"

definition rollback_index ::
  "'d double_ops \<Rightarrow> 'i index_api \<Rightarrow> index_write_record \<Rightarrow> transaction \<Rightarrow> 'i \<times> bpm \<Rightarrow> db_error + transaction \<times> 'i \<times> bpm" where
  "rollback_index D api item t st =
     (case api_schema api (iw_table_oid item) (fst st) of
        None \<Rightarrow> Inl (Page_Error Null_Deref)
      | Some schema \<Rightarrow> (case api_index api (iw_index_oid item) (fst st) of
          None \<Rightarrow> Inl (Page_Error Null_Deref)
        | Some (key_schema, key_attrs) \<Rightarrow>
            ebind (page_call (KeyFromTuple D schema key_schema key_attrs (iw_tuple item))) (\<lambda>new_key.
            case iw_type item of
              W_DELETE \<Rightarrow> api_insert api (iw_index_oid item) new_key (iw_rid item) t st
            | W_INSERT \<Rightarrow> api_delete api (iw_index_oid item) new_key (iw_rid item) t st
            | W_UPDATE \<Rightarrow>
                ebind (api_delete api (iw_index_oid item) new_key (iw_rid item) t st) (\<lambda>(t, st).
                ebind (page_call (KeyFromTuple D schema key_schema key_attrs (iw_old_tuple item))) (\<lambda>old_key.
                api_insert api (iw_index_oid item) old_key (iw_rid item) t st)))))"

partial_function (option) abort_index_loop ::
  "'d double_ops \<Rightarrow> 'i index_api \<Rightarrow> transaction \<Rightarrow> 'i \<times> bpm \<Rightarrow> (db_error + transaction \<times> 'i \<times> bpm) option" where
  "abort_index_loop D api t st =
     (if index_write_set t = [] then Some (Inr (t, st))
      else case rollback_index D api (last (index_write_set t)) t st of
          Inl e \<Rightarrow> Some (Inl e)
        | Inr (t, st) \<Rightarrow> abort_index_loop D api (t\<lparr>index_write_set := butlast (index_write_set t)\<rparr>) st)"

definition Abort_txn ::
  "bool \<Rightarrow> 'd double_ops \<Rightarrow> 'i index_api \<Rightarrow> transaction \<Rightarrow> 'i \<times> bpm \<Rightarrow> (db_error + transaction \<times> 'i \<times> bpm) option" where
  "Abort_txn lg D api t st = (case abort_loop lg (SetState ABORTED t) (snd st) of
       None \<Rightarrow> None
     | Some (Inl e) \<Rightarrow> Some (Inl e)
     | Some (Inr (t, s)) \<Rightarrow> map_option (\<lambda>r. ebind r (\<lambda>(t, st).
         Inr (t\<lparr>table_write_set := [], index_write_set := []\<rparr>, st))) (abort_index_loop D api (t\<lparr>table_write_set := []\<rparr>) (fst st, s)))"

definition TM_Abort ::
  "bool \<Rightarrow> 'd double_ops \<Rightarrow> 'i index_api \<Rightarrow> nat \<Rightarrow> txn_manager \<times> 'i \<times> bpm \<Rightarrow> (db_error + lock_calls \<times> txn_manager \<times> 'i \<times> bpm) option" where
  "TM_Abort lg D api p st = (case st of (m, st) \<Rightarrow>
     map_option (\<lambda>r. ebind r (\<lambda>(t, st). ebind (finish_txn p t m) (\<lambda>(calls, m). Inr (calls, m, st))))
       (Abort_txn lg D api (txn_store m ! p) st))"

end
