(* ===== verification/Transaction_Spec.thy ===== *)
theory Transaction_Spec
  imports Table_Values Transaction_Manager
begin

text \<open>
  What the transaction manager does to a table.  The write set of a transaction is an undo log over
  the contents of the table: each change appends the record that takes it back.  \<^verbatim>\<open>Abort\<close> applies the
  records from the last to the first and restores the contents, as long as the updates of the
  transaction have not made tuples shorter; \<^verbatim>\<open>Commit\<close> removes exactly the rows that the transaction
  marked as deleted.  Without the restriction on updates the roll-back can fail, and the failure
  is not reported.
\<close>

section \<open>Tables in the pool\<close>

definition table_state :: "nat \<Rightarrow> table_heap \<Rightarrow> apage list \<Rightarrow> page_id \<Rightarrow> bpm \<Rightarrow> bool" where
  "table_state n h ps i s \<longleftrightarrow> (\<exists>a. pool_ok n s a \<and> spare n 2 a \<and> heap_ok h a ps \<and> c_next a = i)"

lemma table_step:
  assumes "table_state n h ps i s" and "heap_permitted op ps i" and "heap_spec lg h op (t, ps, i) = Inr (out, t', ps', i')"
  shows "\<exists>s'. heap_step lg h op (t, s) = Some (Inr (out, t', s')) \<and> table_state n h ps' i' s'"
proof -
  obtain a where a: "pool_ok n s a" "spare n 2 a" "heap_ok h a ps" "c_next a = i" using assms(1) by (auto simp: table_state_def)
  obtain s' a' where s': "heap_step lg h op (t, s) = Some (Inr (out, t', s'))" "pool_ok n s' a'" "heap_ok h a' ps'"
    "only_changes (ap_id ` set ps) a a'" "c_next a' = i'"
    using heap_step_refines [OF a(1-3), of op lg t] assms(2,3) a(4) by (auto simp: heap_refined_def)
  then have "table_state n h ps' i' s'" using only_changes_spare [OF s'(4)] a(2) by (auto simp: table_state_def)
  then show ?thesis using s'(1) by blast
qed

lemma table_state_wf: "table_state n h ps i s \<Longrightarrow> table_wf ps \<and> ps \<noteq> []"
  unfolding table_state_def using heap_ok_wf heap_okD(3) by blast

lemma table_state_fresh:
  assumes "table_state n h ps i s" and "unat i < 524287"
  shows "i \<notin> ap_id ` set ps"
proof -
  obtain a where a: "pool_ok n s a" "spare n 2 a" "heap_ok h a ps" "c_next a = i" using assms(1) by (auto simp: table_state_def)
  have "spare n 1 a" using spare_mono [OF a(2)] by simp
  with pool.create_law [OF a(1)] assms(2) a(4) have "c_next a \<notin> c_live a"
    by (metis pool.create_ok [OF a(1)])
  then show ?thesis using heap_okD(5) [OF a(3)] a(4) by auto
qed

lemma table_scan:
  assumes "table_state n h ps i s"
  shows "\<exists>s'. heap_scan lg h t s = Some (Inr (rows ps, t, s')) \<and> table_state n h ps i s'"
proof -
  have "heap_spec lg h Scan (t, ps, i) = Inr (Rows (rows ps), t, ps, i)" by (simp add: heap_spec_def)
  then obtain s' where "heap_step lg h Scan (t, s) = Some (Inr (Rows (rows ps), t, s'))" "table_state n h ps i s'"
    using table_step [OF assms, of Scan lg t] by (auto simp: heap_permitted_def)
  then show ?thesis
    by (cases "heap_scan lg h t s" rule: option.exhaust; cases "the (heap_scan lg h t s)") (auto simp: heap_step_def ebind_def)
qed

section \<open>The undo log\<close>

type_synonym contents = "RID \<Rightarrow> (bool \<times> byte list) option"

text \<open>What a record takes back, and when it can.\<close>

definition undo_row :: "table_write_record \<Rightarrow> contents \<Rightarrow> contents" where
  "undo_row w v = v(tw_rid w := (case tw_type w of
       W_DELETE \<Rightarrow> map_option (\<lambda>(_, bs). (False, bs)) (v (tw_rid w))
     | W_INSERT \<Rightarrow> None
     | W_UPDATE \<Rightarrow> Some (False, tuple_bytes (tw_tuple w))))"

definition undoable :: "table_write_record \<Rightarrow> contents \<Rightarrow> bool" where
  "undoable w v \<longleftrightarrow> (case tw_type w of
       W_DELETE \<Rightarrow> \<exists>bs. v (tw_rid w) = Some (True, bs)
     | W_INSERT \<Rightarrow> v (tw_rid w) \<noteq> None
     | W_UPDATE \<Rightarrow> tuple_bytes (tw_tuple w) \<noteq> [] \<and>
         (\<exists>bs. v (tw_rid w) = Some (False, bs) \<and> length (tuple_bytes (tw_tuple w)) \<le> length bs))"

text \<open>The records in the order of the roll-back.\<close>

fun all_undoable :: "table_write_record list \<Rightarrow> contents \<Rightarrow> bool" where
  "all_undoable [] v \<longleftrightarrow> True"
| "all_undoable (w # ws) v \<longleftrightarrow> undoable w v \<and> all_undoable ws (undo_row w v)"

lemma all_undoable_append: "all_undoable (xs @ ys) v \<longleftrightarrow> all_undoable xs v \<and> all_undoable ys (fold undo_row xs v)"
  by (induction xs arbitrary: v) simp_all

lemma rollback_item_ok:
  assumes st: "table_state n h ps i s" and u: "undoable w (value_at ps)" and w: "tw_table w = h" and t: "txn_state t = ABORTED"
  shows "\<exists>s' qs. rollback_item lg w t s = Inr (t, s') \<and> table_state n h qs i s' \<and> value_at qs = undo_row w (value_at ps) \<and> grown ps qs"
proof -
  let ?r = "tw_rid w"
  note wf = table_state_wf [OF st, THEN conjunct1]
  obtain b bs where row: "row_at ps ?r = Some (Slot b bs)"
    using u by (auto simp: undoable_def value_at_row split: wtype.splits)
  then have v: "value_at ps ?r = Some (b, bs)" by (simp add: value_at_row)
  have per: "heap_permitted (Rollback_delete ?r) ps i" "heap_permitted (Apply_delete ?r) ps i" "heap_permitted (Update_tuple (tw_tuple w) ?r) ps i"
    using row_at_has_page [OF row] by (simp_all add: heap_permitted_def)
  note upd = value_at_set_row [OF row] and unf = rollback_item_def undo_row_def
  show ?thesis
  proof (cases "tw_type w")
    case W_DELETE
    then have "b = True" using u v by (simp add: undoable_def)
    then have "heap_spec lg h (Rollback_delete ?r) (t, ps, i) = Inr (Finished, t, set_row ?r (Slot False bs) ps, i)"
      using row by (simp add: heap_spec_def)
    from table_step [OF st per(1) this] show ?thesis using upd [of "Slot False bs"] W_DELETE v grown_set_row [of ps ?r]
      by (fastforce simp: heap_step_def unf ebind_def split: sum.splits)
  next
    case W_INSERT
    have "heap_spec lg h (Apply_delete ?r) (t, ps, i) = Inr (Finished, t, set_row ?r Free ps, i)"
      using row by (simp add: heap_spec_def)
    from table_step [OF st per(2) this] show ?thesis using upd [of Free] W_INSERT grown_set_row [of ps ?r]
      by (fastforce simp: heap_step_def unf ebind_def split: sum.splits)
  next
    case W_UPDATE
    have "heap_spec lg h (Update_tuple (tw_tuple w) ?r) (t, ps, i) = Inr (Flag True, t, set_row ?r (Slot False (tuple_bytes (tw_tuple w))) ps, i)"
      using u v row W_UPDATE t table_wf_room [OF wf, of ?r] by (auto simp: heap_spec_def undoable_def tuple_size_def)
    from table_step [OF st per(3) this] show ?thesis
      using upd [of "Slot False (tuple_bytes (tw_tuple w))"] W_UPDATE w grown_set_row [of ps ?r]
      by (fastforce simp: heap_step_def unf ebind_def split: sum.splits)
  qed
qed

lemma abort_loop_ok:
  assumes "table_state n h ps i s" and "table_write_set t = W" and "all_undoable (rev W) (value_at ps)"
    and "\<forall>w \<in> set W. tw_table w = h" and "txn_state t = ABORTED"
  shows "\<exists>s' qs. abort_loop lg t s = Some (Inr (t\<lparr>table_write_set := []\<rparr>, s')) \<and> table_state n h qs i s' \<and>
    value_at qs = fold undo_row (rev W) (value_at ps) \<and> grown ps qs"
  using assms
proof (induction W arbitrary: t s ps rule: rev_induct)
  case Nil
  have "t\<lparr>table_write_set := []\<rparr> = t" using Nil.prems(2) by simp
  then show ?case using Nil.prems(1,2) grown_refl by (subst abort_loop.simps) auto
next
  case (snoc w W)
  have w: "undoable w (value_at ps)" "tw_table w = h" using snoc.prems(3,4) by simp_all
  obtain s1 ps1 where s1: "rollback_item lg w t s = Inr (t, s1)" "table_state n h ps1 i s1" "value_at ps1 = undo_row w (value_at ps)" "grown ps ps1"
    using rollback_item_ok [OF snoc.prems(1) w snoc.prems(5)] by blast
  let ?t = "t\<lparr>table_write_set := W\<rparr>"
  obtain s2 qs where s2: "abort_loop lg ?t s1 = Some (Inr (?t\<lparr>table_write_set := []\<rparr>, s2))" "table_state n h qs i s2"
    "value_at qs = fold undo_row (rev W) (value_at ps1)" "grown ps1 qs"
    using snoc.IH [OF s1(2), of ?t] snoc.prems(3-5) s1(3) by auto
  have "abort_loop lg t s = abort_loop lg ?t s1" using snoc.prems(2) s1(1) by (subst abort_loop.simps) simp
  then show ?case using s2 s1(3) grown_trans [OF s1(4) s2(4)] by auto
qed

section \<open>Changes and their records\<close>

text \<open>The calls of a transaction: it inserts tuples that fit on a page, deletes and reads rows that
  exist, and updates rows that exist with tuples that are not shorter.\<close>

definition change_ok :: "heap_op \<Rightarrow> apage list \<Rightarrow> bool" where
  "change_ok op ps \<longleftrightarrow> (case op of
       Insert_tuple tup \<Rightarrow> tuple_size tup + 32 \<le> 4096 \<and> tuple_bytes tup \<noteq> []
     | Mark_delete rid \<Rightarrow> (case value_at ps rid of Some (False, _) \<Rightarrow> True | _ \<Rightarrow> False)
     | Update_tuple tup rid \<Rightarrow> tuple_bytes tup \<noteq> [] \<and>
         (case value_at ps rid of Some (False, old) \<Rightarrow> length old \<le> length (tuple_bytes tup) | _ \<Rightarrow> False)
     | Apply_delete rid \<Rightarrow> False
     | Rollback_delete rid \<Rightarrow> False
     | Get_tuple rid \<Rightarrow> (case value_at ps rid of Some (False, _) \<Rightarrow> True | _ \<Rightarrow> False)
     | Scan \<Rightarrow> True)"

fun changes_ok :: "bool \<Rightarrow> table_heap \<Rightarrow> heap_op list \<Rightarrow> transaction \<times> apage list \<times> page_id \<Rightarrow> bool" where
  "changes_ok lg h [] st \<longleftrightarrow> True"
| "changes_ok lg h (op # ops) st \<longleftrightarrow> (case st of (t, ps, i) \<Rightarrow> heap_permitted op ps i \<and> change_ok op ps \<and>
     (case heap_spec lg h op st of Inl e \<Rightarrow> False | Inr (out, st) \<Rightarrow> changes_ok lg h ops st))"

text \<open>One call: the records it appends (at most one), and the parts of the transaction it leaves.\<close>

definition logs :: "table_heap \<Rightarrow> transaction \<Rightarrow> table_write_record list \<Rightarrow> transaction \<Rightarrow> bool" where
  "logs h t ws t' \<longleftrightarrow> table_write_set t' = table_write_set t @ ws \<and> (\<forall>w \<in> set ws. tw_table w = h) \<and>
     index_write_set t' = index_write_set t \<and> txn_state t' = txn_state t"

lemma logged_logs:
  "logs h t [\<lparr>tw_rid = rid, tw_type = w, tw_tuple = old, tw_table = h\<rparr>] (logged w old h rid t)"
  "logs h t [\<lparr>tw_rid = rid, tw_type = w, tw_tuple = old, tw_table = h\<rparr>] (logged w old h rid (t\<lparr>prev_lsn := l\<rparr>))"
  by (simp_all add: logs_def logged_def AppendTableWriteRecord_def)

lemma logs_refl: "logs h t [] t"
  by (simp add: logs_def)

lemma logs_trans: "logs h t ws t' \<Longrightarrow> logs h t' ws' t'' \<Longrightarrow> logs h t (ws @ ws') t''"
  by (auto simp: logs_def)

text \<open>The changes of the contents, with their records.\<close>

inductive logged_change :: "table_write_record list \<Rightarrow> contents \<Rightarrow> contents \<Rightarrow> bool" where
  unchanged: "logged_change [] v v"
| inserted: "v rid = None \<Longrightarrow> tw_type w = W_INSERT \<Longrightarrow> tw_rid w = rid \<Longrightarrow> logged_change [w] v (v(rid \<mapsto> (False, bs)))"
| marked: "v rid = Some (False, bs) \<Longrightarrow> tw_type w = W_DELETE \<Longrightarrow> tw_rid w = rid \<Longrightarrow> logged_change [w] v (v(rid \<mapsto> (True, bs)))"
| updated: "v rid = Some (False, old) \<Longrightarrow> old \<noteq> [] \<Longrightarrow> length old \<le> length new \<Longrightarrow> tw_type w = W_UPDATE \<Longrightarrow> tw_rid w = rid \<Longrightarrow>
    tuple_bytes (tw_tuple w) = old \<Longrightarrow> logged_change [w] v (v(rid \<mapsto> (False, new)))"

lemma change_step:
  assumes st: "table_state n h ps i s" and op: "heap_permitted op ps i" "change_ok op ps" and t: "txn_state t \<noteq> ABORTED"
    and spec: "heap_spec lg h op (t, ps, i) = Inr (out, t', ps', i')"
  shows "\<exists>ws. logs h t ws t' \<and> logged_change ws (value_at ps) (value_at ps') \<and> grown ps ps'"
proof (cases op)
  case (Insert_tuple tup)
  obtain rid qs where q: "table_insert_at (tuple_bytes tup) i ps = (rid, qs)" by (rule prod.exhaust)
  note wf = table_state_wf [OF st]
  have "i \<notin> ap_id ` set ps" using table_state_fresh [OF st] op(1) Insert_tuple by (simp add: heap_permitted_def)
  note I = table_insert_at_value [OF conjunct1 [OF wf] this conjunct2 [OF wf] q]
  have eq: "ps' = qs" "t' = logged W_INSERT Tuple_default h rid (if lg \<and> grows (tuple_bytes tup) ps then t\<lparr>prev_lsn := INVALID_LSN\<rparr> else t)"
    using spec op(2) q by (simp_all add: Insert_tuple heap_spec_def change_ok_def)
  then show ?thesis using I logged_logs [where t = t] inserted [of "value_at ps" rid]
    by (cases "lg \<and> grows (tuple_bytes tup) ps") (simp_all, (metis table_write_record.select_convs)+)
next
  case (Mark_delete rid)
  obtain bs where v: "value_at ps rid = Some (False, bs)" using op(2) by (auto simp: Mark_delete change_ok_def split: option.splits bool.splits)
  then have row: "row_at ps rid = Some (Slot False bs)" by (simp add: value_at_row)
  then have eq: "ps' = set_row rid (Slot True bs) ps" "t' = logged W_DELETE Tuple_default h rid t" using spec by (simp_all add: Mark_delete heap_spec_def)
  let ?w = "\<lparr>tw_rid = rid, tw_type = W_DELETE, tw_tuple = Tuple_default, tw_table = h\<rparr>"
  show ?thesis using marked [of "value_at ps" rid bs ?w] v logged_logs(1) [of h t rid] value_at_set_row [OF row, of "Slot True bs"] grown_set_row
    by (intro exI [of _ "[?w]"]) (simp add: eq)
next
  case (Update_tuple tup rid)
  obtain old where v: "value_at ps rid = Some (False, old)" and len: "length old \<le> length (tuple_bytes tup)" and ne: "tuple_bytes tup \<noteq> []"
    using op(2) by (auto simp: Update_tuple change_ok_def split: option.splits bool.splits)
  have row: "row_at ps rid = Some (Slot False old)" using v by (simp add: value_at_row)
  have old: "old \<noteq> []" using table_wf_bytes [OF _ row] table_state_wf [OF st] by blast
  let ?w = "\<lparr>tw_rid = rid, tw_type = W_UPDATE, tw_tuple = \<lparr>t_rid = rid, t_data = Some old\<rparr>, tw_table = h\<rparr>"
  show ?thesis
  proof (cases "room_at ps rid + int (length old) < tuple_size tup")
    case True
    then have "ps' = ps" "t' = t" using spec row ne by (simp_all add: Update_tuple heap_spec_def)
    then show ?thesis using logs_refl unchanged grown_refl by blast
  next
    case False
    then have eq: "ps' = set_row rid (Slot False (tuple_bytes tup)) ps" "t' = logged W_UPDATE \<lparr>t_rid = rid, t_data = Some old\<rparr> h rid t"
      using spec row ne t by (simp_all add: Update_tuple heap_spec_def)
    show ?thesis using updated [of "value_at ps" rid old "tuple_bytes tup" ?w] v old len logged_logs(1) [of h t rid] value_at_set_row [OF row, of "Slot False (tuple_bytes tup)"] grown_set_row
      by (intro exI [of _ "[?w]"]) (simp add: eq tuple_bytes_def)
  qed
next
  case (Get_tuple rid)
  then have "ps' = ps" "t' = t" using spec op(2)
    by (auto simp: heap_spec_def change_ok_def value_at_row split: option.splits bool.splits)
  then show ?thesis using logs_refl unchanged grown_refl by blast
next
  case Scan
  then have "ps' = ps" "t' = t" using spec by (simp_all add: heap_spec_def)
  then show ?thesis using logs_refl unchanged grown_refl by blast
qed (use op(2) in \<open>simp_all add: change_ok_def\<close>)

text \<open>The contents after a transaction's calls can be taken back; the rows marked as deleted are those
  of its delete records.\<close>

definition takes_back :: "table_write_record list \<Rightarrow> contents \<Rightarrow> contents \<Rightarrow> bool" where
  "takes_back ws v v' \<longleftrightarrow> all_undoable (rev ws) v' \<and> fold undo_row (rev ws) v' = v"

definition deleted_rids :: "table_write_record list \<Rightarrow> RID list" where
  "deleted_rids ws = map tw_rid (filter (\<lambda>w. tw_type w = W_DELETE) ws)"

definition marks :: "table_write_record list \<Rightarrow> contents \<Rightarrow> bool" where
  "marks ws v \<longleftrightarrow> distinct (deleted_rids ws) \<and> (\<forall>rid. rid \<in> set (deleted_rids ws) \<longleftrightarrow> (\<exists>bs. v rid = Some (True, bs)))"

lemma takes_back_trans: "takes_back ws v v' \<Longrightarrow> takes_back ws' v' v'' \<Longrightarrow> takes_back (ws @ ws') v v''"
  by (simp add: takes_back_def all_undoable_append)

lemma logged_change_back: "logged_change ws v v' \<Longrightarrow> takes_back ws v v'"
  by (induction rule: logged_change.induct) (auto simp: takes_back_def undoable_def undo_row_def)

lemma logged_change_marks: "logged_change ws v v' \<Longrightarrow> marks W v \<Longrightarrow> marks (W @ ws) v'"
  by (induction rule: logged_change.induct) (auto simp: marks_def deleted_rids_def)

lemma changes_run:
  assumes "table_state n h ps i s" and "changes_ok lg h ops (t, ps, i)" and "txn_state t \<noteq> ABORTED"
  shows "\<exists>outs t' s' ps' i' ws. heap_run lg h ops (t, s) = Some (Inr (outs, t', s')) \<and>
    heap_spec_run lg h ops (t, ps, i) = Inr (outs, t', ps', i') \<and> table_state n h ps' i' s' \<and>
    logs h t ws t' \<and> takes_back ws (value_at ps) (value_at ps') \<and> grown ps ps' \<and>
    (\<forall>W. marks W (value_at ps) \<longrightarrow> marks (W @ ws) (value_at ps'))"
  using assms
proof (induction ops arbitrary: t s ps i)
  case Nil
  then show ?case using logs_refl [of h t] grown_refl [of ps] logged_change_back [OF unchanged]
    by (fastforce intro!: exI [of _ "[]"])
next
  case (Cons op ops)
  obtain out t1 ps1 i1 where spec: "heap_spec lg h op (t, ps, i) = Inr (out, t1, ps1, i1)" and ok1: "changes_ok lg h ops (t1, ps1, i1)"
    and op: "heap_permitted op ps i" "change_ok op ps"
    using Cons.prems(2) by (auto split: sum.splits)
  obtain s1 where s1: "heap_step lg h op (t, s) = Some (Inr (out, t1, s1))" "table_state n h ps1 i1 s1"
    using table_step [OF Cons.prems(1) op(1) spec] by blast
  obtain ws where ws: "logs h t ws t1" "logged_change ws (value_at ps) (value_at ps1)" "grown ps ps1"
    using change_step [OF Cons.prems(1) op Cons.prems(3) spec] by blast
  have "txn_state t1 \<noteq> ABORTED" using ws(1) Cons.prems(3) by (simp add: logs_def)
  from Cons.IH [OF s1(2) ok1 this] obtain outs t' s' ps' i' ws' where
    r: "heap_run lg h ops (t1, s1) = Some (Inr (outs, t', s'))" "heap_spec_run lg h ops (t1, ps1, i1) = Inr (outs, t', ps', i')"
      "table_state n h ps' i' s'" "logs h t1 ws' t'" "takes_back ws' (value_at ps1) (value_at ps')" "grown ps1 ps'"
      "\<forall>W. marks W (value_at ps1) \<longrightarrow> marks (W @ ws') (value_at ps')" by blast
  have "heap_run lg h (op # ops) (t, s) = Some (Inr (out # outs, t', s'))"
    "heap_spec_run lg h (op # ops) (t, ps, i) = Inr (out # outs, t', ps', i')" using s1(1) r(1,2) spec by simp_all
  moreover have "\<forall>W. marks W (value_at ps) \<longrightarrow> marks (W @ ws @ ws') (value_at ps')"
    using logged_change_marks [OF ws(2)] r(7) by (metis append.assoc)
  ultimately show ?case
    using r(3) logs_trans [OF ws(1) r(4)] takes_back_trans [OF logged_change_back [OF ws(2)] r(5)] grown_trans [OF ws(3) r(6)] by blast
qed

section \<open>\<^verbatim>\<open>Abort\<close>\<close>

text \<open>The client stores the transaction it has worked with.\<close>

definition put_txn :: "nat \<Rightarrow> transaction \<Rightarrow> txn_manager \<Rightarrow> txn_manager" where
  "put_txn p t m = m\<lparr>txn_store := (txn_store m)[p := t]\<rparr>"

lemma TM_Begin_new:
  assumes "TM_Begin None level m = Some (p, m1)"
  shows "txn_store m1 ! p = new_transaction (next_txn_id m) level" "p < length (txn_store m1)" "global_txn_latch m1 = (global_txn_latch m)\<lparr>readers := readers (global_txn_latch m) + 1\<rparr>"
  using assms by (auto simp: TM_Begin_def RLock_def Let_def split: if_splits)

lemma new_transaction_fields:
  "table_write_set (new_transaction i level) = []" "index_write_set (new_transaction i level) = []" "txn_state (new_transaction i level) \<noteq> ABORTED"
  by (simp_all add: new_transaction_def)

lemma Abort_txn_ok:
  assumes st: "table_state n h ps' i s" and t: "logs h t0 ws t" "table_write_set t0 = []" "index_write_set t0 = []"
    and tb: "takes_back ws (value_at ps) (value_at ps')"
  shows "\<exists>t' s' qs. Abort_txn lg D api t (x, s) = Some (Inr (t', x, s')) \<and> txn_state t' = ABORTED \<and> table_write_set t' = [] \<and>
    table_state n h qs i s' \<and> value_at qs = value_at ps \<and> grown ps' qs"
proof -
  let ?t = "SetState ABORTED t"
  have "table_write_set ?t = ws" "index_write_set ?t = []" "\<forall>w \<in> set ws. tw_table w = h" "txn_state ?t = ABORTED"
    using t by (simp_all add: logs_def SetState_def)
  moreover from this obtain s' qs where "abort_loop lg ?t s = Some (Inr (?t\<lparr>table_write_set := []\<rparr>, s'))" "table_state n h qs i s'"
    "value_at qs = value_at ps" "grown ps' qs"
    using abort_loop_ok [OF st, of ?t ws lg] tb by (auto simp: takes_back_def)
  ultimately show ?thesis by (auto simp: Abort_txn_def abort_index_loop.simps)
qed

lemma finish_txn_ok:
  "0 < readers (global_txn_latch m) \<Longrightarrow> p < length (txn_store m) \<Longrightarrow>
    \<exists>m'. finish_txn p t m = Inr (ReleaseLocks t, m') \<and> txn_store m' ! p = t \<and> readers (global_txn_latch m') = readers (global_txn_latch m) - 1"
  by (simp add: finish_txn_def RUnlock_def)

text \<open>C3. Aborting a transaction takes back all it did. A transaction begins on a table in any state, inserts
  tuples, marks rows as deleted, updates rows with tuples at least as long, reads and scans, in any
  order and number, and is then aborted: every call returns, \<^verbatim>\<open>Abort\<close> returns, the state of the
  transaction is \<^verbatim>\<open>ABORTED\<close> and its write set empty, each record identifier has the value it
  had before, and a scan gives exactly the rows from before the transaction. The pages it added stay.\<close>

theorem abort_restores_table:
  assumes "table_state n h ps i s" and "TM_Begin None level m = Some (p, m1)" and "changes_ok lg h ops (txn_store m1 ! p, ps, i)"
  shows "\<exists>outs t s1 calls m2 s2. heap_run lg h ops (txn_store m1 ! p, s) = Some (Inr (outs, t, s1)) \<and>
    TM_Abort lg D api p (put_txn p t m1, x, s1) = Some (Inr (calls, m2, x, s2)) \<and>
    txn_state (txn_store m2 ! p) = ABORTED \<and> table_write_set (txn_store m2 ! p) = [] \<and>
    readers (global_txn_latch m2) = readers (global_txn_latch m) \<and>
    (\<exists>qs j. table_state n h qs j s2 \<and> value_at qs = value_at ps) \<and>
    (\<forall>t'. \<exists>s3. heap_scan lg h t' s2 = Some (Inr (rows ps, t', s3)))"
proof -
  note B = TM_Begin_new [OF assms(2)] and new = new_transaction_fields [of "next_txn_id m" level]
  let ?t0 = "txn_store m1 ! p"
  obtain outs t s1 ps1 i1 ws where r: "heap_run lg h ops (?t0, s) = Some (Inr (outs, t, s1))" "table_state n h ps1 i1 s1"
    "logs h ?t0 ws t" "takes_back ws (value_at ps) (value_at ps1)" "grown ps ps1"
    using changes_run [OF assms(1,3)] new(3) B(1) by auto
  obtain t2 s2 qs where a: "Abort_txn lg D api t (x, s1) = Some (Inr (t2, x, s2))" "txn_state t2 = ABORTED" "table_write_set t2 = []"
    "table_state n h qs i1 s2" "value_at qs = value_at ps" "grown ps1 qs"
    using Abort_txn_ok [OF r(2,3) _ _ r(4)] new(1,2) B(1) by metis
  obtain m2 where m2: "finish_txn p t2 (put_txn p t m1) = Inr (ReleaseLocks t2, m2)" "txn_store m2 ! p = t2"
    "readers (global_txn_latch m2) = readers (global_txn_latch m)"
    using finish_txn_ok [of "put_txn p t m1" p t2] B(2,3) by (auto simp: put_txn_def)
  have "TM_Abort lg D api p (put_txn p t m1, x, s1) = Some (Inr (ReleaseLocks t2, m2, x, s2))"
    using a(1) m2(1) B(2) by (simp add: TM_Abort_def put_txn_def)
  moreover have "rows qs = rows ps"
    using rows_same [OF grown_trans [OF r(5) a(6)]] table_state_wf [OF assms(1)] table_state_wf [OF a(4)] a(5) by simp
  moreover have "\<exists>s3. heap_scan lg h t' s2 = Some (Inr (rows qs, t', s3))" for t' using table_scan [OF a(4)] by blast
  ultimately show ?thesis using r(1) a(2-5) m2(2,3) by metis
qed

section \<open>\<^verbatim>\<open>Commit\<close>\<close>

lemma live_of_live: "live_of (map_option (Pair False) (live_of x)) = live_of x"
  by (simp add: live_of_def split: option.splits prod.splits bool.splits)

lemma deleted_rids_snoc: "deleted_rids (W @ [w]) = deleted_rids W @ (if tw_type w = W_DELETE then [tw_rid w] else [])"
  by (simp add: deleted_rids_def)

lemma commit_item_ok:
  assumes st: "table_state n h ps i s" and v: "value_at ps rid \<noteq> None"
  shows "\<exists>s' qs. TableHeap_ApplyDelete rid s = Inr s' \<and> table_state n h qs i s' \<and> value_at qs = (value_at ps)(rid := None) \<and> grown ps qs"
proof -
  obtain b bs where row: "row_at ps rid = Some (Slot b bs)" using v value_at_row [of ps rid] by (cases "value_at ps rid") auto
  have "heap_spec False h (Apply_delete rid) (new_transaction 0 REPEATABLE_READ, ps, i) = Inr (Finished, new_transaction 0 REPEATABLE_READ, set_row rid Free ps, i)"
    using row by (simp add: heap_spec_def)
  from table_step [OF st _ this] show ?thesis
    using row_at_has_page [OF row] value_at_set_row [OF row, of Free] grown_set_row [of ps rid]
    by (fastforce simp: heap_step_def heap_permitted_def ebind_def split: sum.splits)
qed

lemma commit_loop_ok:
  assumes "table_state n h ps i s" and "table_write_set t = W" and "distinct (deleted_rids W)" and "\<forall>rid \<in> set (deleted_rids W). value_at ps rid \<noteq> None"
  shows "\<exists>s' qs. commit_loop t s = Inr (t\<lparr>table_write_set := []\<rparr>, s') \<and> table_state n h qs i s' \<and> grown ps qs \<and>
    value_at qs = (\<lambda>rid. if rid \<in> set (deleted_rids W) then None else value_at ps rid)"
  using assms
proof (induction W arbitrary: t s ps rule: rev_induct)
  case Nil
  have "t\<lparr>table_write_set := []\<rparr> = t" using Nil.prems(2) by simp
  then show ?case using Nil.prems(1,2) by (subst commit_loop.simps) (auto simp: deleted_rids_def)
next
  case (snoc w W)
  let ?t = "t\<lparr>table_write_set := W\<rparr>"
  obtain s1 ps1 where s1: "(if tw_type w = W_DELETE then TableHeap_ApplyDelete (tw_rid w) s else Inr s) = Inr s1" "table_state n h ps1 i s1" "grown ps ps1"
    "value_at ps1 = (if tw_type w = W_DELETE then (value_at ps)(tw_rid w := None) else value_at ps)"
    using commit_item_ok [OF snoc.prems(1), of "tw_rid w"] snoc.prems(1,4) by (cases "tw_type w = W_DELETE") (auto simp: deleted_rids_snoc)
  have "\<forall>rid \<in> set (deleted_rids W). value_at ps1 rid \<noteq> None" "distinct (deleted_rids W)"
    using snoc.prems(3,4) s1(4) by (auto simp: deleted_rids_snoc split: if_splits)
  from snoc.IH [OF s1(2) _ this(2,1), of ?t] obtain s2 qs where s2: "commit_loop ?t s1 = Inr (t\<lparr>table_write_set := []\<rparr>, s2)"
    "table_state n h qs i s2" "grown ps1 qs" "value_at qs = (\<lambda>rid. if rid \<in> set (deleted_rids W) then None else value_at ps1 rid)" by auto
  have "commit_loop t s = commit_loop ?t s1" using snoc.prems(2) s1(1) by (subst commit_loop.simps) (simp add: Let_def)
  moreover have "value_at qs = (\<lambda>rid. if rid \<in> set (deleted_rids (W @ [w])) then None else value_at ps rid)"
    using s2(4) s1(4) by (auto simp: deleted_rids_snoc)
  ultimately show ?case using s2(1,2) grown_trans [OF s1(3) s2(3)] by auto
qed

text \<open>C6. Committing a transaction keeps what it did and removes what it deleted. A transaction begins on a
  table without rows marked as deleted, makes any calls as above, and is committed: \<^verbatim>\<open>Commit\<close> returns,
  the state of the transaction is \<^verbatim>\<open>COMMITTED\<close>, its write set is empty, a scan gives exactly the rows
  that the calls of the transaction produce on the abstract table, and no row remains that is
  marked as deleted: each such row is freed, once.\<close>

theorem commit_applies_deletes:
  assumes "table_state n h ps i s" and "TM_Begin None level m = Some (p, m1)" and "changes_ok lg h ops (txn_store m1 ! p, ps, i)"
    and "\<forall>rid bs. value_at ps rid \<noteq> Some (True, bs)"
  shows "\<exists>outs t s1 ps1 i1 calls m2 s2 qs. heap_run lg h ops (txn_store m1 ! p, s) = Some (Inr (outs, t, s1)) \<and>
    heap_spec_run lg h ops (txn_store m1 ! p, ps, i) = Inr (outs, t, ps1, i1) \<and>
    TM_Commit p (put_txn p t m1, s1) = Inr (calls, m2, s2) \<and>
    txn_state (txn_store m2 ! p) = COMMITTED \<and> table_write_set (txn_store m2 ! p) = [] \<and>
    readers (global_txn_latch m2) = readers (global_txn_latch m) \<and>
    table_state n h qs i1 s2 \<and> (\<forall>rid. value_at qs rid = map_option (Pair False) (live_of (value_at ps1 rid))) \<and>
    (\<forall>t'. \<exists>s3. heap_scan lg h t' s2 = Some (Inr (rows ps1, t', s3)))"
proof -
  note B = TM_Begin_new [OF assms(2)] and new = new_transaction_fields [of "next_txn_id m" level]
  let ?t0 = "txn_store m1 ! p"
  have "marks [] (value_at ps)" using assms(4) by (simp add: marks_def deleted_rids_def)
  then obtain outs t s1 ps1 i1 ws where r: "heap_run lg h ops (?t0, s) = Some (Inr (outs, t, s1))"
    "heap_spec_run lg h ops (?t0, ps, i) = Inr (outs, t, ps1, i1)" "table_state n h ps1 i1 s1" "logs h ?t0 ws t" "marks ws (value_at ps1)"
    using changes_run [OF assms(1,3)] new(3) B(1) by (metis append_Nil)
  let ?t = "SetState COMMITTED t"
  have W: "table_write_set ?t = ws" "txn_state ?t = COMMITTED" using r(4) new(1) B(1) by (simp_all add: logs_def SetState_def)
  have D: "distinct (deleted_rids ws)" "\<And>rid. rid \<in> set (deleted_rids ws) \<longleftrightarrow> (\<exists>bs. value_at ps1 rid = Some (True, bs))"
    using r(5) by (simp_all add: marks_def)
  then obtain s2 qs where c: "commit_loop ?t s1 = Inr (?t\<lparr>table_write_set := []\<rparr>, s2)" "table_state n h qs i1 s2" "grown ps1 qs"
    "value_at qs = (\<lambda>rid. if rid \<in> set (deleted_rids ws) then None else value_at ps1 rid)"
    using commit_loop_ok [OF r(3) W(1)] by fastforce
  define t2 where "t2 = ?t\<lparr>table_write_set := []\<rparr>"
  obtain m2 where m2: "finish_txn p t2 (put_txn p t m1) = Inr (ReleaseLocks t2, m2)" "txn_store m2 ! p = t2"
    "readers (global_txn_latch m2) = readers (global_txn_latch m)"
    using finish_txn_ok [of "put_txn p t m1" p t2] B(2,3) by (auto simp: put_txn_def)
  have commit: "TM_Commit p (put_txn p t m1, s1) = Inr (ReleaseLocks t2, m2, s2)"
    using c(1) m2(1) B(2) by (simp add: TM_Commit_def Commit_txn_def put_txn_def t2_def)
  have v: "value_at qs rid = map_option (Pair False) (live_of (value_at ps1 rid))" for rid
    using D(2) [of rid] by (cases "value_at ps1 rid") (auto simp: c(4))
  then have "rows qs = rows ps1"
    using rows_same [OF c(3)] table_state_wf [OF r(3)] table_state_wf [OF c(2)] by (simp add: option.map_comp live_of_live)
  then have "\<exists>s3. heap_scan lg h t' s2 = Some (Inr (rows ps1, t', s3))" for t' using table_scan [OF c(2), of lg t'] by auto
  moreover have "txn_state t2 = COMMITTED" "table_write_set t2 = []" using W(2) by (simp_all add: t2_def)
  ultimately show ?thesis using r(1,2) commit m2(2,3) c(2) v by blast
qed

section \<open>A roll-back that fails\<close>

lemma room_Cons: "room (x # xs) = room xs - 8 - int (slot_len x)"
  by (simp add: room_def)

lemma room_append: "room (xs @ [x]) = room xs - 8 - int (slot_len x)"
  by (simp add: room_def)

lemma first_slot_None: "(\<forall>x \<in> set xs. \<not> P x) \<Longrightarrow> first_slot P k xs = None"
  by (induction xs arbitrary: k) simp_all

lemma one_page_row:
  "row_at [p] \<lparr>rid_page_id = ap_id p, rid_slot_num = j\<rparr> = (if unat j < length (ap_slots p) then Some (ap_slots p ! unat j) else None)"
  "set_row \<lparr>rid_page_id = ap_id p, rid_slot_num = j\<rparr> x [p] = [p\<lparr>ap_slots := (ap_slots p)[unat j := x]\<rparr>]"
  "room_at [p] \<lparr>rid_page_id = ap_id p, rid_slot_num = j\<rparr> = room (ap_slots p)"
  "page_at (ap_id p) [p] = Some p"
  by (simp_all add: row_at_Cons slot_at_def set_row_def set_slot_def room_at_def page_at_def)

text \<open>The page on which it happens: full, with a first row that a transaction replaces by one of 16 bytes
  less, and a new row of 8 bytes that takes the 16 bytes with its slot.\<close>

lemma crowded_page_run:
  assumes p: "ap_slots p = Slot False old # rest" "Free \<notin> set rest" "room (ap_slots p) = 0" "length rest < 509"
    and len: "length old = length new + 16" "new \<noteq> []" "length extra = 8"
    and t: "txn_state t \<noteq> ABORTED"
  defines "rid0 \<equiv> \<lparr>rid_page_id = ap_id p, rid_slot_num = 0\<rparr>"
    and "rid1 \<equiv> \<lparr>rid_page_id = ap_id p, rid_slot_num = word_of_nat (Suc (length rest))\<rparr>"
    and "P \<equiv> \<lambda>ss. p\<lparr>ap_slots := ss\<rparr>"
  shows "heap_spec lg h (Update_tuple \<lparr>t_rid = r, t_data = Some new\<rparr> rid0) (t, [p], i) =
      Inr (Flag True, logged W_UPDATE \<lparr>t_rid = rid0, t_data = Some old\<rparr> h rid0 t, [P (Slot False new # rest)], i)"
    "heap_spec lg h (Insert_tuple \<lparr>t_rid = r, t_data = Some extra\<rparr>) (t', [P (Slot False new # rest)], i) =
      Inr (Rid_of (Some rid1), logged W_INSERT Tuple_default h rid1 t', [P (Slot False new # rest @ [Slot False extra])], i)"
    "heap_spec lg h (Apply_delete rid1) (t', [P (Slot False new # rest @ [Slot False extra])], i) = Inr (Finished, t', [P (Slot False new # rest @ [Free])], i)"
    "heap_spec lg h (Update_tuple \<lparr>t_rid = rid0, t_data = Some old\<rparr> rid0) (t', [P (Slot False new # rest @ [Free])], i) = Inr (Flag False, t', [P (Slot False new # rest @ [Free])], i)"
    "heap_spec lg h (Get_tuple rid0) (t', [P (Slot False new # rest @ [Free])], i) =
      Inr (Tuple_of (Some \<lparr>t_rid = rid0, t_data = Some new\<rparr>), t', [P (Slot False new # rest @ [Free])], i)"
proof -
  have rm: "room rest = int (length old) + 8" using p(1,3) by (simp add: room_Cons slot_len_def)
  have u: "unat (word_of_nat (Suc (length rest)) :: 32 word) = Suc (length rest)" by (rule unat_slot(1)) (use p(4) in simp)
  have ex: "extra \<noteq> []" using len(3) by auto
  have fits: "fits_on extra (P (Slot False new # rest))"
    using rm len by (simp add: fits_on_def P_def room_Cons slot_len_def)
  have none: "first_slot (\<lambda>s. s = Free) 0 (Slot False new # rest) = None" using p(2) first_slot_None [of rest "\<lambda>s. s = Free"] by auto
  note row = one_page_row [of "P _", unfolded P_def, simplified] one_page_row [of p]
  show "heap_spec lg h (Update_tuple \<lparr>t_rid = r, t_data = Some new\<rparr> rid0) (t, [p], i) =
      Inr (Flag True, logged W_UPDATE \<lparr>t_rid = rid0, t_data = Some old\<rparr> h rid0 t, [P (Slot False new # rest)], i)"
    using len(2) t p(3) len(1) by (simp add: heap_spec_def tuple_bytes_def tuple_size_def rid0_def row p(1) P_def)
  show "heap_spec lg h (Insert_tuple \<lparr>t_rid = r, t_data = Some extra\<rparr>) (t', [P (Slot False new # rest)], i) =
      Inr (Rid_of (Some rid1), logged W_INSERT Tuple_default h rid1 t', [P (Slot False new # rest @ [Slot False extra])], i)"
    using len(3) ex fits none
    by (simp add: heap_spec_def tuple_bytes_def tuple_size_def grows_def place_tuple_def rid1_def P_def)
  show "heap_spec lg h (Apply_delete rid1) (t', [P (Slot False new # rest @ [Slot False extra])], i) = Inr (Finished, t', [P (Slot False new # rest @ [Free])], i)"
    using u by (simp add: heap_spec_def rid1_def row P_def nth_append)
  show "heap_spec lg h (Update_tuple \<lparr>t_rid = rid0, t_data = Some old\<rparr> rid0) (t', [P (Slot False new # rest @ [Free])], i) = Inr (Flag False, t', [P (Slot False new # rest @ [Free])], i)"
    using len(1) rm by (auto simp: heap_spec_def tuple_bytes_def tuple_size_def rid0_def row P_def room_Cons room_append slot_len_def)
  show "heap_spec lg h (Get_tuple rid0) (t', [P (Slot False new # rest @ [Free])], i) =
      Inr (Tuple_of (Some \<lparr>t_rid = rid0, t_data = Some new\<rparr>), t', [P (Slot False new # rest @ [Free])], i)"
    by (simp add: heap_spec_def rid0_def row P_def)
qed

lemma crowded_page_abort:
  assumes st: "table_state n h [p\<lparr>ap_slots := Slot False new # rest @ [Slot False extra]\<rparr>] i s"
    and p: "ap_slots p = Slot False old # rest" "Free \<notin> set rest" "room (ap_slots p) = 0" "length rest < 509"
    and len: "length old = length new + 16" "new \<noteq> []" "length extra = 8"
    and rid: "rid = \<lparr>rid_page_id = ap_id p, rid_slot_num = 0\<rparr>" "rid1 = \<lparr>rid_page_id = ap_id p, rid_slot_num = word_of_nat (Suc (length rest))\<rparr>"
    and t: "table_write_set t = [\<lparr>tw_rid = rid, tw_type = W_UPDATE, tw_tuple = \<lparr>t_rid = rid, t_data = Some old\<rparr>, tw_table = h\<rparr>,
      \<lparr>tw_rid = rid1, tw_type = W_INSERT, tw_tuple = Tuple_default, tw_table = h\<rparr>]" "index_write_set t = []"
  shows "\<exists>s' t'. Abort_txn lg D api t (x, s) = Some (Inr (t', x, s')) \<and> txn_state t' = ABORTED \<and>
    (\<forall>u. \<exists>s''. TableHeap_GetTuple lg rid u s' = Inr (Some \<lparr>t_rid = rid, t_data = Some new\<rparr>, u, s''))"
proof -
  have dummy: "txn_state (new_transaction 0 REPEATABLE_READ) \<noteq> ABORTED" by (simp add: new_transaction_def)
  note C = crowded_page_run [OF p len dummy, where lg = lg and h = h and i = i, folded rid]
  define W0 where "W0 = \<lparr>tw_rid = rid, tw_type = W_UPDATE, tw_tuple = \<lparr>t_rid = rid, t_data = Some old\<rparr>, tw_table = h\<rparr>"
  define W1 where "W1 = \<lparr>tw_rid = rid1, tw_type = W_INSERT, tw_tuple = Tuple_default, tw_table = h\<rparr>"
  note W = t(1) [folded W0_def W1_def]
  let ?p3 = "[p\<lparr>ap_slots := Slot False new # rest @ [Free]\<rparr>]"
  have per: "heap_permitted (Apply_delete rid1) [p\<lparr>ap_slots := ss\<rparr>] i" "heap_permitted (Update_tuple y rid) [p\<lparr>ap_slots := ss\<rparr>] i"
    "heap_permitted (Get_tuple rid) [p\<lparr>ap_slots := ss\<rparr>] i" for ss y
    by (simp_all add: heap_permitted_def page_at_def rid)
  let ?ta = "SetState ABORTED t" and ?tb = "(SetState ABORTED t)\<lparr>table_write_set := [W0]\<rparr>" and ?tc = "(SetState ABORTED t)\<lparr>table_write_set := []\<rparr>"
  obtain s1 where s1: "rollback_item lg W1 ?ta s = Inr (?ta, s1)" "table_state n h ?p3 i s1"
    using table_step [OF st per(1) C(3) [where t' = ?ta]]
    by (fastforce simp: heap_step_def rollback_item_def W1_def ebind_def split: sum.splits)
  obtain s2 where s2: "rollback_item lg W0 ?tb s1 = Inr (?tb, s2)" "table_state n h ?p3 i s2"
    using table_step [OF s1(2) per(2) C(4) [where t' = ?tb]]
    by (fastforce simp: heap_step_def rollback_item_def W0_def ebind_def split: sum.splits)
  have "abort_loop lg ?ta s = Some (Inr (?tc, s2))"
    using W s1(1) s2(1) by (simp add: abort_loop.simps SetState_def)
  then have "Abort_txn lg D api t (x, s) = Some (Inr (?tc, x, s2))"
    using t(2) by (simp add: Abort_txn_def abort_index_loop.simps SetState_def)
  moreover have "\<exists>s3. TableHeap_GetTuple lg rid u s2 = Inr (Some \<lparr>t_rid = rid, t_data = Some new\<rparr>, u, s3)" for u
    using table_step [OF s2(2) per(3) C(5) [where t' = u]]
    by (fastforce simp: heap_step_def ebind_def split: sum.splits)
  moreover have "txn_state ?tc = ABORTED" by (simp add: SetState_def)
  ultimately show ?thesis by blast
qed

text \<open>C40. An abort can lose the old value of a row. On a full page, a transaction replaces a row by one
  that is 16 bytes shorter and then inserts a row of 8 bytes, which takes the room that was gained.
  \<^verbatim>\<open>Abort\<close> frees the inserted row, whose slot keeps its 8 bytes, and then \<^verbatim>\<open>UpdateTuple\<close> refuses to put
  the longer old row back for lack of room. Its result is not looked at: \<^verbatim>\<open>Abort\<close> returns as usual,
  and a later lookup of the row reads the value that the aborted transaction wrote.\<close>

theorem abort_can_lose_update:
  assumes "table_state n h [p] i s" and "unat i < 524287" and "TM_Begin None level m = Some (k, m1)"
    and p: "ap_slots p = Slot False old # rest" "Free \<notin> set rest" "room (ap_slots p) = 0" "length rest < 509"
    and len: "length old = length new + 16" "new \<noteq> []" "length extra = 8"
    and rid: "rid = \<lparr>rid_page_id = ap_id p, rid_slot_num = 0\<rparr>"
  shows "\<exists>r t s1 calls m2 s2. heap_run lg h [Update_tuple \<lparr>t_rid = RID_default, t_data = Some new\<rparr> rid,
        Insert_tuple \<lparr>t_rid = RID_default, t_data = Some extra\<rparr>] (txn_store m1 ! k, s) = Some (Inr ([Flag True, Rid_of (Some r)], t, s1)) \<and>
    TM_Abort lg D api k (put_txn k t m1, x, s1) = Some (Inr (calls, m2, x, s2)) \<and> txn_state (txn_store m2 ! k) = ABORTED \<and>
    (\<forall>t'. \<exists>s3. TableHeap_GetTuple lg rid t' s2 = Inr (Some \<lparr>t_rid = rid, t_data = Some new\<rparr>, t', s3))"
proof -
  note B = TM_Begin_new [OF assms(3)] and fields = new_transaction_fields [of "next_txn_id m" level]
  let ?t0 = "txn_store m1 ! k"
  have t0: "txn_state ?t0 \<noteq> ABORTED" "table_write_set ?t0 = []" "index_write_set ?t0 = []" using fields B(1) by simp_all
  define rid1 where "rid1 = \<lparr>rid_page_id = ap_id p, rid_slot_num = word_of_nat (Suc (length rest)) :: 32 word\<rparr>"
  note C = crowded_page_run [OF p len t0(1), where lg = lg and h = h and i = i, folded rid rid1_def]
  let ?p1 = "[p\<lparr>ap_slots := Slot False new # rest\<rparr>]"
  have per: "heap_permitted (Update_tuple y rid) [p] i" "heap_permitted (Insert_tuple \<lparr>t_rid = RID_default, t_data = Some extra\<rparr>) ?p1 i" for y
    using assms(2) len(3) by (simp_all add: heap_permitted_def page_at_def rid tuple_size_def tuple_bytes_def)
  define t1 where "t1 = logged W_UPDATE \<lparr>t_rid = rid, t_data = Some old\<rparr> h rid ?t0"
  define t2 where "t2 = logged W_INSERT Tuple_default h rid1 t1"
  obtain s1 where s1: "heap_step lg h (Update_tuple \<lparr>t_rid = RID_default, t_data = Some new\<rparr> rid) (?t0, s) = Some (Inr (Flag True, t1, s1))" "table_state n h ?p1 i s1"
    using table_step [OF assms(1) per(1) C(1)] unfolding t1_def by blast
  obtain s2 where s2: "heap_step lg h (Insert_tuple \<lparr>t_rid = RID_default, t_data = Some extra\<rparr>) (t1, s1) = Some (Inr (Rid_of (Some rid1), t2, s2))"
    "table_state n h [p\<lparr>ap_slots := Slot False new # rest @ [Slot False extra]\<rparr>] i s2"
    using table_step [OF s1(2) per(2) C(2)] unfolding t2_def by blast
  obtain s3 t3 where s3: "Abort_txn lg D api t2 (x, s2) = Some (Inr (t3, x, s3))" "txn_state t3 = ABORTED"
    "\<forall>u. \<exists>s''. TableHeap_GetTuple lg rid u s3 = Inr (Some \<lparr>t_rid = rid, t_data = Some new\<rparr>, u, s'')"
    using crowded_page_abort [OF s2(2) p len rid rid1_def, of t2 lg D api x] t0(2,3)
    by (auto simp: t2_def t1_def logged_def AppendTableWriteRecord_def)
  obtain m2 where m2: "finish_txn k t3 (put_txn k t2 m1) = Inr (ReleaseLocks t3, m2)" "txn_store m2 ! k = t3"
    using finish_txn_ok [of "put_txn k t2 m1" k t3] B(2,3) by (auto simp: put_txn_def)
  have "TM_Abort lg D api k (put_txn k t2 m1, x, s2) = Some (Inr (ReleaseLocks t3, m2, x, s3))"
    using s3(1) m2(1) B(2) by (simp add: TM_Abort_def put_txn_def)
  moreover have "heap_run lg h [Update_tuple \<lparr>t_rid = RID_default, t_data = Some new\<rparr> rid,
      Insert_tuple \<lparr>t_rid = RID_default, t_data = Some extra\<rparr>] (?t0, s) = Some (Inr ([Flag True, Rid_of (Some rid1)], t2, s2))"
    using s1(1) s2(1) by simp
  ultimately show ?thesis using s3(2,3) m2(2) by blast
qed

section \<open>Witnesses\<close>

lemma fresh_table_state:
  assumes "1 \<le> k" and "2 \<le> n" and "n < 2147483648"
  shows "\<exists>t s. new_TableHeap lg t0 (new_bpm n (new_disk_manager [] []) k) = Inr (\<lparr>first_page_id = 0\<rparr>, t, s) \<and>
    table_state n \<lparr>first_page_id = 0\<rparr> [empty_apage 0 INVALID_PAGE_ID] 1 s"
  using fresh_table [OF assms, of lg t0] unfolding table_state_def by blast

definition no_indexes :: "unit index_api" where
  "no_indexes = \<lparr>api_schema = \<lambda>_ _. None, api_index = \<lambda>_ _. None,
     api_insert = \<lambda>_ _ _ t st. Inr (t, st), api_delete = \<lambda>_ _ _ t st. Inr (t, st)\<rparr>"

lemma first_Begin: "\<exists>m1. TM_Begin None level new_txn_manager = Some (0, m1) \<and> txn_store m1 ! 0 = new_transaction 0 level"
  by (simp add: TM_Begin_def RLock_def new_txn_manager_def)

lemmas table_eval = heap_spec_def tuple_size_def tuple_bytes_def fits_on_def place_tuple_def room_def empty_apage_def slot_len_def grows_def
  row_at_def page_at_def slot_at_def set_row_def set_slot_def room_at_def rows_def page_rows_def heap_permitted_def upt_rec value_at_def
  change_ok_def new_transaction_def logged_def AppendTableWriteRecord_def

theorem abort_restores_table_witness:
  "\<exists>h s m1 outs t s1 calls m2 s2. TM_Begin None REPEATABLE_READ new_txn_manager = Some (0, m1) \<and>
     heap_run False h [Insert_tuple \<lparr>t_rid = RID_default, t_data = Some [7]\<rparr>,
       Update_tuple \<lparr>t_rid = RID_default, t_data = Some [8, 9]\<rparr> \<lparr>rid_page_id = 0, rid_slot_num = 0\<rparr>,
       Mark_delete \<lparr>rid_page_id = 0, rid_slot_num = 0\<rparr>] (txn_store m1 ! 0, s) = Some (Inr (outs, t, s1)) \<and>
     TM_Abort False int_double no_indexes 0 (put_txn 0 t m1, (), s1) = Some (Inr (calls, m2, (), s2)) \<and>
     txn_state (txn_store m2 ! 0) = ABORTED \<and> (\<exists>s3. heap_scan False h (txn_store m2 ! 0) s2 = Some (Inr ([], txn_store m2 ! 0, s3)))"
proof -
  let ?h = "\<lparr>first_page_id = 0\<rparr>" and ?ops = "[Insert_tuple \<lparr>t_rid = RID_default, t_data = Some [7]\<rparr>,
    Update_tuple \<lparr>t_rid = RID_default, t_data = Some [8, 9]\<rparr> \<lparr>rid_page_id = 0, rid_slot_num = 0\<rparr>, Mark_delete \<lparr>rid_page_id = 0, rid_slot_num = 0\<rparr>]"
  obtain s where st: "table_state 2 ?h [empty_apage 0 INVALID_PAGE_ID] 1 s" using fresh_table_state [of 2 2] by auto
  obtain m1 where m1: "TM_Begin None REPEATABLE_READ new_txn_manager = Some (0, m1)" "txn_store m1 ! 0 = new_transaction 0 REPEATABLE_READ"
    using first_Begin by blast
  have ok: "changes_ok False ?h ?ops (txn_store m1 ! 0, [empty_apage 0 INVALID_PAGE_ID], 1)" by (simp add: m1(2) table_eval)
  have "rows [empty_apage 0 INVALID_PAGE_ID] = []" by (simp add: table_eval)
  then show ?thesis using abort_restores_table [OF st m1(1) ok, of int_double no_indexes "()"] m1(1) by metis
qed

theorem commit_applies_deletes_witness:
  "\<exists>h s m1 outs t s1 calls m2 s2. TM_Begin None REPEATABLE_READ new_txn_manager = Some (0, m1) \<and>
     heap_run False h [Insert_tuple \<lparr>t_rid = RID_default, t_data = Some [7]\<rparr>, Insert_tuple \<lparr>t_rid = RID_default, t_data = Some [5, 6]\<rparr>,
       Mark_delete \<lparr>rid_page_id = 0, rid_slot_num = 0\<rparr>] (txn_store m1 ! 0, s) = Some (Inr (outs, t, s1)) \<and>
     TM_Commit 0 (put_txn 0 t m1, s1) = Inr (calls, m2, s2) \<and> txn_state (txn_store m2 ! 0) = COMMITTED \<and>
     (\<exists>s3. heap_scan False h t s2 = Some (Inr ([\<lparr>t_rid = \<lparr>rid_page_id = 0, rid_slot_num = 1\<rparr>, t_data = Some [5, 6]\<rparr>], t, s3)))"
proof -
  let ?h = "\<lparr>first_page_id = 0\<rparr>" and ?ops = "[Insert_tuple \<lparr>t_rid = RID_default, t_data = Some [7]\<rparr>,
    Insert_tuple \<lparr>t_rid = RID_default, t_data = Some [5, 6]\<rparr>, Mark_delete \<lparr>rid_page_id = 0, rid_slot_num = 0\<rparr>]"
  obtain s where st: "table_state 2 ?h [empty_apage 0 INVALID_PAGE_ID] 1 s" using fresh_table_state [of 2 2] by auto
  obtain m1 where m1: "TM_Begin None REPEATABLE_READ new_txn_manager = Some (0, m1)" "txn_store m1 ! 0 = new_transaction 0 REPEATABLE_READ"
    using first_Begin by blast
  have ok: "changes_ok False ?h ?ops (txn_store m1 ! 0, [empty_apage 0 INVALID_PAGE_ID], 1)" by (simp add: m1(2) table_eval)
  have none: "\<forall>rid bs. value_at [empty_apage 0 INVALID_PAGE_ID] rid \<noteq> Some (True, bs)" by (simp add: empty_apage_value)
  show ?thesis using commit_applies_deletes [OF st m1(1) ok none] m1 by (fastforce simp: table_eval)
qed

theorem abort_can_lose_update_witness:
  "\<exists>h rid s m1 r t s1 calls m2 s2 s3. TM_Begin None REPEATABLE_READ new_txn_manager = Some (0, m1) \<and>
     heap_run False h [Update_tuple \<lparr>t_rid = RID_default, t_data = Some (replicate 1984 1)\<rparr> rid,
       Insert_tuple \<lparr>t_rid = RID_default, t_data = Some (replicate 8 2)\<rparr>] (txn_store m1 ! 0, s) = Some (Inr ([Flag True, Rid_of (Some r)], t, s1)) \<and>
     TM_Abort False int_double no_indexes 0 (put_txn 0 t m1, (), s1) = Some (Inr (calls, m2, (), s2)) \<and>
     TableHeap_GetTuple False rid t s2 = Inr (Some \<lparr>t_rid = rid, t_data = Some (replicate 1984 1)\<rparr>, t, s3)"
proof -
  let ?h = "\<lparr>first_page_id = 0\<rparr>" and ?t = "new_transaction 0 REPEATABLE_READ" and ?old = "replicate 2000 (0 :: byte)" and ?fill = "replicate 2056 (0 :: byte)"
  let ?ops = "[Insert_tuple \<lparr>t_rid = RID_default, t_data = Some ?old\<rparr>, Insert_tuple \<lparr>t_rid = RID_default, t_data = Some ?fill\<rparr>]"
  let ?p = "(empty_apage 0 INVALID_PAGE_ID)\<lparr>ap_slots := [Slot False ?old, Slot False ?fill]\<rparr>"
  obtain s0 where st: "table_state 2 ?h [empty_apage 0 INVALID_PAGE_ID] 1 s0" using fresh_table_state [of 2 2] by auto
  have ok: "changes_ok False ?h ?ops (?t, [empty_apage 0 INVALID_PAGE_ID], 1)" by (simp add: table_eval)
  have run: "\<exists>outs t. heap_spec_run False ?h ?ops (?t, [empty_apage 0 INVALID_PAGE_ID], 1) = Inr (outs, t, [?p], 1)" by (simp add: table_eval)
  obtain s where s: "table_state 2 ?h [?p] 1 s"
    using changes_run [OF st ok] run new_transaction_fields(3) by fastforce
  obtain m1 where m1: "TM_Begin None REPEATABLE_READ new_txn_manager = Some (0, m1)" using first_Begin by blast
  have "room (ap_slots ?p) = 0" by (simp add: room_def slot_len_def)
  then show ?thesis
    using abort_can_lose_update [OF s _ m1, of ?old "[Slot False ?fill]" "replicate 1984 1" "replicate 8 2" _ False int_double no_indexes "()"] m1
    by fastforce
qed

end
