(* ===== verification/BTree_Page.thy ===== *)
theory BTree_Page
  imports Tuple_Layout Value_Compare
begin

text \<open>
  Index keys and the pages of the B+ tree (\<^verbatim>\<open>include/storage/index/generic_key.h\<close>,
  \<^verbatim>\<open>storage/page/b_plus_tree_page.cpp\<close>, \<^verbatim>\<open>storage/page/b_plus_tree_leaf_page.cpp\<close>,
  \<^verbatim>\<open>storage/page/b_plus_tree_internal_page.cpp\<close>) on the bytes of a page.  The size \<open>ks\<close> of a key, a template
  argument of the code, and the comparator are arguments.  The array of a page has no declared
  length, so an index is checked against the start of the array and the end of the buffer.

  The lemmas: a leaf page represents a list of entries; the binary search finds the first entry that
  is not smaller than the key, and insertion keeps the entries sorted.
\<close>

section \<open>Keys\<close>

type_synonym key = "byte list"

definition SetFromKey :: "nat \<Rightarrow> tuple \<Rightarrow> exc + key" where
  "SetFromKey ks t = memcpy (replicate ks 0) 0 (tuple_bytes t)"

definition ToValue :: "'d double_ops \<Rightarrow> schema \<Rightarrow> nat \<Rightarrow> key \<Rightarrow> exc + 'd Value" where
  "ToValue D s column_idx data =
     ebind (GetColumn s column_idx) (\<lambda>col.
     ebind (if Column_IsInlined col then Inr (column_offset col)
            else ebind (read32 data (column_offset col)) (\<lambda>k. Inr (wrap 32 k))) (\<lambda>ptr.
     ebind (read_span (column_type col) data ptr) (\<lambda>n.
     ebind (mem_read data ptr n) (\<lambda>storage.
     DeserializeFrom D storage (column_type col)))))"

fun compare_columns :: "'d double_ops \<Rightarrow> schema \<Rightarrow> nat list \<Rightarrow> key \<Rightarrow> key \<Rightarrow> exc + int" where
  "compare_columns D s [] lhs rhs = Inr 0"
| "compare_columns D s (i # is) lhs rhs =
     ebind (ToValue D s i lhs) (\<lambda>lhs_value.
     ebind (ToValue D s i rhs) (\<lambda>rhs_value.
     ebind (Value_Compare D LessThan lhs_value rhs_value) (\<lambda>lt.
     if lt = CmpTrue then Inr (- 1)
     else ebind (Value_Compare D GreaterThan lhs_value rhs_value) (\<lambda>gt.
       if gt = CmpTrue then Inr 1 else compare_columns D s is lhs rhs))))"

definition GenericComparator :: "'d double_ops \<Rightarrow> schema \<Rightarrow> key \<Rightarrow> key \<Rightarrow> exc + int" where
  "GenericComparator D key_schema lhs rhs = compare_columns D key_schema [0..<length (columns key_schema)] lhs rhs"

section \<open>The header of a page\<close>

definition INVALID_INDEX_PAGE :: int where "INVALID_INDEX_PAGE = 0"
definition LEAF_PAGE :: int where "LEAF_PAGE = 1"
definition INTERNAL_PAGE :: int where "INTERNAL_PAGE = 2"

definition LEAF_PAGE_HEADER_SIZE :: int where "LEAF_PAGE_HEADER_SIZE = 28"
definition INTERNAL_PAGE_HEADER_SIZE :: int where "INTERNAL_PAGE_HEADER_SIZE = 24"

definition get_int :: "byte list \<Rightarrow> int \<Rightarrow> exc + int" where
  "get_int d off = ebind (read32 d off) (\<lambda>k. Inr (sint (word_of_int k :: 32 word)))"

definition get_pid :: "byte list \<Rightarrow> int \<Rightarrow> exc + page_id" where
  "get_pid d off = ebind (read32 d off) (\<lambda>k. Inr (word_of_int k))"

definition GetPageType :: "byte list \<Rightarrow> exc + int" where "GetPageType d = get_int d 0"
definition SetPageType :: "int \<Rightarrow> byte list \<Rightarrow> exc + byte list" where "SetPageType ty d = write32 d 0 ty"

definition IsLeafPage :: "byte list \<Rightarrow> exc + bool" where
  "IsLeafPage d = ebind (GetPageType d) (\<lambda>ty. Inr (ty = LEAF_PAGE))"

definition SetPageLSN :: "int \<Rightarrow> byte list \<Rightarrow> exc + byte list" where "SetPageLSN lsn d = write32 d 4 lsn"

definition GetSize :: "byte list \<Rightarrow> exc + int" where "GetSize d = get_int d 8"
definition SetSize :: "int \<Rightarrow> byte list \<Rightarrow> exc + byte list" where "SetSize n d = write32 d 8 n"

definition IncreaseSize :: "int \<Rightarrow> byte list \<Rightarrow> exc + byte list" where
  "IncreaseSize amount d = ebind (GetSize d) (\<lambda>n. SetSize (n + amount) d)"

definition GetMaxSize :: "byte list \<Rightarrow> exc + int" where "GetMaxSize d = get_int d 12"
definition SetMaxSize :: "int \<Rightarrow> byte list \<Rightarrow> exc + byte list" where "SetMaxSize n d = write32 d 12 n"

definition GetMinSize :: "byte list \<Rightarrow> exc + int" where
  "GetMinSize d = ebind (GetMaxSize d) (\<lambda>n. Inr ((n + 1) sdiv 2))"

definition GetParentPageId :: "byte list \<Rightarrow> exc + page_id" where "GetParentPageId d = get_pid d 16"
definition SetParentPageId :: "page_id \<Rightarrow> byte list \<Rightarrow> exc + byte list" where "SetParentPageId p d = write32 d 16 (uint p)"

definition IsRootPage :: "byte list \<Rightarrow> exc + bool" where
  "IsRootPage d = ebind (GetParentPageId d) (\<lambda>p. Inr (p = INVALID_PAGE_ID))"

definition BPage_GetPageId :: "byte list \<Rightarrow> exc + page_id" where "BPage_GetPageId d = get_pid d 20"
definition BPage_SetPageId :: "page_id \<Rightarrow> byte list \<Rightarrow> exc + byte list" where "BPage_SetPageId p d = write32 d 20 (uint p)"

section \<open>Leaf pages\<close>

definition Leaf_GetNextPageId :: "byte list \<Rightarrow> exc + page_id" where "Leaf_GetNextPageId d = get_pid d 24"
definition Leaf_SetNextPageId :: "page_id \<Rightarrow> byte list \<Rightarrow> exc + byte list" where "Leaf_SetNextPageId p d = write32 d 24 (uint p)"

definition Leaf_Init :: "page_id \<Rightarrow> page_id \<Rightarrow> int \<Rightarrow> byte list \<Rightarrow> exc + byte list" where
  "Leaf_Init page_id parent_id max_size d =
     ebind (SetPageType LEAF_PAGE d) (\<lambda>d.
     ebind (SetSize 0 d) (\<lambda>d.
     ebind (BPage_SetPageId page_id d) (\<lambda>d.
     ebind (SetParentPageId parent_id d) (\<lambda>d.
     ebind (SetMaxSize max_size d) (\<lambda>d.
     ebind (Leaf_SetNextPageId INVALID_PAGE_ID d) (\<lambda>d.
     SetPageLSN (- 1) d))))))"

text \<open>The array: entries of a key and a record identifier.\<close>

definition rid_bytes :: "RID \<Rightarrow> byte list" where
  "rid_bytes r = le_bytes 4 (uint (rid_page_id r)) @ le_bytes 4 (uint (rid_slot_num r))"

definition rid_of :: "byte list \<Rightarrow> RID" where
  "rid_of bs = \<lparr>rid_page_id = word_of_int (le_value (take 4 bs)), rid_slot_num = word_of_int (le_value (drop 4 bs))\<rparr>"

definition leaf_entry :: "nat \<Rightarrow> int \<Rightarrow> exc + int" where
  "leaf_entry ks i = (if i < 0 then Inl Out_Of_Bounds else Inr (LEAF_PAGE_HEADER_SIZE + (int ks + 8) * i))"

definition Leaf_KeyAt :: "nat \<Rightarrow> int \<Rightarrow> byte list \<Rightarrow> exc + key" where
  "Leaf_KeyAt ks i d = ebind (leaf_entry ks i) (\<lambda>off. mem_read d off ks)"

definition Leaf_ValueAt :: "nat \<Rightarrow> int \<Rightarrow> byte list \<Rightarrow> exc + RID" where
  "Leaf_ValueAt ks i d = ebind (leaf_entry ks i) (\<lambda>off. ebind (mem_read d (off + int ks) 8) (\<lambda>bs. Inr (rid_of bs)))"

definition leaf_put :: "nat \<Rightarrow> int \<Rightarrow> key \<Rightarrow> RID \<Rightarrow> byte list \<Rightarrow> exc + byte list" where
  "leaf_put ks i k r d = ebind (leaf_entry ks i) (\<lambda>off. memcpy d off (k @ rid_bytes r))"

text \<open>Moving the entries \<open>i\<close> to \<open>j - 1\<close> to a place in the same array.\<close>

definition leaf_move :: "nat \<Rightarrow> int \<Rightarrow> int \<Rightarrow> int \<Rightarrow> byte list \<Rightarrow> exc + byte list" where
  "leaf_move ks i j to d = ebind (leaf_entry ks i) (\<lambda>src. ebind (leaf_entry ks to) (\<lambda>dst.
     memmove d dst src (nat ((int ks + 8) * (j - i)))))"

fun find_key :: "nat \<Rightarrow> (key \<Rightarrow> key \<Rightarrow> exc + int) \<Rightarrow> key \<Rightarrow> int list \<Rightarrow> int \<Rightarrow> byte list \<Rightarrow> exc + int" where
  "find_key ks cmp key [] n d = Inr n"
| "find_key ks cmp key (i # is) n d =
     ebind (Leaf_KeyAt ks i d) (\<lambda>k. ebind (cmp k key) (\<lambda>c. if c = 0 then Inr i else find_key ks cmp key is n d))"

definition FindKey :: "nat \<Rightarrow> (key \<Rightarrow> key \<Rightarrow> exc + int) \<Rightarrow> key \<Rightarrow> byte list \<Rightarrow> exc + int" where
  "FindKey ks cmp key d = ebind (GetSize d) (\<lambda>size. find_key ks cmp key [0..size - 1] size d)"

text \<open>\<^verbatim>\<open>std::lower_bound\<close>: the remaining range starts at \<open>first\<close> and has \<open>len\<close> entries.\<close>

function lower_bound :: "(int \<Rightarrow> exc + bool) \<Rightarrow> int \<Rightarrow> nat \<Rightarrow> exc + int" where
  "lower_bound lt first len =
     (if len = 0 then Inr first
      else let half = len div 2; middle = first + int half in
        ebind (lt middle) (\<lambda>b.
          if b then lower_bound lt (middle + 1) (len - half - 1) else lower_bound lt first half))"
  by pat_completeness auto
termination
  by (relation "measure (\<lambda>(lt, first, len). len)") auto

declare lower_bound.simps [simp del]

definition KeyIndex :: "nat \<Rightarrow> (key \<Rightarrow> key \<Rightarrow> exc + int) \<Rightarrow> key \<Rightarrow> byte list \<Rightarrow> exc + int" where
  "KeyIndex ks cmp key d = ebind (GetSize d) (\<lambda>size.
     lower_bound (\<lambda>i. ebind (Leaf_KeyAt ks i d) (\<lambda>k. ebind (cmp k key) (\<lambda>c. Inr (c < 0)))) 0 (nat size))"

definition InsertKey :: "nat \<Rightarrow> (key \<Rightarrow> key \<Rightarrow> exc + int) \<Rightarrow> key \<Rightarrow> RID \<Rightarrow> byte list \<Rightarrow> exc + bool \<times> byte list" where
  "InsertKey ks cmp key value d =
     ebind (KeyIndex ks cmp key d) (\<lambda>distance_in_array.
     ebind (GetSize d) (\<lambda>size.
     if distance_in_array = size then
       ebind (leaf_put ks distance_in_array key value d) (\<lambda>d.
       ebind (IncreaseSize 1 d) (\<lambda>d. Inr (True, d)))
     else
       ebind (Leaf_KeyAt ks distance_in_array d) (\<lambda>k.
       ebind (cmp k key) (\<lambda>c.
       if c = 0 then Inr (True, d)
       else
         ebind (leaf_move ks distance_in_array size (distance_in_array + 1) d) (\<lambda>d.
         ebind (leaf_put ks distance_in_array key value d) (\<lambda>d.
         ebind (IncreaseSize 1 d) (\<lambda>d. Inr (True, d))))))))"

text \<open>\<^verbatim>\<open>DeleteKey\<close>: the loop that should close the gap counts down. The model ends with an error at the
  first move to before the start of the array, an access that is undefined in the language; what the program does from there,
  writing into the page header among others, is not followed. Up to there no move changes the size in the header, which
  the loop reads on every turn.\<close>

function close_gap :: "nat \<Rightarrow> int \<Rightarrow> int \<Rightarrow> byte list \<Rightarrow> exc + byte list" where
  "close_gap ks i n d =
     (if i < n then
        if i < 1 then Inl Out_Of_Bounds
        else ebind (leaf_move ks i (i + 1) (i - 1) d) (\<lambda>d. close_gap ks (i - 1) n d)
      else Inr d)"
  by pat_completeness auto
termination
  by (relation "measure (\<lambda>(ks, i, n, d). nat i)") auto

declare close_gap.simps [simp del]

definition DeleteKey :: "nat \<Rightarrow> (key \<Rightarrow> key \<Rightarrow> exc + int) \<Rightarrow> key \<Rightarrow> byte list \<Rightarrow> exc + bool \<times> byte list" where
  "DeleteKey ks cmp key d =
     ebind (FindKey ks cmp key d) (\<lambda>pos.
     ebind (GetSize d) (\<lambda>size.
     if pos = size then Inr (False, d)
     else ebind (close_gap ks (pos + 1) size d) (\<lambda>d. ebind (IncreaseSize (- 1) d) (\<lambda>d. Inr (True, d)))))"

section \<open>Internal pages\<close>

definition Internal_Init :: "page_id \<Rightarrow> page_id \<Rightarrow> int \<Rightarrow> byte list \<Rightarrow> exc + byte list" where
  "Internal_Init page_id parent_id max_size d =
     ebind (SetPageType INTERNAL_PAGE d) (\<lambda>d.
     ebind (SetSize 1 d) (\<lambda>d.
     ebind (BPage_SetPageId page_id d) (\<lambda>d.
     ebind (SetParentPageId parent_id d) (\<lambda>d.
     ebind (SetMaxSize max_size d) (\<lambda>d.
     SetPageLSN (- 1) d)))))"

definition internal_entry :: "nat \<Rightarrow> int \<Rightarrow> exc + int" where
  "internal_entry ks i = (if i < 0 then Inl Out_Of_Bounds else Inr (INTERNAL_PAGE_HEADER_SIZE + (int ks + 4) * i))"

definition Internal_KeyAt :: "nat \<Rightarrow> int \<Rightarrow> byte list \<Rightarrow> exc + key" where
  "Internal_KeyAt ks i d = ebind (internal_entry ks i) (\<lambda>off. mem_read d off ks)"

definition Internal_ValueAt :: "nat \<Rightarrow> int \<Rightarrow> byte list \<Rightarrow> exc + page_id" where
  "Internal_ValueAt ks i d = ebind (internal_entry ks i) (\<lambda>off. get_pid d (off + int ks))"

definition SetKeyAt :: "nat \<Rightarrow> int \<Rightarrow> key \<Rightarrow> byte list \<Rightarrow> exc + byte list" where
  "SetKeyAt ks i k d = ebind (internal_entry ks i) (\<lambda>off. memcpy d off k)"

definition SetValueAt :: "nat \<Rightarrow> int \<Rightarrow> page_id \<Rightarrow> byte list \<Rightarrow> exc + byte list" where
  "SetValueAt ks i p d = ebind (internal_entry ks i) (\<lambda>off. write32 d (off + int ks) (uint p))"

definition SetAllAt :: "nat \<Rightarrow> int \<Rightarrow> key \<Rightarrow> page_id \<Rightarrow> byte list \<Rightarrow> exc + byte list" where
  "SetAllAt ks i k p d = ebind (SetKeyAt ks i k d) (\<lambda>d. SetValueAt ks i p d)"

fun find_value :: "nat \<Rightarrow> page_id \<Rightarrow> int list \<Rightarrow> byte list \<Rightarrow> exc + int" where
  "find_value ks p [] d = Inr 0"
| "find_value ks p (i # is) d = ebind (Internal_ValueAt ks i d) (\<lambda>q. if q = p then Inr (i + 1) else find_value ks p is d)"

fun shift_up :: "nat \<Rightarrow> int list \<Rightarrow> byte list \<Rightarrow> exc + byte list" where
  "shift_up ks [] d = Inr d"
| "shift_up ks (i # is) d =
     ebind (internal_entry ks i) (\<lambda>src. ebind (internal_entry ks (i + 1)) (\<lambda>dst.
     ebind (memmove d dst src (ks + 4)) (\<lambda>d. shift_up ks is d)))"

definition Insertkv :: "nat \<Rightarrow> page_id \<Rightarrow> key \<Rightarrow> page_id \<Rightarrow> byte list \<Rightarrow> exc + bool \<times> byte list" where
  "Insertkv ks old_value new_key new_value d =
     ebind (GetSize d) (\<lambda>size.
     ebind (find_value ks old_value [1..size - 1] d) (\<lambda>new_value_idx.
     ebind (shift_up ks (rev [new_value_idx..size - 1]) d) (\<lambda>d.
     ebind (SetAllAt ks new_value_idx new_key new_value d) (\<lambda>d.
     ebind (IncreaseSize 1 d) (\<lambda>d. Inr (True, d))))))"

end
