(* ===== verification/BTree_Leaf.thy ===== *)
theory BTree_Leaf
  imports BTree_Page "HOL-Library.List_Lexorder"
begin

text \<open>
  Leaf pages of the B+ tree as sorted lists of entries.  The bytes of a leaf represent a record with
  the header fields and the entries; the binary search finds the first entry whose key is not smaller,
  and insertion keeps the entries strictly sorted.  What the pages rely on in the comparator is
  the interface \<open>key_order\<close>, interpreted by \<^verbatim>\<open>GenericComparator\<close> on keys of integer columns,
  which it orders lexicographically.
\<close>

section \<open>What a leaf represents\<close>

type_synonym entry = "key \<times> RID"

record leaf =
  lf_id :: page_id
  lf_parent :: page_id
  lf_next :: page_id
  lf_max :: int
  lf_entries :: "entry list"

definition enc :: "entry list \<Rightarrow> byte list" where
  "enc es = concat (map (\<lambda>(k, r). k @ rid_bytes r) es)"

definition is_leaf :: "nat \<Rightarrow> byte list \<Rightarrow> leaf \<Rightarrow> bool" where
  "is_leaf ks d l \<longleftrightarrow> length d = BUSTUB_PAGE_SIZE \<and> word32 d 0 = LEAF_PAGE \<and> word32 d 8 = int (length (lf_entries l)) \<and>
     word32 d 12 = lf_max l \<and> 0 \<le> lf_max l \<and> lf_max l < 2147483648 \<and>
     word32 d 16 = uint (lf_parent l) \<and> word32 d 20 = uint (lf_id l) \<and> word32 d 24 = uint (lf_next l) \<and>
     (\<forall>e \<in> set (lf_entries l). length (fst e) = ks) \<and> 28 + (ks + 8) * length (lf_entries l) \<le> BUSTUB_PAGE_SIZE \<and>
     mem_slice d 28 ((ks + 8) * length (lf_entries l)) = enc (lf_entries l)"

lemma is_leafD:
  assumes "is_leaf ks d l"
  shows "length d = 4096" "word32 d 0 = 1" "word32 d 8 = int (length (lf_entries l))" "word32 d 12 = lf_max l"
    "0 \<le> lf_max l" "lf_max l < 2147483648" "word32 d 16 = uint (lf_parent l)" "word32 d 20 = uint (lf_id l)"
    "word32 d 24 = uint (lf_next l)" "\<forall>e \<in> set (lf_entries l). length (fst e) = ks"
    "28 + (ks + 8) * length (lf_entries l) \<le> 4096" "mem_slice d 28 ((ks + 8) * length (lf_entries l)) = enc (lf_entries l)"
  using assms unfolding is_leaf_def LEAF_PAGE_def BUSTUB_PAGE_SIZE_def by blast+

lemma length_rid_bytes [simp]: "length (rid_bytes r) = 8"
  by (simp add: rid_bytes_def)

lemma rid_of_bytes [simp]: "rid_of (rid_bytes r) = r"
  using uint_bounded [of "rid_page_id r"] uint_bounded [of "rid_slot_num r"]
  by (cases r) (simp add: rid_of_def rid_bytes_def le_value_le_bytes)

lemma enc_simps [simp]: "enc [] = []" "enc (e # es) = fst e @ rid_bytes (snd e) @ enc es" "enc (xs @ ys) = enc xs @ enc ys"
  by (simp_all add: enc_def case_prod_beta)

lemma length_enc: "\<forall>e \<in> set es. length (fst e) = ks \<Longrightarrow> length (enc es) = (ks + 8) * length es"
  by (induction es) auto

lemma slice_mid: "mem_slice (xs @ ys @ zs) (length xs) (length ys) = ys"
  by (simp add: mem_slice_def)

lemma slice_join: "mem_slice d a (m + n) = mem_slice d a m @ mem_slice d (a + m) n"
  by (simp add: mem_slice_def take_add add.commute)

lemma slice_enc:
  assumes "\<forall>e \<in> set es. length (fst e) = ks" and "i + m \<le> length es"
  shows "mem_slice (enc es) ((ks + 8) * i) ((ks + 8) * m) = enc (take m (drop i es))"
proof -
  have es: "es = take i es @ take m (drop i es) @ drop m (drop i es)" by (simp only: append_take_drop_id)
  have "length (enc (take i es)) = (ks + 8) * i" "length (enc (take m (drop i es))) = (ks + 8) * m"
    using assms length_enc [of "take i es" ks] length_enc [of "take m (drop i es)" ks]
    by (auto dest: in_set_takeD in_set_dropD simp: min_absorb1 min_absorb2)
  then show ?thesis using slice_mid [of "enc (take i es)" "enc (take m (drop i es))" "enc (drop m (drop i es))"] es
    by (metis enc_simps(3))
qed

lemma leaf_slice:
  assumes "is_leaf ks d l" and "i + m \<le> length (lf_entries l)"
  shows "mem_slice d (28 + (ks + 8) * i) ((ks + 8) * m) = enc (take m (drop i (lf_entries l)))"
proof -
  note l = is_leafD [OF assms(1)]
  have "(ks + 8) * i + (ks + 8) * m \<le> (ks + 8) * length (lf_entries l)"
    using assms(2) by (metis add_mult_distrib2 mult_le_mono2)
  then have "mem_slice (mem_slice d 28 ((ks + 8) * length (lf_entries l))) ((ks + 8) * i) ((ks + 8) * m) =
      mem_slice d (28 + (ks + 8) * i) ((ks + 8) * m)"
    using l(1,11) by (intro slice_slice) simp_all
  then show ?thesis using l(12) slice_enc [OF l(10) assms(2)] by simp
qed

section \<open>Reading a leaf\<close>

lemma get_int_ok: "0 \<le> off \<Longrightarrow> nat off + 4 \<le> length d \<Longrightarrow> word32 d (nat off) < 2147483648 \<Longrightarrow> get_int d off = Inr (word32 d (nat off))"
  by (subst get_int_def) (simp add: read32_ok sint_small order.trans [OF _ word32_range(1)])

lemma leaf_GetSize: "is_leaf ks d l \<Longrightarrow> GetSize d = Inr (int (length (lf_entries l)))"
proof -
  assume l: "is_leaf ks d l"
  have "length (lf_entries l) \<le> (ks + 8) * length (lf_entries l)" by simp
  then have "length (lf_entries l) < 4096" using is_leafD(11) [OF l] by linarith
  then show ?thesis using is_leafD(1,3) [OF l] get_int_ok [of 8 d] by (simp add: GetSize_def)
qed

lemma entry_offset: "0 \<le> i \<Longrightarrow> leaf_entry ks i = Inr (int (28 + (ks + 8) * nat i))"
  by (simp add: leaf_entry_def LEAF_PAGE_HEADER_SIZE_def)

lemma leaf_fits: "is_leaf ks d l \<Longrightarrow> i < length (lf_entries l) \<Longrightarrow> 28 + (ks + 8) * i + (ks + 8) \<le> 4096"
proof -
  assume l: "is_leaf ks d l" and "i < length (lf_entries l)"
  then have "(ks + 8) * Suc i \<le> (ks + 8) * length (lf_entries l)" by (intro mult_le_mono2) simp
  then show ?thesis using is_leafD(11) [OF l] by simp
qed

lemma leaf_entry_bytes:
  assumes l: "is_leaf ks d l" and i: "i < length (lf_entries l)"
  shows "mem_slice d (28 + (ks + 8) * i) ks = fst (lf_entries l ! i)"
    "mem_slice d (28 + (ks + 8) * i + ks) 8 = rid_bytes (snd (lf_entries l ! i))"
proof -
  let ?e = "lf_entries l ! i"
  have "mem_slice d (28 + (ks + 8) * i) (ks + 8) = fst ?e @ rid_bytes (snd ?e)"
    using leaf_slice [OF l, of i 1] i by (simp add: take_Suc_conv_app_nth [of 0] hd_drop_conv_nth take_Suc)
  moreover have "length (fst ?e) = ks" using is_leafD(10) [OF l] i by simp
  moreover have "length (mem_slice d (28 + (ks + 8) * i) ks) = ks"
    using leaf_fits [OF l i] is_leafD(1) [OF l] by (intro length_slice) simp
  ultimately show "mem_slice d (28 + (ks + 8) * i) ks = fst ?e" "mem_slice d (28 + (ks + 8) * i + ks) 8 = rid_bytes (snd ?e)"
    using slice_join [of d "28 + (ks + 8) * i" ks 8] by (simp_all add: append_eq_append_conv)
qed

lemma leaf_KeyAt:
  assumes "is_leaf ks d l" and "0 \<le> i" and "nat i < length (lf_entries l)"
  shows "Leaf_KeyAt ks i d = Inr (fst (lf_entries l ! nat i))"
proof -
  have "nat (int (28 + (ks + 8) * nat i)) = 28 + (ks + 8) * nat i" by (rule nat_int)
  then have "mem_read d (int (28 + (ks + 8) * nat i)) ks = Inr (fst (lf_entries l ! nat i))"
    using leaf_fits [OF assms(1,3)] leaf_entry_bytes(1) [OF assms(1,3)] is_leafD(1) [OF assms(1)] by (subst mem_read_ok) simp_all
  then show ?thesis by (simp add: Leaf_KeyAt_def entry_offset [OF assms(2)])
qed

lemma leaf_ValueAt:
  assumes "is_leaf ks d l" and "0 \<le> i" and "nat i < length (lf_entries l)"
  shows "Leaf_ValueAt ks i d = Inr (snd (lf_entries l ! nat i))"
proof -
  have "nat (int (28 + (ks + 8) * nat i) + int ks) = 28 + (ks + 8) * nat i + ks" by linarith
  then have "mem_read d (int (28 + (ks + 8) * nat i) + int ks) 8 = Inr (rid_bytes (snd (lf_entries l ! nat i)))"
    using leaf_fits [OF assms(1,3)] leaf_entry_bytes(2) [OF assms(1,3)] is_leafD(1) [OF assms(1)] by (subst mem_read_ok) simp_all
  then show ?thesis by (simp add: Leaf_ValueAt_def entry_offset [OF assms(2)])
qed

section \<open>The binary search\<close>

lemma lower_bound_partition:
  assumes "\<And>i. first \<le> i \<Longrightarrow> i < first + int len \<Longrightarrow> lt i = Inr (P i)"
    and "\<And>i j. first \<le> i \<Longrightarrow> i < j \<Longrightarrow> j < first + int len \<Longrightarrow> P j \<Longrightarrow> P i"
  shows "\<exists>r. lower_bound lt first len = Inr r \<and> first \<le> r \<and> r \<le> first + int len \<and>
    (\<forall>i. first \<le> i \<and> i < r \<longrightarrow> P i) \<and> (\<forall>i. r \<le> i \<and> i < first + int len \<longrightarrow> \<not> P i)"
  using assms
proof (induction lt first len rule: lower_bound.induct)
  case (1 lt first len)
  show ?case
  proof (cases "len = 0")
    case True
    then show ?thesis by (auto simp: lower_bound.simps)
  next
    case False
    define half where "half = len div 2"
    define middle where "middle = first + int half"
    have half: "half < len" using False by (simp add: half_def)
    have mid: "first \<le> middle" "middle < first + int len" using half by (simp_all add: middle_def)
    have lt: "lt middle = Inr (P middle)" using 1(3) mid by simp
    show ?thesis
    proof (cases "P middle")
      case True
      have "\<exists>r. lower_bound lt (middle + 1) (len - half - 1) = Inr r \<and> middle + 1 \<le> r \<and> r \<le> middle + 1 + int (len - half - 1) \<and>
        (\<forall>i. middle + 1 \<le> i \<and> i < r \<longrightarrow> P i) \<and> (\<forall>i. r \<le> i \<and> i < middle + 1 + int (len - half - 1) \<longrightarrow> \<not> P i)"
        using 1(3,4) half mid by (intro 1(1) [OF False half_def middle_def True]) (auto simp: middle_def)
      moreover have "middle + 1 + int (len - half - 1) = first + int len" using half by (simp add: middle_def)
      moreover have "P i" if "first \<le> i" "i \<le> middle" for i using 1(4) [OF that(1) _ mid(2) True] that(2) True by (cases "i = middle") auto
      moreover have "lower_bound lt first len = lower_bound lt (middle + 1) (len - half - 1)"
        using False lt True by (simp add: lower_bound.simps [of lt first len] half_def middle_def Let_def)
      ultimately show ?thesis using mid by (smt (verit))
    next
      case False': False
      have "\<exists>r. lower_bound lt first half = Inr r \<and> first \<le> r \<and> r \<le> first + int half \<and>
        (\<forall>i. first \<le> i \<and> i < r \<longrightarrow> P i) \<and> (\<forall>i. r \<le> i \<and> i < first + int half \<longrightarrow> \<not> P i)"
        using 1(3,4) half by (intro 1(2) [OF False half_def middle_def False']) auto
      moreover have "\<not> P i" if "middle \<le> i" "i < first + int len" for i using 1(4) [OF mid(1) _ that(2)] that(1) False' by (cases "i = middle") auto
      moreover have "lower_bound lt first len = lower_bound lt first half"
        using False lt False' by (simp add: lower_bound.simps [of lt first len] half_def middle_def Let_def)
      ultimately show ?thesis using mid middle_def by (smt (verit))
    qed
  qed
qed

section \<open>Making room for an entry\<close>

definition insert_at :: "nat \<Rightarrow> entry \<Rightarrow> leaf \<Rightarrow> leaf" where
  "insert_at i e l = l\<lparr>lf_entries := take i (lf_entries l) @ e # drop i (lf_entries l)\<rparr>"

text \<open>The bytes after the entries from \<open>i\<close> on have moved up and the new one is written.\<close>

definition opened :: "nat \<Rightarrow> nat \<Rightarrow> nat \<Rightarrow> entry \<Rightarrow> byte list \<Rightarrow> byte list" where
  "opened ks n i e d = mem_splice (mem_splice d (28 + (ks + 8) * Suc i) (mem_slice d (28 + (ks + 8) * i) ((ks + 8) * (n - i))))
     (28 + (ks + 8) * i) (fst e @ rid_bytes (snd e))"

lemma length_opened:
  assumes "length d = 4096" and "i \<le> n" and "length (fst e) = ks" and "28 + (ks + 8) * Suc n \<le> 4096"
  shows "length (mem_splice d (28 + (ks + 8) * Suc i) (mem_slice d (28 + (ks + 8) * i) ((ks + 8) * (n - i)))) = 4096"
    "length (opened ks n i e d) = 4096"
proof -
  have "(ks + 8) * i + (ks + 8) * (n - i) = (ks + 8) * n" using assms(2) by (metis add_mult_distrib2 le_add_diff_inverse)
  then have *: "28 + (ks + 8) * i + (ks + 8) + (ks + 8) * (n - i) \<le> 4096" using assms(4) by simp
  then show 1: "length (mem_splice d (28 + (ks + 8) * Suc i) (mem_slice d (28 + (ks + 8) * i) ((ks + 8) * (n - i)))) = 4096"
    using assms(1) by simp
  show "length (opened ks n i e d) = 4096" unfolding opened_def using 1 * assms(3) by (subst length_splice) simp_all
qed

lemma opened_bytes:
  assumes l: "is_leaf ks d l" and i: "i \<le> n" and n: "n = length (lf_entries l)" and k: "length (fst e) = ks"
    and fits: "28 + (ks + 8) * Suc n \<le> 4096"
  shows "mem_slice (opened ks n i e d) 28 ((ks + 8) * Suc n) = enc (lf_entries (insert_at i e l))"
    "at + 4 \<le> 28 \<Longrightarrow> word32 (opened ks n i e d) at = word32 d at"
proof -
  let ?w = "ks + 8" and ?es = "lf_entries l"
  let ?b = "mem_slice d (28 + ?w * i) (?w * (n - i))"
  let ?d1 = "mem_splice d (28 + ?w * Suc i) ?b"
  let ?d2 = "opened ks n i e d"
  have d2: "?d2 = mem_splice ?d1 (28 + ?w * i) (fst e @ rid_bytes (snd e))" by (simp add: opened_def)
  have sum: "?w * i + ?w * (n - i) = ?w * n" using i by (metis add_mult_distrib2 le_add_diff_inverse)
  have len: "length d = 4096" "length ?d1 = 4096" "length ?d2 = 4096"
    using is_leafD(1) [OF l] length_opened [OF _ i k fits] by simp_all
  have b: "length ?b = ?w * (n - i)" using sum fits len(1) by (intro length_slice) simp
  have e: "length (fst e @ rid_bytes (snd e)) = ?w" using k by simp
  have room: "28 + ?w * Suc i + ?w * (n - i) \<le> 4096" using sum fits by simp
  have "mem_slice ?d2 28 (?w * i) = mem_slice d 28 (?w * i)"
    unfolding d2 using room len b e by (subst slice_splice_other; simp)+
  then have 1: "mem_slice ?d2 28 (?w * i) = enc (take i ?es)" using leaf_slice [OF l, of 0 i] i n by simp
  have 2: "mem_slice ?d2 (28 + ?w * i) ?w = fst e @ rid_bytes (snd e)"
    unfolding d2 using slice_splice_same [of "28 + ?w * i" "fst e @ rid_bytes (snd e)" ?d1] room len e by simp
  have "mem_slice ?d2 (28 + ?w * Suc i) (?w * (n - i)) = mem_slice ?d1 (28 + ?w * Suc i) (?w * (n - i))"
    unfolding d2 using room len b e by (subst slice_splice_other) simp_all
  also have "\<dots> = ?b" using slice_splice_same [of "28 + ?w * Suc i" ?b d] room len b by simp
  also have "\<dots> = enc (drop i ?es)" using leaf_slice [OF l, of i "n - i"] i n by simp
  finally have 3: "mem_slice ?d2 (28 + ?w * i + ?w) (?w * (n - i)) = enc (drop i ?es)" by (simp add: ac_simps)
  have "?w * Suc n = ?w * i + (?w + ?w * (n - i))" using sum by simp
  then have "mem_slice ?d2 28 (?w * Suc n) = mem_slice ?d2 28 (?w * i) @ mem_slice ?d2 (28 + ?w * i) ?w @ mem_slice ?d2 (28 + ?w * i + ?w) (?w * (n - i))"
    by (simp only: slice_join)
  with 1 2 3 show "mem_slice ?d2 28 (?w * Suc n) = enc (lf_entries (insert_at i e l))" by (simp add: insert_at_def)
  show "word32 ?d2 at = word32 d at" if "at + 4 \<le> 28"
    unfolding d2 using that room len b e by (subst word32_splice_other; simp)+
qed

lemma insert_at_leaf:
  assumes l: "is_leaf ks d l" and i: "i \<le> n" and n: "n = length (lf_entries l)" and k: "length (fst e) = ks"
    and fits: "28 + (ks + 8) * Suc n \<le> 4096"
  shows "is_leaf ks (mem_splice (opened ks n i e d) 8 (le_bytes 4 (int n + 1))) (insert_at i e l)"
proof -
  let ?d = "opened ks n i e d"
  have len: "length ?d = 4096" using is_leafD(1) [OF l] length_opened [OF _ i k fits] by simp
  have "n < 4096" using fits by (simp add: algebra_simps)
  then have "u32 (int n + 1) = int (length (lf_entries (insert_at i e l)))" using i n by (simp add: u32_def insert_at_def)
  moreover have "\<forall>e' \<in> set (lf_entries (insert_at i e l)). length (fst e') = ks"
    using is_leafD(10) [OF l] k by (auto simp: insert_at_def dest: in_set_takeD in_set_dropD)
  moreover have "length (lf_entries (insert_at i e l)) = Suc n" using i n by (simp add: insert_at_def)
  moreover have "mem_slice (mem_splice ?d 8 (le_bytes 4 (int n + 1))) 28 ((ks + 8) * Suc n) = mem_slice ?d 28 ((ks + 8) * Suc n)"
    using len fits by (intro slice_splice_other) simp_all
  moreover have "word32 (mem_splice ?d 8 (le_bytes 4 (int n + 1))) at = word32 d at" if "at + 4 \<le> 8 \<or> 12 \<le> at \<and> at + 4 \<le> 28" for at
    using that len opened_bytes(2) [OF l i n k fits, of at] by (subst word32_splice_other) auto
  ultimately show ?thesis
    using len fits is_leafD [OF l] opened_bytes(1) [OF l i n k fits] word32_splice_same [of 8 ?d "int n + 1"]
    unfolding is_leaf_def BUSTUB_PAGE_SIZE_def LEAF_PAGE_def by (simp add: insert_at_def)
qed

lemma memmove_nat: "dst + n \<le> length buf \<Longrightarrow> src + n \<le> length buf \<Longrightarrow>
    memmove buf (int dst) (int src) n = Inr (mem_splice buf dst (mem_slice buf src n))"
  by (simp add: memmove_ok)

lemma memcpy_nat: "off + length bs \<le> length buf \<Longrightarrow> memcpy buf (int off) bs = Inr (mem_splice buf off bs)"
  by (simp add: memcpy_ok)

lemma open_gap:
  assumes l: "is_leaf ks d l" and i: "i < n" and n: "n = length (lf_entries l)" and k: "length (fst e) = ks"
    and fits: "28 + (ks + 8) * Suc n \<le> 4096"
  shows "\<exists>d1. leaf_move ks (int i) (int n) (int i + 1) d = Inr d1 \<and> leaf_put ks (int i) (fst e) (snd e) d1 = Inr (opened ks n i e d)"
proof -
  have sum: "(ks + 8) * i + (ks + 8) * (n - i) = (ks + 8) * n" using i by (metis add_mult_distrib2 le_add_diff_inverse less_imp_le)
  have room: "28 + (ks + 8) * Suc i + (ks + 8) * (n - i) \<le> 4096" using sum fits by simp
  have off: "nat (int i + 1) = Suc i" by simp
  have size: "nat ((int ks + 8) * (int n - int i)) = (ks + 8) * (n - i)"
    using i by (metis int_ops(1) nat_int of_nat_add of_nat_diff of_nat_mult of_nat_numeral less_imp_le)
  have i': "0 \<le> int i" "0 \<le> int i + 1" by simp_all
  have "leaf_move ks (int i) (int n) (int i + 1) d = Inr (mem_splice d (28 + (ks + 8) * Suc i) (mem_slice d (28 + (ks + 8) * i) ((ks + 8) * (n - i))))"
    unfolding leaf_move_def entry_offset [OF i'(1)] entry_offset [OF i'(2)] ebind_simps off size nat_int
    by (rule memmove_nat) (use room is_leafD(1) [OF l] in simp_all)
  moreover have "leaf_put ks (int i) (fst e) (snd e) d' = Inr (mem_splice d' (28 + (ks + 8) * i) (fst e @ rid_bytes (snd e)))" if "length d' = 4096" for d'
    unfolding leaf_put_def entry_offset [OF i'(1)] ebind_simps nat_int by (rule memcpy_nat) (use room k that in simp)
  ultimately show ?thesis using length_opened(1) [OF is_leafD(1) [OF l] less_imp_le [OF i] k fits] by (simp add: opened_def)
qed

lemma append_entry:
  assumes l: "is_leaf ks d l" and n: "n = length (lf_entries l)" and k: "length (fst e) = ks"
    and fits: "28 + (ks + 8) * Suc n \<le> 4096"
  shows "leaf_put ks (int n) (fst e) (snd e) d = Inr (opened ks n n e d)"
proof -
  have n': "0 \<le> int n" by simp
  have "mem_splice d (28 + (ks + 8) * Suc n) (mem_slice d (28 + (ks + 8) * n) ((ks + 8) * (n - n))) = d"
    by (simp add: mem_splice_def mem_slice_def)
  then have "opened ks n n e d = mem_splice d (28 + (ks + 8) * n) (fst e @ rid_bytes (snd e))" by (simp only: opened_def)
  then show ?thesis unfolding leaf_put_def entry_offset [OF n'] ebind_simps nat_int
    by (simp only:) (rule memcpy_nat, use is_leafD(1) [OF l] k fits in simp)
qed

lemma IncreaseSize_opened:
  assumes l: "is_leaf ks d l" and i: "i \<le> n" and n: "n = length (lf_entries l)" and k: "length (fst e) = ks"
    and fits: "28 + (ks + 8) * Suc n \<le> 4096"
  shows "IncreaseSize 1 (opened ks n i e d) = Inr (mem_splice (opened ks n i e d) 8 (le_bytes 4 (int n + 1)))"
proof -
  have len: "length (opened ks n i e d) = 4096" using is_leafD(1) [OF l] length_opened [OF _ i k fits] by simp
  have "n < 4096" using fits by (simp add: algebra_simps)
  then have "GetSize (opened ks n i e d) = Inr (int n)"
    using get_int_ok [of 8 "opened ks n i e d"] len opened_bytes(2) [OF l i n k fits, of 8] is_leafD(3) [OF l] n by (simp add: GetSize_def)
  then show ?thesis using len by (simp add: IncreaseSize_def SetSize_def write32_ok)
qed

section \<open>Taking an entry away\<close>

lemma shrink_leaf:
  assumes l: "is_leaf ks d l" and es: "lf_entries l \<noteq> []"
  shows "\<exists>d'. IncreaseSize (- 1) d = Inr d' \<and> is_leaf ks d' (l\<lparr>lf_entries := butlast (lf_entries l)\<rparr>)"
proof -
  define m where "m = length (lf_entries l) - 1"
  have m: "length (lf_entries l) = Suc m" using es by (simp add: m_def)
  let ?d = "mem_splice d 8 (le_bytes 4 (int m))"
  note leaf = is_leafD [OF l]
  have len: "length ?d = 4096" using leaf(1) by simp
  have fits: "28 + (ks + 8) * m \<le> 4096" "m < 4096" using leaf(11) m by (simp_all add: algebra_simps)
  have "IncreaseSize (- 1) d = Inr ?d" using leaf_GetSize [OF l] leaf(1) m by (simp add: IncreaseSize_def SetSize_def write32_ok)
  moreover have "mem_slice ?d 28 ((ks + 8) * m) = enc (butlast (lf_entries l))"
    using slice_splice_other [of 8 "le_bytes 4 (int m)" d 28 "(ks + 8) * m"] leaf(1) fits leaf_slice [OF l, of 0 m] m
    by (simp add: butlast_conv_take)
  moreover have "word32 ?d at = word32 d at" if "at + 4 \<le> 8 \<or> 12 \<le> at \<and> at + 4 \<le> 28" for at
    using that leaf(1) by (subst word32_splice_other) auto
  ultimately show ?thesis
    using len fits leaf m word32_splice_same [of 8 d "int m"]
    by (auto simp: is_leaf_def BUSTUB_PAGE_SIZE_def LEAF_PAGE_def u32_def dest: in_set_butlastD)
qed

lemma close_gap_fails:
  assumes "length d = 4096" and "28 + (ks + 8) * n \<le> 4096" and "i < n"
  shows "close_gap ks (int i) (int n) d = Inl Out_Of_Bounds"
  using assms(1,3)
proof (induction i arbitrary: d)
  case 0
  then show ?case by (simp add: close_gap.simps)
next
  case (Suc i)
  have "(ks + 8) * Suc (Suc i) \<le> (ks + 8) * n" using Suc.prems(2) by (intro mult_le_mono2) simp
  then have room: "28 + (ks + 8) * Suc i + (ks + 8) \<le> 4096" using assms(2) by simp
  have i': "0 \<le> int (Suc i)" "0 \<le> int (Suc i) - 1" by simp_all
  have size: "nat ((int ks + 8) * (int (Suc i) + 1 - int (Suc i))) = ks + 8" "nat (int (Suc i) - 1) = i" by simp_all
  have "leaf_move ks (int (Suc i)) (int (Suc i) + 1) (int (Suc i) - 1) d =
      Inr (mem_splice d (28 + (ks + 8) * i) (mem_slice d (28 + (ks + 8) * Suc i) (ks + 8)))" (is "_ = Inr ?d")
    unfolding leaf_move_def entry_offset [OF i'(1)] entry_offset [OF i'(2)] ebind_simps size nat_int
    by (rule memmove_nat) (use room Suc.prems(1) in simp_all)
  moreover have "length ?d = 4096" using room Suc.prems(1) by simp
  ultimately show ?case using Suc.IH [of ?d] Suc.prems(2) by (simp add: close_gap.simps [of ks "1 + int i"])
qed

section \<open>Keys in order\<close>

definition insert_entry :: "(key \<Rightarrow> 'r::linorder) \<Rightarrow> key \<Rightarrow> RID \<Rightarrow> entry list \<Rightarrow> entry list" where
  "insert_entry rank k v es =
     (if \<exists>e \<in> set es. rank (fst e) = rank k then es
      else takeWhile (\<lambda>e. rank (fst e) < rank k) es @ (k, v) # dropWhile (\<lambda>e. rank (fst e) < rank k) es)"

fun insert_keys :: "nat \<Rightarrow> (key \<Rightarrow> key \<Rightarrow> exc + int) \<Rightarrow> entry list \<Rightarrow> byte list \<Rightarrow> exc + byte list" where
  "insert_keys ks cmp [] d = Inr d"
| "insert_keys ks cmp (e # kvs) d = ebind (InsertKey ks cmp (fst e) (snd e) d) (\<lambda>(_, d). insert_keys ks cmp kvs d)"

text \<open>The entries whose key has not occurred before.\<close>

fun first_keys :: "(key \<Rightarrow> 'r) \<Rightarrow> entry list \<Rightarrow> entry set" where
  "first_keys rank [] = {}"
| "first_keys rank (e # kvs) = insert e {e' \<in> first_keys rank kvs. rank (fst e') \<noteq> rank (fst e)}"

text \<open>What a page relies on: the keys it is given are compared as their ranks in a linear order.\<close>

locale key_order =
  fixes cmp :: "key \<Rightarrow> key \<Rightarrow> exc + int" and ok :: "key \<Rightarrow> bool" and rank :: "key \<Rightarrow> 'r::linorder"
  assumes cmp_rank: "ok a \<Longrightarrow> ok b \<Longrightarrow> cmp a b = Inr (if rank a < rank b then - 1 else if rank b < rank a then 1 else 0)"
begin

lemma KeyIndex_rank:
  assumes l: "is_leaf ks d l" and k: "ok k" and ok: "\<forall>e \<in> set (lf_entries l). ok (fst e)" and sorted: "sorted_wrt (<) (map (rank \<circ> fst) (lf_entries l))"
  shows "KeyIndex ks cmp k d = Inr (int (length (takeWhile (\<lambda>e. rank (fst e) < rank k) (lf_entries l))))"
proof -
  let ?es = "lf_entries l" and ?P = "\<lambda>e. rank (fst e) < rank k"
  let ?lt = "\<lambda>i. ebind (Leaf_KeyAt ks i d) (\<lambda>k'. ebind (cmp k' k) (\<lambda>c. Inr (c < 0)))"
  have lt: "?lt i = Inr (?P (?es ! nat i))" if "0 \<le> i" "i < 0 + int (length ?es)" for i
    using that leaf_KeyAt [OF l, of i] cmp_rank [of "fst (?es ! nat i)" k] ok k by (simp add: nat_less_iff)
  have mono: "?P (?es ! nat i)" if "0 \<le> i" "i < j" "j < 0 + int (length ?es)" "?P (?es ! nat j)" for i j
    using sorted_wrt_nth_less [OF sorted, of "nat i" "nat j"] that by (auto simp: nat_less_iff)
  have "\<exists>r. lower_bound ?lt 0 (length ?es) = Inr r \<and> 0 \<le> r \<and> r \<le> 0 + int (length ?es) \<and>
      (\<forall>i. 0 \<le> i \<and> i < r \<longrightarrow> ?P (?es ! nat i)) \<and> (\<forall>i. r \<le> i \<and> i < 0 + int (length ?es) \<longrightarrow> \<not> ?P (?es ! nat i))"
    by (rule lower_bound_partition) (rule lt, assumption+, rule mono)
  then obtain r where r: "lower_bound ?lt 0 (length ?es) = Inr r" "0 \<le> r" "r \<le> int (length ?es)"
    "\<And>i. 0 \<le> i \<Longrightarrow> i < r \<Longrightarrow> ?P (?es ! nat i)" "\<And>i. r \<le> i \<Longrightarrow> i < int (length ?es) \<Longrightarrow> \<not> ?P (?es ! nat i)"
    by auto
  have "takeWhile ?P ?es = take (nat r) ?es"
    using r(2) r(4) [of "int i" for i] r(5) [of r] by (intro takeWhile_eq_take_P_nth) (simp_all add: zless_nat_eq_int_zless)
  then have "length (takeWhile ?P ?es) = nat r" using r(2,3) by simp
  then show ?thesis using r(1,2) by (simp add: KeyIndex_def leaf_GetSize [OF l])
qed

text \<open>Sorted insertion: the page is unchanged when an equal key is there.\<close>

lemma InsertKey_rank:
  assumes l: "is_leaf ks d l" and k: "ok k" "length k = ks" and ok: "\<forall>e \<in> set (lf_entries l). ok (fst e)"
    and sorted: "sorted_wrt (<) (map (rank \<circ> fst) (lf_entries l))"
    and fits: "28 + (ks + 8) * Suc (length (lf_entries l)) \<le> 4096"
  shows "\<exists>d'. InsertKey ks cmp k v d = Inr (True, d') \<and> is_leaf ks d' (l\<lparr>lf_entries := insert_entry rank k v (lf_entries l)\<rparr>)"
proof -
  let ?es = "lf_entries l" and ?P = "\<lambda>e. rank (fst e) < rank k"
  define i where "i = length (takeWhile ?P ?es)"
  have i: "i \<le> length ?es" by (simp add: i_def length_takeWhile_le)
  have split: "takeWhile ?P ?es = take i ?es" "dropWhile ?P ?es = drop i ?es"
    unfolding i_def by (rule takeWhile_eq_take, rule dropWhile_eq_drop)
  note start = KeyIndex_rank [OF l k(1) ok sorted, folded i_def] leaf_GetSize [OF l]
  have at_i: "\<not> ?P (?es ! i)" if "i < length ?es" using nth_length_takeWhile [of ?P ?es] that by (simp add: i_def)
  have fresh: "\<not> (\<exists>e \<in> set ?es. rank (fst e) = rank k)" if "i = length ?es \<or> rank (fst (?es ! i)) \<noteq> rank k"
  proof
    assume "\<exists>e \<in> set ?es. rank (fst e) = rank k"
    then obtain j where j: "j < length ?es" "rank (fst (?es ! j)) = rank k" by (auto simp: in_set_conv_nth)
    have "?P (?es ! j)" if "j < i" using takeWhile_nth [of j ?P ?es] nth_mem [of j "takeWhile ?P ?es"]
        set_takeWhileD [of "?es ! j" ?P ?es] that by (simp add: i_def)
    then have "\<not> j < i" using j by auto
    then have "i < j" using that j by (cases "i = j") auto
    then show False using sorted_wrt_nth_less [OF sorted \<open>i < j\<close>] at_i j by simp
  qed
  have ins: "InsertKey ks cmp k v d = Inr (True, mem_splice (opened ks (length ?es) i (k, v) d) 8 (le_bytes 4 (int (length ?es) + 1)))"
    if "i = length ?es \<or> rank (fst (?es ! i)) \<noteq> rank k"
  proof (cases "i = length ?es")
    case True
    then show ?thesis
      using start append_entry [OF l refl, of "(k, v)"] IncreaseSize_opened [OF l i refl, of "(k, v)"] k(2) fits by (simp add: InsertKey_def)
  next
    case False
    then have "Leaf_KeyAt ks (int i) d = Inr (fst (?es ! i))" "cmp (fst (?es ! i)) k = Inr 1"
      using i that at_i leaf_KeyAt [OF l, of "int i"] cmp_rank [of "fst (?es ! i)" k] ok k by (auto simp: not_less)
    then show ?thesis
      using False i start open_gap [OF l _ refl, of i "(k, v)"] IncreaseSize_opened [OF l i refl, of "(k, v)"] k(2) fits
      by (auto simp: InsertKey_def)
  qed
  show ?thesis
  proof (cases "i = length ?es \<or> rank (fst (?es ! i)) \<noteq> rank k")
    case True
    then show ?thesis using ins fresh insert_at_leaf [OF l i refl, of "(k, v)"] k(2) fits
      by (simp add: insert_entry_def split insert_at_def)
  next
    case False
    then have "InsertKey ks cmp k v d = Inr (True, d)"
      using i start leaf_KeyAt [OF l, of "int i"] cmp_rank [of "fst (?es ! i)" k] ok k by (simp add: InsertKey_def)
    moreover have "\<exists>e \<in> set ?es. rank (fst e) = rank k" using False i by (intro bexI [of _ "?es ! i"]) auto
    ultimately show ?thesis using l by (simp add: insert_entry_def)
  qed
qed

lemma insert_entry_sorted:
  assumes "sorted_wrt (<) (map (rank \<circ> fst) es)"
  shows "sorted_wrt (<) (map (rank \<circ> fst) (insert_entry rank k v es))"
  using assms
proof (induction es)
  case (Cons e es)
  then have IH: "sorted_wrt (<) (map (rank \<circ> fst) (insert_entry rank k v es))" by (simp add: comp_def)
  have gt: "\<forall>x \<in> set es. rank (fst e) < rank (fst x)" using Cons.prems by simp
  show ?case
  proof (cases "rank (fst e) < rank k")
    case True
    then have "insert_entry rank k v (e # es) = e # insert_entry rank k v es" by (auto simp: insert_entry_def)
    moreover have "\<forall>x \<in> set (insert_entry rank k v es). rank (fst e) < rank (fst x)"
      using gt True by (auto simp: insert_entry_def dest: set_takeWhileD set_dropWhileD)
    ultimately show ?thesis using IH by (simp add: comp_def)
  next
    case False
    then show ?thesis using Cons.prems gt by (auto simp: insert_entry_def comp_def)
  qed
qed (simp add: insert_entry_def)

lemma insert_entry_set:
  "set (insert_entry rank k v es) = (if \<exists>e \<in> set es. rank (fst e) = rank k then set es else insert (k, v) (set es))"
proof -
  let ?P = "\<lambda>e. rank (fst e) < rank k"
  have "set es = set (takeWhile ?P es) \<union> set (dropWhile ?P es)" by (metis set_append takeWhile_dropWhile_id)
  then show ?thesis by (simp add: insert_entry_def)
qed

lemma insert_keys_rank:
  assumes "is_leaf ks d l" and "\<forall>e \<in> set (lf_entries l) \<union> set kvs. ok (fst e) \<and> length (fst e) = ks"
    and "sorted_wrt (<) (map (rank \<circ> fst) (lf_entries l))"
    and "28 + (ks + 8) * (length (lf_entries l) + length kvs) \<le> 4096"
  shows "\<exists>d' l'. insert_keys ks cmp kvs d = Inr d' \<and> is_leaf ks d' l' \<and> sorted_wrt (<) (map (rank \<circ> fst) (lf_entries l')) \<and>
    lf_max l' = lf_max l \<and> set (lf_entries l') = set (lf_entries l) \<union> {e \<in> first_keys rank kvs. rank (fst e) \<notin> rank ` fst ` set (lf_entries l)}"
  using assms
proof (induction kvs arbitrary: d l)
  case (Cons e kvs)
  obtain k v where e: "e = (k, v)" by (cases e)
  let ?es = "insert_entry rank k v (lf_entries l)"
  let ?l = "l\<lparr>lf_entries := ?es\<rparr>"
  have len: "length ?es \<le> Suc (length (lf_entries l))"
    by (simp add: insert_entry_def) (metis add_Suc_right length_append takeWhile_dropWhile_id le_Suc_eq order_refl)
  have "28 + (ks + 8) * Suc (length (lf_entries l)) \<le> 28 + (ks + 8) * (length (lf_entries l) + length (e # kvs))"
    by (intro add_left_mono mult_le_mono2) simp
  then have fits: "28 + (ks + 8) * Suc (length (lf_entries l)) \<le> 4096" using Cons.prems(4) by linarith
  obtain d1 where d1: "InsertKey ks cmp k v d = Inr (True, d1)" "is_leaf ks d1 ?l"
    using InsertKey_rank [OF Cons.prems(1) _ _ _ Cons.prems(3) fits, of k v] Cons.prems(2) e by auto
  have ok: "\<forall>x \<in> set (lf_entries ?l) \<union> set kvs. ok (fst x) \<and> length (fst x) = ks"
    using Cons.prems(2) e by (auto simp: insert_entry_set split: if_splits)
  have "28 + (ks + 8) * (length (lf_entries ?l) + length kvs) \<le> 28 + (ks + 8) * (length (lf_entries l) + length (e # kvs))"
    using len by (intro add_left_mono mult_le_mono2) simp
  then have fits: "28 + (ks + 8) * (length (lf_entries ?l) + length kvs) \<le> 4096" using Cons.prems(4) by linarith
  have sorted: "sorted_wrt (<) (map (rank \<circ> fst) (lf_entries ?l))" using insert_entry_sorted [OF Cons.prems(3), of k v] by simp
  obtain d' l' where d': "insert_keys ks cmp kvs d1 = Inr d'" "is_leaf ks d' l'" "sorted_wrt (<) (map (rank \<circ> fst) (lf_entries l'))"
      "lf_max l' = lf_max ?l"
      "set (lf_entries l') = set ?es \<union> {e \<in> first_keys rank kvs. rank (fst e) \<notin> rank ` fst ` set ?es}"
    using Cons.IH [OF d1(2) ok sorted fits] by (auto simp: comp_def)
  moreover have "set ?es \<union> {e \<in> first_keys rank kvs. rank (fst e) \<notin> rank ` fst ` set ?es} =
      set (lf_entries l) \<union> {e' \<in> first_keys rank (e # kvs). rank (fst e') \<notin> rank ` fst ` set (lf_entries l)}"
    by (auto simp: insert_entry_set e image_iff)
  moreover have "insert_keys ks cmp (e # kvs) d = Inr d'" using d1(1) d'(1) e by simp
  ultimately show ?case by (intro exI [of _ d'] exI [of _ l']) (simp add: comp_def)
qed auto

text \<open>Deletion only works for the last entry: the loop that closes the gap runs off the array.\<close>

lemma FindKey_rank:
  assumes l: "is_leaf ks d l" and ok: "ok k" "\<forall>e \<in> set (lf_entries l). ok (fst e)"
  shows "FindKey ks cmp k d = Inr (int (length (takeWhile (\<lambda>e. rank (fst e) \<noteq> rank k) (lf_entries l))))"
proof -
  let ?es = "lf_entries l" and ?P = "\<lambda>e. rank (fst e) \<noteq> rank k"
  have "find_key ks cmp k (map int [j..<length ?es]) (int (length ?es)) d = Inr (int (j + length (takeWhile ?P (drop j ?es))))"
    if "j \<le> length ?es" for j
    using that
  proof (induction "length ?es - j" arbitrary: j)
    case (Suc m)
    then have j: "j < length ?es" by simp
    then have d: "drop j ?es = ?es ! j # drop (Suc j) ?es" by (rule Cons_nth_drop_Suc [symmetric])
    have "Leaf_KeyAt ks (int j) d = Inr (fst (?es ! j))" using leaf_KeyAt [OF l, of "int j"] j by simp
    moreover have "cmp (fst (?es ! j)) k = Inr c \<Longrightarrow> c = 0 \<longleftrightarrow> \<not> ?P (?es ! j)" "\<exists>c. cmp (fst (?es ! j)) k = Inr c" for c
      using cmp_rank [of "fst (?es ! j)" k] ok j by (auto simp: not_less split: if_splits)
    moreover have "find_key ks cmp k (map int [Suc j..<length ?es]) (int (length ?es)) d = Inr (int (Suc j + length (takeWhile ?P (drop (Suc j) ?es))))"
      using Suc.hyps(1) [of "Suc j"] Suc.hyps(2) j by simp
    ultimately show ?case using j by (auto simp: upt_conv_Cons d)
  qed simp
  then have "find_key ks cmp k (map int [0..<length ?es]) (int (length ?es)) d = Inr (int (length (takeWhile ?P ?es)))" by force
  then show ?thesis using upto_from [of 0 "length ?es"] by (simp add: FindKey_def leaf_GetSize [OF l])
qed

lemma DeleteKey_rank:
  assumes l: "is_leaf ks d l" and ok: "ok k" "\<forall>e \<in> set (lf_entries l). ok (fst e)"
    and pos: "pos = length (takeWhile (\<lambda>e. rank (fst e) \<noteq> rank k) (lf_entries l))"
  shows "pos = length (lf_entries l) \<Longrightarrow> DeleteKey ks cmp k d = Inr (False, d)"
    and "Suc pos = length (lf_entries l) \<Longrightarrow>
      \<exists>d'. DeleteKey ks cmp k d = Inr (True, d') \<and> is_leaf ks d' (l\<lparr>lf_entries := butlast (lf_entries l)\<rparr>)"
    and "Suc pos < length (lf_entries l) \<Longrightarrow> DeleteKey ks cmp k d = Inl Out_Of_Bounds"
proof -
  note start = FindKey_rank [OF l ok, folded pos] leaf_GetSize [OF l]
  show "DeleteKey ks cmp k d = Inr (False, d)" if "pos = length (lf_entries l)" using start that by (simp add: DeleteKey_def)
  show "\<exists>d'. DeleteKey ks cmp k d = Inr (True, d') \<and> is_leaf ks d' (l\<lparr>lf_entries := butlast (lf_entries l)\<rparr>)"
    if "Suc pos = length (lf_entries l)"
  proof -
    have "lf_entries l \<noteq> []" using that by auto
    then obtain d' where "IncreaseSize (- 1) d = Inr d'" "is_leaf ks d' (l\<lparr>lf_entries := butlast (lf_entries l)\<rparr>)"
      using shrink_leaf [OF l] by blast
    then show ?thesis using start that by (simp add: DeleteKey_def close_gap.simps)
  qed
  show "DeleteKey ks cmp k d = Inl Out_Of_Bounds" if "Suc pos < length (lf_entries l)"
    using start that close_gap_fails [of d ks "length (lf_entries l)" "Suc pos"] is_leafD(1,11) [OF l] by (simp add: DeleteKey_def add.commute)
qed

end

section \<open>The comparator of the index\<close>

text \<open>The keys with a value of an integer type, not null, in every column.\<close>

definition int_column :: "'d double_ops \<Rightarrow> schema \<Rightarrow> key \<Rightarrow> nat \<Rightarrow> bool" where
  "int_column D s k i = (case ToValue D s i k of Inl _ \<Rightarrow> False | Inr v \<Rightarrow> CheckInteger v \<and> \<not> IsNull D v)"

definition int_key :: "'d double_ops \<Rightarrow> schema \<Rightarrow> key \<Rightarrow> bool" where
  "int_key D s k = list_all (int_column D s k) [0..<length (columns s)]"

definition column_value :: "'d double_ops \<Rightarrow> schema \<Rightarrow> key \<Rightarrow> nat \<Rightarrow> int" where
  "column_value D s k i = (case ToValue D s i k of Inl _ \<Rightarrow> 0 | Inr v \<Rightarrow> int_of v)"

definition int_rank :: "'d double_ops \<Rightarrow> schema \<Rightarrow> key \<Rightarrow> int list" where
  "int_rank D s k = map (column_value D s k) [0..<length (columns s)]"

lemma compare_columns_rank:
  assumes "list_all (int_column D s a) is" and "list_all (int_column D s b) is"
  shows "compare_columns D s is a b =
    Inr (if map (column_value D s a) is < map (column_value D s b) is then - 1
         else if map (column_value D s b) is < map (column_value D s a) is then 1 else 0)"
  using assms
proof (induction "is")
  case (Cons i "is")
  obtain v where v: "ToValue D s i a = Inr v" "CheckInteger v" "\<not> IsNull D v"
    using Cons.prems(1) by (auto simp: int_column_def split: sum.splits)
  obtain w where w: "ToValue D s i b = Inr w" "CheckInteger w" "\<not> IsNull D w"
    using Cons.prems(2) by (auto simp: int_column_def split: sum.splits)
  show ?case using Cons v w by (auto simp: Compare_int GetCmpBool_def column_value_def)
qed simp

interpretation gk: key_order "GenericComparator D s" "int_key D s" "int_rank D s"
  by unfold_locales (simp add: GenericComparator_def int_key_def int_rank_def compare_columns_rank)

section \<open>Leaf pages are sorted maps\<close>

lemma u32_uint: "u32 (uint (w :: 32 word)) = uint w"
  using uint_bounded [of w] by (simp add: u32_def)

lemma Leaf_Init_empty:
  assumes "length d = 4096" and "0 \<le> m" and "m < 2147483648"
  shows "\<exists>d'. Leaf_Init p parent m d = Inr d' \<and>
    is_leaf ks d' \<lparr>lf_id = p, lf_parent = parent, lf_next = INVALID_PAGE_ID, lf_max = m, lf_entries = []\<rparr>"
  using assms
  by (simp add: Leaf_Init_def SetPageType_def SetSize_def BPage_SetPageId_def SetParentPageId_def SetMaxSize_def Leaf_SetNextPageId_def
      SetPageLSN_def write32_ok is_leaf_def LEAF_PAGE_def BUSTUB_PAGE_SIZE_def word32_splice_same word32_splice_other u32_uint)
    (simp add: u32_def mem_slice_def)

lemma first_keys_iff:
  "e \<in> first_keys rank kvs \<longleftrightarrow> (\<exists>xs ys. kvs = xs @ e # ys \<and> rank (fst e) \<notin> rank ` fst ` set xs)"
proof (induction kvs)
  case (Cons x kvs)
  show ?case (is "_ \<longleftrightarrow> ?R")
  proof
    assume "e \<in> first_keys rank (x # kvs)"
    then consider "e = x" | "e \<in> first_keys rank kvs" "rank (fst e) \<noteq> rank (fst x)" by auto
    then show ?R
    proof cases
      case 1
      then show ?thesis by (intro exI [of _ "[]"] exI [of _ kvs]) simp
    next
      case 2
      then obtain xs ys where "kvs = xs @ e # ys" "rank (fst e) \<notin> rank ` fst ` set xs" using Cons.IH by blast
      with 2(2) show ?thesis by (intro exI [of _ "x # xs"] exI [of _ ys]) auto
    qed
  next
    assume ?R
    then obtain xs ys where "x # kvs = xs @ e # ys" "rank (fst e) \<notin> rank ` fst ` set xs" by blast
    then show "e \<in> first_keys rank (x # kvs)" using Cons.IH by (cases xs) auto
  qed
qed simp

text \<open>C19. Inserting keys of integer columns, in any order and with repetitions, into a freshly
  initialised leaf page that has room for them succeeds; the page then holds its entries strictly
  sorted by the values of the columns, each key with the value it was first inserted with, and
  reading position \<open>i\<close> gives the \<open>i\<close>-th of them.\<close>

theorem leaf_page_sorted:
  assumes "length d = BUSTUB_PAGE_SIZE" and "0 \<le> m" and "m < 2147483648"
    and "\<forall>e \<in> set kvs. int_key D s (fst e) \<and> length (fst e) = ks"
    and "28 + (ks + 8) * length kvs \<le> BUSTUB_PAGE_SIZE"
  shows "\<exists>d' es. ebind (Leaf_Init p parent m d) (insert_keys ks (GenericComparator D s) kvs) = Inr d' \<and>
    GetSize d' = Inr (int (length es)) \<and>
    (\<forall>i < length es. Leaf_KeyAt ks (int i) d' = Inr (fst (es ! i)) \<and> Leaf_ValueAt ks (int i) d' = Inr (snd (es ! i))) \<and>
    sorted_wrt (<) (map (int_rank D s \<circ> fst) es) \<and>
    (\<forall>e. e \<in> set es \<longleftrightarrow> (\<exists>xs ys. kvs = xs @ e # ys \<and> int_rank D s (fst e) \<notin> int_rank D s ` fst ` set xs))"
proof -
  obtain d0 where d0: "Leaf_Init p parent m d = Inr d0"
      "is_leaf ks d0 \<lparr>lf_id = p, lf_parent = parent, lf_next = INVALID_PAGE_ID, lf_max = m, lf_entries = []\<rparr>"
    using Leaf_Init_empty [of d m p parent ks] assms(1-3) by (auto simp: BUSTUB_PAGE_SIZE_def)
  obtain d' l where d': "insert_keys ks (GenericComparator D s) kvs d0 = Inr d'" "is_leaf ks d' l"
      "sorted_wrt (<) (map (int_rank D s \<circ> fst) (lf_entries l))" "set (lf_entries l) = first_keys (int_rank D s) kvs"
    using gk.insert_keys_rank [where D = D and s = s and kvs = kvs, OF d0(2)] assms(4,5) by (auto simp: BUSTUB_PAGE_SIZE_def)
  show ?thesis
    using d0(1) d'(1,3,4) leaf_GetSize [OF d'(2)] leaf_KeyAt [OF d'(2), of "int i" for i] leaf_ValueAt [OF d'(2), of "int i" for i]
    by (intro exI [of _ d'] exI [of _ "lf_entries l"]) (simp add: first_keys_iff)
qed

text \<open>An example: keys of one \<^verbatim>\<open>INTEGER\<close> column.\<close>

definition example_schema :: schema where
  "example_schema = new_schema [\<lparr>column_name = ''k'', column_type = INTEGER, fixed_length = 4, variable_length = 0, column_offset = 0\<rparr>]"

definition example_key :: "int \<Rightarrow> key" where "example_key i = le_bytes 4 i"

definition example_rid :: "nat \<Rightarrow> RID" where "example_rid i = \<lparr>rid_page_id = 1, rid_slot_num = of_nat i\<rparr>"

lemma example_keys:
  "int_key int_double example_schema (example_key (- 7))" "int_key int_double example_schema (example_key 5)"
  "length (example_key i) = 4"
  by (code_simp, code_simp) (simp add: example_key_def)

theorem leaf_page_sorted_witness:
  "\<exists>d' es. ebind (Leaf_Init 3 INVALID_PAGE_ID 10 zero_page) (insert_keys 4 (GenericComparator int_double example_schema)
      [(example_key 5, example_rid 0), (example_key (- 7), example_rid 1), (example_key 5, example_rid 2)]) = Inr d' \<and>
    (example_key 5, example_rid 0) \<in> set es \<and> (\<forall>i < length es. Leaf_KeyAt 4 (int i) d' = Inr (fst (es ! i)))"
  using leaf_page_sorted [of zero_page 10 "[(example_key 5, example_rid 0), (example_key (- 7), example_rid 1), (example_key 5, example_rid 2)]"
      int_double example_schema 4 3 INVALID_PAGE_ID] example_keys
  by (simp add: zero_page_def BUSTUB_PAGE_SIZE_def) (metis append.left_neutral image_empty list.set(1) empty_iff)

text \<open>C39. Deleting a key from a leaf page: when no entry has an equal key nothing changes and the result
  is false; when the last entry has it that entry is removed; when an earlier entry has it the loop
  that should close the gap runs below the start of the array.\<close>

theorem DeleteKey_outcome:
  assumes "is_leaf ks d l" and "int_key D s k" and "\<forall>e \<in> set (lf_entries l). int_key D s (fst e)"
    and "pos = length (takeWhile (\<lambda>e. int_rank D s (fst e) \<noteq> int_rank D s k) (lf_entries l))"
  shows "(pos = length (lf_entries l) \<longrightarrow> DeleteKey ks (GenericComparator D s) k d = Inr (False, d)) \<and>
    (Suc pos = length (lf_entries l) \<longrightarrow> (\<exists>d'. DeleteKey ks (GenericComparator D s) k d = Inr (True, d') \<and>
       is_leaf ks d' (l\<lparr>lf_entries := butlast (lf_entries l)\<rparr>))) \<and>
    (Suc pos < length (lf_entries l) \<longrightarrow> DeleteKey ks (GenericComparator D s) k d = Inl Out_Of_Bounds)"
  using gk.DeleteKey_rank [OF assms] by blast

lemma example_leaf:
  "\<exists>d l. is_leaf 4 d l \<and> lf_entries l = [(example_key (- 7), example_rid 1), (example_key 5, example_rid 0)]"
proof -
  have rank: "int_rank int_double example_schema (example_key 5) = [5]" "int_rank int_double example_schema (example_key (- 7)) = [- 7]"
    by code_simp+
  obtain d0 where "is_leaf 4 d0 \<lparr>lf_id = 3, lf_parent = INVALID_PAGE_ID, lf_next = INVALID_PAGE_ID, lf_max = 10, lf_entries = []\<rparr>"
    using Leaf_Init_empty [of zero_page 10 3 INVALID_PAGE_ID 4] by (auto simp: zero_page_def BUSTUB_PAGE_SIZE_def)
  from gk.InsertKey_rank [OF this example_keys(2,3), of "example_rid 0"]
  obtain d1 l1 where "is_leaf 4 d1 l1" and e1: "lf_entries l1 = [(example_key 5, example_rid 0)]" by (auto simp: insert_entry_def)
  from gk.InsertKey_rank [OF this(1) example_keys(1,3), of "example_rid 1"]
  obtain d2 l2 where "is_leaf 4 d2 l2" "lf_entries l2 = [(example_key (- 7), example_rid 1), (example_key 5, example_rid 0)]"
    using example_keys(2) by (auto simp: insert_entry_def e1 rank)
  then show ?thesis by blast
qed

theorem DeleteKey_outcome_witness:
  "\<exists>d l d'. is_leaf 4 d l \<and> DeleteKey 4 (GenericComparator int_double example_schema) (example_key (- 7)) d = Inl Out_Of_Bounds \<and>
     DeleteKey 4 (GenericComparator int_double example_schema) (example_key 5) d = Inr (True, d')"
proof -
  obtain d l where l: "is_leaf 4 d l" "lf_entries l = [(example_key (- 7), example_rid 1), (example_key 5, example_rid 0)]"
    using example_leaf by blast
  have rank: "int_rank int_double example_schema (example_key 5) = [5]" "int_rank int_double example_schema (example_key (- 7)) = [- 7]"
    by code_simp+
  show ?thesis
    using l DeleteKey_outcome [OF l(1) example_keys(1), of 0] DeleteKey_outcome [OF l(1) example_keys(2), of 1] example_keys by (auto simp: rank)
qed

end
