(* ===== verification/Header_Page.thy ===== *)
theory Header_Page
  imports Memory
begin

text \<open>
  The header page (\<^verbatim>\<open>storage/page/header_page.cpp\<close>), where the indexes record their root pages: a counter
  and records of 36 bytes, a name closed by a zero byte and a page id.  The model works on the bytes of
  the page; \<^verbatim>\<open>strcmp\<close> reads one byte after the other until it finds a difference or the closing zero.

  The lemmas: the bytes represent a list of names and page ids, and the four operations are those of
  an association list, as long as the records fit on the page; the code does not check that they do.
\<close>

section \<open>The model\<close>

definition GetRecordCount :: "byte list \<Rightarrow> exc + int" where
  "GetRecordCount d = ebind (read32 d 0) (\<lambda>k. Inr (sint (word_of_int k :: 32 word)))"

definition SetRecordCount :: "int \<Rightarrow> byte list \<Rightarrow> exc + byte list" where
  "SetRecordCount n d = write32 d 0 n"

definition HeaderPage_Init :: "byte list \<Rightarrow> exc + byte list" where
  "HeaderPage_Init d = SetRecordCount 0 d"

text \<open>The bytes that \<^verbatim>\<open>name.c_str()\<close> points to, up to the closing zero, and the comparison with a string in
  memory.\<close>

definition c_str :: "string \<Rightarrow> byte list" where
  "c_str name = map char_byte name @ [0]"

fun strcmp_eq :: "byte list \<Rightarrow> int \<Rightarrow> byte list \<Rightarrow> exc + bool" where
  "strcmp_eq d off [] = Inr True"
| "strcmp_eq d off (b # bs) = ebind (mem_read d off 1) (\<lambda>x.
     if x \<noteq> [b] then Inr False else if b = 0 then Inr True else strcmp_eq d (off + 1) bs)"

fun find_record :: "string \<Rightarrow> int list \<Rightarrow> byte list \<Rightarrow> exc + int" where
  "find_record name [] d = Inr (- 1)"
| "find_record name (i # is) d =
     ebind (strcmp_eq d (4 + i * 36) (c_str name)) (\<lambda>eq. if eq then Inr i else find_record name is d)"

definition FindRecord :: "string \<Rightarrow> byte list \<Rightarrow> exc + int" where
  "FindRecord name d = ebind (GetRecordCount d) (\<lambda>record_num. find_record name [0..record_num - 1] d)"

definition InsertRecord :: "string \<Rightarrow> page_id \<Rightarrow> byte list \<Rightarrow> exc + bool \<times> byte list" where
  "InsertRecord name root_id d =
     assert_that (length name < 32) (assert_that (sint root_id > sint INVALID_PAGE_ID)
     (ebind (GetRecordCount d) (\<lambda>record_num.
      let offset = 4 + record_num * 36 in
      ebind (FindRecord name d) (\<lambda>i.
      if i \<noteq> - 1 then Inr (False, d)
      else
        ebind (memcpy d offset (c_str name)) (\<lambda>d.
        ebind (memcpy d (offset + 32) (le_bytes 4 (uint root_id))) (\<lambda>d.
        ebind (SetRecordCount (record_num + 1) d) (\<lambda>d. Inr (True, d))))))))"

definition DeleteRecord :: "string \<Rightarrow> byte list \<Rightarrow> exc + bool \<times> byte list" where
  "DeleteRecord name d =
     ebind (GetRecordCount d) (\<lambda>record_num.
     assert_that (record_num > 0)
     (ebind (FindRecord name d) (\<lambda>index.
      if index = - 1 then Inr (False, d)
      else
        let offset = index * 36 + 4 in
        ebind (memmove d offset (offset + 36) (nat ((record_num - index - 1) * 36))) (\<lambda>d.
        ebind (SetRecordCount (record_num - 1) d) (\<lambda>d. Inr (True, d))))))"

definition UpdateRecord :: "string \<Rightarrow> page_id \<Rightarrow> byte list \<Rightarrow> exc + bool \<times> byte list" where
  "UpdateRecord name root_id d =
     assert_that (length name < 32)
     (ebind (FindRecord name d) (\<lambda>index.
      if index = - 1 then Inr (False, d)
      else
        let offset = index * 36 + 4 in
        ebind (memcpy d (offset + 32) (le_bytes 4 (uint root_id))) (\<lambda>d. Inr (True, d))))"

definition GetRootId :: "string \<Rightarrow> byte list \<Rightarrow> exc + page_id option" where
  "GetRootId name d =
     assert_that (length name < 32)
     (ebind (FindRecord name d) (\<lambda>index.
      if index = - 1 then Inr None
      else ebind (read32 d ((index + 1) * 36)) (\<lambda>k. Inr (Some (word_of_int k)))))"

section \<open>Records\<close>

text \<open>The bytes that matter of a record, and the page that represents a list of records: names
  without zero bytes that fit, and page ids.\<close>

type_synonym header_record = "string \<times> page_id"

definition good_name :: "string \<Rightarrow> bool" where
  "good_name name \<longleftrightarrow> length name < 32 \<and> CHR 0x00 \<notin> set name"

definition record_at :: "byte list \<Rightarrow> nat \<Rightarrow> header_record \<Rightarrow> bool" where
  "record_at d i r \<longleftrightarrow> (case r of (name, root) \<Rightarrow>
     mem_slice d (4 + 36 * i) (Suc (length name)) = c_str name \<and> word32 d (36 + 36 * i) = uint root)"

definition is_header :: "byte list \<Rightarrow> header_record list \<Rightarrow> bool" where
  "is_header d rs \<longleftrightarrow> length d = 4096 \<and> length rs \<le> 113 \<and> word32 d 0 = int (length rs) \<and> distinct (map fst rs) \<and>
     (\<forall>i < length rs. good_name (fst (rs ! i)) \<and> record_at d i (rs ! i))"

lemma char_byte_inj [simp]: "char_byte c = char_byte c' \<longleftrightarrow> c = c'"
  by (metis byte_char_byte)

lemma char_byte_0 [simp]: "char_byte c = 0 \<longleftrightarrow> c = CHR 0x00"
  using char_byte_inj [of c "CHR 0x00"] by (simp add: char_byte_def)

lemma length_c_str [simp]: "length (c_str name) = Suc (length name)"
  by (simp add: c_str_def)

lemma mem_read_byte: "0 \<le> off \<Longrightarrow> nat off < length d \<Longrightarrow> mem_read d off (Suc 0) = Inr [d ! nat off]"
  by (simp add: mem_read_def take_Suc_conv_app_nth hd_drop_conv_nth take_Suc)

text \<open>Two strings in memory that are equal as far as the first of them goes.\<close>

lemma strcmp_eq_name:
  assumes "\<forall>j \<le> length n. k + j < length d \<and> d ! (k + j) = c_str n ! j" and "CHR 0x00 \<notin> set n" and "CHR 0x00 \<notin> set name"
  shows "strcmp_eq d (int k) (c_str name) = Inr (name = n)"
  using assms
proof (induction name arbitrary: n k)
  case Nil
  have "k < length d" "d ! k = c_str n ! 0" using Nil.prems(1) by (auto dest: spec [of _ 0])
  then show ?case using Nil.prems(2) by (cases n) (auto simp: c_str_def mem_read_byte)
next
  case (Cons c name)
  have k: "k < length d" "d ! k = c_str n ! 0" using Cons.prems(1) by (auto dest: spec [of _ 0])
  have c: "char_byte c \<noteq> 0" using Cons.prems(3) by auto
  have read: "mem_read d (int k) (Suc 0) = Inr [c_str n ! 0]" using k by (simp add: mem_read_byte)
  show ?case
  proof (cases n)
    case Nil
    then show ?thesis using read c by (simp add: c_str_def)
  next
    case (Cons c' n')
    have "Suc k + j < length d \<and> d ! (Suc k + j) = c_str n' ! j" if "j \<le> length n'" for j
      using Cons.prems(1) [rule_format, of "Suc j"] that Cons by (simp add: c_str_def)
    then have "strcmp_eq d (int (Suc k)) (c_str name) = Inr (name = n')"
      using Cons.IH [of n' "Suc k"] Cons.prems(2,3) Cons by simp
    then show ?thesis using read c Cons by (auto simp: c_str_def add.commute)
  qed
qed

lemma record_at_name:
  assumes "is_header d rs" and "i < length rs" and "CHR 0x00 \<notin> set name"
  shows "strcmp_eq d (4 + int i * 36) (c_str name) = Inr (name = fst (rs ! i))"
proof -
  obtain n root where r: "rs ! i = (n, root)" by (rule prod.exhaust)
  have g: "length n < 32" "CHR 0x00 \<notin> set n" "mem_slice d (4 + 36 * i) (Suc (length n)) = c_str n" "length d = 4096" "length rs \<le> 113"
    using assms(1,2) r by (auto simp: is_header_def good_name_def record_at_def)
  have "(4 + 36 * i) + j < length d \<and> d ! ((4 + 36 * i) + j) = c_str n ! j" if "j \<le> length n" for j
    using nth_slice [of "4 + 36 * i" "Suc (length n)" d j] g assms(2) that by simp
  then show ?thesis using strcmp_eq_name [of n "4 + 36 * i" d name] g(2) assms(3) r by (simp add: mult.commute)
qed

fun rec_index :: "string \<Rightarrow> nat \<Rightarrow> header_record list \<Rightarrow> int" where
  "rec_index name k [] = - 1"
| "rec_index name k (r # rs) = (if fst r = name then int k else rec_index name (Suc k) rs)"

lemma rec_index_iff:
  "rec_index name k rs = - 1 \<longleftrightarrow> name \<notin> fst ` set rs"
  "rec_index name k rs \<noteq> - 1 \<Longrightarrow> \<exists>i < length rs. rec_index name k rs = int (k + i) \<and> fst (rs ! i) = name"
proof -
  show "rec_index name k rs = - 1 \<longleftrightarrow> name \<notin> fst ` set rs" by (induction rs arbitrary: k) auto
  show "rec_index name k rs \<noteq> - 1 \<Longrightarrow> \<exists>i < length rs. rec_index name k rs = int (k + i) \<and> fst (rs ! i) = name"
  proof (induction rs arbitrary: k)
    case (Cons r rs)
    show ?case
    proof (cases "fst r = name")
      case False
      then obtain i where "i < length rs" "rec_index name (Suc k) rs = int (Suc k + i)" "fst (rs ! i) = name" using Cons.IH [of "Suc k"] Cons.prems by auto
      then show ?thesis using False by (intro exI [of _ "Suc i"]) simp
    qed auto
  qed simp
qed

lemma find_record_index:
  assumes "is_header d rs" and "CHR 0x00 \<notin> set name" and "k \<le> length rs"
  shows "find_record name (map int [k..<length rs]) d = Inr (rec_index name k (drop k rs))"
  using assms(3)
proof (induction "length rs - k" arbitrary: k)
  case (Suc m)
  then have k: "k < length rs" by simp
  then have "find_record name (map int [Suc k..<length rs]) d = Inr (rec_index name (Suc k) (drop (Suc k) rs))" using Suc by simp
  then show ?case using k record_at_name [OF assms(1) k assms(2)]
    by (auto simp: upt_conv_Cons Cons_nth_drop_Suc [symmetric])
qed simp

lemma GetRecordCount_header: "is_header d rs \<Longrightarrow> GetRecordCount d = Inr (int (length rs))"
  using sint_small [of "int (length rs)"] by (simp add: GetRecordCount_def read32_ok is_header_def)

lemma FindRecord_header: "is_header d rs \<Longrightarrow> CHR 0x00 \<notin> set name \<Longrightarrow> FindRecord name d = Inr (rec_index name 0 rs)"
  using find_record_index [of d rs name 0]
  by (simp add: FindRecord_def GetRecordCount_header upto_from [of 0, simplified])

section \<open>The page as an association list\<close>

datatype header_op = Insert_rec string page_id | Delete_rec string | Update_rec string page_id | Get_rec string

datatype header_out = Changed bool | Root "page_id option"

definition header_step :: "header_op \<Rightarrow> byte list \<Rightarrow> exc + header_out \<times> byte list" where
  "header_step op d = (case op of
       Insert_rec n r \<Rightarrow> ebind (InsertRecord n r d) (\<lambda>(b, d). Inr (Changed b, d))
     | Delete_rec n \<Rightarrow> ebind (DeleteRecord n d) (\<lambda>(b, d). Inr (Changed b, d))
     | Update_rec n r \<Rightarrow> ebind (UpdateRecord n r d) (\<lambda>(b, d). Inr (Changed b, d))
     | Get_rec n \<Rightarrow> ebind (GetRootId n d) (\<lambda>r. Inr (Root r, d)))"

definition header_spec :: "header_op \<Rightarrow> header_record list \<Rightarrow> exc + header_out \<times> header_record list" where
  "header_spec op rs = (case op of
       Insert_rec n r \<Rightarrow>
         if 32 \<le> length n \<or> sint r < 0 then Inl Assert_Failed
         else if n \<in> fst ` set rs then Inr (Changed False, rs) else Inr (Changed True, rs @ [(n, r)])
     | Delete_rec n \<Rightarrow>
         if rs = [] then Inl Assert_Failed
         else if n \<in> fst ` set rs then Inr (Changed True, filter (\<lambda>r. fst r \<noteq> n) rs) else Inr (Changed False, rs)
     | Update_rec n r \<Rightarrow>
         if 32 \<le> length n then Inl Assert_Failed
         else if n \<in> fst ` set rs then Inr (Changed True, map (\<lambda>(m, q). (m, if m = n then r else q)) rs) else Inr (Changed False, rs)
     | Get_rec n \<Rightarrow> if 32 \<le> length n then Inl Assert_Failed else Inr (Root (map_of rs n), rs))"

text \<open>What a client may call: names without zero bytes, and no insertion into a full page.\<close>

definition header_permitted :: "header_op \<Rightarrow> header_record list \<Rightarrow> bool" where
  "header_permitted op rs \<longleftrightarrow> (case op of
       Insert_rec n r \<Rightarrow> CHR 0x00 \<notin> set n \<and> length rs < 113
     | Delete_rec n \<Rightarrow> CHR 0x00 \<notin> set n
     | Update_rec n r \<Rightarrow> CHR 0x00 \<notin> set n
     | Get_rec n \<Rightarrow> CHR 0x00 \<notin> set n)"

definition header_refined :: "exc + header_out \<times> byte list \<Rightarrow> exc + header_out \<times> header_record list \<Rightarrow> bool" where
  "header_refined c s \<longleftrightarrow> (case s of Inl e \<Rightarrow> c = Inl e | Inr (out, rs) \<Rightarrow> (\<exists>d. c = Inr (out, d) \<and> is_header d rs))"

text \<open>A record is read the same when its 36 bytes have not changed.\<close>

lemma record_at_cong:
  assumes "mem_slice d' (4 + 36 * j) 36 = mem_slice d (4 + 36 * i) 36" and "good_name (fst r)"
    and "4 + 36 * i + 36 \<le> length d" and "4 + 36 * j + 36 \<le> length d'" and "record_at d i r"
  shows "record_at d' j r"
proof -
  obtain n root where r: "r = (n, root)" by (rule prod.exhaust)
  have n: "Suc (length n) \<le> 36" using assms(2) r by (simp add: good_name_def)
  have "mem_slice d' (4 + 36 * j) (Suc (length n)) = mem_slice d (4 + 36 * i) (Suc (length n))"
    using slice_slice [of 0 "Suc (length n)" 36 "4 + 36 * j" d'] slice_slice [of 0 "Suc (length n)" 36 "4 + 36 * i" d] n assms(1,3,4) by simp
  moreover have "word32 d' (36 + 36 * j) = word32 d (36 + 36 * i)"
    using slice_slice [of 32 4 36 "4 + 36 * j" d'] slice_slice [of 32 4 36 "4 + 36 * i" d] assms(1,3,4) by (simp add: word32_def)
  ultimately show ?thesis using assms(5) r by (simp add: record_at_def)
qed

lemma is_headerD:
  assumes "is_header d rs"
  shows "length d = 4096" "length rs \<le> 113" "word32 d 0 = int (length rs)" "distinct (map fst rs)"
    "i < length rs \<Longrightarrow> good_name (fst (rs ! i))" "i < length rs \<Longrightarrow> record_at d i (rs ! i)"
  using assms by (auto simp: is_header_def)

lemma insert_refines:
  assumes h: "is_header d rs" and n: "CHR 0x00 \<notin> set n" and room: "length rs < 113"
  shows "header_refined (header_step (Insert_rec n r) d) (header_spec (Insert_rec n r) rs)"
proof -
  note D = is_headerD [OF h]
  have inv: "sint r > sint INVALID_PAGE_ID \<longleftrightarrow> \<not> sint r < 0" by (auto simp: INVALID_PAGE_ID_def)
  note unf = header_step_def header_spec_def InsertRecord_def assert_that_def GetRecordCount_header [OF h] FindRecord_header [OF h n] rec_index_iff(1)
    header_refined_def inv
  consider "32 \<le> length n \<or> sint r < 0" | "length n < 32" "\<not> sint r < 0" "n \<in> fst ` set rs" | "length n < 32" "\<not> sint r < 0" "n \<notin> fst ` set rs"
    by linarith
  then show ?thesis
  proof cases
    case 3
    let ?m = "length rs"
    define d1 where "d1 = mem_splice d (4 + 36 * ?m) (c_str n)"
    define d2 where "d2 = mem_splice d1 (36 + 36 * ?m) (le_bytes 4 (uint r))"
    define d3 where "d3 = mem_splice d2 0 (le_bytes 4 (int (Suc ?m)))"
    have l: "length d1 = 4096" "length d2 = 4096" "length d3 = 4096" using D(1) room 3(1) by (simp_all add: d1_def d2_def d3_def)
    have e1: "memcpy d (4 + int ?m * 36) (c_str n) = Inr d1"
      using D(1) room 3(1) by (simp add: memcpy_ok d1_def nat_add_distrib nat_mult_distrib mult.commute)
    have e2: "memcpy d1 (4 + int ?m * 36 + 32) (le_bytes 4 (uint r)) = Inr d2"
      using l(1) room by (simp add: memcpy_ok d2_def nat_add_distrib nat_mult_distrib mult.commute add.commute)
    have e3: "SetRecordCount (int ?m + 1) d2 = Inr d3" using l(2) by (simp add: SetRecordCount_def write32_ok d3_def add.commute)
    have step: "header_step (Insert_rec n r) d = Inr (Changed True, d3)" using 3 e1 e2 e3 by (simp add: unf)
    have old: "mem_slice d3 (4 + 36 * i) 36 = mem_slice d (4 + 36 * i) 36" if "i < ?m" for i
      using that D(1) l room 3(1) by (simp add: d3_def d2_def d1_def slice_splice_other)
    have "record_at d3 i (rs ! i)" if "i < ?m" for i
      by (rule record_at_cong [OF old [OF that] D(5) [OF that] _ _ D(6) [OF that]]) (use that room D(1) l in simp_all)
    moreover have "mem_slice d3 (4 + 36 * ?m) (Suc (length n)) = c_str n"
      using slice_splice_same [of "4 + 36 * ?m" "c_str n" d] D(1) l room 3(1) by (simp add: d3_def d2_def d1_def slice_splice_other)
    moreover have "word32 d3 (36 + 36 * ?m) = uint r"
      using l room uint_bounded [of r] by (simp add: d3_def d2_def word32_splice_other word32_splice_same)
    moreover have "word32 d3 0 = int (Suc ?m)" using l(2) room by (simp add: d3_def word32_splice_same)
    ultimately have "is_header d3 (rs @ [(n, r)])"
      using l(3) room D(4,5) 3(1,3) n by (auto simp: is_header_def nth_append less_Suc_eq record_at_def good_name_def)
    then show ?thesis using step 3 by (simp add: unf)
  qed (use h in \<open>auto simp: unf\<close>)
qed

lemma rec_index_at:
  assumes "distinct (map fst rs)" and "n \<in> fst ` set rs"
  obtains i where "i < length rs" and "rec_index n 0 rs = int i" and "fst (rs ! i) = n" and "\<And>j. j < length rs \<Longrightarrow> fst (rs ! j) = n \<longleftrightarrow> j = i"
proof -
  have "rec_index n 0 rs \<noteq> - 1" using assms(2) by (simp add: rec_index_iff(1))
  then obtain i where i: "i < length rs" "rec_index n 0 rs = int i" "fst (rs ! i) = n" using rec_index_iff(2) by force
  then have "fst (rs ! j) = n \<longleftrightarrow> j = i" if "j < length rs" for j
    using assms(1) that nth_eq_iff_index_eq [of "map fst rs" j i] by auto
  then show ?thesis using that i by blast
qed

lemma update_refines:
  assumes h: "is_header d rs" and n: "CHR 0x00 \<notin> set n"
  shows "header_refined (header_step (Update_rec n r) d) (header_spec (Update_rec n r) rs)"
proof -
  note D = is_headerD [OF h]
  note unf = header_step_def header_spec_def UpdateRecord_def assert_that_def FindRecord_header [OF h n] rec_index_iff(1) header_refined_def
  show ?thesis
  proof (cases "length n < 32 \<and> n \<in> fst ` set rs")
    case True
    obtain i where i: "i < length rs" "rec_index n 0 rs = int i" "\<And>j. j < length rs \<Longrightarrow> fst (rs ! j) = n \<longleftrightarrow> j = i"
      by (rule rec_index_at [OF D(4), of n]) (use True that in auto)
    let ?d = "mem_splice d (36 + 36 * i) (le_bytes 4 (uint r))" and ?rs = "map (\<lambda>(m, q). (m, if m = n then r else q)) rs"
    have l: "length ?d = 4096" using D(1,2) i(1) by simp
    have step: "header_step (Update_rec n r) d = Inr (Changed True, ?d)"
      using True i D(1,2) by (simp add: unf memcpy_ok nat_add_distrib nat_mult_distrib mult.commute add.commute)
    have rec: "record_at ?d j (?rs ! j)" if j: "j < length rs" for j
    proof (cases "j = i")
      case False
      then have "mem_slice ?d (4 + 36 * j) 36 = mem_slice d (4 + 36 * j) 36"
        using D(1,2) i(1) j by (intro slice_splice_other) auto
      then have "record_at ?d j (rs ! j)" by (rule record_at_cong [OF _ D(5) [OF j] _ _ D(6) [OF j]]) (use j D(1,2) l in simp_all)
      then show ?thesis using False i(3) [OF j] j by (auto split: prod.splits)
    next
      case True
      obtain m q where rm: "rs ! i = (m, q)" by (rule prod.exhaust)
      have "m = n" "Suc (length m) \<le> 32" "mem_slice d (4 + 36 * i) (Suc (length m)) = c_str m"
        using i(3) [OF i(1)] rm D(5,6) [OF i(1)] by (auto simp: good_name_def record_at_def)
      moreover from this have "mem_slice ?d (4 + 36 * i) (Suc (length m)) = c_str m" using D(1,2) i(1) by (simp add: slice_splice_other)
      moreover have "word32 ?d (36 + 36 * i) = uint r" using D(1,2) i(1) uint_bounded [of r] by (simp add: word32_splice_same)
      ultimately show ?thesis using rm i(1) True by (simp add: record_at_def)
    qed
    have w: "word32 ?d 0 = int (length rs)" using D(1,2,3) i(1) by (simp add: word32_splice_other)
    have mf: "map fst ?rs = map fst rs" by auto
    have "good_name (fst (?rs ! j))" if "j < length rs" for j using D(5) [OF that] that by (simp add: split_beta)
    then have "is_header ?d ?rs" unfolding is_header_def length_map mf using l D(2,4) w rec by blast
    then show ?thesis using step True by (simp add: unf)
  qed (use h in \<open>auto simp: unf\<close>)
qed

lemma get_refines:
  assumes h: "is_header d rs" and n: "CHR 0x00 \<notin> set n"
  shows "header_refined (header_step (Get_rec n) d) (header_spec (Get_rec n) rs)"
proof -
  note D = is_headerD [OF h]
  note unf = header_step_def header_spec_def GetRootId_def assert_that_def FindRecord_header [OF h n] rec_index_iff(1) header_refined_def
  show ?thesis
  proof (cases "length n < 32 \<and> n \<in> fst ` set rs")
    case True
    obtain i where i: "i < length rs" "rec_index n 0 rs = int i" "fst (rs ! i) = n"
      by (rule rec_index_at [OF D(4), of n]) (use True that in auto)
    obtain q where q: "rs ! i = (n, q)" using i(3) by (cases "rs ! i") simp
    then have "map_of rs n = Some q" using i(1) D(4) by (metis map_of_eq_Some_iff nth_mem)
    moreover have "read32 d ((int i + 1) * 36) = Inr (uint q)"
      using D(1,2) D(6) [OF i(1)] i(1) q by (simp add: read32_ok record_at_def nat_add_distrib nat_mult_distrib algebra_simps)
    ultimately show ?thesis using True i h by (simp add: unf)
  next
    case False
    then have "length n < 32 \<Longrightarrow> map_of rs n = None" by (simp add: map_of_eq_None_iff)
    then show ?thesis using h False by (auto simp: unf)
  qed
qed

lemma filter_remove_nth:
  "i < length rs \<Longrightarrow> (\<And>j. j < length rs \<Longrightarrow> P (rs ! j) \<longleftrightarrow> j \<noteq> i) \<Longrightarrow> filter P rs = take i rs @ drop (Suc i) rs"
proof -
  assume i: "i < length rs" and P: "\<And>j. j < length rs \<Longrightarrow> P (rs ! j) \<longleftrightarrow> j \<noteq> i"
  have "\<forall>x \<in> set (take i rs). P x" using P i by (auto simp: in_set_conv_nth)
  moreover have "\<forall>x \<in> set (drop (Suc i) rs). P x" using P i by (auto simp: in_set_conv_nth)
  moreover have "filter P rs = filter P (take i rs @ rs ! i # drop (Suc i) rs)" using i by (simp add: id_take_nth_drop [symmetric])
  ultimately show ?thesis using P [OF i] by (simp add: filter_True)
qed

lemma delete_refines:
  assumes h: "is_header d rs" and n: "CHR 0x00 \<notin> set n"
  shows "header_refined (header_step (Delete_rec n) d) (header_spec (Delete_rec n) rs)"
proof -
  note D = is_headerD [OF h]
  note unf = header_step_def header_spec_def DeleteRecord_def assert_that_def GetRecordCount_header [OF h] FindRecord_header [OF h n] rec_index_iff(1) header_refined_def
  show ?thesis
  proof (cases "n \<in> fst ` set rs")
    case True
    obtain i where i: "i < length rs" "rec_index n 0 rs = int i" "\<And>j. j < length rs \<Longrightarrow> fst (rs ! j) = n \<longleftrightarrow> j = i"
      by (rule rec_index_at [OF D(4) True]) (use that in auto)
    let ?m = "length rs" and ?rs = "take i rs @ drop (Suc i) rs" and ?k = "36 * (length rs - i - 1)"
    have f: "filter (\<lambda>r. fst r \<noteq> n) rs = ?rs" using i by (intro filter_remove_nth) auto
    define d1 where "d1 = mem_splice d (4 + 36 * i) (mem_slice d (40 + 36 * i) ?k)"
    define d2 where "d2 = mem_splice d1 0 (le_bytes 4 (int (?m - 1)))"
    have b: "40 + 36 * i + ?k \<le> 4096" using D(2) i(1) by linarith
    have l: "length d1 = 4096" "length d2 = 4096" using D(1) b by (simp_all add: d1_def d2_def)
    have "memmove d (int i * 36 + 4) (int i * 36 + 4 + 36) (nat ((int ?m - int i - 1) * 36)) = Inr d1"
      using D(1) b i(1) by (simp add: memmove_ok d1_def nat_add_distrib nat_mult_distrib nat_diff_distrib algebra_simps)
    moreover have "SetRecordCount (int ?m - 1) d1 = Inr d2" using l(1) i(1) by (simp add: SetRecordCount_def write32_ok d2_def of_nat_diff)
    ultimately have step: "header_step (Delete_rec n) d = Inr (Changed True, d2)" using True i(1,2) by (auto simp: unf)
    have rec: "record_at d2 j (?rs ! j) \<and> good_name (fst (?rs ! j))" if j: "j < ?m - 1" for j
    proof -
      define j' where "j' = (if j < i then j else Suc j)"
      have j': "j' < ?m" "?rs ! j = rs ! j'" using j i(1) by (auto simp: j'_def nth_append)
      have "mem_slice d2 (4 + 36 * j) 36 = mem_slice d1 (4 + 36 * j) 36" unfolding d2_def using l D(2) j by (intro slice_splice_other) auto
      also have "\<dots> = mem_slice d (4 + 36 * j') 36"
      proof (cases "j < i")
        case True
        then show ?thesis using D(1) b by (simp add: d1_def j'_def slice_splice_other)
      next
        case False
        then have "mem_slice d1 (4 + 36 * j) 36 = mem_slice (mem_slice d (40 + 36 * i) ?k) (4 + 36 * j - (4 + 36 * i)) 36"
          unfolding d1_def using D(1) b j by (intro slice_splice_inside) auto
        also have "\<dots> = mem_slice d (40 + 36 * i + (4 + 36 * j - (4 + 36 * i))) 36" using D(1) b j False by (intro slice_slice) auto
        finally show ?thesis using False by (simp add: j'_def algebra_simps)
      qed
      finally have "record_at d2 j (rs ! j')" by (rule record_at_cong [OF _ D(5) [OF j'(1)] _ _ D(6) [OF j'(1)]]) (use j j' D(1,2) l in simp_all)
      then show ?thesis using j' D(5) by simp
    qed
    have "distinct (map fst ?rs)" using D(4) f by (metis distinct_map_filter)
    moreover have "word32 d2 0 = int (?m - 1)" using l D(2) by (simp add: d2_def word32_splice_same)
    ultimately have "is_header d2 ?rs" using rec l D(2) i(1) by (simp add: is_header_def min_def)
    then show ?thesis using step True f i(1) by (auto simp: unf)
  qed (use h in \<open>auto simp: unf\<close>)
qed

lemma header_step_refines:
  assumes "is_header d rs" and "header_permitted op rs"
  shows "header_refined (header_step op d) (header_spec op rs)"
  using assms insert_refines update_refines delete_refines get_refines by (cases op) (simp_all add: header_permitted_def)

lemma Init_header: "length d = 4096 \<Longrightarrow> \<exists>d'. HeaderPage_Init d = Inr d' \<and> is_header d' []"
  by (simp add: HeaderPage_Init_def SetRecordCount_def write32_ok is_header_def word32_splice_same)

fun header_run :: "header_op list \<Rightarrow> byte list \<Rightarrow> exc + header_out list \<times> byte list" where
  "header_run [] d = Inr ([], d)"
| "header_run (op # ops) d = ebind (header_step op d) (\<lambda>(out, d). ebind (header_run ops d) (\<lambda>(outs, d). Inr (out # outs, d)))"

fun header_spec_run :: "header_op list \<Rightarrow> header_record list \<Rightarrow> exc + header_out list \<times> header_record list" where
  "header_spec_run [] rs = Inr ([], rs)"
| "header_spec_run (op # ops) rs = ebind (header_spec op rs) (\<lambda>(out, rs). ebind (header_spec_run ops rs) (\<lambda>(outs, rs). Inr (out # outs, rs)))"

fun all_header_permitted :: "header_op list \<Rightarrow> header_record list \<Rightarrow> bool" where
  "all_header_permitted [] rs \<longleftrightarrow> True"
| "all_header_permitted (op # ops) rs \<longleftrightarrow> header_permitted op rs \<and>
     (case header_spec op rs of Inl e \<Rightarrow> True | Inr (out, rs) \<Rightarrow> all_header_permitted ops rs)"

lemma header_run_refines:
  assumes "is_header d rs" and "all_header_permitted ops rs"
  shows "case header_spec_run ops rs of Inl e \<Rightarrow> header_run ops d = Inl e | Inr (outs, rs') \<Rightarrow> \<exists>d'. header_run ops d = Inr (outs, d') \<and> is_header d' rs'"
  using assms
proof (induction ops arbitrary: d rs)
  case (Cons op ops)
  have ref: "header_refined (header_step op d) (header_spec op rs)" using header_step_refines Cons.prems by simp
  show ?case
  proof (cases "header_spec op rs")
    case (Inr r)
    obtain out rs1 where r: "r = (out, rs1)" by (rule prod.exhaust)
    then obtain d1 where d1: "header_step op d = Inr (out, d1)" "is_header d1 rs1" using ref Inr by (auto simp: header_refined_def)
    have "all_header_permitted ops rs1" using Cons.prems(2) Inr r by simp
    from Cons.IH [OF d1(2) this] show ?thesis using d1(1) Inr r by (cases "header_spec_run ops rs1") auto
  qed (use ref in \<open>simp add: header_refined_def\<close>)
qed simp

text \<open>C20. The header page is an association list of index names and root pages. After \<^verbatim>\<open>Init\<close> on any page, every
  sequence of insertions, deletions, updates and lookups of names without zero bytes, never more than
  113 records at a time, gives the answers of the list; an assertion fails exactly for a name of 32
  characters or more, an invalid page id or a deletion from the empty page. No access leaves the
  page.\<close>

theorem header_page_refines_records:
  assumes "length d = 4096" and "HeaderPage_Init d = Inr d0" and "all_header_permitted ops []"
  shows "case header_spec_run ops [] of Inl e \<Rightarrow> header_run ops d0 = Inl e | Inr (outs, rs) \<Rightarrow> \<exists>d'. header_run ops d0 = Inr (outs, d')"
  using Init_header [OF assms(1)] header_run_refines [OF _ assms(3)] assms(2) by (fastforce split: sum.splits)

theorem header_page_refines_records_witness:
  "\<exists>d0 d'. HeaderPage_Init (replicate 4096 7) = Inr d0 \<and>
     header_run [Insert_rec ''foo'' 3, Insert_rec ''fo'' 4, Insert_rec ''foo'' 5, Update_rec ''foo'' 6, Delete_rec ''fo'', Get_rec ''foo'', Get_rec ''fo''] d0 =
     Inr ([Changed True, Changed True, Changed False, Changed True, Changed True, Root (Some 6), Root None], d')"
proof -
  let ?ops = "[Insert_rec ''foo'' 3, Insert_rec ''fo'' 4, Insert_rec ''foo'' 5, Update_rec ''foo'' 6, Delete_rec ''fo'', Get_rec ''foo'', Get_rec ''fo'']"
  obtain d0 where d0: "HeaderPage_Init (replicate 4096 7) = Inr d0" using Init_header [of "replicate 4096 7"] by auto
  have "all_header_permitted ?ops []" by (simp add: header_permitted_def header_spec_def)
  then show ?thesis using header_page_refines_records [OF _ d0, of ?ops] d0 by (simp add: header_spec_def)
qed

text \<open>The code never asks whether a record still fits: insertion number 114 writes past the end of the page.\<close>

lemma header_page_overflow:
  assumes "is_header d rs" and "length rs = 113" and "good_name n" and "n \<notin> fst ` set rs" and "0 \<le> sint r"
  shows "InsertRecord n r d = Inl Out_Of_Bounds"
proof -
  have "rec_index n 0 rs = - 1" "\<not> sint r \<le> sint INVALID_PAGE_ID" using assms(4,5) by (simp_all add: rec_index_iff(1) INVALID_PAGE_ID_def)
  then show ?thesis
  proof (cases "memcpy d (4 + 113 * 36) (c_str n)")
    case (Inl e)
    then have "e = Out_Of_Bounds" by (simp add: memcpy_def split: if_splits)
    then show ?thesis using assms Inl \<open>rec_index n 0 rs = - 1\<close> \<open>\<not> sint r \<le> sint INVALID_PAGE_ID\<close>
      by (simp add: InsertRecord_def assert_that_def GetRecordCount_header FindRecord_header good_name_def)
  next
    case (Inr d1)
    then have "length d1 = 4096" using assms(1) by (auto simp: memcpy_def is_header_def split: if_splits)
    then have "memcpy d1 (4 + 113 * 36 + 32) (le_bytes 4 (uint r)) = Inl Out_Of_Bounds" by (simp add: memcpy_def)
    then show ?thesis using assms Inr \<open>rec_index n 0 rs = - 1\<close> \<open>\<not> sint r \<le> sint INVALID_PAGE_ID\<close>
      by (simp add: InsertRecord_def assert_that_def GetRecordCount_header FindRecord_header good_name_def)
  qed
qed

end
