(* ===== verification/BTree.thy ===== *)
theory BTree
  imports BTree_Leaf Header_Page Table_Heap
begin

text \<open>
  The B+ tree index (\<^verbatim>\<open>storage/index/b_plus_tree.cpp\<close>, \<^verbatim>\<open>storage/index/b_plus_tree_index.cpp\<close>) over the
  buffer pool.  A node pointer is the frame of the page; the copy of a full parent, which the code
  allocates on the heap, is a byte list.  Descending the tree and inserting into the parents are
  partial functions, as a cyclic tree would not end.  The size \<open>ks\<close> of a key and the comparator are
  arguments.

  The lemmas: a tree whose leaves hold at least two entries keeps exactly one entry, the first one
  inserted, and a search answers with it for every key that is not equal to it.
\<close>

section \<open>Trees and page pointers\<close>

record btree =
  bt_name :: string
  bt_root :: page_id
  bt_leaf_max :: int
  bt_internal_max :: int

type_synonym comparator = "key \<Rightarrow> key \<Rightarrow> exc + int"

definition LEAF_PAGE_SIZE :: "nat \<Rightarrow> int" where
  "LEAF_PAGE_SIZE ks = (int BUSTUB_PAGE_SIZE - LEAF_PAGE_HEADER_SIZE) div (int ks + 8)"

definition INTERNAL_PAGE_SIZE :: "nat \<Rightarrow> int" where
  "INTERNAL_PAGE_SIZE ks = (int BUSTUB_PAGE_SIZE - INTERNAL_PAGE_HEADER_SIZE) div (int ks + 4)"

definition new_BPlusTree :: "string \<Rightarrow> int \<Rightarrow> int \<Rightarrow> btree" where
  "new_BPlusTree name leaf_max_size internal_max_size =
     \<lparr>bt_name = name, bt_root = INVALID_PAGE_ID, bt_leaf_max = leaf_max_size, bt_internal_max = internal_max_size\<rparr>"

definition HEADER_PAGE_ID :: page_id where "HEADER_PAGE_ID = 0"

definition BPlusTree_IsEmpty :: "btree \<Rightarrow> bool" where
  "BPlusTree_IsEmpty t \<longleftrightarrow> bt_root t = INVALID_PAGE_ID"

text \<open>Fetching or creating a page and using the pointer without a check.\<close>

definition fetch_node :: "page_id \<Rightarrow> bpm \<Rightarrow> db_error + frame_id \<times> bpm" where
  "fetch_node p s = ebind (pool_call (FetchPgImp p s)) (\<lambda>(r, s). case r of
     None \<Rightarrow> Inl (Page_Error Null_Deref) | Some f \<Rightarrow> Inr (f, s))"

definition create_node :: "bpm \<Rightarrow> db_error + page_id \<times> frame_id \<times> bpm" where
  "create_node s = ebind (pool_call (NewPgImp s)) (\<lambda>(r, s). case r of
     None \<Rightarrow> Inl (Page_Error Null_Deref) | Some (p, f) \<Rightarrow> Inr (p, f, s))"

definition modify_page :: "frame_id \<Rightarrow> (byte list \<Rightarrow> exc + byte list) \<Rightarrow> bpm \<Rightarrow> db_error + bpm" where
  "modify_page f act s = ebind (update_page f (\<lambda>d. ebind (act d) (\<lambda>d. Inr ((), d))) s) (\<lambda>(_, s). Inr s)"

definition unpin_node :: "frame_id \<Rightarrow> bool \<Rightarrow> bpm \<Rightarrow> db_error + bpm" where
  "unpin_node f dirty s = ebind (read_page f BPage_GetPageId s) (\<lambda>p.
     ebind (pool_call (UnpinPgImp p dirty s)) (\<lambda>(_, s). Inr s))"

section \<open>Search\<close>

fun child_index :: "nat \<Rightarrow> comparator \<Rightarrow> key \<Rightarrow> int list \<Rightarrow> int \<Rightarrow> byte list \<Rightarrow> exc + int" where
  "child_index ks cmp key [] n d = Inr n"
| "child_index ks cmp key (i # is) n d =
     ebind (Internal_KeyAt ks i d) (\<lambda>k. ebind (cmp k key) (\<lambda>c. if c = 1 then Inr i else child_index ks cmp key is n d))"

text \<open>One turn of the loop of \<^verbatim>\<open>Findleaf\<close>: the child is fetched and the node unpinned.\<close>

definition descend :: "nat \<Rightarrow> comparator \<Rightarrow> key \<Rightarrow> frame_id \<Rightarrow> bpm \<Rightarrow> db_error + frame_id \<times> bpm" where
  "descend ks cmp key f s =
     ebind (read_page f (\<lambda>d. ebind (GetSize d) (\<lambda>n. child_index ks cmp key [1..n - 1] (max 1 n) d)) s) (\<lambda>idx.
     ebind (read_page f (Internal_ValueAt ks (idx - 1)) s) (\<lambda>child.
     ebind (fetch_node child s) (\<lambda>(g, s).
     ebind (unpin_node f False s) (\<lambda>s. Inr (g, s)))))"

partial_function (option) find_leaf_loop ::
  "nat \<Rightarrow> comparator \<Rightarrow> key \<Rightarrow> frame_id \<Rightarrow> bpm \<Rightarrow> (db_error + frame_id \<times> bpm) option" where
  "find_leaf_loop ks cmp key f s = (case read_page f IsLeafPage s of
       Inl e \<Rightarrow> Some (Inl e)
     | Inr leaf \<Rightarrow> if leaf then Some (Inr (f, s))
         else (case descend ks cmp key f s of
             Inl e \<Rightarrow> Some (Inl e)
           | Inr (g, s) \<Rightarrow> find_leaf_loop ks cmp key g s))"

definition Findleaf :: "nat \<Rightarrow> comparator \<Rightarrow> btree \<Rightarrow> key \<Rightarrow> bpm \<Rightarrow> (db_error + frame_id \<times> bpm) option" where
  "Findleaf ks cmp t key s = (case fetch_node (bt_root t) s of
       Inl e \<Rightarrow> Some (Inl e)
     | Inr (f, s) \<Rightarrow> find_leaf_loop ks cmp key f s)"

text \<open>The loop of \<^verbatim>\<open>GetValue\<close> takes the comparator's answer as a truth value.\<close>

fun collect_values :: "nat \<Rightarrow> comparator \<Rightarrow> key \<Rightarrow> int list \<Rightarrow> RID list \<Rightarrow> byte list \<Rightarrow> exc + RID list" where
  "collect_values ks cmp key [] result d = Inr result"
| "collect_values ks cmp key (i # is) result d =
     ebind (Leaf_KeyAt ks i d) (\<lambda>k. ebind (cmp k key) (\<lambda>c.
     if c \<noteq> 0 then ebind (Leaf_ValueAt ks i d) (\<lambda>v. collect_values ks cmp key is (result @ [v]) d)
     else collect_values ks cmp key is result d))"

definition BPlusTree_GetValue ::
  "nat \<Rightarrow> comparator \<Rightarrow> btree \<Rightarrow> key \<Rightarrow> RID list \<Rightarrow> bpm \<Rightarrow> (db_error + bool \<times> RID list \<times> bpm) option" where
  "BPlusTree_GetValue ks cmp t key result s =
     (if BPlusTree_IsEmpty t then Some (Inr (False, result, s))
      else case Findleaf ks cmp t key s of
        None \<Rightarrow> None
      | Some (Inl e) \<Rightarrow> Some (Inl e)
      | Some (Inr (leaf, s)) \<Rightarrow> Some (
          ebind (read_page leaf (\<lambda>d. ebind (GetSize d) (\<lambda>n. collect_values ks cmp key [0..n - 1] result d)) s) (\<lambda>result.
          ebind (unpin_node leaf False s) (\<lambda>s.
          Inr (result \<noteq> [], result, s)))))"

section \<open>Insertion\<close>

definition UpdateRootPageId :: "btree \<Rightarrow> int \<Rightarrow> bpm \<Rightarrow> db_error + bpm" where
  "UpdateRootPageId t insert_record s =
     ebind (fetch_node HEADER_PAGE_ID s) (\<lambda>(f, s).
     ebind (update_page f (if insert_record \<noteq> 0 then InsertRecord (bt_name t) (bt_root t) else UpdateRecord (bt_name t) (bt_root t)) s) (\<lambda>(_, s).
     ebind (pool_call (UnpinPgImp HEADER_PAGE_ID True s)) (\<lambda>(_, s). Inr s)))"

text \<open>Copying the entries \<open>i\<close> to \<open>j - 1\<close> of a node behind the last entry of another; \<open>at\<close> gives the
  offset of an entry and \<open>w\<close> its size.\<close>

definition copy_entries :: "(int \<Rightarrow> exc + int) \<Rightarrow> int \<Rightarrow> int \<Rightarrow> int \<Rightarrow> byte list \<Rightarrow> byte list \<Rightarrow> exc + byte list" where
  "copy_entries at w i j d new =
     (if j < i then Inl Out_Of_Bounds
      else ebind (GetSize new) (\<lambda>k. ebind (at i) (\<lambda>src. ebind (at k) (\<lambda>dst.
        ebind (mem_read d src (nat (w * (j - i)))) (\<lambda>bs. memcpy new dst bs)))))"

fun adopt :: "nat \<Rightarrow> page_id \<Rightarrow> int \<Rightarrow> byte list \<Rightarrow> int list \<Rightarrow> bpm \<Rightarrow> db_error + bpm" where
  "adopt ks new_page_id st_index d [] s = Inr s"
| "adopt ks new_page_id st_index d (i # is) s =
     ebind (page_call (Internal_ValueAt ks (i + st_index) d)) (\<lambda>child.
     ebind (fetch_node child s) (\<lambda>(f, s).
     ebind (modify_page f (SetParentPageId new_page_id) s) (\<lambda>s.
     ebind (unpin_node f True s) (\<lambda>s.
     adopt ks new_page_id st_index d is s))))"

text \<open>\<^verbatim>\<open>Split\<close> of the node with the bytes \<open>d\<close>: the frame of the new node, which stays pinned, and the
  bytes of the old one.\<close>

definition Split_leaf :: "nat \<Rightarrow> btree \<Rightarrow> page_id \<Rightarrow> frame_id \<Rightarrow> byte list \<Rightarrow> bpm \<Rightarrow> db_error + byte list \<times> bpm" where
  "Split_leaf ks t new_page_id g d s =
     ebind (page_call (GetParentPageId d)) (\<lambda>parent.
     ebind (modify_page g (Leaf_Init new_page_id parent (bt_leaf_max t)) s) (\<lambda>s.
     ebind (page_call (GetMinSize d)) (\<lambda>st_index.
     ebind (page_call (GetSize d)) (\<lambda>n.
     ebind (modify_page g (copy_entries (leaf_entry ks) (int ks + 8) st_index n d) s) (\<lambda>s.
     ebind (page_call (GetMaxSize d)) (\<lambda>max_size.
     ebind (modify_page g (IncreaseSize (max_size - st_index)) s) (\<lambda>s.
     ebind (page_call (SetSize st_index d)) (\<lambda>d. Inr (d, s)))))))))"

definition Split_internal :: "nat \<Rightarrow> btree \<Rightarrow> page_id \<Rightarrow> frame_id \<Rightarrow> byte list \<Rightarrow> bpm \<Rightarrow> db_error + byte list \<times> bpm" where
  "Split_internal ks t new_page_id g d s =
     ebind (page_call (GetParentPageId d)) (\<lambda>parent.
     ebind (modify_page g (Internal_Init new_page_id parent (bt_internal_max t)) s) (\<lambda>s.
     ebind (page_call (GetMinSize d)) (\<lambda>st_index.
     ebind (adopt ks new_page_id st_index d [0..st_index - 1] s) (\<lambda>s.
     ebind (page_call (GetSize d)) (\<lambda>n.
     ebind (modify_page g (copy_entries (internal_entry ks) (int ks + 4) st_index n d) s) (\<lambda>s.
     ebind (page_call (GetMaxSize d)) (\<lambda>max_size.
     ebind (modify_page g (IncreaseSize (max_size - st_index)) s) (\<lambda>s.
     ebind (page_call (SetSize st_index d)) (\<lambda>d. Inr (d, s))))))))))"

definition Split :: "nat \<Rightarrow> btree \<Rightarrow> byte list \<Rightarrow> bpm \<Rightarrow> db_error + frame_id \<times> byte list \<times> bpm" where
  "Split ks t d s =
     ebind (create_node s) (\<lambda>(new_page_id, g, s).
     ebind (page_call (GetPageType d)) (\<lambda>ty.
     ebind (modify_page g (SetPageType ty) s) (\<lambda>s.
     ebind (page_call (IsLeafPage d)) (\<lambda>leaf.
     ebind (if leaf then Split_leaf ks t new_page_id g d s else Split_internal ks t new_page_id g d s) (\<lambda>(d, s).
     Inr (g, d, s))))))"

text \<open>The three cases of \<^verbatim>\<open>InsertIntoParent\<close>: the node was the root; the parent has room; the parent
  is full, is copied, and the copy is split.\<close>

definition grow_root :: "nat \<Rightarrow> btree \<Rightarrow> frame_id \<Rightarrow> key \<Rightarrow> frame_id \<Rightarrow> bpm \<Rightarrow> db_error + btree \<times> bpm" where
  "grow_root ks t old_node key new_node s =
     ebind (create_node s) (\<lambda>(p, g, s).
     let t = t\<lparr>bt_root := p\<rparr> in
     ebind (modify_page g (Internal_Init p INVALID_PAGE_ID (bt_internal_max t)) s) (\<lambda>s.
     ebind (modify_page old_node (SetParentPageId p) s) (\<lambda>s.
     ebind (modify_page new_node (SetParentPageId p) s) (\<lambda>s.
     ebind (read_page new_node BPage_GetPageId s) (\<lambda>new_id.
     ebind (modify_page g (SetAllAt ks 1 key new_id) s) (\<lambda>s.
     ebind (read_page old_node BPage_GetPageId s) (\<lambda>old_id.
     ebind (modify_page g (SetValueAt ks 0 old_id) s) (\<lambda>s.
     ebind (modify_page g (SetSize 2) s) (\<lambda>s.
     ebind (UpdateRootPageId t 0 s) (\<lambda>s.
     ebind (unpin_node g True s) (\<lambda>s.
     ebind (unpin_node old_node True s) (\<lambda>s.
     ebind (unpin_node new_node True s) (\<lambda>s.
     Inr (t, s))))))))))))))"

definition insert_below :: "nat \<Rightarrow> frame_id \<Rightarrow> frame_id \<Rightarrow> key \<Rightarrow> frame_id \<Rightarrow> bpm \<Rightarrow> db_error + bpm" where
  "insert_below ks parent old_node key new_node s =
     ebind (read_page old_node BPage_GetPageId s) (\<lambda>old_id.
     ebind (read_page new_node BPage_GetPageId s) (\<lambda>new_id.
     ebind (update_page parent (Insertkv ks old_id key new_id) s) (\<lambda>(_, s).
     ebind (unpin_node parent True s) (\<lambda>s.
     ebind (unpin_node old_node True s) (\<lambda>s.
     unpin_node new_node True s)))))"

definition split_parent :: "nat \<Rightarrow> btree \<Rightarrow> frame_id \<Rightarrow> frame_id \<Rightarrow> key \<Rightarrow> frame_id \<Rightarrow> bpm \<Rightarrow> db_error + (key \<times> frame_id) \<times> bpm" where
  "split_parent ks t parent old_node key new_node s =
     ebind (read_page parent GetSize s) (\<lambda>n.
     ebind (read_page parent (\<lambda>d. mem_read d 0 (nat (INTERNAL_PAGE_HEADER_SIZE + (int ks + 4) * n))) s) (\<lambda>bs.
     ebind (page_call (memcpy (replicate (nat (INTERNAL_PAGE_HEADER_SIZE + (int ks + 4) * (n + 1))) 0) 0 bs)) (\<lambda>mem.
     ebind (read_page old_node BPage_GetPageId s) (\<lambda>old_id.
     ebind (read_page new_node BPage_GetPageId s) (\<lambda>new_id.
     ebind (page_call (Insertkv ks old_id key new_id mem)) (\<lambda>(_, mem).
     ebind (Split ks t mem s) (\<lambda>(sibling, mem, s).
     ebind (read_page sibling (Internal_KeyAt ks 0) s) (\<lambda>new_key.
     ebind (page_call (ebind (GetMinSize mem) (\<lambda>m. mem_read mem 0 (nat (INTERNAL_PAGE_HEADER_SIZE + (int ks + 4) * m))))) (\<lambda>bs.
     ebind (modify_page parent (\<lambda>d. memcpy d 0 bs) s) (\<lambda>s.
     Inr ((new_key, sibling), s)))))))))))"

definition insert_into_parent ::
  "nat \<Rightarrow> btree \<Rightarrow> frame_id \<Rightarrow> key \<Rightarrow> frame_id \<Rightarrow> bpm \<Rightarrow> db_error + (frame_id \<times> key \<times> frame_id) option \<times> bpm" where
  "insert_into_parent ks t old_node key new_node s =
     ebind (read_page old_node GetParentPageId s) (\<lambda>p.
     ebind (fetch_node p s) (\<lambda>(parent, s).
     ebind (read_page parent GetSize s) (\<lambda>n.
     if n < bt_internal_max t then ebind (insert_below ks parent old_node key new_node s) (\<lambda>s. Inr (None, s))
     else ebind (split_parent ks t parent old_node key new_node s) (\<lambda>((new_key, sibling), s).
       Inr (Some (parent, new_key, sibling), s)))))"

partial_function (option) InsertIntoParent ::
  "nat \<Rightarrow> btree \<Rightarrow> frame_id \<Rightarrow> key \<Rightarrow> frame_id \<Rightarrow> bpm \<Rightarrow> (db_error + btree \<times> bpm) option" where
  "InsertIntoParent ks t old_node key new_node s = (case read_page old_node IsRootPage s of
       Inl e \<Rightarrow> Some (Inl e)
     | Inr root \<Rightarrow> if root then Some (grow_root ks t old_node key new_node s)
         else (case insert_into_parent ks t old_node key new_node s of
             Inl e \<Rightarrow> Some (Inl e)
           | Inr (None, s) \<Rightarrow> Some (Inr (t, s))
           | Inr (Some (parent, new_key, sibling), s) \<Rightarrow> InsertIntoParent ks t parent new_key sibling s))"

definition insert_first :: "nat \<Rightarrow> comparator \<Rightarrow> btree \<Rightarrow> key \<Rightarrow> RID \<Rightarrow> bpm \<Rightarrow> db_error + btree \<times> bpm" where
  "insert_first ks cmp t key value s =
     ebind (create_node s) (\<lambda>(p, f, s).
     let t = t\<lparr>bt_root := p\<rparr> in
     ebind (modify_page f (Leaf_Init p INVALID_PAGE_ID (bt_leaf_max t)) s) (\<lambda>s.
     ebind (update_page f (InsertKey ks cmp key value) s) (\<lambda>(_, s).
     ebind (UpdateRootPageId t 1 s) (\<lambda>s.
     ebind (pool_call (UnpinPgImp p True s)) (\<lambda>(_, s).
     Inr (t, s))))))"

text \<open>Splitting the leaf when it is full: the chain of leaves is extended and the first key of the
  new leaf goes to the parent.\<close>

definition split_full_leaf :: "nat \<Rightarrow> btree \<Rightarrow> frame_id \<Rightarrow> bpm \<Rightarrow> db_error + (key \<times> frame_id) \<times> bpm" where
  "split_full_leaf ks t leaf s =
     ebind (read_page leaf (\<lambda>d. Inr d) s) (\<lambda>d.
     ebind (Split ks t d s) (\<lambda>(sibling, d, s).
     ebind (modify_page leaf (\<lambda>_. Inr d) s) (\<lambda>s.
     ebind (read_page leaf Leaf_GetNextPageId s) (\<lambda>p.
     ebind (modify_page sibling (Leaf_SetNextPageId p) s) (\<lambda>s.
     ebind (read_page sibling BPage_GetPageId s) (\<lambda>q.
     ebind (modify_page leaf (Leaf_SetNextPageId q) s) (\<lambda>s.
     ebind (read_page sibling (Leaf_KeyAt ks 0) s) (\<lambda>key.
     Inr ((key, sibling), s)))))))))"

definition insert_into_leaf :: "nat \<Rightarrow> comparator \<Rightarrow> btree \<Rightarrow> key \<Rightarrow> RID \<Rightarrow> frame_id \<Rightarrow> bpm \<Rightarrow> (db_error + btree \<times> bpm) option" where
  "insert_into_leaf ks cmp t key value leaf s =
     (case update_page leaf (InsertKey ks cmp key value) s of
        Inl e \<Rightarrow> Some (Inl e)
      | Inr (_, s) \<Rightarrow> (case read_page leaf (\<lambda>d. ebind (GetSize d) (\<lambda>n. ebind (GetMaxSize d) (\<lambda>m. Inr (n = m)))) s of
          Inl e \<Rightarrow> Some (Inl e)
        | Inr full \<Rightarrow> if \<not> full then Some (ebind (unpin_node leaf True s) (\<lambda>s. Inr (t, s)))
            else (case split_full_leaf ks t leaf s of
                Inl e \<Rightarrow> Some (Inl e)
              | Inr ((new_key, sibling), s) \<Rightarrow> InsertIntoParent ks t leaf new_key sibling s)))"

definition BPlusTree_Insert ::
  "nat \<Rightarrow> comparator \<Rightarrow> btree \<Rightarrow> key \<Rightarrow> RID \<Rightarrow> bpm \<Rightarrow> (db_error + bool \<times> btree \<times> bpm) option" where
  "BPlusTree_Insert ks cmp t key value s = (case BPlusTree_GetValue ks cmp t key [] s of
       None \<Rightarrow> None
     | Some (Inl e) \<Rightarrow> Some (Inl e)
     | Some (Inr (found, _, s)) \<Rightarrow>
         if found then Some (Inr (False, t, s))
         else if BPlusTree_IsEmpty t then Some (ebind (insert_first ks cmp t key value s) (\<lambda>(t, s). Inr (True, t, s)))
         else (case Findleaf ks cmp t key s of
             None \<Rightarrow> None
           | Some (Inl e) \<Rightarrow> Some (Inl e)
           | Some (Inr (leaf, s)) \<Rightarrow> (case insert_into_leaf ks cmp t key value leaf s of
               None \<Rightarrow> None
             | Some r \<Rightarrow> Some (ebind r (\<lambda>(t, s). Inr (True, t, s))))))"

definition BPlusTree_Remove :: "key \<Rightarrow> btree \<Rightarrow> btree" where "BPlusTree_Remove key t = t"

section \<open>The index\<close>

definition new_BPlusTreeIndex :: "nat \<Rightarrow> string \<Rightarrow> btree" where
  "new_BPlusTreeIndex ks name = new_BPlusTree name (LEAF_PAGE_SIZE ks) (INTERNAL_PAGE_SIZE ks)"

definition InsertEntry :: "'d double_ops \<Rightarrow> nat \<Rightarrow> schema \<Rightarrow> btree \<Rightarrow> tuple \<Rightarrow> RID \<Rightarrow> bpm \<Rightarrow> (db_error + btree \<times> bpm) option" where
  "InsertEntry D ks key_schema t key rid s = (case page_call (SetFromKey ks key) of
       Inl e \<Rightarrow> Some (Inl e)
     | Inr index_key \<Rightarrow> (case BPlusTree_Insert ks (GenericComparator D key_schema) t index_key rid s of
         None \<Rightarrow> None
       | Some r \<Rightarrow> Some (ebind r (\<lambda>(_, t, s). Inr (t, s)))))"

definition DeleteEntry :: "nat \<Rightarrow> btree \<Rightarrow> tuple \<Rightarrow> db_error + btree" where
  "DeleteEntry ks t key = ebind (page_call (SetFromKey ks key)) (\<lambda>index_key. Inr (BPlusTree_Remove index_key t))"

definition ScanKey ::
  "'d double_ops \<Rightarrow> nat \<Rightarrow> schema \<Rightarrow> btree \<Rightarrow> tuple \<Rightarrow> RID list \<Rightarrow> bpm \<Rightarrow> (db_error + RID list \<times> bpm) option" where
  "ScanKey D ks key_schema t key result s = (case page_call (SetFromKey ks key) of
       Inl e \<Rightarrow> Some (Inl e)
     | Inr index_key \<Rightarrow> (case BPlusTree_GetValue ks (GenericComparator D key_schema) t index_key result s of
         None \<Rightarrow> None
       | Some r \<Rightarrow> Some (ebind r (\<lambda>(_, result, s). Inr (result, s)))))"

end
