(* ===== verification/BTree_Spec.thy ===== *)
theory BTree_Spec
  imports BTree Table_Heap_Scan
begin

text \<open>
  What the B+ tree does as it is written.  \<^verbatim>\<open>GetValue\<close> takes an entry when the comparator's answer is
  not zero, that is, when the keys differ.  So the tree never holds more than the first entry
  inserted; the lemmas follow the calls through the buffer pool and the header page.
\<close>

section \<open>The state of a tree\<close>

definition root_leaf :: "btree \<Rightarrow> entry \<Rightarrow> leaf" where
  "root_leaf t e = \<lparr>lf_id = bt_root t, lf_parent = INVALID_PAGE_ID, lf_next = INVALID_PAGE_ID, lf_max = bt_leaf_max t, lf_entries = [e]\<rparr>"

definition holds :: "nat \<Rightarrow> btree \<Rightarrow> cache \<Rightarrow> entry option \<Rightarrow> bool" where
  "holds ks t a m = (case m of
       None \<Rightarrow> bt_root t = INVALID_PAGE_ID
     | Some e \<Rightarrow> bt_root t \<noteq> INVALID_PAGE_ID \<and> bt_root t \<noteq> HEADER_PAGE_ID \<and> bt_root t \<in> c_live a \<and> bt_root t \<notin> c_touched a \<and>
         is_leaf ks (c_data a (bt_root t)) (root_leaf t e))"

lemma root_leaf_simps [simp]:
  "lf_id (root_leaf t e) = bt_root t" "lf_parent (root_leaf t e) = INVALID_PAGE_ID" "lf_next (root_leaf t e) = INVALID_PAGE_ID"
  "lf_max (root_leaf t e) = bt_leaf_max t" "lf_entries (root_leaf t e) = [e]"
  by (simp_all add: root_leaf_def)

section \<open>Header fields of a leaf\<close>

lemma get_pid_ok: "0 \<le> off \<Longrightarrow> nat off + 4 \<le> length d \<Longrightarrow> word32 d (nat off) = uint p \<Longrightarrow> get_pid d off = Inr p"
  by (simp add: get_pid_def read32_ok)

lemma leaf_fields:
  assumes "is_leaf ks d l"
  shows "IsLeafPage d = Inr True" "BPage_GetPageId d = Inr (lf_id l)" "GetMaxSize d = Inr (lf_max l)"
    "GetParentPageId d = Inr (lf_parent l)" "Leaf_GetNextPageId d = Inr (lf_next l)" "GetPageType d = Inr LEAF_PAGE"
proof -
  note l = is_leafD [OF assms]
  show t: "GetPageType d = Inr LEAF_PAGE" using l get_int_ok [of 0 d] by (simp add: GetPageType_def LEAF_PAGE_def)
  show "IsLeafPage d = Inr True" by (simp add: IsLeafPage_def t)
  show "GetMaxSize d = Inr (lf_max l)" using l get_int_ok [of 12 d] by (simp add: GetMaxSize_def)
  show "BPage_GetPageId d = Inr (lf_id l)" "GetParentPageId d = Inr (lf_parent l)" "Leaf_GetNextPageId d = Inr (lf_next l)"
    using l get_pid_ok [of 20 d] get_pid_ok [of 16 d] get_pid_ok [of 24 d]
    by (simp_all add: BPage_GetPageId_def GetParentPageId_def Leaf_GetNextPageId_def)
qed

lemma holdsD:
  assumes "holds ks t a (Some e)"
  shows "bt_root t \<in> c_live a" "bt_root t \<notin> c_touched a" "\<not> BPlusTree_IsEmpty t" "bt_root t \<noteq> HEADER_PAGE_ID"
    "is_leaf ks (c_data a (bt_root t)) (root_leaf t e)"
  using assms by (simp_all add: holds_def BPlusTree_IsEmpty_def)

section \<open>Search\<close>

lemma find_leaf_loop_leaf:
  "page_data f s = Inr d \<Longrightarrow> is_leaf ks d l \<Longrightarrow> find_leaf_loop ks cmp key f s = Some (Inr (f, s))"
  by (subst find_leaf_loop.simps) (simp add: read_page_eq leaf_fields)

lemma collect_one:
  assumes "is_leaf ks d l" and "lf_entries l = [(k, r)]" and "cmp k key = Inr c"
  shows "ebind (GetSize d) (\<lambda>n. collect_values ks cmp key [0..n - 1] res d) = Inr (res @ (if c \<noteq> 0 then [r] else []))"
  using leaf_GetSize [OF assms(1)] leaf_KeyAt [OF assms(1), of 0] leaf_ValueAt [OF assms(1), of 0] assms(2,3)
  by simp

lemma GetValue_one:
  assumes pool: "pool_ok n s a" "spare n 1 a" and h: "holds ks t a (Some (k, r))" and c: "cmp k key = Inr c"
  shows "\<exists>s'. BPlusTree_GetValue ks cmp t key res s =
      Some (Inr (res @ (if c \<noteq> 0 then [r] else []) \<noteq> [], res @ (if c \<noteq> 0 then [r] else []), s')) \<and> pool_ok n s' a"
proof -
  note h = holdsD [OF h]
  obtain f s1 s2 where s: "FetchPgImp (bt_root t) s = Inr (Some f, s1)" "page_data f s1 = Inr (c_data a (bt_root t))"
      "UnpinPgImp (bt_root t) False s1 = Inr (True, s2)" "pool_ok n s2 a"
    by (rule pool.read_session [OF pool(1) h(1,2) pool(2)])
  have "Findleaf ks cmp t key s = Some (Inr (f, s1))"
    using s(1) find_leaf_loop_leaf [OF s(2) h(5)] by (simp add: Findleaf_def fetch_node_def)
  then show ?thesis
    using s collect_one [where cmp = cmp and key = key and r = r and res = res, OF h(5) _ c] leaf_fields(2) [OF h(5)] h(3)
    by (simp add: BPlusTree_GetValue_def read_page_eq unpin_node_def)
qed

lemma GetValue_empty: "holds ks t a None \<Longrightarrow> BPlusTree_GetValue ks cmp t key res s = Some (Inr (False, res, s))"
  by (simp add: holds_def BPlusTree_GetValue_def BPlusTree_IsEmpty_def)

section \<open>Insertion\<close>

lemma InsertKey_equal:
  assumes l: "is_leaf ks d l" and e: "lf_entries l = [(k, r)]" and c: "cmp k key = Inr 0"
  shows "InsertKey ks cmp key v d = Inr (True, d)"
proof -
  have "KeyIndex ks cmp key d = Inr 0"
    using leaf_GetSize [OF l] leaf_KeyAt [OF l, of 0] e c by (simp add: KeyIndex_def lower_bound.simps)
  then show ?thesis using leaf_GetSize [OF l] leaf_KeyAt [OF l, of 0] e c by (simp add: InsertKey_def)
qed

lemma Insert_one_equal:
  assumes pool: "pool_ok n s a" "spare n 1 a" and h: "holds ks t a (Some (k, r))" and c: "cmp k key = Inr 0"
    and m: "2 \<le> bt_leaf_max t"
  shows "\<exists>s'. BPlusTree_Insert ks cmp t key v s = Some (Inr (True, t, s')) \<and> pool_ok n s' a"
proof -
  note h' = holdsD [OF h]
  let ?p = "bt_root t"
  obtain s0 where g: "BPlusTree_GetValue ks cmp t key [] s = Some (Inr (False, [], s0))" and s0: "pool_ok n s0 a"
    using GetValue_one [where cmp = cmp and key = key and res = "[]", OF pool h c] by auto
  obtain f s1 where s1: "FetchPgImp ?p s0 = Inr (Some f, s1)" "pool_ok n s1 (pin_page ?p a)" "table_find ?p s1 = Some f"
      "page_data f s1 = Inr (c_data a ?p)"
    by (rule pool.fetch_ok [OF s0 h'(1) pool(2)])
  have "\<exists>s2. UnpinPgImp ?p True s1 = Inr (True, s2) \<and> pool_ok n s2 (unpin_page ?p True (pin_page ?p a))"
    using pool.unpin_law [OF s1(2), of ?p True] h'(1) pool.pins_nonneg [OF s0 h'(1)] by auto
  then obtain s2 where s2: "UnpinPgImp ?p True s1 = Inr (True, s2)" "pool_ok n s2 a"
    using h'(2) by (auto simp: cache_ops)
  have leaf: "Findleaf ks cmp t key s0 = Some (Inr (f, s1))"
    using s1(1) find_leaf_loop_leaf [OF s1(4) h'(5)] by (simp add: Findleaf_def fetch_node_def)
  have "update_page f (InsertKey ks cmp key v) s1 = Inr (True, s1)"
    using update_page_eq [where act = "InsertKey ks cmp key v", OF s1(4) InsertKey_equal [where cmp = cmp and key = key, OF h'(5) _ c]] client_store_same [OF s1(4)] by simp
  then have "insert_into_leaf ks cmp t key v f s1 = Some (Inr (t, s2))"
    using s1(4) s2(1) leaf_fields [OF h'(5)] leaf_GetSize [OF h'(5)] m by (simp add: insert_into_leaf_def read_page_eq unpin_node_def)
  then show ?thesis using g leaf h'(3) s2(2) by (simp add: BPlusTree_Insert_def)
qed

lemma Insert_one_other:
  assumes pool: "pool_ok n s a" "spare n 1 a" and h: "holds ks t a (Some (k, r))" and c: "cmp k key = Inr c" "c \<noteq> 0"
  shows "\<exists>s'. BPlusTree_Insert ks cmp t key v s = Some (Inr (False, t, s')) \<and> pool_ok n s' a"
  using GetValue_one [where cmp = cmp and key = key and res = "[]", OF pool h c(1)] c(2) by (auto simp: BPlusTree_Insert_def)

text \<open>The first insertion: a new root leaf, and a record in the header page.\<close>

lemma InsertKey_empty:
  assumes l: "is_leaf ks d l" and e: "lf_entries l = []" and k: "length k = ks" and fits: "28 + (ks + 8) \<le> 4096"
  shows "\<exists>d'. InsertKey ks cmp k v d = Inr (True, d') \<and> is_leaf ks d' (l\<lparr>lf_entries := [(k, v)]\<rparr>)"
proof -
  have "KeyIndex ks cmp k d = Inr 0" using leaf_GetSize [OF l] e by (simp add: KeyIndex_def lower_bound.simps)
  then show ?thesis
    using leaf_GetSize [OF l] e k fits append_entry [OF l, of 0 "(k, v)"] IncreaseSize_opened [OF l, of 0 0 "(k, v)"]
      insert_at_leaf [OF l, of 0 0 "(k, v)"]
    by (simp add: InsertKey_def insert_at_def)
qed

definition add_record :: "string \<Rightarrow> page_id \<Rightarrow> header_record list \<Rightarrow> header_record list" where
  "add_record n p rs = (if n \<in> fst ` set rs then rs else rs @ [(n, p)])"

lemma InsertRecord_ok:
  assumes h: "is_header d rs" and n: "good_name n" and room: "length rs < 113" and p: "0 \<le> sint p"
  shows "\<exists>b d'. InsertRecord n p d = Inr (b, d') \<and> is_header d' (add_record n p rs)"
proof -
  have "CHR 0x00 \<notin> set n" "length n < 32" using n by (simp_all add: good_name_def)
  then have "header_refined (header_step (Insert_rec n p) d) (Inr (Changed (n \<notin> fst ` set rs), add_record n p rs))"
    using insert_refines [OF h _ room, of n p] p by (simp add: header_spec_def add_record_def split: if_splits)
  then show ?thesis by (cases "InsertRecord n p d") (auto simp: header_refined_def header_step_def)
qed

lemma spare_add: "spare n (Suc k) a \<Longrightarrow> spare n k (add_page a)"
proof -
  assume "spare n (Suc k) a"
  moreover have "pinned_pages (add_page a) \<subseteq> insert (c_next a) (pinned_pages a)" by (auto simp: pinned_pages_def split: if_splits)
  then have "card (pinned_pages (add_page a)) \<le> card (insert (c_next a) (pinned_pages a))" by (intro card_mono) simp_all
  then have "card (pinned_pages (add_page a)) \<le> Suc (card (pinned_pages a))" by (simp add: card_insert_if split: if_splits)
  ultimately show ?thesis by (simp add: spare_def)
qed

text \<open>The cache after the first insertion, and the header page in it.\<close>

definition planted :: "page_id \<Rightarrow> byte list \<Rightarrow> byte list \<Rightarrow> cache \<Rightarrow> cache \<Rightarrow> bool" where
  "planted p d h a a' \<longleftrightarrow> c_live a' = insert p (c_live a) \<and> c_data a' = (c_data a)(p := d, HEADER_PAGE_ID := h) \<and>
     c_touched a' = c_touched a - {p} \<and> c_pins a' = (c_pins a)(p := 0) \<and> c_next a' = p + 1"

lemma UpdateRootPageId_insert:
  assumes pool: "pool_ok n s a" "spare n 1 a" and h: "HEADER_PAGE_ID \<in> c_live a" "HEADER_PAGE_ID \<notin> c_touched a"
    "is_header (c_data a HEADER_PAGE_ID) rs" "length rs < 113" and t: "good_name (bt_name t)" "0 \<le> sint (bt_root t)"
  shows "\<exists>x s'. UpdateRootPageId t 1 s = Inr s' \<and> pool_ok n s' (a\<lparr>c_data := (c_data a)(HEADER_PAGE_ID := x)\<rparr>) \<and>
    is_header x (add_record (bt_name t) (bt_root t) rs)"
proof -
  obtain b x where x: "InsertRecord (bt_name t) (bt_root t) (c_data a HEADER_PAGE_ID) = Inr (b, x)"
      "is_header x (add_record (bt_name t) (bt_root t) rs)"
    using InsertRecord_ok [OF h(3) t(1) h(4) t(2)] by blast
  have len: "length x = BUSTUB_PAGE_SIZE" using is_headerD(1) [OF x(2)] by (simp add: BUSTUB_PAGE_SIZE_def)
  obtain f s1 s2 where s: "FetchPgImp HEADER_PAGE_ID s = Inr (Some f, s1)" "page_data f s1 = Inr (c_data a HEADER_PAGE_ID)"
      "UnpinPgImp HEADER_PAGE_ID True (client_store f x s1) = Inr (True, s2)" "pool_ok n s2 (a\<lparr>c_data := (c_data a)(HEADER_PAGE_ID := x)\<rparr>)"
    by (rule pool.write_session [OF pool(1) h(1,2) pool(2) len])
  then show ?thesis using x update_page_eq [where act = "InsertRecord (bt_name t) (bt_root t)", OF s(2) x(1)]
    by (auto simp: UpdateRootPageId_def fetch_node_def)
qed

lemma insert_first_ok:
  assumes pool: "pool_ok n s a" "spare n 2 a" "unat (c_next a) < 524287" and h: "HEADER_PAGE_ID \<in> c_live a" "HEADER_PAGE_ID \<notin> c_touched a"
    "is_header (c_data a HEADER_PAGE_ID) rs" "length rs < 113" and t: "good_name (bt_name t)" "0 \<le> bt_leaf_max t" "bt_leaf_max t < 2147483648"
    and k: "length k = ks" "28 + (ks + 8) \<le> 4096"
  shows "\<exists>d x s' a'. insert_first ks cmp t k v s = Inr (t\<lparr>bt_root := c_next a\<rparr>, s') \<and> pool_ok n s' a' \<and> planted (c_next a) d x a a' \<and>
    c_next a \<notin> c_live a \<and> is_leaf ks d (root_leaf (t\<lparr>bt_root := c_next a\<rparr>) (k, v)) \<and> is_header x (add_record (bt_name t) (c_next a) rs)"
proof -
  let ?p = "c_next a"
  let ?t = "t\<lparr>bt_root := ?p\<rparr>"
  obtain f s1 where s1: "NewPgImp s = Inr (Some (?p, f), s1)" "?p \<notin> c_live a" "pool_ok n s1 (add_page a)" "table_find ?p s1 = Some f"
      "page_data f s1 = Inr zero_page"
    by (rule pool.create_ok [OF pool(1,3) spare_mono [OF pool(2)]]) simp_all
  have ne: "?p \<noteq> HEADER_PAGE_ID" using s1(2) h(1) by auto
  obtain d0 where d0: "Leaf_Init ?p INVALID_PAGE_ID (bt_leaf_max t) zero_page = Inr d0"
      "is_leaf ks d0 \<lparr>lf_id = ?p, lf_parent = INVALID_PAGE_ID, lf_next = INVALID_PAGE_ID, lf_max = bt_leaf_max t, lf_entries = []\<rparr>"
    using Leaf_Init_empty [of zero_page "bt_leaf_max t" ?p INVALID_PAGE_ID ks] t(2,3) by (auto simp: zero_page_def BUSTUB_PAGE_SIZE_def)
  obtain d1 where d1: "InsertKey ks cmp k v d0 = Inr (True, d1)" "is_leaf ks d1 (root_leaf ?t (k, v))"
    using InsertKey_empty [OF d0(2) _ k, of cmp v] by (auto simp: root_leaf_def)
  have len: "length d0 = BUSTUB_PAGE_SIZE" "length d1 = BUSTUB_PAGE_SIZE" using is_leafD(1) [OF d0(2)] is_leafD(1) [OF d1(2)] by (simp_all add: BUSTUB_PAGE_SIZE_def)
  define s2 where "s2 = client_store f d0 s1"
  have s2: "pool_ok n s2 (put_page ?p d0 (add_page a))" "table_find ?p s2 = Some f"
    using pool.store_law [OF s1(3,4) _ len(1)] s1(4) by (simp_all add: s2_def fun_eq_iff)
  have d2: "page_data f s2 = Inr d0" using pool.load_law [OF s2] by simp
  define s3 where "s3 = client_store f d1 s2"
  let ?a3 = "put_page ?p d1 (put_page ?p d0 (add_page a))"
  have s3: "pool_ok n s3 ?a3" using pool.store_law [OF s2 _ len(2)] by (simp add: s3_def)
  have sp: "spare n 1 ?a3" using spare_add [of n 1 a] pool(2) by (simp add: numeral_2_eq_2)
  have "0 \<le> sint ?p" using sint_eq_unat [of ?p] pool(3) by simp
  then obtain x s4 where s4: "UpdateRootPageId ?t 1 s3 = Inr s4" "pool_ok n s4 (?a3\<lparr>c_data := (c_data ?a3)(HEADER_PAGE_ID := x)\<rparr>)"
      "is_header x (add_record (bt_name t) ?p rs)"
    using UpdateRootPageId_insert [OF s3 sp, of rs ?t] h t(1) ne by auto
  obtain s5 where s5: "UnpinPgImp ?p True s4 = Inr (True, s5)"
      "pool_ok n s5 (unpin_page ?p True (?a3\<lparr>c_data := (c_data ?a3)(HEADER_PAGE_ID := x)\<rparr>))"
    using pool.unpin_law [OF s4(2), of ?p True] by auto
  have "planted ?p d1 x a (unpin_page ?p True (?a3\<lparr>c_data := (c_data ?a3)(HEADER_PAGE_ID := x)\<rparr>))"
    using ne by (auto simp: planted_def unpin_page_def fun_eq_iff)
  moreover have "insert_first ks cmp t k v s = Inr (?t, s5)"
    using s1(1,5) d0(1) d1(1) d2 s4(1) s5(1)
    by (simp add: insert_first_def create_node_def modify_page_def update_page_def s2_def [symmetric] s3_def [symmetric])
  ultimately show ?thesis using s1(2) s5(2) d1(2) s4(3) by blast
qed

section \<open>Sequences of calls\<close>

datatype tree_op = Insert_key key RID | Get_key key

datatype tree_out = Inserted bool | Found bool "RID list"

primrec op_key :: "tree_op \<Rightarrow> key" where
  "op_key (Insert_key k v) = k"
| "op_key (Get_key k) = k"

definition tree_step :: "nat \<Rightarrow> comparator \<Rightarrow> tree_op \<Rightarrow> btree \<Rightarrow> bpm \<Rightarrow> (db_error + tree_out \<times> btree \<times> bpm) option" where
  "tree_step ks cmp op t s = (case op of
       Insert_key k v \<Rightarrow> map_option (\<lambda>r. ebind r (\<lambda>(b, t, s). Inr (Inserted b, t, s))) (BPlusTree_Insert ks cmp t k v s)
     | Get_key k \<Rightarrow> map_option (\<lambda>r. ebind r (\<lambda>(b, vs, s). Inr (Found b vs, t, s))) (BPlusTree_GetValue ks cmp t k [] s))"

fun tree_run :: "nat \<Rightarrow> comparator \<Rightarrow> tree_op list \<Rightarrow> btree \<Rightarrow> bpm \<Rightarrow> (db_error + tree_out list \<times> btree \<times> bpm) option" where
  "tree_run ks cmp [] t s = Some (Inr ([], t, s))"
| "tree_run ks cmp (op # ops) t s = (case tree_step ks cmp op t s of
       None \<Rightarrow> None
     | Some (Inl e) \<Rightarrow> Some (Inl e)
     | Some (Inr (out, t, s)) \<Rightarrow> map_option (\<lambda>r. ebind r (\<lambda>(outs, t, s). Inr (out # outs, t, s))) (tree_run ks cmp ops t s))"

text \<open>A cell for one entry.\<close>

definition cell_step :: "(key \<Rightarrow> key \<Rightarrow> bool) \<Rightarrow> tree_op \<Rightarrow> entry option \<Rightarrow> tree_out \<times> entry option" where
  "cell_step same op m = (case (op, m) of
       (Insert_key k v, None) \<Rightarrow> (Inserted True, Some (k, v))
     | (Insert_key k v, Some (k0, v0)) \<Rightarrow> (Inserted (same k0 k), m)
     | (Get_key k, None) \<Rightarrow> (Found False [], m)
     | (Get_key k, Some (k0, v0)) \<Rightarrow> (if same k0 k then Found False [] else Found True [v0], m))"

fun cell_run :: "(key \<Rightarrow> key \<Rightarrow> bool) \<Rightarrow> tree_op list \<Rightarrow> entry option \<Rightarrow> tree_out list \<times> entry option" where
  "cell_run same [] m = ([], m)"
| "cell_run same (op # ops) m = (let (out, m) = cell_step same op m; (outs, m) = cell_run same ops m in (out # outs, m))"

definition tree_ok :: "nat \<Rightarrow> nat \<Rightarrow> btree \<Rightarrow> bpm \<Rightarrow> cache \<Rightarrow> entry option \<Rightarrow> header_record list \<Rightarrow> bool" where
  "tree_ok n ks t s a m rs \<longleftrightarrow> pool_ok n s a \<and> spare n 2 a \<and> holds ks t a m \<and> HEADER_PAGE_ID \<in> c_live a \<and> HEADER_PAGE_ID \<notin> c_touched a \<and>
     is_header (c_data a HEADER_PAGE_ID) rs \<and> good_name (bt_name t) \<and> 2 \<le> bt_leaf_max t \<and> bt_leaf_max t < 2147483648 \<and>
     28 + (ks + 8) \<le> BUSTUB_PAGE_SIZE \<and>
     (m = None \<longrightarrow> unat (c_next a) < 524287 \<and> length rs < 113)"

lemma tree_okD:
  assumes "tree_ok n ks t s a m rs"
  shows "pool_ok n s a" "spare n 2 a" "spare n 1 a" "holds ks t a m" "HEADER_PAGE_ID \<in> c_live a" "HEADER_PAGE_ID \<notin> c_touched a"
    "is_header (c_data a HEADER_PAGE_ID) rs" "good_name (bt_name t)" "2 \<le> bt_leaf_max t" "bt_leaf_max t < 2147483648" "28 + (ks + 8) \<le> 4096"
    "m = None \<Longrightarrow> unat (c_next a) < 524287 \<and> length rs < 113"
  using assms spare_mono [of n 2 a 1] by (simp_all add: tree_ok_def BUSTUB_PAGE_SIZE_def)

lemma tree_ok_pool: "tree_ok n ks t s a m rs \<Longrightarrow> pool_ok n s' a \<Longrightarrow> tree_ok n ks t s' a m rs"
  by (simp add: tree_ok_def)

lemma planted_ok:
  assumes ok: "tree_ok n ks t s a None rs" and p: "pool_ok n s' a'" "planted (c_next a) d x a a'" "c_next a \<notin> c_live a"
    and l: "is_leaf ks d (root_leaf (t\<lparr>bt_root := c_next a\<rparr>) e)" and x: "is_header x (add_record (bt_name t) (c_next a) rs)"
  shows "tree_ok n ks (t\<lparr>bt_root := c_next a\<rparr>) s' a' (Some e) (add_record (bt_name t) (c_next a) rs)"
proof -
  note D = tree_okD [OF ok]
  have "pinned_pages a' = pinned_pages a" using p(2,3) by (auto simp: planted_def pinned_pages_def)
  then have "spare n 2 a'" using D(2) by (simp add: spare_def)
  moreover have "0 \<le> sint (c_next a)" using sint_eq_unat [of "c_next a"] D(12) by simp
  then have "c_next a \<noteq> INVALID_PAGE_ID" by (auto simp: INVALID_PAGE_ID_def)
  moreover have "c_next a \<noteq> HEADER_PAGE_ID" using D(5) p(3) by auto
  ultimately show ?thesis using D p(1,2) l x by (simp add: tree_ok_def holds_def planted_def BUSTUB_PAGE_SIZE_def)
qed

lemma tree_step_cell:
  assumes ok: "tree_ok n ks t s a m rs" and m: "\<And>e. m = Some e \<Longrightarrow> int_key D S (fst e)"
    and k: "int_key D S (op_key op)" "length (op_key op) = ks"
    and step: "cell_step (\<lambda>k k'. int_rank D S k = int_rank D S k') op m = (out, m')"
  shows "\<exists>t' s' a' rs'. tree_step ks (GenericComparator D S) op t s = Some (Inr (out, t', s')) \<and> tree_ok n ks t' s' a' m' rs'"
proof (cases m)
  case None
  note D = tree_okD [OF ok [unfolded None]]
  have empty: "BPlusTree_IsEmpty t" using D(4) by (simp add: holds_def BPlusTree_IsEmpty_def)
  show ?thesis
  proof (cases op)
    case (Insert_key key v)
    obtain d x s' a' where i: "insert_first ks (GenericComparator D S) t key v s = Inr (t\<lparr>bt_root := c_next a\<rparr>, s')"
        "pool_ok n s' a'" "planted (c_next a) d x a a'" "c_next a \<notin> c_live a"
        "is_leaf ks d (root_leaf (t\<lparr>bt_root := c_next a\<rparr>) (key, v))" "is_header x (add_record (bt_name t) (c_next a) rs)"
      using insert_first_ok [OF D(1,2) _ D(5-7) _ D(8) _ D(10) _ D(11), of key "GenericComparator D S" v] D(9,12) k(2) Insert_key by auto
    then have "BPlusTree_Insert ks (GenericComparator D S) t key v s = Some (Inr (True, t\<lparr>bt_root := c_next a\<rparr>, s'))"
      using GetValue_empty [OF D(4)] empty by (simp add: BPlusTree_Insert_def)
    then show ?thesis using planted_ok [OF ok [unfolded None] i(2-6)] step Insert_key None by (auto simp: tree_step_def cell_step_def)
  next
    case (Get_key key)
    then show ?thesis using GetValue_empty [OF D(4)] ok step None by (auto simp: tree_step_def cell_step_def)
  qed
next
  case (Some e)
  obtain k0 v0 where e: "e = (k0, v0)" by (cases e)
  note D = tree_okD [OF ok [unfolded Some e]]
  let ?same = "int_rank D S k0 = int_rank D S (op_key op)"
  obtain c where c: "GenericComparator D S k0 (op_key op) = Inr c" "c = 0 \<longleftrightarrow> ?same"
    using gk.cmp_rank [of D S k0 "op_key op"] m Some e k(1) by (auto simp: not_less split: if_splits)
  show ?thesis
  proof (cases op)
    case (Insert_key key v)
    obtain s' where s': "BPlusTree_Insert ks (GenericComparator D S) t key v s = Some (Inr (?same, t, s'))" "pool_ok n s' a"
      using Insert_one_equal [where cmp = "GenericComparator D S" and key = key and v = v, OF D(1,3,4) _ D(9)]
        Insert_one_other [where cmp = "GenericComparator D S" and key = key and v = v, OF D(1,3,4)] c Insert_key
      by (cases ?same) auto
    then show ?thesis using tree_ok_pool [OF ok s'(2)] step Insert_key Some e by (auto simp: tree_step_def cell_step_def)
  next
    case (Get_key key)
    obtain s' where s': "BPlusTree_GetValue ks (GenericComparator D S) t key [] s =
        Some (Inr (\<not> ?same, if ?same then [] else [v0], s'))" "pool_ok n s' a"
      using GetValue_one [where cmp = "GenericComparator D S" and key = key and res = "[]", OF D(1,3,4)] c Get_key by auto
    then show ?thesis using tree_ok_pool [OF ok s'(2)] step Get_key Some e by (auto simp: tree_step_def cell_step_def)
  qed
qed

lemma tree_run_cell:
  assumes "tree_ok n ks t s a m rs" and "\<And>e. m = Some e \<Longrightarrow> int_key D S (fst e)"
    and "\<forall>op \<in> set ops. int_key D S (op_key op) \<and> length (op_key op) = ks"
  shows "\<exists>t' s' a' rs'. tree_run ks (GenericComparator D S) ops t s =
      Some (Inr (fst (cell_run (\<lambda>k k'. int_rank D S k = int_rank D S k') ops m), t', s')) \<and>
    tree_ok n ks t' s' a' (snd (cell_run (\<lambda>k k'. int_rank D S k = int_rank D S k') ops m)) rs'"
  using assms
proof (induction ops arbitrary: t s a m rs)
  case Nil
  then show ?case by auto
next
  case (Cons op ops)
  let ?same = "\<lambda>k k'. int_rank D S k = int_rank D S k'"
  obtain out m' where step: "cell_step ?same op m = (out, m')" by fastforce
  obtain t1 s1 a1 rs1 where 1: "tree_step ks (GenericComparator D S) op t s = Some (Inr (out, t1, s1))" "tree_ok n ks t1 s1 a1 m' rs1"
    using tree_step_cell [OF Cons.prems(1,2) _ _ step] Cons.prems(3) by auto
  have "int_key D S (fst e)" if "m' = Some e" for e
    using step that Cons.prems(2,3) by (auto simp: cell_step_def split: tree_op.splits option.splits if_splits)
  then obtain t2 s2 a2 rs2 where "tree_run ks (GenericComparator D S) ops t1 s1 = Some (Inr (fst (cell_run ?same ops m'), t2, s2))"
      "tree_ok n ks t2 s2 a2 (snd (cell_run ?same ops m')) rs2"
    using Cons.IH [OF 1(2)] Cons.prems(3) by auto
  then show ?case using 1(1) step by (auto simp: case_prod_beta)
qed

text \<open>C18. Over any sequence of insertions and searches a B+ tree behaves as a cell for one entry. The
  header page has room for a record, two frames can be pinned, a leaf may hold two entries and the
  keys have integer columns. The first insertion is stored; afterwards inserting a different key
  returns false and stores nothing, and inserting an equal key returns true and stores nothing. A
  search finds the stored value exactly for the keys that are not equal to the stored one. Every call
  returns, without an error, and gives back the frames it pinned.\<close>

theorem btree_is_one_entry_cell:
  assumes "pool_ok n s a" and "spare n 2 a" and "unat (c_next a) < 524287"
    and "HEADER_PAGE_ID \<in> c_live a" and "HEADER_PAGE_ID \<notin> c_touched a" and "is_header (c_data a HEADER_PAGE_ID) rs" and "length rs < 113"
    and "good_name name" and "2 \<le> leaf_max" and "leaf_max < 2147483648" and "28 + (ks + 8) \<le> BUSTUB_PAGE_SIZE"
    and "\<forall>op \<in> set ops. int_key D S (op_key op) \<and> length (op_key op) = ks"
  shows "\<exists>t' s' a'. tree_run ks (GenericComparator D S) ops (new_BPlusTree name leaf_max internal_max) s =
      Some (Inr (fst (cell_run (\<lambda>k k'. int_rank D S k = int_rank D S k') ops None), t', s')) \<and> pool_ok n s' a' \<and> spare n 2 a'"
proof -
  have "tree_ok n ks (new_BPlusTree name leaf_max internal_max) s a None rs"
    using assms by (simp add: tree_ok_def holds_def new_BPlusTree_def)
  from tree_run_cell [OF this _ assms(12)] show ?thesis by (auto dest: tree_okD(1,2))
qed

text \<open>A database whose page 0 is a header page without records.\<close>

lemma fresh_header:
  assumes "1 \<le> k" and "2 \<le> n" and "n < 2147483648"
  shows "\<exists>f s1 s a. NewPgImp (new_bpm n (new_disk_manager [] []) k) = Inr (Some (HEADER_PAGE_ID, f), s1) \<and>
    UnpinPgImp HEADER_PAGE_ID True s1 = Inr (True, s) \<and> pool_ok n s a \<and> spare n 2 a \<and> c_next a = 1 \<and>
    HEADER_PAGE_ID \<in> c_live a \<and> HEADER_PAGE_ID \<notin> c_touched a \<and> is_header (c_data a HEADER_PAGE_ID) []"
proof -
  have sp: "spare n 1 empty_cache" and nx: "c_next empty_cache = HEADER_PAGE_ID"
    using assms(2) by (simp_all add: spare_def pinned_pages_def empty_cache_def HEADER_PAGE_ID_def)
  obtain f s1 where s1: "NewPgImp (new_bpm n (new_disk_manager [] []) k) = Inr (Some (HEADER_PAGE_ID, f), s1)" "pool_ok n s1 (add_page empty_cache)"
    by (rule pool.create_ok [OF new_pool_ok [OF assms(1,3)] _ sp, unfolded nx]) (simp_all add: HEADER_PAGE_ID_def)
  obtain s where s: "UnpinPgImp HEADER_PAGE_ID True s1 = Inr (True, s)" "pool_ok n s (unpin_page HEADER_PAGE_ID True (add_page empty_cache))"
    using pool.unpin_law [OF s1(2), of HEADER_PAGE_ID True] nx by auto
  have "word32 zero_page 0 = 0" by (simp add: word32_def zero_page_def mem_slice_def BUSTUB_PAGE_SIZE_def le_value_def eval_nat_numeral)
  then have "is_header zero_page []" by (simp add: is_header_def zero_page_def BUSTUB_PAGE_SIZE_def)
  then show ?thesis using s1(1) s assms(2)
    by (intro exI [of _ f] exI [of _ s1] exI [of _ s] exI [of _ "unpin_page HEADER_PAGE_ID True (add_page empty_cache)"])
      (simp add: unpin_page_def nx spare_def pinned_pages_def empty_cache_def HEADER_PAGE_ID_def)
qed

theorem btree_is_one_entry_cell_witness:
  "\<exists>f s1 s t' s'. NewPgImp (new_bpm 3 (new_disk_manager [] []) 2) = Inr (Some (HEADER_PAGE_ID, f), s1) \<and>
    UnpinPgImp HEADER_PAGE_ID True s1 = Inr (True, s) \<and>
    tree_run 4 (GenericComparator int_double example_schema)
      [Get_key (example_key 5), Insert_key (example_key 5) (example_rid 0), Insert_key (example_key (- 7)) (example_rid 1),
       Get_key (example_key 5), Get_key (example_key (- 7))] (new_BPlusTree ''idx'' 10 10) s =
      Some (Inr ([Found False [], Inserted True, Inserted False, Found False [], Found True [example_rid 0]], t', s'))"
proof -
  obtain f s1 s a where s: "NewPgImp (new_bpm 3 (new_disk_manager [] []) 2) = Inr (Some (HEADER_PAGE_ID, f), s1)"
      "UnpinPgImp HEADER_PAGE_ID True s1 = Inr (True, s)" "pool_ok 3 s a" "spare 3 2 a" "c_next a = 1"
      "HEADER_PAGE_ID \<in> c_live a" "HEADER_PAGE_ID \<notin> c_touched a" "is_header (c_data a HEADER_PAGE_ID) []"
    using fresh_header [of 2 3] by auto
  have "int_rank int_double example_schema (example_key 5) \<noteq> int_rank int_double example_schema (example_key (- 7))" by code_simp
  then have "fst (cell_run (\<lambda>k k'. int_rank int_double example_schema k = int_rank int_double example_schema k')
      [Get_key (example_key 5), Insert_key (example_key 5) (example_rid 0), Insert_key (example_key (- 7)) (example_rid 1),
       Get_key (example_key 5), Get_key (example_key (- 7))] None) =
      [Found False [], Inserted True, Inserted False, Found False [], Found True [example_rid 0]]"
    by (simp add: cell_step_def)
  with btree_is_one_entry_cell [OF s(3,4) _ s(6-8), of "''idx''" 10 4
      "[Get_key (example_key 5), Insert_key (example_key 5) (example_rid 0), Insert_key (example_key (- 7)) (example_rid 1),
       Get_key (example_key 5), Get_key (example_key (- 7))]" int_double example_schema 10] s(1,2,5) example_keys
  show ?thesis by (auto simp: good_name_def BUSTUB_PAGE_SIZE_def)
qed

section \<open>An index beside a table\<close>

lemma table_page_is_header:
  assumes "is_page d (empty_apage 0 prev)"
  shows "is_header d []"
proof -
  have len: "length d = 4096" using is_page_length [OF assms] by (simp add: BUSTUB_PAGE_SIZE_def)
  have "(word_of_int (word32 d 0) :: page_id) = 0"
    using is_page_header(1) [OF assms] len by (simp add: GetTablePageId_def read32_ok empty_apage_def)
  then have "uint (word_of_int (word32 d 0) :: page_id) = 0" by simp
  then have "word32 d 0 = 0" using word32_range [of 0 d] len by (simp add: uint_word_of_int)
  then show ?thesis using len by (simp add: is_header_def)
qed

text \<open>C37. Nothing reserves page 0 for the header page. When a table is the first object created in a
  database with two or more, and fewer than \<open>2\<^sup>3\<^sup>1\<close>, frames, its first page is page 0, and the first insertion into an index writes the header record
  into that page: the insertion succeeds, and afterwards the first page of the table holds the record
  of the index and another page id.\<close>

theorem first_index_overwrites_first_table:
  assumes "1 \<le> k" and "2 \<le> n" and "n < 2147483648" and "good_name name" and "2 \<le> leaf_max" and "leaf_max < 2147483648"
    and "length key = ks" and "28 + (ks + 8) \<le> BUSTUB_PAGE_SIZE"
  shows "\<exists>h t s tree s' a. new_TableHeap lg txn (new_bpm n (new_disk_manager [] []) k) = Inr (h, t, s) \<and>
    BPlusTree_Insert ks cmp (new_BPlusTree name leaf_max internal_max) key v s = Some (Inr (True, tree, s')) \<and>
    pool_ok n s' a \<and> bt_root tree \<noteq> first_page_id h \<and>
    is_header (c_data a (first_page_id h)) [(name, bt_root tree)] \<and> GetTablePageId (c_data a (first_page_id h)) = Inr 1 \<and> first_page_id h = 0"
proof -
  obtain t s a where s: "new_TableHeap lg txn (new_bpm n (new_disk_manager [] []) k) = Inr (\<lparr>first_page_id = 0\<rparr>, t, s)"
      "pool_ok n s a" "spare n 2 a" "heap_ok \<lparr>first_page_id = 0\<rparr> a [empty_apage 0 INVALID_PAGE_ID]" "c_next a = 1"
    using fresh_table [OF assms(1-3), of lg txn] by blast
  have p: "HEADER_PAGE_ID \<in> c_live a" "HEADER_PAGE_ID \<notin> c_touched a" "is_page (c_data a HEADER_PAGE_ID) (empty_apage 0 INVALID_PAGE_ID)"
    using heap_okD(5) [OF s(4), of "empty_apage 0 INVALID_PAGE_ID"] by (simp_all add: HEADER_PAGE_ID_def empty_apage_def)
  let ?t = "new_BPlusTree name leaf_max internal_max"
  obtain d x s' a' where i: "insert_first ks cmp ?t key v s = Inr (?t\<lparr>bt_root := c_next a\<rparr>, s')" "pool_ok n s' a'" "planted (c_next a) d x a a'"
      "is_header x (add_record (bt_name ?t) (c_next a) [])"
    using insert_first_ok [OF s(2,3) _ p(1,2) table_page_is_header [OF p(3)], of ?t key ks cmp v] assms s(5)
    by (auto simp: new_BPlusTree_def BUSTUB_PAGE_SIZE_def)
  have "BPlusTree_Insert ks cmp ?t key v s = Some (Inr (True, ?t\<lparr>bt_root := 1\<rparr>, s'))"
    using i(1) s(5) by (simp add: BPlusTree_Insert_def BPlusTree_GetValue_def BPlusTree_IsEmpty_def new_BPlusTree_def)
  moreover have "c_data a' 0 = x" using i(3) by (simp add: planted_def HEADER_PAGE_ID_def)
  moreover have "is_header x [(name, 1)]" using i(4) s(5) by (simp add: add_record_def new_BPlusTree_def)
  moreover from this have "GetTablePageId x = Inr 1" using is_headerD(1,3) [of x] by (simp add: GetTablePageId_def read32_ok)
  ultimately show ?thesis using s(1) i(2) by (intro exI conjI) (assumption | simp)+
qed

theorem first_index_overwrites_first_table_witness:
  "\<exists>h t s tree s' a. new_TableHeap False (new_transaction 0 READ_COMMITTED) (new_bpm 2 (new_disk_manager [] []) 2) = Inr (h, t, s) \<and>
    BPlusTree_Insert 4 (GenericComparator int_double example_schema) (new_BPlusTree ''idx'' 10 10) (example_key 5) (example_rid 0) s =
      Some (Inr (True, tree, s')) \<and>
    pool_ok 2 s' a \<and> GetTablePageId (c_data a (first_page_id h)) = Inr 1 \<and> first_page_id h = 0"
  using first_index_overwrites_first_table [of 2 2 "''idx''" 10 "example_key 5" 4 False "new_transaction 0 READ_COMMITTED"
      "GenericComparator int_double example_schema" 10 "example_rid 0"]
  by (auto simp: good_name_def BUSTUB_PAGE_SIZE_def example_keys)

end
