(* ===== verification/Expression.thy ===== *)
theory Expression
  imports Tuple_Layout Value_Factory
begin

text \<open>
  Expressions (\<^verbatim>\<open>include/execution/expressions/*.h\<close>): constants, columns, integer arithmetic,
  comparisons and three-valued logic, evaluated on a tuple or on the two tuples of a join, and
  their rewriting for a join (\<^verbatim>\<open>optimizer/merge_filter_nlj.cpp\<close>).  A null tuple pointer is \<open>None\<close>.
  The sum of two \<^verbatim>\<open>int32_t\<close> wraps around.  \<^verbatim>\<open>GetAs<T>\<close> reads the bytes of the value; where the type of
  the value does not determine those bytes the model has an error.

  The lemmas: evaluation is sound for the static types, and a predicate rewritten for a join has
  on the two tuples the value it has on the joined tuple.
\<close>

section \<open>Expressions\<close>

datatype arithmetic_type = Plus | Minus
datatype comparison_type = Equal | NotEqual | Less | LessOrEqual | Greater | GreaterOrEqual
datatype logic_type = And | Or

datatype 'd expr =
    Constant_Value "'d Value"
  | Column_Value nat nat type_id
  | Arithmetic arithmetic_type "'d expr" "'d expr"
  | Comparison comparison_type "'d expr" "'d expr"
  | Logic logic_type "'d expr" "'d expr"

fun GetReturnType :: "'d expr \<Rightarrow> type_id" where
  "GetReturnType (Constant_Value v) = GetTypeId v"
| "GetReturnType (Column_Value tuple_idx col_idx ret_type) = ret_type"
| "GetReturnType (Arithmetic op l r) = INTEGER"
| "GetReturnType (Comparison op l r) = BOOLEAN"
| "GetReturnType (Logic op l r) = BOOLEAN"

text \<open>The constructors that check the types of the children.\<close>

definition ArithmeticExpression :: "'d expr \<Rightarrow> 'd expr \<Rightarrow> arithmetic_type \<Rightarrow> exc + 'd expr" where
  "ArithmeticExpression l r compute_type =
     (if GetReturnType l \<noteq> INTEGER \<or> GetReturnType r \<noteq> INTEGER then Inl NOT_IMPLEMENTED else Inr (Arithmetic compute_type l r))"

definition LogicExpression :: "'d expr \<Rightarrow> 'd expr \<Rightarrow> logic_type \<Rightarrow> exc + 'd expr" where
  "LogicExpression l r logic_type =
     (if GetReturnType l \<noteq> BOOLEAN \<or> GetReturnType r \<noteq> BOOLEAN then Inl NOT_IMPLEMENTED else Inr (Logic logic_type l r))"

section \<open>Evaluation\<close>

definition GetAs_bool :: "'d double_ops \<Rightarrow> 'd Value \<Rightarrow> exc + bool" where
  "GetAs_bool D v = (case v of
       Boolean_v b \<Rightarrow> Inr (b \<noteq> 0)
     | Tinyint_v x \<Rightarrow> Inr (x \<noteq> 0)
     | Smallint_v x \<Rightarrow> Inr ((ucast x :: 8 word) \<noteq> 0)
     | Integer_v x \<Rightarrow> Inr ((ucast x :: 8 word) \<noteq> 0)
     | Bigint_v x \<Rightarrow> Inr ((ucast x :: 8 word) \<noteq> 0)
     | Timestamp_v x \<Rightarrow> Inr ((ucast x :: 8 word) \<noteq> 0)
     | Decimal_v d \<Rightarrow> Inr ((ucast (d_to_bits D d) :: 8 word) \<noteq> 0)
     | _ \<Rightarrow> Inl Out_Of_Bounds)"

definition GetAs_int32 :: "'d double_ops \<Rightarrow> 'd Value \<Rightarrow> exc + 32 word" where
  "GetAs_int32 D v = (case v of
       Integer_v x \<Rightarrow> Inr x
     | Bigint_v x \<Rightarrow> Inr (ucast x)
     | Timestamp_v x \<Rightarrow> Inr (ucast x)
     | Decimal_v d \<Rightarrow> Inr (ucast (d_to_bits D d))
     | _ \<Rightarrow> Inl Out_Of_Bounds)"

definition PerformArithmetic :: "'d double_ops \<Rightarrow> arithmetic_type \<Rightarrow> 'd Value \<Rightarrow> 'd Value \<Rightarrow> exc + 32 word option" where
  "PerformArithmetic D op lhs rhs =
     (if IsNull D lhs \<or> IsNull D rhs then Inr None
      else ebind (GetAs_int32 D lhs) (\<lambda>x. ebind (GetAs_int32 D rhs) (\<lambda>y.
        Inr (Some (case op of Plus \<Rightarrow> x + y | Minus \<Rightarrow> x - y)))))"

definition arithmetic_value :: "'d double_ops \<Rightarrow> arithmetic_type \<Rightarrow> 'd Value \<Rightarrow> 'd Value \<Rightarrow> exc + 'd Value" where
  "arithmetic_value D op lhs rhs = ebind (PerformArithmetic D op lhs rhs) (\<lambda>res. case res of
       None \<Rightarrow> GetNullValueByType D INTEGER
     | Some x \<Rightarrow> Value_int32 INTEGER x)"

definition PerformComparison :: "'d double_ops \<Rightarrow> comparison_type \<Rightarrow> 'd Value \<Rightarrow> 'd Value \<Rightarrow> exc + CmpBool" where
  "PerformComparison D op lhs rhs = Value_Compare D (case op of
       Equal \<Rightarrow> Equals
     | NotEqual \<Rightarrow> NotEquals
     | Less \<Rightarrow> LessThan
     | LessOrEqual \<Rightarrow> LessThanEquals
     | Greater \<Rightarrow> GreaterThan
     | GreaterOrEqual \<Rightarrow> GreaterThanEquals) lhs rhs"

definition GetBoolAsCmpBool :: "'d double_ops \<Rightarrow> 'd Value \<Rightarrow> exc + CmpBool" where
  "GetBoolAsCmpBool D v = (if IsNull D v then Inr CmpNull else ebind (GetAs_bool D v) (\<lambda>b. Inr (if b then CmpTrue else CmpFalse)))"

definition combine_logic :: "logic_type \<Rightarrow> CmpBool \<Rightarrow> CmpBool \<Rightarrow> CmpBool" where
  "combine_logic op l r = (case op of
       And \<Rightarrow> if l = CmpFalse \<or> r = CmpFalse then CmpFalse else if l = CmpTrue \<and> r = CmpTrue then CmpTrue else CmpNull
     | Or \<Rightarrow> if l = CmpFalse \<and> r = CmpFalse then CmpFalse else if l = CmpTrue \<or> r = CmpTrue then CmpTrue else CmpNull)"

definition PerformLogic :: "'d double_ops \<Rightarrow> logic_type \<Rightarrow> 'd Value \<Rightarrow> 'd Value \<Rightarrow> exc + CmpBool" where
  "PerformLogic D op lhs rhs = ebind (GetBoolAsCmpBool D lhs) (\<lambda>l. ebind (GetBoolAsCmpBool D rhs) (\<lambda>r. Inr (combine_logic op l r)))"

fun Evaluate :: "'d double_ops \<Rightarrow> 'd expr \<Rightarrow> tuple option \<Rightarrow> schema \<Rightarrow> exc + 'd Value" where
  "Evaluate D (Constant_Value v) t s = Inr v"
| "Evaluate D (Column_Value tuple_idx col_idx ret_type) t s =
     (case t of None \<Rightarrow> Inl Null_Deref | Some t \<Rightarrow> Tuple_GetValue D s col_idx t)"
| "Evaluate D (Arithmetic op l r) t s =
     ebind (Evaluate D l t s) (\<lambda>lhs. ebind (Evaluate D r t s) (\<lambda>rhs. arithmetic_value D op lhs rhs))"
| "Evaluate D (Comparison op l r) t s =
     ebind (Evaluate D l t s) (\<lambda>lhs. ebind (Evaluate D r t s) (\<lambda>rhs. ebind (PerformComparison D op lhs rhs) GetBooleanValue))"
| "Evaluate D (Logic op l r) t s =
     ebind (Evaluate D l t s) (\<lambda>lhs. ebind (Evaluate D r t s) (\<lambda>rhs. ebind (PerformLogic D op lhs rhs) GetBooleanValue))"

fun EvaluateJoin :: "'d double_ops \<Rightarrow> 'd expr \<Rightarrow> tuple \<Rightarrow> schema \<Rightarrow> tuple \<Rightarrow> schema \<Rightarrow> exc + 'd Value" where
  "EvaluateJoin D (Constant_Value v) lt ls rt rs = Inr v"
| "EvaluateJoin D (Column_Value tuple_idx col_idx ret_type) lt ls rt rs =
     (if tuple_idx = 0 then Tuple_GetValue D ls col_idx lt else Tuple_GetValue D rs col_idx rt)"
| "EvaluateJoin D (Arithmetic op l r) lt ls rt rs =
     ebind (EvaluateJoin D l lt ls rt rs) (\<lambda>lhs. ebind (EvaluateJoin D r lt ls rt rs) (\<lambda>rhs. arithmetic_value D op lhs rhs))"
| "EvaluateJoin D (Comparison op l r) lt ls rt rs =
     ebind (EvaluateJoin D l lt ls rt rs) (\<lambda>lhs. ebind (EvaluateJoin D r lt ls rt rs) (\<lambda>rhs.
     ebind (PerformComparison D op lhs rhs) GetBooleanValue))"
| "EvaluateJoin D (Logic op l r) lt ls rt rs =
     ebind (EvaluateJoin D l lt ls rt rs) (\<lambda>lhs. ebind (EvaluateJoin D r lt ls rt rs) (\<lambda>rhs.
     ebind (PerformLogic D op lhs rhs) GetBooleanValue))"

section \<open>Printing\<close>

fun arithmetic_text :: "arithmetic_type \<Rightarrow> string" where
  "arithmetic_text Plus = ''+''"
| "arithmetic_text Minus = ''-''"

fun comparison_text :: "comparison_type \<Rightarrow> string" where
  "comparison_text Equal = ''=''"
| "comparison_text NotEqual = ''!=''"
| "comparison_text Less = ''<''"
| "comparison_text LessOrEqual = ''<=''"
| "comparison_text Greater = ''>''"
| "comparison_text GreaterOrEqual = ''>=''"

fun logic_text :: "logic_type \<Rightarrow> string" where
  "logic_text And = ''and''"
| "logic_text Or = ''or''"

fun Expr_ToString :: "'d double_ops \<Rightarrow> 'd expr \<Rightarrow> exc + string" where
  "Expr_ToString D (Constant_Value v) = ToString D v"
| "Expr_ToString D (Column_Value tuple_idx col_idx ret_type) =
     Inr (''#'' @ to_string (int tuple_idx) @ ''.'' @ to_string (int col_idx))"
| "Expr_ToString D (Arithmetic op l r) =
     ebind (Expr_ToString D l) (\<lambda>x. ebind (Expr_ToString D r) (\<lambda>y. Inr (''('' @ x @ arithmetic_text op @ y @ '')'')))"
| "Expr_ToString D (Comparison op l r) =
     ebind (Expr_ToString D l) (\<lambda>x. ebind (Expr_ToString D r) (\<lambda>y. Inr (''('' @ x @ comparison_text op @ y @ '')'')))"
| "Expr_ToString D (Logic op l r) =
     ebind (Expr_ToString D l) (\<lambda>x. ebind (Expr_ToString D r) (\<lambda>y. Inr (''('' @ x @ logic_text op @ y @ '')'')))"

section \<open>Rewriting for a join\<close>

fun RewriteExpressionForJoin :: "'d expr \<Rightarrow> nat \<Rightarrow> nat \<Rightarrow> exc + 'd expr" where
  "RewriteExpressionForJoin (Constant_Value v) left_column_cnt right_column_cnt = Inr (Constant_Value v)"
| "RewriteExpressionForJoin (Column_Value tuple_idx col_idx ret_type) left_column_cnt right_column_cnt =
     (if tuple_idx \<noteq> 0 then Inl Std_Logic_Error
        else if col_idx < left_column_cnt then Inr (Column_Value 0 col_idx ret_type)
        else if col_idx \<ge> left_column_cnt \<and> col_idx < left_column_cnt + right_column_cnt
        then Inr (Column_Value 1 (col_idx - left_column_cnt) ret_type)
        else Inl INVALID_EXC)"
| "RewriteExpressionForJoin (Arithmetic op l r) m n =
     ebind (RewriteExpressionForJoin l m n) (\<lambda>l. ebind (RewriteExpressionForJoin r m n) (\<lambda>r. Inr (Arithmetic op l r)))"
| "RewriteExpressionForJoin (Comparison op l r) m n =
     ebind (RewriteExpressionForJoin l m n) (\<lambda>l. ebind (RewriteExpressionForJoin r m n) (\<lambda>r. Inr (Comparison op l r)))"
| "RewriteExpressionForJoin (Logic op l r) m n =
     ebind (RewriteExpressionForJoin l m n) (\<lambda>l. ebind (RewriteExpressionForJoin r m n) (\<lambda>r. Inr (Logic op l r)))"

definition InferJoinSchema :: "schema \<Rightarrow> schema \<Rightarrow> schema" where
  "InferJoinSchema left right = new_schema (columns left @ columns right)"

section \<open>Joined tuples\<close>

lemma rewrite_evaluates:
  assumes "RewriteExpressionForJoin e m n = Inr e'"
    and "\<And>i. i < m \<Longrightarrow> Tuple_GetValue D js i t = Tuple_GetValue D ls i lt"
    and "\<And>i. i < n \<Longrightarrow> Tuple_GetValue D js (m + i) t = Tuple_GetValue D rs i rt"
  shows "EvaluateJoin D e' lt ls rt rs = Evaluate D e (Some t) js"
  using assms(1)
proof (induction e arbitrary: e')
  case (Column_Value tuple_idx col_idx ret_type)
  then show ?case using assms(2) [of col_idx] assms(3) [of "col_idx - m"] by (auto split: if_splits)
qed (auto simp: ebind_def split: sum.splits)

fun columns_within :: "nat \<Rightarrow> 'd expr \<Rightarrow> bool" where
  "columns_within n (Constant_Value v) = True"
| "columns_within n (Column_Value tuple_idx col_idx ret_type) = (tuple_idx = 0 \<and> col_idx < n)"
| "columns_within n (Arithmetic op l r) = (columns_within n l \<and> columns_within n r)"
| "columns_within n (Comparison op l r) = (columns_within n l \<and> columns_within n r)"
| "columns_within n (Logic op l r) = (columns_within n l \<and> columns_within n r)"

lemma rewrite_total: "columns_within (m + n) e \<Longrightarrow> \<exists>e'. RewriteExpressionForJoin e m n = Inr e'"
  by (induction e) auto

text \<open>Columns that were given offsets already are placed anew.\<close>

lemma place_types: "map column_type (place off cols) = map column_type cols" "map fixed_length (place off cols) = map fixed_length cols"
  by (induction cols arbitrary: off) auto

lemma wf_place [simp]: "list_all wf_column (place off cols) = list_all wf_column cols"
  by (induction cols arbitrary: off) (auto simp: wf_column_def)

lemma fixed_place [simp]: "fixed_part (place off cols) = fixed_part cols"
  by (induction cols arbitrary: off) auto

lemma matches_place [simp]: "list_all2 (matches D) (place off cols) vs = list_all2 (matches D) cols vs"
  by (induction cols arbitrary: off vs) (auto simp: matches_def list_all2_Cons1)

lemma varlen_place [simp]: "varlen_part D (place off cols) vs = varlen_part D cols vs"
proof (induction cols arbitrary: off vs)
  case (Cons col cols)
  then show ?case by (cases vs) simp_all
qed simp

lemma varlen_append: "length cols = length vs \<Longrightarrow> varlen_part D (cols @ cols') (vs @ vs') = varlen_part D cols vs + varlen_part D cols' vs'"
  by (induction cols vs rule: list_induct2) simp_all

lemma fixed_append: "fixed_part (cols @ cols') = fixed_part cols + fixed_part cols'"
  by (simp add: fixed_part_def)

text \<open>A tuple built from matching values, small enough.\<close>

definition fits_row :: "'d double_ops \<Rightarrow> column list \<Rightarrow> 'd Value list \<Rightarrow> bool" where
  "fits_row D cols vs \<longleftrightarrow> list_all wf_column cols \<and> list_all2 (matches D) cols vs \<and> fixed_part cols + varlen_part D cols vs < 2147483648"

lemma fits_row_reads:
  assumes "fits_row D cols vs" and "new_tuple D vs (new_schema cols) = Inr t" and "i < length cols"
  shows "Tuple_GetValue D (new_schema cols) i t = Inr (vs ! i)"
  using tuple_reads_back [of cols D vs] assms by (auto simp: fits_row_def)

lemma joined_reads:
  assumes row: "fits_row D (place 0 lcols @ place 0 rcols) (vl @ vr)" "length vl = length lcols"
    and t: "new_tuple D vl (new_schema lcols) = Inr lt" "new_tuple D vr (new_schema rcols) = Inr rt"
      "new_tuple D (vl @ vr) (new_schema (place 0 lcols @ place 0 rcols)) = Inr t"
  shows "i < length lcols \<Longrightarrow> Tuple_GetValue D (new_schema (place 0 lcols @ place 0 rcols)) i t = Tuple_GetValue D (new_schema lcols) i lt"
    and "i < length rcols \<Longrightarrow> Tuple_GetValue D (new_schema (place 0 lcols @ place 0 rcols)) (length lcols + i) t = Tuple_GetValue D (new_schema rcols) i rt"
proof -
  have "list_all2 (matches D) lcols vl \<and> list_all2 (matches D) rcols vr"
    using row list_all2_append [of "place 0 lcols" vl "matches D" "place 0 rcols" vr] by (simp add: fits_row_def)
  then have rows: "fits_row D lcols vl" "fits_row D rcols vr"
    using row varlen_append [of "place 0 lcols" vl D "place 0 rcols" vr] by (simp_all add: fits_row_def fixed_append)
  note j = fits_row_reads [OF row(1) t(3)]
  show "Tuple_GetValue D (new_schema (place 0 lcols @ place 0 rcols)) i t = Tuple_GetValue D (new_schema lcols) i lt" if "i < length lcols"
    using j [of i] fits_row_reads [OF rows(1) t(1) that] row(2) that by (simp add: nth_append)
  show "Tuple_GetValue D (new_schema (place 0 lcols @ place 0 rcols)) (length lcols + i) t = Tuple_GetValue D (new_schema rcols) i rt"
    if "i < length rcols"
    using j [of "length lcols + i"] fits_row_reads [OF rows(2) t(2) that] row(2) that by (simp add: nth_append)
qed

text \<open>C23. Moving a filter into a join is sound: a predicate over the columns of the joined row is
  rewritten without an error, and on two rows the rewritten predicate has, errors included, the
  value that the predicate has on the tuple of their values under the joined schema.\<close>

theorem join_rewrite_correct:
  assumes "columns_within (length lcols + length rcols) e"
    and "fits_row D (place 0 lcols @ place 0 rcols) (vl @ vr)" and "length vl = length lcols"
    and "list_all wf_column lcols" and "list_all wf_column rcols" and "fixed_part lcols + fixed_part rcols < 4294967296"
    and "new_tuple D vl (new_schema lcols) = Inr lt" and "new_tuple D vr (new_schema rcols) = Inr rt"
    and "new_tuple D (vl @ vr) (InferJoinSchema (new_schema lcols) (new_schema rcols)) = Inr t"
  shows "\<exists>e'. RewriteExpressionForJoin e (length lcols) (length rcols) = Inr e' \<and>
    EvaluateJoin D e' lt (new_schema lcols) rt (new_schema rcols) = Evaluate D e (Some t) (InferJoinSchema (new_schema lcols) (new_schema rcols))"
proof -
  have s: "InferJoinSchema (new_schema lcols) (new_schema rcols) = new_schema (place 0 lcols @ place 0 rcols)"
    using new_schema_eq [OF assms(4)] new_schema_eq [OF assms(5)] assms(6) by (simp add: InferJoinSchema_def)
  obtain e' where e': "RewriteExpressionForJoin e (length lcols) (length rcols) = Inr e'"
    using rewrite_total [OF assms(1)] by blast
  have "EvaluateJoin D e' lt (new_schema lcols) rt (new_schema rcols) = Evaluate D e (Some t) (new_schema (place 0 lcols @ place 0 rcols))"
    using joined_reads [OF assms(2,3,7,8)] assms(9) by (intro rewrite_evaluates [OF e']) (simp_all add: s)
  with e' s show ?thesis by simp
qed

section \<open>Types\<close>

text \<open>Expressions over the columns of a row: columns have their types, arithmetic is on integers, logic
  on booleans, and comparisons are between integers or between booleans.\<close>

definition comparable_types :: "type_id \<Rightarrow> type_id \<Rightarrow> bool" where
  "comparable_types a b \<longleftrightarrow> a \<in> {TINYINT, SMALLINT, INTEGER, BIGINT} \<and> b \<in> {TINYINT, SMALLINT, INTEGER, BIGINT} \<or> a = BOOLEAN \<and> b = BOOLEAN"

fun well_typed :: "'d double_ops \<Rightarrow> column list \<Rightarrow> 'd expr \<Rightarrow> bool" where
  "well_typed D cols (Constant_Value v) = storable D v"
| "well_typed D cols (Column_Value tuple_idx col_idx ret_type) = (col_idx < length cols \<and> column_type (cols ! col_idx) = ret_type)"
| "well_typed D cols (Arithmetic op l r) = (well_typed D cols l \<and> well_typed D cols r \<and> GetReturnType l = INTEGER \<and> GetReturnType r = INTEGER)"
| "well_typed D cols (Comparison op l r) = (well_typed D cols l \<and> well_typed D cols r \<and> comparable_types (GetReturnType l) (GetReturnType r))"
| "well_typed D cols (Logic op l r) = (well_typed D cols l \<and> well_typed D cols r \<and> GetReturnType l = BOOLEAN \<and> GetReturnType r = BOOLEAN)"

lemma GetTypeId_INTEGER: "GetTypeId v = INTEGER \<longleftrightarrow> (\<exists>x. v = Integer_v x)"
  by (cases v) auto

lemma GetTypeId_BOOLEAN: "GetTypeId v = BOOLEAN \<longleftrightarrow> (\<exists>x. v = Boolean_v x)"
  by (cases v) auto

lemma GetBooleanValue_type: "\<exists>b. GetBooleanValue c = Inr (Boolean_v b)"
  by (simp add: GetBooleanValue_def Value_int8_def)

lemma compare_typed:
  assumes "comparable_types (GetTypeId v) (GetTypeId w)"
  shows "\<exists>c. PerformComparison D op v w = Inr c"
proof (cases "GetTypeId v = BOOLEAN")
  case True
  then have "GetTypeId w = BOOLEAN" using assms by (auto simp: comparable_types_def)
  with True show ?thesis
    by (auto simp: GetTypeId_BOOLEAN PerformComparison_def Value_Compare_def GetInstance_def k_types_def BooleanType_Compare_def
        CheckComparable.simps CastAs_def BooleanType_CastAs_def BooleanType_Copy_def assert_that_def Value_int8_def)
next
  case False
  then have "CheckInteger v" "CheckInteger w" using assms by (auto simp: comparable_types_def CheckInteger.simps)
  then show ?thesis by (simp add: PerformComparison_def Compare_int)
qed

lemma evaluate_typed:
  assumes "well_typed D cols e" and "fits_row D cols vs" and "new_tuple D vs (new_schema cols) = Inr t"
  shows "\<exists>v. Evaluate D e (Some t) (new_schema cols) = Inr v \<and> GetTypeId v = GetReturnType e \<and> storable D v"
  using assms(1)
proof (induction e)
  case (Column_Value tuple_idx col_idx ret_type)
  moreover have "matches D (cols ! col_idx) (vs ! col_idx)"
    using Column_Value assms(2) by (simp add: fits_row_def list_all2_nthD)
  ultimately show ?case using fits_row_reads [OF assms(2,3), of col_idx] by (simp add: matches_def)
next
  case (Arithmetic op l r)
  then obtain x y where "Evaluate D l (Some t) (new_schema cols) = Inr (Integer_v x)" "Evaluate D r (Some t) (new_schema cols) = Inr (Integer_v y)"
    by (auto simp: GetTypeId_INTEGER)
  then show ?case
    by (simp add: arithmetic_value_def PerformArithmetic_def GetAs_int32_def GetNullValueByType_def Value_int32_def storable_def)
next
  case (Comparison op l r)
  then obtain v w where vw: "Evaluate D l (Some t) (new_schema cols) = Inr v" "Evaluate D r (Some t) (new_schema cols) = Inr w"
      "comparable_types (GetTypeId v) (GetTypeId w)" by auto
  obtain c where "PerformComparison D op v w = Inr c" using compare_typed [OF vw(3)] by blast
  then show ?case using vw(1,2) GetBooleanValue_type [of c] by (auto simp: storable_def)
next
  case (Logic op l r)
  then obtain x y where "Evaluate D l (Some t) (new_schema cols) = Inr (Boolean_v x)" "Evaluate D r (Some t) (new_schema cols) = Inr (Boolean_v y)"
    by (auto simp: GetTypeId_BOOLEAN)
  moreover have "\<exists>c. GetBoolAsCmpBool D (Boolean_v b) = Inr c" for b by (simp add: GetBoolAsCmpBool_def GetAs_bool_def)
  then have "\<exists>c. PerformLogic D op (Boolean_v x) (Boolean_v y) = Inr c" unfolding PerformLogic_def by (metis ebind_simps(2))
  then obtain c where "PerformLogic D op (Boolean_v x) (Boolean_v y) = Inr c" by blast
  ultimately show ?case using GetBooleanValue_type [of c] by (auto simp: storable_def)
qed simp

text \<open>C22. Evaluation is type sound: a well-typed expression (arithmetic on \<^verbatim>\<open>INTEGER\<close>, logic on booleans, comparisons between
  integers or between booleans) evaluated on a row of its schema returns a
  value, without an error, and the value has the static type of the expression.\<close>

theorem expression_type_sound:
  assumes "well_typed D cols e" and "fits_row D cols vs" and "new_tuple D vs (new_schema cols) = Inr t"
  shows "\<exists>v. Evaluate D e (Some t) (new_schema cols) = Inr v \<and> GetTypeId v = GetReturnType e"
  using evaluate_typed [OF assms] by blast

text \<open>Examples: the schema of the tuple layout's example, joined with itself.\<close>

definition example_predicate :: "int expr" where
  "example_predicate = Logic And (Comparison Equal (Column_Value 0 1 INTEGER) (Column_Value 0 4 INTEGER))
     (Comparison Less (Column_Value 0 4 INTEGER) (Arithmetic Plus (Column_Value 0 1 INTEGER) (Constant_Value (Integer_v 3))))"

lemma example_row: "fits_row int_double example_columns example_values"
  using example_fits by (simp add: fits_row_def)

lemma example_joined_row: "fits_row int_double (place 0 example_columns @ place 0 example_columns) (example_values @ example_values)"
  using example_fits varlen_append [of "place 0 example_columns" example_values int_double "place 0 example_columns" example_values]
  by (simp add: fits_row_def fixed_append list_all2_appendI) (simp add: example_columns_def example_values_def)

theorem join_rewrite_correct_witness:
  "\<exists>t j e'. new_tuple int_double example_values (new_schema example_columns) = Inr t \<and>
     new_tuple int_double (example_values @ example_values) (InferJoinSchema (new_schema example_columns) (new_schema example_columns)) = Inr j \<and>
     RewriteExpressionForJoin example_predicate 3 3 = Inr e' \<and>
     EvaluateJoin int_double e' t (new_schema example_columns) t (new_schema example_columns) =
       Evaluate int_double example_predicate (Some j) (InferJoinSchema (new_schema example_columns) (new_schema example_columns))"
proof -
  obtain t where t: "new_tuple int_double example_values (new_schema example_columns) = Inr t"
    using tuple_reads_back [of example_columns int_double example_values] example_row by (auto simp: fits_row_def)
  have s: "InferJoinSchema (new_schema example_columns) (new_schema example_columns) = new_schema (place 0 example_columns @ place 0 example_columns)"
    using new_schema_eq [OF example_fits(1)] example_fits(3) by (simp add: InferJoinSchema_def)
  obtain j where j: "new_tuple int_double (example_values @ example_values) (new_schema (place 0 example_columns @ place 0 example_columns)) = Inr j"
    using tuple_reads_back [of "place 0 example_columns @ place 0 example_columns" int_double "example_values @ example_values"] example_joined_row
    by (auto simp: fits_row_def)
  have len: "length example_columns = 3" "length example_values = 3" by (simp_all add: example_columns_def example_values_def)
  show ?thesis
    using join_rewrite_correct [OF _ example_joined_row _ example_fits(1,1) _ t t j [folded s], of example_predicate] t j s len example_fits(3)
    by (simp add: example_predicate_def)
qed

theorem expression_type_sound_witness:
  "\<exists>t v. new_tuple int_double example_values (new_schema example_columns) = Inr t \<and>
     Evaluate int_double (Comparison Less (Column_Value 0 1 INTEGER) (Constant_Value (Bigint_v 9))) (Some t) (new_schema example_columns) = Inr v \<and>
     GetTypeId v = BOOLEAN"
proof -
  obtain t where t: "new_tuple int_double example_values (new_schema example_columns) = Inr t"
    using tuple_reads_back [of example_columns int_double example_values] example_row by (auto simp: fits_row_def)
  then show ?thesis
    using expression_type_sound [OF _ example_row t, of "Comparison Less (Column_Value 0 1 INTEGER) (Constant_Value (Bigint_v 9))"]
    by (simp add: comparable_types_def storable_def example_columns_def)
qed

end
