(* ===== verification/Catalog.thy ===== *)
theory Catalog
  imports BTree
begin

text \<open>
  The catalog (\<^verbatim>\<open>include/catalog/catalog.h\<close>) with the metadata of indexes
  (\<^verbatim>\<open>include/storage/index/index.h\<close>): tables by identifier and by name, and the indexes of each
  table.  The hash maps are association lists; where the code iterates over one the model has
  the order of insertion.  Creating a table creates its heap in the buffer pool, and creating an index
  inserts the rows of the table into it.

  The lemmas: the maps stay consistent, so that no assertion of the catalog fails, and lookups
  return what was created.
\<close>

section \<open>Tables and indexes\<close>

type_synonym oid = "32 word"

record table_info =
  ti_schema :: schema
  ti_name :: string
  ti_table :: "table_heap option"
  ti_oid :: oid

record index_metadata =
  im_name :: string
  im_table_name :: string
  im_key_attrs :: "nat list"
  im_key_schema :: schema

definition new_IndexMetadata :: "string \<Rightarrow> string \<Rightarrow> schema \<Rightarrow> nat list \<Rightarrow> exc + index_metadata" where
  "new_IndexMetadata index_name table_name tuple_schema key_attrs =
     ebind (CopySchema tuple_schema key_attrs) (\<lambda>key_schema.
     Inr \<lparr>im_name = index_name, im_table_name = table_name, im_key_attrs = key_attrs, im_key_schema = key_schema\<rparr>)"

record index_info =
  ii_key_schema :: schema
  ii_name :: string
  ii_metadata :: index_metadata
  ii_tree :: btree
  ii_oid :: oid
  ii_table_name :: string
  ii_key_size :: nat

record catalog =
  cat_tables :: "(oid \<times> table_info) list"
  cat_table_names :: "(string \<times> oid) list"
  cat_next_table_oid :: oid
  cat_indexes :: "(oid \<times> index_info) list"
  cat_index_names :: "(string \<times> (string \<times> oid) list) list"
  cat_next_index_oid :: oid

definition new_catalog :: catalog where
  "new_catalog = \<lparr>cat_tables = [], cat_table_names = [], cat_next_table_oid = 0, cat_indexes = [], cat_index_names = [], cat_next_index_oid = 0\<rparr>"

text \<open>\<^verbatim>\<open>unordered_map::emplace\<close> leaves an entry that exists.\<close>

definition emplace :: "'k \<Rightarrow> 'v \<Rightarrow> ('k \<times> 'v) list \<Rightarrow> ('k \<times> 'v) list" where
  "emplace k v kvs = (if alist_find kvs k = None then kvs @ [(k, v)] else kvs)"

section \<open>Tables\<close>

definition CreateTable :: "bool \<Rightarrow> transaction \<Rightarrow> string \<Rightarrow> schema \<Rightarrow> bool \<Rightarrow> catalog \<Rightarrow> bpm \<Rightarrow>
    db_error + table_info option \<times> catalog \<times> transaction \<times> bpm" where
  "CreateTable lg txn table_name schema create_table_heap cat s =
     (if alist_find (cat_table_names cat) table_name \<noteq> None then Inr (None, cat, txn, s)
      else
        ebind (if create_table_heap then ebind (new_TableHeap lg txn s) (\<lambda>(h, txn, s). Inr (Some h, txn, s))
               else Inr (None, txn, s)) (\<lambda>(table, txn, s).
        let table_oid = cat_next_table_oid cat;
            meta = \<lparr>ti_schema = schema, ti_name = table_name, ti_table = table, ti_oid = table_oid\<rparr>
        in Inr (Some meta,
             cat\<lparr>cat_next_table_oid := table_oid + 1, cat_tables := emplace table_oid meta (cat_tables cat),
                 cat_table_names := emplace table_name table_oid (cat_table_names cat),
                 cat_index_names := emplace table_name [] (cat_index_names cat)\<rparr>, txn, s)))"

definition GetTableByOid :: "oid \<Rightarrow> catalog \<Rightarrow> table_info option" where
  "GetTableByOid table_oid cat = alist_find (cat_tables cat) table_oid"

definition GetTable :: "string \<Rightarrow> catalog \<Rightarrow> exc + table_info option" where
  "GetTable table_name cat = (case alist_find (cat_table_names cat) table_name of
       None \<Rightarrow> Inr None
     | Some table_oid \<Rightarrow> (case alist_find (cat_tables cat) table_oid of
           None \<Rightarrow> Inl exc.Assert_Failed
         | Some meta \<Rightarrow> Inr (Some meta)))"

definition GetTableNames :: "catalog \<Rightarrow> string list" where
  "GetTableNames cat = map fst (cat_table_names cat)"

section \<open>Indexes\<close>

text \<open>The loop that inserts the rows of the table.\<close>

partial_function (option) populate :: "'d double_ops \<Rightarrow> nat \<Rightarrow> bool \<Rightarrow> schema \<Rightarrow> schema \<Rightarrow> index_metadata \<Rightarrow> table_iterator \<Rightarrow>
    btree \<times> transaction \<times> bpm \<Rightarrow> (db_error + btree \<times> transaction \<times> bpm) option" where
  "populate D ks lg schema key_schema meta it st = (case st of (tree, txn, s) \<Rightarrow>
     if iterator_eq it (TableHeap_End (it_heap it)) then Some (Inr st)
     else case page_call (KeyFromTuple D schema key_schema (im_key_attrs meta) (it_tuple it)) of
       Inl e \<Rightarrow> Some (Inl e)
     | Inr key \<Rightarrow> (case InsertEntry D ks (im_key_schema meta) tree key (t_rid (it_tuple it)) s of
         None \<Rightarrow> None
       | Some (Inl e) \<Rightarrow> Some (Inl e)
       | Some (Inr (tree, s)) \<Rightarrow> (case TableIterator_next lg it txn s of
           None \<Rightarrow> None
         | Some (Inl e) \<Rightarrow> Some (Inl e)
         | Some (Inr (it, txn, s)) \<Rightarrow> populate D ks lg schema key_schema meta it (tree, txn, s))))"

definition populate_index :: "'d double_ops \<Rightarrow> nat \<Rightarrow> bool \<Rightarrow> transaction \<Rightarrow> string \<Rightarrow> schema \<Rightarrow> schema \<Rightarrow> index_metadata \<Rightarrow> catalog \<Rightarrow> bpm \<Rightarrow>
    (db_error + btree \<times> transaction \<times> bpm) option" where
  "populate_index D ks lg txn table_name schema key_schema meta cat s = (case page_call (GetTable table_name cat) of
       Inl e \<Rightarrow> Some (Inl e)
     | Inr None \<Rightarrow> Some (Inl (Page_Error Null_Deref))
     | Inr (Some table_meta) \<Rightarrow> (case ti_table table_meta of
         None \<Rightarrow> Some (Inl (Page_Error Null_Deref))
       | Some table_heap \<Rightarrow> (case TableHeap_Begin lg table_heap txn s of
           None \<Rightarrow> None
         | Some (Inl e) \<Rightarrow> Some (Inl e)
         | Some (Inr (it, txn, s)) \<Rightarrow> populate D ks lg schema key_schema meta it (new_BPlusTreeIndex ks (im_name meta), txn, s))))"

definition register_index :: "string \<Rightarrow> string \<Rightarrow> schema \<Rightarrow> nat \<Rightarrow> index_metadata \<Rightarrow> (string \<times> oid) list \<Rightarrow> btree \<Rightarrow> catalog \<Rightarrow>
    index_info \<times> catalog" where
  "register_index index_name table_name key_schema keysize meta table_indexes tree cat =
     (let index_oid = cat_next_index_oid cat;
          info = \<lparr>ii_key_schema = key_schema, ii_name = index_name, ii_metadata = meta, ii_tree = tree, ii_oid = index_oid,
                  ii_table_name = table_name, ii_key_size = keysize\<rparr>
      in (info, cat\<lparr>cat_next_index_oid := index_oid + 1, cat_indexes := emplace index_oid info (cat_indexes cat),
            cat_index_names := alist_assign (cat_index_names cat) table_name (emplace index_name index_oid table_indexes)\<rparr>))"

definition CreateIndex :: "'d double_ops \<Rightarrow> nat \<Rightarrow> bool \<Rightarrow> transaction \<Rightarrow> string \<Rightarrow> string \<Rightarrow> schema \<Rightarrow> schema \<Rightarrow> nat list \<Rightarrow> nat \<Rightarrow>
    catalog \<Rightarrow> bpm \<Rightarrow> (db_error + index_info option \<times> catalog \<times> transaction \<times> bpm) option" where
  "CreateIndex D ks lg txn index_name table_name schema key_schema key_attrs keysize cat s =
     (if alist_find (cat_table_names cat) table_name = None then Some (Inr (None, cat, txn, s))
      else case alist_find (cat_index_names cat) table_name of
        None \<Rightarrow> Some (Inl (Page_Error exc.Assert_Failed))
      | Some table_indexes \<Rightarrow>
          if alist_find table_indexes index_name \<noteq> None then Some (Inr (None, cat, txn, s))
          else case page_call (new_IndexMetadata index_name table_name schema key_attrs) of
            Inl e \<Rightarrow> Some (Inl e)
          | Inr meta \<Rightarrow> (case populate_index D ks lg txn table_name schema key_schema meta cat s of
              None \<Rightarrow> None
            | Some (Inl e) \<Rightarrow> Some (Inl e)
            | Some (Inr (tree, txn, s)) \<Rightarrow>
                (let (info, cat) = register_index index_name table_name key_schema keysize meta table_indexes tree cat
                 in Some (Inr (Some info, cat, txn, s)))))"

definition GetIndex :: "string \<Rightarrow> string \<Rightarrow> catalog \<Rightarrow> exc + index_info option" where
  "GetIndex index_name table_name cat = (case alist_find (cat_index_names cat) table_name of
       None \<Rightarrow> assert_that (alist_find (cat_table_names cat) table_name = None) (Inr None)
     | Some table_indexes \<Rightarrow> (case alist_find table_indexes index_name of
         None \<Rightarrow> Inr None
       | Some index_oid \<Rightarrow> (case alist_find (cat_indexes cat) index_oid of
           None \<Rightarrow> Inl exc.Assert_Failed
         | Some info \<Rightarrow> Inr (Some info))))"

definition GetIndexOfTable :: "string \<Rightarrow> oid \<Rightarrow> catalog \<Rightarrow> exc + index_info option" where
  "GetIndexOfTable index_name table_oid cat = (case alist_find (cat_tables cat) table_oid of
       None \<Rightarrow> Inr None
     | Some table_meta \<Rightarrow> GetIndex index_name (ti_name table_meta) cat)"

definition GetIndexByOid :: "oid \<Rightarrow> catalog \<Rightarrow> index_info option" where
  "GetIndexByOid index_oid cat = alist_find (cat_indexes cat) index_oid"

fun find_indexes :: "(oid \<times> index_info) list \<Rightarrow> (string \<times> oid) list \<Rightarrow> exc + index_info list" where
  "find_indexes indexes [] = Inr []"
| "find_indexes indexes ((name, index_oid) # table_indexes) = (case alist_find indexes index_oid of
       None \<Rightarrow> Inl exc.Assert_Failed
     | Some info \<Rightarrow> ebind (find_indexes indexes table_indexes) (\<lambda>infos. Inr (info # infos)))"

definition GetTableIndexes :: "string \<Rightarrow> catalog \<Rightarrow> exc + index_info list" where
  "GetTableIndexes table_name cat =
     (if alist_find (cat_table_names cat) table_name = None then Inr []
      else case alist_find (cat_index_names cat) table_name of
        None \<Rightarrow> Inl exc.Assert_Failed
      | Some table_indexes \<Rightarrow> find_indexes (cat_indexes cat) table_indexes)"

section \<open>Consistency\<close>

text \<open>Identifiers are given out in order, the two maps from table names have the same keys, and every
  identifier that a name maps to has an entry that carries the name.\<close>

definition cat_ok :: "nat \<Rightarrow> nat \<Rightarrow> catalog \<Rightarrow> bool" where
  "cat_ok k m cat \<longleftrightarrow>
     map fst (cat_tables cat) = map word_of_nat [0..<k] \<and> cat_next_table_oid cat = word_of_nat k \<and>
     map fst (cat_indexes cat) = map word_of_nat [0..<m] \<and> cat_next_index_oid cat = word_of_nat m \<and>
     map fst (cat_index_names cat) = map fst (cat_table_names cat) \<and> distinct (map fst (cat_table_names cat)) \<and>
     (\<forall>name oid. map_of (cat_table_names cat) name = Some oid \<longrightarrow>
        (\<exists>ti. map_of (cat_tables cat) oid = Some ti \<and> ti_name ti = name \<and> ti_oid ti = oid)) \<and>
     (\<forall>name idx. map_of (cat_index_names cat) name = Some idx \<longrightarrow> distinct (map fst idx) \<and>
        (\<forall>i oid. map_of idx i = Some oid \<longrightarrow>
           (\<exists>ii. map_of (cat_indexes cat) oid = Some ii \<and> ii_name ii = i \<and> ii_table_name ii = name \<and> ii_oid ii = oid)))"

lemma cat_okD:
  assumes "cat_ok k m cat"
  shows "map fst (cat_tables cat) = map word_of_nat [0..<k]" "cat_next_table_oid cat = word_of_nat k"
    "map fst (cat_indexes cat) = map word_of_nat [0..<m]" "cat_next_index_oid cat = word_of_nat m"
    "map fst (cat_index_names cat) = map fst (cat_table_names cat)" "distinct (map fst (cat_table_names cat))"
    "map_of (cat_table_names cat) name = Some oid \<Longrightarrow> \<exists>ti. map_of (cat_tables cat) oid = Some ti \<and> ti_name ti = name \<and> ti_oid ti = oid"
    "map_of (cat_index_names cat) name = Some idx \<Longrightarrow> distinct (map fst idx)"
    "map_of (cat_index_names cat) name = Some idx \<Longrightarrow> map_of idx i = Some oid \<Longrightarrow>
      \<exists>ii. map_of (cat_indexes cat) oid = Some ii \<and> ii_name ii = i \<and> ii_table_name ii = name \<and> ii_oid ii = oid"
  using assms unfolding cat_ok_def by blast+

lemma cat_okI:
  assumes "\<And>name oid. map_of (cat_table_names cat) name = Some oid \<Longrightarrow> \<exists>ti. map_of (cat_tables cat) oid = Some ti \<and> ti_name ti = name \<and> ti_oid ti = oid"
    and "\<And>name idx. map_of (cat_index_names cat) name = Some idx \<Longrightarrow> distinct (map fst idx)"
    and "\<And>name idx i oid. map_of (cat_index_names cat) name = Some idx \<Longrightarrow> map_of idx i = Some oid \<Longrightarrow>
      \<exists>ii. map_of (cat_indexes cat) oid = Some ii \<and> ii_name ii = i \<and> ii_table_name ii = name \<and> ii_oid ii = oid"
    and "map fst (cat_tables cat) = map word_of_nat [0..<k]" "cat_next_table_oid cat = word_of_nat k"
    "map fst (cat_indexes cat) = map word_of_nat [0..<m]" "cat_next_index_oid cat = word_of_nat m"
    "map fst (cat_index_names cat) = map fst (cat_table_names cat)" "distinct (map fst (cat_table_names cat))"
  shows "cat_ok k m cat"
  unfolding cat_ok_def using assms by blast

lemma emplace_fresh: "k \<notin> fst ` set kvs \<Longrightarrow> emplace k v kvs = kvs @ [(k, v)]"
  by (auto simp: emplace_def map_of_eq_None_iff)

lemma fresh_oid:
  assumes "map fst kvs = map (word_of_nat :: nat \<Rightarrow> oid) [0..<k]" and "k < 4294967296"
  shows "(word_of_nat k :: oid) \<notin> fst ` set kvs"
proof
  assume "(word_of_nat k :: oid) \<in> fst ` set kvs"
  then have "(word_of_nat k :: oid) \<in> set (map word_of_nat [0..<k])" using assms(1) by (metis set_map)
  then obtain j where j: "j < k" "(word_of_nat k :: oid) = word_of_nat j" by auto
  then have "unat (word_of_nat k :: oid) = unat (word_of_nat j :: oid)" by simp
  then show False using j(1) assms(2) by (simp add: unat_of_nat)
qed

lemma CreateTable_ok:
  assumes ok: "cat_ok k m cat" "k < 4294967296" and c: "CreateTable lg txn name schema b cat s = Inr (r, cat', txn', s')"
  shows "case r of
      None \<Rightarrow> cat' = cat \<and> name \<in> fst ` set (cat_table_names cat)
    | Some ti \<Rightarrow> cat_ok (Suc k) m cat' \<and> name \<notin> fst ` set (cat_table_names cat) \<and> ti_name ti = name \<and> ti_schema ti = schema \<and>
        GetTable name cat' = Inr (Some ti) \<and> (\<forall>n. n \<noteq> name \<longrightarrow> GetTable n cat' = GetTable n cat)"
proof (cases "map_of (cat_table_names cat) name")
  case (Some oid)
  then show ?thesis using c by (auto simp: CreateTable_def dest: map_of_SomeD intro: rev_image_eqI)
next
  case None
  note D = cat_okD [OF ok(1)]
  let ?oid = "word_of_nat k :: oid"
  have fresh: "?oid \<notin> fst ` set (cat_tables cat)" by (rule fresh_oid [OF D(1) ok(2)])
  have new: "name \<notin> fst ` set (cat_table_names cat)" "name \<notin> fst ` set (cat_index_names cat)"
    using None D(5) by (auto simp: map_of_eq_None_iff) (metis image_eqI fst_conv set_map)
  obtain ti where r: "r = Some ti" and ti: "ti_schema ti = schema" "ti_name ti = name" "ti_oid ti = ?oid"
    and cat': "cat' = cat\<lparr>cat_next_table_oid := ?oid + 1, cat_tables := cat_tables cat @ [(?oid, ti)],
      cat_table_names := cat_table_names cat @ [(name, ?oid)], cat_index_names := cat_index_names cat @ [(name, [])]\<rparr>"
    using c None fresh new D(2) by (auto simp: CreateTable_def Let_def emplace_fresh ebind_def split: if_splits sum.splits)
  have old: "oid \<noteq> ?oid" if "map_of (cat_table_names cat) n = Some oid" for n oid
    using D(7) [OF that] fresh by (auto dest!: map_of_SomeD intro: rev_image_eqI)
  have maps: "map_of (cat_tables cat') = (map_of (cat_tables cat))(?oid \<mapsto> ti)" "map_of (cat_table_names cat') = (map_of (cat_table_names cat))(name \<mapsto> ?oid)"
      "map_of (cat_index_names cat') = (map_of (cat_index_names cat))(name \<mapsto> [])" "cat_indexes cat' = cat_indexes cat"
    using fresh new by (simp_all add: cat' map_of_snoc del: map_of_append)
  have "cat_ok (Suc k) m cat'"
  proof (rule cat_okI)
    show "\<exists>t. map_of (cat_tables cat') oid = Some t \<and> ti_name t = n \<and> ti_oid t = oid" if "map_of (cat_table_names cat') n = Some oid" for n oid
      using that D(7) [of n oid] old [of n oid] ti by (cases "n = name") (simp_all add: maps)
    show "distinct (map fst idx)" if "map_of (cat_index_names cat') n = Some idx" for n idx
      using that D(8) [of n idx] by (cases "n = name") (simp_all add: maps)
    show "\<exists>ii. map_of (cat_indexes cat') oid = Some ii \<and> ii_name ii = i \<and> ii_table_name ii = n \<and> ii_oid ii = oid"
      if "map_of (cat_index_names cat') n = Some idx" "map_of idx i = Some oid" for n idx i oid
      using that D(9) [of n idx i oid] by (cases "n = name") (simp_all add: maps)
  qed (use D(1-6) new(1) in \<open>simp_all add: cat' add.commute\<close>)
  moreover have "GetTable name cat' = Inr (Some ti)" by (simp add: GetTable_def maps)
  moreover have "GetTable n cat' = GetTable n cat" if "n \<noteq> name" for n
    using that old [of n] by (cases "map_of (cat_table_names cat) n") (simp_all add: GetTable_def maps)
  ultimately show ?thesis using r ti new by simp
qed

lemma find_indexes_snoc:
  assumes "\<forall>e \<in> set idx. snd e \<noteq> oid" and "oid \<notin> fst ` set indexes"
  shows "find_indexes (indexes @ [(oid, info)]) (idx @ [(name, oid)]) = ebind (find_indexes indexes idx) (\<lambda>is. Inr (is @ [info]))"
  using assms
proof (induction idx)
  case (Cons e idx)
  obtain i x where e: "e = (i, x)" by (cases e)
  have "map_of (indexes @ [(oid, info)]) x = map_of indexes x" using Cons.prems e by (simp add: map_of_snoc del: map_of_append)
  then show ?case using Cons e by (cases "map_of indexes x") (auto simp: ebind_def split: sum.split simp del: map_of_append)
qed (simp add: map_of_snoc del: map_of_append)

lemma register_index_ok:
  assumes ok: "cat_ok k m cat" "m < 4294967296" and idx: "map_of (cat_index_names cat) table = Some idx" "map_of idx name = None"
    and r: "register_index name table key_schema keysize meta idx tree cat = (info, cat')"
  shows "cat_ok k (Suc m) cat'" and "GetIndex name table cat' = Inr (Some info)"
    and "GetTableIndexes table cat' = ebind (GetTableIndexes table cat) (\<lambda>is. Inr (is @ [info]))"
    and "(i, t) \<noteq> (name, table) \<Longrightarrow> GetIndex i t cat' = GetIndex i t cat"
    and "cat_tables cat' = cat_tables cat" "cat_table_names cat' = cat_table_names cat"
proof -
  note D = cat_okD [OF ok(1)]
  let ?oid = "word_of_nat m :: oid"
  have fresh: "?oid \<notin> fst ` set (cat_indexes cat)" by (rule fresh_oid [OF D(3) ok(2)])
  have new: "name \<notin> fst ` set idx" using idx(2) by (simp add: map_of_eq_None_iff)
  have tab: "table \<in> fst ` set (cat_index_names cat)" using idx(1) by (auto dest: map_of_SomeD intro: rev_image_eqI)
  have info: "ii_name info = name" "ii_table_name info = table" "ii_oid info = ?oid"
    and cat': "cat' = cat\<lparr>cat_next_index_oid := ?oid + 1, cat_indexes := cat_indexes cat @ [(?oid, info)],
      cat_index_names := alist_assign (cat_index_names cat) table (idx @ [(name, ?oid)])\<rparr>"
    using r D(4) emplace_fresh [OF fresh] emplace_fresh [OF new] by (auto simp: register_index_def Let_def)
  have maps: "map_of (cat_indexes cat') = (map_of (cat_indexes cat))(?oid \<mapsto> info)"
      "map_of (cat_index_names cat') = (map_of (cat_index_names cat))(table \<mapsto> idx @ [(name, ?oid)])"
      "map_of (idx @ [(name, ?oid)]) = (map_of idx)(name \<mapsto> ?oid)"
    using fresh new tab by (simp_all add: cat' map_of_snoc map_of_alist_assign del: map_of_append)
  have old: "oid \<noteq> ?oid" if "map_of (cat_index_names cat) t = Some x" "map_of x i = Some oid" for t x i oid
    using D(9) [OF that] fresh by (auto dest!: map_of_SomeD intro: rev_image_eqI)
  show "cat_tables cat' = cat_tables cat" and names: "cat_table_names cat' = cat_table_names cat" by (simp_all add: cat')
  show "cat_ok k (Suc m) cat'"
  proof (rule cat_okI)
    show "\<exists>ii. map_of (cat_indexes cat') oid = Some ii \<and> ii_name ii = i \<and> ii_table_name ii = t \<and> ii_oid ii = oid"
      if "map_of (cat_index_names cat') t = Some x" "map_of x i = Some oid" for t x i oid
    proof (cases "t = table")
      case True
      then have x: "x = idx @ [(name, ?oid)]" using that(1) by (simp add: maps)
      show ?thesis using that(2) D(9) [OF idx(1), of i oid] old [OF idx(1), of i oid] info True
        by (cases "i = name") (simp_all add: maps x del: map_of_append)
    next
      case False
      then show ?thesis using that D(9) [of t x i oid] old [of t x i oid] by (simp add: maps)
    qed
    show "distinct (map fst x)" if "map_of (cat_index_names cat') t = Some x" for t x
      using that D(8) [of t x] D(8) [OF idx(1)] new by (cases "t = table") (auto simp: maps)
  qed (use D(1-7) in \<open>simp_all add: cat' add.commute\<close>)
  show "GetIndex name table cat' = Inr (Some info)" by (simp add: GetIndex_def maps del: map_of_append)
  show "GetIndex i t cat' = GetIndex i t cat" if "(i, t) \<noteq> (name, table)"
  proof (cases "t = table")
    case True
    then show ?thesis using that idx(1) old [OF idx(1), of i] by (cases "map_of idx i") (simp_all add: GetIndex_def maps del: map_of_append)
  next
    case False
    then show ?thesis
      using old [of t] by (cases "map_of (cat_index_names cat) t") (auto simp: GetIndex_def maps names split: option.split)
  qed
  have "\<forall>e \<in> set idx. snd e \<noteq> ?oid" using old [OF idx(1)] D(8) [OF idx(1)] by (metis map_of_is_SomeI prod.collapse)
  note snoc = find_indexes_snoc [OF this fresh, of info name]
  have "table \<in> set (map fst (cat_table_names cat))" using tab unfolding D(5) [symmetric] by simp
  then have found: "map_of (cat_table_names cat) table \<noteq> None" by (simp add: map_of_eq_None_iff)
  have "cat_indexes cat' = cat_indexes cat @ [(?oid, info)]" by (simp add: cat')
  then show "GetTableIndexes table cat' = ebind (GetTableIndexes table cat) (\<lambda>is. Inr (is @ [info]))"
    unfolding GetTableIndexes_def alist_find_eq names maps using idx(1) found snoc by auto
qed

lemma CreateIndex_ok:
  assumes ok: "cat_ok k m cat" "m < 4294967296"
    and c: "CreateIndex D ks lg txn name table schema key_schema key_attrs keysize cat s = Some (Inr (r, cat', txn', s'))"
  shows "case r of None \<Rightarrow> cat' = cat | Some info \<Rightarrow> cat_ok k (Suc m) cat' \<and> GetIndex name table cat' = Inr (Some info)"
proof (cases "map_of (cat_table_names cat) table")
  case None
  then show ?thesis using c by (auto simp: CreateIndex_def)
next
  case (Some oid)
  then obtain idx where idx: "map_of (cat_index_names cat) table = Some idx"
    using c by (auto simp: CreateIndex_def split: option.splits)
  show ?thesis
  proof (cases "map_of idx name")
    case None
    then obtain meta tree info where "r = Some info" "register_index name table key_schema keysize meta idx tree cat = (info, cat')"
      using c Some idx by (auto simp: CreateIndex_def Let_def split: option.splits sum.splits prod.splits)
    then show ?thesis using register_index_ok(1,2) [OF ok idx None] by auto
  next
    case (Some x)
    then show ?thesis using c idx \<open>map_of (cat_table_names cat) table = Some oid\<close> by (auto simp: CreateIndex_def)
  qed
qed

inductive catalog_run :: "'d double_ops \<Rightarrow> nat \<Rightarrow> catalog \<Rightarrow> bool" for D where
  start: "catalog_run D 0 new_catalog"
| table: "catalog_run D n cat \<Longrightarrow> CreateTable lg txn name schema b cat s = Inr (r, cat', txn', s') \<Longrightarrow> catalog_run D (Suc n) cat'"
| index: "catalog_run D n cat \<Longrightarrow>
    CreateIndex D ks lg txn name table_name schema key_schema key_attrs keysize cat s = Some (Inr (r, cat', txn', s')) \<Longrightarrow>
    catalog_run D (Suc n) cat'"

lemma catalog_run_ok: "catalog_run D n cat \<Longrightarrow> n < 4294967296 \<Longrightarrow> \<exists>k m. k + m \<le> n \<and> cat_ok k m cat"
proof (induction rule: catalog_run.induct)
  case start
  have "cat_ok 0 0 new_catalog" by (rule cat_okI) (simp_all add: new_catalog_def)
  then show ?case by force
next
  case (table n cat lg txn name schema b s r cat' txn' s')
  then obtain k m where km: "k + m \<le> n" "cat_ok k m cat" by auto
  show ?case
  proof (cases r)
    case None
    then show ?thesis using CreateTable_ok [OF km(2) _ table.hyps(2)] km table.prems by (intro exI [of _ k] exI [of _ m]) simp
  next
    case (Some ti)
    then show ?thesis using CreateTable_ok [OF km(2) _ table.hyps(2)] km table.prems by (intro exI [of _ "Suc k"] exI [of _ m]) simp
  qed
next
  case (index n cat ks lg txn name table_name schema key_schema key_attrs keysize s r cat' txn' s')
  then obtain k m where km: "k + m \<le> n" "cat_ok k m cat" by auto
  show ?case
  proof (cases r)
    case None
    then show ?thesis using CreateIndex_ok [OF km(2) _ index.hyps(2)] km index.prems by (intro exI [of _ k] exI [of _ m]) simp
  next
    case (Some info)
    then show ?thesis using CreateIndex_ok [OF km(2) _ index.hyps(2)] km index.prems by (intro exI [of _ k] exI [of _ "Suc m"]) simp
  qed
qed

lemma find_indexes_total:
  assumes "distinct (map fst idx)" and "\<And>i oid. map_of idx i = Some oid \<Longrightarrow> \<exists>ii. map_of indexes oid = Some ii"
  shows "\<exists>is. find_indexes indexes idx = Inr is \<and> (\<forall>ii. ii \<in> set is \<longleftrightarrow> (\<exists>i oid. map_of idx i = Some oid \<and> map_of indexes oid = Some ii))"
  using assms
proof (induction idx)
  case (Cons e idx)
  obtain i x where e: "e = (i, x)" by (cases e)
  have i: "map_of idx i = None" using Cons.prems(1) e by (simp add: map_of_eq_None_iff)
  have "\<exists>ii. map_of indexes oid = Some ii" if "map_of idx j = Some oid" for j oid
    using Cons.prems(2) [of j oid] that i e by (cases "j = i") simp_all
  with Cons.IH Cons.prems(1) obtain infos where infos: "find_indexes indexes idx = Inr infos"
    "\<And>ii. ii \<in> set infos \<longleftrightarrow> (\<exists>i oid. map_of idx i = Some oid \<and> map_of indexes oid = Some ii)" by auto
  obtain info where info: "map_of indexes x = Some info" using Cons.prems(2) [of i x] e by auto
  have "(\<exists>j oid. map_of (e # idx) j = Some oid \<and> map_of indexes oid = Some ii) \<longleftrightarrow> ii = info \<or> ii \<in> set infos" for ii
  proof
    assume "\<exists>j oid. map_of (e # idx) j = Some oid \<and> map_of indexes oid = Some ii"
    then show "ii = info \<or> ii \<in> set infos" using infos(2) [of ii] info e by (auto split: if_splits)
  next
    assume "ii = info \<or> ii \<in> set infos"
    then show "\<exists>j oid. map_of (e # idx) j = Some oid \<and> map_of indexes oid = Some ii"
    proof
      assume "ii \<in> set infos"
      then obtain j oid where "map_of idx j = Some oid" "map_of indexes oid = Some ii" using infos(2) by blast
      moreover from this have "j \<noteq> i" using i by auto
      ultimately show ?thesis using e by (intro exI [of _ j] exI [of _ oid]) simp
    qed (use info e in auto)
  qed
  then show ?case using infos(1) info e by simp
qed simp

text \<open>C21. Whatever tables and indexes are created, fewer than \<open>2\<^sup>3\<^sup>2\<close> of them, no assertion of the catalog fails
  and its maps agree: a table found by name carries that name and is found again by its identifier,
  an index found by its name and table carries both and is found again by its identifier, and the list
  of the indexes of a table holds exactly those.\<close>

theorem catalog_consistent:
  assumes "catalog_run D n cat" and "n < 4294967296"
  shows "(\<exists>r. GetTable name cat = Inr r \<and> (\<forall>ti. r = Some ti \<longrightarrow> ti_name ti = name \<and> GetTableByOid (ti_oid ti) cat = Some ti)) \<and>
    (\<exists>r. GetIndex i name cat = Inr r \<and>
      (\<forall>ii. r = Some ii \<longrightarrow> ii_name ii = i \<and> ii_table_name ii = name \<and> GetIndexByOid (ii_oid ii) cat = Some ii)) \<and>
    (\<exists>is. GetTableIndexes name cat = Inr is \<and> (\<forall>ii. ii \<in> set is \<longleftrightarrow> (\<exists>j. GetIndex j name cat = Inr (Some ii))))"
proof -
  obtain k m where "cat_ok k m cat" using catalog_run_ok [OF assms] by blast
  note D = cat_okD [OF this]
  have keys: "map_of (cat_table_names cat) name = None \<longleftrightarrow> map_of (cat_index_names cat) name = None"
    using D(5) by (simp only: map_of_eq_None_iff set_map [symmetric])
  show ?thesis
  proof (cases "map_of (cat_table_names cat) name")
    case None
    then show ?thesis using keys by (simp add: GetTable_def GetIndex_def GetTableIndexes_def)
  next
    case (Some oid)
    obtain ti where ti: "map_of (cat_tables cat) oid = Some ti" "ti_name ti = name" "ti_oid ti = oid" using D(7) [OF Some] by blast
    obtain idx where idx: "map_of (cat_index_names cat) name = Some idx" using keys Some by auto
    note D9 = D(9) [OF idx]
    obtain infos where infos: "find_indexes (cat_indexes cat) idx = Inr infos"
      "\<And>ii. ii \<in> set infos \<longleftrightarrow> (\<exists>i oid. map_of idx i = Some oid \<and> map_of (cat_indexes cat) oid = Some ii)"
      using find_indexes_total [OF D(8) [OF idx], of "cat_indexes cat"] D9 by blast
    have get: "GetIndex j name cat = Inr (Some ii) \<longleftrightarrow> (\<exists>oid. map_of idx j = Some oid \<and> map_of (cat_indexes cat) oid = Some ii)" for j ii
      using idx by (auto simp: GetIndex_def split: option.splits)
    have "\<exists>r. GetIndex i name cat = Inr r \<and>
        (\<forall>ii. r = Some ii \<longrightarrow> ii_name ii = i \<and> ii_table_name ii = name \<and> GetIndexByOid (ii_oid ii) cat = Some ii)"
      using idx D9 [of i] by (cases "map_of idx i") (auto simp: GetIndex_def GetIndexByOid_def)
    moreover have "GetTableIndexes name cat = Inr infos" using Some idx infos(1) by (simp add: GetTableIndexes_def)
    moreover have "GetTable name cat = Inr (Some ti)" using Some ti by (simp add: GetTable_def)
    ultimately show ?thesis using infos(2) get ti by (auto simp: GetTableByOid_def)
  qed
qed

theorem catalog_consistent_witness:
  "\<exists>cat ti. catalog_run int_double 1 cat \<and> GetTable ''t'' cat = Inr (Some ti) \<and> GetTableByOid (ti_oid ti) cat = Some ti \<and>
     GetIndex ''i'' ''t'' cat = Inr None \<and> GetTableIndexes ''t'' cat = Inr []"
proof -
  obtain ti cat t s where c: "CreateTable False (new_transaction 0 REPEATABLE_READ) ''t'' (new_schema example_columns) False new_catalog
      (new_bpm 2 (new_disk_manager [] []) 2) = Inr (Some ti, cat, t, s)" and cat: "cat_index_names cat = [(''t'', [])]" "GetTable ''t'' cat = Inr (Some ti)"
    by (simp add: CreateTable_def new_catalog_def emplace_def GetTable_def Let_def)
  have run: "catalog_run int_double 1 cat" using catalog_run.table [OF catalog_run.start c] by simp
  have "GetIndex ''i'' ''t'' cat = Inr None" by (simp add: GetIndex_def cat(1))
  then show ?thesis using catalog_consistent [OF run, of "''t''" "''i''"] run cat by (auto simp: GetTableIndexes_def split: if_splits)
qed

end
