(* ===== verification/Plan.thy ===== *)
theory Plan
  imports Expression Catalog
begin

text \<open>
  Query plans and the optimizer: the plan nodes of \<^verbatim>\<open>execution/plans\<close>, the inference of their output
  schemas (\<^verbatim>\<open>execution/plan_node.cpp\<close>) and the rewrite rules of \<^verbatim>\<open>optimizer\<close>.  A plan node is its output
  schema, the members of its class and its children; a rule is a function that may throw.
\<close>

section \<open>Plan nodes\<close>

datatype join_type = Invalid_Join | Left_Join | Right_Join | Inner_Join | Outer_Join
datatype order_by_type = Invalid_Order | Default_Order | Asc_Order | Desc_Order
datatype aggregation_type = CountStarAggregate | CountAggregate | SumAggregate | MinAggregate | MaxAggregate

datatype 'd node =
    SeqScan oid string "'d expr option"
  | IndexScan oid
  | InsertNode oid
  | UpdateNode oid "'d expr list"
  | DeleteNode oid
  | Aggregation "'d expr list" "'d expr list" "aggregation_type list"
  | Limit nat
  | NestedLoopJoin "'d expr" join_type
  | NestedIndexJoin "'d expr" oid oid string string schema join_type
  | HashJoin "'d expr" "'d expr" join_type
  | Filter "'d expr"
  | ValuesNode "'d expr list list"
  | Projection "'d expr list"
  | Sort "(order_by_type \<times> 'd expr) list"
  | TopN "(order_by_type \<times> 'd expr) list" nat
  | MockScan string

datatype 'd plan = Plan (output_schema: schema) (plan_node: "'d node") (plan_children: "'d plan list")

definition CloneWithChildren :: "'d plan \<Rightarrow> 'd plan list \<Rightarrow> 'd plan" where
  "CloneWithChildren p children = Plan (output_schema p) (plan_node p) children"

section \<open>Output schemas\<close>

text \<open>A loop that builds a vector and stops at the first exception.\<close>

fun emap :: "('a \<Rightarrow> 'e + 'b) \<Rightarrow> 'a list \<Rightarrow> 'e + 'b list" where
  "emap f [] = Inr []"
| "emap f (x # xs) = ebind (f x) (\<lambda>y. ebind (emap f xs) (\<lambda>ys. Inr (y # ys)))"

definition InferScanSchema :: "string \<Rightarrow> schema \<Rightarrow> schema" where
  "InferScanSchema bound_table_name schema =
     new_schema (map (\<lambda>column. Column_rename (bound_table_name @ ''.'' @ column_name column) column) (columns schema))"

definition unnamed_column :: "'d expr \<Rightarrow> exc + column" where
  "unnamed_column e = (if GetReturnType e \<noteq> VARCHAR then Column_fixed ''<unnamed>'' (GetReturnType e)
     else Column_varlen ''<unnamed>'' (GetReturnType e) 128)"

definition InferProjectionSchema :: "'d expr list \<Rightarrow> exc + schema" where
  "InferProjectionSchema exprs = ebind (emap unnamed_column exprs) (\<lambda>cols. Inr (new_schema cols))"

definition RenameSchema :: "schema \<Rightarrow> string list \<Rightarrow> exc + schema" where
  "RenameSchema schema col_names =
     (if length col_names \<noteq> length (columns schema) then Inl INVALID_EXC
      else Inr (new_schema (map2 Column_rename col_names (columns schema))))"

definition InferAggSchema :: "'d expr list \<Rightarrow> 'd expr list \<Rightarrow> aggregation_type list \<Rightarrow> exc + schema" where
  "InferAggSchema group_bys aggregates agg_types =
     ebind (emap unnamed_column group_bys) (\<lambda>groups.
     ebind (emap (\<lambda>_. Column_fixed ''<unnamed>'' INTEGER) aggregates) (\<lambda>aggs. Inr (new_schema (groups @ aggs))))"

section \<open>Rewrite rules\<close>

text \<open>Every rule first rewrites the children, then looks at the node.\<close>

fun bottom_up :: "('d plan \<Rightarrow> exc + 'd plan) \<Rightarrow> 'd plan \<Rightarrow> exc + 'd plan"
  and bottom_up_all :: "('d plan \<Rightarrow> exc + 'd plan) \<Rightarrow> 'd plan list \<Rightarrow> exc + 'd plan list" where
  "bottom_up rule (Plan schema nd children) =
     ebind (bottom_up_all rule children) (\<lambda>children. rule (CloneWithChildren (Plan schema nd children) children))"
| "bottom_up_all rule [] = Inr []"
| "bottom_up_all rule (p # ps) = ebind (bottom_up rule p) (\<lambda>p. ebind (bottom_up_all rule ps) (\<lambda>ps. Inr (p # ps)))"

text \<open>The index of the loop over the expressions of a projection.\<close>

fun is_identical :: "nat \<Rightarrow> 'd expr list \<Rightarrow> bool" where
  "is_identical idx [] = True"
| "is_identical idx (e # es) = (case e of
       Column_Value tuple_idx col_idx ret_type \<Rightarrow> tuple_idx = 0 \<and> col_idx = idx \<and> is_identical (idx + 1) es
     | _ \<Rightarrow> False)"

definition merge_projection :: "'d plan \<Rightarrow> exc + 'd plan" where
  "merge_projection p = (case plan_node p of
       Projection exprs \<Rightarrow> (case plan_children p of
           [child] \<Rightarrow>
             if map column_type (columns (output_schema child)) = map column_type (columns (output_schema p)) \<and> is_identical 0 exprs
             then Inr (Plan (output_schema p) (plan_node child) (plan_children child)) else Inr p
         | _ \<Rightarrow> Inl Std_Logic_Error)
     | _ \<Rightarrow> Inr p)"

definition OptimizeMergeProjection :: "'d plan \<Rightarrow> exc + 'd plan" where
  "OptimizeMergeProjection = bottom_up merge_projection"

definition IsPredicateTrue :: "'d double_ops \<Rightarrow> 'd expr \<Rightarrow> exc + bool" where
  "IsPredicateTrue D e = (case e of
       Constant_Value v \<Rightarrow> ebind (CastAs D v BOOLEAN) (GetAs_bool D)
     | _ \<Rightarrow> Inr False)"

definition merge_filter_nlj :: "'d double_ops \<Rightarrow> 'd plan \<Rightarrow> exc + 'd plan" where
  "merge_filter_nlj D p = (case plan_node p of
       Filter predicate \<Rightarrow> (case plan_children p of
           [child] \<Rightarrow> (case plan_node child of
               NestedLoopJoin join_predicate join_type \<Rightarrow> (case plan_children child of
                   [left, right] \<Rightarrow> ebind (IsPredicateTrue D join_predicate) (\<lambda>always.
                     if always
                     then ebind (RewriteExpressionForJoin predicate (length (columns (output_schema left))) (length (columns (output_schema right))))
                       (\<lambda>predicate. Inr (Plan (output_schema p) (NestedLoopJoin predicate join_type) [left, right]))
                     else Inr p)
                 | _ \<Rightarrow> Inl Std_Logic_Error)
             | _ \<Rightarrow> Inr p)
         | _ \<Rightarrow> Inl Std_Logic_Error)
     | _ \<Rightarrow> Inr p)"

definition OptimizeMergeFilterNLJ :: "'d double_ops \<Rightarrow> 'd plan \<Rightarrow> exc + 'd plan" where
  "OptimizeMergeFilterNLJ D = bottom_up (merge_filter_nlj D)"

definition merge_filter_scan :: "'d plan \<Rightarrow> exc + 'd plan" where
  "merge_filter_scan p = (case plan_node p of
       Filter predicate \<Rightarrow> (case plan_children p of
           [child] \<Rightarrow> (case plan_node child of
               SeqScan table_oid table_name None \<Rightarrow> Inr (Plan (output_schema p) (SeqScan table_oid table_name (Some predicate)) [])
             | _ \<Rightarrow> Inr p)
         | _ \<Rightarrow> Inl exc.Assert_Failed)
     | _ \<Rightarrow> Inr p)"

definition OptimizeMergeFilterScan :: "'d plan \<Rightarrow> exc + 'd plan" where
  "OptimizeMergeFilterScan = bottom_up merge_filter_scan"

definition eliminate_true_filter :: "'d double_ops \<Rightarrow> 'd plan \<Rightarrow> exc + 'd plan" where
  "eliminate_true_filter D p = (case plan_node p of
       Filter predicate \<Rightarrow> ebind (IsPredicateTrue D predicate) (\<lambda>always.
         if always then (case plan_children p of [child] \<Rightarrow> Inr child | _ \<Rightarrow> Inl exc.Assert_Failed) else Inr p)
     | _ \<Rightarrow> Inr p)"

definition OptimizeEliminateTrueFilter :: "'d double_ops \<Rightarrow> 'd plan \<Rightarrow> exc + 'd plan" where
  "OptimizeEliminateTrueFilter D = bottom_up (eliminate_true_filter D)"

definition nlj_as_hash_join :: "'d plan \<Rightarrow> exc + 'd plan" where
  "nlj_as_hash_join p = (case plan_node p of
       NestedLoopJoin predicate join_type \<Rightarrow>
         if length (plan_children p) \<noteq> 2 then Inl Std_Logic_Error
         else (case predicate of
             Comparison Equal (Column_Value lt lc lr) (Column_Value rt rc rr) \<Rightarrow>
               if lt = 0 \<and> rt = 1
               then Inr (Plan (output_schema p) (HashJoin (Column_Value 0 lc lr) (Column_Value 0 rc rr) join_type) (plan_children p))
               else if lt = 1 \<and> rt = 0
               then Inr (Plan (output_schema p) (HashJoin (Column_Value 0 rc rr) (Column_Value 0 lc lr) join_type) (plan_children p))
               else Inr p
           | _ \<Rightarrow> Inr p)
     | _ \<Rightarrow> Inr p)"

definition OptimizeNLJAsHashJoin :: "'d plan \<Rightarrow> exc + 'd plan" where
  "OptimizeNLJAsHashJoin = bottom_up nlj_as_hash_join"

section \<open>Rules that look for an index\<close>

definition MatchIndex :: "catalog \<Rightarrow> string \<Rightarrow> nat \<Rightarrow> exc + (oid \<times> string) option" where
  "MatchIndex cat table_name index_key_idx = ebind (GetTableIndexes table_name cat) (\<lambda>indexes.
     Inr (map_option (\<lambda>info. (ii_oid info, ii_name info)) (find (\<lambda>info. [index_key_idx] = im_key_attrs (ii_metadata info)) indexes)))"

text \<open>The join with an index on the right table, whose column is the second argument; the key is
  the column of the left side.\<close>

definition index_join :: "catalog \<Rightarrow> 'd plan \<Rightarrow> join_type \<Rightarrow> 'd expr \<Rightarrow> nat \<Rightarrow> exc + 'd plan" where
  "index_join cat p join_type key column = (case plan_children p of
       [left, right] \<Rightarrow> (case plan_node right of
           SeqScan table_oid table_name _ \<Rightarrow> ebind (MatchIndex cat table_name column) (\<lambda>index. case index of
               Some (index_oid, index_name) \<Rightarrow>
                 Inr (Plan (output_schema p)
                   (NestedIndexJoin key table_oid index_oid index_name table_name (output_schema right) join_type) [left])
             | None \<Rightarrow> Inr p)
         | _ \<Rightarrow> Inr p)
     | _ \<Rightarrow> Inl Std_Logic_Error)"

definition nlj_as_index_join :: "catalog \<Rightarrow> 'd plan \<Rightarrow> exc + 'd plan" where
  "nlj_as_index_join cat p = (case plan_node p of
       NestedLoopJoin predicate join_type \<Rightarrow>
         if length (plan_children p) \<noteq> 2 then Inl Std_Logic_Error
         else (case predicate of
             Comparison Equal (Column_Value lt lc lr) (Column_Value rt rc rr) \<Rightarrow>
               if lt = 0 \<and> rt = 1 then index_join cat p join_type (Column_Value 0 lc lr) rc
               else if lt = 1 \<and> rt = 0 then index_join cat p join_type (Column_Value 0 rc rr) lc
               else Inr p
           | _ \<Rightarrow> Inr p)
     | _ \<Rightarrow> Inr p)"

definition OptimizeNLJAsIndexJoin :: "catalog \<Rightarrow> 'd plan \<Rightarrow> exc + 'd plan" where
  "OptimizeNLJAsIndexJoin cat = bottom_up (nlj_as_index_join cat)"

fun match_order :: "schema \<Rightarrow> nat \<Rightarrow> index_info list \<Rightarrow> exc + oid option" where
  "match_order schema order_by_column_id [] = Inr None"
| "match_order schema order_by_column_id (index # indices) = (case columns (ii_key_schema index) of
       [col] \<Rightarrow> ebind (GetColumn schema order_by_column_id) (\<lambda>column.
         if column_name col = column_name column then Inr (Some (ii_oid index)) else match_order schema order_by_column_id indices)
     | _ \<Rightarrow> match_order schema order_by_column_id indices)"

definition order_by_index_scan :: "catalog \<Rightarrow> 'd plan \<Rightarrow> exc + 'd plan" where
  "order_by_index_scan cat p = (case plan_node p of
       Sort [(order_type, Column_Value tuple_idx order_by_column_id ret_type)] \<Rightarrow>
         if order_type \<noteq> Asc_Order \<and> order_type \<noteq> Default_Order then Inr p
         else (case plan_children p of
             [child] \<Rightarrow> (case plan_node child of
                 SeqScan table_oid table_name filter_predicate \<Rightarrow> (case GetTableByOid table_oid cat of
                     None \<Rightarrow> Inl Null_Deref
                   | Some table_info \<Rightarrow> ebind (GetTableIndexes (ti_name table_info) cat) (\<lambda>indices.
                       ebind (match_order (ti_schema table_info) order_by_column_id indices) (\<lambda>index. case index of
                         Some index_oid \<Rightarrow> Inr (Plan (output_schema p) (IndexScan index_oid) [])
                       | None \<Rightarrow> Inr p)))
               | _ \<Rightarrow> Inr p)
           | _ \<Rightarrow> Inl Std_Logic_Error)
     | _ \<Rightarrow> Inr p)"

definition OptimizeOrderByAsIndexScan :: "catalog \<Rightarrow> 'd plan \<Rightarrow> exc + 'd plan" where
  "OptimizeOrderByAsIndexScan cat = bottom_up (order_by_index_scan cat)"

section \<open>The optimizer\<close>

definition OptimizeSortLimitAsTopN :: "'d plan \<Rightarrow> exc + 'd plan" where
  "OptimizeSortLimitAsTopN p = Inr p"

definition OptimizeCustom :: "'d double_ops \<Rightarrow> catalog \<Rightarrow> 'd plan \<Rightarrow> exc + 'd plan" where
  "OptimizeCustom D cat p =
     ebind (OptimizeMergeProjection p) (\<lambda>p.
     ebind (OptimizeMergeFilterNLJ D p) (\<lambda>p.
     ebind (OptimizeNLJAsIndexJoin cat p) (\<lambda>p.
     ebind (OptimizeOrderByAsIndexScan cat p) (\<lambda>p.
     OptimizeSortLimitAsTopN p))))"

definition Optimize :: "'d double_ops \<Rightarrow> catalog \<Rightarrow> bool \<Rightarrow> 'd plan \<Rightarrow> exc + 'd plan" where
  "Optimize D cat force_starter_rule p =
     (if force_starter_rule
      then ebind (OptimizeMergeProjection p) (\<lambda>p.
        ebind (OptimizeMergeFilterNLJ D p) (\<lambda>p.
        ebind (OptimizeNLJAsIndexJoin cat p) (\<lambda>p.
        ebind (OptimizeOrderByAsIndexScan cat p) (\<lambda>p.
        OptimizeSortLimitAsTopN p))))
      else OptimizeCustom D cat p)"

definition EndsWith :: "string \<Rightarrow> string \<Rightarrow> bool" where
  "EndsWith str suffix = (if length suffix > length str then False else take (length suffix) (rev str) = rev suffix)"

definition EstimatedCardinality :: "string \<Rightarrow> nat option" where
  "EstimatedCardinality table_name =
     (if EndsWith table_name ''_1m'' then Some 1000000
      else if EndsWith table_name ''_100k'' then Some 100000
      else if EndsWith table_name ''_50k'' then Some 50000
      else if EndsWith table_name ''_10k'' then Some 10000
      else if EndsWith table_name ''_1k'' then Some 1000
      else if EndsWith table_name ''_100'' then Some 100
      else None)"

end
