(* ===== verification/Mock_Scan.thy ===== *)
theory Mock_Scan
  imports Plan
begin

text \<open>
  The mock tables of \<^verbatim>\<open>execution/mock_scan_executor.cpp\<close>: their schemas, their sizes and the function
  that computes the row at a position.  A row that is converted from \<^verbatim>\<open>size_t\<close> to \<^verbatim>\<open>int32_t\<close> keeps its low 32
  bits.  String literals with an emoji are their UTF-8 bytes.
\<close>

section \<open>Schemas and sizes\<close>

definition ta_list_2022 :: "string list" where
  "ta_list_2022 = [''amstqq'', ''durovo'', ''joyceliaoo'', ''karthik-ramanathan-3006'', ''kush789'', ''lmwnshn'', ''mkpjnx'', ''skyzh'',
     ''thepinetree'', ''timlee0119'', ''yliang412'']"

definition ta_oh_2022 :: "string list" where
  "ta_oh_2022 = [''Tuesday'', ''Wednesday'', ''Monday'', ''Wednesday'', ''Thursday'', ''Friday'', ''Wednesday'', ''Randomly'', ''Tuesday'',
     ''Monday'', ''Tuesday'']"

definition course_on_date :: "string list" where
  "course_on_date = [''Monday'', ''Tuesday'', ''Wednesday'', ''Thursday'', ''Friday'', ''Saturday'', ''Sunday'']"

definition course_on_bool :: "nat list" where
  "course_on_bool = [0, 1, 0, 1, 0, 1, 1]"

definition mock_table_list :: "string list" where
  "mock_table_list = [''__mock_table_1'', ''__mock_table_2'', ''__mock_table_3'', ''__mock_table_tas_2022'', ''__mock_agg_input_small'',
     ''__mock_agg_input_big'', ''__mock_table_schedule_2022'', ''__mock_table_123'', ''__mock_graph'', ''__mock_t1_50k'', ''__mock_t2_100k'',
     ''__mock_t3_1k'', ''__mock_t4_1m'', ''__mock_t5_1m'', ''__mock_t6_1m'', ''__mock_t7'', ''__mock_t8'']"

definition GRAPH_NODE_CNT :: nat where
  "GRAPH_NODE_CNT = 10"

definition integer_column :: "string \<Rightarrow> exc + column" where
  "integer_column name = Column_fixed name INTEGER"

definition text_column :: "string \<Rightarrow> int \<Rightarrow> exc + column" where
  "text_column name len = Column_varlen name VARCHAR len"

definition schema_with :: "(exc + column) list \<Rightarrow> exc + schema" where
  "schema_with cols = ebind (emap (\<lambda>col. col) cols) (\<lambda>cols. Inr (new_schema cols))"

definition GetMockTableSchemaOf :: "string \<Rightarrow> exc + schema" where
  "GetMockTableSchemaOf table =
     (if table = ''__mock_table_1'' then schema_with [integer_column ''colA'', integer_column ''colB'']
      else if table = ''__mock_table_2'' then schema_with [text_column ''colC'' 128, text_column ''colD'' 128]
      else if table = ''__mock_table_3'' then schema_with [integer_column ''colE'', text_column ''colF'' 128]
      else if table = ''__mock_table_tas_2022'' then schema_with [text_column ''github_id'' 128, text_column ''office_hour'' 128]
      else if table = ''__mock_table_schedule_2022'' then schema_with [text_column ''day_of_week'' 128, integer_column ''has_lecture'']
      else if table = ''__mock_agg_input_small'' \<or> table = ''__mock_agg_input_big''
      then schema_with [integer_column ''v1'', integer_column ''v2'', integer_column ''v3'', integer_column ''v4'', integer_column ''v5'', text_column ''v6'' 128]
      else if table = ''__mock_graph''
      then schema_with [integer_column ''src'', integer_column ''dst'', text_column ''src_label'' 8, text_column ''dst_label'' 8, integer_column ''distance'']
      else if table = ''__mock_table_123'' then schema_with [integer_column ''number'']
      else if table = ''__mock_t1_50k'' \<or> table = ''__mock_t2_100k'' \<or> table = ''__mock_t3_1k'' \<or> table = ''__mock_t4_1m'' \<or>
        table = ''__mock_t5_1m'' \<or> table = ''__mock_t6_1m''
      then schema_with [integer_column ''x'', integer_column ''y'']
      else if table = ''__mock_t7'' then schema_with [integer_column ''v'', integer_column ''v1'', integer_column ''v2'']
      else if table = ''__mock_t8'' then schema_with [integer_column ''v4'']
      else Inl INVALID_EXC)"

definition GetSizeOf :: "string \<Rightarrow> nat" where
  "GetSizeOf table =
     (if table = ''__mock_table_1'' then 100
      else if table = ''__mock_table_2'' then 100
      else if table = ''__mock_table_3'' then 100
      else if table = ''__mock_table_tas_2022'' then length ta_list_2022
      else if table = ''__mock_table_schedule_2022'' then length course_on_date
      else if table = ''__mock_agg_input_small'' then 1000
      else if table = ''__mock_agg_input_big'' then 10000
      else if table = ''__mock_graph'' then GRAPH_NODE_CNT * GRAPH_NODE_CNT
      else if table = ''__mock_table_123'' then 3
      else if table = ''__mock_t1_50k'' then 50000
      else if table = ''__mock_t2_100k'' then 100000
      else if table = ''__mock_t3_1k'' then 1000
      else if table = ''__mock_t4_1m'' \<or> table = ''__mock_t5_1m'' \<or> table = ''__mock_t6_1m'' then 1000000
      else if table = ''__mock_t7'' then 1000000
      else if table = ''__mock_t8'' then 10
      else 0)"

definition GetShuffled :: "string \<Rightarrow> bool" where
  "GetShuffled table =
     (if table = ''__mock_t1_50k'' then True
      else if table = ''__mock_t2_100k'' then True
      else if table = ''__mock_t3_1k'' then True
      else False)"

section \<open>Rows\<close>

definition GetIntegerValue :: "nat \<Rightarrow> exc + 'd Value" where
  "GetIntegerValue n = Value_int32 INTEGER (word_of_nat n)"

definition GetStringValue :: "string \<Rightarrow> exc + 'd Value" where
  "GetStringValue s = Value_string VARCHAR s"

definition poop :: string where
  "poop = [CHR 0xF0, CHR 0x9F, CHR 0x92, CHR 0xA9]"

definition innocent :: string where
  "innocent = [CHR 0xF0, CHR 0x9F, CHR 0x98, CHR 0x87]"

fun Repeat :: "string \<Rightarrow> nat \<Rightarrow> string" where
  "Repeat str 0 = []"
| "Repeat str (Suc n) = str @ Repeat str n"

definition aggregate_input :: "nat \<Rightarrow> nat \<Rightarrow> nat \<Rightarrow> exc + 'd Value list" where
  "aggregate_input per_group repeat cursor =
     emap (\<lambda>v. v) [GetIntegerValue ((cursor + 2) mod 10), GetIntegerValue cursor, GetIntegerValue ((cursor + 50) mod 100),
       GetIntegerValue (cursor div per_group), GetIntegerValue 233, GetStringValue (Repeat poop (cursor mod repeat + 1))]"

definition graph_values :: "'d double_ops \<Rightarrow> nat \<Rightarrow> exc + 'd Value list" where
  "graph_values D cursor =
     (let src = cursor mod GRAPH_NODE_CNT; dst = cursor div GRAPH_NODE_CNT
      in emap (\<lambda>v. v) [GetIntegerValue src, GetIntegerValue dst, GetStringValue (zero_padded 3 src), GetStringValue (zero_padded 3 dst),
        if src = dst then GetNullValueByType D INTEGER else GetIntegerValue 1])"

text \<open>Indexing a static array beyond its end.\<close>

definition array_at :: "'a list \<Rightarrow> nat \<Rightarrow> exc + 'a" where
  "array_at xs i = (if i < length xs then Inr (xs ! i) else Inl Out_Of_Bounds)"

definition mock_values :: "'d double_ops \<Rightarrow> schema \<Rightarrow> string \<Rightarrow> nat \<Rightarrow> exc + 'd Value list" where
  "mock_values D schema table cursor =
     (if table = ''__mock_table_1'' then emap (\<lambda>v. v) [GetIntegerValue cursor, GetIntegerValue (cursor * 100)]
      else if table = ''__mock_table_2''
      then emap (\<lambda>v. v) [GetStringValue (to_string (int cursor) @ ''-'' @ poop), GetStringValue (Repeat innocent (cursor mod 8))]
      else if table = ''__mock_table_3''
      then emap (\<lambda>v. v) [if cursor mod 2 = 0 then GetIntegerValue cursor else GetNullValueByType D INTEGER,
        GetStringValue (to_string (int cursor) @ ''-'' @ poop)]
      else if table = ''__mock_table_tas_2022''
      then emap (\<lambda>v. v) [ebind (array_at ta_list_2022 cursor) GetStringValue, ebind (array_at ta_oh_2022 cursor) GetStringValue]
      else if table = ''__mock_table_schedule_2022''
      then emap (\<lambda>v. v) [ebind (array_at course_on_date cursor) GetStringValue, ebind (array_at course_on_bool cursor) GetIntegerValue]
      else if table = ''__mock_agg_input_small'' then aggregate_input 100 8 cursor
      else if table = ''__mock_agg_input_big'' then aggregate_input 1000 16 cursor
      else if table = ''__mock_table_123'' then emap (\<lambda>v. v) [GetIntegerValue (cursor + 1)]
      else if table = ''__mock_graph'' then graph_values D cursor
      else if table = ''__mock_t1_50k'' then emap (\<lambda>v. v) [GetIntegerValue (cursor * 10), GetIntegerValue (cursor * 1000)]
      else if table = ''__mock_t2_100k'' then emap (\<lambda>v. v) [GetIntegerValue cursor, GetIntegerValue (cursor * 100)]
      else if table = ''__mock_t3_1k'' then emap (\<lambda>v. v) [GetIntegerValue (cursor * 100), GetIntegerValue (cursor * 10000)]
      else if table = ''__mock_t4_1m''
      then (let cursor = cursor mod 500000 in emap (\<lambda>v. v) [GetIntegerValue cursor, GetIntegerValue (cursor * 10)])
      else if table = ''__mock_t5_1m''
      then (let cursor = (cursor + 30000) mod 500000 in emap (\<lambda>v. v) [GetIntegerValue cursor, GetIntegerValue (cursor * 10)])
      else if table = ''__mock_t6_1m''
      then (let cursor = (cursor + 60000) mod 500000 in emap (\<lambda>v. v) [GetIntegerValue cursor, GetIntegerValue (cursor * 10)])
      else if table = ''__mock_t7'' then emap (\<lambda>v. v) [GetIntegerValue (cursor mod 20), GetIntegerValue cursor, GetIntegerValue cursor]
      else if table = ''__mock_t8'' then emap (\<lambda>v. v) [GetIntegerValue cursor]
      else emap (\<lambda>column. GetZeroValueByType D (column_type column)) (columns schema))"

definition GetFunctionOf :: "'d double_ops \<Rightarrow> schema \<Rightarrow> string \<Rightarrow> nat \<Rightarrow> exc + tuple" where
  "GetFunctionOf D schema table cursor = ebind (mock_values D schema table cursor) (\<lambda>values. new_tuple D values schema)"

section \<open>The rows have the types of the schemas\<close>

lemma length_Repeat [simp]: "length (Repeat s n) = length s * n"
  by (induction n) simp_all

lemma integer_value [simp]: "GetIntegerValue n = Inr (Integer_v (word_of_nat n))"
  by (simp add: GetIntegerValue_def Value_int32_def)

lemma string_value:
  assumes "length s < 1000"
  shows "GetStringValue s = Inr (Varchar_v (Some (s @ [CHR 0x00])))"
proof -
  define len :: "32 word" where "len = word_of_nat (length s) + 1"
  have "len = word_of_nat (Suc (length s))" by (simp add: len_def)
  then have u: "unat len = Suc (length s)" using assms by (simp add: unat_of_nat del: of_nat_Suc)
  then have "len \<noteq> BUSTUB_VALUE_NULL" using assms unat_VALUE_NULL by auto
  with u show ?thesis by (simp add: GetStringValue_def Value_string_def Let_def flip: len_def)
qed

text \<open>A column and the value computed for it.\<close>

definition typed_entry :: "exc + column \<Rightarrow> exc + 'd Value \<Rightarrow> bool" where
  "typed_entry c e \<longleftrightarrow> (\<exists>name v. c = integer_column name \<and> e = Inr (Integer_v v)) \<or>
     (\<exists>name len s. c = text_column name len \<and> e = GetStringValue s \<and> length s < 1000)"

lemma typed_entry_simps [simp]:
  "typed_entry (integer_column name) (Inr (Integer_v v))"
  "length s < 1000 \<Longrightarrow> typed_entry (text_column name len) (GetStringValue s)"
  by (auto simp: typed_entry_def)

lemma typed_entryE:
  assumes "typed_entry c e"
  obtains col v where "c = Inr col" "e = Inr v" "wf_column col" "matches D col v"
    "nat (fixed_length col) + (if Column_IsInlined col then 0 else serialized_size D v) \<le> 1017"
  using assms unfolding typed_entry_def
proof (elim disjE exE conjE)
  fix name v assume "c = integer_column name" "e = Inr (Integer_v v)"
  then show thesis using that
    by (simp add: integer_column_def Column_fixed_def TypeSize_def wf_column_def matches_def storable_def Column_IsInlined_def)
next
  fix name len s assume "c = text_column name len" "e = GetStringValue s" "length s < 1000"
  then show thesis using that
    by (simp add: text_column_def Column_varlen_def TypeSize_def wf_column_def matches_def storable_def Column_IsInlined_def
        string_value serialized_size_def)
qed

lemma typed_entries:
  assumes "list_all2 typed_entry cs es"
  shows "\<exists>cols vs. emap (\<lambda>c. c) cs = Inr cols \<and> emap (\<lambda>v. v) es = Inr vs \<and> list_all wf_column cols \<and> list_all2 (matches D) cols vs \<and>
    fixed_part cols + varlen_part D cols vs \<le> 1017 * length cs"
  using assms
proof (induction rule: list_all2_induct)
  case (Cons c cs e es)
  obtain col v where "c = Inr col" "e = Inr v" "wf_column col" "matches D col v"
    "nat (fixed_length col) + (if Column_IsInlined col then 0 else serialized_size D v) \<le> 1017"
    using typed_entryE [OF Cons(1)] .
  with Cons(3) show ?case by (fastforce simp: fixed_part_def)
qed (simp add: fixed_part_def)

lemma typed_row:
  assumes "list_all2 typed_entry cs es" and "length cs < 1000" and "schema_with cs = Inr schema"
  shows "\<exists>cols vs. schema = new_schema cols \<and> emap (\<lambda>v. v) es = Inr vs \<and> fits_row D cols vs"
proof -
  obtain cols vs where "emap (\<lambda>c. c) cs = Inr cols" "emap (\<lambda>v. v) es = Inr vs" "list_all wf_column cols" "list_all2 (matches D) cols vs"
      "fixed_part cols + varlen_part D cols vs \<le> 1017 * length cs"
    using typed_entries [OF assms(1)] by blast
  with assms(2,3) show ?thesis by (auto simp: schema_with_def fits_row_def)
qed

lemma small_texts:
  "n < 100 \<Longrightarrow> typed_entry (text_column a i) (GetStringValue (to_string (int n) @ CHR ''-'' # poop))"
  "typed_entry (text_column a i) (GetStringValue (Repeat innocent (n mod 8)))"
  "typed_entry (text_column a i) (GetStringValue (poop @ Repeat poop (n mod 8)))"
  "typed_entry (text_column a i) (GetStringValue (poop @ Repeat poop (n mod 16)))"
  "n < 100 \<Longrightarrow> typed_entry (text_column a i) (GetStringValue (zero_padded 3 n))"
proof -
  have "n mod 8 < 8" "n mod 16 < 16" by simp_all
  then have "4 * (n mod 8) < 996" "4 * (n mod 16) < 996" by linarith+
  then show "n < 100 \<Longrightarrow> typed_entry (text_column a i) (GetStringValue (to_string (int n) @ CHR ''-'' # poop))"
    "typed_entry (text_column a i) (GetStringValue (Repeat innocent (n mod 8)))"
    "typed_entry (text_column a i) (GetStringValue (poop @ Repeat poop (n mod 8)))"
    "typed_entry (text_column a i) (GetStringValue (poop @ Repeat poop (n mod 16)))"
    "n < 100 \<Longrightarrow> typed_entry (text_column a i) (GetStringValue (zero_padded 3 n))"
    using length_nat_digits [of n 2] by (simp_all add: to_string_def poop_def innocent_def zero_padded_def)
qed

lemma array_texts:
  "n < length ta_list_2022 \<Longrightarrow> typed_entry (text_column a i) (ebind (array_at ta_list_2022 n) GetStringValue)"
  "n < length ta_list_2022 \<Longrightarrow> typed_entry (text_column a i) (ebind (array_at ta_oh_2022 n) GetStringValue)"
  "n < length course_on_date \<Longrightarrow> typed_entry (text_column a i) (ebind (array_at course_on_date n) GetStringValue)"
  "n < length course_on_date \<Longrightarrow> typed_entry (integer_column a) (ebind (array_at course_on_bool n) GetIntegerValue)"
proof -
  have l: "\<forall>s \<in> set ta_list_2022 \<union> set ta_oh_2022 \<union> set course_on_date. length s < 1000"
    by (simp add: ta_list_2022_def ta_oh_2022_def course_on_date_def)
  have "length ta_oh_2022 = length ta_list_2022" "length course_on_bool = length course_on_date"
    by (simp_all add: ta_list_2022_def ta_oh_2022_def course_on_date_def course_on_bool_def)
  with l show "n < length ta_list_2022 \<Longrightarrow> typed_entry (text_column a i) (ebind (array_at ta_list_2022 n) GetStringValue)"
    "n < length ta_list_2022 \<Longrightarrow> typed_entry (text_column a i) (ebind (array_at ta_oh_2022 n) GetStringValue)"
    "n < length course_on_date \<Longrightarrow> typed_entry (text_column a i) (ebind (array_at course_on_date n) GetStringValue)"
    "n < length course_on_date \<Longrightarrow> typed_entry (integer_column a) (ebind (array_at course_on_bool n) GetIntegerValue)"
    by (simp_all add: array_at_def)
qed

lemma null_integer: "GetNullValueByType D INTEGER = Inr (Integer_v BUSTUB_INT32_NULL)"
  by (simp add: GetNullValueByType_def Value_int32_def)

definition typed_at :: "'d double_ops \<Rightarrow> string \<Rightarrow> nat \<Rightarrow> bool" where
  "typed_at D table cursor \<longleftrightarrow> (\<forall>schema. GetMockTableSchemaOf table = Inr schema \<longrightarrow>
     (\<exists>cols vs. schema = new_schema cols \<and> mock_values D schema table cursor = Inr vs \<and> fits_row D cols vs))"

lemma typed_atI:
  assumes "GetMockTableSchemaOf table = schema_with cs" and "\<And>schema. mock_values D schema table cursor = emap (\<lambda>v. v) es"
    and "list_all2 typed_entry cs es" and "length cs < 1000"
  shows "typed_at D table cursor"
  using assms typed_row [OF assms(3,4)] by (simp add: typed_at_def)

lemmas mock_defs = GetMockTableSchemaOf_def GetSizeOf_def mock_values_def aggregate_input_def graph_values_def GRAPH_NODE_CNT_def
  Let_def null_integer small_texts array_texts

lemma typed_table_1: "cursor < GetSizeOf ''__mock_table_1'' \<Longrightarrow> typed_at D ''__mock_table_1'' cursor"
  by (rule typed_atI, (simp add: mock_defs del: emap.simps)+)

lemma typed_table_2: "cursor < GetSizeOf ''__mock_table_2'' \<Longrightarrow> typed_at D ''__mock_table_2'' cursor"
  by (rule typed_atI, (simp add: mock_defs del: emap.simps)+)

lemma typed_table_3: "cursor < GetSizeOf ''__mock_table_3'' \<Longrightarrow> typed_at D ''__mock_table_3'' cursor"
  by (rule typed_atI, (simp add: mock_defs del: emap.simps)+)

lemma typed_table_tas_2022: "cursor < GetSizeOf ''__mock_table_tas_2022'' \<Longrightarrow> typed_at D ''__mock_table_tas_2022'' cursor"
  by (rule typed_atI, (simp add: mock_defs del: emap.simps)+)

lemma typed_agg_input_small: "cursor < GetSizeOf ''__mock_agg_input_small'' \<Longrightarrow> typed_at D ''__mock_agg_input_small'' cursor"
  by (rule typed_atI, (simp add: mock_defs del: emap.simps)+)

lemma typed_agg_input_big: "cursor < GetSizeOf ''__mock_agg_input_big'' \<Longrightarrow> typed_at D ''__mock_agg_input_big'' cursor"
  by (rule typed_atI, (simp add: mock_defs del: emap.simps)+)

lemma typed_table_schedule_2022: "cursor < GetSizeOf ''__mock_table_schedule_2022'' \<Longrightarrow> typed_at D ''__mock_table_schedule_2022'' cursor"
  by (rule typed_atI, (simp add: mock_defs del: emap.simps)+)

lemma typed_table_123: "cursor < GetSizeOf ''__mock_table_123'' \<Longrightarrow> typed_at D ''__mock_table_123'' cursor"
  by (rule typed_atI, (simp add: mock_defs del: emap.simps)+)

lemma typed_graph: "cursor < GetSizeOf ''__mock_graph'' \<Longrightarrow> typed_at D ''__mock_graph'' cursor"
  by (rule typed_atI, (simp add: mock_defs del: emap.simps)+)

lemma typed_t1_50k: "cursor < GetSizeOf ''__mock_t1_50k'' \<Longrightarrow> typed_at D ''__mock_t1_50k'' cursor"
  by (rule typed_atI, (simp add: mock_defs del: emap.simps)+)

lemma typed_t2_100k: "cursor < GetSizeOf ''__mock_t2_100k'' \<Longrightarrow> typed_at D ''__mock_t2_100k'' cursor"
  by (rule typed_atI, (simp add: mock_defs del: emap.simps)+)

lemma typed_t3_1k: "cursor < GetSizeOf ''__mock_t3_1k'' \<Longrightarrow> typed_at D ''__mock_t3_1k'' cursor"
  by (rule typed_atI, (simp add: mock_defs del: emap.simps)+)

lemma typed_t4_1m: "cursor < GetSizeOf ''__mock_t4_1m'' \<Longrightarrow> typed_at D ''__mock_t4_1m'' cursor"
  by (rule typed_atI, (simp add: mock_defs del: emap.simps)+)

lemma typed_t5_1m: "cursor < GetSizeOf ''__mock_t5_1m'' \<Longrightarrow> typed_at D ''__mock_t5_1m'' cursor"
  by (rule typed_atI, (simp add: mock_defs del: emap.simps)+)

lemma typed_t6_1m: "cursor < GetSizeOf ''__mock_t6_1m'' \<Longrightarrow> typed_at D ''__mock_t6_1m'' cursor"
  by (rule typed_atI, (simp add: mock_defs del: emap.simps)+)

lemma typed_t7: "cursor < GetSizeOf ''__mock_t7'' \<Longrightarrow> typed_at D ''__mock_t7'' cursor"
  by (rule typed_atI, (simp add: mock_defs del: emap.simps)+)

lemma typed_t8: "cursor < GetSizeOf ''__mock_t8'' \<Longrightarrow> typed_at D ''__mock_t8'' cursor"
  by (rule typed_atI, (simp add: mock_defs del: emap.simps)+)

lemma mock_table_listed: "GetMockTableSchemaOf table = Inr schema \<Longrightarrow> table \<in> set mock_table_list"
  by (rule ccontr) (simp add: GetMockTableSchemaOf_def mock_table_list_def)

lemmas typed_tables = typed_table_1 typed_table_2 typed_table_3 typed_table_tas_2022 typed_agg_input_small typed_agg_input_big
  typed_table_schedule_2022 typed_table_123 typed_graph typed_t1_50k typed_t2_100k typed_t3_1k typed_t4_1m typed_t5_1m typed_t6_1m
  typed_t7 typed_t8

text \<open>C25. The mock tables keep their schemas: at every position below its size, each mock table computes a
  row, without an error, whose values have the types of the columns of its schema and fit a tuple.\<close>

theorem mock_rows_typed:
  assumes "GetMockTableSchemaOf table = Inr schema" and "cursor < GetSizeOf table"
  shows "\<exists>cols vs. schema = new_schema cols \<and> mock_values D schema table cursor = Inr vs \<and> fits_row D cols vs"
proof -
  have "\<forall>t \<in> set mock_table_list. cursor < GetSizeOf t \<longrightarrow> typed_at D t cursor"
    by (simp add: mock_table_list_def typed_tables)
  then have "typed_at D table cursor" using mock_table_listed [OF assms(1)] assms(2) by blast
  with assms(1) show ?thesis by (simp add: typed_at_def)
qed

theorem mock_rows_typed_witness:
  "\<exists>schema cols vs. GetMockTableSchemaOf ''__mock_graph'' = Inr schema \<and> schema = new_schema cols \<and>
     mock_values int_double schema ''__mock_graph'' 42 = Inr vs \<and> fits_row int_double cols vs"
proof -
  obtain schema where s: "GetMockTableSchemaOf ''__mock_graph'' = Inr schema"
    by (simp add: GetMockTableSchemaOf_def schema_with_def integer_column_def text_column_def Column_fixed_def Column_varlen_def TypeSize_def)
  have "42 < GetSizeOf ''__mock_graph''" by (simp add: GetSizeOf_def GRAPH_NODE_CNT_def)
  then show ?thesis using mock_rows_typed [OF s, where cursor = 42 and D = int_double] s by blast
qed

end
