(* ===== verification/Executor.thy ===== *)
theory Executor
  imports Mock_Scan
begin

text \<open>
  The executors and the execution engine (\<^verbatim>\<open>execution\<close>, \<^verbatim>\<open>execution_engine.h\<close>).  An executor is the plan
  data it was built from and its child; what changes while it runs is the cursor of the scan at the
  leaf and the row identifier it hands out.  Most executors of the repository are stubs: their
  \<^verbatim>\<open>Init\<close> throws.  \<^verbatim>\<open>std::shuffle\<close> with a random generator is a parameter.
\<close>

section \<open>Executors\<close>

datatype 'd executor =
    ValuesExecutor schema "'d expr list list"
  | MockScanExecutor schema string "nat list"
  | FilterExecutor schema "'d expr" "'d executor"
  | ProjectionExecutor schema "'d expr list" "'d executor"
  | AggregationExecutor
  | StubExecutor

record exec_state =
  es_cursor :: nat
  es_rid :: RID

text \<open>The executors that are not implemented never set \<^verbatim>\<open>plan_\<close>.\<close>

definition GetOutputSchema :: "'d executor \<Rightarrow> exc + schema" where
  "GetOutputSchema ex = (case ex of
       ValuesExecutor schema _ \<Rightarrow> Inr schema
     | MockScanExecutor schema _ _ \<Rightarrow> Inr schema
     | FilterExecutor schema _ _ \<Rightarrow> Inr schema
     | ProjectionExecutor schema _ _ \<Rightarrow> Inr schema
     | AggregationExecutor \<Rightarrow> Inl Null_Deref
     | StubExecutor \<Rightarrow> Inl Null_Deref)"

section \<open>Construction\<close>

definition new_MockScanExecutor :: "(nat list \<Rightarrow> nat list) \<Rightarrow> schema \<Rightarrow> string \<Rightarrow> 'd executor" where
  "new_MockScanExecutor shuffle schema table =
     MockScanExecutor schema table (if GetShuffled table then shuffle [0..<GetSizeOf table] else [])"

text \<open>The constructors of the joins.\<close>

definition new_join :: "join_type \<Rightarrow> exc + 'd executor" where
  "new_join join_type = (if \<not> (join_type = Left_Join \<or> join_type = Inner_Join) then Inl NOT_IMPLEMENTED else Inr StubExecutor)"

text \<open>\<^verbatim>\<open>GetChildPlan\<close> asserts that there is one child.\<close>

definition only_child :: "(exc + 'd executor) list \<Rightarrow> ('d executor \<Rightarrow> exc + 'd executor) \<Rightarrow> exc + 'd executor" where
  "only_child children f = (case children of [child] \<Rightarrow> ebind child f | _ \<Rightarrow> Inl exc.Assert_Failed)"

definition both_children :: "(exc + 'd executor) list \<Rightarrow> exc + 'd executor \<Rightarrow> exc + 'd executor" where
  "both_children children ex = (case children of left # right # _ \<Rightarrow> ebind left (\<lambda>_. ebind right (\<lambda>_. ex)) | _ \<Rightarrow> Inl Out_Of_Bounds)"

fun CreateExecutor :: "(nat list \<Rightarrow> nat list) \<Rightarrow> 'd plan \<Rightarrow> exc + 'd executor" where
  "CreateExecutor shuffle (Plan schema nd children) =
     (let children = map (CreateExecutor shuffle) children in case nd of
        SeqScan table_oid table_name filter_predicate \<Rightarrow> Inr StubExecutor
      | IndexScan index_oid \<Rightarrow> Inr StubExecutor
      | InsertNode table_oid \<Rightarrow> only_child children (\<lambda>_. Inr StubExecutor)
      | UpdateNode table_oid target_expressions \<Rightarrow> only_child children (\<lambda>_. Inr StubExecutor)
      | DeleteNode table_oid \<Rightarrow> only_child children (\<lambda>_. Inr StubExecutor)
      | Limit limit \<Rightarrow> only_child children (\<lambda>_. Inr StubExecutor)
      | Aggregation group_bys aggregates agg_types \<Rightarrow> only_child children (\<lambda>_. Inr AggregationExecutor)
      | NestedLoopJoin predicate join_type \<Rightarrow> both_children children (new_join join_type)
      | NestedIndexJoin key table_oid index_oid index_name table_name inner join_type \<Rightarrow>
          (case children of [] \<Rightarrow> Inl Out_Of_Bounds | left # _ \<Rightarrow> ebind left (\<lambda>_. new_join join_type))
      | HashJoin left_key right_key join_type \<Rightarrow> assert_that (length children = 2) (both_children children (new_join join_type))
      | MockScan table \<Rightarrow> Inr (new_MockScanExecutor shuffle schema table)
      | Projection exprs \<Rightarrow> only_child children (\<lambda>child. Inr (ProjectionExecutor schema exprs child))
      | Filter predicate \<Rightarrow> only_child children (\<lambda>child. Inr (FilterExecutor schema predicate child))
      | ValuesNode values \<Rightarrow> Inr (ValuesExecutor schema values)
      | Sort order_bys \<Rightarrow> only_child children (\<lambda>_. Inr StubExecutor)
      | TopN order_bys n \<Rightarrow> only_child children (\<lambda>_. Inr StubExecutor))"

section \<open>Iteration\<close>

primrec Init :: "'d executor \<Rightarrow> exec_state \<Rightarrow> exc + exec_state" where
  "Init (ValuesExecutor schema values) st = Inr (st\<lparr>es_cursor := 0\<rparr>)"
| "Init (MockScanExecutor schema table shuffled_idx) st = Inr (st\<lparr>es_cursor := 0\<rparr>)"
| "Init (FilterExecutor schema predicate child) st = Init child st"
| "Init (ProjectionExecutor schema exprs child) st = Init child st"
| "Init AggregationExecutor st = Inr st"
| "Init StubExecutor st = Inl NOT_IMPLEMENTED"

type_synonym next_result = "exc + tuple option \<times> exec_state"

definition Values_Next :: "'d double_ops \<Rightarrow> schema \<Rightarrow> 'd expr list list \<Rightarrow> exec_state \<Rightarrow> next_result" where
  "Values_Next D schema values st =
     (if es_cursor st \<ge> length values then Inr (None, st)
      else ebind (emap (\<lambda>col. Evaluate D col None (new_schema [])) (values ! es_cursor st)) (\<lambda>vs.
        ebind (new_tuple D vs schema) (\<lambda>t. Inr (Some t, st\<lparr>es_cursor := es_cursor st + 1\<rparr>))))"

definition MockScan_Next :: "'d double_ops \<Rightarrow> schema \<Rightarrow> string \<Rightarrow> nat list \<Rightarrow> exec_state \<Rightarrow> next_result" where
  "MockScan_Next D schema table shuffled_idx st =
     (if es_cursor st = GetSizeOf table then Inr (None, st)
      else ebind (if shuffled_idx = [] then Inr (es_cursor st) else array_at shuffled_idx (es_cursor st)) (\<lambda>cursor.
        ebind (GetFunctionOf D schema table cursor) (\<lambda>t.
        Inr (Some t, st\<lparr>es_cursor := es_cursor st + 1, es_rid := RID_int64 0\<rparr>))))"

definition accepts :: "'d double_ops \<Rightarrow> 'd expr \<Rightarrow> 'd executor \<Rightarrow> tuple \<Rightarrow> exc + bool" where
  "accepts D filter_expr child t =
     ebind (GetOutputSchema child) (\<lambda>schema. ebind (Evaluate D filter_expr (Some t) schema) (\<lambda>value.
       if IsNull D value then Inr False else GetAs_bool D value))"

partial_function (option) filter_loop :: "(exec_state \<Rightarrow> next_result option) \<Rightarrow> (tuple \<Rightarrow> exc + bool) \<Rightarrow> exec_state \<Rightarrow> next_result option" where
  "filter_loop child_next accept st = (case child_next st of
       None \<Rightarrow> None
     | Some (Inl e) \<Rightarrow> Some (Inl e)
     | Some (Inr (None, st)) \<Rightarrow> Some (Inr (None, st))
     | Some (Inr (Some t, st)) \<Rightarrow> (case accept t of
         Inl e \<Rightarrow> Some (Inl e)
       | Inr ok \<Rightarrow> if ok then Some (Inr (Some t, st)) else filter_loop child_next accept st))"

definition project :: "'d double_ops \<Rightarrow> schema \<Rightarrow> 'd expr list \<Rightarrow> 'd executor \<Rightarrow> tuple \<Rightarrow> exc + tuple" where
  "project D schema exprs child child_tuple =
     ebind (emap (\<lambda>e. ebind (GetOutputSchema child) (Evaluate D e (Some child_tuple))) exprs) (\<lambda>vs. new_tuple D vs schema)"

primrec Next :: "'d double_ops \<Rightarrow> 'd executor \<Rightarrow> exec_state \<Rightarrow> next_result option" where
  "Next D (ValuesExecutor schema values) = (\<lambda>st. Some (Values_Next D schema values st))"
| "Next D (MockScanExecutor schema table shuffled_idx) = (\<lambda>st. Some (MockScan_Next D schema table shuffled_idx st))"
| "Next D (FilterExecutor schema predicate child) = filter_loop (Next D child) (accepts D predicate child)"
| "Next D (ProjectionExecutor schema exprs child) = (\<lambda>st. case Next D child st of
       None \<Rightarrow> None
     | Some (Inl e) \<Rightarrow> Some (Inl e)
     | Some (Inr (None, st)) \<Rightarrow> Some (Inr (None, st))
     | Some (Inr (Some child_tuple, st)) \<Rightarrow> Some (ebind (project D schema exprs child child_tuple) (\<lambda>t. Inr (Some t, st))))"
| "Next D AggregationExecutor = (\<lambda>st. Some (Inr (None, st)))"
| "Next D StubExecutor = (\<lambda>st. Some (Inr (None, st)))"

section \<open>The engine\<close>

text \<open>\<^verbatim>\<open>catch (Exception &e)\<close>: the exceptions of \<^verbatim>\<open>common/exception.h\<close>.\<close>

definition is_exception :: "exc \<Rightarrow> bool" where
  "is_exception e \<longleftrightarrow> e \<in> {INVALID_EXC, OUT_OF_RANGE, CONVERSION, UNKNOWN_TYPE, DECIMAL_EXC, MISMATCH_TYPE, DIVIDE_BY_ZERO,
     INCOMPATIBLE_TYPE, OUT_OF_MEMORY, NOT_IMPLEMENTED}"

partial_function (option) execute_loop :: "'d double_ops \<Rightarrow> 'd executor \<Rightarrow> exec_state \<Rightarrow> tuple list option \<Rightarrow> (exc + bool \<times> tuple list option) option" where
  "execute_loop D executor st result_set = (case Next D executor st of
       None \<Rightarrow> None
     | Some (Inl e) \<Rightarrow> if is_exception e then Some (Inr (True, result_set)) else Some (Inl e)
     | Some (Inr (None, st)) \<Rightarrow> Some (Inr (True, result_set))
     | Some (Inr (Some t, st)) \<Rightarrow> execute_loop D executor st (map_option (\<lambda>ts. ts @ [t]) result_set))"

definition Execute :: "'d double_ops \<Rightarrow> (nat list \<Rightarrow> nat list) \<Rightarrow> 'd plan \<Rightarrow> tuple list option \<Rightarrow> (exc + bool \<times> tuple list option) option" where
  "Execute D shuffle plan result_set = (case CreateExecutor shuffle plan of
       Inl e \<Rightarrow> Some (Inl e)
     | Inr executor \<Rightarrow> (case Init executor \<lparr>es_cursor = 0, es_rid = RID_default\<rparr> of
         Inl e \<Rightarrow> Some (Inl e)
       | Inr st \<Rightarrow> execute_loop D executor st result_set))"

end
