(* ===== verification/Query_Spec.thy ===== *)
theory Query_Spec
  imports Executor "HOL-Library.Multiset"
begin

text \<open>
  What a query plan means: rows as lists of values, for the plans whose executors are implemented.
  The execution engine produces these rows, and the optimizer does not change them.
\<close>

section \<open>Evaluation on a row of values\<close>

fun eval_row :: "'d double_ops \<Rightarrow> 'd expr \<Rightarrow> 'd Value list \<Rightarrow> exc + 'd Value" where
  "eval_row D (Constant_Value v) vs = Inr v"
| "eval_row D (Column_Value tuple_idx col_idx ret_type) vs = (if col_idx < length vs then Inr (vs ! col_idx) else Inl Out_Of_Bounds)"
| "eval_row D (Arithmetic op l r) vs = ebind (eval_row D l vs) (\<lambda>x. ebind (eval_row D r vs) (\<lambda>y. arithmetic_value D op x y))"
| "eval_row D (Comparison op l r) vs =
     ebind (eval_row D l vs) (\<lambda>x. ebind (eval_row D r vs) (\<lambda>y. ebind (PerformComparison D op x y) GetBooleanValue))"
| "eval_row D (Logic op l r) vs =
     ebind (eval_row D l vs) (\<lambda>x. ebind (eval_row D r vs) (\<lambda>y. ebind (PerformLogic D op x y) GetBooleanValue))"

definition test_row :: "'d double_ops \<Rightarrow> 'd expr \<Rightarrow> 'd Value list \<Rightarrow> exc + bool" where
  "test_row D e vs = ebind (eval_row D e vs) (\<lambda>v. if IsNull D v then Inr False else GetAs_bool D v)"

lemma fits_row_length: "fits_row D cols vs \<Longrightarrow> length vs = length cols"
  by (auto simp: fits_row_def dest: list_all2_lengthD)

lemma fits_row_encodes: "fits_row D cols vs \<Longrightarrow> \<exists>t. new_tuple D vs (new_schema cols) = Inr t"
  using tuple_reads_back [of cols D vs] by (auto simp: fits_row_def)

lemma new_tuple_data: "new_tuple D vs s = Inr t \<Longrightarrow> t_data t \<noteq> None \<and> length vs = length (columns s)"
  by (auto simp: new_tuple_def assert_that_def ebind_def split: if_splits sum.splits)

lemma Evaluate_row:
  assumes "fits_row D cols vs" and "new_tuple D vs (new_schema cols) = Inr t"
  shows "Evaluate D e (Some t) (new_schema cols) = eval_row D e vs"
proof (induction e)
  case (Column_Value tuple_idx col_idx ret_type)
  have len: "length (columns (new_schema cols)) = length vs" and data: "t_data t \<noteq> None"
    using new_tuple_data [OF assms(2)] by simp_all
  show ?case
  proof (cases "col_idx < length vs")
    case True
    then show ?thesis using fits_row_reads [OF assms, of col_idx] fits_row_length [OF assms(1)] by simp
  next
    case False
    then show ?thesis using len data by (simp add: Tuple_GetValue_def GetColumn_def)
  qed
qed simp_all

lemma Evaluate_constant: "eval_row D e [] = Inr v \<Longrightarrow> Evaluate D e None s = Inr v"
  by (induction e arbitrary: v) (auto simp: ebind_def split: sum.splits)

section \<open>Lists of results\<close>

lemma emap_Inr: "emap f xs = Inr ys \<longleftrightarrow> list_all2 (\<lambda>x y. f x = Inr y) xs ys"
proof (induction xs arbitrary: ys)
  case (Cons x xs)
  show ?case by (cases "f x"; cases "emap f xs") (auto simp: list_all2_Cons1 simp flip: Cons.IH)
qed auto

lemma emap_cong: "(\<And>x y. x \<in> set xs \<Longrightarrow> f x = Inr y \<Longrightarrow> g x = Inr y) \<Longrightarrow> emap f xs = Inr ys \<Longrightarrow> emap g xs = Inr ys"
  unfolding emap_Inr by (auto simp: list_all2_conv_all_nth)

section \<open>Rows of a plan\<close>

definition scan_order :: "(nat list \<Rightarrow> nat list) \<Rightarrow> string \<Rightarrow> nat list" where
  "scan_order shuffle table = (if GetShuffled table then shuffle [0..<GetSizeOf table] else [0..<GetSizeOf table])"

inductive query_rows :: "'d double_ops \<Rightarrow> (nat list \<Rightarrow> nat list) \<Rightarrow> 'd plan \<Rightarrow> column list \<Rightarrow> 'd Value list list \<Rightarrow> bool" for D shuffle where
  value_rows: "query_rows D shuffle (Plan (new_schema cols) (ValuesNode exprs) []) cols rows"
  if "emap (emap (\<lambda>e. eval_row D e [])) exprs = Inr rows" and "list_all wf_column cols" and "\<forall>vs \<in> set rows. fits_row D cols vs"
| mock_rows: "query_rows D shuffle (Plan (new_schema cols) (MockScan table) []) cols rows"
  if "emap (mock_values D (new_schema cols) table) (scan_order shuffle table) = Inr rows" and "list_all wf_column cols"
    and "\<forall>vs \<in> set rows. fits_row D cols vs"
| filter_rows: "query_rows D shuffle (Plan (new_schema cols) (Filter predicate) [child]) cols (map fst (List.filter snd (zip rows oks)))"
  if "query_rows D shuffle child child_cols rows" and "emap (test_row D predicate) rows = Inr oks" and "list_all wf_column cols"
    and "map column_type cols = map column_type child_cols"
| projection_rows: "query_rows D shuffle (Plan (new_schema cols) (Projection exprs) [child]) cols rows'"
  if "query_rows D shuffle child child_cols rows" and "emap (\<lambda>vs. emap (\<lambda>e. eval_row D e vs) exprs) rows = Inr rows'"
    and "list_all wf_column cols" and "\<forall>vs \<in> set rows'. fits_row D cols vs"

text \<open>The layout of a row depends on the types of the columns only.\<close>

lemma wf_columns_same_types:
  "list_all wf_column cols \<Longrightarrow> list_all wf_column cols' \<Longrightarrow> map column_type cols = map column_type cols' \<Longrightarrow>
   list_all2 (\<lambda>c c'. column_type c = column_type c' \<and> fixed_length c = fixed_length c') cols cols'"
proof (induction cols arbitrary: cols')
  case (Cons c cols)
  then obtain c' cs where "cols' = c' # cs" by (cases cols') auto
  with Cons show ?case by (auto simp: wf_column_def)
qed simp

lemma same_types_layout:
  assumes "list_all2 (\<lambda>c c'. column_type c = column_type c' \<and> fixed_length c = fixed_length c') cols cols'"
  shows "fixed_part cols = fixed_part cols'" "varlen_part D cols vs = varlen_part D cols' vs"
    "list_all2 (matches D) cols vs = list_all2 (matches D) cols' vs" "uninlined_from i cols = uninlined_from i cols'"
    "list_all Column_IsInlined cols = list_all Column_IsInlined cols'"
    "write_columns D (place off cols) vs k = write_columns D (place off cols') vs k"
  using assms
proof (induction arbitrary: vs i off k rule: list_all2_induct)
  case (Cons c cols c' cols')
  case 1
  then show ?case using Cons by (simp add: fixed_part_def)
next
  case (Cons c cols c' cols')
  case 2
  then show ?case using Cons by (cases vs) (simp_all add: Column_IsInlined_def)
next
  case (Cons c cols c' cols')
  case 3
  then show ?case using Cons by (cases vs) (simp_all add: matches_def)
next
  case (Cons c cols c' cols')
  case 4
  then show ?case using Cons by (simp add: Column_IsInlined_def)
next
  case (Cons c cols c' cols')
  case 5
  then show ?case using Cons by (simp add: Column_IsInlined_def)
next
  case (Cons c cols c' cols')
  case 6
  then show ?case using Cons by (intro ext, cases vs) (simp_all add: Column_IsInlined_def)
qed (simp_all add: fixed_part_def)

lemma fits_row_same_types:
  assumes "list_all wf_column cols'" and "map column_type cols = map column_type cols'" and "fits_row D cols vs"
  shows "fits_row D cols' vs" and "new_tuple D vs (new_schema cols') = new_tuple D vs (new_schema cols)"
proof -
  have wf: "list_all wf_column cols" and small: "fixed_part cols < 4294967296" using assms(3) by (simp_all add: fits_row_def)
  note types = wf_columns_same_types [OF wf assms(1,2)]
  note same = same_types_layout(1,4,5) [OF types] same_types_layout(2,3,6) [OF types, where D = D]
  show "fits_row D cols' vs" using assms(1,3) same by (simp add: fits_row_def)
  show "new_tuple D vs (new_schema cols') = new_tuple D vs (new_schema cols)"
    using new_schema_eq [OF wf small] new_schema_eq [OF assms(1)] small same arg_cong [OF assms(2), of length]
    by (simp add: new_tuple_def)
qed

section \<open>Executors as producers of rows\<close>

text \<open>The tuples that an executor hands out from a state on, up to its end.\<close>

inductive yields :: "'d double_ops \<Rightarrow> 'd executor \<Rightarrow> exec_state \<Rightarrow> tuple list \<Rightarrow> bool" for D ex where
  exhausted: "yields D ex st []" if "Next D ex st = Some (Inr (None, st'))"
| produced: "yields D ex st (t # ts)" if "Next D ex st = Some (Inr (Some t, st'))" and "yields D ex st' ts"

lemma yields_Next: "yields D ex st' ts \<Longrightarrow> Next D ex st = Next D ex st' \<Longrightarrow> yields D ex st ts"
  by (erule yields.cases) (auto intro: yields.intros)

lemma yields_execute: "yields D ex st ts \<Longrightarrow> execute_loop D ex st rs = Some (Inr (True, map_option (\<lambda>old. old @ ts) rs))"
proof (induction arbitrary: rs rule: yields.induct)
  case (exhausted st st')
  then show ?case by (subst execute_loop.simps) (simp add: option.map_ident)
next
  case (produced st t st' ts)
  then show ?case by (subst execute_loop.simps) (simp add: option.map_comp comp_def)
qed

lemma yields_scan:
  assumes step: "\<And>st. es_cursor st < length ts \<Longrightarrow>
      \<exists>st'. Next D ex st = Some (Inr (Some (ts ! es_cursor st), st')) \<and> es_cursor st' = es_cursor st + 1"
    and stop: "\<And>st. es_cursor st = length ts \<Longrightarrow> Next D ex st = Some (Inr (None, st))"
  shows "es_cursor st \<le> length ts \<Longrightarrow> yields D ex st (drop (es_cursor st) ts)"
proof (induction "length ts - es_cursor st" arbitrary: st)
  case 0
  then show ?case using stop [of st] by (auto intro: exhausted)
next
  case (Suc n)
  then have c: "es_cursor st < length ts" by simp
  obtain st' where st': "Next D ex st = Some (Inr (Some (ts ! es_cursor st), st'))" "es_cursor st' = es_cursor st + 1"
    using step [OF c] by blast
  have "yields D ex st' (drop (es_cursor st') ts)" using Suc.hyps(1) [of st'] Suc.hyps(2) c st'(2) by simp
  then show ?case using produced [OF st'(1)] c st'(2) by (simp add: Cons_nth_drop_Suc [symmetric])
qed

lemma yields_filter:
  assumes "yields D child st ts" and "\<forall>t \<in> set ts. \<exists>b. accepts D e child t = Inr b"
  shows "yields D (FilterExecutor s e child) st (List.filter (\<lambda>t. accepts D e child t = Inr True) ts)"
  using assms
proof (induction rule: yields.induct)
  case (exhausted st st')
  then show ?case by (auto intro: yields.exhausted simp: filter_loop.simps [of _ _ st])
next
  case (produced st t st' ts)
  then obtain b where b: "accepts D e child t = Inr b" by auto
  show ?case
  proof (cases b)
    case True
    with produced b show ?thesis by (auto intro: yields.produced simp: filter_loop.simps [of _ _ st])
  next
    case False
    then have "Next D (FilterExecutor s e child) st = Next D (FilterExecutor s e child) st'"
      using produced.hyps(1) b by (simp add: filter_loop.simps [of _ _ st])
    with produced b False show ?thesis by (auto intro: yields_Next)
  qed
qed

lemma yields_projection:
  assumes "yields D child st ts" and "emap (project D s es child) ts = Inr ts'"
  shows "yields D (ProjectionExecutor s es child) st ts'"
  using assms
proof (induction arbitrary: ts' rule: yields.induct)
  case (exhausted st st')
  then show ?case by (auto intro: yields.exhausted)
next
  case (produced st t st' ts)
  from produced.prems obtain u us where "ts' = u # us" "project D s es child t = Inr u" "emap (project D s es child) ts = Inr us"
    by (auto simp: ebind_def split: sum.splits)
  with produced show ?case by (auto intro: yields.produced)
qed

lemma filter_parallel:
  assumes "list_all2 (\<lambda>x b. P x = Inr b) xs bs" and "list_all2 R xs ts" and "\<And>x t. x \<in> set xs \<Longrightarrow> R x t \<Longrightarrow> Q t = P x"
  shows "list_all2 R (map fst (List.filter snd (zip xs bs))) (List.filter (\<lambda>t. Q t = Inr True) ts)"
    and "\<forall>t \<in> set ts. \<exists>b. Q t = Inr b"
  using assms
proof (induction xs arbitrary: bs ts)
  case (Cons x xs)
  case 1
  then obtain b bs' t ts' where l: "bs = b # bs'" "ts = t # ts'" "P x = Inr b" "R x t" "list_all2 (\<lambda>x b. P x = Inr b) xs bs'" "list_all2 R xs ts'"
    by (auto simp: list_all2_Cons1)
  moreover have "Q t = Inr b" using 1(3) [of x t] l by simp
  ultimately show ?case using Cons.IH(1) [OF l(5,6)] 1(3) by simp
next
  case (Cons x xs)
  case 2
  then obtain b bs' t ts' where l: "bs = b # bs'" "ts = t # ts'" "P x = Inr b" "R x t" "list_all2 (\<lambda>x b. P x = Inr b) xs bs'" "list_all2 R xs ts'"
    by (auto simp: list_all2_Cons1)
  moreover have "Q t = Inr b" using 2(3) [of x t] l by simp
  ultimately show ?case using Cons.IH(2) [OF l(5,6)] 2(3) by simp
qed auto

section \<open>The engine produces the rows of the plan\<close>

lemma query_rows_fit:
  "query_rows D shuffle p cols rows \<Longrightarrow> output_schema p = new_schema cols \<and> list_all wf_column cols \<and> (\<forall>vs \<in> set rows. fits_row D cols vs)"
proof (induction rule: query_rows.induct)
  case (filter_rows child child_cols rows predicate oks cols)
  then have "fits_row D cols vs" if "vs \<in> set rows" for vs
    using that fits_row_same_types(1) [OF filter_rows.hyps(3), of child_cols D vs] by simp
  then show ?case using filter_rows.hyps(3) by (auto dest: set_zip_leftD)
qed simp_all

definition encode_rows :: "'d double_ops \<Rightarrow> column list \<Rightarrow> 'd Value list list \<Rightarrow> exc + tuple list" where
  "encode_rows D cols rows = emap (\<lambda>vs. new_tuple D vs (new_schema cols)) rows"

lemma encode_rows_total: "\<forall>vs \<in> set rows. fits_row D cols vs \<Longrightarrow> \<exists>ts. encode_rows D cols rows = Inr ts"
proof (induction rows)
  case (Cons vs rows)
  then obtain t ts where "new_tuple D vs (new_schema cols) = Inr t" "encode_rows D cols rows = Inr ts"
    using fits_row_encodes [of D cols vs] by auto
  then show ?case by (simp add: encode_rows_def)
qed (simp add: encode_rows_def)

definition produces :: "'d double_ops \<Rightarrow> (nat list \<Rightarrow> nat list) \<Rightarrow> 'd plan \<Rightarrow> column list \<Rightarrow> 'd Value list list \<Rightarrow> bool" where
  "produces D shuffle p cols rows \<longleftrightarrow> (\<exists>ex ts. CreateExecutor shuffle p = Inr ex \<and> GetOutputSchema ex = Inr (new_schema cols) \<and>
     encode_rows D cols rows = Inr ts \<and> (\<forall>st. \<exists>st'. Init ex st = Inr st' \<and> yields D ex st' ts))"

lemma produces_values:
  assumes "emap (emap (\<lambda>e. eval_row D e [])) exprs = Inr rows" and "\<forall>vs \<in> set rows. fits_row D cols vs"
  shows "produces D shuffle (Plan (new_schema cols) (ValuesNode exprs) []) cols rows"
proof -
  obtain ts where ts: "encode_rows D cols rows = Inr ts" using encode_rows_total [OF assms(2)] by blast
  have len: "length exprs = length rows" "length rows = length ts"
    using assms(1) ts by (auto simp: emap_Inr encode_rows_def dest: list_all2_lengthD)
  have "Values_Next D (new_schema cols) exprs st = Inr (Some (ts ! es_cursor st), st\<lparr>es_cursor := es_cursor st + 1\<rparr>)"
    if c: "es_cursor st < length ts" for st
  proof -
    have "emap (\<lambda>e. eval_row D e []) (exprs ! es_cursor st) = Inr (rows ! es_cursor st)"
      using list_all2_nthD [OF iffD1 [OF emap_Inr assms(1)]] c len by simp
    then have "emap (\<lambda>e. Evaluate D e None (new_schema [])) (exprs ! es_cursor st) = Inr (rows ! es_cursor st)"
      by (rule emap_cong [rotated]) (rule Evaluate_constant)
    moreover have "new_tuple D (rows ! es_cursor st) (new_schema cols) = Inr (ts ! es_cursor st)"
      using list_all2_nthD [OF iffD1 [OF emap_Inr ts [unfolded encode_rows_def]]] c len by simp
    ultimately show ?thesis using c len by (simp add: Values_Next_def)
  qed
  then have "yields D (ValuesExecutor (new_schema cols) exprs) (st\<lparr>es_cursor := 0\<rparr>) ts" for st
    using yields_scan [of ts D "ValuesExecutor (new_schema cols) exprs" "st\<lparr>es_cursor := 0\<rparr>"] len by (simp add: Values_Next_def)
  then show ?thesis using ts by (simp add: produces_def GetOutputSchema_def)
qed

text \<open>\<^verbatim>\<open>std::shuffle\<close> permutes its range.\<close>

definition permutes_ranges :: "(nat list \<Rightarrow> nat list) \<Rightarrow> bool" where
  "permutes_ranges shuffle \<longleftrightarrow> (\<forall>n. mset (shuffle [0..<n]) = mset [0..<n])"

lemma scan_order_position:
  assumes "permutes_ranges shuffle" and "c < GetSizeOf table"
  shows "(let idx = if GetShuffled table then shuffle [0..<GetSizeOf table] else [] in if idx = [] then Inr c else array_at idx c)
    = Inr (scan_order shuffle table ! c)"
proof -
  have "length (shuffle [0..<GetSizeOf table]) = GetSizeOf table"
    using arg_cong [OF assms(1) [unfolded permutes_ranges_def, rule_format], of size "GetSizeOf table"] by simp
  then show ?thesis using assms(2) by (auto simp: scan_order_def array_at_def Let_def)
qed

lemma length_scan_order: "permutes_ranges shuffle \<Longrightarrow> length (scan_order shuffle table) = GetSizeOf table"
  unfolding permutes_ranges_def scan_order_def by (metis length_upt minus_nat.diff_0 size_mset)

lemma produces_mock:
  assumes "emap (mock_values D (new_schema cols) table) (scan_order shuffle table) = Inr rows" and "\<forall>vs \<in> set rows. fits_row D cols vs"
    and "permutes_ranges shuffle"
  shows "produces D shuffle (Plan (new_schema cols) (MockScan table) []) cols rows"
proof -
  let ?ex = "new_MockScanExecutor shuffle (new_schema cols) table"
  obtain ts where ts: "encode_rows D cols rows = Inr ts" using encode_rows_total [OF assms(2)] by blast
  have len: "length rows = GetSizeOf table" "length rows = length ts"
    using assms(1) ts length_scan_order [OF assms(3)] by (auto simp: emap_Inr encode_rows_def dest: list_all2_lengthD)
  have step: "Next D ?ex st = Some (Inr (Some (ts ! es_cursor st), st\<lparr>es_cursor := es_cursor st + 1, es_rid := RID_int64 0\<rparr>))"
    if c: "es_cursor st < length ts" for st
  proof -
    have "mock_values D (new_schema cols) table (scan_order shuffle table ! es_cursor st) = Inr (rows ! es_cursor st)"
      using list_all2_nthD [OF iffD1 [OF emap_Inr assms(1)]] c len length_scan_order [OF assms(3)] by simp
    moreover have "new_tuple D (rows ! es_cursor st) (new_schema cols) = Inr (ts ! es_cursor st)"
      using list_all2_nthD [OF iffD1 [OF emap_Inr ts [unfolded encode_rows_def]]] c len by simp
    ultimately show ?thesis
      using c len scan_order_position [OF assms(3), of "es_cursor st" table]
      by (simp add: new_MockScanExecutor_def MockScan_Next_def GetFunctionOf_def Let_def)
  qed
  moreover have "Next D ?ex st = Some (Inr (None, st))" if "es_cursor st = length ts" for st
    using that len by (simp add: new_MockScanExecutor_def MockScan_Next_def)
  ultimately have "yields D ?ex (st\<lparr>es_cursor := 0\<rparr>) ts" for st
    using yields_scan [of ts D ?ex "st\<lparr>es_cursor := 0\<rparr>"] by simp
  then show ?thesis using ts by (simp add: produces_def GetOutputSchema_def new_MockScanExecutor_def)
qed

lemma produces_filter:
  assumes child: "produces D shuffle child child_cols rows" "\<forall>vs \<in> set rows. fits_row D child_cols vs"
    and oks: "emap (test_row D predicate) rows = Inr oks" and cols: "list_all wf_column cols" "map column_type cols = map column_type child_cols"
  shows "produces D shuffle (Plan (new_schema cols) (Filter predicate) [child]) cols (map fst (List.filter snd (zip rows oks)))"
proof -
  obtain ex ts where ex: "CreateExecutor shuffle child = Inr ex" "GetOutputSchema ex = Inr (new_schema child_cols)"
      "encode_rows D child_cols rows = Inr ts" "\<And>st. \<exists>st'. Init ex st = Inr st' \<and> yields D ex st' ts"
    using child(1) by (auto simp: produces_def)
  let ?R = "\<lambda>vs t. new_tuple D vs (new_schema cols) = Inr t"
  have enc: "list_all2 ?R rows ts"
    using ex(3) child(2) fits_row_same_types(2) [OF cols(1), of child_cols D] cols(2)
    by (auto simp: encode_rows_def emap_Inr list_all2_conv_all_nth)
  have acc: "accepts D predicate ex t = test_row D predicate vs" if "vs \<in> set rows" "?R vs t" for vs t
    using that child(2) ex(2) fits_row_same_types(2) [OF cols(1), of child_cols D vs] cols(2) Evaluate_row [of D child_cols vs t predicate]
    by (simp add: accepts_def test_row_def)
  note parallel = filter_parallel [where P = "test_row D predicate" and R = ?R and Q = "accepts D predicate ex",
      OF oks [unfolded emap_Inr] enc acc]
  have "\<exists>st'. Init ex st = Inr st' \<and> yields D (FilterExecutor (new_schema cols) predicate ex) st' (List.filter (\<lambda>t. accepts D predicate ex t = Inr True) ts)" for st
    using ex(4) [of st] yields_filter [OF _ parallel(2)] by blast
  then show ?thesis using ex(1) parallel(1)
    by (auto simp: produces_def only_child_def GetOutputSchema_def encode_rows_def emap_Inr intro!: exI [of _ "List.filter _ ts"])
qed

lemma produces_projection:
  assumes child: "produces D shuffle child child_cols rows" "\<forall>vs \<in> set rows. fits_row D child_cols vs"
    and rows': "emap (\<lambda>vs. emap (\<lambda>e. eval_row D e vs) exprs) rows = Inr rows'" "\<forall>vs \<in> set rows'. fits_row D cols vs"
  shows "produces D shuffle (Plan (new_schema cols) (Projection exprs) [child]) cols rows'"
proof -
  obtain ex ts where ex: "CreateExecutor shuffle child = Inr ex" "GetOutputSchema ex = Inr (new_schema child_cols)"
      "encode_rows D child_cols rows = Inr ts" "\<And>st. \<exists>st'. Init ex st = Inr st' \<and> yields D ex st' ts"
    using child(1) by (auto simp: produces_def)
  obtain ts' where ts': "encode_rows D cols rows' = Inr ts'" using encode_rows_total [OF rows'(2)] by blast
  have step: "project D (new_schema cols) exprs ex t = Inr t'"
    if "vs \<in> set rows" "new_tuple D vs (new_schema child_cols) = Inr t" "emap (\<lambda>e. eval_row D e vs) exprs = Inr vs'"
      "new_tuple D vs' (new_schema cols) = Inr t'" for vs t vs' t'
    using that child(2) ex(2) Evaluate_row [of D child_cols vs t] by (simp add: project_def)
  note lists = iffD1 [OF emap_Inr ex(3) [unfolded encode_rows_def]] iffD1 [OF emap_Inr rows'(1)] iffD1 [OF emap_Inr ts' [unfolded encode_rows_def]]
  note len = lists [THEN list_all2_lengthD]
  have "emap (project D (new_schema cols) exprs ex) ts = Inr ts'"
    unfolding emap_Inr
  proof (rule list_all2_all_nthI)
    fix i assume i: "i < length ts"
    then show "project D (new_schema cols) exprs ex (ts ! i) = Inr (ts' ! i)"
      using lists [THEN list_all2_nthD, of i] len by (intro step [of "rows ! i" _ "rows' ! i"]) simp_all
  qed (use len in simp)
  then have "\<exists>st'. Init ex st = Inr st' \<and> yields D (ProjectionExecutor (new_schema cols) exprs ex) st' ts'" for st
    using ex(4) [of st] yields_projection by blast
  then show ?thesis using ex(1) ts' by (simp add: produces_def only_child_def GetOutputSchema_def)
qed

lemma query_produces: "query_rows D shuffle p cols rows \<Longrightarrow> permutes_ranges shuffle \<Longrightarrow> produces D shuffle p cols rows"
proof (induction rule: query_rows.induct)
  case (filter_rows child child_cols rows predicate oks cols)
  then show ?case using query_rows_fit [OF filter_rows.hyps(1)] by (intro produces_filter) auto
next
  case (projection_rows child child_cols rows exprs rows' cols)
  then show ?case using query_rows_fit [OF projection_rows.hyps(1)] by (intro produces_projection) auto
qed (simp_all add: produces_values produces_mock)

lemma Execute_rows:
  assumes "permutes_ranges shuffle" and "query_rows D shuffle p cols rows"
  shows "\<exists>ts. encode_rows D cols rows = Inr ts \<and> (\<forall>rs. Execute D shuffle p rs = Some (Inr (True, map_option (\<lambda>old. old @ ts) rs)))"
proof -
  obtain ex ts where ex: "CreateExecutor shuffle p = Inr ex" "encode_rows D cols rows = Inr ts"
      "\<And>st. \<exists>st'. Init ex st = Inr st' \<and> yields D ex st' ts"
    using query_produces [OF assms(2,1)] by (auto simp: produces_def)
  obtain st where "Init ex \<lparr>es_cursor = 0, es_rid = RID_default\<rparr> = Inr st" "yields D ex st ts" using ex(3) by blast
  with ex(1,2) show ?thesis by (simp add: Execute_def yields_execute)
qed

text \<open>C8. The execution engine is correct for the plans whose executors are implemented: executing a
  plan returns, always terminating, and appends to the result set one tuple for each row of the plan, in order;
  the columns of the tuple read back as the values of the row.\<close>

theorem query_execution_correct:
  assumes "permutes_ranges shuffle" and "query_rows D shuffle p cols rows"
  shows "\<exists>ts. Execute D shuffle p (Some result_set) = Some (Inr (True, Some (result_set @ ts))) \<and> length ts = length rows \<and>
    (\<forall>i < length rows. \<forall>j < length cols. Tuple_GetValue D (output_schema p) j (ts ! i) = Inr (rows ! i ! j))"
proof -
  have p: "output_schema p = new_schema cols" "\<And>vs. vs \<in> set rows \<Longrightarrow> fits_row D cols vs" using query_rows_fit [OF assms(2)] by simp_all
  obtain ts where ts: "encode_rows D cols rows = Inr ts" "Execute D shuffle p (Some result_set) = Some (Inr (True, Some (result_set @ ts)))"
    using Execute_rows [OF assms] by fastforce
  have enc: "list_all2 (\<lambda>vs t. new_tuple D vs (new_schema cols) = Inr t) rows ts" using ts(1) by (simp add: encode_rows_def emap_Inr)
  have "Tuple_GetValue D (output_schema p) j (ts ! i) = Inr (rows ! i ! j)" if "i < length rows" "j < length cols" for i j
    using fits_row_reads [OF p(2) list_all2_nthD [OF enc], of i j] that p(1) by simp
  with ts(2) enc show ?thesis by (auto dest: list_all2_lengthD)
qed

section \<open>The optimizer keeps the rows\<close>

lemma types_add_columns: "map column_type (columns (add_columns cols i off s)) = map column_type (columns s) @ map column_type cols"
  by (induction cols arbitrary: i off s) (simp_all add: Let_def)

lemma types_new_schema [simp]: "map column_type (columns (new_schema cols)) = map column_type cols"
  by (simp add: new_schema_def types_add_columns)

lemma emap_map: "emap f (map g xs) = emap (\<lambda>x. f (g x)) xs"
  by (induction xs) simp_all

lemma mock_values_types:
  assumes "map column_type (columns s) = map column_type (columns s')"
  shows "mock_values D s table = mock_values D s' table"
proof -
  have "emap (\<lambda>column. GetZeroValueByType D (column_type column)) (columns s) = emap (\<lambda>column. GetZeroValueByType D (column_type column)) (columns s')"
    using emap_map [of "GetZeroValueByType D" column_type] assms by metis
  then show ?thesis by (intro ext) (simp add: mock_values_def)
qed

lemma query_rows_retyped:
  assumes "query_rows D shuffle q cols rows" and "list_all wf_column cols'" and "map column_type cols = map column_type cols'"
  shows "query_rows D shuffle (Plan (new_schema cols') (plan_node q) (plan_children q)) cols' rows"
  using assms(1)
proof cases
  case (value_rows exprs)
  then show ?thesis using assms(2,3) fits_row_same_types(1) [OF assms(2,3), where D = D] by (auto intro: query_rows.value_rows)
next
  case (mock_rows table)
  moreover have "mock_values D (new_schema cols') table = mock_values D (new_schema cols) table"
    using assms(3) by (intro mock_values_types) simp
  ultimately show ?thesis using assms(2) fits_row_same_types(1) [OF assms(2,3), where D = D] by (auto intro!: query_rows.mock_rows)
next
  case (filter_rows child child_cols rows predicate oks)
  then show ?thesis using assms(2,3) by (auto intro: query_rows.filter_rows)
next
  case (projection_rows child child_cols rows exprs)
  then show ?thesis using assms(2) fits_row_same_types(1) [OF assms(2,3), where D = D] by (auto intro: query_rows.projection_rows)
qed

lemma identical_values:
  "is_identical k exprs \<Longrightarrow> emap (\<lambda>e. eval_row D e vs) exprs = Inr ws \<Longrightarrow> ws = take (length exprs) (drop k vs)"
proof (induction exprs arbitrary: k ws)
  case (Cons e es)
  then obtain ret_type v vs' where e: "e = Column_Value 0 k ret_type" "is_identical (k + 1) es" "eval_row D e vs = Inr v"
      "emap (\<lambda>e. eval_row D e vs) es = Inr vs'" "ws = v # vs'"
    by (auto simp: ebind_def split: expr.splits sum.splits)
  then have "k < length vs" "v = vs ! k" by (auto split: if_splits)
  then show ?case using Cons.IH [OF e(2,4)] e(5) by (simp add: Cons_nth_drop_Suc [symmetric])
qed simp

lemma identical_rows:
  assumes "is_identical 0 exprs" and "emap (\<lambda>vs. emap (\<lambda>e. eval_row D e vs) exprs) rows = Inr rows'"
    and "\<forall>vs \<in> set rows. length vs = n" and "\<forall>vs \<in> set rows'. length vs = n"
  shows "rows' = rows"
proof -
  have l: "list_all2 (\<lambda>vs ws. emap (\<lambda>e. eval_row D e vs) exprs = Inr ws) rows rows'" using assms(2) by (rule iffD1 [OF emap_Inr])
  have "rows' ! i = rows ! i" if i: "i < length rows" for i
  proof -
    have "rows' ! i = take (length exprs) (rows ! i)" using identical_values [OF assms(1) list_all2_nthD [OF l i]] by simp
    moreover have "length (rows' ! i) = n" "length (rows ! i) = n" using assms(3,4) i list_all2_lengthD [OF l] by auto
    ultimately show ?thesis by (simp add: min_def split: if_splits)
  qed
  then show ?thesis using list_all2_lengthD [OF l] by (intro nth_equalityI) simp_all
qed

lemmas merge_projection_plan = merge_projection_def [of "Plan schema nd children" for schema nd children]

lemma merge_projection_rows:
  "query_rows D shuffle p cols rows \<Longrightarrow> \<exists>p'. OptimizeMergeProjection p = Inr p' \<and> query_rows D shuffle p' cols rows"
  unfolding OptimizeMergeProjection_def
proof (induction rule: query_rows.induct)
  case (projection_rows child child_cols rows exprs rows' cols)
  then obtain c where c: "bottom_up merge_projection child = Inr c" "query_rows D shuffle c child_cols rows" by blast
  note fit = query_rows_fit [OF c(2)]
  show ?case
  proof (cases "map column_type child_cols = map column_type cols \<and> is_identical 0 exprs")
    case True
    have "length child_cols = length cols" using True by (auto dest: map_eq_imp_length_eq)
    then have "rows' = rows"
      using True projection_rows.hyps(2,4) fit fits_row_length [of D]
      by (intro identical_rows [of exprs D _ _ "length cols"]) auto
    then have "query_rows D shuffle (Plan (new_schema cols) (plan_node c) (plan_children c)) cols rows'"
      using query_rows_retyped [OF c(2) projection_rows.hyps(3)] True by simp
    with c(1) True fit show ?thesis by (simp add: merge_projection_plan CloneWithChildren_def)
  next
    case False
    with c fit projection_rows.hyps show ?thesis
      by (auto simp: merge_projection_plan CloneWithChildren_def intro: query_rows.projection_rows)
  qed
next
  case (filter_rows child child_cols rows predicate oks cols)
  then show ?case by (auto simp: merge_projection_plan CloneWithChildren_def intro: query_rows.filter_rows)
qed (auto simp: merge_projection_plan CloneWithChildren_def intro: query_rows.intros)

lemma unchanged_rows:
  assumes "\<And>q cols rows. query_rows D shuffle q cols rows \<Longrightarrow> rule q = Inr q"
  shows "query_rows D shuffle p cols rows \<Longrightarrow> bottom_up rule p = Inr p"
proof (induction rule: query_rows.induct)
  case (filter_rows child child_cols rows predicate oks cols)
  then show ?case using assms [OF query_rows.filter_rows [OF filter_rows.hyps]] by (simp add: CloneWithChildren_def)
next
  case (projection_rows child child_cols rows exprs rows' cols)
  then show ?case using assms [OF query_rows.projection_rows [OF projection_rows.hyps]] by (simp add: CloneWithChildren_def)
next
  case (value_rows exprs rows cols)
  then show ?case using assms [OF query_rows.value_rows] by (simp add: CloneWithChildren_def)
next
  case (mock_rows cols table rows)
  then show ?case using assms [OF query_rows.mock_rows] by (simp add: CloneWithChildren_def)
qed

lemma query_rows_node:
  "query_rows D shuffle p cols rows \<Longrightarrow>
   (\<exists>exprs. plan_node p = ValuesNode exprs) \<or> (\<exists>table. plan_node p = MockScan table) \<or> (\<exists>exprs. plan_node p = Projection exprs) \<or>
   (\<exists>e child ccols crows. plan_node p = Filter e \<and> plan_children p = [child] \<and> query_rows D shuffle child ccols crows)"
  by (erule query_rows.cases) auto

lemma index_rules_unchanged:
  assumes "query_rows D shuffle p cols rows"
  shows "merge_filter_nlj D p = Inr p" "nlj_as_index_join cat p = Inr p" "order_by_index_scan cat p = Inr p"
proof -
  show "nlj_as_index_join cat p = Inr p" "order_by_index_scan cat p = Inr p"
    using query_rows_node [OF assms] by (auto simp: nlj_as_index_join_def order_by_index_scan_def)
  show "merge_filter_nlj D p = Inr p"
    using query_rows_node [OF assms]
  proof (elim disjE exE conjE)
    fix e child ccols crows
    assume "plan_node p = Filter e" "plan_children p = [child]" "query_rows D shuffle child ccols crows"
    then show ?thesis using query_rows_node [of D shuffle child] by (fastforce simp: merge_filter_nlj_def)
  qed (simp_all add: merge_filter_nlj_def)
qed

lemma Optimize_rows:
  assumes "query_rows D shuffle p cols rows"
  shows "\<exists>p'. Optimize D cat force_starter_rule p = Inr p' \<and> query_rows D shuffle p' cols rows"
proof -
  obtain p' where p': "OptimizeMergeProjection p = Inr p'" "query_rows D shuffle p' cols rows"
    using merge_projection_rows [OF assms] by blast
  have "bottom_up (merge_filter_nlj D) p' = Inr p'" "bottom_up (nlj_as_index_join cat) p' = Inr p'"
      "bottom_up (order_by_index_scan cat) p' = Inr p'"
    using p'(2) by (auto intro!: unchanged_rows index_rules_unchanged)
  with p' show ?thesis
    by (simp add: Optimize_def OptimizeCustom_def OptimizeMergeFilterNLJ_def OptimizeNLJAsIndexJoin_def OptimizeOrderByAsIndexScan_def
        OptimizeSortLimitAsTopN_def)
qed

text \<open>Two runs of a plan may see the rows of a shuffled mock table in two orders.\<close>

fun scans_shuffled :: "'d plan \<Rightarrow> bool" where
  "scans_shuffled (Plan s nd children) \<longleftrightarrow>
     (case nd of MockScan table \<Rightarrow> GetShuffled table | _ \<Rightarrow> False) \<or> (\<exists>child \<in> set children. scans_shuffled child)"

lemma emap_as_map: "emap f xs = Inr ys \<longleftrightarrow> (\<forall>x \<in> set xs. \<exists>y. f x = Inr y) \<and> ys = map (\<lambda>x. projr (f x)) xs"
proof (induction xs arbitrary: ys)
  case (Cons x xs)
  show ?case
  proof (cases "f x")
    case (Inr y)
    then have "emap f (x # xs) = Inr ys \<longleftrightarrow> (\<exists>zs. emap f xs = Inr zs \<and> ys = y # zs)" by (cases "emap f xs") auto
    then show ?thesis using Inr by (auto simp: Cons.IH)
  qed simp
qed auto

lemma emap_permuted:
  assumes "emap f xs = Inr ys" and "mset xs' = mset xs"
  obtains ys' where "emap f xs' = Inr ys'" and "mset ys' = mset ys" and "xs' = xs \<Longrightarrow> ys' = ys"
proof
  show "emap f xs' = Inr (map (\<lambda>x. projr (f x)) xs')" using assms mset_eq_setD [OF assms(2)] by (simp add: emap_as_map)
qed (use assms in \<open>auto simp: emap_as_map\<close>)

lemma filtered_by_test:
  "emap f xs = Inr bs \<Longrightarrow> map fst (List.filter snd (zip xs bs)) = List.filter (\<lambda>x. projr (f x)) xs"
  by (induction xs arbitrary: bs) (auto simp: ebind_def split: sum.splits)

lemma scan_orders:
  assumes "permutes_ranges shuffle" and "permutes_ranges shuffle'"
  shows "mset (scan_order shuffle' table) = mset (scan_order shuffle table)"
  using assms by (simp add: scan_order_def permutes_ranges_def)

lemma query_rows_reordered:
  assumes "permutes_ranges shuffle" and "permutes_ranges shuffle'" and "query_rows D shuffle p cols rows"
  shows "\<exists>rows'. query_rows D shuffle' p cols rows' \<and> mset rows' = mset rows \<and> (shuffle' = shuffle \<or> \<not> scans_shuffled p \<longrightarrow> rows' = rows)"
  using assms(3)
proof (induction rule: query_rows.induct)
  case (value_rows exprs rows cols)
  then show ?case using query_rows.value_rows [OF value_rows] by blast
next
  case (mock_rows cols table rows)
  obtain rows' where r: "emap (mock_values D (new_schema cols) table) (scan_order shuffle' table) = Inr rows'" "mset rows' = mset rows"
    "scan_order shuffle' table = scan_order shuffle table \<Longrightarrow> rows' = rows"
    using emap_permuted [OF mock_rows(1) scan_orders [OF assms(1,2)]] by blast
  then have "query_rows D shuffle' (Plan (new_schema cols) (MockScan table) []) cols rows'"
    using mock_rows(2,3) mset_eq_setD [OF r(2)] by (intro query_rows.mock_rows) simp_all
  then show ?case using r(2,3) by (auto simp: scan_order_def)
next
  case (filter_rows child child_cols rows predicate oks cols)
  then obtain rows' where r: "query_rows D shuffle' child child_cols rows'" "mset rows' = mset rows"
    "shuffle' = shuffle \<or> \<not> scans_shuffled child \<Longrightarrow> rows' = rows" by blast
  obtain oks' where oks': "emap (test_row D predicate) rows' = Inr oks'" using emap_permuted [OF filter_rows.hyps(2) r(2)] by blast
  from query_rows.filter_rows [OF r(1) this filter_rows.hyps(3,4)] show ?case
    unfolding filtered_by_test [OF oks'] filtered_by_test [OF filter_rows.hyps(2)] using r(2,3)
    by (intro exI [of _ "List.filter (\<lambda>vs. projr (test_row D predicate vs)) rows'"]) auto
next
  case (projection_rows child child_cols rows exprs rows1 cols)
  then obtain rows' where r: "query_rows D shuffle' child child_cols rows'" "mset rows' = mset rows"
    "shuffle' = shuffle \<or> \<not> scans_shuffled child \<Longrightarrow> rows' = rows" by blast
  obtain rows1' where r1: "emap (\<lambda>vs. emap (\<lambda>e. eval_row D e vs) exprs) rows' = Inr rows1'" "mset rows1' = mset rows1" "rows' = rows \<Longrightarrow> rows1' = rows1"
    using emap_permuted [OF projection_rows.hyps(2) r(2)] by blast
  have "query_rows D shuffle' (Plan (new_schema cols) (Projection exprs) [child]) cols rows1'"
    using r(1) r1(1) projection_rows.hyps(3,4) mset_eq_setD [OF r1(2)] by (intro query_rows.projection_rows) simp_all
  then show ?case using r(3) r1(2,3) by auto
qed

text \<open>C9. For the plans built from literal rows, mock tables, filters and projections, the plans whose
  executors are implemented, when all their rows evaluate, the optimizer does not change the result of
  the query. It returns a plan without an exception and with the same output schema, the original and the
  new plan both execute to their end, and they append the same tuples, each the same number of
  times. The two executions draw the orders of a shuffled mock table independently of each other;
  when they draw the same order, or no shuffled table is scanned, the tuples come in the same order.\<close>

theorem optimizer_preserves_results:
  assumes "permutes_ranges shuffle" and "permutes_ranges shuffle'" and "query_rows D shuffle p cols rows"
  shows "\<exists>p' ts ts'. Optimize D cat force_starter_rule p = Inr p' \<and> output_schema p' = output_schema p \<and>
    Execute D shuffle p (Some result_set) = Some (Inr (True, Some (result_set @ ts))) \<and>
    Execute D shuffle' p' (Some result_set) = Some (Inr (True, Some (result_set @ ts'))) \<and>
    mset ts' = mset ts \<and> (shuffle' = shuffle \<or> \<not> scans_shuffled p \<longrightarrow> ts' = ts)"
proof -
  obtain rows' where r: "query_rows D shuffle' p cols rows'" "mset rows' = mset rows" "shuffle' = shuffle \<or> \<not> scans_shuffled p \<Longrightarrow> rows' = rows"
    using query_rows_reordered [OF assms] by blast
  obtain p' where p': "Optimize D cat force_starter_rule p = Inr p'" "query_rows D shuffle' p' cols rows'"
    using Optimize_rows [OF r(1)] by blast
  obtain ts where ts: "encode_rows D cols rows = Inr ts" "Execute D shuffle p (Some result_set) = Some (Inr (True, Some (result_set @ ts)))"
    using Execute_rows [OF assms(1,3)] by fastforce
  obtain ts' where ts': "encode_rows D cols rows' = Inr ts'" "Execute D shuffle' p' (Some result_set) = Some (Inr (True, Some (result_set @ ts')))"
    using Execute_rows [OF assms(2) p'(2)] by fastforce
  have "mset ts' = mset ts" "rows' = rows \<Longrightarrow> ts' = ts"
    using emap_permuted [OF ts(1) [unfolded encode_rows_def] r(2)] ts'(1) by (auto simp: encode_rows_def)
  then show ?thesis using p'(1) ts(2) ts'(2) r(3) query_rows_fit [OF assms(3)] query_rows_fit [OF p'(2)] by auto
qed

section \<open>Filters and joins\<close>

text \<open>The rows of an inner join: a row of the left side is joined with the rows of the right side for
  which the predicate holds.  The executor of the join is a stub, so this is the meaning of the operator and not the
  translation of code.\<close>

fun eval_join :: "'d double_ops \<Rightarrow> 'd expr \<Rightarrow> 'd Value list \<Rightarrow> 'd Value list \<Rightarrow> exc + 'd Value" where
  "eval_join D (Constant_Value v) l r = Inr v"
| "eval_join D (Column_Value tuple_idx col_idx ret_type) l r =
     (let vs = if tuple_idx = 0 then l else r in if col_idx < length vs then Inr (vs ! col_idx) else Inl Out_Of_Bounds)"
| "eval_join D (Arithmetic op e f) l r = ebind (eval_join D e l r) (\<lambda>x. ebind (eval_join D f l r) (\<lambda>y. arithmetic_value D op x y))"
| "eval_join D (Comparison op e f) l r =
     ebind (eval_join D e l r) (\<lambda>x. ebind (eval_join D f l r) (\<lambda>y. ebind (PerformComparison D op x y) GetBooleanValue))"
| "eval_join D (Logic op e f) l r =
     ebind (eval_join D e l r) (\<lambda>x. ebind (eval_join D f l r) (\<lambda>y. ebind (PerformLogic D op x y) GetBooleanValue))"

definition holds :: "'d double_ops \<Rightarrow> exc + 'd Value \<Rightarrow> bool" where
  "holds D result = (case result of Inl e \<Rightarrow> False | Inr v \<Rightarrow> \<not> IsNull D v \<and> GetAs_bool D v = Inr True)"

definition partners :: "'d double_ops \<Rightarrow> 'd expr \<Rightarrow> 'd Value list list \<Rightarrow> 'd Value list \<Rightarrow> 'd Value list list" where
  "partners D e rs l = map (\<lambda>r. l @ r) (List.filter (\<lambda>r. holds D (eval_join D e l r)) rs)"

definition inner_join :: "'d double_ops \<Rightarrow> 'd expr \<Rightarrow> 'd Value list list \<Rightarrow> 'd Value list list \<Rightarrow> 'd Value list list" where
  "inner_join D e ls rs = concat (map (partners D e rs) ls)"

lemma EvaluateJoin_rows:
  assumes "fits_row D lcols l" "new_tuple D l (new_schema lcols) = Inr lt" "fits_row D rcols r" "new_tuple D r (new_schema rcols) = Inr rt"
  shows "EvaluateJoin D e lt (new_schema lcols) rt (new_schema rcols) = eval_join D e l r"
proof (induction e)
  case (Column_Value tuple_idx col_idx ret_type)
  show ?case
    using Evaluate_row [OF assms(1,2), of "Column_Value tuple_idx col_idx ret_type"]
      Evaluate_row [OF assms(3,4), of "Column_Value tuple_idx col_idx ret_type"] by simp
qed simp_all

lemma rewritten_join: "RewriteExpressionForJoin e (length l) (length r) = Inr e' \<Longrightarrow> eval_join D e' l r = eval_row D e (l @ r)"
proof (induction e arbitrary: e')
  case (Column_Value tuple_idx col_idx ret_type)
  then show ?case by (auto simp: nth_append split: if_splits)
qed (auto simp: ebind_def split: sum.splits)

lemma true_constant [simp]: "IsPredicateTrue D (Constant_Value (Boolean_v 1)) = Inr True" "holds D (Inr (Boolean_v 1))"
  by (simp_all add: IsPredicateTrue_def CastAs_def BooleanType_CastAs_def BooleanType_Copy_def GetAs_bool_def holds_def IsNull_def Value_int8_def
      BUSTUB_BOOLEAN_NULL_def BUSTUB_VALUE_NULL_def)

lemma filtered_partners:
  assumes "RewriteExpressionForJoin e m n = Inr e'" and "length l = m" and "\<forall>r \<in> set rs. length r = n"
  shows "List.filter (\<lambda>vs. holds D (eval_row D e vs)) (partners D (Constant_Value (Boolean_v 1)) rs l) = partners D e' rs l"
  using assms(3)
proof (induction rs)
  case (Cons r rs)
  then show ?case using rewritten_join [of e l r e' D] assms(1,2) by (simp add: partners_def)
qed (simp add: partners_def)

text \<open>C24. Merging a filter into a cross product is sound: the rule replaces a filter over an inner
  join without a condition by a join on the rewritten predicate, and that join has exactly the rows of
  the cross product that pass the filter.\<close>

theorem filter_into_inner_join:
  assumes "columns_within (length (columns (output_schema left)) + length (columns (output_schema right))) e"
  shows "\<exists>e'. merge_filter_nlj D (Plan s (Filter e) [Plan s' (NestedLoopJoin (Constant_Value (Boolean_v 1)) Inner_Join) [left, right]])
        = Inr (Plan s (NestedLoopJoin e' Inner_Join) [left, right]) \<and>
      (\<forall>ls rs. (\<forall>l \<in> set ls. length l = length (columns (output_schema left))) \<longrightarrow>
        (\<forall>r \<in> set rs. length r = length (columns (output_schema right))) \<longrightarrow>
        inner_join D e' ls rs = List.filter (\<lambda>vs. holds D (eval_row D e vs)) (inner_join D (Constant_Value (Boolean_v 1)) ls rs))"
proof -
  obtain e' where e': "RewriteExpressionForJoin e (length (columns (output_schema left))) (length (columns (output_schema right))) = Inr e'"
    using rewrite_total [OF assms] by blast
  have "inner_join D e' ls rs = List.filter (\<lambda>vs. holds D (eval_row D e vs)) (inner_join D (Constant_Value (Boolean_v 1)) ls rs)"
    if "\<forall>l \<in> set ls. length l = length (columns (output_schema left))" "\<forall>r \<in> set rs. length r = length (columns (output_schema right))" for ls rs
    using that by (induction ls) (simp_all add: inner_join_def filtered_partners [OF e'])
  with e' show ?thesis by (simp add: merge_filter_nlj_def)
qed

text \<open>Integer columns, and plans that produce literal rows.\<close>

definition int_columns :: "nat \<Rightarrow> column list" where
  "int_columns n = replicate n \<lparr>column_name = ''c'', column_type = INTEGER, fixed_length = 4, variable_length = 0, column_offset = 0\<rparr>"

definition literal_rows :: "nat \<Rightarrow> 32 word list list \<Rightarrow> int plan" where
  "literal_rows n rows = Plan (new_schema (int_columns n)) (ValuesNode (map (map (\<lambda>x. Constant_Value (Integer_v x))) rows)) []"

definition column_is :: "nat \<Rightarrow> 32 word \<Rightarrow> int expr" where
  "column_is i x = Comparison Equal (Column_Value 0 i INTEGER) (Constant_Value (Integer_v x))"

theorem filter_into_inner_join_witness:
  "\<exists>e'. merge_filter_nlj int_double (Plan (new_schema (int_columns 2)) (Filter (column_is 1 2))
       [Plan (new_schema (int_columns 2)) (NestedLoopJoin (Constant_Value (Boolean_v 1)) Inner_Join) [literal_rows 1 [[7]], literal_rows 1 [[1], [2]]]])
     = Inr (Plan (new_schema (int_columns 2)) (NestedLoopJoin e' Inner_Join) [literal_rows 1 [[7]], literal_rows 1 [[1], [2]]]) \<and>
     inner_join int_double e' [[Integer_v 7]] [[Integer_v 1], [Integer_v 2]] = [[Integer_v 7, Integer_v 2]]"
proof -
  let ?l = "literal_rows 1 [[7]]" and ?r = "literal_rows 1 [[1], [2]]" and ?s = "new_schema (int_columns 2)"
  have n: "length (columns (output_schema ?l)) = 1" "length (columns (output_schema ?r)) = 1" by code_simp+
  have c: "columns_within (length (columns (output_schema ?l)) + length (columns (output_schema ?r))) (column_is 1 2)"
    by code_simp
  have "List.filter (\<lambda>vs. holds int_double (eval_row int_double (column_is 1 2) vs))
      (inner_join int_double (Constant_Value (Boolean_v 1)) [[Integer_v 7]] [[Integer_v 1], [Integer_v 2]]) = [[Integer_v 7, Integer_v 2]]"
    by code_simp
  then show ?thesis using filter_into_inner_join [OF c, of int_double ?s ?s] unfolding n by force
qed

section \<open>An example query\<close>

text \<open>Two rows, the projection on both columns and the filter \<open>c1 = 5\<close>.\<close>

definition example_query :: "int plan" where
  "example_query = Plan (new_schema (int_columns 2)) (Filter (column_is 1 5))
     [Plan (new_schema (int_columns 2)) (Projection [Column_Value 0 0 INTEGER, Column_Value 0 1 INTEGER]) [literal_rows 2 [[1, 4], [2, 5]]]]"

lemma example_query_rows: "query_rows int_double (\<lambda>xs. xs) example_query (int_columns 2) [[Integer_v 2, Integer_v 5]]"
proof -
  let ?rows = "[[Integer_v 1, Integer_v 4], [Integer_v 2, Integer_v 5]] :: int Value list list"
  have wf: "list_all wf_column (int_columns 2)" and fit: "\<forall>vs \<in> set ?rows. fits_row int_double (int_columns 2) vs"
    by (simp_all add: int_columns_def numeral_2_eq_2 wf_column_def TypeSize_def fits_row_def matches_def storable_def fixed_part_def Column_IsInlined_def)
  have "query_rows int_double (\<lambda>xs. xs) (literal_rows 2 [[1, 4], [2, 5]]) (int_columns 2) ?rows"
    unfolding literal_rows_def by (rule value_rows) (use wf fit in simp_all)
  then have "query_rows int_double (\<lambda>xs. xs) (Plan (new_schema (int_columns 2)) (Projection [Column_Value 0 0 INTEGER, Column_Value 0 1 INTEGER])
      [literal_rows 2 [[1, 4], [2, 5]]]) (int_columns 2) ?rows"
    by (rule projection_rows) (use wf fit in simp_all)
  moreover have "emap (test_row int_double (column_is 1 5)) ?rows = Inr [False, True]" by code_simp
  ultimately have "query_rows int_double (\<lambda>xs. xs) example_query (int_columns 2) (map fst (List.filter snd (zip ?rows [False, True])))"
    unfolding example_query_def using wf by (rule filter_rows) simp
  then show ?thesis by simp
qed

theorem query_execution_correct_witness:
  "\<exists>t. Execute int_double (\<lambda>xs. xs) example_query (Some []) = Some (Inr (True, Some [t])) \<and>
     Tuple_GetValue int_double (output_schema example_query) 1 t = Inr (Integer_v 5)"
proof -
  have "permutes_ranges (\<lambda>xs. xs)" "length (int_columns 2) = 2" by (simp_all add: permutes_ranges_def int_columns_def)
  then show ?thesis using query_execution_correct [OF _ example_query_rows, of "[]"] by (auto simp: length_Suc_conv)
qed

theorem optimizer_preserves_results_witness:
  "\<exists>p' ts ts'. Optimize int_double new_catalog True example_query = Inr p' \<and> p' \<noteq> example_query \<and>
     Execute int_double (\<lambda>xs. xs) example_query (Some []) = Some (Inr (True, Some ts)) \<and>
     Execute int_double rev p' (Some []) = Some (Inr (True, Some ts')) \<and> ts' = ts"
proof -
  have "permutes_ranges (\<lambda>xs. xs)" "permutes_ranges rev" by (simp_all add: permutes_ranges_def)
  moreover have "Optimize int_double new_catalog True example_query \<noteq> Inr example_query" by code_simp
  moreover have "\<not> scans_shuffled example_query" by code_simp
  ultimately show ?thesis
    using optimizer_preserves_results [OF _ _ example_query_rows, of rev new_catalog True "[]"] by fastforce
qed

end
