(* ===== verification/Optimizer_Spec.thy ===== *)
theory Optimizer_Spec
  imports Query_Spec Table_Heap_Scan
begin

text \<open>
  Well-formed plans and the optimizer, for all kinds of plan nodes.  A plan is well-formed against a
  catalog when every node has the children its executor asks for, its expressions read columns that
  exist, and the tables and indexes it names are in the catalog.  Every rewrite rule takes
  well-formed plans to well-formed plans and throws nothing.
\<close>

section \<open>Well-formed plans\<close>

definition column_types :: "schema \<Rightarrow> type_id list" where
  "column_types s = map column_type (columns s)"

abbreviation plan_types :: "'d plan \<Rightarrow> type_id list" where
  "plan_types p \<equiv> column_types (output_schema p)"

text \<open>The predicate of a join reads the columns of its two sides.\<close>

fun join_columns_within :: "nat \<Rightarrow> nat \<Rightarrow> 'd expr \<Rightarrow> bool" where
  "join_columns_within m n (Constant_Value v) = True"
| "join_columns_within m n (Column_Value tuple_idx col_idx ret_type) = (tuple_idx = 0 \<and> col_idx < m \<or> tuple_idx = 1 \<and> col_idx < n)"
| "join_columns_within m n (Arithmetic op l r) = (join_columns_within m n l \<and> join_columns_within m n r)"
| "join_columns_within m n (Comparison op l r) = (join_columns_within m n l \<and> join_columns_within m n r)"
| "join_columns_within m n (Logic op l r) = (join_columns_within m n l \<and> join_columns_within m n r)"

text \<open>A predicate that is a constant is a boolean.\<close>

definition boolean_predicate :: "'d expr \<Rightarrow> bool" where
  "boolean_predicate e = (case e of Constant_Value v \<Rightarrow> (case v of Boolean_v _ \<Rightarrow> True | _ \<Rightarrow> False) | _ \<Rightarrow> True)"

definition supported_join :: "join_type \<Rightarrow> bool" where
  "supported_join join_type \<longleftrightarrow> join_type = Left_Join \<or> join_type = Inner_Join"

definition scanned_table :: "catalog \<Rightarrow> oid \<Rightarrow> string \<Rightarrow> type_id list \<Rightarrow> bool" where
  "scanned_table cat table_oid table_name ts = (case GetTableByOid table_oid cat of
       None \<Rightarrow> False
     | Some ti \<Rightarrow> ti_name ti = table_name \<and> column_types (ti_schema ti) = ts)"

definition scanned_index :: "catalog \<Rightarrow> oid \<Rightarrow> type_id list \<Rightarrow> bool" where
  "scanned_index cat index_oid ts = (case GetIndexByOid index_oid cat of
       None \<Rightarrow> False
     | Some ii \<Rightarrow> list_ex (\<lambda>(oid, ti). ti_name ti = ii_table_name ii \<and> column_types (ti_schema ti) = ts) (cat_tables cat))"

text \<open>The index of an index join is on one column of the inner table.\<close>

definition joined_index :: "catalog \<Rightarrow> oid \<Rightarrow> string \<Rightarrow> string \<Rightarrow> nat \<Rightarrow> bool" where
  "joined_index cat index_oid index_name table_name n = (case GetIndexByOid index_oid cat of
       None \<Rightarrow> False
     | Some ii \<Rightarrow> ii_name ii = index_name \<and> ii_table_name ii = table_name \<and>
         (case im_key_attrs (ii_metadata ii) of [column] \<Rightarrow> column < n | _ \<Rightarrow> False))"

text \<open>A node with its output columns and those of its children.\<close>

primrec node_ok :: "catalog \<Rightarrow> type_id list \<Rightarrow> 'd node \<Rightarrow> type_id list list \<Rightarrow> bool" where
  "node_ok cat ts (SeqScan table_oid table_name filter_predicate) cs =
     (cs = [] \<and> scanned_table cat table_oid table_name ts \<and>
      (case filter_predicate of None \<Rightarrow> True | Some e \<Rightarrow> columns_within (length ts) e \<and> boolean_predicate e))"
| "node_ok cat ts (IndexScan index_oid) cs = (cs = [] \<and> scanned_index cat index_oid ts)"
| "node_ok cat ts (InsertNode table_oid) cs = (length cs = 1 \<and> GetTableByOid table_oid cat \<noteq> None)"
| "node_ok cat ts (UpdateNode table_oid target_expressions) cs = (case cs of
       [c] \<Rightarrow> GetTableByOid table_oid cat \<noteq> None \<and> list_all (columns_within (length c)) target_expressions
     | _ \<Rightarrow> False)"
| "node_ok cat ts (DeleteNode table_oid) cs = (length cs = 1 \<and> GetTableByOid table_oid cat \<noteq> None)"
| "node_ok cat ts (Aggregation group_bys aggregates agg_types) cs = (case cs of
       [c] \<Rightarrow> list_all (columns_within (length c)) group_bys \<and> list_all (columns_within (length c)) aggregates \<and>
         length aggregates = length agg_types \<and> length ts = length group_bys + length aggregates
     | _ \<Rightarrow> False)"
| "node_ok cat ts (Limit limit) cs = (cs = [ts])"
| "node_ok cat ts (NestedLoopJoin predicate join_type) cs = (case cs of
       [l, r] \<Rightarrow> ts = l @ r \<and> join_columns_within (length l) (length r) predicate \<and> boolean_predicate predicate \<and> supported_join join_type
     | _ \<Rightarrow> False)"
| "node_ok cat ts (NestedIndexJoin key table_oid index_oid index_name table_name inner_schema join_type) cs = (case cs of
       [l] \<Rightarrow> ts = l @ column_types inner_schema \<and> columns_within (length l) key \<and> supported_join join_type \<and>
         scanned_table cat table_oid table_name (column_types inner_schema) \<and>
         joined_index cat index_oid index_name table_name (length (column_types inner_schema))
     | _ \<Rightarrow> False)"
| "node_ok cat ts (HashJoin left_key right_key join_type) cs = (case cs of
       [l, r] \<Rightarrow> ts = l @ r \<and> columns_within (length l) left_key \<and> columns_within (length r) right_key \<and> supported_join join_type
     | _ \<Rightarrow> False)"
| "node_ok cat ts (Filter predicate) cs = (cs = [ts] \<and> columns_within (length ts) predicate \<and> boolean_predicate predicate)"
| "node_ok cat ts (ValuesNode exprs) cs = (cs = [] \<and> list_all (\<lambda>row. length row = length ts \<and> list_all (columns_within 0) row) exprs)"
| "node_ok cat ts (Projection exprs) cs = (case cs of
       [c] \<Rightarrow> length exprs = length ts \<and> list_all (columns_within (length c)) exprs
     | _ \<Rightarrow> False)"
| "node_ok cat ts (Sort order_bys) cs = (cs = [ts] \<and> list_all (\<lambda>(order_type, e). columns_within (length ts) e) order_bys)"
| "node_ok cat ts (TopN order_bys n) cs = (cs = [ts] \<and> list_all (\<lambda>(order_type, e). columns_within (length ts) e) order_bys)"
| "node_ok cat ts (MockScan table) cs = (cs = [])"

fun plan_ok :: "catalog \<Rightarrow> 'd plan \<Rightarrow> bool" where
  "plan_ok cat (Plan s nd children) \<longleftrightarrow>
     node_ok cat (column_types s) nd (map plan_types children) \<and> (\<forall>child \<in> set children. plan_ok cat child)"

text \<open>The indexes that the catalog lists for a table.\<close>

definition index_lists_ok :: "catalog \<Rightarrow> bool" where
  "index_lists_ok cat \<longleftrightarrow> (\<forall>name. \<exists>is. GetTableIndexes name cat = Inr is \<and>
     (\<forall>ii \<in> set is. ii_table_name ii = name \<and> GetIndexByOid (ii_oid ii) cat = Some ii))"

lemma catalog_index_lists:
  assumes "catalog_run D n cat" and "n < 4294967296"
  shows "index_lists_ok cat"
  unfolding index_lists_ok_def
proof
  fix name
  obtain k m where "cat_ok k m cat" using catalog_run_ok [OF assms] by blast
  note D = cat_okD [OF this]
  have keys: "map_of (cat_table_names cat) name = None \<longleftrightarrow> map_of (cat_index_names cat) name = None"
    using D(5) by (simp only: map_of_eq_None_iff set_map [symmetric])
  show "\<exists>is. GetTableIndexes name cat = Inr is \<and> (\<forall>ii \<in> set is. ii_table_name ii = name \<and> GetIndexByOid (ii_oid ii) cat = Some ii)"
  proof (cases "map_of (cat_index_names cat) name")
    case None
    then show ?thesis using keys by (simp add: GetTableIndexes_def)
  next
    case (Some idx)
    note D9 = D(9) [OF Some]
    obtain infos where infos: "find_indexes (cat_indexes cat) idx = Inr infos"
      "\<And>ii. ii \<in> set infos \<longleftrightarrow> (\<exists>i oid. map_of idx i = Some oid \<and> map_of (cat_indexes cat) oid = Some ii)"
      using find_indexes_total [OF D(8) [OF Some], of "cat_indexes cat"] D9 by blast
    have "ii_table_name ii = name \<and> GetIndexByOid (ii_oid ii) cat = Some ii" if "ii \<in> set infos" for ii
      using that infos(2) D9 by (fastforce simp: GetIndexByOid_def)
    then show ?thesis using Some keys infos(1) by (auto simp: GetTableIndexes_def)
  qed
qed

section \<open>Rewrite rules\<close>

text \<open>What a rewrite of one node promises, and what follows for the pass over a whole plan.\<close>

locale plan_rewrite =
  fixes rule :: "catalog \<Rightarrow> 'd plan \<Rightarrow> exc + 'd plan"
    and view :: "schema \<Rightarrow> 'v"
  assumes view_types: "view s = view s' \<Longrightarrow> column_types s = column_types s'"
    and rewrite_law: "index_lists_ok cat \<Longrightarrow> plan_ok cat p \<Longrightarrow>
      \<exists>p'. rule cat p = Inr p' \<and> plan_ok cat p' \<and> view (output_schema p') = view (output_schema p)"
begin

lemma pass_children:
  assumes "\<forall>p \<in> set ps. \<exists>p'. bottom_up (rule cat) p = Inr p' \<and> plan_ok cat p' \<and> view (output_schema p') = view (output_schema p)"
  shows "\<exists>ps'. bottom_up_all (rule cat) ps = Inr ps' \<and> (\<forall>p \<in> set ps'. plan_ok cat p) \<and> map plan_types ps' = map plan_types ps"
  using assms
proof (induction ps)
  case (Cons p ps)
  then obtain p' ps' where "bottom_up (rule cat) p = Inr p'" "plan_ok cat p'" "plan_types p' = plan_types p"
    "bottom_up_all (rule cat) ps = Inr ps'" "\<forall>p \<in> set ps'. plan_ok cat p" "map plan_types ps' = map plan_types ps"
    using view_types by (metis list.set_intros)
  then show ?case by simp
qed simp

lemma pass_keeps:
  assumes "index_lists_ok cat"
  shows "plan_ok cat p \<Longrightarrow> \<exists>p'. bottom_up (rule cat) p = Inr p' \<and> plan_ok cat p' \<and> view (output_schema p') = view (output_schema p)"
proof (induction p)
  case (Plan s nd children)
  obtain cs where cs: "bottom_up_all (rule cat) children = Inr cs" "\<forall>p \<in> set cs. plan_ok cat p" "map plan_types cs = map plan_types children"
    using pass_children [of children cat] Plan by auto
  then have "plan_ok cat (Plan s nd cs)" using Plan.prems by simp
  from rewrite_law [OF assms this] show ?case using cs(1) by (auto simp: CloneWithChildren_def)
qed

end

lemma one_child: "(case map f cs of [c] \<Rightarrow> P c | _ \<Rightarrow> False) \<longleftrightarrow> (\<exists>x. cs = [x] \<and> P (f x))"
  by (auto split: list.splits)

lemma two_children: "(case map f cs of [l, r] \<Rightarrow> P l r | _ \<Rightarrow> False) \<longleftrightarrow> (\<exists>x y. cs = [x, y] \<and> P (f x) (f y))"
  by (auto split: list.splits)

lemmas child_lists = one_child two_children map_eq_Cons_conv

text \<open>Removing a projection on all columns.\<close>

lemma merge_projection_law:
  assumes "plan_ok cat p"
  shows "\<exists>p'. merge_projection p = Inr p' \<and> plan_ok cat p' \<and> output_schema p' = output_schema p"
proof (cases "\<exists>exprs. plan_node p = Projection exprs")
  case True
  then obtain s exprs child where p: "p = Plan s (Projection exprs) [child]" "plan_ok cat child"
    using assms by (cases p) (auto simp: child_lists)
  obtain cs cn cc where c: "child = Plan cs cn cc" by (cases child)
  show ?thesis using assms p by (auto simp: merge_projection_def c column_types_def)
next
  case False
  then show ?thesis using assms by (auto simp: merge_projection_def split: node.splits)
qed

text \<open>Moving the predicate of a filter into a join.\<close>

lemma IsPredicateTrue_total: "boolean_predicate e \<Longrightarrow> \<exists>always. IsPredicateTrue D e = Inr always"
  by (auto simp: boolean_predicate_def IsPredicateTrue_def CastAs_def BooleanType_CastAs_def BooleanType_Copy_def GetAs_bool_def Value_int8_def
      split: expr.splits Value.splits)

lemma rewrite_within: "RewriteExpressionForJoin e m n = Inr e' \<Longrightarrow> columns_within (m + n) e \<Longrightarrow> join_columns_within m n e'"
  by (induction e arbitrary: e') (auto simp: ebind_def split: sum.splits if_splits)

lemma rewrite_boolean: "RewriteExpressionForJoin e m n = Inr e' \<Longrightarrow> boolean_predicate e \<Longrightarrow> boolean_predicate e'"
  by (cases e) (auto simp: boolean_predicate_def ebind_def split: sum.splits if_splits)

lemma merge_filter_nlj_law:
  assumes "plan_ok cat p"
  shows "\<exists>p'. merge_filter_nlj D p = Inr p' \<and> plan_ok cat p' \<and> output_schema p' = output_schema p"
proof (cases "\<exists>predicate s' join_predicate join_type cs. plan_node p = Filter predicate \<and> plan_children p = [Plan s' (NestedLoopJoin join_predicate join_type) cs]")
  case True
  then obtain s predicate s' join_predicate join_type left right where
    p: "p = Plan s (Filter predicate) [Plan s' (NestedLoopJoin join_predicate join_type) [left, right]]"
    and ts: "column_types s = plan_types left @ plan_types right" "column_types s' = column_types s"
    using assms by (cases p) (auto simp: child_lists)
  obtain always where always: "IsPredicateTrue D join_predicate = Inr always" using IsPredicateTrue_total assms p by (auto simp: child_lists)
  let ?m = "length (columns (output_schema left))" and ?n = "length (columns (output_schema right))"
  have n: "length (plan_types left) = ?m" "length (plan_types right) = ?n" by (simp_all add: column_types_def)
  have e: "columns_within (?m + ?n) predicate" using assms p ts n by simp
  obtain e' where e': "RewriteExpressionForJoin predicate ?m ?n = Inr e'" using rewrite_total [OF e] by blast
  show ?thesis
    using assms p ts n always e' rewrite_within [OF e' e] rewrite_boolean [OF e'] by (cases always) (auto simp: merge_filter_nlj_def)
next
  case False
  then show ?thesis using assms by (cases p) (auto simp: merge_filter_nlj_def child_lists split: node.splits, metis plan.exhaust_sel)
qed

text \<open>Moving the predicate of a filter into a scan, and dropping a filter that is always true.\<close>

lemma merge_filter_scan_law:
  assumes "plan_ok cat p"
  shows "\<exists>p'. merge_filter_scan p = Inr p' \<and> plan_ok cat p' \<and> output_schema p' = output_schema p"
proof (cases "\<exists>predicate s' table_oid table_name cs. plan_node p = Filter predicate \<and> plan_children p = [Plan s' (SeqScan table_oid table_name None) cs]")
  case True
  then show ?thesis using assms by (cases p) (auto simp: merge_filter_scan_def)
next
  case False
  then show ?thesis using assms
    by (cases p) (auto simp: merge_filter_scan_def child_lists split: node.splits option.splits, metis plan.exhaust_sel)
qed

lemma eliminate_true_filter_law:
  assumes "plan_ok cat p"
  shows "\<exists>p'. eliminate_true_filter D p = Inr p' \<and> plan_ok cat p' \<and> plan_types p' = plan_types p"
proof (cases "\<exists>predicate. plan_node p = Filter predicate")
  case True
  then obtain s predicate child where p: "p = Plan s (Filter predicate) [child]" using assms by (cases p) (auto simp: child_lists)
  moreover obtain always where "IsPredicateTrue D predicate = Inr always" using IsPredicateTrue_total assms p by auto
  ultimately show ?thesis using assms by (auto simp: eliminate_true_filter_def)
next
  case False
  then show ?thesis using assms by (auto simp: eliminate_true_filter_def split: node.splits)
qed

text \<open>Joins on the equality of two columns.\<close>

lemma equi_join_cases:
  assumes "plan_ok cat p"
  obtains (left_right) s lc lr rc rr join_type left right where
      "p = Plan s (NestedLoopJoin (Comparison Equal (Column_Value 0 lc lr) (Column_Value 1 rc rr)) join_type) [left, right]"
      "lc < length (plan_types left)" "rc < length (plan_types right)" "column_types s = plan_types left @ plan_types right"
      "supported_join join_type" "plan_ok cat left" "plan_ok cat right"
  | (right_left) s lc lr rc rr join_type left right where
      "p = Plan s (NestedLoopJoin (Comparison Equal (Column_Value 1 rc rr) (Column_Value 0 lc lr)) join_type) [left, right]"
      "lc < length (plan_types left)" "rc < length (plan_types right)" "column_types s = plan_types left @ plan_types right"
      "supported_join join_type" "plan_ok cat left" "plan_ok cat right"
  | (other) "nlj_as_hash_join p = Inr p" "\<And>cat. nlj_as_index_join cat p = Inr p"
proof (cases "\<exists>lt lc lr rt rc rr join_type. plan_node p = NestedLoopJoin (Comparison Equal (Column_Value lt lc lr) (Column_Value rt rc rr)) join_type \<and>
    (lt = 0 \<and> rt = 1 \<or> lt = 1 \<and> rt = 0)")
  case True
  then show ?thesis using assms left_right right_left by (cases p) (auto simp: child_lists)
next
  case False
  have "length (plan_children p) = 2" if "plan_node p = NestedLoopJoin predicate join_type" for predicate join_type
    using that assms by (cases p) (auto simp: child_lists)
  with False show ?thesis
    by (intro other) (auto simp: nlj_as_hash_join_def nlj_as_index_join_def split: node.splits expr.splits comparison_type.splits)
qed

lemma nlj_as_hash_join_law:
  assumes "plan_ok cat p"
  shows "\<exists>p'. nlj_as_hash_join p = Inr p' \<and> plan_ok cat p' \<and> output_schema p' = output_schema p"
  using assms by (cases rule: equi_join_cases) (use assms in \<open>auto simp: nlj_as_hash_join_def\<close>)

lemma MatchIndex_law:
  assumes "index_lists_ok cat"
  shows "\<exists>r. MatchIndex cat table_name column = Inr r \<and>
    (case r of None \<Rightarrow> True | Some (index_oid, index_name) \<Rightarrow> \<forall>n > column. joined_index cat index_oid index_name table_name n)"
proof -
  obtain infos where infos: "GetTableIndexes table_name cat = Inr infos"
    "\<And>ii. ii \<in> set infos \<Longrightarrow> ii_table_name ii = table_name \<and> GetIndexByOid (ii_oid ii) cat = Some ii"
    using assms unfolding index_lists_ok_def by blast
  show ?thesis
  proof (cases "find (\<lambda>info. [column] = im_key_attrs (ii_metadata info)) infos")
    case None
    then show ?thesis using infos(1) by (simp add: MatchIndex_def)
  next
    case (Some info)
    then have "info \<in> set infos" "im_key_attrs (ii_metadata info) = [column]" by (auto simp: find_Some_iff in_set_conv_nth)
    then show ?thesis using infos Some by (simp add: MatchIndex_def joined_index_def)
  qed
qed

lemma index_join_law:
  assumes "index_lists_ok cat" and p: "p = Plan s (NestedLoopJoin predicate join_type) [left, right]" "plan_ok cat p"
    and "columns_within (length (plan_types left)) key" and column: "column < length (plan_types right)"
  shows "\<exists>p'. index_join cat p join_type key column = Inr p' \<and> plan_ok cat p' \<and> output_schema p' = output_schema p"
proof (cases "\<exists>s' table_oid table_name predicate cs. right = Plan s' (SeqScan table_oid table_name predicate) cs")
  case True
  then obtain s' table_oid table_name filter_predicate cs where r: "right = Plan s' (SeqScan table_oid table_name filter_predicate) cs" by blast
  obtain m where m: "MatchIndex cat table_name column = Inr m"
    "case m of None \<Rightarrow> True | Some (index_oid, index_name) \<Rightarrow> \<forall>n > column. joined_index cat index_oid index_name table_name n"
    using MatchIndex_law [OF assms(1)] by blast
  show ?thesis using assms m r by (auto simp: index_join_def split: option.splits)
next
  case False
  then show ?thesis using p by (cases right) (auto simp: index_join_def split: node.splits)
qed

lemma nlj_as_index_join_law:
  assumes "index_lists_ok cat" and "plan_ok cat p"
  shows "\<exists>p'. nlj_as_index_join cat p = Inr p' \<and> plan_ok cat p' \<and> output_schema p' = output_schema p"
  using assms(2)
proof (cases rule: equi_join_cases)
  case (left_right s lc lr rc rr join_type left right)
  then show ?thesis using index_join_law [OF assms(1) left_right(1) assms(2), of "Column_Value 0 lc lr" rc] by (simp add: nlj_as_index_join_def)
next
  case (right_left s lc lr rc rr join_type left right)
  then show ?thesis using index_join_law [OF assms(1) right_left(1) assms(2), of "Column_Value 0 lc lr" rc] by (simp add: nlj_as_index_join_def)
next
  case other
  then show ?thesis using assms(2) by simp
qed

text \<open>A sorted scan becomes the scan of an index on the sort column.\<close>

lemma match_order_law:
  assumes "column < length (columns schema)"
  shows "\<exists>r. match_order schema column infos = Inr r \<and> (case r of None \<Rightarrow> True | Some index_oid \<Rightarrow> \<exists>ii \<in> set infos. index_oid = ii_oid ii)"
proof (induction infos)
  case (Cons info infos)
  have "GetColumn schema column = Inr (columns schema ! column)" using assms by (simp add: GetColumn_def array_at_def)
  then show ?case using Cons.IH by (auto split: list.splits option.splits)
qed simp

lemma order_by_index_scan_law:
  assumes "index_lists_ok cat" and ok: "plan_ok cat p"
  shows "\<exists>p'. order_by_index_scan cat p = Inr p' \<and> plan_ok cat p' \<and> output_schema p' = output_schema p"
proof (cases "\<exists>s order_type column ret_type s' table_oid table_name filter_predicate cs.
    p = Plan s (Sort [(order_type, Column_Value 0 column ret_type)]) [Plan s' (SeqScan table_oid table_name filter_predicate) cs]")
  case True
  then obtain s order_type column ret_type s' table_oid table_name filter_predicate cs where
    p: "p = Plan s (Sort [(order_type, Column_Value 0 column ret_type)]) [Plan s' (SeqScan table_oid table_name filter_predicate) cs]" by blast
  with ok obtain ti where ti: "GetTableByOid table_oid cat = Some ti" "column_types (ti_schema ti) = column_types s" "column < length (column_types s)"
    by (auto simp: scanned_table_def split: option.splits)
  obtain infos where infos: "GetTableIndexes (ti_name ti) cat = Inr infos"
    "\<And>ii. ii \<in> set infos \<Longrightarrow> ii_table_name ii = ti_name ti \<and> GetIndexByOid (ii_oid ii) cat = Some ii"
    using assms(1) unfolding index_lists_ok_def by blast
  have "column < length (columns (ti_schema ti))" using ti(2,3) by (metis column_types_def length_map)
  then obtain r where r: "match_order (ti_schema ti) column infos = Inr r"
    "case r of None \<Rightarrow> True | Some index_oid \<Rightarrow> \<exists>ii \<in> set infos. index_oid = ii_oid ii"
    using match_order_law by blast
  have "(table_oid, ti) \<in> set (cat_tables cat)" using ti(1) by (auto simp: GetTableByOid_def dest: map_of_SomeD)
  then have "scanned_index cat (ii_oid ii) (column_types s)" if "ii \<in> set infos" for ii
    using that infos(2) ti(2) by (auto simp: scanned_index_def list_ex_iff)
  then show ?thesis using ok p ti(1) infos(1) r by (auto simp: order_by_index_scan_def split: option.splits)
next
  case False
  have one: "\<exists>child. plan_children p = [child]" if "plan_node p = Sort order_bys" for order_bys
    using that ok by (cases p) (auto simp: child_lists)
  have zero: "tuple_idx = 0" if "plan_node p = Sort [(order_type, Column_Value tuple_idx column ret_type)]" for order_type tuple_idx column ret_type
    using that ok by (cases p) auto
  have "order_by_index_scan cat p = Inr p"
  proof (cases "\<exists>order_type column ret_type. plan_node p = Sort [(order_type, Column_Value 0 column ret_type)]")
    case True
    then obtain child where c: "plan_children p = [child]" using one by blast
    then have "plan_node child \<noteq> SeqScan table_oid table_name filter_predicate" for table_oid table_name filter_predicate
      using False True by (metis plan.collapse)
    then show ?thesis using True c by (auto simp: order_by_index_scan_def split: node.splits)
  next
    case F: False
    then show ?thesis using zero by (auto simp: order_by_index_scan_def split: node.splits list.splits expr.splits)
  qed
  then show ?thesis using ok by simp
qed

interpretation mp: plan_rewrite "\<lambda>_. merge_projection" "\<lambda>s. s"
  by unfold_locales (auto intro: merge_projection_law)

interpretation mfn: plan_rewrite "\<lambda>_. merge_filter_nlj D" "\<lambda>s. s"
  by unfold_locales (auto intro: merge_filter_nlj_law)

interpretation mfs: plan_rewrite "\<lambda>_. merge_filter_scan" "\<lambda>s. s"
  by unfold_locales (auto intro: merge_filter_scan_law)

interpretation etf: plan_rewrite "\<lambda>_. eliminate_true_filter D" column_types
  by unfold_locales (auto intro: eliminate_true_filter_law)

interpretation hj: plan_rewrite "\<lambda>_. nlj_as_hash_join" "\<lambda>s. s"
  by unfold_locales (auto intro: nlj_as_hash_join_law)

interpretation ij: plan_rewrite nlj_as_index_join "\<lambda>s. s"
  by unfold_locales (auto intro: nlj_as_index_join_law)

interpretation oi: plan_rewrite order_by_index_scan "\<lambda>s. s"
  by unfold_locales (auto intro: order_by_index_scan_law)

section \<open>The optimizer\<close>

definition optimizer_rules :: "'d double_ops \<Rightarrow> catalog \<Rightarrow> ('d plan \<Rightarrow> exc + 'd plan) list" where
  "optimizer_rules D cat = [OptimizeMergeProjection, OptimizeMergeFilterNLJ D, OptimizeMergeFilterScan, OptimizeEliminateTrueFilter D,
     OptimizeNLJAsHashJoin, OptimizeNLJAsIndexJoin cat, OptimizeOrderByAsIndexScan cat, OptimizeSortLimitAsTopN]"

lemmas passes = OptimizeMergeProjection_def OptimizeMergeFilterNLJ_def OptimizeMergeFilterScan_def OptimizeEliminateTrueFilter_def
  OptimizeNLJAsHashJoin_def OptimizeNLJAsIndexJoin_def OptimizeOrderByAsIndexScan_def OptimizeSortLimitAsTopN_def

lemma rules_keep:
  assumes "index_lists_ok cat" and "plan_ok cat p" and "rule \<in> set (optimizer_rules D cat)"
  shows "\<exists>p'. rule p = Inr p' \<and> plan_ok cat p' \<and> plan_types p' = plan_types p"
  using assms(3) mp.pass_keeps [OF assms(1,2)] mfn.pass_keeps [OF assms(1,2), of D] mfs.pass_keeps [OF assms(1,2)]
    etf.pass_keeps [OF assms(1,2), of D] hj.pass_keeps [OF assms(1,2)] ij.pass_keeps [OF assms(1,2)] oi.pass_keeps [OF assms(1,2)] assms(2)
  by (auto simp: optimizer_rules_def passes)

lemma Optimize_keeps:
  assumes cat: "index_lists_ok cat" and "plan_ok cat p"
  shows "\<exists>p'. Optimize D cat force_starter_rule p = Inr p' \<and> plan_ok cat p' \<and> output_schema p' = output_schema p"
proof -
  obtain p1 where p1: "OptimizeMergeProjection p = Inr p1" "plan_ok cat p1" "output_schema p1 = output_schema p"
    using mp.pass_keeps [OF assms] by (auto simp: passes)
  obtain p2 where p2: "OptimizeMergeFilterNLJ D p1 = Inr p2" "plan_ok cat p2" "output_schema p2 = output_schema p1"
    using mfn.pass_keeps [OF cat p1(2), of D] by (auto simp: passes)
  obtain p3 where p3: "OptimizeNLJAsIndexJoin cat p2 = Inr p3" "plan_ok cat p3" "output_schema p3 = output_schema p2"
    using ij.pass_keeps [OF cat p2(2)] by (auto simp: passes)
  obtain p4 where p4: "OptimizeOrderByAsIndexScan cat p3 = Inr p4" "plan_ok cat p4" "output_schema p4 = output_schema p3"
    using oi.pass_keeps [OF cat p3(2)] by (auto simp: passes)
  show ?thesis using p1 p2 p3 p4 by (simp add: Optimize_def OptimizeCustom_def OptimizeSortLimitAsTopN_def)
qed

lemma plan_ok_executor: "plan_ok cat p \<Longrightarrow> \<exists>ex. CreateExecutor shuffle p = Inr ex"
proof (induction p)
  case (Plan s nd children)
  then have "\<forall>child \<in> set children. \<exists>ex. CreateExecutor shuffle child = Inr ex" by auto
  with Plan.prems show ?case
    by (cases nd) (auto simp: child_lists length_Suc_conv only_child_def both_children_def new_join_def supported_join_def assert_that_def)
qed

text \<open>C38. The optimizer keeps plans well-formed, whatever nodes they have.  Against a catalog made by
  fewer than \<open>2\<^sup>3\<^sup>2\<close> creations of tables and indexes, every one of the rewrite rules returns without an
  exception, and so does the optimizer that runs them: the new plan again has the children each
  executor asks for, reads only columns that exist after columns were renumbered for a join, names
  only tables and indexes of the catalog, an index always being one of the table that was scanned,
  and its executors can be built.  The columns of the result keep their types, and the optimizer
  returns exactly the output schema it was given.\<close>

theorem optimizer_keeps_plans_well_formed:
  assumes "catalog_run D n cat" and "n < 4294967296" and "plan_ok cat p"
  shows "(\<exists>p' ex. Optimize D cat force_starter_rule p = Inr p' \<and> output_schema p' = output_schema p \<and> plan_ok cat p' \<and>
      CreateExecutor shuffle p' = Inr ex) \<and>
    (\<forall>rule \<in> set (optimizer_rules D cat). \<exists>p'. rule p = Inr p' \<and> plan_types p' = plan_types p \<and> plan_ok cat p')"
proof -
  note cat = catalog_index_lists [OF assms(1,2)]
  obtain p' where p': "Optimize D cat force_starter_rule p = Inr p'" "plan_ok cat p'" "output_schema p' = output_schema p"
    using Optimize_keeps [OF cat assms(3)] by blast
  then show ?thesis using plan_ok_executor [OF p'(2)] rules_keep [OF cat assms(3)] by metis
qed

lemma one_int_column: "columns (new_schema (int_columns (Suc 0))) = int_columns (Suc 0)" "length (int_columns (Suc 0)) = Suc 0"
  by (simp_all add: new_schema_def int_columns_def Let_def)

text \<open>A table with one column and an index on it.\<close>

lemma indexed_table:
  "\<exists>cat ti ii. catalog_run int_double 2 cat \<and> GetTableByOid 0 cat = Some ti \<and> ti_name ti = ''t'' \<and> ti_schema ti = new_schema (int_columns 1) \<and>
     GetTableIndexes ''t'' cat = Inr [ii] \<and> ii_oid ii = 0 \<and> ii_key_schema ii = new_schema (int_columns 1)"
proof -
  let ?s = "new_schema (int_columns 1)" and ?t = "new_transaction 0 REPEATABLE_READ" and ?h = "\<lparr>first_page_id = 0\<rparr>"
  obtain s a where new: "new_TableHeap False ?t (new_bpm 2 (new_disk_manager [] []) 2) = Inr (?h, ?t, s)"
      "pool_ok 2 s a" "spare 2 2 a" "heap_ok ?h a [empty_apage 0 INVALID_PAGE_ID]"
    using fresh_table [of 2 2 False ?t] by auto
  define ti where "ti = \<lparr>ti_schema = ?s, ti_name = ''t'', ti_table = Some ?h, ti_oid = 0\<rparr>"
  define cat where "cat = new_catalog\<lparr>cat_next_table_oid := 1, cat_tables := [(0, ti)], cat_table_names := [(''t'', 0)], cat_index_names := [(''t'', [])]\<rparr>"
  have "CreateTable False ?t ''t'' ?s True new_catalog (new_bpm 2 (new_disk_manager [] []) 2) = Inr (Some ti, cat, ?t, s)"
    using new(1) by (simp add: CreateTable_def new_catalog_def emplace_def Let_def cat_def ti_def)
  then have run: "catalog_run int_double 1 cat" using catalog_run.table [OF catalog_run.start] by force
  have none: "rows [empty_apage 0 INVALID_PAGE_ID] = []" by (simp add: rows_def page_rows_def empty_apage_def)
  obtain it s1 where it: "TableHeap_Begin False ?h ?t s = Some (Inr (it, ?t, s1))" "it_heap it = ?h" "t_rid (it_tuple it) = RID_default"
    using Begin_ok [OF new(2-4), of False ?t] unfolding none by (auto simp: starts_at_def Cons_eq_append_conv empty_apage_def)
  have stop: "iterator_eq it (TableHeap_End (it_heap it))"
    using it(2,3) by (simp add: iterator_eq_def TableHeap_End_def Tuple_rid_def RID_default_def)
  obtain meta where meta: "new_IndexMetadata ''i'' ''t'' ?s [0] = Inr meta"
    by (simp add: new_IndexMetadata_def CopySchema_def GetColumn_def one_int_column)
  have "populate_index int_double 8 False ?t ''t'' ?s ?s meta cat s = Some (Inr (new_BPlusTreeIndex 8 (im_name meta), ?t, s1))"
    using it(1) stop by (simp add: populate_index_def GetTable_def cat_def ti_def populate.simps [of _ _ _ _ _ _ it])
  then have "CreateIndex int_double 8 False ?t ''i'' ''t'' ?s ?s [0] 8 cat s = Some (Inr (
      let (info, cat) = register_index ''i'' ''t'' ?s 8 meta [] (new_BPlusTreeIndex 8 (im_name meta)) cat in (Some info, cat, ?t, s1)))"
    using meta by (simp add: CreateIndex_def cat_def split: prod.splits)
  from catalog_run.index [OF run this [unfolded register_index_def Let_def prod.case]]
  show ?thesis by (intro exI conjI) (auto simp: numeral_2_eq_2 GetTableByOid_def GetTableIndexes_def cat_def ti_def emplace_def new_catalog_def)
qed

definition sorted_scan :: "int plan" where
  "sorted_scan = Plan (new_schema (int_columns 1)) (Sort [(Asc_Order, Column_Value 0 0 INTEGER)])
     [Plan (new_schema (int_columns 1)) (SeqScan 0 ''t'' None) []]"

theorem optimizer_keeps_plans_well_formed_witness:
  "\<exists>cat p' ex. catalog_run int_double 2 cat \<and> plan_ok cat sorted_scan \<and> Optimize int_double cat False sorted_scan = Inr p' \<and>
     p' = Plan (new_schema (int_columns 1)) (IndexScan 0) [] \<and> plan_ok cat p' \<and> CreateExecutor (\<lambda>xs. xs) p' = Inr ex"
proof -
  obtain cat ti ii where cat: "catalog_run int_double 2 cat" "GetTableByOid 0 cat = Some ti" "ti_name ti = ''t''" "ti_schema ti = new_schema (int_columns 1)"
    "GetTableIndexes ''t'' cat = Inr [ii]" "ii_oid ii = 0" "ii_key_schema ii = new_schema (int_columns 1)" using indexed_table by blast
  have ok: "plan_ok cat sorted_scan"
    using cat(2-4) by (simp add: sorted_scan_def scanned_table_def column_types_def one_int_column)
  obtain c where "int_columns 1 = [c]" by (simp add: int_columns_def)
  then have "match_order (new_schema (int_columns 1)) 0 [ii] = Inr (Some 0)" using cat(6,7) one_int_column by (simp add: GetColumn_def)
  then have "Optimize int_double cat False sorted_scan = Inr (Plan (new_schema (int_columns 1)) (IndexScan 0) [])"
    using cat(2-5) by (simp add: Optimize_def OptimizeCustom_def passes sorted_scan_def CloneWithChildren_def merge_projection_def merge_filter_nlj_def
        nlj_as_index_join_def order_by_index_scan_def del: match_order.simps)
  then show ?thesis using optimizer_keeps_plans_well_formed [OF cat(1) _ ok, of False "\<lambda>xs. xs"] cat(1) ok by auto
qed

end
