(* ===== verification/Spec2Isabelle.thy ===== *)
theory Spec2Isabelle
  imports Extendible_Hash Lru_K_Policy Buffer_Pool_Spec Value_Factory Primer_Trie Table_Page_Spec Transaction_Spec BTree_Spec Query_Spec
    Optimizer_Spec
begin

text \<open>
  A verification of BusTub, the teaching database of CMU 15-445, as this repository has it.  Paths
  are relative to \<^verbatim>\<open>src/src\<close>.

  \<^bold>\<open>The program.\<close>  The disk manager keeps pages of 4096 bytes in a file.  The buffer pool manager holds
  some of them in frames: an extendible hash table maps page ids to frames, and an LRU-K replacer
  chooses the frame to give up.  On the pool stand the access methods: table heaps (chains of slotted pages
  of tuples) and the B+ tree index with its header page.  Transactions record their writes in write sets,
  from which the transaction manager commits or aborts.  Tuples are laid out by schemas from values
  of the SQL types.  The catalog names tables and indexes.  A query is a plan, which the
  optimizer rewrites and the execution engine runs with expressions, executors and mock tables.  The trie of
  the warm-up project stands alone.

  \<^bold>\<open>Conventions.\<close>  State is a record passed along; an operation that may throw, fail an assertion or leave
  an object returns a sum type whose left side is the error (\<open>exc\<close>, \<open>bpm_error\<close>, \<open>db_error\<close>,
  \<open>lruk_error\<close>).  A loop that need not end is a \<open>partial_function (option)\<close>, where \<open>None\<close> means that it does
  not return; the theorems prove \<open>Some\<close>.  No fuel is used.  Values, page ids, record ids and the fields of pages are machine
  words that keep their width (\<open>32 word\<close> and so on); where the width is a template argument, the wrap-around is
  written out (\<open>wrap\<close>, \<open>u32\<close>).  Signed overflow, which the language leaves undefined, is modelled as wrapping in the
  arithmetic of expressions.  Counters of type \<^verbatim>\<open>size_t\<close> and the \<^verbatim>\<open>int\<close> pin counts are unbounded numbers, and frame ids
  are integers; the casts from \<^verbatim>\<open>size_t\<close> to \<^verbatim>\<open>frame_id_t\<close> are written out (\<open>frame_cast\<close>).  Memory is a
  list of bytes, and an access outside it is an error.  The operations of \<^verbatim>\<open>double\<close> are a parameter, the record
  \<open>'d double_ops\<close>, which the examples instantiate by \<open>int_double\<close>; \<^verbatim>\<open>std::shuffle\<close> is a parameter that permutes, one
  for each execution; hash functions are parameters of the hash table.  Calls that hold a latch from their
  first to their last statement are atomic steps; \<^verbatim>\<open>FlushAllPgsImp\<close>, which takes the latch page by page, is the sequence
  of its flushes.

  \<^bold>\<open>The theories.\<close>
  \<^item> \<open>Prelude\<close>, \<open>Cpp_Types\<close>, \<open>Memory\<close>: shared types, association lists, errors, integers, strings, raw memory.
  \<^item> \<open>Interfaces\<close>: what the buffer pool relies on in its page table, replacer and disk, as locales; the
    providers interpret them.  \<open>Page_Access\<close> has the interface of the pool to the access methods, and
    \<open>BTree_Leaf\<close> the interface of a key comparator.
  \<^item> \<open>Extendible_Hash\<close> (\<^verbatim>\<open>container/hash/extendible_hash_table.cpp\<close>): insertion, which loops while the bucket is
    full, against a finite map; the shape of the directory, whose depth is bounded by 30 because masks are
    computed in \<^verbatim>\<open>int\<close>.  For page ids the insertion always succeeds.
  \<^item> \<open>Lru_K\<close>, \<open>Lru_K_Policy\<close> (\<^verbatim>\<open>buffer/lru_k_replacer.cpp\<close>): the two linked lists on a store of nodes, and the
    policy they implement; they interpret the locales \<open>evictor\<close> and \<open>replacer\<close>.
  \<^item> \<open>Disk_Manager\<close> (\<^verbatim>\<open>storage/disk/*.cpp\<close>): page and log files as byte streams with a fail flag.
  \<^item> \<open>Buffer_Pool\<close>, \<open>Buffer_Pool_Cache\<close>, \<open>Buffer_Pool_Spec\<close> (\<^verbatim>\<open>buffer/buffer_pool_manager_instance.cpp\<close>): the pool
    refines a transparent cache of pages, over all sequences of calls that follow the pin protocol.
  \<^item> \<open>Value_Types\<close>, \<open>Value_Compare\<close>, \<open>Value_Arith\<close>, \<open>Value_Cast\<close>, \<open>Value_Factory\<close> (\<^verbatim>\<open>type/*.cpp\<close>,
    \<^verbatim>\<open>include/type/value_factory.h\<close>): comparison, arithmetic, casts and serialization of values.
  \<^item> \<open>Tuple_Layout\<close> (\<^verbatim>\<open>storage/table/tuple.cpp\<close>, \<^verbatim>\<open>catalog/schema.cpp\<close>): a tuple reads back as its values.
  \<^item> \<open>Table_Page\<close>, \<open>Table_Page_View\<close>, \<open>Table_Page_Spec\<close> (\<^verbatim>\<open>storage/page/table_page.cpp\<close>): the bytes of a page refine
    a list of slots.
  \<^item> \<open>Page_Access\<close>, \<open>Table_Heap\<close>, \<open>Table_Heap_Spec\<close>, \<open>Table_Heap_Scan\<close>, \<open>Table_Values\<close>
    (\<^verbatim>\<open>storage/table/table_heap.cpp\<close>, \<^verbatim>\<open>table_iterator.cpp\<close>): a table through the pool refines its rows; the
    iterator visits each row once.
  \<^item> \<open>Transaction\<close>, \<open>Transaction_Manager\<close>, \<open>Transaction_Spec\<close> (\<^verbatim>\<open>include/concurrency/transaction.h\<close>,
    \<^verbatim>\<open>concurrency/transaction_manager.cpp\<close>): abort restores a table, commit applies the deletes.
  \<^item> \<open>Header_Page\<close>, \<open>BTree_Page\<close>, \<open>BTree_Leaf\<close>, \<open>BTree\<close>, \<open>BTree_Spec\<close> (\<^verbatim>\<open>storage/page/header_page.cpp\<close>,
    \<^verbatim>\<open>storage/page/b_plus_tree_*.cpp\<close>, \<^verbatim>\<open>storage/index/b_plus_tree*.cpp\<close>): header records, sorted leaf pages, and
    what the tree does: because its search takes every key that differs, it keeps one entry.
  \<^item> \<open>Catalog\<close> (\<^verbatim>\<open>include/catalog/catalog.h\<close>): the maps of tables and indexes agree.
  \<^item> \<open>Expression\<close> (\<^verbatim>\<open>include/execution/expressions\<close>): evaluation is type sound; rewriting for a join is correct.
  \<^item> \<open>Plan\<close> (\<^verbatim>\<open>execution/plan_node.cpp\<close>, \<^verbatim>\<open>optimizer/*.cpp\<close>), \<open>Mock_Scan\<close>, \<open>Executor\<close> (\<^verbatim>\<open>execution/*.cpp\<close>,
    \<^verbatim>\<open>include/execution/execution_engine.h\<close>), \<open>Query_Spec\<close>: the engine produces the rows of a plan, and the
    optimizer keeps them, for plans of values, mock scans, filters and projections, the executors
    that are implemented; the rule that merges a filter into a join is correct for inner joins, whose rows are given by
    their meaning since the join executors are stubs.
  \<^item> \<open>Optimizer_Spec\<close>: for plans of all nodes, every rewrite rule and the optimizer return well-formed plans on
    well-formed plans and throw nothing; a locale states what a rewrite of one node promises, and each rule
    interprets it.
  \<^item> \<open>Primer_Trie\<close> (\<^verbatim>\<open>include/primer/p0_trie.h\<close>): insertion, removal and lookup against a map from keys to values.

  \<^bold>\<open>Bounds.\<close>  Theorems that speak of sizes state them: fewer than \<open>2\<^sup>3\<^sup>1\<close> frames (from there on the check of \<^verbatim>\<open>RecordAccess\<close>
  rejects frames of the pool), rows below \<open>2\<^sup>3\<^sup>1\<close> bytes, page ids below the range where
  offsets overflow, fewer than \<open>2\<^sup>3\<^sup>2\<close> catalog entries, at most 113 header records.

  \<^bold>\<open>Not modelled.\<close>  The binder and the keyword helper work on the parse tree of \<^verbatim>\<open>libpg_query\<close>, a third-party
  library.  The planner turns bound statements into plans and depends on the binder's output; it and the
  database instance, which connects parser, binder, planner and engine with text output, are left out.  Printing
  by the fmt library (\<^verbatim>\<open>fmt_impl.cpp\<close>, \<^verbatim>\<open>PlanNodeToString\<close>) and debug drawing of the B+ tree are output only.  The lock
  manager, the log manager, recovery, checkpoints, the clock and LRU replacers, the hash tables on disk
  and their pages and the index iterator are, up to a few accessors, empty bodies, constant results or a throw in this
  repository, and the definitions that call them use those results.  Interleavings inside an operation are not
  modelled: where a latch is not held throughout, the model is the sequential behaviour.
\<close>

end
